(* ===== verification/Prelude.thy ===== *)
theory Prelude
  imports Main "HOL-Library.Word" "HOL-Library.Signed_Division"
begin

section \<open>Shared types, errors and lemmas\<close>

text \<open>
  What every component of the model shares: names for the machine integer types of the
  code, the ways a C++ operation can go wrong as values of one \<open>error\<close> type, the
  \<open>result\<close> type of fallible code with its sequencing operator, checked accesses to
  vectors, and the conversions between the integer types that the code performs.
  The generic lemmas on lists and words that several components use are here too.
\<close>

named_theorems result_simps \<open>unfolding of the result combinators\<close>

subsection \<open>Machine integers\<close>

type_synonym u8 = "8 word"
type_synonym u32 = "32 word"
type_synonym u64 = "64 word"

text \<open>
  Signed 64-bit values (\<open>int64_t\<close>) are kept as \<open>int\<close>; an operation whose
  mathematical result leaves the range is undefined behaviour in C++ and becomes an error
  of the model (\<open>chk64\<close> below). A value of type \<open>size_t\<close> is a \<open>nat\<close>; the
  conversions to and from it are written out.
\<close>

definition in_int64 :: "int \<Rightarrow> bool" where
  "in_int64 x \<longleftrightarrow> - (2 ^ 63) \<le> x \<and> x < 2 ^ 63"

definition to_size_t :: "int \<Rightarrow> nat" where
  "to_size_t x = nat (x mod 2 ^ 64)"

definition size_to_int :: "nat \<Rightarrow> int" where
  "size_to_int n = signed_take_bit 31 (int n)"

definition wrap_int64 :: "int \<Rightarrow> int" where
  "wrap_int64 x = signed_take_bit 63 x"

lemma to_size_t_id [simp]: "0 \<le> x \<Longrightarrow> x < 2 ^ 64 \<Longrightarrow> to_size_t x = nat x"
  by (simp add: to_size_t_def)

lemma size_to_int_id: "n < 2 ^ 31 \<Longrightarrow> size_to_int n = int n"
  by (simp add: size_to_int_def signed_take_bit_int_eq_self_iff)

lemma wrap_int64_id: "in_int64 x \<Longrightarrow> wrap_int64 x = x"
  by (simp add: in_int64_def wrap_int64_def signed_take_bit_int_eq_self_iff)

lemma unat_ucast_u32 [simp]: "unat (ucast (a :: u32) :: u64) = unat a"
  by transfer (simp add: take_bit_take_bit)

text \<open>Widening commutes with a subtraction that does not borrow.\<close>

lemma ucast_diff_u32:
  fixes a b :: u32
  assumes le: "b \<le> a"
  shows "(ucast (a - b) :: u64) = ucast a - ucast b"
proof -
  have "unat (ucast (a - b) :: u64) = unat a - unat b"
    using le by (simp add: unat_sub)
  moreover have "(ucast b :: u64) \<le> ucast a"
    using le by (simp add: word_le_nat_alt)
  hence "unat ((ucast a :: u64) - ucast b) = unat a - unat b"
    by (simp add: unat_sub)
  ultimately show ?thesis by (simp add: word_unat_eq_iff)
qed

lemma sdiv_nonneg: "0 \<le> (a::int) \<Longrightarrow> 0 < b \<Longrightarrow> a sdiv b = a div b"
  by (cases "a = 0") (auto simp: signed_divide_int_def)

subsection \<open>Errors\<close>

text \<open>
  \<open>ub\<close> lists the undefined behaviours of the language the code can run into,
  \<open>exn\<close> the exceptions it or the standard library throws.
\<close>

datatype ub =
    Out_Of_Bounds
  | Dangling_Iterator
  | Signed_Overflow
  | Division_By_Zero
  | Null_Pointer
  | Buffer_Overflow
  | Bad_Cast
  | Use_After_Free
  | Uninitialized
  | Resumed_Final

datatype exn =
    Runtime_Error string
  | Std_Out_Of_Range
  | Std_Length_Error
  | Std_Invalid_Argument
  | Api_Exception string

datatype error = UB ub | Throw exn | Terminate exn

type_synonym 'a result = "error + 'a"

definition bindE :: "'a result \<Rightarrow> ('a \<Rightarrow> 'b result) \<Rightarrow> 'b result" where
  "bindE r f = (case r of Inl e \<Rightarrow> Inl e | Inr x \<Rightarrow> f x)"

lemma bindE_Inl [simp, result_simps]: "bindE (Inl e) f = Inl e"
  by (simp add: bindE_def)

lemma bindE_Inr [simp, result_simps]: "bindE (Inr x) f = f x"
  by (simp add: bindE_def)

lemma bindE_eq_Inr: "bindE r f = Inr y \<longleftrightarrow> (\<exists>x. r = Inr x \<and> f x = Inr y)"
  by (cases r) auto

lemma bindE_eq_Inl: "bindE r f = Inl e \<longleftrightarrow> r = Inl e \<or> (\<exists>x. r = Inr x \<and> f x = Inl e)"
  by (cases r) auto

lemma bindE_assoc: "bindE (bindE r f) g = bindE r (\<lambda>x. bindE (f x) g)"
  by (cases r) auto

text \<open>A run of a fallible step over a list of inputs stops at the first error.\<close>

primrec foldE :: "('s \<Rightarrow> 'a \<Rightarrow> 's result) \<Rightarrow> 's \<Rightarrow> 'a list \<Rightarrow> 's result" where
  "foldE f s [] = Inr s"
| "foldE f s (x # xs) = bindE (f s x) (\<lambda>s'. foldE f s' xs)"

lemma foldE_append: "foldE f s (xs @ ys) = bindE (foldE f s xs) (\<lambda>s'. foldE f s' ys)"
  by (induction xs arbitrary: s) (auto simp: bindE_assoc)

text \<open>
  \<open>fine P r\<close>: the operation succeeds with a result that satisfies \<open>P\<close>, or it throws (a pool has run
  empty); it never leaves the defined behaviour.
\<close>

definition fine :: "('a \<Rightarrow> bool) \<Rightarrow> 'a result \<Rightarrow> bool" where
  "fine P r \<longleftrightarrow> (case r of Inr x \<Rightarrow> P x | Inl e \<Rightarrow> \<exists>m. e = Throw (Runtime_Error m))"

lemma fine_Inr [simp]: "fine P (Inr x) = P x"
  by (simp add: fine_def)

lemma fine_Inl [simp]: "fine P (Inl e) = (\<exists>m. e = Throw (Runtime_Error m))"
  by (simp add: fine_def)

lemma fine_bind: "fine Q r \<Longrightarrow> (\<And>x. Q x \<Longrightarrow> fine P (f x)) \<Longrightarrow> fine P (bindE r f)"
  by (cases r) auto

lemma fine_bind2: "fine (\<lambda>(a, b). Q a b) r \<Longrightarrow> (\<And>a b. Q a b \<Longrightarrow> fine P (f a b)) \<Longrightarrow> fine P (bindE r (\<lambda>(a, b). f a b))"
  by (cases r) auto

lemma fine_mono: "fine Q r \<Longrightarrow> (\<And>x. Q x \<Longrightarrow> P x) \<Longrightarrow> fine P r"
  by (auto simp: fine_def split: sum.splits)

subsection \<open>Checked arithmetic and vector access\<close>

definition chk64 :: "int \<Rightarrow> int result" where
  "chk64 x = (if in_int64 x then Inr x else Inl (UB Signed_Overflow))"

lemma chk64_ok [simp]: "in_int64 x \<Longrightarrow> chk64 x = Inr x"
  by (simp add: chk64_def)

lemma chk64_eq_Inr [simp]: "chk64 x = Inr y \<longleftrightarrow> in_int64 x \<and> y = x"
  by (auto simp: chk64_def)

definition vec_at :: "'a list \<Rightarrow> nat \<Rightarrow> 'a result" where
  "vec_at xs i = (if i < length xs then Inr (xs ! i) else Inl (UB Out_Of_Bounds))"

lemma vec_at_ok [simp]: "i < length xs \<Longrightarrow> vec_at xs i = Inr (xs ! i)"
  by (simp add: vec_at_def)

lemma vec_at_bad [simp]: "length xs \<le> i \<Longrightarrow> vec_at xs i = Inl (UB Out_Of_Bounds)"
  by (simp add: vec_at_def)

lemma vec_at_eq_Inr [simp]: "vec_at xs i = Inr x \<longleftrightarrow> i < length xs \<and> x = xs ! i"
  by (auto simp: vec_at_def)

subsection \<open>Lists\<close>

lemma sum_list_update_word:
  fixes f :: "'a \<Rightarrow> 'b::ab_group_add"
  shows "i < length xs \<Longrightarrow>
    (\<Sum>x\<leftarrow>xs[i := y]. f x) = (\<Sum>x\<leftarrow>xs. f x) - f (xs ! i) + f y"
  by (induction xs arbitrary: i) (auto split: nat.splits)

lemma map_of_distinct_iff:
  "distinct (map fst xs) \<Longrightarrow> map_of xs k = Some v \<longleftrightarrow> (k, v) \<in> set xs"
  by simp

end
