(* ===== verification/OrderBook.thy ===== *)
theory OrderBook
  imports Prelude
begin

section \<open>The order book engine (src/orderbook/orderbook.h)\<close>

text \<open>
  The state of the class \<open>OrderBook\<close> and every operation that changes it: the
  constructor, \<open>apply\<close> with its dispatch, \<open>add\<close>, \<open>cancel\<close>, \<open>modify\<close>,
  \<open>handle_trade\<close>, \<open>handle_full_fill\<close>, \<open>handle_non_printed\<close> and \<open>clear\<close>.
  The price levels are two vectors indexed by \<open>price_to_index\<close>; a level holds a
  FIFO list of orders and a cached total; a hash table maps an order id to its side, level
  index, list iterator and price.

  A \<open>std::list\<close> iterator is the address of a list node and stays valid while the node
  lives, whatever happens around it. So a queue of the model is a list of pairs
  of a node address and the order in it, and a new node takes the next unused address
  (\<open>next_node\<close>). An iterator that names no node of its queue is dangling, and reading
  through it is an error. Order ids need not be unique: the code does not check them.
\<close>

subsection \<open>State\<close>

type_synonym node = nat

record order =
  order_id :: u64
  order_size :: u32

record level =
  queue :: "(node \<times> order) list"
  total_size :: u64

record ref =
  ref_is_bid :: bool
  ref_index :: nat
  ref_it :: node
  ref_price :: int

record order_book =
  price_min :: int
  price_max :: int
  tick_size :: int
  num_levels :: nat
  bids :: "level list"
  asks :: "level list"
  orders_ref :: "u64 \<rightharpoonup> ref"
  next_node :: node

text \<open>
  The fields of \<open>databento::MboMsg\<close> that the code reads, with the widths the vendor
  documents: the record header (\<open>hd\<close>), the order id, the price in units of 1e-9, the
  size, the action and side characters, and the metadata copied into the feed snapshots.
\<close>

record mbo_msg =
  msg_order_id :: u64
  msg_price :: int
  msg_size :: u32
  msg_action :: char
  msg_side :: char
  msg_rtype :: u8
  msg_ts_event :: u64
  msg_instrument_id :: u32
  msg_publisher_id :: "16 word"
  msg_length :: u8
  msg_flags :: u8
  msg_ts_recv :: u64
  msg_ts_in_delta :: int
  msg_sequence :: u32

definition level_empty :: "level \<Rightarrow> bool" where
  "level_empty lvl \<longleftrightarrow> queue lvl = []"

definition empty_level :: level where
  "empty_level = \<lparr>queue = [], total_size = 0\<rparr>"

subsection \<open>Constructor and access\<close>

text \<open>
  The number of levels is computed in \<open>int64_t\<close> and converted to \<open>size_t\<close>;
  \<open>resize\<close> throws when it exceeds the \<open>max_size\<close> of the vector, which the standard
  library fixes and the model takes as a parameter.
\<close>

definition new_order_book :: "nat \<Rightarrow> int \<Rightarrow> int \<Rightarrow> int \<Rightarrow> order_book result" where
  "new_order_book max_size pmin pmax tick =
     bindE (chk64 (pmax - pmin)) (\<lambda>range.
     bindE (if tick = 0 then Inl (UB Division_By_Zero) else chk64 (range sdiv tick)) (\<lambda>q.
     bindE (chk64 (q + 1)) (\<lambda>n64.
       let n = to_size_t n64 in
       if max_size < n then Inl (Throw Std_Length_Error)
       else Inr \<lparr>price_min = pmin, price_max = pmax, tick_size = tick, num_levels = n,
                 bids = replicate n empty_level, asks = replicate n empty_level,
                 orders_ref = Map.empty, next_node = 0\<rparr>)))"

definition price_to_index :: "order_book \<Rightarrow> int \<Rightarrow> nat result" where
  "price_to_index ob px =
     bindE (chk64 (px - price_min ob)) (\<lambda>d.
     bindE (if tick_size ob = 0 then Inl (UB Division_By_Zero) else chk64 (d sdiv tick_size ob))
       (\<lambda>q. Inr (to_size_t q)))"

definition side_levels :: "order_book \<Rightarrow> bool \<Rightarrow> level list" where
  "side_levels ob is_bid = (if is_bid then bids ob else asks ob)"

definition get_side :: "order_book \<Rightarrow> bool \<Rightarrow> nat \<Rightarrow> level result" where
  "get_side ob is_bid idx = (if is_bid then vec_at (bids ob) idx else vec_at (asks ob) idx)"

text \<open>Writing through the reference that \<open>get_side\<close> returns.\<close>

definition put_side :: "order_book \<Rightarrow> bool \<Rightarrow> nat \<Rightarrow> level \<Rightarrow> order_book" where
  "put_side ob is_bid idx lvl =
     (if is_bid then ob\<lparr>bids := (bids ob)[idx := lvl]\<rparr> else ob\<lparr>asks := (asks ob)[idx := lvl]\<rparr>)"

subsection \<open>List iterators\<close>

definition deref :: "level \<Rightarrow> node \<Rightarrow> order result" where
  "deref lvl n = (case map_of (queue lvl) n of
     None \<Rightarrow> Inl (UB Dangling_Iterator) | Some ord \<Rightarrow> Inr ord)"

definition erase_node :: "node \<Rightarrow> (node \<times> order) list \<Rightarrow> (node \<times> order) list" where
  "erase_node n q = filter (\<lambda>e. fst e \<noteq> n) q"

definition set_node_size :: "node \<Rightarrow> u32 \<Rightarrow> (node \<times> order) list \<Rightarrow> (node \<times> order) list" where
  "set_node_size n sz q = map (\<lambda>e. if fst e = n then (n, (snd e)\<lparr>order_size := sz\<rparr>) else e) q"

text \<open>\<open>queue.splice(queue.end(), queue, it)\<close>: the node moves to the back, keeping its address.\<close>

definition splice_to_end :: "node \<Rightarrow> (node \<times> order) list \<Rightarrow> (node \<times> order) list" where
  "splice_to_end n q = filter (\<lambda>e. fst e \<noteq> n) q @ filter (\<lambda>e. fst e = n) q"

subsection \<open>Operations\<close>

definition add :: "order_book \<Rightarrow> mbo_msg \<Rightarrow> bool \<Rightarrow> nat \<Rightarrow> order_book result" where
  "add ob mbo is_bid idx =
     bindE (get_side ob is_bid idx) (\<lambda>lvl.
       let it = next_node ob;
           lvl' = lvl\<lparr>queue := queue lvl @
                        [(it, \<lparr>order_id = msg_order_id mbo, order_size = msg_size mbo\<rparr>)],
                      total_size := total_size lvl + ucast (msg_size mbo)\<rparr>
       in Inr ((put_side ob is_bid idx lvl')
            \<lparr>orders_ref := (orders_ref ob)(msg_order_id mbo \<mapsto>
               \<lparr>ref_is_bid = is_bid, ref_index = idx, ref_it = it, ref_price = msg_price mbo\<rparr>),
             next_node := Suc it\<rparr>))"

definition cancel :: "order_book \<Rightarrow> mbo_msg \<Rightarrow> order_book result" where
  "cancel ob mbo = (case orders_ref ob (msg_order_id mbo) of
     None \<Rightarrow> Inr ob
   | Some r \<Rightarrow>
       bindE (get_side ob (ref_is_bid r) (ref_index r)) (\<lambda>lvl.
       bindE (deref lvl (ref_it r)) (\<lambda>ord.
         let cancel_sz = msg_size mbo; ord_sz = order_size ord in
         if cancel_sz \<ge> ord_sz then
           Inr ((put_side ob (ref_is_bid r) (ref_index r)
                  (lvl\<lparr>total_size := total_size lvl - ucast ord_sz,
                       queue := erase_node (ref_it r) (queue lvl)\<rparr>))
                \<lparr>orders_ref := (orders_ref ob)(msg_order_id mbo := None)\<rparr>)
         else
           Inr (put_side ob (ref_is_bid r) (ref_index r)
                  (lvl\<lparr>queue := set_node_size (ref_it r) (ord_sz - cancel_sz) (queue lvl),
                       total_size := total_size lvl - ucast cancel_sz\<rparr>)))))"

definition modify :: "order_book \<Rightarrow> mbo_msg \<Rightarrow> bool \<Rightarrow> nat \<Rightarrow> order_book result" where
  "modify ob mbo new_is_bid new_idx = (case orders_ref ob (msg_order_id mbo) of
     None \<Rightarrow> add ob mbo new_is_bid new_idx
   | Some r \<Rightarrow>
       bindE (get_side ob (ref_is_bid r) (ref_index r)) (\<lambda>old_level.
       bindE (deref old_level (ref_it r)) (\<lambda>ord.
         let old_size = order_size ord;
             removed = (put_side ob (ref_is_bid r) (ref_index r)
                         (old_level\<lparr>total_size := total_size old_level - ucast old_size,
                                    queue := erase_node (ref_it r) (queue old_level)\<rparr>))
                       \<lparr>orders_ref := (orders_ref ob)(msg_order_id mbo := None)\<rparr>;
             repriced = (orders_ref ob)(msg_order_id mbo \<mapsto> r\<lparr>ref_price := msg_price mbo\<rparr>)
         in
         if msg_size mbo = 0 then Inr removed
         else if msg_price mbo \<noteq> ref_price r then add removed mbo new_is_bid new_idx
         else if msg_size mbo > old_size then
           Inr ((put_side ob (ref_is_bid r) (ref_index r)
                  (old_level\<lparr>total_size := total_size old_level + ucast (msg_size mbo - old_size),
                     queue := splice_to_end (ref_it r)
                                (set_node_size (ref_it r) (msg_size mbo) (queue old_level))\<rparr>))
                \<lparr>orders_ref := repriced\<rparr>)
         else if msg_size mbo < old_size then
           Inr ((put_side ob (ref_is_bid r) (ref_index r)
                  (old_level\<lparr>total_size := total_size old_level - ucast (old_size - msg_size mbo),
                     queue := set_node_size (ref_it r) (msg_size mbo) (queue old_level)\<rparr>))
                \<lparr>orders_ref := repriced\<rparr>)
         else Inr (ob\<lparr>orders_ref := repriced\<rparr>))))"

definition handle_trade :: "order_book \<Rightarrow> mbo_msg \<Rightarrow> order_book result" where
  "handle_trade ob mbo = (case orders_ref ob (msg_order_id mbo) of
     None \<Rightarrow> Inr ob
   | Some r \<Rightarrow>
       bindE (get_side ob (ref_is_bid r) (ref_index r)) (\<lambda>lvl.
       bindE (deref lvl (ref_it r)) (\<lambda>ord.
         let ord_sz = order_size ord in
         if msg_size mbo \<ge> ord_sz then
           Inr ((put_side ob (ref_is_bid r) (ref_index r)
                  (lvl\<lparr>total_size := total_size lvl - ucast ord_sz,
                       queue := erase_node (ref_it r) (queue lvl)\<rparr>))
                \<lparr>orders_ref := (orders_ref ob)(msg_order_id mbo := None)\<rparr>)
         else
           Inr (put_side ob (ref_is_bid r) (ref_index r)
                  (lvl\<lparr>queue := set_node_size (ref_it r) (ord_sz - msg_size mbo) (queue lvl),
                       total_size := total_size lvl - ucast (msg_size mbo)\<rparr>)))))"

definition handle_full_fill :: "order_book \<Rightarrow> mbo_msg \<Rightarrow> order_book result" where
  "handle_full_fill ob mbo = (case orders_ref ob (msg_order_id mbo) of
     None \<Rightarrow> Inr ob
   | Some r \<Rightarrow>
       bindE (get_side ob (ref_is_bid r) (ref_index r)) (\<lambda>lvl.
       bindE (deref lvl (ref_it r)) (\<lambda>ord.
         Inr ((put_side ob (ref_is_bid r) (ref_index r)
                (lvl\<lparr>total_size := total_size lvl - ucast (order_size ord),
                     queue := erase_node (ref_it r) (queue lvl)\<rparr>))
              \<lparr>orders_ref := (orders_ref ob)(msg_order_id mbo := None)\<rparr>))))"

definition handle_non_printed :: "order_book \<Rightarrow> mbo_msg \<Rightarrow> order_book result" where
  "handle_non_printed ob mbo = handle_trade ob mbo"

definition clear :: "order_book \<Rightarrow> order_book" where
  "clear ob = ob\<lparr>bids := map (\<lambda>_. empty_level) (bids ob),
                 asks := map (\<lambda>_. empty_level) (asks ob), orders_ref := Map.empty\<rparr>"

definition apply_msg :: "order_book \<Rightarrow> mbo_msg \<Rightarrow> order_book result" where
  "apply_msg ob mbo =
     (let action = msg_action mbo; side = msg_side mbo in
      if action = CHR ''R'' then Inr (clear ob)
      else if side \<noteq> CHR ''A'' \<and> side \<noteq> CHR ''B'' then Inr ob
      else
        let is_bid = (side = CHR ''B'') in
        bindE (price_to_index ob (msg_price mbo)) (\<lambda>idx.
          if action = CHR ''T'' then handle_trade ob mbo
          else if action = CHR ''F'' then handle_full_fill ob mbo
          else if action = CHR ''N'' then handle_non_printed ob mbo
          else if action = CHR ''A'' then add ob mbo is_bid idx
          else if action = CHR ''C'' then cancel ob mbo
          else if action = CHR ''M'' then modify ob mbo is_bid idx
          else Inr ob))"

definition apply_all :: "order_book \<Rightarrow> mbo_msg list \<Rightarrow> order_book result" where
  "apply_all ob msgs = foldE apply_msg ob msgs"

end
