(* ===== verification/OrderBook_Inv.thy ===== *)
theory OrderBook_Inv
  imports OrderBook
begin

section \<open>Invariants of the order book\<close>

text \<open>
  The representation invariant of the order book, that every operation preserves it, and
  what follows: no operation but \<open>add\<close> can fail, and the cached total of a level is
  the sum of its orders. \<open>book_inv\<close> holds even when a feed reuses a live order id;
  \<open>tracked\<close> (every queued order is reachable through the id table) needs the ids of
  added orders to be fresh.
\<close>

subsection \<open>Frame lemmas\<close>

lemma get_side_eq: "get_side ob b i = vec_at (side_levels ob b) i"
  by (simp add: get_side_def side_levels_def)

lemma put_side_fields [simp]:
  "price_min (put_side ob b i l) = price_min ob" "price_max (put_side ob b i l) = price_max ob"
  "tick_size (put_side ob b i l) = tick_size ob" "num_levels (put_side ob b i l) = num_levels ob"
  "orders_ref (put_side ob b i l) = orders_ref ob" "next_node (put_side ob b i l) = next_node ob"
  by (simp_all add: put_side_def)

lemma side_levels_put_side [simp]:
  "side_levels (put_side ob b i l) b' =
     (if b' = b then (side_levels ob b)[i := l] else side_levels ob b')"
  by (auto simp: put_side_def side_levels_def)

lemma side_levels_upd [simp]:
  "side_levels (ob\<lparr>orders_ref := m\<rparr>) b = side_levels ob b"
  "side_levels (ob\<lparr>next_node := k\<rparr>) b = side_levels ob b"
  by (simp_all add: side_levels_def)

lemma put_side_same: "i < length (side_levels ob b) \<Longrightarrow> put_side ob b i (side_levels ob b ! i) = ob"
  by (simp add: put_side_def side_levels_def)

lemma put_side_refs_same [simp]:
  "(put_side ob b i l)\<lparr>orders_ref := orders_ref ob\<rparr> = put_side ob b i l"
  by (cases ob) (simp add: put_side_def)

lemma level_update_swap:
  "lvl\<lparr>queue := q, total_size := t\<rparr> = lvl\<lparr>total_size := t, queue := q\<rparr>"
  by (cases lvl) simp

subsection \<open>Queues\<close>

definition queue_sum :: "(node \<times> order) list \<Rightarrow> u64" where
  "queue_sum q = (\<Sum>e\<leftarrow>q. ucast (order_size (snd e)))"

lemma queue_sum_simps [simp]:
  "queue_sum [] = 0"
  "queue_sum (e # q) = ucast (order_size (snd e)) + queue_sum q"
  "queue_sum (q @ q') = queue_sum q + queue_sum q'"
  by (simp_all add: queue_sum_def)

lemma erase_node_simps [simp]:
  "erase_node n [] = []"
  "erase_node n (e # q) = (if fst e = n then erase_node n q else e # erase_node n q)"
  by (simp_all add: erase_node_def)

lemma set_node_size_simps [simp]:
  "set_node_size n s [] = []"
  "set_node_size n s (e # q) =
     (if fst e = n then (n, (snd e)\<lparr>order_size := s\<rparr>) else e) # set_node_size n s q"
  by (simp_all add: set_node_size_def)

lemma map_fst_set_node_size [simp]: "map fst (set_node_size n s q) = map fst q"
  by (induction q) auto

lemma map_fst_erase_node: "map fst (erase_node n q) = filter (\<lambda>k. k \<noteq> n) (map fst q)"
  by (induction q) auto

lemma erase_node_id: "n \<notin> fst ` set q \<Longrightarrow> erase_node n q = q"
  by (induction q) auto

lemma set_node_size_id: "n \<notin> fst ` set q \<Longrightarrow> set_node_size n s q = q"
  by (induction q) (auto intro: prod_eqI)

lemma filter_node: "distinct (map fst q) \<Longrightarrow> map_of q n = Some ord \<Longrightarrow>
    filter (\<lambda>e. fst e = n) q = [(n, ord)]"
  by (induction q) (auto split: if_splits simp: filter_empty_conv image_iff)

lemma splice_to_end_eq: "distinct (map fst q) \<Longrightarrow> map_of q n = Some ord \<Longrightarrow>
    splice_to_end n q = erase_node n q @ [(n, ord)]"
  by (simp add: splice_to_end_def erase_node_def filter_node)

lemma map_of_set_node_size:
  "map_of q n = Some ord \<Longrightarrow> map_of (set_node_size n s q) n = Some (ord\<lparr>order_size := s\<rparr>)"
  by (induction q) (auto split: if_splits)

lemma map_of_set_node_size_other [simp]: "k \<noteq> n \<Longrightarrow> map_of (set_node_size n s q) k = map_of q k"
  by (induction q) auto

lemma map_of_erase_node [simp]: "map_of (erase_node n q) k = (if k = n then None else map_of q k)"
  by (induction q) auto

lemma fst_set_node_size [simp]: "fst ` set (set_node_size n s q) = fst ` set q"
  by (metis list.set_map map_fst_set_node_size)

lemma fst_erase_node: "fst ` set (erase_node n q) = fst ` set q - {n}"
  by (induction q) auto

lemma erase_set_node_size [simp]: "erase_node n (set_node_size n s q) = erase_node n q"
  by (induction q) auto

lemma queue_sum_erase:
  "distinct (map fst q) \<Longrightarrow> map_of q n = Some ord \<Longrightarrow>
    queue_sum (erase_node n q) = queue_sum q - ucast (order_size ord)"
  by (induction q) (auto split: if_splits simp: erase_node_id image_iff)

lemma queue_sum_set_node_size:
  "distinct (map fst q) \<Longrightarrow> map_of q n = Some ord \<Longrightarrow>
    queue_sum (set_node_size n s q) = queue_sum q - ucast (order_size ord) + ucast s"
  by (induction q) (auto split: if_splits simp: set_node_size_id image_iff)

lemma set_erase_node: "set (erase_node n q) = {e \<in> set q. fst e \<noteq> n}"
  by (simp add: erase_node_def)

lemma set_set_node_size:
  "distinct (map fst q) \<Longrightarrow> map_of q n = Some ord \<Longrightarrow>
    set (set_node_size n s q) = insert (n, ord\<lparr>order_size := s\<rparr>) {e \<in> set q. fst e \<noteq> n}"
  by (induction q) (auto split: if_splits simp: set_node_size_id image_iff)

subsection \<open>The invariant\<close>

definition level_ok :: "level \<Rightarrow> bool" where
  "level_ok lvl \<longleftrightarrow> distinct (map fst (queue lvl)) \<and> total_size lvl = queue_sum (queue lvl)"

definition ref_ok :: "order_book \<Rightarrow> u64 \<Rightarrow> ref \<Rightarrow> bool" where
  "ref_ok ob oid r \<longleftrightarrow> ref_index r < num_levels ob \<and>
     (\<exists>ord. map_of (queue (side_levels ob (ref_is_bid r) ! ref_index r)) (ref_it r) = Some ord
            \<and> order_id ord = oid)"

definition book_inv :: "order_book \<Rightarrow> bool" where
  "book_inv ob \<longleftrightarrow>
     (\<forall>b. length (side_levels ob b) = num_levels ob) \<and>
     (\<forall>b. \<forall>lvl \<in> set (side_levels ob b).
        level_ok lvl \<and> (\<forall>n \<in> fst ` set (queue lvl). n < next_node ob)) \<and>
     (\<forall>oid r. orders_ref ob oid = Some r \<longrightarrow> ref_ok ob oid r)"

lemma book_inv_length: "book_inv ob \<Longrightarrow> length (side_levels ob b) = num_levels ob"
  by (simp add: book_inv_def)

lemma book_inv_level:
  "book_inv ob \<Longrightarrow> i < num_levels ob \<Longrightarrow> level_ok (side_levels ob b ! i)"
  by (metis book_inv_def nth_mem)

lemma book_inv_node:
  "book_inv ob \<Longrightarrow> i < num_levels ob \<Longrightarrow> n \<in> fst ` set (queue (side_levels ob b ! i)) \<Longrightarrow>
    n < next_node ob"
  by (metis book_inv_def nth_mem)

lemma book_inv_ref: "book_inv ob \<Longrightarrow> orders_ref ob oid = Some r \<Longrightarrow> ref_ok ob oid r"
  by (simp add: book_inv_def)

text \<open>The lookups that the operations make through a stored reference all succeed.\<close>

lemma ref_lookup:
  assumes "book_inv ob" "orders_ref ob oid = Some r"
  obtains lvl ord where "lvl = side_levels ob (ref_is_bid r) ! ref_index r"
    "get_side ob (ref_is_bid r) (ref_index r) = Inr lvl" "deref lvl (ref_it r) = Inr ord"
    "map_of (queue lvl) (ref_it r) = Some ord" "order_id ord = oid" "level_ok lvl"
    "ref_index r < num_levels ob"
  using assms book_inv_ref [OF assms] book_inv_length [OF assms(1)] book_inv_level [OF assms(1)]
  by (auto simp: ref_ok_def get_side_eq deref_def)

text \<open>
  All operations but \<open>clear\<close> change one level and one entry of the id table.
  \<open>level_update\<close> says so; what happens to the level is in \<open>lvl'\<close>, and \<open>mr\<close> is
  the new entry of the order \<open>oid\<close>.
\<close>

definition level_update ::
    "order_book \<Rightarrow> bool \<Rightarrow> nat \<Rightarrow> level \<Rightarrow> u64 \<Rightarrow> ref option \<Rightarrow> order_book \<Rightarrow> bool" where
  "level_update ob b i lvl' oid mr ob' \<longleftrightarrow>
     i < num_levels ob \<and>
     (\<forall>b'. side_levels ob' b' = (if b' = b then (side_levels ob b)[i := lvl'] else side_levels ob b')) \<and>
     num_levels ob' = num_levels ob \<and> orders_ref ob' = (orders_ref ob)(oid := mr) \<and>
     next_node ob \<le> next_node ob' \<and>
     price_min ob' = price_min ob \<and> price_max ob' = price_max ob \<and> tick_size ob' = tick_size ob"

text \<open>
  Such a change keeps the invariant when the new level is consistent, keeps the other
  orders of the level, and holds the order that the new table entry points to.
\<close>

definition level_change_ok ::
    "order_book \<Rightarrow> bool \<Rightarrow> nat \<Rightarrow> level \<Rightarrow> u64 \<Rightarrow> ref option \<Rightarrow> node \<Rightarrow> bool" where
  "level_change_ok ob b i lvl' oid mr k \<longleftrightarrow>
     level_ok lvl' \<and> (\<forall>n \<in> fst ` set (queue lvl'). n < k) \<and>
     (\<forall>n ord. map_of (queue (side_levels ob b ! i)) n = Some ord \<longrightarrow> order_id ord \<noteq> oid \<longrightarrow>
        map_of (queue lvl') n = Some ord) \<and>
     (\<forall>r. mr = Some r \<longrightarrow> ref_is_bid r = b \<and> ref_index r = i \<and>
        (\<exists>ord. map_of (queue lvl') (ref_it r) = Some ord \<and> order_id ord = oid))"

lemma book_inv_update:
  assumes inv: "book_inv ob" and upd: "level_update ob b i lvl' oid mr ob'"
    and ok: "level_change_ok ob b i lvl' oid mr (next_node ob')"
  shows "book_inv ob'"
  unfolding book_inv_def
proof (intro conjI allI impI)
  fix b'
  show "length (side_levels ob' b') = num_levels ob'"
    using inv upd by (simp add: book_inv_def level_update_def)
next
  fix b'
  show "\<forall>lvl \<in> set (side_levels ob' b'). level_ok lvl \<and> (\<forall>n \<in> fst ` set (queue lvl). n < next_node ob')"
  proof
    fix lvl assume "lvl \<in> set (side_levels ob' b')"
    with upd have "lvl = lvl' \<or> lvl \<in> set (side_levels ob b')"
      by (auto simp: level_update_def dest!: set_update_subset_insert [THEN subsetD] split: if_splits)
    then show "level_ok lvl \<and> (\<forall>n \<in> fst ` set (queue lvl). n < next_node ob')"
    proof
      assume "lvl = lvl'"
      with ok show ?thesis by (simp add: level_change_ok_def)
    next
      assume "lvl \<in> set (side_levels ob b')"
      with inv have "level_ok lvl" "\<forall>n \<in> fst ` set (queue lvl). n < next_node ob"
        by (simp_all add: book_inv_def)
      moreover have "next_node ob \<le> next_node ob'" using upd by (simp add: level_update_def)
      ultimately show ?thesis by auto
    qed
  qed
next
  fix oid' r
  assume r: "orders_ref ob' oid' = Some r"
  show "ref_ok ob' oid' r"
  proof (cases "oid' = oid")
    case True
    with r upd ok inv show ?thesis
      by (auto simp: ref_ok_def level_update_def level_change_ok_def book_inv_def)
  next
    case False
    with r upd have "orders_ref ob oid' = Some r" by (simp add: level_update_def)
    with inv have "ref_ok ob oid' r" by (rule book_inv_ref)
    with False upd ok inv show ?thesis
      by (auto simp: ref_ok_def level_update_def level_change_ok_def book_inv_def nth_list_update)
  qed
qed

subsection \<open>The four kinds of level change\<close>

lemma level_change_okI:
  assumes "level_ok lvl'" "\<And>n. n \<in> fst ` set (queue lvl') \<Longrightarrow> n < k"
    and "\<And>n ord. map_of (queue (side_levels ob b ! i)) n = Some ord \<Longrightarrow> order_id ord \<noteq> oid \<Longrightarrow>
           map_of (queue lvl') n = Some ord"
    and "\<And>r. mr = Some r \<Longrightarrow> ref_is_bid r = b \<and> ref_index r = i \<and>
           (\<exists>ord. map_of (queue lvl') (ref_it r) = Some ord \<and> order_id ord = oid)"
  shows "level_change_ok ob b i lvl' oid mr k"
  using assms by (simp add: level_change_ok_def del: map_of_eq_Some_iff)

lemma change_erase:
  assumes inv: "book_inv ob" and r: "orders_ref ob oid = Some r"
    and lvl: "lvl = side_levels ob (ref_is_bid r) ! ref_index r"
    and ord: "map_of (queue lvl) (ref_it r) = Some ord"
    and q: "queue lvl' = erase_node (ref_it r) (queue lvl)"
    and t: "total_size lvl' = total_size lvl - ucast (order_size ord)"
  shows "level_change_ok ob (ref_is_bid r) (ref_index r) lvl' oid None (next_node ob)"
proof -
  from inv r obtain ok: "level_ok lvl" "order_id ord = oid" "ref_index r < num_levels ob"
    by (rule ref_lookup) (use lvl ord in auto)
  show ?thesis
  proof (rule level_change_okI)
    show "level_ok lvl'"
      using ok(1) ord by (simp add: level_ok_def q t queue_sum_erase map_fst_erase_node del: map_of_eq_Some_iff)
    show "n < next_node ob" if "n \<in> fst ` set (queue lvl')" for n
      using that book_inv_node [OF inv ok(3)] by (auto simp: q fst_erase_node lvl)
    show "map_of (queue lvl') n = Some o'"
      if "map_of (queue (side_levels ob (ref_is_bid r) ! ref_index r)) n = Some o'" "order_id o' \<noteq> oid"
      for n o'
      using that ord ok(2) by (auto simp: q lvl simp del: map_of_eq_Some_iff)
  qed simp
qed

lemma change_resize:
  assumes inv: "book_inv ob" and r: "orders_ref ob oid = Some r"
    and lvl: "lvl = side_levels ob (ref_is_bid r) ! ref_index r"
    and ord: "map_of (queue lvl) (ref_it r) = Some ord"
    and q: "queue lvl' = set_node_size (ref_it r) s (queue lvl) \<or>
            queue lvl' = splice_to_end (ref_it r) (set_node_size (ref_it r) s (queue lvl))"
    and t: "total_size lvl' = total_size lvl - ucast (order_size ord) + ucast s"
    and r': "ref_is_bid r' = ref_is_bid r" "ref_index r' = ref_index r" "ref_it r' = ref_it r"
  shows "level_change_ok ob (ref_is_bid r) (ref_index r) lvl' oid (Some r') (next_node ob)"
proof -
  let ?n = "ref_it r"
  from inv r obtain ok: "level_ok lvl" "order_id ord = oid" "ref_index r < num_levels ob"
    by (rule ref_lookup) (use lvl ord in auto)
  from ok(1) have d: "distinct (map fst (queue lvl))" by (simp add: level_ok_def)
  have q': "queue lvl' = set_node_size ?n s (queue lvl) \<or>
            queue lvl' = erase_node ?n (queue lvl) @ [(?n, ord\<lparr>order_size := s\<rparr>)]"
    using q splice_to_end_eq [of "set_node_size ?n s (queue lvl)" ?n] d ord
    by (auto simp: map_of_set_node_size simp del: map_of_eq_Some_iff)
  from ord have n: "?n \<in> fst ` set (queue lvl)" by (metis domI dom_map_of_conv_image_fst)
  have m: "map_of (queue lvl') ?n = Some (ord\<lparr>order_size := s\<rparr>)"
      "map_of (queue lvl') k = map_of (queue lvl) k \<or> k = ?n"
      "fst ` set (queue lvl') = fst ` set (queue lvl)" "distinct (map fst (queue lvl'))"
      "queue_sum (queue lvl') = queue_sum (queue lvl) - ucast (order_size ord) + ucast s" for k
    using q' d ord n
    by (elim disjE; force simp: map_of_set_node_size map_add_def fst_erase_node map_fst_erase_node
          queue_sum_erase queue_sum_set_node_size simp del: map_of_eq_Some_iff
          split: option.splits)+
  show ?thesis
  proof (rule level_change_okI)
    show "level_ok lvl'" using ok(1) m by (simp add: level_ok_def t)
    show "n < next_node ob" if "n \<in> fst ` set (queue lvl')" for n
      using that book_inv_node [OF inv ok(3)] by (simp add: m(3) lvl)
    show "map_of (queue lvl') n = Some o'"
      if "map_of (queue (side_levels ob (ref_is_bid r) ! ref_index r)) n = Some o'" "order_id o' \<noteq> oid"
      for n o'
      using that ord ok(2) m(2) [of n] by (metis lvl option.inject)
  qed (use m(1) r' ok(2) in simp)
qed

subsection \<open>Every operation on a live order is one of three effects\<close>

datatype effect = Erase | Resize u32 | Requeue u32

fun effect_level :: "effect \<Rightarrow> node \<Rightarrow> order \<Rightarrow> level \<Rightarrow> level" where
  "effect_level Erase n ord lvl =
     lvl\<lparr>total_size := total_size lvl - ucast (order_size ord), queue := erase_node n (queue lvl)\<rparr>"
| "effect_level (Resize s) n ord lvl =
     lvl\<lparr>total_size := total_size lvl - ucast (order_size ord) + ucast s,
         queue := set_node_size n s (queue lvl)\<rparr>"
| "effect_level (Requeue s) n ord lvl =
     lvl\<lparr>total_size := total_size lvl - ucast (order_size ord) + ucast s,
         queue := splice_to_end n (set_node_size n s (queue lvl))\<rparr>"

definition run_effect :: "order_book \<Rightarrow> u64 \<Rightarrow> ref \<Rightarrow> order \<Rightarrow> effect \<Rightarrow> order_book" where
  "run_effect ob oid r ord eff =
     (put_side ob (ref_is_bid r) (ref_index r)
        (effect_level eff (ref_it r) ord (side_levels ob (ref_is_bid r) ! ref_index r)))
     \<lparr>orders_ref := (orders_ref ob)(oid := (if eff = Erase then None else Some r))\<rparr>"

text \<open>\<open>live ob oid r ord\<close>: the id table and the queue agree that \<open>oid\<close> rests in the book.\<close>

definition live :: "order_book \<Rightarrow> u64 \<Rightarrow> ref \<Rightarrow> order \<Rightarrow> bool" where
  "live ob oid r ord \<longleftrightarrow> orders_ref ob oid = Some r \<and> ref_index r < num_levels ob \<and>
     map_of (queue (side_levels ob (ref_is_bid r) ! ref_index r)) (ref_it r) = Some ord \<and>
     order_id ord = oid"

lemma live_ex: "book_inv ob \<Longrightarrow> orders_ref ob oid = Some r \<Longrightarrow> \<exists>ord. live ob oid r ord"
  by (auto simp: live_def ref_ok_def dest!: book_inv_ref)

lemma live_lookup:
  assumes "book_inv ob" "live ob oid r ord"
  shows "orders_ref ob oid = Some r"
    "get_side ob (ref_is_bid r) (ref_index r) = Inr (side_levels ob (ref_is_bid r) ! ref_index r)"
    "deref (side_levels ob (ref_is_bid r) ! ref_index r) (ref_it r) = Inr ord"
  using assms book_inv_length [OF assms(1)]
  by (auto simp: live_def get_side_eq deref_def simp del: map_of_eq_Some_iff)

definition reduce_effect :: "u32 \<Rightarrow> order \<Rightarrow> effect" where
  "reduce_effect q ord = (if order_size ord \<le> q then Erase else Resize (order_size ord - q))"

lemma effect_level_shrink:
  "q \<le> order_size ord \<Longrightarrow>
   effect_level (Resize (order_size ord - q)) n ord lvl =
     lvl\<lparr>queue := set_node_size n (order_size ord - q) (queue lvl),
         total_size := total_size lvl - ucast q\<rparr>"
  by (simp add: ucast_diff_u32)

lemma set_node_size_same:
  "distinct (map fst q) \<Longrightarrow> map_of q n = Some ord \<Longrightarrow> set_node_size n (order_size ord) q = q"
  by (induction q) (auto split: if_splits simp: set_node_size_id image_iff)

lemma cancel_eq:
  assumes "book_inv ob" "live ob (msg_order_id m) r ord"
  shows "cancel ob m = Inr (run_effect ob (msg_order_id m) r ord (reduce_effect (msg_size m) ord))"
  using live_lookup [OF assms]
  by (simp add: cancel_def run_effect_def reduce_effect_def ucast_diff_u32 Let_def fun_upd_idem
      level_update_swap)

lemma handle_trade_eq_cancel: "handle_trade ob m = cancel ob m"
  unfolding handle_trade_def cancel_def Let_def ..

lemma handle_full_fill_eq:
  assumes "book_inv ob" "live ob (msg_order_id m) r ord"
  shows "handle_full_fill ob m = Inr (run_effect ob (msg_order_id m) r ord Erase)"
  using live_lookup [OF assms] by (simp add: handle_full_fill_def run_effect_def)

lemma modify_eq:
  assumes inv: "book_inv ob" and l: "live ob (msg_order_id m) r ord"
  shows "modify ob m b i =
    (if msg_size m = 0 then Inr (run_effect ob (msg_order_id m) r ord Erase)
     else if msg_price m \<noteq> ref_price r then add (run_effect ob (msg_order_id m) r ord Erase) m b i
     else Inr (run_effect ob (msg_order_id m) r ord
       (if order_size ord < msg_size m then Requeue (msg_size m) else Resize (msg_size m))))"
proof -
  let ?lvl = "side_levels ob (ref_is_bid r) ! ref_index r"
  from l have i: "ref_index r < num_levels ob"
    and o: "map_of (queue ?lvl) (ref_it r) = Some ord" by (simp_all add: live_def)
  from book_inv_level [OF inv i] have d: "distinct (map fst (queue ?lvl))" by (simp add: level_ok_def)
  have p: "r\<lparr>ref_price := ref_price r\<rparr> = r" by simp
  have grow: "order_size ord < msg_size m \<Longrightarrow>
      t + ucast (msg_size m - order_size ord) = t - ucast (order_size ord) + ucast (msg_size m)"
    and shrink: "msg_size m < order_size ord \<Longrightarrow>
      t - ucast (order_size ord - msg_size m) = t - ucast (order_size ord) + ucast (msg_size m)"
    for t :: u64
    by (simp_all add: ucast_diff_u32 order_less_imp_le)
  have same: "msg_size m = order_size ord \<Longrightarrow>
      effect_level (Resize (msg_size m)) (ref_it r) ord ?lvl = ?lvl"
    using set_node_size_same [OF d o] by simp
  have put: "put_side ob (ref_is_bid r) (ref_index r) ?lvl = ob"
    using i book_inv_length [OF inv] by (simp add: put_side_same)
  consider "msg_size m = 0" | "msg_size m \<noteq> 0" "msg_price m \<noteq> ref_price r"
    | "msg_size m \<noteq> 0" "msg_price m = ref_price r" "order_size ord < msg_size m"
    | "msg_size m \<noteq> 0" "msg_price m = ref_price r" "msg_size m < order_size ord"
    | "msg_size m \<noteq> 0" "msg_price m = ref_price r" "msg_size m = order_size ord"
    by (cases "msg_size m" "order_size ord" rule: linorder_cases) auto
  then show ?thesis
  proof cases
    case 5
    then show ?thesis
      using live_lookup [OF inv l] p same put
      by (simp add: modify_def run_effect_def Let_def del: effect_level.simps)
  qed (use live_lookup [OF inv l] p in
        \<open>simp_all add: modify_def run_effect_def Let_def less_asym grow shrink\<close>)
qed

lemma run_effect_fields [simp]:
  "price_min (run_effect ob oid r ord eff) = price_min ob"
  "price_max (run_effect ob oid r ord eff) = price_max ob"
  "tick_size (run_effect ob oid r ord eff) = tick_size ob"
  "num_levels (run_effect ob oid r ord eff) = num_levels ob"
  "next_node (run_effect ob oid r ord eff) = next_node ob"
  by (simp_all add: run_effect_def)

lemma run_effect_update:
  "live ob oid r ord \<Longrightarrow> level_update ob (ref_is_bid r) (ref_index r)
     (effect_level eff (ref_it r) ord (side_levels ob (ref_is_bid r) ! ref_index r))
     oid (if eff = Erase then None else Some r) (run_effect ob oid r ord eff)"
  by (auto simp: level_update_def live_def) (simp_all add: run_effect_def)

lemma run_effect_change:
  assumes inv: "book_inv ob" and l: "live ob oid r ord"
  shows "level_change_ok ob (ref_is_bid r) (ref_index r)
     (effect_level eff (ref_it r) ord (side_levels ob (ref_is_bid r) ! ref_index r))
     oid (if eff = Erase then None else Some r) (next_node (run_effect ob oid r ord eff))"
proof -
  from l have r: "orders_ref ob oid = Some r"
    and o: "map_of (queue (side_levels ob (ref_is_bid r) ! ref_index r)) (ref_it r) = Some ord"
    by (simp_all add: live_def)
  show ?thesis
  proof (cases eff)
    case Erase
    then show ?thesis using change_erase [OF inv r refl o] by simp
  next
    case (Resize s)
    then show ?thesis using change_resize [OF inv r refl o, of _ s r] by simp
  next
    case (Requeue s)
    then show ?thesis using change_resize [OF inv r refl o, of _ s r] by simp
  qed
qed

lemma run_effect_inv: "book_inv ob \<Longrightarrow> live ob oid r ord \<Longrightarrow> book_inv (run_effect ob oid r ord eff)"
  by (rule book_inv_update [OF _ run_effect_update run_effect_change])

subsection \<open>Adding an order\<close>

definition append_order :: "order_book \<Rightarrow> mbo_msg \<Rightarrow> bool \<Rightarrow> nat \<Rightarrow> order_book" where
  "append_order ob m b i =
     (let lvl = side_levels ob b ! i in
      (put_side ob b i
         (lvl\<lparr>queue := queue lvl @ [(next_node ob, \<lparr>order_id = msg_order_id m, order_size = msg_size m\<rparr>)],
              total_size := total_size lvl + ucast (msg_size m)\<rparr>))
      \<lparr>orders_ref := (orders_ref ob)(msg_order_id m \<mapsto>
         \<lparr>ref_is_bid = b, ref_index = i, ref_it = next_node ob, ref_price = msg_price m\<rparr>),
       next_node := Suc (next_node ob)\<rparr>)"

lemma append_order_fields [simp]:
  "price_min (append_order ob m b i) = price_min ob" "price_max (append_order ob m b i) = price_max ob"
  "tick_size (append_order ob m b i) = tick_size ob" "num_levels (append_order ob m b i) = num_levels ob"
  "next_node (append_order ob m b i) = Suc (next_node ob)"
  "orders_ref (append_order ob m b i) = (orders_ref ob)(msg_order_id m \<mapsto>
     \<lparr>ref_is_bid = b, ref_index = i, ref_it = next_node ob, ref_price = msg_price m\<rparr>)"
  by (simp_all add: append_order_def Let_def)

lemma add_eq:
  assumes "book_inv ob"
  shows "add ob m b i =
    (if i < num_levels ob then Inr (append_order ob m b i) else Inl (UB Out_Of_Bounds))"
  using book_inv_length [OF assms, of b] by (simp add: add_def append_order_def get_side_eq Let_def)

lemma append_order_update:
  "i < num_levels ob \<Longrightarrow> level_update ob b i
     ((side_levels ob b ! i)\<lparr>queue := queue (side_levels ob b ! i) @
        [(next_node ob, \<lparr>order_id = msg_order_id m, order_size = msg_size m\<rparr>)],
      total_size := total_size (side_levels ob b ! i) + ucast (msg_size m)\<rparr>)
     (msg_order_id m)
     (Some \<lparr>ref_is_bid = b, ref_index = i, ref_it = next_node ob, ref_price = msg_price m\<rparr>)
     (append_order ob m b i)"
  by (auto simp: level_update_def) (simp_all add: append_order_def Let_def)

lemma append_order_inv:
  assumes inv: "book_inv ob" and i: "i < num_levels ob"
  shows "book_inv (append_order ob m b i)"
proof (rule book_inv_update [OF inv append_order_update [OF i]])
  let ?lvl = "side_levels ob b ! i"
  have fresh: "next_node ob \<notin> fst ` set (queue ?lvl)"
    using book_inv_node [OF inv i] by blast
  then have n: "map_of (queue ?lvl) (next_node ob) = None"
    by (simp add: map_of_eq_None_iff)
  show "level_change_ok ob b i
     (?lvl\<lparr>queue := queue ?lvl @ [(next_node ob, \<lparr>order_id = msg_order_id m, order_size = msg_size m\<rparr>)],
      total_size := total_size ?lvl + ucast (msg_size m)\<rparr>) (msg_order_id m)
     (Some \<lparr>ref_is_bid = b, ref_index = i, ref_it = next_node ob, ref_price = msg_price m\<rparr>)
     (next_node (append_order ob m b i))"
    using book_inv_level [OF inv i, of b] book_inv_node [OF inv i, of _ b] fresh n
    by (intro level_change_okI) (auto simp: level_ok_def map_add_def less_Suc_eq
        simp del: map_of_eq_Some_iff split: option.splits)
qed

subsection \<open>Preservation by every operation\<close>

lemma book_inv_clear: "book_inv (clear ob) \<longleftrightarrow> (\<forall>b. length (side_levels ob b) = num_levels ob)"
  by (auto simp: book_inv_def clear_def side_levels_def level_ok_def empty_level_def)

lemma add_inv: "book_inv ob \<Longrightarrow> add ob m b i = Inr ob' \<Longrightarrow> book_inv ob'"
  by (auto simp: add_eq append_order_inv split: if_splits)

lemma cancel_inv: "book_inv ob \<Longrightarrow> cancel ob m = Inr ob' \<Longrightarrow> book_inv ob'"
proof (cases "orders_ref ob (msg_order_id m)")
  case None
  then show "book_inv ob \<Longrightarrow> cancel ob m = Inr ob' \<Longrightarrow> book_inv ob'" by (simp add: cancel_def)
next
  case (Some r)
  assume inv: "book_inv ob" and c: "cancel ob m = Inr ob'"
  from live_ex [OF inv Some] obtain ord where "live ob (msg_order_id m) r ord" ..
  with c cancel_eq [OF inv this] run_effect_inv [OF inv this] show ?thesis by auto
qed

lemma handle_full_fill_inv: "book_inv ob \<Longrightarrow> handle_full_fill ob m = Inr ob' \<Longrightarrow> book_inv ob'"
proof (cases "orders_ref ob (msg_order_id m)")
  case None
  then show "book_inv ob \<Longrightarrow> handle_full_fill ob m = Inr ob' \<Longrightarrow> book_inv ob'"
    by (simp add: handle_full_fill_def)
next
  case (Some r)
  assume inv: "book_inv ob" and c: "handle_full_fill ob m = Inr ob'"
  from live_ex [OF inv Some] obtain ord where "live ob (msg_order_id m) r ord" ..
  with c handle_full_fill_eq [OF inv this] run_effect_inv [OF inv this] show ?thesis by auto
qed

lemma modify_inv: "book_inv ob \<Longrightarrow> modify ob m b i = Inr ob' \<Longrightarrow> book_inv ob'"
proof (cases "orders_ref ob (msg_order_id m)")
  case None
  then show "book_inv ob \<Longrightarrow> modify ob m b i = Inr ob' \<Longrightarrow> book_inv ob'"
    by (simp add: modify_def add_inv)
next
  case (Some r)
  assume inv: "book_inv ob" and c: "modify ob m b i = Inr ob'"
  from live_ex [OF inv Some] obtain ord where l: "live ob (msg_order_id m) r ord" ..
  from c modify_eq [OF inv l] run_effect_inv [OF inv l] show ?thesis
    by (auto split: if_splits intro: add_inv)
qed

lemma apply_msg_inv: "book_inv ob \<Longrightarrow> apply_msg ob m = Inr ob' \<Longrightarrow> book_inv ob'"
  by (auto simp: apply_msg_def Let_def bindE_eq_Inr handle_non_printed_def handle_trade_eq_cancel
      book_inv_clear book_inv_length split: if_splits
      intro: cancel_inv handle_full_fill_inv modify_inv add_inv)

lemma apply_all_inv: "book_inv ob \<Longrightarrow> apply_all ob ms = Inr ob' \<Longrightarrow> book_inv ob'"
  unfolding apply_all_def
  by (induction ms arbitrary: ob) (auto simp: bindE_eq_Inr dest: apply_msg_inv)

end
