(* ===== verification/OrderBook_Spec.thy ===== *)
theory OrderBook_Spec
  imports OrderBook_Inv
begin

section \<open>What the order book promises: price-time priority\<close>

text \<open>
  The abstract book is one list of resting orders in time priority, the oldest first. It
  has no levels, no iterators, no totals and no id table. \<open>spec_step\<close> says what a market
  by order message does to it. The relation \<open>sim\<close> connects it to the concrete book: the
  queue of a level is the sublist of the resting orders of that side and price level.
  The main lemma is a forward simulation: every message the feed may send (\<open>admissible\<close>)
  is applied without undefined behaviour, and does to the concrete book what \<open>spec_step\<close>
  does to the abstract one.
\<close>

subsection \<open>Configuration and price levels\<close>

definition config_ok :: "order_book \<Rightarrow> bool" where
  "config_ok ob \<longleftrightarrow> 0 < tick_size ob \<and> in_int64 (price_min ob) \<and> in_int64 (price_max ob) \<and>
     price_min ob \<le> price_max ob \<and> in_int64 (price_max ob - price_min ob) \<and>
     num_levels ob = nat ((price_max ob - price_min ob) div tick_size ob) + 1 \<and>
     num_levels ob < 2 ^ 31"

definition price_level :: "int \<Rightarrow> int \<Rightarrow> int \<Rightarrow> nat" where
  "price_level pmin tick p = nat ((p - pmin) div tick)"

definition level_of :: "order_book \<Rightarrow> int \<Rightarrow> nat" where
  "level_of ob p = price_level (price_min ob) (tick_size ob) p"

definition price_in_range :: "order_book \<Rightarrow> int \<Rightarrow> bool" where
  "price_in_range ob p \<longleftrightarrow> price_min ob \<le> p \<and> p \<le> price_max ob"

lemma price_to_index_in_range:
  assumes c: "config_ok ob" and p: "price_in_range ob p"
  shows "price_to_index ob p = Inr (level_of ob p)" "level_of ob p < num_levels ob"
proof -
  let ?d = "p - price_min ob" and ?t = "tick_size ob"
  from c p have t: "0 < ?t" and d: "0 \<le> ?d" "?d \<le> price_max ob - price_min ob"
    and r: "price_max ob - price_min ob < 2 ^ 63"
    by (auto simp: config_ok_def price_in_range_def in_int64_def)
  from d r have d64: "in_int64 ?d" by (simp add: in_int64_def)
  have q: "0 \<le> ?d div ?t" "?d div ?t \<le> ?d"
    using t d zdiv_mono2 [of ?d 1 ?t] by (simp_all add: pos_imp_zdiv_nonneg_iff)
  with d r have q64: "in_int64 (?d div ?t)" by (simp add: in_int64_def)
  from q d r have "to_size_t (?d div ?t) = nat (?d div ?t)" by (intro to_size_t_id) auto
  with t d(1) d64 q64 show "price_to_index ob p = Inr (level_of ob p)"
    by (simp add: price_to_index_def sdiv_nonneg level_of_def price_level_def)
  have "?d div ?t \<le> (price_max ob - price_min ob) div ?t"
    using d(2) t by (rule zdiv_mono1)
  with c show "level_of ob p < num_levels ob"
    by (simp add: config_ok_def level_of_def price_level_def nat_le_eq_zle le_imp_less_Suc nat_mono)
qed

lemma in_int64_sdiv: "in_int64 d \<Longrightarrow> 0 < t \<Longrightarrow> in_int64 (d sdiv t)"
proof (cases "0 \<le> d")
  case True
  assume d: "in_int64 d" and t: "0 < t"
  have "0 \<le> d div t" "d div t \<le> d"
    using t True zdiv_mono2 [of d 1 t] by (simp_all add: pos_imp_zdiv_nonneg_iff)
  with d t True show ?thesis by (simp add: sdiv_nonneg in_int64_def)
next
  case False
  assume d: "in_int64 d" and t: "0 < t"
  have "0 \<le> (- d) div t" "(- d) div t \<le> - d"
    using t False zdiv_mono2 [of "- d" 1 t] by (simp_all add: pos_imp_zdiv_nonneg_iff)
  moreover have "d sdiv t = - ((- d) div t)" using t False by (simp add: signed_divide_int_def)
  ultimately show ?thesis using d False by (simp add: in_int64_def)
qed

lemma price_to_index_total:
  assumes "config_ok ob" "in_int64 (p - price_min ob)"
  shows "\<exists>i. price_to_index ob p = Inr i"
  using assms in_int64_sdiv by (auto simp: price_to_index_def config_ok_def)

subsection \<open>The abstract book\<close>

record resting =
  rs_id :: u64
  rs_bid :: bool
  rs_price :: int
  rs_size :: u32

type_synonym spec_book = "resting list"

definition spec_find :: "u64 \<Rightarrow> spec_book \<Rightarrow> resting option" where
  "spec_find oid s = find (\<lambda>r. rs_id r = oid) s"

definition spec_remove :: "u64 \<Rightarrow> spec_book \<Rightarrow> spec_book" where
  "spec_remove oid s = filter (\<lambda>r. rs_id r \<noteq> oid) s"

definition spec_resize :: "u64 \<Rightarrow> u32 \<Rightarrow> spec_book \<Rightarrow> spec_book" where
  "spec_resize oid sz s = map (\<lambda>r. if rs_id r = oid then r\<lparr>rs_size := sz\<rparr> else r) s"

definition spec_reduce :: "u64 \<Rightarrow> u32 \<Rightarrow> spec_book \<Rightarrow> spec_book" where
  "spec_reduce oid q s = (case spec_find oid s of None \<Rightarrow> s
   | Some r \<Rightarrow> if rs_size r \<le> q then spec_remove oid s else spec_resize oid (rs_size r - q) s)"

definition spec_new :: "mbo_msg \<Rightarrow> resting" where
  "spec_new m = \<lparr>rs_id = msg_order_id m, rs_bid = (msg_side m = CHR ''B''),
                 rs_price = msg_price m, rs_size = msg_size m\<rparr>"

text \<open>
  A modification to size zero deletes, a new price re-enters the order as new, a larger
  size sends it to the back of its queue with its side and price kept, and a size that is
  not larger changes it in place.
\<close>

definition spec_modify :: "mbo_msg \<Rightarrow> spec_book \<Rightarrow> spec_book" where
  "spec_modify m s = (case spec_find (msg_order_id m) s of None \<Rightarrow> s @ [spec_new m]
   | Some r \<Rightarrow>
       if msg_size m = 0 then spec_remove (msg_order_id m) s
       else if msg_price m \<noteq> rs_price r then spec_remove (msg_order_id m) s @ [spec_new m]
       else if rs_size r < msg_size m
       then spec_remove (msg_order_id m) s @ [r\<lparr>rs_size := msg_size m\<rparr>]
       else spec_resize (msg_order_id m) (msg_size m) s)"

definition spec_step :: "spec_book \<Rightarrow> mbo_msg \<Rightarrow> spec_book" where
  "spec_step s m =
     (let a = msg_action m in
      if a = CHR ''R'' then []
      else if msg_side m \<noteq> CHR ''A'' \<and> msg_side m \<noteq> CHR ''B'' then s
      else if a = CHR ''A'' then s @ [spec_new m]
      else if a = CHR ''M'' then spec_modify m s
      else if a = CHR ''F'' then spec_remove (msg_order_id m) s
      else if a \<in> {CHR ''C'', CHR ''T'', CHR ''N''} then spec_reduce (msg_order_id m) (msg_size m) s
      else s)"

text \<open>
  What the feed owes the book. The price of an addition or modification lies inside the
  configured range, and an addition does not reuse the id of an order that still rests.
  Any other message on a side only needs a price whose distance to the minimum is
  representable, because the code computes its level index whether it uses it or not.
  Resets and messages without a side may carry anything.
\<close>

definition admissible :: "int \<Rightarrow> int \<Rightarrow> spec_book \<Rightarrow> mbo_msg \<Rightarrow> bool" where
  "admissible pmin pmax s m \<longleftrightarrow>
     msg_action m = CHR ''R'' \<or> (msg_side m \<noteq> CHR ''A'' \<and> msg_side m \<noteq> CHR ''B'') \<or>
     (in_int64 (msg_price m - pmin) \<and>
      (msg_action m \<in> {CHR ''A'', CHR ''M''} \<longrightarrow> pmin \<le> msg_price m \<and> msg_price m \<le> pmax) \<and>
      (msg_action m = CHR ''A'' \<longrightarrow> spec_find (msg_order_id m) s = None))"

fun admissible_all :: "int \<Rightarrow> int \<Rightarrow> spec_book \<Rightarrow> mbo_msg list \<Rightarrow> bool" where
  "admissible_all pmin pmax s [] \<longleftrightarrow> True"
| "admissible_all pmin pmax s (m # ms) \<longleftrightarrow>
     admissible pmin pmax s m \<and> admissible_all pmin pmax (spec_step s m) ms"

subsection \<open>Lemmas on the abstract book\<close>

lemma spec_find_None: "spec_find oid s = None \<longleftrightarrow> oid \<notin> rs_id ` set s"
  by (auto simp: spec_find_def find_None_iff)

lemma spec_find_SomeD: "spec_find oid s = Some r \<Longrightarrow> r \<in> set s \<and> rs_id r = oid"
  by (auto simp: spec_find_def find_Some_iff)

lemma spec_find_Some_iff:
  "distinct (map rs_id s) \<Longrightarrow> spec_find oid s = Some r \<longleftrightarrow> r \<in> set s \<and> rs_id r = oid"
  by (induction s) (auto simp: spec_find_def)

lemma spec_find_remove: "spec_find oid' (spec_remove oid s) = (if oid' = oid then None else spec_find oid' s)"
  by (induction s) (auto simp: spec_find_def spec_remove_def)

lemma spec_find_resize: "spec_find oid' (spec_resize oid sz s) =
    map_option (\<lambda>r. if oid' = oid then r\<lparr>rs_size := sz\<rparr> else r) (spec_find oid' s)"
  by (induction s) (auto simp: spec_find_def spec_resize_def)

lemma spec_find_append: "spec_find oid (s @ [r]) =
    (case spec_find oid s of None \<Rightarrow> if rs_id r = oid then Some r else None | Some x \<Rightarrow> Some x)"
  by (induction s) (auto simp: spec_find_def)

lemma distinct_spec_remove: "distinct (map rs_id s) \<Longrightarrow> distinct (map rs_id (spec_remove oid s))"
  by (induction s) (auto simp: spec_remove_def)

lemma map_id_spec_resize [simp]: "map rs_id (spec_resize oid sz s) = map rs_id s"
  by (induction s) (auto simp: spec_resize_def)

subsection \<open>The simulation relation\<close>

definition to_order :: "resting \<Rightarrow> order" where
  "to_order r = \<lparr>order_id = rs_id r, order_size = rs_size r\<rparr>"

definition at_level :: "order_book \<Rightarrow> bool \<Rightarrow> nat \<Rightarrow> resting \<Rightarrow> bool" where
  "at_level ob b i r \<longleftrightarrow> rs_bid r = b \<and> level_of ob (rs_price r) = i"

definition level_orders :: "order_book \<Rightarrow> bool \<Rightarrow> nat \<Rightarrow> order list" where
  "level_orders ob b i = map snd (queue (side_levels ob b ! i))"

definition sim :: "order_book \<Rightarrow> spec_book \<Rightarrow> bool" where
  "sim ob s \<longleftrightarrow> book_inv ob \<and> config_ok ob \<and> distinct (map rs_id s) \<and>
     (\<forall>b i. i < num_levels ob \<longrightarrow> level_orders ob b i = map to_order (filter (at_level ob b i) s)) \<and>
     (\<forall>oid. map_option (\<lambda>r. (ref_is_bid r, ref_price r)) (orders_ref ob oid) =
            map_option (\<lambda>r. (rs_bid r, rs_price r)) (spec_find oid s)) \<and>
     (\<forall>oid r. orders_ref ob oid = Some r \<longrightarrow> ref_index r = level_of ob (ref_price r))"

lemma simD:
  assumes "sim ob s"
  shows "book_inv ob" "config_ok ob" "distinct (map rs_id s)"
    "i < num_levels ob \<Longrightarrow> level_orders ob b i = map to_order (filter (at_level ob b i) s)"
    "map_option (\<lambda>r. (ref_is_bid r, ref_price r)) (orders_ref ob oid) =
       map_option (\<lambda>r. (rs_bid r, rs_price r)) (spec_find oid s)"
    "orders_ref ob oid = Some r \<Longrightarrow> ref_index r = level_of ob (ref_price r)"
  using assms unfolding sim_def by blast+

lemma sim_None: "sim ob s \<Longrightarrow> orders_ref ob oid = None \<longleftrightarrow> spec_find oid s = None"
  using simD(5) [of ob s oid] by (cases "orders_ref ob oid"; cases "spec_find oid s") auto

text \<open>A live order of the concrete book and the resting order it stands for.\<close>

lemma sim_live:
  assumes "sim ob s" "live ob oid r ord"
  obtains x where "spec_find oid s = Some x" "rs_bid x = ref_is_bid r" "rs_price x = ref_price r"
    "rs_id x = oid" "to_order x = ord" "at_level ob (ref_is_bid r) (ref_index r) x"
proof -
  from assms(2) have r: "orders_ref ob oid = Some r" and i: "ref_index r < num_levels ob"
    and o: "map_of (queue (side_levels ob (ref_is_bid r) ! ref_index r)) (ref_it r) = Some ord"
    and id: "order_id ord = oid" by (simp_all add: live_def)
  from simD(5) [OF assms(1), of oid] r
  have "map_option (\<lambda>r. (rs_bid r, rs_price r)) (spec_find oid s) = Some (ref_is_bid r, ref_price r)"
    by simp
  then obtain x where x: "spec_find oid s = Some x"
      "rs_bid x = ref_is_bid r" "rs_price x = ref_price r" by auto
  from spec_find_SomeD [OF x(1)] have xs: "x \<in> set s" "rs_id x = oid" by simp_all
  have "ord \<in> set (level_orders ob (ref_is_bid r) (ref_index r))"
    using map_of_SomeD [OF o] by (force simp: level_orders_def)
  with simD(4) [OF assms(1) i] obtain y where y: "y \<in> set s" "to_order y = ord" by auto
  with id have "rs_id y = oid" by (auto simp: to_order_def)
  with y xs simD(3) [OF assms(1)] have "y = x"
    by (metis spec_find_Some_iff option.inject)
  with x y xs simD(6) [OF assms(1) r] show thesis
    by (intro that [of x]) (auto simp: at_level_def)
qed


subsection \<open>Effects on the abstract book\<close>

lemma map_snd_erase:
  assumes "distinct (map fst q)" "distinct (map order_id (map snd q))" "map_of q n = Some ord"
  shows "map snd (erase_node n q) = filter (\<lambda>o'. order_id o' \<noteq> order_id ord) (map snd q)"
  using assms
proof (induction q)
  case (Cons e q)
  show ?case
  proof (cases "fst e = n")
    case True
    with Cons.prems have o: "snd e = ord" "n \<notin> fst ` set q" "order_id ord \<notin> order_id ` set (map snd q)"
      by auto
    then have "filter (\<lambda>o'. order_id o' \<noteq> order_id ord) (map snd q) = map snd q"
      by (intro filter_True) (metis imageI)
    with True o show ?thesis by (simp add: erase_node_id)
  next
    case False
    with Cons.prems have m: "map_of q n = Some ord" by (cases e) simp
    from map_of_SomeD [OF m] have "ord \<in> set (map snd q)" by force
    with Cons.prems(2) have "order_id (snd e) \<noteq> order_id ord" by auto
    with False m Cons show ?thesis by simp
  qed
qed simp

lemma map_snd_resize:
  assumes "distinct (map fst q)" "distinct (map order_id (map snd q))" "map_of q n = Some ord"
  shows "map snd (set_node_size n sz q) =
    map (\<lambda>o'. if order_id o' = order_id ord then o'\<lparr>order_size := sz\<rparr> else o') (map snd q)"
  using assms
proof (induction q)
  case (Cons e q)
  show ?case
  proof (cases "fst e = n")
    case True
    with Cons.prems have o: "snd e = ord" "n \<notin> fst ` set q" "order_id ord \<notin> order_id ` set (map snd q)"
      by auto
    then have "map (\<lambda>o'. if order_id o' = order_id ord then o'\<lparr>order_size := sz\<rparr> else o') (map snd q) = map snd q"
      by (intro map_idI) (metis imageI)
    with True o show ?thesis by (simp add: set_node_size_id)
  next
    case False
    with Cons.prems have m: "map_of q n = Some ord" by (cases e) simp
    from map_of_SomeD [OF m] have "ord \<in> set (map snd q)" by force
    with Cons.prems(2) have "order_id (snd e) \<noteq> order_id ord" by auto
    with False m Cons show ?thesis by simp
  qed
qed simp

fun order_effect :: "effect \<Rightarrow> order \<Rightarrow> order list \<Rightarrow> order list" where
  "order_effect Erase ord os = filter (\<lambda>o'. order_id o' \<noteq> order_id ord) os"
| "order_effect (Resize sz) ord os =
     map (\<lambda>o'. if order_id o' = order_id ord then o'\<lparr>order_size := sz\<rparr> else o') os"
| "order_effect (Requeue sz) ord os =
     filter (\<lambda>o'. order_id o' \<noteq> order_id ord) os @ [ord\<lparr>order_size := sz\<rparr>]"

fun spec_effect :: "effect \<Rightarrow> resting \<Rightarrow> spec_book \<Rightarrow> spec_book" where
  "spec_effect Erase x s = spec_remove (rs_id x) s"
| "spec_effect (Resize sz) x s = spec_resize (rs_id x) sz s"
| "spec_effect (Requeue sz) x s = spec_remove (rs_id x) s @ [x\<lparr>rs_size := sz\<rparr>]"

lemma effect_level_orders:
  assumes "level_ok lvl" "distinct (map order_id (map snd (queue lvl)))" "map_of (queue lvl) n = Some ord"
  shows "map snd (queue (effect_level eff n ord lvl)) = order_effect eff ord (map snd (queue lvl))"
proof -
  have d: "distinct (map fst (queue lvl))" using assms(1) by (simp add: level_ok_def)
  have "map snd (splice_to_end n (set_node_size n sz (queue lvl))) =
      map snd (erase_node n (queue lvl)) @ [ord\<lparr>order_size := sz\<rparr>]" for sz
    using splice_to_end_eq [of "set_node_size n sz (queue lvl)" n] d map_of_set_node_size [OF assms(3)]
    by simp
  then show ?thesis
    using map_snd_erase [OF d assms(2,3)] map_snd_resize [OF d assms(2,3)] by (cases eff) simp_all
qed

lemma to_order_simps [simp]: "order_id (to_order r) = rs_id r" "order_size (to_order r) = rs_size r"
  "to_order (r\<lparr>rs_size := sz\<rparr>) = (to_order r)\<lparr>order_size := sz\<rparr>"
  by (simp_all add: to_order_def)

lemma orders_spec_remove: "map to_order (filter P (spec_remove oid s)) =
    filter (\<lambda>o'. order_id o' \<noteq> oid) (map to_order (filter P s))"
  by (induction s) (auto simp: spec_remove_def)

lemma orders_spec_resize: "(\<And>r. P (r\<lparr>rs_size := sz\<rparr>) = P r) \<Longrightarrow>
    map to_order (filter P (spec_resize oid sz s)) =
    map (\<lambda>o'. if order_id o' = oid then o'\<lparr>order_size := sz\<rparr> else o') (map to_order (filter P s))"
  by (induction s) (auto simp: spec_resize_def)

lemma spec_effect_orders:
  assumes P: "\<And>r sz. P (r\<lparr>rs_size := sz\<rparr>) = P r" and x: "to_order x = ord"
  shows "map to_order (filter P (spec_effect eff x s)) =
    (if P x then order_effect eff ord (map to_order (filter P s))
     else case eff of Resize sz \<Rightarrow> order_effect eff ord (map to_order (filter P s))
          | _ \<Rightarrow> order_effect Erase ord (map to_order (filter P s)))"
  using x by (cases eff) (auto simp: orders_spec_remove orders_spec_resize [of P] P)

lemma order_effect_absent:
  assumes "order_id ord \<notin> order_id ` set os" shows "order_effect Erase ord os = os" "order_effect (Resize sz) ord os = os"
  using assms by (auto intro!: filter_True map_idI) (metis imageI)+

lemma at_level_upd [simp]: "at_level ob b i (r\<lparr>rs_size := sz\<rparr>) = at_level ob b i r"
  by (simp add: at_level_def)

lemma level_of_effect [simp]: "level_of (run_effect ob oid r ord eff) = level_of ob"
  "at_level (run_effect ob oid r ord eff) = at_level ob"
  by (simp_all add: level_of_def at_level_def fun_eq_iff)

lemma sim_order_ids:
  assumes "sim ob s" "i < num_levels ob"
  shows "distinct (map order_id (level_orders ob b i))"
  using simD(3) [OF assms(1)] simD(4) [OF assms] by (simp add: o_def distinct_map_filter)

lemma level_orders_effect:
  assumes sim: "sim ob s" and l: "live ob oid r ord" and j: "j < num_levels ob"
  shows "level_orders (run_effect ob oid r ord eff) b j =
    (if b = ref_is_bid r \<and> j = ref_index r then order_effect eff ord (level_orders ob b j)
     else level_orders ob b j)"
proof -
  from l have i: "ref_index r < num_levels ob"
    and o: "map_of (queue (side_levels ob (ref_is_bid r) ! ref_index r)) (ref_it r) = Some ord"
    by (simp_all add: live_def)
  from sim have inv: "book_inv ob" by (rule simD)
  show ?thesis
    using effect_level_orders [OF book_inv_level [OF inv i] _ o] sim_order_ids [OF sim i, of "ref_is_bid r"]
      book_inv_length [OF inv] i j
    by (auto simp: level_orders_def run_effect_def nth_list_update)
qed

lemma config_ok_effect [simp]: "config_ok (run_effect ob oid r ord eff) = config_ok ob"
  by (simp add: config_ok_def)

lemma spec_find_effect:
  assumes "distinct (map rs_id s)" "spec_find oid s = Some x" "rs_id x = oid"
  shows "map_option (\<lambda>r. (rs_bid r, rs_price r)) (spec_find k (spec_effect eff x s)) =
    (if k = oid \<and> eff = Erase then None else map_option (\<lambda>r. (rs_bid r, rs_price r)) (spec_find k s))"
  using assms by (cases eff; cases "spec_find k s")
    (auto simp: spec_find_remove spec_find_resize spec_find_append split: option.splits)

lemma sim_effect:
  assumes sim: "sim ob s" and l: "live ob oid r ord" and x: "spec_find oid s = Some x"
  shows "sim (run_effect ob oid r ord eff) (spec_effect eff x s)"
proof -
  from sim l obtain y where y: "spec_find oid s = Some y" "rs_id y = oid" "to_order y = ord"
    "at_level ob (ref_is_bid r) (ref_index r) y" by (rule sim_live)
  with x have x': "rs_id x = oid" "to_order x = ord" "at_level ob (ref_is_bid r) (ref_index r) x" by auto
  note d = simD(3) [OF sim]
  have ids: "distinct (map rs_id (spec_effect eff x s))"
    using d by (cases eff) (auto simp: distinct_spec_remove, auto simp: spec_remove_def)
  have lev: "level_orders (run_effect ob oid r ord eff) b j =
      map to_order (filter (at_level ob b j) (spec_effect eff x s))" if j: "j < num_levels ob" for b j
  proof (cases "b = ref_is_bid r \<and> j = ref_index r")
    case True
    with x' simD(4) [OF sim j] level_orders_effect [OF sim l j] show ?thesis
      by (simp add: spec_effect_orders del: order_effect.simps)
  next
    case False
    with x'(3) have "\<not> at_level ob b j x" by (auto simp: at_level_def)
    moreover have "order_id ord \<notin> order_id ` set (map to_order (filter (at_level ob b j) s))"
      using calculation d x x' by (auto simp: spec_find_Some_iff) (metis (full_types) d spec_find_Some_iff option.inject)
    ultimately show ?thesis
      using False x' simD(4) [OF sim j] level_orders_effect [OF sim l j] order_effect_absent
      by (auto simp: spec_effect_orders split: effect.split simp del: order_effect.simps)
  qed
  have refs: "map_option (\<lambda>r. (ref_is_bid r, ref_price r)) (orders_ref (run_effect ob oid r ord eff) k) =
      map_option (\<lambda>r. (rs_bid r, rs_price r)) (spec_find k (spec_effect eff x s))" for k
    unfolding spec_find_effect [OF d x x'(1)]
    using simD(5) [OF sim, of k] l by (auto simp: run_effect_def live_def)
  have rf: "orders_ref (run_effect ob oid r ord eff) k = Some r' \<Longrightarrow> orders_ref ob k = Some r'" for k r'
    using l by (auto simp: run_effect_def live_def split: if_splits)
  show ?thesis
    unfolding sim_def
  proof (intro conjI allI impI)
    fix k r' assume "orders_ref (run_effect ob oid r ord eff) k = Some r'"
    from simD(6) [OF sim rf [OF this]]
    show "ref_index r' = level_of (run_effect ob oid r ord eff) (ref_price r')" by simp
  qed (use run_effect_inv [OF simD(1) [OF sim] l] simD(2) [OF sim] ids lev refs in simp_all)
qed

text \<open>A new order at the back of its level.\<close>

lemma level_of_append [simp]: "level_of (append_order ob m b i) = level_of ob"
  "at_level (append_order ob m b i) = at_level ob" "config_ok (append_order ob m b i) = config_ok ob"
  by (simp_all add: level_of_def at_level_def config_ok_def fun_eq_iff)

lemma level_orders_append:
  assumes inv: "book_inv ob" and i: "i < num_levels ob" and j: "j < num_levels ob"
  shows "level_orders (append_order ob m b i) b' j =
    (if b' = b \<and> j = i then level_orders ob b j @ [\<lparr>order_id = msg_order_id m, order_size = msg_size m\<rparr>]
     else level_orders ob b' j)"
  using book_inv_length [OF inv] i j
  by (auto simp: level_orders_def append_order_def Let_def nth_list_update)

lemma sim_append:
  assumes sim: "sim ob s" and new: "spec_find (msg_order_id m) s = None"
    and p: "price_in_range ob (msg_price m)"
    and b: "b = (msg_side m = CHR ''B'')"
  shows "sim (append_order ob m b (level_of ob (msg_price m))) (s @ [spec_new m])"
proof -
  let ?i = "level_of ob (msg_price m)"
  have i: "?i < num_levels ob" using price_to_index_in_range [OF simD(2) [OF sim] p] by simp
  have lev: "level_orders (append_order ob m b ?i) b' j =
      map to_order (filter (at_level ob b' j) (s @ [spec_new m]))" if j: "j < num_levels ob" for b' j
    using simD(4) [OF sim j] level_orders_append [OF simD(1) [OF sim] i j]
    by (auto simp: at_level_def spec_new_def b to_order_def)
  have refs: "map_option (\<lambda>r. (ref_is_bid r, ref_price r)) (orders_ref (append_order ob m b ?i) k) =
      map_option (\<lambda>r. (rs_bid r, rs_price r)) (spec_find k (s @ [spec_new m]))" for k
    using simD(5) [OF sim, of k] new
    by (auto simp: spec_find_append spec_new_def b split: option.splits)
  have rf: "ref_index r = level_of ob (ref_price r)"
    if "orders_ref (append_order ob m b ?i) k = Some r" for k r
    using that simD(6) [OF sim] by (auto split: if_splits)
  show ?thesis
    unfolding sim_def
    using append_order_inv [OF simD(1) [OF sim] i] simD(2,3) [OF sim] new lev refs rf
    by (auto simp: spec_find_None spec_new_def)
qed

subsection \<open>Every message is simulated\<close>

lemma sim_reduce:
  assumes sim: "sim ob s"
  obtains ob' where "cancel ob m = Inr ob'" "sim ob' (spec_reduce (msg_order_id m) (msg_size m) s)"
proof (cases "orders_ref ob (msg_order_id m)")
  case None
  with sim have "spec_find (msg_order_id m) s = None" by (simp add: sim_None)
  with None sim show thesis by (intro that [of ob]) (simp_all add: cancel_def spec_reduce_def)
next
  case (Some r)
  from live_ex [OF simD(1) [OF sim] Some] obtain ord where l: "live ob (msg_order_id m) r ord" ..
  from sim l obtain x where x: "spec_find (msg_order_id m) s = Some x" "rs_id x = msg_order_id m"
    "to_order x = ord" by (rule sim_live)
  have "spec_effect (reduce_effect (msg_size m) ord) x s = spec_reduce (msg_order_id m) (msg_size m) s"
    using x by (auto simp: spec_reduce_def reduce_effect_def)
  with cancel_eq [OF simD(1) [OF sim] l] sim_effect [OF sim l x(1)] show thesis
    by (metis that)
qed

lemma sim_full_fill:
  assumes sim: "sim ob s"
  obtains ob' where "handle_full_fill ob m = Inr ob'" "sim ob' (spec_remove (msg_order_id m) s)"
proof (cases "orders_ref ob (msg_order_id m)")
  case None
  with sim have "msg_order_id m \<notin> rs_id ` set s" by (simp add: sim_None spec_find_None)
  then have "spec_remove (msg_order_id m) s = s"
    unfolding spec_remove_def by (intro filter_True) (metis imageI)
  with None sim show thesis by (intro that [of ob]) (simp_all add: handle_full_fill_def)
next
  case (Some r)
  from live_ex [OF simD(1) [OF sim] Some] obtain ord where l: "live ob (msg_order_id m) r ord" ..
  from sim l obtain x where x: "spec_find (msg_order_id m) s = Some x" "rs_id x = msg_order_id m"
    by (rule sim_live)
  with handle_full_fill_eq [OF simD(1) [OF sim] l] sim_effect [OF sim l x(1), of Erase] show thesis
    by (intro that) simp_all
qed

lemma sim_add:
  assumes sim: "sim ob s" and new: "spec_find (msg_order_id m) s = None"
    and p: "price_in_range ob (msg_price m)" and b: "b = (msg_side m = CHR ''B'')"
  obtains ob' where "add ob m b (level_of ob (msg_price m)) = Inr ob'" "sim ob' (s @ [spec_new m])"
  using sim_append [OF sim new p b] price_to_index_in_range(2) [OF simD(2) [OF sim] p]
  by (intro that) (simp_all add: add_eq [OF simD(1) [OF sim]])

lemma sim_modify:
  assumes sim: "sim ob s" and p: "price_in_range ob (msg_price m)" and b: "b = (msg_side m = CHR ''B'')"
  obtains ob' where "modify ob m b (level_of ob (msg_price m)) = Inr ob'" "sim ob' (spec_modify m s)"
proof (cases "orders_ref ob (msg_order_id m)")
  case None
  with sim have n: "spec_find (msg_order_id m) s = None" by (simp add: sim_None)
  from sim n p b obtain ob' where "add ob m b (level_of ob (msg_price m)) = Inr ob'"
    "sim ob' (s @ [spec_new m])" by (rule sim_add)
  with None n show thesis by (intro that) (simp_all add: modify_def spec_modify_def)
next
  case (Some r)
  note inv = simD(1) [OF sim]
  from live_ex [OF inv Some] obtain ord where l: "live ob (msg_order_id m) r ord" ..
  from sim l obtain x where x: "spec_find (msg_order_id m) s = Some x" "rs_id x = msg_order_id m"
    "rs_price x = ref_price r" "to_order x = ord" by (rule sim_live)
  then have sz: "order_size ord = rs_size x" by auto
  note eff = sim_effect [OF sim l x(1)]
  show thesis
  proof (cases "msg_size m \<noteq> 0 \<and> msg_price m \<noteq> ref_price r")
    case True
    let ?ob = "run_effect ob (msg_order_id m) r ord Erase"
    have s: "sim ?ob (spec_remove (msg_order_id m) s)" using eff [of Erase] x by simp
    have n: "spec_find (msg_order_id m) (spec_remove (msg_order_id m) s) = None"
      by (simp add: spec_find_remove)
    have p': "price_in_range ?ob (msg_price m)" using p by (simp add: price_in_range_def)
    from s n p' b obtain ob' where "add ?ob m b (level_of ?ob (msg_price m)) = Inr ob'"
      "sim ob' (spec_remove (msg_order_id m) s @ [spec_new m])" by (rule sim_add)
    with True x show thesis by (intro that) (simp_all add: modify_eq [OF inv l] spec_modify_def)
  next
    case False
    let ?e = "if msg_size m = 0 then Erase
              else if rs_size x < msg_size m then Requeue (msg_size m) else Resize (msg_size m)"
    from False x sz eff [of ?e] show thesis
      by (intro that [of "run_effect ob (msg_order_id m) r ord ?e"])
        (auto simp: modify_eq [OF inv l] spec_modify_def split: if_splits)
  qed
qed

lemma sim_clear: "sim ob s \<Longrightarrow> sim (clear ob) []"
proof -
  assume sim: "sim ob s"
  have inv: "book_inv (clear ob)"
    using book_inv_length [OF simD(1) [OF sim]] by (simp add: book_inv_clear)
  have "level_orders (clear ob) b i = []" if "i < num_levels ob" for b i
    using that book_inv_length [OF simD(1) [OF sim], of b]
    by (auto simp: level_orders_def clear_def side_levels_def empty_level_def)
  with inv simD(2) [OF sim] show ?thesis
    by (auto simp: sim_def spec_find_def config_ok_def clear_def)
qed

lemma put_side_config_upd [simp]:
  "price_min (ob\<lparr>orders_ref := f\<rparr>) = price_min ob" "price_max (ob\<lparr>orders_ref := f\<rparr>) = price_max ob"
  "tick_size (ob\<lparr>orders_ref := f\<rparr>) = tick_size ob"
  by simp_all

lemma op_config:
  "add ob m b i = Inr ob' \<Longrightarrow>
     price_min ob' = price_min ob \<and> price_max ob' = price_max ob \<and> tick_size ob' = tick_size ob"
  "cancel ob m = Inr ob' \<Longrightarrow>
     price_min ob' = price_min ob \<and> price_max ob' = price_max ob \<and> tick_size ob' = tick_size ob"
  "handle_full_fill ob m = Inr ob' \<Longrightarrow>
     price_min ob' = price_min ob \<and> price_max ob' = price_max ob \<and> tick_size ob' = tick_size ob"
  by (auto simp: add_def cancel_def handle_full_fill_def Let_def bindE_eq_Inr
      split: option.splits if_splits)

lemma modify_config: "modify ob m b i = Inr ob' \<Longrightarrow>
     price_min ob' = price_min ob \<and> price_max ob' = price_max ob \<and> tick_size ob' = tick_size ob"
  by (auto simp: modify_def Let_def bindE_eq_Inr dest!: op_config(1) split: option.splits if_splits)

lemma apply_msg_config: "apply_msg ob m = Inr ob' \<Longrightarrow>
     price_min ob' = price_min ob \<and> price_max ob' = price_max ob \<and> tick_size ob' = tick_size ob"
  by (auto simp: apply_msg_def Let_def bindE_eq_Inr clear_def handle_non_printed_def
      handle_trade_eq_cancel dest: op_config modify_config split: if_splits)

lemma sim_step:
  assumes sim: "sim ob s" and adm: "admissible (price_min ob) (price_max ob) s m"
  obtains ob' where "apply_msg ob m = Inr ob'" "sim ob' (spec_step s m)"
proof -
  let ?b = "msg_side m = CHR ''B''" and ?i = "level_of ob (msg_price m)"
  have p: "price_in_range ob (msg_price m)" and idx: "price_to_index ob (msg_price m) = Inr ?i"
    if "msg_action m = CHR ''A'' \<or> msg_action m = CHR ''M''"
      "msg_side m = CHR ''A'' \<or> msg_side m = CHR ''B''"
    using that adm price_to_index_in_range(1) [OF simD(2) [OF sim], of "msg_price m"]
    by (auto simp: admissible_def price_in_range_def)
  have tot: "\<exists>j. price_to_index ob (msg_price m) = Inr j"
    if "msg_action m \<noteq> CHR ''R''" "msg_side m = CHR ''A'' \<or> msg_side m = CHR ''B''"
    using that adm price_to_index_total [OF simD(2) [OF sim], of "msg_price m"]
    by (auto simp: admissible_def)
  consider "msg_action m = CHR ''R''"
    | "msg_action m \<noteq> CHR ''R''" "msg_side m \<noteq> CHR ''A''" "msg_side m \<noteq> CHR ''B''"
    | "msg_action m = CHR ''A''" "msg_side m = CHR ''A'' \<or> msg_side m = CHR ''B''"
    | "msg_action m = CHR ''M''" "msg_side m = CHR ''A'' \<or> msg_side m = CHR ''B''"
    | "msg_action m = CHR ''F''" "msg_side m = CHR ''A'' \<or> msg_side m = CHR ''B''"
    | "msg_action m \<in> {CHR ''C'', CHR ''T'', CHR ''N''}" "msg_side m = CHR ''A'' \<or> msg_side m = CHR ''B''"
    | "msg_action m \<notin> {CHR ''R'', CHR ''A'', CHR ''M'', CHR ''F'', CHR ''C'', CHR ''T'', CHR ''N''}"
      "msg_side m = CHR ''A'' \<or> msg_side m = CHR ''B''"
    by auto
  then show thesis
  proof cases
    case 1
    with sim_clear [OF sim] show thesis by (intro that) (simp_all add: apply_msg_def spec_step_def)
  next
    case 2
    with sim show thesis by (intro that) (simp_all add: apply_msg_def spec_step_def)
  next
    case 3
    with adm have "spec_find (msg_order_id m) s = None" by (auto simp: admissible_def)
    with sim p 3 obtain ob' where "add ob m ?b ?i = Inr ob'" "sim ob' (s @ [spec_new m])"
      by (auto intro: sim_add)
    with 3 idx show thesis by (intro that [of ob']) (auto simp: apply_msg_def spec_step_def Let_def)
  next
    case 4
    with sim p obtain ob' where "modify ob m ?b ?i = Inr ob'" "sim ob' (spec_modify m s)"
      by (auto intro: sim_modify)
    with 4 idx show thesis by (intro that [of ob']) (auto simp: apply_msg_def spec_step_def Let_def)
  next
    case 5
    from sim obtain ob' where "handle_full_fill ob m = Inr ob'" "sim ob' (spec_remove (msg_order_id m) s)"
      by (rule sim_full_fill)
    with 5 tot show thesis by (intro that [of ob']) (auto simp: apply_msg_def spec_step_def Let_def)
  next
    case 6
    from sim obtain ob' where "cancel ob m = Inr ob'"
      "sim ob' (spec_reduce (msg_order_id m) (msg_size m) s)" by (rule sim_reduce)
    with 6 tot show thesis
      by (intro that [of ob']) (auto simp: apply_msg_def spec_step_def Let_def handle_non_printed_def handle_trade_eq_cancel)
  next
    case 7
    with sim tot show thesis by (intro that [of ob]) (auto simp: apply_msg_def spec_step_def Let_def)
  qed
qed

lemma sim_run:
  assumes "sim ob s" "admissible_all (price_min ob) (price_max ob) s ms"
  shows "\<exists>ob'. apply_all ob ms = Inr ob' \<and> sim ob' (foldl spec_step s ms)"
  using assms
proof (induction ms arbitrary: ob s)
  case Nil
  then show ?case by (simp add: apply_all_def)
next
  case (Cons m ms)
  from Cons.prems obtain ob1 where 1: "apply_msg ob m = Inr ob1" "sim ob1 (spec_step s m)"
    by (auto elim: sim_step)
  from apply_msg_config [OF 1(1)] Cons.prems(2)
  have "admissible_all (price_min ob1) (price_max ob1) (spec_step s m) ms" by simp
  from Cons.IH [OF 1(2) this] 1(1) show ?case by (simp add: apply_all_def)
qed
end
