(* ===== verification/OrderBook_Queries.thy ===== *)
theory OrderBook_Queries
  imports OrderBook_Spec
begin

section \<open>Reading the book: best prices and depth\<close>

text \<open>
  The read-only operations of \<open>src/orderbook/orderbook.h\<close> that return plain values:
  \<open>best_bid\<close>, \<open>best_ask\<close>, \<open>get_level\<close> and \<open>get_depth\<close>. The lemmas reduce the
  loops to one list per side, the non-empty levels in price order, and express that list
  through the abstract book: its distinct prices, each with the sum of the sizes resting there.
\<close>

subsection \<open>Definitions\<close>

record depth_entry =
  de_price :: int
  de_size :: u64

record depth_snapshot =
  snap_bids :: "depth_entry list"
  snap_asks :: "depth_entry list"

text \<open>
  The bid loops count an \<open>int\<close> down, so the price is computed in \<open>int64_t\<close>; the ask
  loops count a \<open>size_t\<close> up, so the same expression is computed modulo \<open>2 ^ 64\<close> and
  converted back.
\<close>

definition bid_price :: "order_book \<Rightarrow> nat \<Rightarrow> int result" where
  "bid_price ob i = bindE (chk64 (int i * tick_size ob)) (\<lambda>d. chk64 (price_min ob + d))"

definition ask_price :: "order_book \<Rightarrow> nat \<Rightarrow> int" where
  "ask_price ob i = wrap_int64 (price_min ob + int i * tick_size ob)"

text \<open>\<open>(int)m_num_levels - 1\<close>\<close>

definition last_index :: "order_book \<Rightarrow> int result" where
  "last_index ob = (let n = size_to_int (num_levels ob) in
     if n = - (2 ^ 31) then Inl (UB Signed_Overflow) else Inr (n - 1))"

text \<open>The descending loops: the argument is the loop variable plus one.\<close>

fun best_bid_from :: "order_book \<Rightarrow> nat \<Rightarrow> (int \<times> u64) option result" where
  "best_bid_from ob 0 = Inr None"
| "best_bid_from ob (Suc i) = bindE (vec_at (bids ob) i) (\<lambda>lvl.
     if \<not> level_empty lvl then bindE (bid_price ob i) (\<lambda>price. Inr (Some (price, total_size lvl)))
     else best_bid_from ob i)"

definition best_bid :: "order_book \<Rightarrow> (int \<times> u64) option result" where
  "best_bid ob = bindE (last_index ob) (\<lambda>i. best_bid_from ob (nat (i + 1)))"

function best_ask_from :: "order_book \<Rightarrow> nat \<Rightarrow> (int \<times> u64) option result" where
  "best_ask_from ob i =
     (if i < num_levels ob then bindE (vec_at (asks ob) i) (\<lambda>lvl.
        if \<not> level_empty lvl then Inr (Some (ask_price ob i, total_size lvl))
        else best_ask_from ob (Suc i))
      else Inr None)"
  by pat_completeness auto
termination
  by (relation "measure (\<lambda>(ob, i). num_levels ob - i)") auto

declare best_ask_from.simps [simp del]

definition best_ask :: "order_book \<Rightarrow> (int \<times> u64) option result" where
  "best_ask ob = best_ask_from ob 0"

definition get_level :: "order_book \<Rightarrow> bool \<Rightarrow> nat \<Rightarrow> level result" where
  "get_level ob is_bid idx = (if is_bid then vec_at (bids ob) idx else vec_at (asks ob) idx)"

fun depth_bids :: "order_book \<Rightarrow> int \<Rightarrow> nat \<Rightarrow> int \<Rightarrow> depth_entry list \<Rightarrow> depth_entry list result" where
  "depth_bids ob levels 0 count out = Inr out"
| "depth_bids ob levels (Suc idx) count out =
     (if count < levels then bindE (vec_at (bids ob) idx) (\<lambda>lvl.
        if \<not> level_empty lvl then bindE (bid_price ob idx) (\<lambda>price.
          depth_bids ob levels idx (count + 1) (out @ [\<lparr>de_price = price, de_size = total_size lvl\<rparr>]))
        else depth_bids ob levels idx count out)
      else Inr out)"

function depth_asks :: "order_book \<Rightarrow> int \<Rightarrow> nat \<Rightarrow> int \<Rightarrow> depth_entry list \<Rightarrow> depth_entry list result" where
  "depth_asks ob levels idx count out =
     (if idx < num_levels ob \<and> count < levels then bindE (vec_at (asks ob) idx) (\<lambda>lvl.
        if \<not> level_empty lvl then
          depth_asks ob levels (Suc idx) (count + 1)
            (out @ [\<lparr>de_price = ask_price ob idx, de_size = total_size lvl\<rparr>])
        else depth_asks ob levels (Suc idx) count out)
      else Inr out)"
  by pat_completeness auto
termination
  by (relation "measure (\<lambda>(ob, levels, idx, count, out). num_levels ob - idx)") auto

declare depth_asks.simps [simp del]

text \<open>
  \<open>reserve(levels)\<close> converts a negative \<open>int\<close> to a size beyond any \<open>max_size\<close> and
  throws; otherwise it has no effect on the result.
\<close>

definition get_depth :: "order_book \<Rightarrow> int \<Rightarrow> depth_snapshot result" where
  "get_depth ob levels =
     (if levels < 0 then Inl (Throw Std_Length_Error)
      else bindE (last_index ob) (\<lambda>i.
           bindE (depth_bids ob levels (nat (i + 1)) 0 []) (\<lambda>bs.
           bindE (depth_asks ob levels 0 0 []) (\<lambda>as.
             Inr \<lparr>snap_bids = bs, snap_asks = as\<rparr>))))"

subsection \<open>The non-empty levels of a side\<close>

definition level_price :: "order_book \<Rightarrow> nat \<Rightarrow> int" where
  "level_price ob i = price_min ob + int i * tick_size ob"

definition level_used :: "order_book \<Rightarrow> bool \<Rightarrow> nat \<Rightarrow> bool" where
  "level_used ob b i \<longleftrightarrow> queue (side_levels ob b ! i) \<noteq> []"

definition level_entry :: "order_book \<Rightarrow> bool \<Rightarrow> nat \<Rightarrow> depth_entry" where
  "level_entry ob b i = \<lparr>de_price = level_price ob i, de_size = total_size (side_levels ob b ! i)\<rparr>"

definition used_levels :: "order_book \<Rightarrow> bool \<Rightarrow> nat list" where
  "used_levels ob b = filter (level_used ob b) [0..<num_levels ob]"

definition entries :: "order_book \<Rightarrow> bool \<Rightarrow> depth_entry list" where
  "entries ob b = map (level_entry ob b) (used_levels ob b)"

text \<open>A book whose arrays match its configuration; all the loops below run without error on it.\<close>

definition readable :: "order_book \<Rightarrow> bool" where
  "readable ob \<longleftrightarrow> config_ok ob \<and> (\<forall>b. length (side_levels ob b) = num_levels ob)"

lemma sim_readable: "sim ob s \<Longrightarrow> readable ob"
  by (simp add: readable_def simD(2) book_inv_length [OF simD(1)])

lemma level_price_bounds:
  assumes "config_ok ob" "i < num_levels ob"
  shows "price_min ob \<le> level_price ob i" "level_price ob i \<le> price_max ob"
proof -
  let ?d = "price_max ob - price_min ob"
  from assms have t: "0 < tick_size ob" and n: "i \<le> nat (?d div tick_size ob)" and d: "0 \<le> ?d"
    by (auto simp: config_ok_def)
  from t d have "0 \<le> ?d div tick_size ob" by (simp add: pos_imp_zdiv_nonneg_iff)
  with n have i: "int i \<le> ?d div tick_size ob" by (simp add: le_nat_iff)
  from i t have "int i * tick_size ob \<le> ?d div tick_size ob * tick_size ob"
    by (intro mult_right_mono) auto
  also have "\<dots> \<le> ?d" using t by (simp add: minus_mod_eq_div_mult [symmetric])
  finally show "level_price ob i \<le> price_max ob" by (simp add: level_price_def)
  show "price_min ob \<le> level_price ob i" using t by (simp add: level_price_def)
qed

lemma bid_price_eq [simp]:
  assumes "readable ob" "i < num_levels ob"
  shows "bid_price ob i = Inr (level_price ob i)"
proof -
  from assms have c: "config_ok ob" by (simp add: readable_def)
  note b = level_price_bounds [OF c assms(2)]
  have "0 \<le> int i * tick_size ob" using c by (simp add: config_ok_def)
  then have "in_int64 (level_price ob i)" "in_int64 (int i * tick_size ob)"
    using b c unfolding config_ok_def in_int64_def level_price_def by linarith+
  then show ?thesis by (simp add: bid_price_def level_price_def)
qed

lemma ask_price_eq [simp]:
  assumes "readable ob" "i < num_levels ob"
  shows "ask_price ob i = level_price ob i"
proof -
  from assms have c: "config_ok ob" by (simp add: readable_def)
  have "in_int64 (level_price ob i)"
    using level_price_bounds [OF c assms(2)] c by (auto simp: config_ok_def in_int64_def)
  then show ?thesis by (simp add: ask_price_def level_price_def wrap_int64_id)
qed

lemma last_index_eq: "readable ob \<Longrightarrow> last_index ob = Inr (int (num_levels ob) - 1)"
  by (simp add: last_index_def readable_def config_ok_def size_to_int_id)

lemma level_at [simp]: "readable ob \<Longrightarrow> i < num_levels ob \<Longrightarrow> vec_at (bids ob) i = Inr (side_levels ob True ! i)"
  "readable ob \<Longrightarrow> i < num_levels ob \<Longrightarrow> vec_at (asks ob) i = Inr (side_levels ob False ! i)"
  using spec [of "\<lambda>b. length (side_levels ob b) = num_levels ob" True]
    spec [of "\<lambda>b. length (side_levels ob b) = num_levels ob" False]
  by (auto simp: readable_def side_levels_def)

lemma level_empty_side [simp]: "level_empty (side_levels ob b ! i) = (\<not> level_used ob b i)"
  by (simp add: level_empty_def level_used_def)

subsection \<open>The loops compute prefixes of that list\<close>

lemma best_bid_from_eq:
  "readable ob \<Longrightarrow> k \<le> num_levels ob \<Longrightarrow> best_bid_from ob k =
     Inr (case rev (filter (level_used ob True) [0..<k]) of [] \<Rightarrow> None
          | i # _ \<Rightarrow> Some (level_price ob i, total_size (side_levels ob True ! i)))"
  by (induction k) auto

lemma best_ask_from_eq:
  "readable ob \<Longrightarrow> best_ask_from ob i =
     Inr (case filter (level_used ob False) [i..<num_levels ob] of [] \<Rightarrow> None
          | i # _ \<Rightarrow> Some (level_price ob i, total_size (side_levels ob False ! i)))"
proof (induction ob i rule: best_ask_from.induct)
  case (1 ob i)
  show ?case
    using "1.prems" "1.IH" [of "side_levels ob False ! i"]
    by (cases "i < num_levels ob") (simp_all add: best_ask_from.simps [of ob i] upt_rec [of i])
qed

lemma nat_diff_Suc: "nat (a - (1 + b)) = nat (a - b) - Suc 0" "nat (a - (b + 1)) = nat (a - b) - Suc 0"
  by arith+

lemma depth_bids_eq:
  "readable ob \<Longrightarrow> k \<le> num_levels ob \<Longrightarrow> depth_bids ob levels k count out =
     Inr (out @ take (nat (levels - count))
       (map (level_entry ob True) (rev (filter (level_used ob True) [0..<k]))))"
proof (induction k arbitrary: count out)
  case (Suc k)
  then show ?case
    by (cases "count < levels")
      (simp_all add: level_entry_def take_Cons' nat_diff_Suc)
qed simp

lemma depth_asks_eq:
  "readable ob \<Longrightarrow> depth_asks ob levels i count out =
     Inr (out @ take (nat (levels - count))
       (map (level_entry ob False) (filter (level_used ob False) [i..<num_levels ob])))"
proof (induction ob levels i count out rule: depth_asks.induct)
  case (1 ob levels i count out)
  show ?case
    using "1.prems" "1.IH" [of "side_levels ob False ! i"]
    by (cases "i < num_levels ob \<and> count < levels")
      (auto simp: depth_asks.simps [of ob levels i] upt_rec [of i] level_entry_def take_Cons' nat_diff_Suc)
qed

lemma best_bid_eq: "readable ob \<Longrightarrow> best_bid ob =
    Inr (case rev (entries ob True) of [] \<Rightarrow> None | e # _ \<Rightarrow> Some (de_price e, de_size e))"
  by (simp add: best_bid_def last_index_eq best_bid_from_eq entries_def used_levels_def rev_map
      level_entry_def split: list.split)

lemma best_ask_eq: "readable ob \<Longrightarrow> best_ask ob =
    Inr (case entries ob False of [] \<Rightarrow> None | e # _ \<Rightarrow> Some (de_price e, de_size e))"
  by (simp add: best_ask_def best_ask_from_eq entries_def used_levels_def level_entry_def split: list.split)

lemma get_depth_eq: "readable ob \<Longrightarrow> 0 \<le> levels \<Longrightarrow> get_depth ob levels =
    Inr \<lparr>snap_bids = take (nat levels) (rev (entries ob True)),
         snap_asks = take (nat levels) (entries ob False)\<rparr>"
  by (simp add: get_depth_def last_index_eq depth_bids_eq depth_asks_eq entries_def used_levels_def rev_map)

subsection \<open>In terms of the abstract book\<close>

definition on_tick :: "order_book \<Rightarrow> int \<Rightarrow> bool" where
  "on_tick ob p \<longleftrightarrow> price_in_range ob p \<and> (p - price_min ob) mod tick_size ob = 0"

definition side_prices :: "bool \<Rightarrow> spec_book \<Rightarrow> int set" where
  "side_prices b s = rs_price ` set (filter (\<lambda>r. rs_bid r = b) s)"

definition resting_total :: "bool \<Rightarrow> int \<Rightarrow> spec_book \<Rightarrow> u64" where
  "resting_total b p s = (\<Sum>r\<leftarrow>filter (\<lambda>r. rs_bid r = b \<and> rs_price r = p) s. ucast (rs_size r))"

text \<open>The prices at which orders rest, ascending, each with the sum of the sizes there.\<close>

definition spec_depth :: "bool \<Rightarrow> spec_book \<Rightarrow> depth_entry list" where
  "spec_depth b s = map (\<lambda>p. \<lparr>de_price = p, de_size = resting_total b p s\<rparr>)
     (sorted_list_of_set (side_prices b s))"

lemma level_price_level_of:
  "config_ok ob \<Longrightarrow> on_tick ob p \<Longrightarrow> level_price ob (level_of ob p) = p"
  by (auto simp: on_tick_def level_price_def level_of_def price_level_def config_ok_def
      price_in_range_def pos_imp_zdiv_nonneg_iff minus_mod_eq_div_mult [symmetric])

lemma level_of_level_price: "config_ok ob \<Longrightarrow> level_of ob (level_price ob i) = i"
  by (simp add: level_price_def level_of_def price_level_def config_ok_def)

lemma at_level_on_tick:
  "config_ok ob \<Longrightarrow> on_tick ob (rs_price r) \<Longrightarrow>
    at_level ob b i r \<longleftrightarrow> rs_bid r = b \<and> rs_price r = level_price ob i"
  using level_price_level_of [of ob "rs_price r"] level_of_level_price [of ob i]
  by (auto simp: at_level_def)

lemma sim_level_orders:
  assumes sim: "sim ob s" and t: "\<forall>r \<in> set s. on_tick ob (rs_price r)" and i: "i < num_levels ob"
  shows "level_orders ob b i =
    map to_order (filter (\<lambda>r. rs_bid r = b \<and> rs_price r = level_price ob i) s)"
  using simD(4) [OF sim i] t at_level_on_tick [OF simD(2) [OF sim]]
  by (simp cong: filter_cong)

lemma sim_level_used:
  assumes "sim ob s" "\<forall>r \<in> set s. on_tick ob (rs_price r)" "i < num_levels ob"
  shows "level_used ob b i \<longleftrightarrow> level_price ob i \<in> side_prices b s"
proof -
  have "level_used ob b i \<longleftrightarrow> level_orders ob b i \<noteq> []"
    by (simp add: level_used_def level_orders_def)
  then show ?thesis
    by (auto simp: sim_level_orders [OF assms] side_prices_def filter_empty_conv image_iff)
qed

lemma sim_level_total:
  assumes "sim ob s" "\<forall>r \<in> set s. on_tick ob (rs_price r)" "i < num_levels ob"
  shows "total_size (side_levels ob b ! i) = resting_total b (level_price ob i) s"
proof -
  have "total_size (side_levels ob b ! i) = queue_sum (queue (side_levels ob b ! i))"
    using book_inv_level [OF simD(1) [OF assms(1)] assms(3)] by (simp add: level_ok_def)
  also have "\<dots> = (\<Sum>ord\<leftarrow>level_orders ob b i. ucast (order_size ord))"
    by (simp add: queue_sum_def level_orders_def o_def)
  finally show ?thesis
    by (simp add: sim_level_orders [OF assms] resting_total_def o_def)
qed

lemma used_prices:
  assumes "sim ob s" "\<forall>r \<in> set s. on_tick ob (rs_price r)"
  shows "map (level_price ob) (used_levels ob b) = sorted_list_of_set (side_prices b s)"
proof -
  let ?ps = "map (level_price ob) (used_levels ob b)"
  have c: "config_ok ob" using simD(2) [OF assms(1)] .
  have "sorted_wrt (<) (used_levels ob b)"
    by (simp add: used_levels_def sorted_wrt_filter strict_sorted_iff)
  then have "sorted_wrt (<) ?ps"
    using c by (simp add: sorted_wrt_map level_price_def config_ok_def)
  then have "sorted_list_of_set (set ?ps) = ?ps"
    by (intro sorted_list_of_set.idem_if_sorted_distinct) (auto simp: strict_sorted_iff)
  moreover have "p \<in> set ?ps" if "p \<in> side_prices b s" for p
  proof -
    from that assms(2) have p: "on_tick ob p" by (auto simp: side_prices_def)
    then have "level_of ob p < num_levels ob"
      using price_to_index_in_range [OF c] by (simp add: on_tick_def)
    with p that show ?thesis
      using sim_level_used [OF assms] level_price_level_of [OF c p]
      by (auto simp: used_levels_def image_iff intro!: bexI [of _ "level_of ob p"])
  qed
  moreover have "set ?ps \<subseteq> side_prices b s"
    using sim_level_used [OF assms] by (auto simp: used_levels_def)
  ultimately show ?thesis by (metis subsetI subset_antisym)
qed

lemma sim_entries:
  assumes "sim ob s" "\<forall>r \<in> set s. on_tick ob (rs_price r)"
  shows "entries ob b = spec_depth b s"
proof -
  have "entries ob b = map (\<lambda>i. \<lparr>de_price = level_price ob i,
      de_size = resting_total b (level_price ob i) s\<rparr>) (used_levels ob b)"
    using sim_level_total [OF assms]
    by (auto simp: entries_def level_entry_def used_levels_def)
  also have "\<dots> = spec_depth b s"
    by (simp add: spec_depth_def used_prices [OF assms, symmetric])
  finally show ?thesis .
qed

text \<open>The feed keeps resting prices on the tick grid when the messages that place orders do.\<close>

definition placing :: "mbo_msg \<Rightarrow> bool" where
  "placing m \<longleftrightarrow> (msg_action m = CHR ''A'' \<or> msg_action m = CHR ''M'') \<and>
     (msg_side m = CHR ''A'' \<or> msg_side m = CHR ''B'')"

lemma spec_step_prices:
  "rs_price ` set (spec_step s m) \<subseteq> rs_price ` set s \<union> (if placing m then {msg_price m} else {})"
  by (auto simp: spec_step_def Let_def spec_new_def spec_modify_def spec_remove_def spec_resize_def
      spec_reduce_def placing_def split: option.splits if_splits dest!: spec_find_SomeD)

lemma spec_run_prices:
  "rs_price ` set (foldl spec_step s ms) \<subseteq> rs_price ` set s \<union> msg_price ` set (filter placing ms)"
proof (induction ms arbitrary: s)
  case (Cons m ms)
  from Cons [of "spec_step s m"] spec_step_prices [of s m] show ?case by (auto split: if_splits)
qed simp

end
