(* ===== verification/OrderBook_Props.thy ===== *)
theory OrderBook_Props
  imports OrderBook_Queries
begin

section \<open>Properties of the order book\<close>

text \<open>
  The theorems about \<open>src/orderbook/orderbook.h\<close> that a reader should look at first. They
  start from a book made by the constructor and hold for every sequence of messages that
  the feed may send; the last ones say what happens when the feed breaks its side of the
  contract.
\<close>

subsection \<open>From the constructor on\<close>

definition valid_config :: "int \<Rightarrow> int \<Rightarrow> int \<Rightarrow> bool" where
  "valid_config pmin pmax tick \<longleftrightarrow> 0 < tick \<and> in_int64 pmin \<and> in_int64 pmax \<and> pmin \<le> pmax \<and>
     in_int64 (pmax - pmin) \<and> (pmax - pmin) div tick + 1 < 2 ^ 31"

lemma new_order_book_fields:
  assumes "new_order_book max_size pmin pmax tick = Inr ob"
  shows "price_min ob = pmin" "price_max ob = pmax" "tick_size ob = tick" "orders_ref ob = Map.empty"
    "side_levels ob b = replicate (num_levels ob) empty_level"
  using assms by (auto simp: new_order_book_def bindE_eq_Inr Let_def side_levels_def split: if_splits)

lemma new_order_book_levels:
  assumes v: "valid_config pmin pmax tick" and n: "new_order_book max_size pmin pmax tick = Inr ob"
  shows "num_levels ob = nat ((pmax - pmin) div tick) + 1"
proof -
  have "0 \<le> (pmax - pmin) div tick" using v by (simp add: valid_config_def pos_imp_zdiv_nonneg_iff)
  then show ?thesis
    using assms by (auto simp: new_order_book_def bindE_eq_Inr Let_def valid_config_def sdiv_nonneg
        nat_add_distrib split: if_splits)
qed

lemma new_order_book_sim:
  assumes v: "valid_config pmin pmax tick" and n: "new_order_book max_size pmin pmax tick = Inr ob"
  shows "sim ob []"
proof -
  note f = new_order_book_fields [OF n] and l = new_order_book_levels [OF v n]
  have "book_inv ob" by (auto simp: book_inv_def f level_ok_def empty_level_def)
  moreover have "config_ok ob"
  proof -
    from v have "0 \<le> (pmax - pmin) div tick"
      by (simp add: valid_config_def pos_imp_zdiv_nonneg_iff)
    with v show ?thesis by (simp add: config_ok_def f l valid_config_def nat_less_iff)
  qed
  ultimately show ?thesis
    by (auto simp: sim_def f spec_find_def level_orders_def empty_level_def)
qed

lemma apply_all_config:
  "apply_all ob ms = Inr ob' \<Longrightarrow>
     price_min ob' = price_min ob \<and> price_max ob' = price_max ob \<and> tick_size ob' = tick_size ob"
  unfolding apply_all_def
  by (induction ms arbitrary: ob) (auto simp: bindE_eq_Inr dest!: apply_msg_config)

lemma run_sim:
  assumes "valid_config pmin pmax tick" "new_order_book max_size pmin pmax tick = Inr ob0"
    and "admissible_all pmin pmax [] ms"
  obtains ob where "apply_all ob0 ms = Inr ob" "sim ob (foldl spec_step [] ms)"
    "price_min ob = pmin" "tick_size ob = tick" "price_max ob = pmax"
proof -
  note f = new_order_book_fields [OF assms(2)]
  from sim_run [OF new_order_book_sim [OF assms(1,2)]] assms(3) obtain ob where
    "apply_all ob0 ms = Inr ob" "sim ob (foldl spec_step [] ms)" by (auto simp: f)
  with apply_all_config [OF this(1)] f show thesis by (intro that [of ob]) simp_all
qed

lemma admissible_run_on_tick:
  assumes "admissible_all pmin pmax s ms" "\<forall>m \<in> set ms. placing m \<longrightarrow> (msg_price m - pmin) mod tick = 0"
    and "\<forall>r \<in> set s. pmin \<le> rs_price r \<and> rs_price r \<le> pmax \<and> (rs_price r - pmin) mod tick = 0"
    and "r \<in> set (foldl spec_step s ms)"
  shows "pmin \<le> rs_price r \<and> rs_price r \<le> pmax \<and> (rs_price r - pmin) mod tick = 0"
  using assms
proof (induction ms arbitrary: s)
  case (Cons m ms)
  have "\<forall>r \<in> set (spec_step s m). pmin \<le> rs_price r \<and> rs_price r \<le> pmax \<and> (rs_price r - pmin) mod tick = 0"
  proof
    fix r assume "r \<in> set (spec_step s m)"
    with spec_step_prices [of s m]
    have "rs_price r \<in> rs_price ` set s \<or> (placing m \<and> rs_price r = msg_price m)"
      by (auto split: if_splits)
    with Cons.prems(1,2,3) show "pmin \<le> rs_price r \<and> rs_price r \<le> pmax \<and> (rs_price r - pmin) mod tick = 0"
      by (auto simp: admissible_def placing_def)
  qed
  with Cons.prems show ?case by (intro Cons.IH [of "spec_step s m"]) simp_all
qed simp

text \<open>The message constructor of the unit tests.\<close>

definition make_mbo :: "u64 \<Rightarrow> char \<Rightarrow> char \<Rightarrow> int \<Rightarrow> u32 \<Rightarrow> mbo_msg" where
  "make_mbo oid action side px sz =
     \<lparr>msg_order_id = oid, msg_price = px, msg_size = sz, msg_action = action, msg_side = side,
      msg_rtype = 0, msg_ts_event = 0, msg_instrument_id = 1, msg_publisher_id = 0, msg_length = 0,
      msg_flags = 0, msg_ts_recv = 0, msg_ts_in_delta = 0, msg_sequence = 0\<rparr>"

lemma make_mbo_fields [simp]:
  "msg_order_id (make_mbo i a s p z) = i" "msg_action (make_mbo i a s p z) = a"
  "msg_side (make_mbo i a s p z) = s" "msg_price (make_mbo i a s p z) = p"
  "msg_size (make_mbo i a s p z) = z"
  by (simp_all add: make_mbo_def)

definition demo_feed :: "mbo_msg list" where
  "demo_feed =
     [make_mbo 1 CHR ''A'' CHR ''B'' 100 5, make_mbo 2 CHR ''A'' CHR ''B'' 100 7,
      make_mbo 3 CHR ''A'' CHR ''A'' 200 3, make_mbo 1 CHR ''M'' CHR ''B'' 100 8,
      make_mbo 2 CHR ''C'' CHR ''B'' 100 4]"

lemma demo_admissible: "admissible_all 0 200 [] demo_feed"
  by (simp add: demo_feed_def admissible_def spec_step_def spec_find_def in_int64_def spec_new_def
      spec_modify_def Let_def spec_remove_def spec_reduce_def spec_resize_def)

lemma demo_config: "valid_config 0 200 100"
  by (simp add: valid_config_def in_int64_def)

definition demo_book :: order_book where
  "demo_book = \<lparr>price_min = 0, price_max = 200, tick_size = 100, num_levels = 3,
     bids = replicate 3 empty_level, asks = replicate 3 empty_level,
     orders_ref = Map.empty, next_node = 0\<rparr>"

lemma demo_new: "new_order_book 1000 0 200 100 = Inr demo_book"
  by (simp add: new_order_book_def in_int64_def sdiv_nonneg Let_def demo_book_def)

subsection \<open>Price-time priority\<close>

text \<open>
  C1: starting from the constructor, every admissible message sequence is applied without
  error, and afterwards the FIFO queue of every level is exactly the sublist, in time
  priority, of the orders that the abstract book has resting on that side and level.
\<close>

theorem orderbook_refines_spec:
  assumes "valid_config pmin pmax tick" "new_order_book max_size pmin pmax tick = Inr ob0"
    and "admissible_all pmin pmax [] ms"
  shows "\<exists>ob. apply_all ob0 ms = Inr ob \<and> (\<forall>b i. i < num_levels ob \<longrightarrow>
    level_orders ob b i = map to_order (filter (at_level ob b i) (foldl spec_step [] ms)))"
  using assms by (rule run_sim) (use simD(4) in blast)

theorem orderbook_refines_spec_witness:
  "\<exists>ob. apply_all demo_book demo_feed = Inr ob \<and> (\<forall>b i. i < num_levels ob \<longrightarrow>
    level_orders ob b i = map to_order (filter (at_level ob b i) (foldl spec_step [] demo_feed)))"
  by (rule orderbook_refines_spec [OF demo_config demo_new demo_admissible])

text \<open>
  C2: when the prices the feed places lie on the tick grid, \<open>get_depth\<close> returns on each
  side, best price first, the first \<open>levels\<close> of the distinct resting prices, each with
  the sum of the sizes resting at that price.
\<close>

theorem get_depth_correct:
  assumes "valid_config pmin pmax tick" "new_order_book max_size pmin pmax tick = Inr ob0"
    and "admissible_all pmin pmax [] ms"
    and "\<forall>m \<in> set ms. placing m \<longrightarrow> (msg_price m - pmin) mod tick = 0" and "0 \<le> levels"
  shows "\<exists>ob. apply_all ob0 ms = Inr ob \<and> get_depth ob levels =
    Inr \<lparr>snap_bids = take (nat levels) (rev (spec_depth True (foldl spec_step [] ms))),
         snap_asks = take (nat levels) (spec_depth False (foldl spec_step [] ms))\<rparr>"
proof -
  from assms(1-3) obtain ob where ob: "apply_all ob0 ms = Inr ob" "sim ob (foldl spec_step [] ms)"
    "price_min ob = pmin" "tick_size ob = tick" "price_max ob = pmax" by (rule run_sim)
  have t: "\<forall>r \<in> set (foldl spec_step [] ms). on_tick ob (rs_price r)"
    using admissible_run_on_tick [OF assms(3,4)] ob by (auto simp: on_tick_def price_in_range_def)
  show ?thesis
    using ob(1) get_depth_eq [OF sim_readable [OF ob(2)] assms(5)] sim_entries [OF ob(2) t] by simp
qed

theorem get_depth_correct_witness:
  "\<exists>ob. apply_all demo_book demo_feed = Inr ob \<and> get_depth ob 10 =
    Inr \<lparr>snap_bids = [\<lparr>de_price = 100, de_size = 11\<rparr>], snap_asks = [\<lparr>de_price = 200, de_size = 3\<rparr>]\<rparr>"
proof -
  have s: "foldl spec_step [] demo_feed =
      [\<lparr>rs_id = 2, rs_bid = True, rs_price = 100, rs_size = 3\<rparr>,
       \<lparr>rs_id = 3, rs_bid = False, rs_price = 200, rs_size = 3\<rparr>,
       \<lparr>rs_id = 1, rs_bid = True, rs_price = 100, rs_size = 8\<rparr>]"
    by (simp add: demo_feed_def spec_step_def spec_find_def spec_new_def
      spec_modify_def Let_def spec_remove_def spec_reduce_def spec_resize_def)
  have g: "\<forall>m \<in> set demo_feed. placing m \<longrightarrow> (msg_price m - 0) mod 100 = 0"
    by (simp add: demo_feed_def)
  show ?thesis
    using get_depth_correct [OF demo_config demo_new demo_admissible g, of 10]
    by (simp add: s spec_depth_def side_prices_def resting_total_def)
qed

definition spec_best :: "bool \<Rightarrow> spec_book \<Rightarrow> (int \<times> u64) option" where
  "spec_best b s = (if side_prices b s = {} then None
     else let p = (if b then Max (side_prices b s) else Min (side_prices b s))
          in Some (p, resting_total b p s))"

lemma finite_side_prices [simp]: "finite (side_prices b s)"
  by (simp add: side_prices_def)

lemma last_sorted:
  "sorted xs \<Longrightarrow> xs \<noteq> [] \<Longrightarrow> last xs = Max (set xs)" for xs :: "int list"
proof (induction xs rule: rev_induct)
  case (snoc x xs)
  then have "\<forall>y \<in> set xs. y \<le> x" by (simp add: sorted_append)
  then have "Max (insert x (set xs)) = x" by (intro Max_eqI) auto
  then show ?case by simp
qed simp

lemma last_sorted_list_of_set:
  "finite A \<Longrightarrow> A \<noteq> {} \<Longrightarrow> last (sorted_list_of_set A) = Max A" for A :: "int set"
  using last_sorted [of "sorted_list_of_set A"] by simp

lemma best_quotes_sim:
  assumes sim: "sim ob s" and t: "\<forall>r \<in> set s. on_tick ob (rs_price r)"
  shows "best_bid ob = Inr (spec_best True s)" "best_ask ob = Inr (spec_best False s)"
proof -
  note e = sim_entries [OF sim t]
  show "best_bid ob = Inr (spec_best True s)"
  proof (cases "side_prices True s = {}")
    case True
    then show ?thesis by (simp add: best_bid_eq [OF sim_readable [OF sim]] e spec_depth_def spec_best_def)
  next
    case False
    then have "sorted_list_of_set (side_prices True s) \<noteq> []" by simp
    then obtain ps p where ps: "sorted_list_of_set (side_prices True s) = ps @ [p]"
      by (metis append_butlast_last_id)
    with False last_sorted_list_of_set [of "side_prices True s"] have "p = Max (side_prices True s)" by simp
    with False ps show ?thesis
      by (simp add: best_bid_eq [OF sim_readable [OF sim]] e spec_depth_def spec_best_def Let_def)
  qed
  show "best_ask ob = Inr (spec_best False s)"
    by (simp add: best_ask_eq [OF sim_readable [OF sim]] e spec_depth_def spec_best_def Let_def
        sorted_list_of_set_nonempty)
qed

text \<open>
  C3: under the same conditions \<open>best_bid\<close> is the highest price at which a bid rests with
  the sum of the bid sizes at it, \<open>best_ask\<close> the lowest price at which an ask rests, and
  each is absent exactly when no order rests on its side.
\<close>

theorem best_quotes_correct:
  assumes "valid_config pmin pmax tick" "new_order_book max_size pmin pmax tick = Inr ob0"
    and "admissible_all pmin pmax [] ms"
    and "\<forall>m \<in> set ms. placing m \<longrightarrow> (msg_price m - pmin) mod tick = 0"
  shows "\<exists>ob. apply_all ob0 ms = Inr ob \<and>
    best_bid ob = Inr (spec_best True (foldl spec_step [] ms)) \<and>
    best_ask ob = Inr (spec_best False (foldl spec_step [] ms))"
proof -
  from assms(1-3) obtain ob where ob: "apply_all ob0 ms = Inr ob" "sim ob (foldl spec_step [] ms)"
    "price_min ob = pmin" "tick_size ob = tick" "price_max ob = pmax" by (rule run_sim)
  have "\<forall>r \<in> set (foldl spec_step [] ms). on_tick ob (rs_price r)"
    using admissible_run_on_tick [OF assms(3,4)] ob by (auto simp: on_tick_def price_in_range_def)
  with ob(1) best_quotes_sim [OF ob(2)] show ?thesis by blast
qed

theorem best_quotes_correct_witness:
  "\<exists>ob. apply_all demo_book demo_feed = Inr ob \<and>
    best_bid ob = Inr (Some (100, 11)) \<and> best_ask ob = Inr (Some (200, 3))"
proof -
  have s: "foldl spec_step [] demo_feed =
      [\<lparr>rs_id = 2, rs_bid = True, rs_price = 100, rs_size = 3\<rparr>,
       \<lparr>rs_id = 3, rs_bid = False, rs_price = 200, rs_size = 3\<rparr>,
       \<lparr>rs_id = 1, rs_bid = True, rs_price = 100, rs_size = 8\<rparr>]"
    by (simp add: demo_feed_def spec_step_def spec_find_def spec_new_def
      spec_modify_def Let_def spec_remove_def spec_reduce_def spec_resize_def)
  have g: "\<forall>m \<in> set demo_feed. placing m \<longrightarrow> (msg_price m - 0) mod 100 = 0"
    by (simp add: demo_feed_def)
  show ?thesis
    using best_quotes_correct [OF demo_config demo_new demo_admissible g]
    by (simp add: s spec_best_def side_prices_def resting_total_def)
qed

subsection \<open>Safety, whatever the feed sends\<close>

lemma reachable_inv:
  assumes "new_order_book max_size pmin pmax tick = Inr ob0" "apply_all ob0 ms = Inr ob"
  shows "book_inv ob"
proof -
  note f = new_order_book_fields [OF assms(1)]
  have "book_inv ob0" by (auto simp: book_inv_def f level_ok_def empty_level_def)
  from this assms(2) show ?thesis by (rule apply_all_inv)
qed

text \<open>
  C4: whatever messages a book was fed, duplicate ids included, every entry of its id table
  points at a live list node that holds the order of that id, in a level inside the arrays.
\<close>

theorem stored_iterators_valid:
  assumes "new_order_book max_size pmin pmax tick = Inr ob0" "apply_all ob0 ms = Inr ob"
    and "orders_ref ob oid = Some r"
  shows "\<exists>lvl ord. get_side ob (ref_is_bid r) (ref_index r) = Inr lvl \<and>
    deref lvl (ref_it r) = Inr ord \<and> order_id ord = oid"
  using reachable_inv [OF assms(1,2)] assms(3) by (rule ref_lookup) blast

lemma demo_run: "apply_all demo_book [make_mbo 1 CHR ''A'' CHR ''B'' 100 5, make_mbo 1 CHR ''A'' CHR ''A'' 200 3] =
   Inr (append_order (append_order demo_book (make_mbo 1 CHR ''A'' CHR ''B'' 100 5) True 1)
     (make_mbo 1 CHR ''A'' CHR ''A'' 200 3) False 2)"
  by (simp add: apply_all_def apply_msg_def Let_def price_to_index_def in_int64_def sdiv_nonneg
      add_def append_order_def get_side_def side_levels_def put_side_def demo_book_def numeral_eq_Suc)

theorem stored_iterators_valid_witness:
  "\<exists>ob r lvl ord. apply_all demo_book [make_mbo 1 CHR ''A'' CHR ''B'' 100 5,
      make_mbo 1 CHR ''A'' CHR ''A'' 200 3] = Inr ob \<and> orders_ref ob 1 = Some r \<and>
    get_side ob (ref_is_bid r) (ref_index r) = Inr lvl \<and> deref lvl (ref_it r) = Inr ord \<and> order_id ord = 1"
  using stored_iterators_valid [OF demo_new demo_run, of 1] demo_run by simp

lemma modify_error:
  assumes inv: "book_inv ob" and e: "modify ob m b i = Inl e"
  shows "e = UB Out_Of_Bounds \<and> num_levels ob \<le> i"
proof (cases "orders_ref ob (msg_order_id m)")
  case None
  with e show ?thesis by (auto simp: modify_def add_eq [OF inv] split: if_splits)
next
  case (Some r)
  from live_ex [OF inv this] obtain ord where l: "live ob (msg_order_id m) r ord" ..
  from e modify_eq [OF inv l] add_eq [OF run_effect_inv [OF inv l]] show ?thesis
    by (auto split: if_splits)
qed

lemma cancel_no_error: "book_inv ob \<Longrightarrow> cancel ob m \<noteq> Inl e"
proof (cases "orders_ref ob (msg_order_id m)")
  case (Some r)
  assume inv: "book_inv ob"
  from live_ex [OF inv Some] obtain ord where "live ob (msg_order_id m) r ord" ..
  with cancel_eq [OF inv this] show ?thesis by simp
qed (simp add: cancel_def)

lemma handle_full_fill_no_error: "book_inv ob \<Longrightarrow> handle_full_fill ob m \<noteq> Inl e"
proof (cases "orders_ref ob (msg_order_id m)")
  case (Some r)
  assume inv: "book_inv ob"
  from live_ex [OF inv Some] obtain ord where "live ob (msg_order_id m) r ord" ..
  with handle_full_fill_eq [OF inv this] show ?thesis by simp
qed (simp add: handle_full_fill_def)

text \<open>
  C5: in every book reachable from the constructor, applying a message fails in two cases only: the distance of its price to
  the minimum is not representable, which can happen for every action because the index is computed before the action is
  looked at, or the message adds or modifies at a price outside the level arrays. In particular no message, whatever its
  action, ever touches a dangling iterator, and a cancel, trade or fill whose price has a representable distance never fails.
\<close>

theorem apply_error_cases:
  assumes "valid_config pmin pmax tick" "new_order_book max_size pmin pmax tick = Inr ob0"
    and "apply_all ob0 ms = Inr ob" and "apply_msg ob m = Inl e"
  shows "(e = UB Signed_Overflow \<and> \<not> in_int64 (msg_price m - pmin)) \<or>
    (e = UB Out_Of_Bounds \<and> placing m \<and>
     (\<exists>i. price_to_index ob (msg_price m) = Inr i \<and> num_levels ob \<le> i))"
proof -
  note inv = reachable_inv [OF assms(2,3)] and f = new_order_book_fields [OF assms(2)]
  have c: "price_min ob = price_min ob0" "tick_size ob = tick_size ob0"
    using assms(3) apply_all_config by blast+
  have p: "price_to_index ob px =
      (if in_int64 (px - pmin) then Inr (to_size_t ((px - pmin) sdiv tick)) else Inl (UB Signed_Overflow))" for px
    using assms(1) in_int64_sdiv [of "px - pmin" tick]
    by (simp add: price_to_index_def c f chk64_def valid_config_def)
  from assms(4) show ?thesis
    by (auto simp: apply_msg_def Let_def bindE_eq_Inl p placing_def handle_non_printed_def
        handle_trade_eq_cancel cancel_no_error [OF inv] handle_full_fill_no_error [OF inv]
        add_eq [OF inv] split: if_splits dest!: modify_error [OF inv])
qed

theorem apply_error_cases_witness:
  "\<exists>e. apply_msg demo_book (make_mbo 1 CHR ''A'' CHR ''B'' 300 5) = Inl e \<and>
    ((e = UB Signed_Overflow \<and> \<not> in_int64 (300 - 0)) \<or>
     (e = UB Out_Of_Bounds \<and> (\<exists>i. price_to_index demo_book 300 = Inr i \<and> 3 \<le> i)))"
proof -
  have e: "apply_msg demo_book (make_mbo 1 CHR ''A'' CHR ''B'' 300 5) = Inl (UB Out_Of_Bounds)"
    by (simp add: apply_msg_def Let_def price_to_index_def demo_book_def in_int64_def sdiv_nonneg
        add_def get_side_def)
  have r: "apply_all demo_book [] = Inr demo_book" by (simp add: apply_all_def)
  from apply_error_cases [OF demo_config demo_new r e] e show ?thesis by (auto simp: demo_book_def)
qed

lemma queue_sum_exact:
  "length q < 2 ^ 32 \<Longrightarrow> unat (queue_sum q) = (\<Sum>e\<leftarrow>q. unat (order_size (snd e)))"
proof -
  have b: "(\<Sum>e\<leftarrow>q. unat (order_size (snd e))) \<le> length q * (2 ^ 32 - 1)" for q :: "(node \<times> order) list"
  proof (induction q)
    case (Cons e q)
    have "unat (order_size (snd e)) < 2 ^ 32" using unsigned_less [of "order_size (snd e)"] by simp
    with Cons show ?case by simp
  qed simp
  assume "length q < 2 ^ 32"
  then show ?thesis
  proof (induction q)
    case (Cons e q)
    have "(\<Sum>e\<leftarrow>e # q. unat (order_size (snd e))) \<le> length (e # q) * (2 ^ 32 - 1)" by (rule b)
    also have "\<dots> \<le> (2 ^ 32 - 1) * (2 ^ 32 - 1)" using Cons.prems by (intro mult_right_mono) simp_all
    also have "\<dots> < (2 ^ 64 :: nat)" by simp
    finally have "unat (order_size (snd e)) + unat (queue_sum q) < 2 ^ 64" using Cons by simp
    with Cons show ?case by (simp add: unat_add_lem [THEN iffD1])
  qed simp
qed

text \<open>
  C6: the cached total of every level of a reachable book is the exact sum of the sizes in
  its queue, with no wrap-around as long as fewer than \<open>2 ^ 32\<close> orders rest there.
\<close>

theorem level_total_exact:
  assumes "new_order_book max_size pmin pmax tick = Inr ob0" "apply_all ob0 ms = Inr ob"
    and "get_side ob b i = Inr lvl" and "length (queue lvl) < 2 ^ 32"
  shows "unat (total_size lvl) = (\<Sum>e\<leftarrow>queue lvl. unat (order_size (snd e)))"
proof -
  note inv = reachable_inv [OF assms(1,2)]
  from assms(3) inv have "level_ok lvl"
    by (auto simp: get_side_eq book_inv_length [OF inv] book_inv_level)
  then have "total_size lvl = queue_sum (queue lvl)" by (simp add: level_ok_def)
  with assms(4) show ?thesis by (simp add: queue_sum_exact)
qed

theorem level_total_exact_witness:
  "\<exists>ob lvl. apply_all demo_book [make_mbo 1 CHR ''A'' CHR ''B'' 100 5,
      make_mbo 1 CHR ''A'' CHR ''A'' 200 3] = Inr ob \<and> get_side ob True 1 = Inr lvl \<and>
    unat (total_size lvl) = (\<Sum>e\<leftarrow>queue lvl. unat (order_size (snd e)))"
proof -
  let ?ob = "append_order (append_order demo_book (make_mbo 1 CHR ''A'' CHR ''B'' 100 5) True 1)
     (make_mbo 1 CHR ''A'' CHR ''A'' 200 3) False 2"
  have l: "get_side ?ob True 1 = Inr
      \<lparr>queue = [(0, \<lparr>order_id = 1, order_size = 5\<rparr>)], total_size = 5\<rparr>"
    by (simp add: append_order_def Let_def get_side_def side_levels_def put_side_def demo_book_def
        empty_level_def)
  from level_total_exact [OF demo_new demo_run l] demo_run l show ?thesis by simp
qed

subsection \<open>Orders nobody can reach\<close>

text \<open>
  \<open>orphan\<close>: an order sits in a queue but no entry of the id table points at its node.
  Only \<open>clear\<close> removes such an order.
\<close>

definition orphan :: "order_book \<Rightarrow> bool \<Rightarrow> nat \<Rightarrow> node \<Rightarrow> order \<Rightarrow> bool" where
  "orphan ob b i n ord \<longleftrightarrow> i < num_levels ob \<and>
     map_of (queue (side_levels ob b ! i)) n = Some ord \<and>
     (\<forall>oid r. orders_ref ob oid = Some r \<longrightarrow> (ref_is_bid r, ref_index r, ref_it r) \<noteq> (b, i, n))"

lemma map_of_effect_other:
  assumes "distinct (map fst (queue lvl))" "map_of (queue lvl) n = Some ord" "k \<noteq> n"
    and "map_of (queue lvl) k = Some ord'"
  shows "map_of (queue (effect_level eff k ord' lvl)) n = Some ord"
proof (cases eff)
  case (Requeue s)
  from assms(1,4) have "splice_to_end k (set_node_size k s (queue lvl)) =
      erase_node k (queue lvl) @ [(k, ord'\<lparr>order_size := s\<rparr>)]"
    using splice_to_end_eq [of "set_node_size k s (queue lvl)" k]
    by (simp add: map_of_set_node_size del: map_of_eq_Some_iff)
  with Requeue assms(2,3) show ?thesis by (simp add: map_add_def del: map_of_eq_Some_iff)
qed (use assms in \<open>simp_all del: map_of_eq_Some_iff\<close>)

lemma orphan_effect:
  assumes inv: "book_inv ob" and l: "live ob oid r ord'" and o: "orphan ob b i n ord"
  shows "orphan (run_effect ob oid r ord' eff) b i n ord"
proof -
  from l o have ne: "(ref_is_bid r, ref_index r, ref_it r) \<noteq> (b, i, n)" and i: "i < num_levels ob"
    by (auto simp: live_def orphan_def)
  have d: "distinct (map fst (queue (side_levels ob b ! i)))"
    using book_inv_level [OF inv i] by (simp add: level_ok_def)
  have "map_of (queue (side_levels (run_effect ob oid r ord' eff) b ! i)) n = Some ord"
  proof (cases "ref_is_bid r = b \<and> ref_index r = i")
    case True
    with ne have "ref_it r \<noteq> n" by auto
    with True l o i book_inv_length [OF inv] d show ?thesis
      by (auto simp: run_effect_def live_def orphan_def intro!: map_of_effect_other
          simp del: map_of_eq_Some_iff effect_level.simps)
  next
    case False
    with o show ?thesis by (auto simp: run_effect_def orphan_def simp del: map_of_eq_Some_iff)
  qed
  moreover have "orders_ref (run_effect ob oid r ord' eff) oid' = Some r' \<Longrightarrow>
      orders_ref ob oid' = Some r'" for oid' r'
    using l by (auto simp: run_effect_def live_def split: if_splits)
  ultimately show ?thesis using o unfolding orphan_def by (metis run_effect_fields(4))
qed

lemma orphan_append:
  assumes inv: "book_inv ob" and o: "orphan ob b i n ord" and j: "j < num_levels ob"
  shows "orphan (append_order ob m c j) b i n ord"
proof -
  from o have i: "i < num_levels ob" and q: "map_of (queue (side_levels ob b ! i)) n = Some ord"
    by (simp_all add: orphan_def del: map_of_eq_Some_iff)
  from q have "n \<in> fst ` set (queue (side_levels ob b ! i))" by (metis domI dom_map_of_conv_image_fst)
  with book_inv_node [OF inv i] have n: "n < next_node ob" by blast
  have "map_of (queue (side_levels (append_order ob m c j) b ! i)) n = Some ord"
    using q n i j book_inv_length [OF inv]
    by (cases b; cases c; auto simp: append_order_def Let_def nth_list_update map_add_def
        simp del: map_of_eq_Some_iff split: option.splits)
  with o n show ?thesis by (auto simp: orphan_def simp del: map_of_eq_Some_iff split: if_splits)
qed

lemma orphan_add: "book_inv ob \<Longrightarrow> orphan ob b i n ord \<Longrightarrow> add ob m c j = Inr ob' \<Longrightarrow> orphan ob' b i n ord"
  by (auto simp: add_eq orphan_append split: if_splits)

lemma orphan_cancel: "book_inv ob \<Longrightarrow> orphan ob b i n ord \<Longrightarrow> cancel ob m = Inr ob' \<Longrightarrow> orphan ob' b i n ord"
proof (cases "orders_ref ob (msg_order_id m)")
  case (Some r)
  assume a: "book_inv ob" "orphan ob b i n ord" "cancel ob m = Inr ob'"
  from live_ex [OF a(1) Some] obtain ord' where l: "live ob (msg_order_id m) r ord'" ..
  with a cancel_eq [OF a(1) l] show ?thesis by (auto intro: orphan_effect)
qed (simp add: cancel_def)

lemma orphan_full_fill:
  "book_inv ob \<Longrightarrow> orphan ob b i n ord \<Longrightarrow> handle_full_fill ob m = Inr ob' \<Longrightarrow> orphan ob' b i n ord"
proof (cases "orders_ref ob (msg_order_id m)")
  case (Some r)
  assume a: "book_inv ob" "orphan ob b i n ord" "handle_full_fill ob m = Inr ob'"
  from live_ex [OF a(1) Some] obtain ord' where l: "live ob (msg_order_id m) r ord'" ..
  with a handle_full_fill_eq [OF a(1) l] show ?thesis by (auto intro: orphan_effect)
qed (simp add: handle_full_fill_def)

lemma orphan_modify:
  "book_inv ob \<Longrightarrow> orphan ob b i n ord \<Longrightarrow> modify ob m c j = Inr ob' \<Longrightarrow> orphan ob' b i n ord"
proof (cases "orders_ref ob (msg_order_id m)")
  case None
  then show "book_inv ob \<Longrightarrow> orphan ob b i n ord \<Longrightarrow> modify ob m c j = Inr ob' \<Longrightarrow> ?thesis"
    by (auto simp: modify_def intro: orphan_add)
next
  case (Some r)
  assume a: "book_inv ob" "orphan ob b i n ord" "modify ob m c j = Inr ob'"
  from live_ex [OF a(1) Some] obtain ord' where l: "live ob (msg_order_id m) r ord'" ..
  from a(3) modify_eq [OF a(1) l, of c j] show ?thesis
    by (auto split: if_splits intro: orphan_effect [OF a(1) l a(2)]
        orphan_add [OF run_effect_inv [OF a(1) l] orphan_effect [OF a(1) l a(2)]])
qed

lemma orphan_apply:
  "book_inv ob \<Longrightarrow> orphan ob b i n ord \<Longrightarrow> msg_action m \<noteq> CHR ''R'' \<Longrightarrow> apply_msg ob m = Inr ob' \<Longrightarrow>
     orphan ob' b i n ord"
  by (auto simp: apply_msg_def Let_def bindE_eq_Inr handle_non_printed_def handle_trade_eq_cancel
      split: if_splits intro: orphan_add orphan_cancel orphan_full_fill orphan_modify)

lemma orphan_apply_all:
  "book_inv ob \<Longrightarrow> orphan ob b i n ord \<Longrightarrow> \<forall>m \<in> set ms. msg_action m \<noteq> CHR ''R'' \<Longrightarrow>
     apply_all ob ms = Inr ob' \<Longrightarrow> orphan ob' b i n ord"
  unfolding apply_all_def
  by (induction ms arbitrary: ob) (auto simp: bindE_eq_Inr dest: apply_msg_inv orphan_apply)

lemma add_makes_orphan:
  assumes inv: "book_inv ob" and l: "live ob (msg_order_id m) r ord" and a: "add ob m b i = Inr ob'"
  shows "orphan ob' (ref_is_bid r) (ref_index r) (ref_it r) ord"
proof -
  from a have i: "i < num_levels ob" and ob': "ob' = append_order ob m b i"
    by (auto simp: add_eq [OF inv] split: if_splits)
  from l have r: "orders_ref ob (msg_order_id m) = Some r" "ref_index r < num_levels ob"
    and q: "map_of (queue (side_levels ob (ref_is_bid r) ! ref_index r)) (ref_it r) = Some ord"
    and id: "order_id ord = msg_order_id m" by (simp_all add: live_def)
  from q have "ref_it r \<in> fst ` set (queue (side_levels ob (ref_is_bid r) ! ref_index r))"
    by (metis domI dom_map_of_conv_image_fst)
  with book_inv_node [OF inv r(2)] have n: "ref_it r < next_node ob" by blast
  have "(ref_is_bid r', ref_index r', ref_it r') \<noteq> (ref_is_bid r, ref_index r, ref_it r)"
    if "orders_ref ob oid = Some r'" "oid \<noteq> msg_order_id m" for oid r'
    using live_ex [OF inv that(1)] that(2) q id
    by (cases "ref_is_bid r"; cases "ref_is_bid r'"; auto simp: live_def simp del: map_of_eq_Some_iff)
  moreover have "map_of (queue (side_levels ob' (ref_is_bid r) ! ref_index r)) (ref_it r) = Some ord"
    using q n i r(2) book_inv_length [OF inv]
    by (cases b; cases "ref_is_bid r"; auto simp: ob' append_order_def Let_def nth_list_update map_add_def
        simp del: map_of_eq_Some_iff split: option.splits)
  ultimately show ?thesis using r(2) n by (auto simp: orphan_def ob' simp del: map_of_eq_Some_iff)
qed

text \<open>
  When an id that is already live is added again, the first order stays in its queue,
  with its size and so in the total of its level, after any further messages that hold no
  reset: no cancel, trade, fill or modify can reach it any more.
\<close>

theorem duplicate_add_orphans:
  assumes "new_order_book max_size pmin pmax tick = Inr ob0" "apply_all ob0 ms = Inr ob"
    and "orders_ref ob (msg_order_id m) = Some r"
    and "get_side ob (ref_is_bid r) (ref_index r) = Inr lvl" "deref lvl (ref_it r) = Inr ord"
    and "add ob m b i = Inr ob1"
    and "\<forall>m' \<in> set ms'. msg_action m' \<noteq> CHR ''R''" "apply_all ob1 ms' = Inr ob2"
  shows "\<exists>lvl2. get_side ob2 (ref_is_bid r) (ref_index r) = Inr lvl2 \<and> deref lvl2 (ref_it r) = Inr ord"
proof -
  note inv = reachable_inv [OF assms(1,2)]
  from live_ex [OF inv assms(3)] obtain o' where l: "live ob (msg_order_id m) r o'" ..
  with live_lookup [OF inv l] assms(4,5) have o: "o' = ord" by simp
  note inv1 = add_inv [OF inv assms(6)]
  have "orphan ob2 (ref_is_bid r) (ref_index r) (ref_it r) ord"
    using orphan_apply_all [OF inv1 add_makes_orphan [OF inv l assms(6)] assms(7,8)] o by simp
  with book_inv_length [OF apply_all_inv [OF inv1 assms(8)]] show ?thesis
    by (simp add: orphan_def get_side_eq deref_def del: map_of_eq_Some_iff)
qed

theorem duplicate_add_orphans_witness:
  "\<exists>ob2 lvl2. apply_all demo_book [make_mbo 1 CHR ''A'' CHR ''B'' 100 5,
      make_mbo 1 CHR ''A'' CHR ''A'' 200 3, make_mbo 1 CHR ''C'' CHR ''B'' 100 9] = Inr ob2 \<and>
    orders_ref ob2 1 = None \<and>
    get_side ob2 True 1 = Inr lvl2 \<and> deref lvl2 0 = Inr \<lparr>order_id = 1, order_size = 5\<rparr>"
proof -
  let ?m1 = "make_mbo 1 CHR ''A'' CHR ''B'' 100 5" and ?m2 = "make_mbo 1 CHR ''A'' CHR ''A'' 200 3"
  let ?ob = "append_order demo_book ?m1 True 1" and ?m3 = "make_mbo 1 CHR ''C'' CHR ''B'' 100 9"
  let ?ob1 = "append_order ?ob ?m2 False 2"
  let ?r = "\<lparr>ref_is_bid = True, ref_index = 1, ref_it = 0, ref_price = 100\<rparr>"
  note ev = append_order_def Let_def get_side_def side_levels_def put_side_def demo_book_def deref_def
    empty_level_def
  have 1: "apply_all demo_book [?m1] = Inr ?ob"
    by (simp add: apply_all_def apply_msg_def price_to_index_def in_int64_def sdiv_nonneg add_def ev)
  have 2: "orders_ref ?ob (msg_order_id ?m2) = Some ?r" by (simp add: ev)
  have 3: "get_side ?ob (ref_is_bid ?r) (ref_index ?r) =
      Inr \<lparr>queue = [(0, \<lparr>order_id = 1, order_size = 5\<rparr>)], total_size = 5\<rparr>" by (simp add: ev)
  have 4: "deref \<lparr>queue = [(0, \<lparr>order_id = 1, order_size = 5\<rparr>)], total_size = 5\<rparr> (ref_it ?r) =
      Inr \<lparr>order_id = 1, order_size = 5\<rparr>" by (simp add: ev)
  have 5: "add ?ob ?m2 False 2 = Inr ?ob1"
    by (simp add: add_def ev)
  obtain ob2 where 6: "apply_all ?ob1 [?m3] = Inr ob2" and 7: "orders_ref ob2 1 = None"
    by (simp add: apply_all_def apply_msg_def price_to_index_def in_int64_def sdiv_nonneg cancel_def
        ev)
  have 8: "\<forall>m' \<in> set [?m3]. msg_action m' \<noteq> CHR ''R''" by simp
  have "apply_all demo_book [?m1, ?m2, ?m3] = Inr ob2"
    using demo_run 6 foldE_append [of apply_msg demo_book "[?m1, ?m2]" "[?m3]"]
    by (simp add: apply_all_def)
  with 7 duplicate_add_orphans [OF demo_new 1 2 3 4 5 8 6] show ?thesis by auto
qed

subsection \<open>Priority and the price grid\<close>

text \<open>
  C7: a modify at an unchanged price loses time priority exactly when it raises the size: the order then moves to the back
  of its queue. A smaller or equal size keeps the place, and the size 0 takes the order out of the queue and of the table of
  ids. The level total follows the change.
\<close>

theorem modify_priority:
  assumes "new_order_book max_size pmin pmax tick = Inr ob0" "apply_all ob0 ms = Inr ob"
    and "orders_ref ob (msg_order_id m) = Some r" "msg_price m = ref_price r"
    and "get_side ob (ref_is_bid r) (ref_index r) = Inr lvl" "queue lvl = xs @ (ref_it r, ord) # ys"
  shows "\<exists>ob' lvl'. modify ob m b i = Inr ob' \<and>
    get_side ob' (ref_is_bid r) (ref_index r) = Inr lvl' \<and>
    queue lvl' = (if msg_size m = 0 then xs @ ys else if order_size ord < msg_size m
      then xs @ ys @ [(ref_it r, ord\<lparr>order_size := msg_size m\<rparr>)]
      else xs @ (ref_it r, ord\<lparr>order_size := msg_size m\<rparr>) # ys) \<and>
    total_size lvl' = total_size lvl - ucast (order_size ord) + ucast (msg_size m) \<and>
    orders_ref ob' (msg_order_id m) = (if msg_size m = 0 then None else Some r)"
proof -
  note inv = reachable_inv [OF assms(1,2)]
  from live_ex [OF inv assms(3)] obtain o' where l: "live ob (msg_order_id m) r o'" ..
  from l have i: "ref_index r < num_levels ob" by (simp add: live_def)
  have lvl: "side_levels ob (ref_is_bid r) ! ref_index r = lvl"
    using assms(5) live_lookup(2) [OF inv l] by simp
  have d: "distinct (map fst (queue lvl))" using book_inv_level [OF inv i] lvl by (auto simp: level_ok_def)
  then have n: "ref_it r \<notin> fst ` set xs" "ref_it r \<notin> fst ` set ys" by (auto simp: assms(6))
  then have o': "map_of (queue lvl) (ref_it r) = Some ord"
    by (simp add: assms(6) map_add_def map_of_eq_None_iff [THEN iffD2] del: map_of_eq_Some_iff)
  from o' l lvl have o: "o' = ord" by (simp add: live_def del: map_of_eq_Some_iff)
  have sn: "set_node_size (ref_it r) sz (xs @ (ref_it r, ord) # ys) =
      xs @ (ref_it r, ord\<lparr>order_size := sz\<rparr>) # ys" for sz
    using set_node_size_id [OF n(1), of sz] set_node_size_id [OF n(2), of sz]
    by (simp add: set_node_size_def)
  have fl: "filter (\<lambda>e. fst e \<noteq> ref_it r) zs = zs" "filter (\<lambda>e. fst e = ref_it r) zs = []"
    if "ref_it r \<notin> fst ` set zs" for zs :: "(node \<times> order) list"
    using that by (force simp: filter_id_conv filter_empty_conv)+
  have splice: "splice_to_end (ref_it r) (xs @ (ref_it r, o2) # ys) = xs @ ys @ [(ref_it r, o2)]" for o2
    by (simp add: splice_to_end_def fl n)
  let ?eff = "if msg_size m = 0 then Erase else if order_size ord < msg_size m then Requeue (msg_size m) else Resize (msg_size m)"
  let ?ob = "run_effect ob (msg_order_id m) r ord ?eff"
  have e: "queue (effect_level ?eff (ref_it r) ord lvl) = (if msg_size m = 0 then xs @ ys else if order_size ord < msg_size m
      then xs @ ys @ [(ref_it r, ord\<lparr>order_size := msg_size m\<rparr>)]
      else xs @ (ref_it r, ord\<lparr>order_size := msg_size m\<rparr>) # ys)"
    using n fl by (simp add: assms(6) sn splice erase_node_def)
  have t: "total_size (effect_level ?eff (ref_it r) ord lvl) =
      total_size lvl - ucast (order_size ord) + ucast (msg_size m)" by simp
  have g: "get_side ?ob (ref_is_bid r) (ref_index r) = Inr (effect_level ?eff (ref_it r) ord lvl)"
    using i lvl book_inv_length [OF inv] by (simp add: get_side_eq run_effect_def)
  have "orders_ref ?ob (msg_order_id m) = (if msg_size m = 0 then None else Some r)" by (simp add: run_effect_def)
  moreover have "modify ob m b i = Inr ?ob" using modify_eq [OF inv l, of b i] assms(4) o by simp
  ultimately show ?thesis using g e t by blast
qed

theorem modify_priority_witness:
  "\<exists>ob ob' lvl'. apply_all demo_book [make_mbo 1 CHR ''A'' CHR ''B'' 100 5,
      make_mbo 2 CHR ''A'' CHR ''B'' 100 7] = Inr ob \<and>
    modify ob (make_mbo 1 CHR ''M'' CHR ''B'' 100 6) True 1 = Inr ob' \<and>
    get_side ob' True 1 = Inr lvl' \<and>
    queue lvl' = [(1, \<lparr>order_id = 2, order_size = 7\<rparr>), (0, \<lparr>order_id = 1, order_size = 6\<rparr>)] \<and>
    total_size lvl' = 13"
proof -
  let ?m1 = "make_mbo 1 CHR ''A'' CHR ''B'' 100 5" and ?m2 = "make_mbo 2 CHR ''A'' CHR ''B'' 100 7"
  let ?ob = "append_order (append_order demo_book ?m1 True 1) ?m2 True 1"
  let ?m = "make_mbo 1 CHR ''M'' CHR ''B'' 100 6"
  let ?r = "\<lparr>ref_is_bid = True, ref_index = 1, ref_it = 0, ref_price = 100\<rparr>"
  let ?o = "\<lparr>order_id = 1, order_size = 5\<rparr>" and ?ys = "[(1, \<lparr>order_id = 2, order_size = 7\<rparr>)]"
  note ev = append_order_def Let_def get_side_def side_levels_def put_side_def demo_book_def deref_def
    empty_level_def
  have 1: "apply_all demo_book [?m1, ?m2] = Inr ?ob"
    by (simp add: apply_all_def apply_msg_def price_to_index_def in_int64_def sdiv_nonneg add_def ev)
  have 2: "orders_ref ?ob (msg_order_id ?m) = Some ?r" by (simp add: ev)
  have 3: "get_side ?ob (ref_is_bid ?r) (ref_index ?r) =
      Inr \<lparr>queue = [] @ (ref_it ?r, ?o) # ?ys, total_size = 12\<rparr>" by (simp add: ev)
  have 4: "msg_price ?m = ref_price ?r" by simp
  have 5: "queue \<lparr>queue = [] @ (ref_it ?r, ?o) # ?ys, total_size = 12\<rparr> = [] @ (ref_it ?r, ?o) # ?ys"
    by simp
  have 6: "order_size ?o < msg_size ?m" by (simp add: word_less_nat_alt)
  from modify_priority [OF demo_new 1 2 4 3 5, of True 1] 1 6 show ?thesis by force
qed

lemma to_size_t_neg:
  assumes "x < 0" "- (2 ^ 63) \<le> x"
  shows "2 ^ 63 \<le> to_size_t x"
proof -
  have "x mod 2 ^ 64 = (x + 2 ^ 64) mod 2 ^ 64" by simp
  also have "\<dots> = x + 2 ^ 64" using assms by (intro mod_pos_pos_trivial) simp_all
  finally show ?thesis using assms by (simp add: to_size_t_def nat_le_iff le_nat_iff)
qed

text \<open>
  The prices the level arrays accept are those from strictly above one tick below the
  minimum up to the end of the last level, and a price is filed at the level of the largest
  grid price not above it; the prices just below the minimum go to level 0, because the
  division of the code truncates towards zero.
\<close>

theorem price_grid_exact:
  assumes "valid_config pmin pmax tick" "new_order_book max_size pmin pmax tick = Inr ob"
    and "in_int64 px" "in_int64 (px - pmin)"
  shows "\<exists>i. price_to_index ob px = Inr i \<and>
    (i < num_levels ob \<longleftrightarrow> pmin - tick < px \<and> px < pmin + int (num_levels ob) * tick) \<and>
    (i < num_levels ob \<longrightarrow> (if px < pmin then i = 0
       else level_price ob i \<le> px \<and> px < level_price ob i + tick))"
proof -
  note f = new_order_book_fields [OF assms(2)] and n = new_order_book_levels [OF assms(1,2)]
  from assms(1) have t: "0 < tick" and N: "num_levels ob < 2 ^ 31"
    by (simp_all add: valid_config_def n nat_less_iff pos_imp_zdiv_nonneg_iff)
  let ?d = "px - pmin"
  have p: "price_to_index ob px = Inr (to_size_t (?d sdiv tick))"
    using assms(4) t in_int64_sdiv [OF assms(4) t] by (simp add: price_to_index_def f)
  have q: "in_int64 (?d sdiv tick)" using assms(4) t by (rule in_int64_sdiv)
  consider "0 \<le> ?d" | "- tick < ?d" "?d < 0" | "?d \<le> - tick" by linarith
  then show ?thesis
  proof cases
    case 1
    have dt: "?d div tick * tick \<le> ?d" "?d < ?d div tick * tick + tick"
      using t div_mult_mod_eq [of ?d tick] pos_mod_bound [OF t, of ?d] pos_mod_sign [OF t, of ?d] by linarith+
    from 1 t have "0 \<le> ?d div tick" by (simp add: pos_imp_zdiv_nonneg_iff)
    moreover have "?d div tick < int (num_levels ob) \<longleftrightarrow> ?d < int (num_levels ob) * tick"
    proof
      assume "?d div tick < int (num_levels ob)"
      then have "(?d div tick + 1) * tick \<le> int (num_levels ob) * tick"
        using t by (intro mult_right_mono) auto
      with dt show "?d < int (num_levels ob) * tick" by (simp add: distrib_right)
    next
      assume "?d < int (num_levels ob) * tick"
      with dt have "?d div tick * tick < int (num_levels ob) * tick" by linarith
      with t show "?d div tick < int (num_levels ob)" by (simp add: mult_less_cancel_right)
    qed
    ultimately show ?thesis
      using 1 t q dt by (simp add: p sdiv_nonneg in_int64_def nat_less_iff level_price_def f n) linarith
  next
    case 2
    then have "?d sdiv tick = 0" by (simp add: signed_divide_int_def sgn_if)
    moreover have "0 \<le> int (num_levels ob) * tick" and "0 < num_levels ob" using t n by simp_all
    moreover from this 2 have "px < pmin + int (num_levels ob) * tick" by linarith
    ultimately show ?thesis using 2 by (auto simp: p)
  next
    case 3
    have a: "1 \<le> (- ?d) div tick" using 3 t by (simp add: pos_imp_zdiv_pos_iff zdiv_mono1 int_one_le_iff_zero_less)
    have "?d sdiv tick = - ((- ?d) div tick)" using 3 t by (simp add: signed_divide_int_def sgn_if)
    with a q have "?d sdiv tick < 0" "- (2 ^ 63) \<le> ?d sdiv tick" by (simp_all add: in_int64_def)
    then have "2 ^ 63 \<le> to_size_t (?d sdiv tick)" by (rule to_size_t_neg)
    with 3 t N show ?thesis by (auto simp: p)
  qed
qed

theorem price_grid_exact_witness:
  "\<exists>i. price_to_index demo_book (-99) = Inr i \<and> i < num_levels demo_book \<and> i = 0"
proof -
  have px: "in_int64 (-99)" "in_int64 (-99 - 0)" by (simp_all add: in_int64_def)
  have "num_levels demo_book = 3" by (simp add: demo_book_def)
  with price_grid_exact [OF demo_config demo_new px] show ?thesis by auto
qed

end
