(* ===== verification/OrderBook_Tests.thy ===== *)
theory OrderBook_Tests
  imports OrderBook_Props
begin

section \<open>The unit tests of the order book (test_cases/src/test_orderbook)\<close>

text \<open>
  Each test applies messages to a fresh book with prices from 0 to 200000 and tick 100, and looks at best quotes and
  at levels in between. The tests are run on the model of the book here; that they pass is shown on the
  abstract book, which is enough by the simulation.
\<close>

datatype test_step =
    Apply mbo_msg
  | Assert_Bid "(int \<times> u64) option \<Rightarrow> bool"
  | Assert_Ask "(int \<times> u64) option \<Rightarrow> bool"
  | Assert_Level bool int "order list \<Rightarrow> u64 \<Rightarrow> bool"

definition test_level :: "order_book \<Rightarrow> bool \<Rightarrow> int \<Rightarrow> level result" where
  "test_level ob is_bid px = bindE (price_to_index ob px) (\<lambda>idx. get_level ob is_bid idx)"

fun passes :: "order_book \<Rightarrow> test_step list \<Rightarrow> bool" where
  "passes ob [] \<longleftrightarrow> True"
| "passes ob (Apply m # ts) \<longleftrightarrow> (case apply_msg ob m of Inl e \<Rightarrow> False | Inr ob' \<Rightarrow> passes ob' ts)"
| "passes ob (Assert_Bid P # ts) \<longleftrightarrow> (case best_bid ob of Inl e \<Rightarrow> False | Inr q \<Rightarrow> P q) \<and> passes ob ts"
| "passes ob (Assert_Ask P # ts) \<longleftrightarrow> (case best_ask ob of Inl e \<Rightarrow> False | Inr q \<Rightarrow> P q) \<and> passes ob ts"
| "passes ob (Assert_Level b px P # ts) \<longleftrightarrow>
     (case test_level ob b px of Inl e \<Rightarrow> False | Inr lvl \<Rightarrow> P (map snd (queue lvl)) (total_size lvl)) \<and> passes ob ts"

definition test_passes :: "test_step list \<Rightarrow> bool" where
  "test_passes ts \<longleftrightarrow> (case new_order_book 10000 0 200000 100 of Inl e \<Rightarrow> False | Inr ob \<Rightarrow> passes ob ts)"

subsection \<open>Tests on the abstract book\<close>

fun spec_passes :: "int \<Rightarrow> int \<Rightarrow> int \<Rightarrow> spec_book \<Rightarrow> test_step list \<Rightarrow> bool" where
  "spec_passes lo hi tick s [] \<longleftrightarrow> True"
| "spec_passes lo hi tick s (Apply m # ts) \<longleftrightarrow> admissible lo hi s m \<and> (placing m \<longrightarrow> (msg_price m - lo) mod tick = 0) \<and>
     spec_passes lo hi tick (spec_step s m) ts"
| "spec_passes lo hi tick s (Assert_Bid P # ts) \<longleftrightarrow> P (spec_best True s) \<and> spec_passes lo hi tick s ts"
| "spec_passes lo hi tick s (Assert_Ask P # ts) \<longleftrightarrow> P (spec_best False s) \<and> spec_passes lo hi tick s ts"
| "spec_passes lo hi tick s (Assert_Level b px P # ts) \<longleftrightarrow> lo \<le> px \<and> px \<le> hi \<and> (px - lo) mod tick = 0 \<and>
     P (map to_order (filter (\<lambda>r. rs_bid r = b \<and> rs_price r = px) s)) (resting_total b px s) \<and> spec_passes lo hi tick s ts"

text \<open>A book that stands for \<open>s\<close>, whose orders are on the grid.\<close>

definition stands_for :: "int \<Rightarrow> int \<Rightarrow> int \<Rightarrow> order_book \<Rightarrow> spec_book \<Rightarrow> bool" where
  "stands_for lo hi tick ob s \<longleftrightarrow> sim ob s \<and> price_min ob = lo \<and> price_max ob = hi \<and> tick_size ob = tick \<and>
     (\<forall>r \<in> set s. on_tick ob (rs_price r))"

lemma stands_for_step:
  assumes sf: "stands_for lo hi tick ob s" and a: "admissible lo hi s m" and g: "placing m \<longrightarrow> (msg_price m - lo) mod tick = 0"
  shows "\<exists>ob'. apply_msg ob m = Inr ob' \<and> stands_for lo hi tick ob' (spec_step s m)"
proof -
  have "sim ob s" "admissible (price_min ob) (price_max ob) s m" using sf a by (simp_all add: stands_for_def)
  then obtain ob' where ob': "apply_msg ob m = Inr ob'" "sim ob' (spec_step s m)" by (rule sim_step)
  note c = apply_msg_config [OF ob'(1)]
  have "on_tick ob' (rs_price r)" if r: "r \<in> set (spec_step s m)" for r
  proof -
    from r have "rs_price r \<in> rs_price ` set (spec_step s m)" by simp
    with spec_step_prices [of s m] have "rs_price r \<in> rs_price ` set s \<or> placing m \<and> rs_price r = msg_price m"
      by (auto split: if_splits)
    with sf a g c show ?thesis
      by (auto simp: stands_for_def on_tick_def price_in_range_def admissible_def placing_def)
  qed
  with ob' c sf show ?thesis by (auto simp: stands_for_def)
qed

lemma stands_for_level:
  assumes sf: "stands_for lo hi tick ob s" and p: "lo \<le> px" "px \<le> hi" "(px - lo) mod tick = 0"
  shows "\<exists>lvl. test_level ob b px = Inr lvl \<and> total_size lvl = resting_total b px s \<and>
    map snd (queue lvl) = map to_order (filter (\<lambda>r. rs_bid r = b \<and> rs_price r = px) s)"
proof -
  have sim: "sim ob s" and t: "\<forall>r \<in> set s. on_tick ob (rs_price r)" and px: "on_tick ob px" "price_in_range ob px"
    using sf p by (auto simp: stands_for_def on_tick_def price_in_range_def)
  note c = simD(2) [OF sim]
  let ?i = "level_of ob px"
  have i: "price_to_index ob px = Inr ?i" "?i < num_levels ob" using price_to_index_in_range [OF c px(2)] by simp_all
  have "get_level ob b ?i = Inr (side_levels ob b ! ?i)"
    using i(2) book_inv_length [OF simD(1) [OF sim], of b] by (simp add: get_level_def side_levels_def vec_at_def split: if_splits)
  with i(1) have "test_level ob b px = Inr (side_levels ob b ! ?i)" by (simp add: test_level_def)
  moreover note sim_level_total [OF sim t i(2), of b] sim_level_orders [OF sim t i(2), of b] level_price_level_of [OF c px(1)]
  ultimately show ?thesis by (simp add: level_orders_def)
qed

lemma spec_passes_sound: "stands_for lo hi tick ob s \<Longrightarrow> spec_passes lo hi tick s ts \<Longrightarrow> passes ob ts"
proof (induction ts arbitrary: ob s)
  case (Cons t ts)
  have sim: "sim ob s" and tk: "\<forall>r \<in> set s. on_tick ob (rs_price r)" using Cons.prems(1) by (simp_all add: stands_for_def)
  show ?case
  proof (cases t)
    case (Apply m)
    with Cons.prems stands_for_step [OF Cons.prems(1), of m] obtain ob' where
      "apply_msg ob m = Inr ob'" "stands_for lo hi tick ob' (spec_step s m)" by auto
    with Cons.IH [of ob' "spec_step s m"] Cons.prems(2) Apply show ?thesis by simp
  next
    case (Assert_Bid P)
    with Cons best_quotes_sim [OF sim tk] show ?thesis by simp
  next
    case (Assert_Ask P)
    with Cons best_quotes_sim [OF sim tk] show ?thesis by simp
  next
    case (Assert_Level b px P)
    with Cons.prems(2) stands_for_level [OF Cons.prems(1), of px b] obtain lvl where "test_level ob b px = Inr lvl"
      "total_size lvl = resting_total b px s" "map snd (queue lvl) = map to_order (filter (\<lambda>r. rs_bid r = b \<and> rs_price r = px) s)"
      by auto
    with Cons.IH [OF Cons.prems(1)] Cons.prems(2) Assert_Level show ?thesis by simp
  qed
qed simp

lemma test_passes_spec:
  assumes "spec_passes 0 200000 100 [] ts"
  shows "test_passes ts"
proof -
  have v: "valid_config 0 200000 100" by (simp add: valid_config_def in_int64_def)
  obtain ob where ob: "new_order_book 10000 0 200000 100 = Inr ob"
    by (simp add: new_order_book_def in_int64_def sdiv_nonneg Let_def)
  have "stands_for 0 200000 100 ob []"
    using new_order_book_sim [OF v ob] new_order_book_fields [OF ob] by (simp add: stands_for_def)
  from spec_passes_sound [OF this assms] ob show ?thesis by (simp add: test_passes_def)
qed

subsection \<open>The tests\<close>

definition bid_is :: "int \<Rightarrow> u64 \<Rightarrow> test_step" where
  "bid_is px sz = Assert_Bid (\<lambda>q. q = Some (px, sz))"

definition ask_is :: "int \<Rightarrow> u64 \<Rightarrow> test_step" where
  "ask_is px sz = Assert_Ask (\<lambda>q. q = Some (px, sz))"

definition size_is :: "u64 \<Rightarrow> (int \<times> u64) option \<Rightarrow> bool" where
  "size_is sz q \<longleftrightarrow> (case q of None \<Rightarrow> False | Some (p, z) \<Rightarrow> z = sz)"

definition price_is :: "int \<Rightarrow> (int \<times> u64) option \<Rightarrow> bool" where
  "price_is px q \<longleftrightarrow> (case q of None \<Rightarrow> False | Some (p, z) \<Rightarrow> p = px)"

definition back_is :: "u64 \<Rightarrow> order list \<Rightarrow> bool" where
  "back_is i q \<longleftrightarrow> q \<noteq> [] \<and> order_id (last q) = i"

definition nth_is :: "nat \<Rightarrow> u64 \<Rightarrow> order list \<Rightarrow> bool" where
  "nth_is k i q \<longleftrightarrow> k < length q \<and> order_id (q ! k) = i"

definition test_reset_clears_book :: "test_step list" where
  "test_reset_clears_book =
     [Apply (make_mbo 1 CHR ''A'' CHR ''B'' 100000 5),
      Apply (make_mbo 2 CHR ''A'' CHR ''A'' 101000 3),
      Assert_Bid (\<lambda>q. q \<noteq> None),
      Assert_Ask (\<lambda>q. q \<noteq> None),
      Apply (make_mbo 0 CHR ''R'' CHR ''B'' 0 0),
      Assert_Bid (\<lambda>q. q = None),
      Assert_Ask (\<lambda>q. q = None)]"

definition test_fill :: "test_step list" where
  "test_fill =
     [Apply (make_mbo 10 CHR ''A'' CHR ''B'' 100000 5),
      Assert_Bid (size_is 5),
      Apply (make_mbo 10 CHR ''F'' CHR ''B'' 100000 999)]"

definition test_trade :: "test_step list" where
  "test_trade =
     [Apply (make_mbo 11 CHR ''A'' CHR ''A'' 101000 7),
      Assert_Ask (size_is 7),
      Apply (make_mbo 11 CHR ''T'' CHR ''A'' 101000 999)]"

definition test_add_first_bid :: "test_step list" where
  "test_add_first_bid =
     [Apply (make_mbo 1 CHR ''A'' CHR ''B'' 100000 5),
      bid_is 100000 5]"

definition test_add_first_ask :: "test_step list" where
  "test_add_first_ask =
     [Apply (make_mbo 2 CHR ''A'' CHR ''A'' 101000 3),
      ask_is 101000 3]"

definition test_add_same_price :: "test_step list" where
  "test_add_same_price =
     [Apply (make_mbo 10 CHR ''A'' CHR ''B'' 100000 5),
      Apply (make_mbo 11 CHR ''A'' CHR ''B'' 100000 7),
      Apply (make_mbo 12 CHR ''A'' CHR ''B'' 100000 2),
      bid_is 100000 (5 + 7 + 2),
      Assert_Level True 100000 (\<lambda>q n. length q = 3)]"

definition test_add_different_prices :: "test_step list" where
  "test_add_different_prices =
     [Apply (make_mbo 20 CHR ''A'' CHR ''B'' 99000 4),
      bid_is 99000 4,
      Apply (make_mbo 21 CHR ''A'' CHR ''B'' 101000 6),
      bid_is 101000 6]"

definition test_partial_cancel :: "test_step list" where
  "test_partial_cancel =
     [Apply (make_mbo 1 CHR ''A'' CHR ''B'' 100000 10),
      Apply (make_mbo 1 CHR ''C'' CHR ''B'' 100000 4),
      bid_is 100000 6]"

definition test_full_cancel :: "test_step list" where
  "test_full_cancel =
     [Apply (make_mbo 2 CHR ''A'' CHR ''A'' 101000 5),
      Apply (make_mbo 2 CHR ''C'' CHR ''A'' 101000 5),
      Assert_Ask (\<lambda>q. q = None)]"

definition test_cancel_among_others :: "test_step list" where
  "test_cancel_among_others =
     [Apply (make_mbo 3 CHR ''A'' CHR ''B'' 100000 5),
      Apply (make_mbo 4 CHR ''A'' CHR ''B'' 100000 7),
      Apply (make_mbo 4 CHR ''C'' CHR ''B'' 100000 7),
      Assert_Bid (size_is 5)]"

definition test_cancel_non_best :: "test_step list" where
  "test_cancel_non_best =
     [Apply (make_mbo 5 CHR ''A'' CHR ''B'' 101000 4),
      Apply (make_mbo 6 CHR ''A'' CHR ''B'' 100000 8),
      Apply (make_mbo 6 CHR ''C'' CHR ''B'' 100000 8),
      bid_is 101000 4]"

definition test_size_decrease :: "test_step list" where
  "test_size_decrease =
     [Apply (make_mbo 10 CHR ''A'' CHR ''B'' 100000 10),
      Apply (make_mbo 10 CHR ''M'' CHR ''B'' 100000 6),
      Assert_Bid (size_is 6)]"

definition test_size_increase :: "test_step list" where
  "test_size_increase =
     [Apply (make_mbo 10 CHR ''A'' CHR ''B'' 100000 5),
      Apply (make_mbo 11 CHR ''A'' CHR ''B'' 100000 7),
      Apply (make_mbo 10 CHR ''M'' CHR ''B'' 100000 8),
      Assert_Level True 100000 (\<lambda>q n. back_is 10 q)]"

definition test_price_increase :: "test_step list" where
  "test_price_increase =
     [Apply (make_mbo 20 CHR ''A'' CHR ''B'' 100000 5),
      Apply (make_mbo 20 CHR ''M'' CHR ''B'' 101000 5),
      Assert_Bid (price_is 101000)]"

definition test_price_decrease :: "test_step list" where
  "test_price_decrease =
     [Apply (make_mbo 21 CHR ''A'' CHR ''B'' 102000 5),
      Apply (make_mbo 21 CHR ''M'' CHR ''B'' 100000 5),
      Assert_Bid (price_is 100000)]"

definition test_modify_missing :: "test_step list" where
  "test_modify_missing =
     [Apply (make_mbo 30 CHR ''M'' CHR ''A'' 101000 4),
      ask_is 101000 4]"

definition test_modify_to_zero :: "test_step list" where
  "test_modify_to_zero =
     [Apply (make_mbo 31 CHR ''A'' CHR ''B'' 100000 5),
      Apply (make_mbo 31 CHR ''M'' CHR ''B'' 100000 0),
      Assert_Bid (\<lambda>q. q = None)]"

definition test_complex_modify :: "test_step list" where
  "test_complex_modify =
     [Apply (make_mbo 40 CHR ''A'' CHR ''B'' 100000 5),
      Apply (make_mbo 40 CHR ''M'' CHR ''B'' 100000 9),
      Apply (make_mbo 40 CHR ''M'' CHR ''B'' 102000 9),
      bid_is 102000 9]"

definition test_modify_among_fifo :: "test_step list" where
  "test_modify_among_fifo =
     [Apply (make_mbo 50 CHR ''A'' CHR ''A'' 101000 3),
      Apply (make_mbo 51 CHR ''A'' CHR ''A'' 101000 4),
      Apply (make_mbo 52 CHR ''A'' CHR ''A'' 101000 5),
      Apply (make_mbo 51 CHR ''M'' CHR ''A'' 101000 10),
      Assert_Level False 101000 (\<lambda>q n. nth_is 0 50 q \<and> nth_is 1 52 q \<and> back_is 51 q)]"

definition test_decrease_keep_fifo :: "test_step list" where
  "test_decrease_keep_fifo =
     [Apply (make_mbo 60 CHR ''A'' CHR ''B'' 100000 10),
      Apply (make_mbo 60 CHR ''M'' CHR ''B'' 100000 4),
      Assert_Bid (size_is 4),
      Assert_Level True 100000 (\<lambda>q n. length q = 1 \<and> nth_is 0 60 q \<and> order_size (q ! 0) = 4)]"

definition test_decrease_multiple_fifo :: "test_step list" where
  "test_decrease_multiple_fifo =
     [Apply (make_mbo 70 CHR ''A'' CHR ''B'' 100000 5),
      Apply (make_mbo 71 CHR ''A'' CHR ''B'' 100000 6),
      Apply (make_mbo 72 CHR ''A'' CHR ''B'' 100000 7),
      Apply (make_mbo 71 CHR ''M'' CHR ''B'' 100000 2),
      Assert_Level True 100000 (\<lambda>q n. length q = 3 \<and> nth_is 0 70 q \<and> nth_is 1 71 q \<and> order_size (q ! 1) = 2 \<and> nth_is 2 72 q \<and> n = 5 + 2 + 7)]"

definition test_increase_moves_to_end :: "test_step list" where
  "test_increase_moves_to_end =
     [Apply (make_mbo 80 CHR ''A'' CHR ''A'' 101000 3),
      Apply (make_mbo 81 CHR ''A'' CHR ''A'' 101000 4),
      Apply (make_mbo 82 CHR ''A'' CHR ''A'' 101000 5),
      Apply (make_mbo 81 CHR ''M'' CHR ''A'' 101000 10),
      Assert_Level False 101000 (\<lambda>q n. length q = 3 \<and> nth_is 0 80 q \<and> nth_is 1 82 q \<and> back_is 81 q \<and> n = 3 + 10 + 5)]"

definition test_increase_then_decrease :: "test_step list" where
  "test_increase_then_decrease =
     [Apply (make_mbo 90 CHR ''A'' CHR ''B'' 100000 3),
      Apply (make_mbo 91 CHR ''A'' CHR ''B'' 100000 3),
      Apply (make_mbo 92 CHR ''A'' CHR ''B'' 100000 3),
      Apply (make_mbo 91 CHR ''M'' CHR ''B'' 100000 8),
      Assert_Level True 100000 (\<lambda>q n. back_is 91 q),
      Apply (make_mbo 91 CHR ''M'' CHR ''B'' 100000 2),
      Assert_Level True 100000 (\<lambda>q n. back_is 91 q \<and> length q = 3 \<and> n = 3 + 3 + 2)]"

definition unit_tests :: "test_step list list" where
  "unit_tests = [test_reset_clears_book, test_fill, test_trade, test_add_first_bid, test_add_first_ask, test_add_same_price, test_add_different_prices, test_partial_cancel, test_full_cancel, test_cancel_among_others, test_cancel_non_best, test_size_decrease, test_size_increase, test_price_increase, test_price_decrease, test_modify_missing, test_modify_to_zero, test_complex_modify, test_modify_among_fifo, test_decrease_keep_fifo, test_decrease_multiple_fifo, test_increase_moves_to_end, test_increase_then_decrease]"

lemmas test_asserts = bid_is_def ask_is_def size_is_def price_is_def back_is_def nth_is_def

lemmas spec_simps = spec_step_def spec_find_def spec_new_def spec_modify_def spec_remove_def spec_reduce_def spec_resize_def
  Let_def admissible_def in_int64_def placing_def spec_best_def side_prices_def resting_total_def to_order_def

lemma test_reset_clears_book_passes: "test_passes test_reset_clears_book"
  by (rule test_passes_spec) (simp add: test_reset_clears_book_def test_asserts spec_simps)

lemma test_fill_passes: "test_passes test_fill"
  by (rule test_passes_spec) (simp add: test_fill_def test_asserts spec_simps)

lemma test_trade_passes: "test_passes test_trade"
  by (rule test_passes_spec) (simp add: test_trade_def test_asserts spec_simps)

lemma test_add_first_bid_passes: "test_passes test_add_first_bid"
  by (rule test_passes_spec) (simp add: test_add_first_bid_def test_asserts spec_simps)

lemma test_add_first_ask_passes: "test_passes test_add_first_ask"
  by (rule test_passes_spec) (simp add: test_add_first_ask_def test_asserts spec_simps)

lemma test_add_same_price_passes: "test_passes test_add_same_price"
  by (rule test_passes_spec) (simp add: test_add_same_price_def test_asserts spec_simps)

lemma test_add_different_prices_passes: "test_passes test_add_different_prices"
  by (rule test_passes_spec) (simp add: test_add_different_prices_def test_asserts spec_simps)

lemma test_partial_cancel_passes: "test_passes test_partial_cancel"
  by (rule test_passes_spec) (simp add: test_partial_cancel_def test_asserts spec_simps)

lemma test_full_cancel_passes: "test_passes test_full_cancel"
  by (rule test_passes_spec) (simp add: test_full_cancel_def test_asserts spec_simps)

lemma test_cancel_among_others_passes: "test_passes test_cancel_among_others"
  by (rule test_passes_spec) (simp add: test_cancel_among_others_def test_asserts spec_simps)

lemma test_cancel_non_best_passes: "test_passes test_cancel_non_best"
  by (rule test_passes_spec) (simp add: test_cancel_non_best_def test_asserts spec_simps)

lemma test_size_decrease_passes: "test_passes test_size_decrease"
  by (rule test_passes_spec) (simp add: test_size_decrease_def test_asserts spec_simps)

lemma test_size_increase_passes: "test_passes test_size_increase"
  by (rule test_passes_spec) (simp add: test_size_increase_def test_asserts spec_simps)

lemma test_price_increase_passes: "test_passes test_price_increase"
  by (rule test_passes_spec) (simp add: test_price_increase_def test_asserts spec_simps)

lemma test_price_decrease_passes: "test_passes test_price_decrease"
  by (rule test_passes_spec) (simp add: test_price_decrease_def test_asserts spec_simps)

lemma test_modify_missing_passes: "test_passes test_modify_missing"
  by (rule test_passes_spec) (simp add: test_modify_missing_def test_asserts spec_simps)

lemma test_modify_to_zero_passes: "test_passes test_modify_to_zero"
  by (rule test_passes_spec) (simp add: test_modify_to_zero_def test_asserts spec_simps)

lemma test_complex_modify_passes: "test_passes test_complex_modify"
  by (rule test_passes_spec) (simp add: test_complex_modify_def test_asserts spec_simps)

lemma test_modify_among_fifo_passes: "test_passes test_modify_among_fifo"
  by (rule test_passes_spec) (simp add: test_modify_among_fifo_def test_asserts spec_simps)

lemma test_decrease_keep_fifo_passes: "test_passes test_decrease_keep_fifo"
  by (rule test_passes_spec) (simp add: test_decrease_keep_fifo_def test_asserts spec_simps)

lemma test_decrease_multiple_fifo_passes: "test_passes test_decrease_multiple_fifo"
  by (rule test_passes_spec) (simp add: test_decrease_multiple_fifo_def test_asserts spec_simps)

lemma test_increase_moves_to_end_passes: "test_passes test_increase_moves_to_end"
  by (rule test_passes_spec) (simp add: test_increase_moves_to_end_def test_asserts spec_simps)

lemma test_increase_then_decrease_passes: "test_passes test_increase_then_decrease"
  by (rule test_passes_spec) (simp add: test_increase_then_decrease_def test_asserts spec_simps)

text \<open>
  Every unit test of the order book passes on the model: no message of a test fails, and each assertion
  about best quotes, queues and totals holds where the test makes it.
\<close>

theorem unit_tests_pass: "list_all test_passes unit_tests"
  by (simp add: unit_tests_def
      test_reset_clears_book_passes test_fill_passes test_trade_passes test_add_first_bid_passes
      test_add_first_ask_passes test_add_same_price_passes test_add_different_prices_passes test_partial_cancel_passes
      test_full_cancel_passes test_cancel_among_others_passes test_cancel_non_best_passes test_size_decrease_passes
      test_size_increase_passes test_price_increase_passes test_price_decrease_passes test_modify_missing_passes
      test_modify_to_zero_passes test_complex_modify_passes test_modify_among_fifo_passes test_decrease_keep_fifo_passes
      test_decrease_multiple_fifo_passes test_increase_moves_to_end_passes test_increase_then_decrease_passes)

end
