(* ===== verification/Cpp_Strings.thy ===== *)
theory Cpp_Strings
  imports Prelude
begin

section \<open>The string operations of the standard library the code uses\<close>

text \<open>
  \<open>std::string\<close> and \<open>std::string_view\<close> are lists of characters. A search returns the
  position, or \<open>None\<close> for \<open>npos\<close>; \<open>substr\<close> throws when its position is past the
  end, as the standard says.
\<close>

definition std_find :: "'a list \<Rightarrow> nat \<Rightarrow> 'a list \<Rightarrow> nat option" where
  "std_find s pos pat =
     List.find (\<lambda>i. take (length pat) (drop i s) = pat) [pos..<Suc (length s) - length pat]"

definition std_rfind :: "'a list \<Rightarrow> 'a list \<Rightarrow> nat option" where
  "std_rfind s pat =
     List.find (\<lambda>i. take (length pat) (drop i s) = pat) (rev [0..<Suc (length s) - length pat])"

definition find_first_of :: "'a list \<Rightarrow> nat \<Rightarrow> 'a list \<Rightarrow> nat option" where
  "find_first_of s pos cs = List.find (\<lambda>i. s ! i \<in> set cs) [pos..<length s]"

definition find_first_not_of :: "'a list \<Rightarrow> nat \<Rightarrow> 'a list \<Rightarrow> nat option" where
  "find_first_not_of s pos cs = List.find (\<lambda>i. s ! i \<notin> set cs) [pos..<length s]"

definition substr :: "'a list \<Rightarrow> nat \<Rightarrow> nat \<Rightarrow> 'a list result" where
  "substr s pos n = (if length s < pos then Inl (Throw Std_Out_Of_Range) else Inr (take n (drop pos s)))"

definition substr_from :: "'a list \<Rightarrow> nat \<Rightarrow> 'a list result" where
  "substr_from s pos = (if length s < pos then Inl (Throw Std_Out_Of_Range) else Inr (drop pos s))"

text \<open>A \<open>size_t\<close> position stored in an \<open>int\<close>: \<open>npos\<close> becomes \<open>-1\<close>.\<close>

definition pos_to_int :: "nat option \<Rightarrow> int" where
  "pos_to_int p = (case p of None \<Rightarrow> -1 | Some n \<Rightarrow> size_to_int n)"

lemma find_upt_Some:
  "List.find P [a..<b] = Some i \<longleftrightarrow> a \<le> i \<and> i < b \<and> P i \<and> (\<forall>j. a \<le> j \<longrightarrow> j < i \<longrightarrow> \<not> P j)"
proof
  assume "List.find P [a..<b] = Some i"
  then obtain k where k: "k < b - a" "P (a + k)" "i = a + k" "\<forall>j<k. \<not> P ([a..<b] ! j)"
    by (auto simp: find_Some_iff)
  moreover have "\<not> P j" if "a \<le> j" "j < i" for j
    using k(4) [rule_format, of "j - a"] that k(1,3) by simp
  ultimately show "a \<le> i \<and> i < b \<and> P i \<and> (\<forall>j. a \<le> j \<longrightarrow> j < i \<longrightarrow> \<not> P j)" by auto
next
  assume r: "a \<le> i \<and> i < b \<and> P i \<and> (\<forall>j. a \<le> j \<longrightarrow> j < i \<longrightarrow> \<not> P j)"
  then show "List.find P [a..<b] = Some i"
    by (auto simp: find_Some_iff intro!: exI [of _ "i - a"])
qed

lemma find_upt_None: "List.find P [a..<b] = None \<longleftrightarrow> (\<forall>i. a \<le> i \<longrightarrow> i < b \<longrightarrow> \<not> P i)"
  by (auto simp: find_None_iff)

lemma std_find_Some:
  "std_find s pos pat = Some i \<longleftrightarrow> pos \<le> i \<and> i + length pat \<le> length s \<and>
     take (length pat) (drop i s) = pat \<and>
     (\<forall>j. pos \<le> j \<longrightarrow> j < i \<longrightarrow> take (length pat) (drop j s) \<noteq> pat)"
  by (auto simp: std_find_def find_upt_Some)

lemma std_find_None:
  "std_find s pos pat = None \<longleftrightarrow>
     (\<forall>i. pos \<le> i \<longrightarrow> i + length pat \<le> length s \<longrightarrow> take (length pat) (drop i s) \<noteq> pat)"
  by (auto simp: std_find_def find_upt_None)

lemma find_first_of_Some:
  "find_first_of s pos cs = Some i \<longleftrightarrow> pos \<le> i \<and> i < length s \<and> s ! i \<in> set cs \<and>
     (\<forall>j. pos \<le> j \<longrightarrow> j < i \<longrightarrow> s ! j \<notin> set cs)"
  by (simp add: find_first_of_def find_upt_Some)

lemma find_first_of_None:
  "find_first_of s pos cs = None \<longleftrightarrow> (\<forall>i. pos \<le> i \<longrightarrow> i < length s \<longrightarrow> s ! i \<notin> set cs)"
  by (simp add: find_first_of_def find_upt_None)

lemma substr_ok [simp]: "pos \<le> length s \<Longrightarrow> substr s pos n = Inr (take n (drop pos s))"
  by (simp add: substr_def)

lemma substr_from_ok [simp]: "pos \<le> length s \<Longrightarrow> substr_from s pos = Inr (drop pos s)"
  by (simp add: substr_from_def)

text \<open>Splitting a list at a found pattern.\<close>

lemma std_find_split:
  assumes "std_find s pos pat = Some i"
  shows "s = take pos s @ take (i - pos) (drop pos s) @ pat @ drop (i + length pat) s"
proof -
  from assms have i: "pos \<le> i" "i + length pat \<le> length s" "take (length pat) (drop i s) = pat"
    by (simp_all add: std_find_Some)
  have "drop i s = pat @ drop (i + length pat) s"
    using append_take_drop_id [of "length pat" "drop i s"] i(3) by (simp add: add.commute)
  moreover have "drop pos s = take (i - pos) (drop pos s) @ drop i s"
    using append_take_drop_id [of "i - pos" "drop pos s"] i(1) by simp
  ultimately have d: "drop pos s = take (i - pos) (drop pos s) @ pat @ drop (i + length pat) s" by simp
  have "s = take pos s @ drop pos s" by simp
  with d show ?thesis by simp
qed

text \<open>\<open>npos\<close> as a number, and arithmetic on \<open>size_t\<close>, which wraps around.\<close>

definition npos :: nat where "npos = 2 ^ 64 - 1"

definition of_pos :: "nat option \<Rightarrow> nat" where
  "of_pos p = (case p of None \<Rightarrow> npos | Some n \<Rightarrow> n)"

definition sz_add :: "nat \<Rightarrow> nat \<Rightarrow> nat" where "sz_add a b = (a + b) mod 2 ^ 64"
definition sz_sub :: "nat \<Rightarrow> nat \<Rightarrow> nat" where "sz_sub a b = to_size_t (int a - int b)"

lemma sz_add_id [simp]: "a + b < 2 ^ 64 \<Longrightarrow> sz_add a b = a + b"
  by (simp add: sz_add_def)

lemma sz_sub_id [simp]: "b \<le> a \<Longrightarrow> a < 2 ^ 64 \<Longrightarrow> sz_sub a b = a - b"
  by (simp add: sz_sub_def nat_diff_distrib)

lemma std_find_Cons:
  assumes "pat \<noteq> []"
  shows "std_find (x # s) 0 pat = (if take (length pat) (x # s) = pat then Some 0 else map_option Suc (std_find s 0 pat))"
proof (cases "take (length pat) (x # s) = pat")
  case True
  then have "length pat \<le> length (x # s)" using length_take [of "length pat" "x # s"] by (simp only: min_def split: if_splits)
  with True show ?thesis by (simp add: std_find_Some)
next
  case False
  show ?thesis
  proof (cases "std_find s 0 pat")
    case None
    have "std_find (x # s) 0 pat = None"
      unfolding std_find_None
    proof (intro allI impI)
      fix i assume "i + length pat \<le> length (x # s)"
      with None False show "take (length pat) (drop i (x # s)) \<noteq> pat"
        by (cases i) (auto simp: std_find_None)
    qed
    with None False show ?thesis by simp
  next
    case (Some i)
    have "std_find (x # s) 0 pat = Some (Suc i)"
      using Some False by (auto simp: std_find_Some less_Suc_eq_0_disj)
    with Some False show ?thesis by simp
  qed
qed

lemma std_find_Nil: "pat \<noteq> [] \<Longrightarrow> std_find [] 0 pat = None"
  by (auto simp: std_find_None)

lemma std_find_drop:
  assumes "pos \<le> length s"
  shows "std_find s pos pat = map_option ((+) pos) (std_find (drop pos s) 0 pat)"
proof (cases "std_find (drop pos s) 0 pat")
  case None
  have "std_find s pos pat = None" unfolding std_find_None
  proof (intro allI impI)
    fix i assume i: "pos \<le> i" "i + length pat \<le> length s"
    with None [unfolded std_find_None, rule_format, of "i - pos"] assms
    show "take (length pat) (drop i s) \<noteq> pat" by simp
  qed
  with None show ?thesis by simp
next
  case (Some i)
  have "take (length pat) (drop j s) \<noteq> pat" if "pos \<le> j" "j < pos + i" for j
    using Some [unfolded std_find_Some] that by (auto dest!: spec [of _ "j - pos"])
  then have "std_find s pos pat = Some (pos + i)"
    using Some assms by (auto simp: std_find_Some add.commute le_diff_conv2)
  with Some show ?thesis by simp
qed

text \<open>A delimiter no proper suffix of which is one of its prefixes: joined pieces split back.\<close>

definition unbordered :: "'a list \<Rightarrow> bool" where
  "unbordered d \<longleftrightarrow> (\<forall>k < length d. 0 < k \<longrightarrow> drop (length d - k) d \<noteq> take k d)"

lemma find_after_piece:
  assumes d: "d \<noteq> []" "unbordered d" and p: "std_find p 0 d = None"
  shows "std_find (p @ d @ t) 0 d = Some (length p)"
proof -
  have "take (length d) (drop j (p @ d @ t)) \<noteq> d" if j: "j < length p" for j
  proof
    assume e: "take (length d) (drop j (p @ d @ t)) = d"
    show False
    proof (cases "j + length d \<le> length p")
      case True
      with e p show False by (auto simp: std_find_None)
    next
      case False
      define k where "k = j + length d - length p"
      have k: "0 < k" "k < length d" "length d - k = length p - j" using False j by (auto simp: k_def)
      have "drop (length p - j) d = drop (length p - j) (take (length d) (drop j p @ d @ t))"
        using e j by simp
      also have "\<dots> = take k (d @ t)"
        using j k(1,2) False by (simp add: drop_take k_def add.commute [of j])
      also have "\<dots> = take k d" using k by simp
      finally show False using d(2) [unfolded unbordered_def, rule_format, OF k(2,1)] k(3) by simp
    qed
  qed
  then show ?thesis by (simp add: std_find_Some)
qed

end
