(* ===== verification/Json.thy ===== *)
theory Json
  imports Cpp_Strings "HOL-Library.AList"
begin

section \<open>JSON values and their text (src/core/json)\<close>

text \<open>
  A \<open>Json\<close> is a pointer that is null (\<open>JNone\<close>), points at a \<open>JsonValue\<close> (\<open>JValue\<close>,
  with its \<open>m_is_string_format\<close> flag) or at a \<open>JsonObject\<close> (\<open>JObject\<close>: the flag
  \<open>m_is_array\<close>, the key-value table and the vector, which can both be filled). Sharing between
  copies is not represented: a value of the model is the tree one \<open>Json\<close> reaches.

  What the standard library decides is a parameter (\<open>platform\<close>): how a \<open>double\<close> is written
  and read, and in which order an \<open>unordered_map\<close> is walked. Integers are written and read
  as the standard prescribes.
\<close>

datatype 'd jval = VNull | VBool bool | VInt int | VUInt nat | VDouble 'd | VString string

datatype 'd json =
    JNone
  | JValue "'d jval" bool
  | JObject bool "(string \<times> 'd json) list" "'d json list"

record 'd platform =
  double_to_chars :: "'d \<Rightarrow> string"
  double_from_chars :: "string \<Rightarrow> 'd option"
  iter_order :: "string list \<Rightarrow> string list"

subsection \<open>Decimal numbers\<close>

definition digit_char :: "nat \<Rightarrow> char" where
  "digit_char d = ''0123456789'' ! d"

definition char_digit :: "char \<Rightarrow> nat option" where
  "char_digit c = List.find (\<lambda>d. digit_char d = c) [0..<10]"

fun nat_to_chars :: "nat \<Rightarrow> string" where
  "nat_to_chars n = (if n < 10 then [digit_char n] else nat_to_chars (n div 10) @ [digit_char (n mod 10)])"

declare nat_to_chars.simps [simp del]

definition int_to_chars :: "int \<Rightarrow> string" where
  "int_to_chars i = (if i < 0 then CHR ''-'' # nat_to_chars (nat (- i)) else nat_to_chars (nat i))"

text \<open>\<open>std::from_chars\<close> reads the longest prefix of digits after an optional minus sign.\<close>

fun digits_prefix :: "string \<Rightarrow> nat list" where
  "digits_prefix [] = []"
| "digits_prefix (c # cs) = (case char_digit c of None \<Rightarrow> [] | Some d \<Rightarrow> d # digits_prefix cs)"

definition digits_value :: "nat list \<Rightarrow> nat" where
  "digits_value ds = foldl (\<lambda>n d. 10 * n + d) 0 ds"

definition int64_from_chars :: "string \<Rightarrow> int option" where
  "int64_from_chars s =
     (let neg = (s \<noteq> [] \<and> hd s = CHR ''-''); ds = digits_prefix (if neg then tl s else s);
          v = (if neg then - int (digits_value ds) else int (digits_value ds))
      in if ds = [] then None else if in_int64 v then Some v else None)"

subsection \<open>Assigning to a JsonValue\<close>

text \<open>Every integer type converts to \<open>int64_t\<close>, the unsigned ones with wrap-around.\<close>

definition of_integer :: "int \<Rightarrow> 'd json" where
  "of_integer i = JValue (VInt (wrap_int64 i)) True"

definition of_string :: "string \<Rightarrow> 'd json" where
  "of_string s = JValue (VString s) True"

definition of_bool_json :: "bool \<Rightarrow> 'd json" where
  "of_bool_json b = JValue (VBool b) True"

subsection \<open>Queries and updates\<close>

definition is_json_value :: "'d json \<Rightarrow> bool result" where
  "is_json_value j = (case j of JNone \<Rightarrow> Inl (UB Null_Pointer) | JValue _ _ \<Rightarrow> Inr True | JObject _ _ _ \<Rightarrow> Inr False)"

definition has_field :: "'d json \<Rightarrow> string \<Rightarrow> bool result" where
  "has_field j field = bindE (is_json_value j) (\<lambda>v. case j of
     JObject arr obj _ \<Rightarrow> Inr (if arr then False else map_of obj field \<noteq> None) | _ \<Rightarrow> Inr False)"

definition json_size :: "'d json \<Rightarrow> int result" where
  "json_size j = bindE (is_json_value j) (\<lambda>v. case j of
     JObject arr obj xs \<Rightarrow> Inr (size_to_int (if arr then length xs else length obj)) | _ \<Rightarrow> Inr 0)"

definition is_array :: "'d json \<Rightarrow> bool" where
  "is_array j = (case j of JObject arr _ _ \<Rightarrow> arr | _ \<Rightarrow> False)"

definition is_object :: "'d json \<Rightarrow> bool" where
  "is_object j = (case j of JObject arr _ _ \<Rightarrow> \<not> arr | _ \<Rightarrow> False)"

definition is_null :: "'d json \<Rightarrow> bool" where
  "is_null j = (case j of JNone \<Rightarrow> True | JValue v _ \<Rightarrow> v = VNull | _ \<Rightarrow> False)"

definition check_create_json_object :: "'d json \<Rightarrow> 'd json" where
  "check_create_json_object j = (case j of JObject a o' xs \<Rightarrow> j | _ \<Rightarrow> JObject False [] [])"

definition json_push_back :: "'d json \<Rightarrow> 'd json \<Rightarrow> 'd json" where
  "json_push_back j v = (case check_create_json_object j of
     JObject _ obj xs \<Rightarrow> JObject True obj (xs @ [v]) | j' \<Rightarrow> j')"

text \<open>\<open>j[key] = v\<close>: the reference \<open>operator[]\<close> returns, assigned.\<close>

definition set_key :: "'d json \<Rightarrow> string \<Rightarrow> 'd json \<Rightarrow> 'd json" where
  "set_key j key v = (case check_create_json_object j of
     JObject _ obj xs \<Rightarrow> JObject False (AList.update key v obj) xs | j' \<Rightarrow> j')"

definition set_index :: "'d json \<Rightarrow> nat \<Rightarrow> 'd json \<Rightarrow> 'd json" where
  "set_index j i v = (case check_create_json_object j of
     JObject _ obj xs \<Rightarrow> JObject True obj ((if i < length xs then xs else xs @ replicate (i + 1 - length xs) JNone)[i := v])
   | j' \<Rightarrow> j')"

definition remove_field :: "'d json \<Rightarrow> string \<Rightarrow> 'd json result" where
  "remove_field j field = bindE (is_json_value j) (\<lambda>v. case j of
     JObject arr obj xs \<Rightarrow> Inr (JObject False (AList.delete field obj) xs) | _ \<Rightarrow> Inr j)"

definition set_size :: "'d json \<Rightarrow> nat \<Rightarrow> 'd json" where
  "set_size j n = (case check_create_json_object j of
     JObject _ obj xs \<Rightarrow> JObject True obj (take n xs @ replicate (n - length xs) JNone) | j' \<Rightarrow> j')"

definition json_reverse :: "'d json \<Rightarrow> 'd json" where
  "json_reverse j = (case check_create_json_object j of
     JObject _ obj xs \<Rightarrow> JObject True obj (rev xs) | j' \<Rightarrow> j')"

text \<open>The constructor from an initializer list inserts the pairs in order; a key that is
  already there keeps its value.\<close>

definition json_of_pairs :: "(string \<times> 'd json) list \<Rightarrow> 'd json" where
  "json_of_pairs kvs = JObject False
     (foldl (\<lambda>obj (k, v). if map_of obj k = None then obj @ [(k, v)] else obj) [] kvs) []"

subsection \<open>Writing\<close>

text \<open>
  The text of a value, with the objects in the order their table is walked. Strings are
  written between quotes as they are: nothing is escaped.
\<close>

definition reorder :: "'d platform \<Rightarrow> (string \<times> 'a) list \<Rightarrow> (string \<times> 'a) list" where
  "reorder pf kvs = map (\<lambda>k. (k, the (map_of kvs k))) (iter_order pf (map fst kvs))"

primrec arrange :: "'d platform \<Rightarrow> 'd json \<Rightarrow> 'd json" where
  "arrange pf JNone = JNone"
| "arrange pf (JValue v f) = JValue v f"
| "arrange pf (JObject a obj xs) =
     JObject a (reorder pf (map (map_prod id (arrange pf)) obj)) (map (arrange pf) xs)"

definition value_pieces :: "'d platform \<Rightarrow> 'd jval \<Rightarrow> bool \<Rightarrow> string list" where
  "value_pieces pf v fmt = (case v of
     VNull \<Rightarrow> [''null'']
   | VBool b \<Rightarrow> [if b then ''true'' else ''false'']
   | VInt i \<Rightarrow> [int_to_chars i]
   | VUInt n \<Rightarrow> [nat_to_chars n]
   | VDouble d \<Rightarrow> [double_to_chars pf d]
   | VString s \<Rightarrow> if fmt then [[CHR 0x22], s, [CHR 0x22]] else [s])"

fun put_all :: "('s \<Rightarrow> string \<Rightarrow> 's result) \<Rightarrow> string list \<Rightarrow> 's \<Rightarrow> 's result" where
  "put_all put [] s = Inr s"
| "put_all put (p # ps) s = bindE (put s p) (put_all put ps)"

text \<open>
  \<open>write_string_value\<close>, with \<open>put\<close> for the two calls \<open>write_char\<close> and \<open>write_raw\<close> of the
  builder it is given.
\<close>

fun write_json :: "'d platform \<Rightarrow> ('s \<Rightarrow> string \<Rightarrow> 's result) \<Rightarrow> 'd json \<Rightarrow> 's \<Rightarrow> 's result"
  and write_elems :: "'d platform \<Rightarrow> ('s \<Rightarrow> string \<Rightarrow> 's result) \<Rightarrow> bool \<Rightarrow> 'd json list \<Rightarrow> 's \<Rightarrow> 's result"
  and write_pairs :: "'d platform \<Rightarrow> ('s \<Rightarrow> string \<Rightarrow> 's result) \<Rightarrow> bool \<Rightarrow> (string \<times> 'd json) list \<Rightarrow> 's \<Rightarrow> 's result"
where
  "write_json pf put JNone s = put s ''null''"
| "write_json pf put (JValue v fmt) s = put_all put (value_pieces pf v fmt) s"
| "write_json pf put (JObject arr obj xs) s =
     (if arr then
        bindE (put s ''['') (\<lambda>s. bindE (write_elems pf put True xs s) (\<lambda>s. put s '']''))
      else
        bindE (put s ''{'') (\<lambda>s. bindE (write_pairs pf put True obj s) (\<lambda>s. put s ''}'')))"
| "write_elems pf put first [] s = Inr s"
| "write_elems pf put first (x # xs) s =
     bindE (if first then Inr s else put s '','') (\<lambda>s.
     bindE (write_json pf put x s) (write_elems pf put False xs))"
| "write_pairs pf put first [] s = Inr s"
| "write_pairs pf put first ((k, v) # kvs) s =
     bindE (if first then Inr s else put s '','') (\<lambda>s.
     bindE (put_all put [[CHR 0x22], k, [CHR 0x22], '':''] s) (\<lambda>s.
     bindE (write_json pf put v s) (write_pairs pf put False kvs)))"

text \<open>The two builders: a character buffer of fixed size, and an output file.\<close>

definition string_buffer_size :: nat where
  "string_buffer_size = 100000"

definition buffer_put :: "nat \<Rightarrow> string \<Rightarrow> string \<Rightarrow> string result" where
  "buffer_put cap buf xs = (if length buf + length xs \<le> cap \<or> xs = [] then Inr (buf @ xs) else Inl (UB Buffer_Overflow))"

definition file_put :: "string \<Rightarrow> string \<Rightarrow> string result" where
  "file_put out xs = Inr (out @ xs)"

definition get_string_value :: "'d platform \<Rightarrow> 'd json \<Rightarrow> string result" where
  "get_string_value pf j = write_json pf (buffer_put string_buffer_size) (arrange pf j) []"

definition write_to_file :: "'d platform \<Rightarrow> 'd json \<Rightarrow> string result" where
  "write_to_file pf j = write_json pf file_put (arrange pf j) []"

subsection \<open>The text as a function\<close>

fun json_text :: "'d platform \<Rightarrow> 'd json \<Rightarrow> string"
  and elems_text :: "'d platform \<Rightarrow> bool \<Rightarrow> 'd json list \<Rightarrow> string"
  and pairs_text :: "'d platform \<Rightarrow> bool \<Rightarrow> (string \<times> 'd json) list \<Rightarrow> string"
where
  "json_text pf JNone = ''null''"
| "json_text pf (JValue v fmt) = concat (value_pieces pf v fmt)"
| "json_text pf (JObject arr obj xs) =
     (if arr then ''['' @ elems_text pf True xs @ '']'' else ''{'' @ pairs_text pf True obj @ ''}'')"
| "elems_text pf first [] = []"
| "elems_text pf first (x # xs) = (if first then [] else '','') @ json_text pf x @ elems_text pf False xs"
| "pairs_text pf first [] = []"
| "pairs_text pf first ((k, v) # kvs) =
     (if first then [] else '','') @ [CHR 0x22] @ k @ [CHR 0x22] @ '':'' @ json_text pf v @ pairs_text pf False kvs"

text \<open>The contract of a builder: it appends while there is room, and fails otherwise.\<close>

locale char_sink =
  fixes put :: "'s \<Rightarrow> string \<Rightarrow> 's result" and contents :: "'s \<Rightarrow> string" and room :: "'s \<Rightarrow> nat \<Rightarrow> bool"
  assumes put_fits: "room s (length xs) \<Longrightarrow> \<exists>s'. put s xs = Inr s' \<and> contents s' = contents s @ xs \<and>
      (\<forall>n. room s' n \<longleftrightarrow> room s (length xs + n))"
    and put_over: "\<not> room s (length xs) \<Longrightarrow> put s xs = Inl (UB Buffer_Overflow)"
    and room_mono: "room s n \<Longrightarrow> m \<le> n \<Longrightarrow> room s m"
    and room_0: "room s 0"
begin

text \<open>\<open>writes f t\<close>: the writer \<open>f\<close> appends the text \<open>t\<close>, or overflows if it does not fit.\<close>

definition writes :: "('s \<Rightarrow> 's result) \<Rightarrow> string \<Rightarrow> bool" where
  "writes f t \<longleftrightarrow> (\<forall>s. if room s (length t)
     then \<exists>s'. f s = Inr s' \<and> contents s' = contents s @ t \<and> (\<forall>n. room s' n \<longleftrightarrow> room s (length t + n))
     else f s = Inl (UB Buffer_Overflow))"

lemma writes_put: "writes (\<lambda>s. put s xs) xs"
  using put_fits put_over by (auto simp: writes_def)

lemma writes_none: "writes Inr []"
  by (simp add: writes_def room_0)

lemma writes_bind:
  assumes f: "writes f t" and g: "writes g u"
  shows "writes (\<lambda>s. bindE (f s) g) (t @ u)"
  unfolding writes_def
proof (intro allI)
  fix s
  show "if room s (length (t @ u))
     then \<exists>s'. bindE (f s) g = Inr s' \<and> contents s' = contents s @ t @ u \<and> (\<forall>n. room s' n \<longleftrightarrow> room s (length (t @ u) + n))
     else bindE (f s) g = Inl (UB Buffer_Overflow)"
  proof (cases "room s (length t)")
    case True
    with f obtain s1 where s1: "f s = Inr s1" "contents s1 = contents s @ t"
      "\<forall>n. room s1 n \<longleftrightarrow> room s (length t + n)" unfolding writes_def by metis
    show ?thesis
    proof (cases "room s1 (length u)")
      case True
      with g obtain s2 where "g s1 = Inr s2" "contents s2 = contents s1 @ u"
        "\<forall>n. room s2 n \<longleftrightarrow> room s1 (length u + n)" unfolding writes_def by metis
      with s1 True show ?thesis by (auto simp: add.assoc)
    next
      case False
      with g have "g s1 = Inl (UB Buffer_Overflow)" unfolding writes_def by metis
      with s1 False show ?thesis by simp
    qed
  next
    case False
    with room_mono [of s "length (t @ u)" "length t"] f show ?thesis unfolding writes_def by auto
  qed
qed

lemma writes_put_all: "writes (put_all put ps) (concat ps)"
proof (induction ps)
  case Nil
  have "put_all put [] = Inr" by (simp add: fun_eq_iff)
  with writes_none show ?case by simp
next
  case (Cons p ps)
  have "put_all put (p # ps) = (\<lambda>s. bindE (put s p) (put_all put ps))" by (simp add: fun_eq_iff)
  with writes_bind [OF writes_put Cons] show ?case by simp
qed

lemma writes_sep: "writes (\<lambda>s. if first then Inr s else put s xs) (if first then [] else xs)"
  using writes_none writes_put by (cases first) (auto simp: writes_def)

lemma writes_json:
  "writes (write_json pf put j) (json_text pf j)"
  "writes (write_elems pf put first xs) (elems_text pf first xs)"
  "writes (write_pairs pf put first kvs) (pairs_text pf first kvs)"
proof (induction pf j and pf first xs and pf first kvs rule: json_text_elems_text_pairs_text.induct)
  case (1 pf)
  have "write_json pf put JNone = (\<lambda>s. put s ''null'')" by (simp add: fun_eq_iff)
  with writes_put show ?case by simp
next
  case (2 pf v fmt)
  have "write_json pf put (JValue v fmt) = put_all put (value_pieces pf v fmt)" by (simp add: fun_eq_iff)
  with writes_put_all show ?case by simp
next
  case (3 pf arr obj xs)
  show ?case
  proof (cases arr)
    case True
    have e: "write_json pf put (JObject arr obj xs) =
        (\<lambda>s. bindE (put s ''['') (\<lambda>s. bindE (write_elems pf put True xs s) (\<lambda>s. put s '']'')))"
      using True by (simp add: fun_eq_iff)
    from writes_bind [OF writes_put [of "''[''"] writes_bind [OF 3(1) [OF True] writes_put [of "'']''"]]] True show ?thesis
      unfolding e by simp
  next
    case False
    have e: "write_json pf put (JObject arr obj xs) =
        (\<lambda>s. bindE (put s ''{'') (\<lambda>s. bindE (write_pairs pf put True obj s) (\<lambda>s. put s ''}'')))"
      using False by (simp add: fun_eq_iff)
    from writes_bind [OF writes_put [of "''{''"] writes_bind [OF 3(2) [OF False] writes_put [of "''}''"]]] False show ?thesis
      unfolding e by simp
  qed
next
  case (4 pf first)
  have "write_elems pf put first [] = Inr" by (simp add: fun_eq_iff)
  with writes_none show ?case by simp
next
  case (5 pf first x xs)
  have e: "write_elems pf put first (x # xs) =
      (\<lambda>s. bindE (if first then Inr s else put s '','') (\<lambda>s. bindE (write_json pf put x s) (write_elems pf put False xs)))"
    by (simp add: fun_eq_iff)
  from writes_bind [OF writes_sep writes_bind [OF 5(1) 5(2)]] show ?case unfolding e by simp
next
  case (6 pf first)
  have "write_pairs pf put first [] = Inr" by (simp add: fun_eq_iff)
  with writes_none show ?case by simp
next
  case (7 pf first k v kvs)
  have e: "write_pairs pf put first ((k, v) # kvs) =
      (\<lambda>s. bindE (if first then Inr s else put s '','') (\<lambda>s.
         bindE (put_all put [[CHR 0x22], k, [CHR 0x22], '':''] s) (\<lambda>s.
         bindE (write_json pf put v s) (write_pairs pf put False kvs))))"
    by (rule ext) (simp only: write_json.simps write_elems.simps write_pairs.simps)
  have t: "pairs_text pf first ((k, v) # kvs) = (if first then [] else '','') @
      concat [[CHR 0x22], k, [CHR 0x22], '':''] @ json_text pf v @ pairs_text pf False kvs" by simp
  show ?case unfolding e t by (intro writes_bind writes_sep writes_put_all 7(1) 7(2))
qed

end

interpretation sb: char_sink "buffer_put cap" "\<lambda>b. b" "\<lambda>b n. length b + n \<le> cap \<or> n = 0" for cap
  by unfold_locales (auto simp: buffer_put_def)

interpretation fw: char_sink file_put "\<lambda>b. b" "\<lambda>b n. True"
  by unfold_locales (auto simp: file_put_def)

lemma writers_text:
  "get_string_value pf j = (let t = json_text pf (arrange pf j) in
     if length t \<le> string_buffer_size then Inr t else Inl (UB Buffer_Overflow)) \<and>
   write_to_file pf j = Inr (json_text pf (arrange pf j))"
proof -
  let ?j = "arrange pf j"
  have b: "get_string_value pf j = (let t = json_text pf ?j in
      if length t \<le> string_buffer_size then Inr t else Inl (UB Buffer_Overflow))"
    using sb.writes_json(1) [of string_buffer_size pf ?j]
    unfolding sb.writes_def get_string_value_def Let_def
    by (cases "length (json_text pf ?j) \<le> string_buffer_size") (auto dest!: spec [of _ "[]"] split: if_splits)
  have f: "write_to_file pf j = Inr (json_text pf ?j)"
    using fw.writes_json(1) [of pf ?j] unfolding fw.writes_def write_to_file_def
    by (auto dest!: spec [of _ "[]"] split: if_splits)
  from b f show ?thesis ..
qed

text \<open>
  C14: \<open>get_string_value\<close> yields the text of the value when it fits the 100000 bytes of the
  stack buffer, and overruns the buffer otherwise; \<open>write_to_file\<close> always writes the text.
\<close>

theorem json_writers:
  "get_string_value pf j = (let t = json_text pf (arrange pf j) in
     if length t \<le> string_buffer_size then Inr t else Inl (UB Buffer_Overflow)) \<and>
   write_to_file pf j = Inr (json_text pf (arrange pf j))"
  by (rule writers_text)

end
