(* ===== verification/JsonParse.thy ===== *)
theory JsonParse
  imports Json
begin

section \<open>The JSON parser (src/core/json/json_parse.h, json_parse.cpp)\<close>

text \<open>
  The class \<open>JsonParseNew\<close>. Its state is the position \<open>start_pos\<close>, passed by reference, and
  the flag \<open>m_is_valid\<close>, which a scan that runs off the end of the text clears. The text is a
  view of a \<open>std::string\<close>: index \<open>m_size\<close> reads its terminating NUL, and an index beyond it
  reads outside the string. The loops over object members and array elements need not end,
  so the functions have fuel: \<open>None\<close> means that the fuel did not suffice.
\<close>

subsection \<open>Scanning\<close>

definition rd :: "string \<Rightarrow> nat \<Rightarrow> char result" where
  "rd s i = (if i < length s then Inr (s ! i)
     else if i = length s then Inr (CHR 0x00) else Inl (UB Out_Of_Bounds))"

definition is_number :: "char \<Rightarrow> bool" where
  "is_number c \<longleftrightarrow> char_digit c \<noteq> None \<or> c = CHR ''-''"

definition is_letter :: "char \<Rightarrow> bool" where
  "is_letter c \<longleftrightarrow> c \<in> set ''abcdefghijklmnopqrstuvwxyz'' \<or> c \<in> set ''ABCDEFGHIJKLMNOPQRSTUVWXYZ''"

definition word_at :: "string \<Rightarrow> nat \<Rightarrow> string \<Rightarrow> bool" where
  "word_at s i w \<longleftrightarrow> i + length w < length s \<and> \<not> is_letter (s ! (i + length w)) \<and> take (length w) (drop i s) = w"

definition is_boolean :: "string \<Rightarrow> nat \<Rightarrow> bool option" where
  "is_boolean s i = (if word_at s i ''true'' then Some True
     else if word_at s i ''false'' then Some False else None)"

definition is_null_at :: "string \<Rightarrow> nat \<Rightarrow> bool" where
  "is_null_at s i \<longleftrightarrow> word_at s i ''null'' \<and> \<not> is_number (s ! (i + 4))"

lemma bindE_cong [fundef_cong]:
  "r = r' \<Longrightarrow> (\<And>x. r' = Inr x \<Longrightarrow> f x = f' x) \<Longrightarrow> bindE r f = bindE r' f'"
  by (cases r') auto

text \<open>The loop \<open>while (!P(text[i])) { i++; if (check_exceed_size(i)) break; }\<close>: the position
  where it stops and whether the text was long enough.\<close>

function scan_until :: "(char \<Rightarrow> bool) \<Rightarrow> string \<Rightarrow> nat \<Rightarrow> (nat \<times> bool) result" where
  "scan_until P s i = bindE (rd s i) (\<lambda>c.
     if P c then Inr (i, True)
     else if length s \<le> i + 1 then Inr (i + 1, False)
     else scan_until P s (i + 1))"
  by auto
termination by (relation "measure (\<lambda>(P, s, i). length s - i)") auto

declare scan_until.simps [simp del]

text \<open>The first loop of \<open>parse_value\<close>: position, whether it met a closing bracket, validity.\<close>

definition value_start :: "string \<Rightarrow> nat \<Rightarrow> char \<Rightarrow> bool" where
  "value_start s i c \<longleftrightarrow> c \<in> {CHR 0x22, CHR ''{'', CHR ''[''} \<or> is_number c \<or>
     is_boolean s i \<noteq> None \<or> is_null_at s i"

function find_value :: "string \<Rightarrow> nat \<Rightarrow> (nat \<times> bool \<times> bool) result" where
  "find_value s i = bindE (rd s i) (\<lambda>c.
     if value_start s i c then Inr (i, False, True)
     else if c = CHR ''}'' \<or> c = CHR '']'' then Inr (i, True, True)
     else if length s \<le> i + 1 then Inr (i + 1, False, False)
     else find_value s (i + 1))"
  by auto
termination by (relation "measure (\<lambda>(s, i). length s - i)") auto

declare find_value.simps [simp del]

text \<open>The loop of \<open>parse_value_number\<close>: position, whether there was a point, validity.\<close>

function scan_number :: "string \<Rightarrow> nat \<Rightarrow> bool \<Rightarrow> (nat \<times> bool \<times> bool) result" where
  "scan_number s i is_float = bindE (rd s i) (\<lambda>c.
     bindE (if c = CHR ''e'' then bindE (rd s (i + 1)) (\<lambda>d. Inr (d = CHR ''-'')) else Inr False) (\<lambda>e.
     if is_number c \<or> c = CHR ''.'' \<or> e then
       let f = (is_float \<or> c = CHR ''.'') in
       if length s \<le> i + 1 then Inr (i + 1, f, False) else scan_number s (i + 1) f
     else Inr (i, is_float, True)))"
  by auto
termination by (relation "measure (\<lambda>(s, i, f). length s - i)") auto

declare scan_number.simps [simp del]

definition get_sub_string :: "string \<Rightarrow> nat \<Rightarrow> nat \<Rightarrow> string result" where
  "get_sub_string s start fin =
     (if fin \<le> length s then Inr (take (fin - start) (drop start s)) else Inl (Throw Std_Out_Of_Range))"

subsection \<open>The parser\<close>

definition parse_key :: "string \<Rightarrow> nat \<Rightarrow> bool \<Rightarrow> (string \<times> nat \<times> bool) result" where
  "parse_key s pos valid =
     bindE (scan_until (\<lambda>c. c = CHR 0x22 \<or> c = CHR ''}'') s pos) (\<lambda>(start, ok1).
     bindE (rd s start) (\<lambda>c.
       if c = CHR ''}'' then Inr (''}'', start + 1, valid \<and> ok1)
       else
         bindE (scan_until (\<lambda>c. c = CHR 0x22) s (start + 1)) (\<lambda>(fin, ok2).
         bindE (get_sub_string s (start + 1) fin) (\<lambda>k. Inr (k, fin + 1, valid \<and> ok1 \<and> ok2)))))"

definition parse_value_string :: "string \<Rightarrow> nat \<Rightarrow> bool \<Rightarrow> ('d json \<times> nat \<times> bool) result" where
  "parse_value_string s pos valid =
     bindE (scan_until (\<lambda>c. c = CHR 0x22) s pos) (\<lambda>(fin, ok).
     bindE (get_sub_string s pos fin) (\<lambda>t. Inr (of_string t, fin + 1, valid \<and> ok)))"

definition parse_value_number :: "'d platform \<Rightarrow> string \<Rightarrow> nat \<Rightarrow> bool \<Rightarrow> ('d json \<times> nat \<times> bool) result" where
  "parse_value_number pf s pos valid =
     bindE (scan_number s pos False) (\<lambda>(fin, is_float, ok).
     bindE (get_sub_string s pos fin) (\<lambda>t.
       let j = (if \<not> is_float
                then (case int64_from_chars t of Some n \<Rightarrow> of_integer n | None \<Rightarrow> JNone)
                else (case double_from_chars pf t of Some d \<Rightarrow> JValue (VDouble d) True | None \<Rightarrow> JNone))
       in Inr (j, fin, valid \<and> ok)))"

text \<open>A step with fuel: an error or a lack of fuel ends the run.\<close>

definition bindP :: "'a result option \<Rightarrow> ('a \<Rightarrow> 'b result option) \<Rightarrow> 'b result option" where
  "bindP r f = (case r of None \<Rightarrow> None | Some (Inl e) \<Rightarrow> Some (Inl e) | Some (Inr x) \<Rightarrow> f x)"

lemma bindP_simps [simp]:
  "bindP None f = None" "bindP (Some (Inl e)) f = Some (Inl e)" "bindP (Some (Inr x)) f = f x"
  by (simp_all add: bindP_def)

definition c_str :: "string \<Rightarrow> string" where
  "c_str = takeWhile (\<lambda>c. c \<noteq> CHR 0x00)"

definition is_delim :: "char \<Rightarrow> bool" where
  "is_delim c \<longleftrightarrow> c = CHR '','' \<or> c = CHR ''}'' \<or> c = CHR '']''"

text \<open>
  \<open>parse_object\<close> compares \<open>key.data() == "}"\<close>, the addresses of two different strings, so its
  early return is never taken.
\<close>

fun parse_value :: "'d platform \<Rightarrow> string \<Rightarrow> nat \<Rightarrow> nat \<Rightarrow> bool \<Rightarrow> ('d json \<times> nat \<times> bool) result option"
  and parse_object :: "'d platform \<Rightarrow> string \<Rightarrow> nat \<Rightarrow> nat \<Rightarrow> bool \<Rightarrow> 'd json \<Rightarrow> ('d json \<times> nat \<times> bool) result option"
  and parse_array :: "'d platform \<Rightarrow> string \<Rightarrow> nat \<Rightarrow> nat \<Rightarrow> bool \<Rightarrow> nat \<Rightarrow> 'd json \<Rightarrow> ('d json \<times> nat \<times> bool) result option"
where
  "parse_value pf s 0 pos valid = None"
| "parse_value pf s (Suc n) pos valid =
     bindP (Some (find_value s pos)) (\<lambda>(start, closing, ok).
       let pos1 = (if closing then start else pos); valid1 = (valid \<and> ok) in
       if \<not> valid1 then Some (Inr (JNone, pos1, False))
       else bindP (Some (rd s start)) (\<lambda>c.
         bindP
           (if c = CHR 0x22 then Some (parse_value_string s (start + 1) valid1)
            else if is_number c then Some (parse_value_number pf s start valid1)
            else if is_boolean s start = Some True then Some (Inr (of_bool_json True, start + 4, valid1))
            else if is_boolean s start = Some False then Some (Inr (of_bool_json False, start + 5, valid1))
            else if is_null_at s start then Some (Inr (JValue VNull True, start + 4, valid1))
            else if c = CHR ''{'' then parse_object pf s n (start + 1) valid1 JNone
            else if c = CHR ''['' then parse_array pf s n (start + 1) valid1 0 JNone
            else Some (Inr (JNone, pos1, valid1)))
           (\<lambda>(j, pos2, valid2).
              bindP (Some (scan_until is_delim s pos2)) (\<lambda>(pos3, ok2).
                Some (Inr (j, pos3, valid2 \<and> ok2))))))"
| "parse_object pf s 0 pos valid res = None"
| "parse_object pf s (Suc n) pos valid res =
     bindP (Some (rd s pos)) (\<lambda>c.
       if c = CHR ''}'' then Some (Inr (res, pos + 1, valid))
       else bindP (Some (parse_key s pos valid)) (\<lambda>(key, pos1, valid1).
         bindP (parse_value pf s n pos1 valid1) (\<lambda>(v, pos2, valid2).
           let res' = set_key res (c_str key) v in
           if length s \<le> pos2 then Some (Inr (res', pos2 + 1, False))
           else parse_object pf s n pos2 valid2 res')))"
| "parse_array pf s 0 pos valid index res = None"
| "parse_array pf s (Suc n) pos valid index res =
     bindP (Some (rd s pos)) (\<lambda>c.
       if c = CHR '']'' then Some (Inr (res, pos + 1, valid))
       else bindP (parse_value pf s n pos valid) (\<lambda>(v, pos2, valid2).
         let res' = set_index res index v in
         if length s \<le> pos2 then Some (Inr (res', pos2 + 1, False))
         else parse_array pf s n pos2 valid2 (index + 1) res'))"

declare parse_value.simps [simp del] parse_object.simps [simp del] parse_array.simps [simp del]

definition json_parse :: "'d platform \<Rightarrow> nat \<Rightarrow> string \<Rightarrow> 'd json result option" where
  "json_parse pf n s =
     (if s = [] then Some (Inr (JValue VNull True))
      else
        bindP (Some (scan_until (\<lambda>c. c = CHR ''{'' \<or> c = CHR ''['') s 0)) (\<lambda>(i, ok).
          let start = i + 1 in
          bindP (Some (rd s (start - 1))) (\<lambda>c.
          bindP (if c = CHR ''{'' then parse_object pf s n start ok JNone else parse_array pf s n start ok 0 JNone)
            (\<lambda>(res, pos, valid). Some (Inr (if valid then res else JValue VNull True))))))"

end
