(* ===== verification/Json_Roundtrip.thy ===== *)
theory Json_Roundtrip
  imports JsonParse
begin

section \<open>Writing and reading JSON\<close>

text \<open>
  Which values the parser gives back from the text the writer makes of them, and what the
  parser does with texts that are not JSON.
\<close>

subsection \<open>Integers\<close>

lemma char_digit_char [simp]: "d < 10 \<Longrightarrow> char_digit (digit_char d) = Some d"
proof -
  have "\<forall>d \<in> set [0..<10]. char_digit (digit_char d) = Some d" by code_simp
  then show "d < 10 \<Longrightarrow> char_digit (digit_char d) = Some d" by simp
qed

lemma digits_prefix_append:
  "\<forall>c \<in> set s. char_digit c \<noteq> None \<Longrightarrow> digits_prefix (s @ t) = digits_prefix s @ digits_prefix t"
  by (induction s) auto

lemma nat_chars_digits: "\<forall>c \<in> set (nat_to_chars n). char_digit c \<noteq> None"
proof (induction n rule: nat_to_chars.induct)
  case (1 n)
  then show ?case by (subst nat_to_chars.simps) auto
qed

lemma nat_chars_nonempty [simp]: "nat_to_chars n \<noteq> []"
  by (subst nat_to_chars.simps) simp

lemma digits_value_snoc: "digits_value (ds @ [d]) = 10 * digits_value ds + d"
  by (simp add: digits_value_def)

lemma nat_chars_value: "digits_value (digits_prefix (nat_to_chars n)) = n"
proof (induction n rule: nat_to_chars.induct)
  case (1 n)
  show ?case
  proof (cases "n < 10")
    case True
    then show ?thesis by (subst nat_to_chars.simps) (simp add: digits_value_def)
  next
    case False
    have "digits_prefix (nat_to_chars n) = digits_prefix (nat_to_chars (n div 10)) @ [n mod 10]"
      using False nat_chars_digits [of "n div 10"]
      by (subst nat_to_chars.simps) (simp add: digits_prefix_append)
    with 1 [OF False] show ?thesis by (simp add: digits_value_snoc)
  qed
qed

lemma digits_prefix_nonempty: "digits_prefix (nat_to_chars n) \<noteq> []"
  using nat_chars_digits [of n] by (cases "nat_to_chars n") auto

lemma minus_no_digit: "char_digit (CHR ''-'') = None"
  by code_simp

lemma int_roundtrip: "in_int64 i \<Longrightarrow> int64_from_chars (int_to_chars i) = Some i"
proof (cases "i < 0")
  case True
  then show "in_int64 i \<Longrightarrow> ?thesis"
    by (simp add: int64_from_chars_def int_to_chars_def Let_def digits_prefix_nonempty nat_chars_value)
next
  case False
  have "hd (nat_to_chars (nat i)) \<noteq> CHR ''-''"
    using nat_chars_digits [of "nat i"] minus_no_digit by (cases "nat_to_chars (nat i)") auto
  with False show "in_int64 i \<Longrightarrow> ?thesis"
    by (simp add: int64_from_chars_def int_to_chars_def Let_def digits_prefix_nonempty nat_chars_value)
qed

lemma int_chars_numbers: "\<forall>c \<in> set (int_to_chars i). is_number c"
  using nat_chars_digits by (auto simp: int_to_chars_def is_number_def)

lemma int_chars_nonempty [simp]: "int_to_chars i \<noteq> []"
  by (simp add: int_to_chars_def)

subsection \<open>Scans that succeed\<close>

lemma rd_at [simp]: "rd (pre @ c # post) (length pre) = Inr c"
  by (simp add: rd_def)

lemma scan_until_at:
  assumes "\<forall>x \<in> set mid. \<not> P x" "P c"
  shows "scan_until P (pre @ mid @ c # post) (length pre) = Inr (length pre + length mid, True)"
  using assms
proof (induction mid arbitrary: pre)
  case Nil
  then show ?case by (simp add: scan_until.simps [of P "pre @ c # post"])
next
  case (Cons x mid)
  with Cons.IH [of "pre @ [x]"] show ?case
    by (simp add: scan_until.simps [of P "pre @ x # mid @ c # post"])
qed

lemma word_at_hd: "word_at s i (x # w) \<Longrightarrow> s ! i = x"
  by (auto simp: word_at_def take_Suc_conv_app_nth Cons_nth_drop_Suc [symmetric])

lemma word_at_text:
  assumes "\<not> is_letter c"
  shows "word_at (pre @ w @ c # post) (length pre) w"
  using assms by (simp add: word_at_def)

lemma no_word_at: "x \<notin> {CHR ''t'', CHR ''f'', CHR ''n''} \<Longrightarrow>
    is_boolean (pre @ x # post) (length pre) = None \<and> \<not> is_null_at (pre @ x # post) (length pre)"
  using word_at_hd [of "pre @ x # post" "length pre"]
  by (auto simp: is_boolean_def is_null_at_def)

definition sep_ok :: "string \<Rightarrow> bool" where
  "sep_ok sep \<longleftrightarrow> sep \<in> {[], '','', '':''}"

lemma not_number [simp]: "\<not> is_number CHR '',''" "\<not> is_number CHR '':''" "\<not> is_number CHR ''}''"
    "\<not> is_number CHR '']''" "\<not> is_number CHR ''{''" "\<not> is_number CHR ''[''" "\<not> is_number CHR 0x22"
    "\<not> is_number CHR ''t''" "\<not> is_number CHR ''f''" "\<not> is_number CHR ''n''" "\<not> is_number CHR ''e''"
    "\<not> is_number CHR ''.''"
  by code_simp+

lemma delim_cases: "is_delim c \<Longrightarrow> \<not> is_number c \<and> \<not> is_letter c \<and> c \<noteq> CHR ''.'' \<and> c \<noteq> CHR ''e'' \<and>
    c \<noteq> CHR 0x22"
proof -
  have "\<not> is_letter CHR '',''" "\<not> is_letter CHR ''}''" "\<not> is_letter CHR '']''" by code_simp+
  then show "is_delim c \<Longrightarrow> ?thesis" by (auto simp: is_delim_def)
qed

lemma find_value_here:
  "value_start (pre @ c # post) (length pre) c \<Longrightarrow>
     find_value (pre @ c # post) (length pre) = Inr (length pre, False, True)"
  by (simp add: find_value.simps [of "pre @ c # post"])

lemma find_value_sep:
  assumes "sep_ok sep" "value_start (pre @ sep @ c # post) (length pre + length sep) c"
  shows "find_value (pre @ sep @ c # post) (length pre) = Inr (length pre + length sep, False, True)"
proof (cases sep)
  case Nil
  with assms(2) show ?thesis by (simp add: find_value_here)
next
  case (Cons x r)
  with assms(1) have x: "sep = [x]" "x = CHR '','' \<or> x = CHR '':''" by (auto simp: sep_ok_def)
  then have "\<not> value_start (pre @ x # c # post) (length pre) x"
    using no_word_at [of x pre "c # post"] by (auto simp: value_start_def)
  moreover have "find_value (pre @ [x] @ c # post) (length (pre @ [x])) = Inr (length (pre @ [x]), False, True)"
    using find_value_here [of "pre @ [x]" c post] assms(2) x(1) by simp
  ultimately show ?thesis using x by (auto simp: find_value.simps [of "pre @ x # c # post" "length pre"])
qed

lemma scan_number_at:
  assumes "\<forall>x \<in> set t. is_number x \<or> x = CHR ''.''" "is_delim c"
  shows "scan_number (pre @ t @ c # post) (length pre) f =
    Inr (length pre + length t, f \<or> CHR ''.'' \<in> set t, True)"
  using assms(1)
proof (induction t arbitrary: pre f)
  case Nil
  from delim_cases [OF assms(2)] show ?case by (simp add: scan_number.simps [of "pre @ c # post"])
next
  case (Cons x t)
  then have "x \<noteq> CHR ''e''" by auto
  with Cons.IH [of "pre @ [x]"] Cons.prems show ?case
    by (auto simp: scan_number.simps [of "pre @ x # t @ c # post"] Let_def)
qed

lemma get_sub_string_at [simp]:
  "get_sub_string (pre @ t @ post) (length pre) (length pre + length t) = Inr t"
  by (simp add: get_sub_string_def)

lemma scan_delim_here: "is_delim c \<Longrightarrow> scan_until is_delim (pre @ c # post) (length pre) = Inr (length pre, True)"
  using scan_until_at [of "[]" is_delim c pre post] by simp

subsection \<open>Values that survive\<close>

text \<open>
  \<open>plain\<close>: the values whose text reads back. Every container is non-empty and holds either
  members or elements, as the flag says; keys are distinct; keys and strings hold no quote and
  keys no NUL; integers fit \<open>int64_t\<close>; a \<open>double\<close> is written with a point and read back
  exactly; and there is no null pointer inside.
\<close>

definition double_ok :: "'d platform \<Rightarrow> 'd \<Rightarrow> bool" where
  "double_ok pf d = (let t = double_to_chars pf d in
     t \<noteq> [] \<and> CHR ''.'' \<in> set t \<and> is_number (hd t) \<and> (\<forall>c \<in> set t. is_number c \<or> c = CHR ''.'') \<and>
     double_from_chars pf t = Some d)"

definition plain_value :: "'d platform \<Rightarrow> 'd jval \<Rightarrow> bool" where
  "plain_value pf v = (case v of VNull \<Rightarrow> True | VBool _ \<Rightarrow> True | VInt i \<Rightarrow> in_int64 i
     | VUInt _ \<Rightarrow> False | VDouble d \<Rightarrow> double_ok pf d | VString t \<Rightarrow> CHR 0x22 \<notin> set t)"

definition plain_key :: "string \<Rightarrow> bool" where
  "plain_key k \<longleftrightarrow> CHR 0x22 \<notin> set k \<and> CHR 0x00 \<notin> set k"

fun plain :: "'d platform \<Rightarrow> 'd json \<Rightarrow> bool" where
  "plain pf JNone = False"
| "plain pf (JValue v fmt) = (fmt \<and> plain_value pf v)"
| "plain pf (JObject arr obj xs) =
     (if arr then obj = [] \<and> xs \<noteq> [] \<and> (\<forall>x \<in> set xs. plain pf x)
      else xs = [] \<and> obj \<noteq> [] \<and> distinct (map fst obj) \<and>
        (\<forall>kv \<in> set obj. plain_key (fst kv) \<and> plain pf (snd kv)))"

definition array_of :: "'d json list \<Rightarrow> 'd json" where
  "array_of vs = (if vs = [] then JNone else JObject True [] vs)"

definition object_of :: "(string \<times> 'd json) list \<Rightarrow> 'd json" where
  "object_of kvs = (if kvs = [] then JNone else JObject False kvs [])"

lemma set_index_array_of: "set_index (array_of vs) (length vs) v = array_of (vs @ [v])"
  by (simp add: set_index_def array_of_def check_create_json_object_def list_update_append)

lemma update_fresh: "k \<notin> fst ` set kvs \<Longrightarrow> AList.update k v kvs = kvs @ [(k, v)]"
  by (induction kvs) auto

lemma set_key_object_of: "k \<notin> fst ` set kvs \<Longrightarrow> set_key (object_of kvs) k v = object_of (kvs @ [(k, v)])"
  by (auto simp: set_key_def object_of_def check_create_json_object_def update_fresh)

lemma c_str_key: "plain_key k \<Longrightarrow> c_str k = k"
  by (auto simp: c_str_def plain_key_def takeWhile_eq_all_conv)

lemma parse_key_at:
  assumes "plain_key k" "first = (sep = [])" "sep \<in> {[], '',''}"
  shows "parse_key (pre @ sep @ [CHR 0x22] @ k @ [CHR 0x22] @ post) (length pre) True =
    Inr (k, length pre + length sep + length k + 2, True)"
proof -
  let ?s = "pre @ sep @ [CHR 0x22] @ k @ [CHR 0x22] @ post" and ?q = "length pre + length sep"
  have 1: "scan_until (\<lambda>c. c = CHR 0x22 \<or> c = CHR ''}'') ?s (length pre) = Inr (?q, True)"
    using scan_until_at [of sep "\<lambda>c. c = CHR 0x22 \<or> c = CHR ''}''" "CHR 0x22" pre "k @ [CHR 0x22] @ post"]
      assms(3) by auto
  have 2: "rd ?s ?q = Inr (CHR 0x22)" using rd_at [of "pre @ sep"] by simp
  have 3: "scan_until (\<lambda>c. c = CHR 0x22) ?s (?q + 1) = Inr (?q + 1 + length k, True)"
    using scan_until_at [of k "\<lambda>c. c = CHR 0x22" "CHR 0x22" "pre @ sep @ [CHR 0x22]" post] assms(1)
    by (auto simp: plain_key_def)
  have 4: "get_sub_string ?s (?q + 1) (?q + 1 + length k) = Inr k"
    using get_sub_string_at [of "pre @ sep @ [CHR 0x22]" k "[CHR 0x22] @ post"] by simp
  show ?thesis unfolding parse_key_def 1 bindE_Inr case_prod_conv 2 using 3 4 by simp
qed

lemma parse_string_at:
  assumes "CHR 0x22 \<notin> set t"
  shows "parse_value_string (pre @ t @ [CHR 0x22] @ post) (length pre) True =
    Inr (of_string t, length pre + length t + 1, True)"
proof -
  have "\<forall>x \<in> set t. \<not> x = CHR 0x22" using assms by auto
  from scan_until_at [OF this refl, of pre post] show ?thesis
    by (simp add: parse_value_string_def get_sub_string_def)
qed

text \<open>Once the value is read, \<open>parse_value\<close> stands on the delimiter behind it.\<close>

lemma parse_value_reads:
  assumes s: "s = pre @ sep @ c # r @ d # post" and q: "q = length pre + length sep"
    and "sep_ok sep" "is_delim d" "value_start s q c"
    and read: "(if c = CHR 0x22 then Some (parse_value_string s (q + 1) True)
      else if is_number c then Some (parse_value_number pf s q True)
      else if is_boolean s q = Some True then Some (Inr (of_bool_json True, q + 4, True))
      else if is_boolean s q = Some False then Some (Inr (of_bool_json False, q + 5, True))
      else if is_null_at s q then Some (Inr (JValue VNull True, q + 4, True))
      else if c = CHR ''{'' then parse_object pf s n (q + 1) True JNone
      else if c = CHR ''['' then parse_array pf s n (q + 1) True 0 JNone
      else Some (Inr (JNone, length pre, True))) = Some (Inr (j, q + Suc (length r), True))"
  shows "parse_value pf s (Suc n) (length pre) True = Some (Inr (j, q + Suc (length r), True))"
proof -
  have f: "find_value s (length pre) = Inr (q, False, True)"
    using find_value_sep [OF assms(3), of pre c "r @ d # post"] assms(5) by (simp add: s q)
  have r: "rd s q = Inr c" using rd_at [of "pre @ sep"] by (simp add: s q)
  have e: "scan_until is_delim s (q + Suc (length r)) = Inr (q + Suc (length r), True)"
    using scan_delim_here [OF assms(4), of "pre @ sep @ c # r" post] by (simp add: s q add.assoc)
  show ?thesis
    by (simp only: parse_value.simps f bindP_simps case_prod_conv Let_def r simp_thms if_False if_True)
      (simp only: read bindP_simps case_prod_conv e simp_thms)
qed

lemma int_chars_hd: "\<exists>c r. int_to_chars i = c # r \<and> is_number c"
  using int_chars_numbers [of i] int_chars_nonempty [of i] by (cases "int_to_chars i") auto

text \<open>The scalar values.\<close>

lemma parse_scalar:
  assumes s: "s = pre @ sep @ concat (value_pieces pf v True) @ d # post"
    and "sep_ok sep" "is_delim d" "plain_value pf v"
  shows "parse_value pf s (Suc n) (length pre) True =
    Some (Inr (JValue v True, length pre + length sep + length (concat (value_pieces pf v True)), True))"
proof -
  let ?q = "length pre + length sep" and ?t = "concat (value_pieces pf v True)"
  note d = delim_cases [OF assms(3)]
  have w: "word_at s ?q ?t" using word_at_text [of d "pre @ sep" ?t post] d by (simp add: s)
  have num: "parse_value pf s (Suc n) (length pre) True = Some (Inr (j, ?q + length ?t, True))"
    if t: "?t = c # r" and c: "is_number c" and all: "\<forall>x \<in> set ?t. is_number x \<or> x = CHR ''.''"
      and j: "parse_value_number pf s ?q True = Inr (j, ?q + length ?t, True)" for c r j
  proof -
    have "c \<noteq> CHR 0x22" using c by auto
    with c j t show ?thesis
      using parse_value_reads [of s pre sep c r d post ?q pf n j] assms(2,3)
      by (simp add: s value_start_def)
  qed
  have pn: "parse_value_number pf s ?q True = Inr (if CHR ''.'' \<notin> set ?t
        then (case int64_from_chars ?t of Some n \<Rightarrow> of_integer n | None \<Rightarrow> JNone)
        else (case double_from_chars pf ?t of Some d \<Rightarrow> JValue (VDouble d) True | None \<Rightarrow> JNone),
        ?q + length ?t, True)"
    if "\<forall>x \<in> set ?t. is_number x \<or> x = CHR ''.''"
  proof -
    have "scan_number s ?q False = Inr (?q + length ?t, CHR ''.'' \<in> set ?t, True)"
      using scan_number_at [OF that assms(3), of "pre @ sep" post False] by (simp add: s)
    moreover have "get_sub_string s ?q (?q + length ?t) = Inr ?t"
      using get_sub_string_at [of "pre @ sep" ?t "d # post"] by (simp add: s)
    ultimately show ?thesis by (simp add: parse_value_number_def Let_def)
  qed
  show ?thesis
  proof (cases v)
    case VNull
    have b: "is_boolean s ?q = None"
      using word_at_hd [of s ?q] by (auto simp: is_boolean_def s VNull value_pieces_def nth_append)
    have "is_null_at s ?q"
      using w d by (auto simp: is_null_at_def s VNull value_pieces_def nth_append)
    with b show ?thesis
      using parse_value_reads [of s pre sep "CHR ''n''" "''ull''" d post ?q pf n "JValue VNull True"] assms(2,3)
      by (simp add: s VNull value_pieces_def value_start_def)
  next
    case (VBool b)
    have "is_boolean s ?q = Some b"
    proof (cases b)
      case False
      have "\<not> word_at s ?q ''true''"
        using word_at_hd [of s ?q] by (auto simp: s VBool value_pieces_def nth_append False)
      with w False show ?thesis by (simp add: is_boolean_def VBool value_pieces_def)
    qed (use w in \<open>simp add: is_boolean_def VBool value_pieces_def\<close>)
    then show ?thesis
      using parse_value_reads [of s pre sep "CHR ''t''" "''rue''" d post ?q pf n "of_bool_json True"]
        parse_value_reads [of s pre sep "CHR ''f''" "''alse''" d post ?q pf n "of_bool_json False"] assms(2,3)
      by (cases b) (simp_all add: s VBool value_pieces_def value_start_def of_bool_json_def)
  next
    case (VInt i)
    have t: "?t = int_to_chars i" by (simp add: VInt value_pieces_def)
    obtain c r where c: "?t = c # r" "is_number c" using int_chars_hd t by metis
    have a: "\<forall>x \<in> set ?t. is_number x \<or> x = CHR ''.''" "CHR ''.'' \<notin> set ?t"
      unfolding t using int_chars_numbers [of i] by auto
    have i: "in_int64 i" using assms(4) by (simp add: VInt plain_value_def)
    have "parse_value_number pf s ?q True = Inr (JValue v True, ?q + length ?t, True)"
      unfolding pn [OF a(1)] unfolding t using a(2) [unfolded t] int_roundtrip [OF i] i
      by (simp add: VInt of_integer_def wrap_int64_id)
    from num [OF c a(1) this] show ?thesis .
  next
    case (VUInt n)
    with assms(4) show ?thesis by (simp add: plain_value_def)
  next
    case (VDouble x)
    have t: "?t = double_to_chars pf x" by (simp add: VDouble value_pieces_def)
    have ok: "double_ok pf x" using assms(4) by (simp add: VDouble plain_value_def)
    then obtain c r where c: "?t = c # r" "is_number c"
      unfolding t double_ok_def Let_def by (metis list.exhaust_sel)
    have a: "\<forall>x \<in> set ?t. is_number x \<or> x = CHR ''.''" "CHR ''.'' \<in> set ?t"
      unfolding t using ok by (simp_all add: double_ok_def Let_def)
    have "parse_value_number pf s ?q True = Inr (JValue v True, ?q + length ?t, True)"
      unfolding pn [OF a(1)] unfolding t using a(2) [unfolded t] ok
      by (simp add: VDouble double_ok_def Let_def)
    from num [OF c a(1) this] show ?thesis .
  next
    case (VString t)
    have q: "CHR 0x22 \<notin> set t" using assms(4) by (simp add: VString plain_value_def)
    have "parse_value_string s (?q + 1) True = Inr (of_string t, ?q + 1 + length t + 1, True)"
      using parse_string_at [OF q, of "pre @ sep @ [CHR 0x22]" "d # post"]
      by (simp add: s VString value_pieces_def)
    then show ?thesis
      using parse_value_reads [of s pre sep "CHR 0x22" "t @ [CHR 0x22]" d post ?q pf n "of_string t"] assms(2,3)
      by (simp add: s VString value_pieces_def value_start_def of_string_def)
  qed
qed

text \<open>The first character of a value is never a closing bracket.\<close>

lemma json_text_hd:
  assumes "plain pf j"
  obtains c r where "json_text pf j = c # r" "c \<noteq> CHR '']''" "c \<noteq> CHR ''}''"
proof (cases j)
  case JNone
  with assms show ?thesis by simp
next
  case (JObject arr obj xs)
  with that show ?thesis by (cases arr) auto
next
  case (JValue v fmt)
  then have f: fmt and v: "plain_value pf v" using assms by simp_all
  show ?thesis
  proof (cases v)
    case (VInt i)
    with int_chars_hd [of i] JValue that show ?thesis by (fastforce simp: value_pieces_def)
  next
    case (VDouble d)
    with v obtain c r where "double_to_chars pf d = c # r" "is_number c"
      unfolding plain_value_def double_ok_def Let_def by (cases "double_to_chars pf d") auto
    with VDouble JValue that show ?thesis by (fastforce simp: value_pieces_def)
  next
    case (VBool b)
    with JValue that show ?thesis by (cases b) (auto simp: value_pieces_def)
  qed (use JValue f v that in \<open>auto simp: value_pieces_def plain_value_def\<close>)
qed

lemma json_text_hd_ex: "plain pf j \<Longrightarrow> \<exists>c r. json_text pf j = c # r \<and> c \<noteq> CHR '']''"
  by (rule json_text_hd) blast+

lemma elems_rest: "\<exists>d r. elems_text pf False xs @ '']'' @ post = d # r \<and> is_delim d"
  by (cases xs) (auto simp: is_delim_def)

lemma pairs_rest: "\<exists>d r. pairs_text pf False kvs @ ''}'' @ post = d # r \<and> is_delim d"
proof (cases kvs)
  case (Cons kv kvs')
  then show ?thesis by (cases kv) (auto simp: is_delim_def)
qed (auto simp: is_delim_def)

lemma parse_text:
  "plain pf j \<Longrightarrow> sep_ok sep \<Longrightarrow> is_delim d \<Longrightarrow> length (json_text pf j) \<le> n \<Longrightarrow>
     parse_value pf (pre @ sep @ json_text pf j @ d # post) n (length pre) True =
       Some (Inr (j, length pre + length sep + length (json_text pf j), True))"
  "(\<forall>x \<in> set xs. plain pf x) \<Longrightarrow> first = (vs = []) \<Longrightarrow> length (elems_text pf first xs) < n \<Longrightarrow>
     parse_array pf (pre @ elems_text pf first xs @ '']'' @ post) n (length pre) True (length vs) (array_of vs) =
       Some (Inr (array_of (vs @ xs), length pre + length (elems_text pf first xs) + 1, True))"
  "(\<forall>kv \<in> set kvs. plain_key (fst kv) \<and> plain pf (snd kv)) \<Longrightarrow> distinct (map fst (acc @ kvs)) \<Longrightarrow>
     first = (acc = []) \<Longrightarrow> length (pairs_text pf first kvs) < n \<Longrightarrow>
     parse_object pf (pre @ pairs_text pf first kvs @ ''}'' @ post) n (length pre) True (object_of acc) =
       Some (Inr (object_of (acc @ kvs), length pre + length (pairs_text pf first kvs) + 1, True))"
proof (induction pf j and pf first xs and pf first kvs
    arbitrary: n pre sep d post and n pre vs post and n pre acc post
    rule: json_text_elems_text_pairs_text.induct)
  case (1 pf)
  then show ?case by simp
next
  case (2 pf v fmt)
  then have f: "fmt" "plain_value pf v" by simp_all
  have "concat (value_pieces pf v True) \<noteq> []"
    using json_text_hd_ex [of pf "JValue v True"] f by (auto simp del: concat_eq_Nil_conv)
  moreover have "length (concat (value_pieces pf v True)) \<le> n" using 2(4) f(1) by simp
  ultimately have "n \<noteq> 0" by (cases "concat (value_pieces pf v True)") simp_all
  then obtain m where n: "n = Suc m" by (cases n) simp_all
  show ?case unfolding n using parse_scalar [OF refl 2(2,3) f(2), of pre post m] f(1) by simp
next
  case (3 pf arr obj xs)
  show ?case
  proof (cases arr)
    case True
    with 3 obtain m where n: "n = Suc m" and m: "length (elems_text pf True xs) < m" by (cases n) auto
    let ?q = "length pre + length sep" and ?s = "pre @ sep @ json_text pf (JObject arr obj xs) @ d # post"
    have "parse_array pf ?s m (?q + 1) True 0 JNone =
        Some (Inr (JObject arr obj xs, ?q + 1 + length (elems_text pf True xs) + 1, True))"
      using 3(1) [OF True, of "[]" m "pre @ sep @ [CHR ''['']" "d # post"] True 3(3) m
      by (auto simp: array_of_def)
    then show ?thesis
      unfolding n
      using parse_value_reads [of ?s pre sep "CHR ''[''" "elems_text pf True xs @ '']''" d post ?q pf m "JObject arr obj xs"]
        True 3(4,5) no_word_at [of "CHR ''[''" "pre @ sep" "elems_text pf True xs @ CHR '']'' # d # post"]
      by (simp add: value_start_def)
  next
    case False
    with 3 obtain m where n: "n = Suc m" and m: "length (pairs_text pf True obj) < m" by (cases n) auto
    let ?q = "length pre + length sep" and ?s = "pre @ sep @ json_text pf (JObject arr obj xs) @ d # post"
    have "parse_object pf ?s m (?q + 1) True JNone =
        Some (Inr (JObject arr obj xs, ?q + 1 + length (pairs_text pf True obj) + 1, True))"
      using 3(2) [OF False, of "[]" m "pre @ sep @ [CHR ''{'']" "d # post"] False 3(3) m
      by (auto simp: object_of_def)
    then show ?thesis
      unfolding n
      using parse_value_reads [of ?s pre sep "CHR ''{''" "pairs_text pf True obj @ ''}''" d post ?q pf m "JObject arr obj xs"]
        False 3(4,5) no_word_at [of "CHR ''{''" "pre @ sep" "pairs_text pf True obj @ CHR ''}'' # d # post"]
      by (simp add: value_start_def)
  qed
next
  case (4 pf first)
  then obtain m where "n = Suc m" by (cases n) auto
  then show ?case by (simp add: parse_array.simps)
next
  case (5 pf first x xs)
  let ?sep = "if first then [] else '',''"
  from 5(3) have px: "plain pf x" by simp
  obtain m where n: "n = Suc m" and m: "length (json_text pf x) \<le> m" "length (elems_text pf False xs) < m"
  proof -
    from json_text_hd_ex [OF px] have "1 \<le> length (json_text pf x)" by auto
    with 5(5) that show thesis by (cases n) (auto split: if_splits)
  qed
  obtain d r where d: "elems_text pf False xs @ '']'' @ post = d # r" "is_delim d" using elems_rest by blast
  let ?s = "pre @ elems_text pf first (x # xs) @ '']'' @ post"
  have s: "?s = pre @ ?sep @ json_text pf x @ d # r" using d(1) by simp
  have v: "parse_value pf ?s m (length pre) True =
      Some (Inr (x, length pre + length ?sep + length (json_text pf x), True))"
    unfolding s using 5(1) [OF px _ d(2) m(1), of ?sep pre r] by (simp add: sep_ok_def)
  obtain c t where c: "?sep @ json_text pf x = c # t" "c \<noteq> CHR '']''"
    using json_text_hd_ex [OF px] by (cases first) auto
  have hd: "rd ?s (length pre) = Inr c"
    unfolding s using rd_at [of pre c "t @ d # r"] c(1) by (metis append_Cons append_assoc)
  have rest: "parse_array pf ?s m (length pre + length ?sep + length (json_text pf x)) True
      (length (vs @ [x])) (array_of (vs @ [x])) =
      Some (Inr (array_of ((vs @ [x]) @ xs),
        length pre + length ?sep + length (json_text pf x) + length (elems_text pf False xs) + 1, True))"
    using 5(2) [of "vs @ [x]" m "pre @ ?sep @ json_text pf x" post] 5(3) m(2) by (simp add: add.assoc)
  have "\<not> length ?s \<le> length pre + length ?sep + length (json_text pf x)" by (simp add: s)
  then show ?case
    unfolding n parse_array.simps hd bindP_simps using c(2) v rest
    by (simp add: set_index_array_of add.assoc)
next
  case (6 pf first)
  then obtain m where "n = Suc m" by (cases n) auto
  then show ?case by (simp add: parse_object.simps)
next
  case (7 pf first k v kvs)
  let ?sep = "if first then [] else '',''"
  from 7(3) have pk: "plain_key k" and pv: "plain pf v" by simp_all
  obtain m where n: "n = Suc m" and m: "length (json_text pf v) \<le> m" "length (pairs_text pf False kvs) < m"
    using 7(6) by (cases n) (auto split: if_splits)
  obtain d r where d: "pairs_text pf False kvs @ ''}'' @ post = d # r" "is_delim d" using pairs_rest by blast
  let ?s = "pre @ pairs_text pf first ((k, v) # kvs) @ ''}'' @ post"
  let ?kq = "pre @ ?sep @ [CHR 0x22] @ k @ [CHR 0x22]"
  let ?p1 = "length pre + length ?sep + length k + 2"
  have s: "?s = ?kq @ '':'' @ json_text pf v @ d # r" using d(1) by simp
  have key: "parse_key ?s (length pre) True = Inr (k, ?p1, True)"
    using parse_key_at [OF pk, of first ?sep pre "'':'' @ json_text pf v @ d # r"] unfolding s by simp
  have val: "parse_value pf ?s m ?p1 True = Some (Inr (v, ?p1 + 1 + length (json_text pf v), True))"
    unfolding s using 7(1) [OF pv _ d(2) m(1), of "'':''" ?kq r]
    by (cases first) (simp_all add: sep_ok_def add.assoc)
  have hd: "rd ?s (length pre) = Inr (if first then CHR 0x22 else CHR '','')"
    using rd_at [of pre] by simp
  have fresh: "k \<notin> fst ` set acc" using 7(4) by auto
  have rest: "parse_object pf ?s m (?p1 + 1 + length (json_text pf v)) True (object_of (acc @ [(k, v)])) =
      Some (Inr (object_of ((acc @ [(k, v)]) @ kvs),
        ?p1 + 1 + length (json_text pf v) + length (pairs_text pf False kvs) + 1, True))"
    using 7(2) [of "acc @ [(k, v)]" m "?kq @ '':'' @ json_text pf v" post] 7(3,4) m(2)
    by (cases first) (simp_all add: add.assoc)
  have "\<not> length ?s \<le> ?p1 + 1 + length (json_text pf v)" by (simp add: s)
  then show ?case
    unfolding n parse_object.simps hd bindP_simps using key val rest
    by (simp add: set_key_object_of [OF fresh] c_str_key [OF pk] add.assoc)
qed

lemma written_parses:
  assumes "plain pf (JObject arr obj xs)" "length (json_text pf (JObject arr obj xs)) \<le> n"
  shows "json_parse pf n (json_text pf (JObject arr obj xs)) = Some (Inr (JObject arr obj xs))"
proof (cases arr)
  case True
  let ?s = "''['' @ elems_text pf True xs @ '']''"
  have s: "scan_until (\<lambda>c. c = CHR ''{'' \<or> c = CHR ''['') ?s 0 = Inr (0, True)"
    by (simp add: scan_until.simps rd_def)
  have "parse_array pf ?s n 1 True 0 JNone = Some (Inr (JObject True [] xs, length ?s, True))"
    using parse_text(2) [of xs pf True "[]" n "''[''" "[]"] assms True by (auto simp: array_of_def)
  with s True assms show ?thesis by (simp add: json_parse_def Let_def rd_def)
next
  case False
  let ?s = "''{'' @ pairs_text pf True obj @ ''}''"
  have s: "scan_until (\<lambda>c. c = CHR ''{'' \<or> c = CHR ''['') ?s 0 = Inr (0, True)"
    by (simp add: scan_until.simps rd_def)
  have "parse_object pf ?s n 1 True JNone = Some (Inr (JObject False obj [], length ?s, True))"
    using parse_text(3) [of obj pf "[]" True n "''{''" "[]"] assms False by (auto simp: object_of_def)
  with s False assms show ?thesis by (simp add: json_parse_def Let_def rd_def)
qed

text \<open>
  C15: a plain object or array is the same after it has been written and parsed, and any fuel
  at least as large as the length of its text is enough.
\<close>

theorem json_roundtrip:
  assumes "plain pf (JObject arr obj xs)" "length (json_text pf (JObject arr obj xs)) \<le> n"
  shows "json_parse pf n (json_text pf (JObject arr obj xs)) = Some (Inr (JObject arr obj xs))"
  using assms by (rule written_parses)

definition demo_platform :: "int platform" where
  "demo_platform = \<lparr>double_to_chars = \<lambda>_. ''0.5'', double_from_chars = \<lambda>s. if s = ''0.5'' then Some 0 else None,
     iter_order = \<lambda>ks. ks\<rparr>"

definition demo_json :: "int json" where
  "demo_json = JObject False
     [(''price'', JValue (VInt (-12)) True), (''ok'', JValue (VBool True) True),
      (''levels'', JObject True [] [JValue VNull True, JValue (VString ''}{'') True, JValue (VDouble 0) True])] []"

theorem json_roundtrip_witness:
  "json_parse demo_platform 100 (json_text demo_platform demo_json) = Some (Inr demo_json)"
proof -
  have "plain demo_platform demo_json"
    by (simp add: demo_json_def plain_value_def plain_key_def in_int64_def double_ok_def demo_platform_def
        is_number_def char_digit_def digit_char_def upt_rec)
  moreover have "length (json_text demo_platform demo_json) \<le> 100"
    by (simp add: demo_json_def value_pieces_def demo_platform_def int_to_chars_def nat_to_chars.simps)
  ultimately show ?thesis unfolding demo_json_def by (rule json_roundtrip)
qed

subsection \<open>The order of tables\<close>

text \<open>Walking a table meets every key once.\<close>

definition walks_keys :: "'d platform \<Rightarrow> string list \<Rightarrow> bool" where
  "walks_keys pf ks \<longleftrightarrow> distinct (iter_order pf ks) \<and> set (iter_order pf ks) = set ks"

text \<open>A table of two keys is walked in one of two orders, an empty one in one.\<close>

lemma two_keys:
  assumes "distinct ks" "set ks = {a, b}" "a \<noteq> b"
  shows "ks = [a, b] \<or> ks = [b, a]"
proof -
  from assms have "length ks = 2" using distinct_card [of ks] by simp
  then obtain x y where "ks = [x, y]" by (auto simp: length_Suc_conv numeral_2_eq_2)
  with assms show ?thesis by (auto simp: doubleton_eq_iff)
qed

lemma reorder_two:
  assumes "walks_keys pf [a, b]" "a \<noteq> b"
  shows "reorder pf [(a, x), (b, y)] = [(a, x), (b, y)] \<or> reorder pf [(a, x), (b, y)] = [(b, y), (a, x)]"
  using two_keys [of "iter_order pf [a, b]" a b] assms by (auto simp: reorder_def walks_keys_def)

lemma reorder_empty: "walks_keys pf [] \<Longrightarrow> reorder pf [] = []"
  by (simp add: reorder_def walks_keys_def)

subsection \<open>Texts that are not JSON\<close>

lemma bracket_brace_value: "parse_value pf ''[}'' (Suc n) 1 True = Some (Inr (JNone, 1, True))"
  by (simp add: parse_value.simps find_value.simps rd_def value_start_def is_boolean_def is_null_at_def
      word_at_def scan_until.simps is_delim_def)

lemma bracket_brace_array: "parse_array pf ''[}'' n 1 True k res = None"
proof (induction n arbitrary: k res)
  case (Suc n)
  then show ?case
    using bracket_brace_value [of pf "n - 1"]
    by (cases n) (simp_all add: parse_array.simps rd_def parse_value.simps(1) Let_def)
qed (simp add: parse_array.simps)

text \<open>
  On the text \<open>[}\<close> the parser does not return, whatever the fuel: \<open>parse_array\<close>
  waits for a closing bracket, and \<open>parse_value\<close> stays on the brace.
\<close>

theorem json_parse_may_not_return: "json_parse pf n ''[}'' = None"
proof -
  have "scan_until (\<lambda>c. c = CHR ''{'' \<or> c = CHR ''['') ''[}'' 0 = Inr (0, True)"
    by (simp add: scan_until.simps rd_def)
  then show ?thesis using bracket_brace_array [of pf n 0 JNone] by (simp add: json_parse_def Let_def rd_def)
qed

lemma scan_until_none:
  "\<forall>i < length s. pos \<le> i \<longrightarrow> \<not> P (s ! i) \<Longrightarrow> pos < length s \<Longrightarrow> scan_until P s pos = Inr (length s, False)"
proof (induction P s pos rule: scan_until.induct)
  case (1 P s i)
  show ?case
  proof (cases "length s \<le> i + 1")
    case True
    with 1 show ?thesis by (simp add: scan_until.simps [of P s i] rd_def)
  next
    case False
    with 1(1) [of "s ! i"] 1(2,3) show ?thesis by (simp add: scan_until.simps [of P s i] rd_def)
  qed
qed

text \<open>
  A text without any opening bracket makes the parser read past the terminating NUL of
  the string.
\<close>

theorem json_parse_no_bracket:
  assumes "s \<noteq> []" "CHR ''{'' \<notin> set s" "CHR ''['' \<notin> set s"
  shows "json_parse pf (Suc n) s = Some (Inl (UB Out_Of_Bounds))"
proof -
  have "scan_until (\<lambda>c. c = CHR ''{'' \<or> c = CHR ''['') s 0 = Inr (length s, False)"
  proof (rule scan_until_none)
    show "0 < length s" using assms(1) by simp
    show "\<forall>i < length s. 0 \<le> i \<longrightarrow> \<not> (s ! i = CHR ''{'' \<or> s ! i = CHR ''['')"
      using assms(2,3) nth_mem [of _ s] by metis
  qed
  with assms(1) show ?thesis by (simp add: json_parse_def Let_def rd_def parse_array.simps)
qed

theorem json_parse_no_bracket_witness:
  "json_parse demo_platform 5 ''12'' = Some (Inl (UB Out_Of_Bounds))"
  using json_parse_no_bracket [of "''12''" demo_platform 4] by simp

text \<open>
  The empty containers do not survive: the texts of the empty object and of the empty array
  parse to the null pointer, on which \<open>has_field\<close> and \<open>size\<close> go through a null pointer.
\<close>

theorem json_empty_containers:
  "json_parse pf (Suc n) (json_text pf (JObject arr [] [])) = Some (Inr JNone) \<and>
   has_field JNone k = (Inl (UB Null_Pointer)) \<and> json_size JNone = Inl (UB Null_Pointer)"
  by (simp add: json_parse_def Let_def rd_def parse_array.simps parse_object.simps scan_until.simps
      has_field_def json_size_def is_json_value_def)

end
