(* ===== verification/OrderBook_Feed.thy ===== *)
theory OrderBook_Feed
  imports OrderBook_Props Json_Roundtrip
begin

section \<open>What the order book publishes\<close>

text \<open>
  The JSON the class \<open>OrderBook\<close> builds: \<open>build_snapshot\<close>, the whole book for the web page,
  and \<open>build_mbp_msg10_from_mbo_msg\<close> with \<open>build_bid_ask_pairs\<close>, a message with the two
  sides paired level by level. The two local arrays of \<open>build_bid_ask_pairs\<close> hold 2000
  entries each; writing behind them is an error of the model.
\<close>

subsection \<open>The snapshot\<close>

definition level_json :: "int \<Rightarrow> u64 \<Rightarrow> 'd json" where
  "level_json price sz = json_of_pairs [(''price'', of_integer price), (''size'', of_integer (uint sz))]"

fun snapshot_bids :: "order_book \<Rightarrow> nat \<Rightarrow> 'd json \<Rightarrow> 'd json result" where
  "snapshot_bids ob 0 js = Inr js"
| "snapshot_bids ob (Suc i) js = bindE (vec_at (bids ob) i) (\<lambda>lvl.
     if \<not> level_empty lvl then bindE (bid_price ob i) (\<lambda>price.
       snapshot_bids ob i (json_push_back js (level_json price (total_size lvl))))
     else snapshot_bids ob i js)"

function snapshot_asks :: "order_book \<Rightarrow> nat \<Rightarrow> 'd json \<Rightarrow> 'd json result" where
  "snapshot_asks ob i js =
     (if i < num_levels ob then bindE (vec_at (asks ob) i) (\<lambda>lvl.
        if \<not> level_empty lvl then
          snapshot_asks ob (Suc i) (json_push_back js (level_json (ask_price ob i) (total_size lvl)))
        else snapshot_asks ob (Suc i) js)
      else Inr js)"
  by pat_completeness auto
termination by (relation "measure (\<lambda>(ob, i, js). num_levels ob - i)") auto

declare snapshot_asks.simps [simp del]

definition build_snapshot :: "order_book \<Rightarrow> 'd json result" where
  "build_snapshot ob =
     bindE (last_index ob) (\<lambda>i.
     bindE (snapshot_bids ob (nat (i + 1)) JNone) (\<lambda>bs.
     bindE (snapshot_asks ob 0 JNone) (\<lambda>as.
       Inr (set_key (set_key JNone ''bids'' bs) ''asks'' as))))"

subsection \<open>Bid-ask pairs\<close>

definition pair_capacity :: nat where
  "pair_capacity = 2000"

fun collect_bids :: "order_book \<Rightarrow> nat \<Rightarrow> (int \<times> level) list \<Rightarrow> (int \<times> level) list result" where
  "collect_bids ob 0 out = Inr out"
| "collect_bids ob (Suc i) out = bindE (vec_at (bids ob) i) (\<lambda>lvl.
     if \<not> level_empty lvl \<and> total_size lvl > 0 then bindE (bid_price ob i) (\<lambda>price.
       if length out < pair_capacity then collect_bids ob i (out @ [(price, lvl)])
       else Inl (UB Buffer_Overflow))
     else collect_bids ob i out)"

function collect_asks :: "order_book \<Rightarrow> nat \<Rightarrow> (int \<times> level) list \<Rightarrow> (int \<times> level) list result" where
  "collect_asks ob i out =
     (if i < num_levels ob then bindE (vec_at (asks ob) i) (\<lambda>lvl.
        if \<not> level_empty lvl \<and> total_size lvl > 0 then
          if length out < pair_capacity then collect_asks ob (Suc i) (out @ [(ask_price ob i, lvl)])
          else Inl (UB Buffer_Overflow)
        else collect_asks ob (Suc i) out)
      else Inr out)"
  by pat_completeness auto
termination by (relation "measure (\<lambda>(ob, i, out). num_levels ob - i)") auto

declare collect_asks.simps [simp del]

definition pair_json :: "(int \<times> level) list \<Rightarrow> (int \<times> level) list \<Rightarrow> nat \<Rightarrow> 'd json" where
  "pair_json bs as i =
     (let p1 = (if i < length bs then
                  set_key (set_key (set_key JNone ''bid_px'' (of_integer (fst (bs ! i))))
                    ''bid_sz'' (of_integer (uint (total_size (snd (bs ! i))))))
                    ''bid_ct'' (of_integer (int (length (queue (snd (bs ! i))))))
                else
                  set_key (set_key (set_key JNone ''bid_px'' (of_integer 0)) ''bid_sz'' (of_integer 0))
                    ''bid_ct'' (of_integer 0))
      in if i < length as then
           set_key (set_key (set_key p1 ''ask_px'' (of_integer (fst (as ! i))))
             ''ask_sz'' (of_integer (uint (total_size (snd (as ! i))))))
             ''ask_ct'' (of_integer (int (length (queue (snd (as ! i))))))
         else
           set_key (set_key (set_key p1 ''ask_px'' (of_integer 0)) ''ask_sz'' (of_integer 0))
             ''ask_ct'' (of_integer 0))"

definition build_bid_ask_pairs :: "order_book \<Rightarrow> 'd json result" where
  "build_bid_ask_pairs ob =
     bindE (last_index ob) (\<lambda>i.
     bindE (collect_bids ob (nat (i + 1)) []) (\<lambda>bs.
     bindE (collect_asks ob 0 []) (\<lambda>as.
       let max_count = max (length bs) (length as);
           pairs = foldl (\<lambda>js i. json_push_back js (pair_json bs as i)) JNone [0..<max_count]
       in Inr (json_of_pairs [(''bid_ask_pairs'', pairs), (''num_levels'', of_integer (int max_count))]))))"

definition get_key :: "'d json \<Rightarrow> string \<Rightarrow> 'd json" where
  "get_key j k = (case j of JObject _ obj _ \<Rightarrow> (case map_of obj k of Some v \<Rightarrow> v | None \<Rightarrow> JNone) | _ \<Rightarrow> JNone)"

definition build_mbp_msg10_from_mbo_msg :: "order_book \<Rightarrow> mbo_msg \<Rightarrow> 'd json result" where
  "build_mbp_msg10_from_mbo_msg ob m =
     bindE (build_bid_ask_pairs ob) (\<lambda>bap.
       Inr (json_of_pairs
         [(''hd'', json_of_pairs
             [(''rtype'', of_integer (uint (msg_rtype m))), (''ts_event'', of_integer (uint (msg_ts_event m))),
              (''instrument_id'', of_integer (uint (msg_instrument_id m))),
              (''publisher_id'', of_integer (uint (msg_publisher_id m))),
              (''length'', of_integer (uint (msg_length m)))]),
          (''price'', of_integer (msg_price m)), (''size'', of_integer (uint (msg_size m))),
          (''action'', of_integer (of_char (msg_action m))), (''side'', of_integer (of_char (msg_side m))),
          (''flags'', of_integer (uint (msg_flags m))), (''depth'', get_key bap ''num_levels''),
          (''ts_recv'', of_integer (uint (msg_ts_recv m))), (''ts_in_delta'', of_integer (msg_ts_in_delta m)),
          (''sequence'', of_integer (uint (msg_sequence m))), (''levels'', get_key bap ''bid_ask_pairs'')]))"

subsection \<open>The snapshot lists the book\<close>

definition entry_json :: "depth_entry \<Rightarrow> 'd json" where
  "entry_json e = level_json (de_price e) (de_size e)"

lemma level_json_eq: "level_json p z =
    JObject False [(''price'', of_integer p), (''size'', of_integer (uint z))] []"
  by (simp add: level_json_def json_of_pairs_def)

lemma push_all_array: "foldl json_push_back (array_of vs) xs = array_of (vs @ xs)"
proof (induction xs arbitrary: vs)
  case (Cons x xs)
  have "json_push_back (array_of vs) x = array_of (vs @ [x])"
    by (simp add: json_push_back_def array_of_def check_create_json_object_def)
  with Cons.IH [of "vs @ [x]"] show ?case by simp
qed simp

lemma snapshot_bids_eq:
  "readable ob \<Longrightarrow> k \<le> num_levels ob \<Longrightarrow> snapshot_bids ob k js = Inr (foldl json_push_back js
     (map entry_json (map (level_entry ob True) (rev (filter (level_used ob True) [0..<k])))))"
  by (induction k arbitrary: js) (simp_all add: entry_json_def level_entry_def)

lemma snapshot_asks_eq:
  "readable ob \<Longrightarrow> snapshot_asks ob i js = Inr (foldl json_push_back js
     (map entry_json (map (level_entry ob False) (filter (level_used ob False) [i..<num_levels ob]))))"
proof (induction ob i js rule: snapshot_asks.induct)
  case (1 ob i js)
  show ?case
    using "1.prems" "1.IH" [of "side_levels ob False ! i"]
    by (cases "i < num_levels ob")
      (simp_all add: snapshot_asks.simps [of ob i] upt_rec [of i] entry_json_def level_entry_def)
qed

definition snapshot_json :: "'d json \<Rightarrow> 'd json \<Rightarrow> 'd json" where
  "snapshot_json bs as = JObject False [(''bids'', bs), (''asks'', as)] []"

lemma build_snapshot_eq:
  assumes "readable ob"
  shows "build_snapshot ob = Inr (snapshot_json (array_of (map entry_json (rev (entries ob True))))
    (array_of (map entry_json (entries ob False))))"
proof -
  have n: "foldl json_push_back JNone xs = array_of xs" for xs :: "'d json list"
    using push_all_array [of "[]" xs] by (simp add: array_of_def)
  show ?thesis
    using assms by (simp add: build_snapshot_def last_index_eq snapshot_bids_eq snapshot_asks_eq n
        entries_def used_levels_def rev_map set_key_def check_create_json_object_def snapshot_json_def)
qed

text \<open>
  C12: after an admissible feed with prices on the tick grid, the snapshot lists on each side,
  best price first, every distinct resting price with the total size resting there; a side
  without orders is the null value, not an empty array.
\<close>

theorem snapshot_correct:
  assumes "valid_config pmin pmax tick" "new_order_book max_size pmin pmax tick = Inr ob0"
    and "admissible_all pmin pmax [] ms"
    and "\<forall>m \<in> set ms. placing m \<longrightarrow> (msg_price m - pmin) mod tick = 0"
  shows "\<exists>ob. apply_all ob0 ms = Inr ob \<and> build_snapshot ob = Inr (snapshot_json
      (array_of (map entry_json (rev (spec_depth True (foldl spec_step [] ms)))))
      (array_of (map entry_json (spec_depth False (foldl spec_step [] ms))))) \<and>
    array_of ([] :: 'd json list) = JNone"
proof -
  from assms(1-3) obtain ob where ob: "apply_all ob0 ms = Inr ob" "sim ob (foldl spec_step [] ms)"
    "price_min ob = pmin" "tick_size ob = tick" "price_max ob = pmax" by (rule run_sim)
  have t: "\<forall>r \<in> set (foldl spec_step [] ms). on_tick ob (rs_price r)"
    using admissible_run_on_tick [OF assms(3,4)] ob by (auto simp: on_tick_def price_in_range_def)
  show ?thesis
    using ob(1) build_snapshot_eq [OF sim_readable [OF ob(2)]] sim_entries [OF ob(2) t]
    by (auto simp: array_of_def [of "[]"])
qed

theorem snapshot_correct_witness:
  "\<exists>ob. apply_all demo_book [make_mbo 3 CHR ''A'' CHR ''A'' 200 3] = Inr ob \<and>
    build_snapshot ob = Inr (snapshot_json JNone (JObject True [] [level_json 200 3 :: int json]))"
proof -
  let ?ms = "[make_mbo 3 CHR ''A'' CHR ''A'' 200 3]"
  have a: "admissible_all 0 200 [] ?ms" by (simp add: admissible_def spec_find_def in_int64_def)
  have g: "\<forall>m \<in> set ?ms. placing m \<longrightarrow> (msg_price m - 0) mod 100 = 0" by simp
  have s: "foldl spec_step [] ?ms = [\<lparr>rs_id = 3, rs_bid = False, rs_price = 200, rs_size = 3\<rparr>]"
    by (simp add: spec_step_def spec_find_def spec_new_def)
  show ?thesis
    using snapshot_correct [OF demo_config demo_new a g, where 'd = int] unfolding s
    by (simp add: spec_depth_def side_prices_def resting_total_def array_of_def entry_json_def)
qed

subsection \<open>Reading a snapshot back\<close>

lemma int64_wrap: "in_int64 (wrap_int64 i)"
  using signed_take_bit_int_greater_eq_minus_exp [of 63 i] signed_take_bit_int_less_exp [of 63 i]
  by (simp add: in_int64_def wrap_int64_def)

lemma entry_plain: "plain pf (entry_json e)"
  by (simp add: entry_json_def level_json_eq of_integer_def plain_value_def plain_key_def int64_wrap)

text \<open>What a client finds in a snapshot: the prices and sizes listed under a key.\<close>

definition levels_under :: "'d json \<Rightarrow> string \<Rightarrow> ('d json \<times> 'd json) list" where
  "levels_under j key = (case get_key j key of
     JObject arr obj xs \<Rightarrow> map (\<lambda>x. (get_key x ''price'', get_key x ''size'')) xs | _ \<Rightarrow> [])"

definition entry_fields :: "depth_entry \<Rightarrow> 'd json \<times> 'd json" where
  "entry_fields e = (of_integer (de_price e), of_integer (uint (de_size e)))"

definition table_order :: "'d platform \<Rightarrow> bool" where
  "table_order pf \<longleftrightarrow> (\<forall>ks. distinct ks \<longrightarrow> walks_keys pf ks)"

lemma nat_chars_length: "n < 10 ^ k \<Longrightarrow> 0 < k \<Longrightarrow> length (nat_to_chars n) \<le> k"
proof (induction n arbitrary: k rule: nat_to_chars.induct)
  case (1 n)
  show ?case
  proof (cases "n < 10")
    case False
    then obtain j where k: "k = Suc j" "0 < j" using "1.prems" by (cases k; cases "k - 1") auto
    then have "n div 10 < 10 ^ j" using "1.prems" by (simp add: less_mult_imp_div_less mult.commute)
    with "1.IH" [OF False _ k(2)] False k show ?thesis by (subst nat_to_chars.simps) simp
  qed (use "1.prems" in \<open>subst nat_to_chars.simps, simp\<close>)
qed

lemma int64_chars_length: "length (int_to_chars (wrap_int64 i)) \<le> 20"
proof -
  have "nat (- wrap_int64 i) < 10 ^ 19" "nat (wrap_int64 i) < 10 ^ 19" using int64_wrap [of i] unfolding in_int64_def by auto
  from nat_chars_length [OF this(1)] nat_chars_length [OF this(2)] show ?thesis by (simp add: int_to_chars_def)
qed

lemma arranged_entry:
  assumes "table_order pf"
  shows "plain pf (arrange pf (entry_json e))" "length (json_text pf (arrange pf (entry_json e))) \<le> 58"
    "(get_key (arrange pf (entry_json e)) ''price'', get_key (arrange pf (entry_json e)) ''size'') = entry_fields e"
proof -
  have "walks_keys pf [''price'', ''size'']" using assms by (simp add: table_order_def)
  from reorder_two [OF this, of "of_integer (de_price e)" "of_integer (uint (de_size e))"]
  have a: "arrange pf (entry_json e) = JObject False [(''price'', of_integer (de_price e)), (''size'', of_integer (uint (de_size e)))] [] \<or>
    arrange pf (entry_json e) = JObject False [(''size'', of_integer (uint (de_size e))), (''price'', of_integer (de_price e))] []"
    by (auto simp: entry_json_def level_json_eq of_integer_def)
  then show "plain pf (arrange pf (entry_json e))"
    "(get_key (arrange pf (entry_json e)) ''price'', get_key (arrange pf (entry_json e)) ''size'') = entry_fields e"
    using entry_plain [of pf e] by (auto simp: entry_json_def level_json_eq get_key_def entry_fields_def)
  show "length (json_text pf (arrange pf (entry_json e))) \<le> 58"
    using a int64_chars_length [of "de_price e"] int64_chars_length [of "uint (de_size e)"]
    by (auto simp: of_integer_def value_pieces_def)
qed

definition levels_json :: "'d platform \<Rightarrow> depth_entry list \<Rightarrow> 'd json" where
  "levels_json pf es = JObject True [] (map (\<lambda>e. arrange pf (entry_json e)) es)"

lemma levels_json_text: "table_order pf \<Longrightarrow> length (json_text pf (levels_json pf es)) \<le> 59 * length es + 2"
proof -
  assume t: "table_order pf"
  have "length (elems_text pf first (map (\<lambda>e. arrange pf (entry_json e)) es)) \<le> 59 * length es" for first
  proof (induction es arbitrary: first)
    case (Cons e es)
    from Cons.IH [of False] arranged_entry(2) [OF t, of e] show ?case by simp
  qed simp
  from this [of True] show ?thesis by (simp add: levels_json_def)
qed

lemma arranged_snapshot:
  assumes t: "table_order pf" and ne: "bs \<noteq> []" "as \<noteq> []"
  shows "\<exists>obj. arrange pf (snapshot_json (array_of (map entry_json bs)) (array_of (map entry_json as))) = JObject False obj [] \<and>
    plain pf (JObject False obj []) \<and> length (json_text pf (JObject False obj [])) \<le> 59 * (length bs + length as) + 22 \<and>
    levels_under (JObject False obj []) ''bids'' = map entry_fields bs \<and>
    levels_under (JObject False obj []) ''asks'' = map entry_fields as"
proof -
  let ?b = "levels_json pf bs" let ?a = "levels_json pf as"
  have w: "walks_keys pf [''bids'', ''asks'']" "walks_keys pf []" using t by (simp_all add: table_order_def)
  have "arrange pf (array_of (map entry_json es)) = levels_json pf es" if "es \<noteq> []" for es
    using that reorder_empty [OF w(2)] by (simp add: array_of_def levels_json_def comp_def)
  with ne reorder_two [OF w(1), of ?b ?a]
  have a: "arrange pf (snapshot_json (array_of (map entry_json bs)) (array_of (map entry_json as))) = JObject False [(''bids'', ?b), (''asks'', ?a)] [] \<or>
    arrange pf (snapshot_json (array_of (map entry_json bs)) (array_of (map entry_json as))) = JObject False [(''asks'', ?a), (''bids'', ?b)] []"
    by (auto simp: snapshot_json_def)
  have p: "plain pf ?b" "plain pf ?a" using ne arranged_entry(1) [OF t] by (auto simp: levels_json_def)
  have l: "map (\<lambda>x. (get_key x ''price'', get_key x ''size'')) (map (\<lambda>e. arrange pf (entry_json e)) es) = map entry_fields es" for es
    using arranged_entry(3) [OF t] by (simp add: comp_def)
  show ?thesis
    using a
  proof
    assume "arrange pf (snapshot_json (array_of (map entry_json bs)) (array_of (map entry_json as))) = JObject False [(''bids'', ?b), (''asks'', ?a)] []"
    then show ?thesis using p l levels_json_text [OF t, of bs] levels_json_text [OF t, of as]
      by (intro exI [of _ "[(''bids'', ?b), (''asks'', ?a)]"])
        (simp add: plain_key_def levels_under_def get_key_def levels_json_def del: map_map)
  next
    assume "arrange pf (snapshot_json (array_of (map entry_json bs)) (array_of (map entry_json as))) = JObject False [(''asks'', ?a), (''bids'', ?b)] []"
    then show ?thesis using p l levels_json_text [OF t, of bs] levels_json_text [OF t, of as]
      by (intro exI [of _ "[(''asks'', ?a), (''bids'', ?b)]"])
        (simp add: plain_key_def levels_under_def get_key_def levels_json_def del: map_map)
  qed
qed

text \<open>
  C13: when both sides of the book hold an order and the book has at most 1600 levels in use, the text that \<open>get_string_value\<close>
  writes for the snapshot fits its buffer, and a client that parses it finds under each key the prices and sizes of the levels
  of that side, best first, in whatever order the tables of the objects are walked. With 5000 levels the buffer runs
  over (\<open>snapshot_overruns_buffer\<close>).
\<close>

theorem snapshot_reads_back:
  assumes "readable ob" "entries ob True \<noteq> []" "entries ob False \<noteq> []"
    and "length (entries ob True) + length (entries ob False) \<le> 1600" "table_order pf"
  shows "\<exists>snap text v. build_snapshot ob = Inr snap \<and> get_string_value pf snap = Inr text \<and>
    (\<forall>n \<ge> length text. json_parse pf n text = Some (Inr v)) \<and>
    levels_under v ''bids'' = map entry_fields (rev (entries ob True)) \<and> levels_under v ''asks'' = map entry_fields (entries ob False)"
proof -
  let ?snap = "snapshot_json (array_of (map entry_json (rev (entries ob True)))) (array_of (map entry_json (entries ob False)))"
  from arranged_snapshot [OF assms(5), of "rev (entries ob True)" "entries ob False"] assms(2,3) obtain obj where
    o: "arrange pf ?snap = JObject False obj []" "plain pf (JObject False obj [])"
    "length (json_text pf (JObject False obj [])) \<le> 59 * (length (entries ob True) + length (entries ob False)) + 22"
    "levels_under (JObject False obj []) ''bids'' = map entry_fields (rev (entries ob True))"
    "levels_under (JObject False obj []) ''asks'' = map entry_fields (entries ob False)" by (auto simp del: plain.simps json_text.simps)
  have "length (json_text pf (JObject False obj [])) \<le> string_buffer_size" using o(3) assms(4) by (simp add: string_buffer_size_def)
  then have "get_string_value pf ?snap = Inr (json_text pf (JObject False obj []))"
    using writers_text [of pf ?snap] o(1) by (simp add: Let_def)
  with build_snapshot_eq [OF assms(1)] written_parses [OF o(2)] o(4,5) show ?thesis by blast
qed

definition two_sided :: order_book where
  "two_sided = \<lparr>price_min = 0, price_max = 100, tick_size = 100, num_levels = 2,
     bids = [\<lparr>queue = [(0, \<lparr>order_id = 1, order_size = 4\<rparr>)], total_size = 4\<rparr>, empty_level],
     asks = [empty_level, \<lparr>queue = [(1, \<lparr>order_id = 2, order_size = 6\<rparr>)], total_size = 6\<rparr>],
     orders_ref = Map.empty, next_node = 2\<rparr>"

lemma two_sided_readable: "readable two_sided"
  by (simp add: two_sided_def readable_def config_ok_def in_int64_def side_levels_def)

lemma two_sided_entries:
  "entries two_sided True = [\<lparr>de_price = 0, de_size = 4\<rparr>]" "entries two_sided False = [\<lparr>de_price = 100, de_size = 6\<rparr>]"
  by (simp_all add: entries_def used_levels_def two_sided_def level_used_def side_levels_def level_entry_def
      level_price_def empty_level_def upt_rec)

theorem snapshot_reads_back_witness:
  "\<exists>snap text v. build_snapshot two_sided = Inr snap \<and> get_string_value demo_platform snap = Inr text \<and>
    json_parse demo_platform (length text) text = Some (Inr v) \<and>
    levels_under v ''bids'' = [(of_integer 0, of_integer 4)] \<and> levels_under v ''asks'' = [(of_integer 100, of_integer 6)]"
proof -
  have "table_order demo_platform" by (simp add: table_order_def walks_keys_def demo_platform_def)
  with snapshot_reads_back [OF two_sided_readable, of demo_platform] show ?thesis
    by (fastforce simp: two_sided_entries entry_fields_def)
qed

subsection \<open>Books that do not fit\<close>

text \<open>Every level takes at least 20 characters of the text, and a comma from the second on.\<close>

lemma entry_text_length: "20 \<le> length (json_text pf (entry_json e))"
proof -
  have "1 \<le> length (int_to_chars i)" for i
    using int_chars_nonempty [of i] by (cases "int_to_chars i") auto
  from this [of "wrap_int64 (de_price e)"] this [of "wrap_int64 (uint (de_size e))"] show ?thesis
    by (simp add: entry_json_def level_json_eq of_integer_def value_pieces_def)
qed

lemma elems_text_length: "20 * length es \<le> length (elems_text pf first (map entry_json es))"
proof (induction es arbitrary: first)
  case (Cons e es)
  from Cons.IH [of False] entry_text_length [of pf e] show ?case by simp
qed simp

lemma arrange_entry: "iter_order pf = (\<lambda>ks. ks) \<Longrightarrow> arrange pf (entry_json e) = entry_json e"
  by (simp add: entry_json_def level_json_eq of_integer_def reorder_def)

text \<open>
  A snapshot of 5000 or more non-empty levels overruns the buffer of
  \<open>get_string_value\<close>; stated for the table walked in insertion order.
\<close>

theorem snapshot_overruns_buffer:
  assumes "readable ob" "5000 \<le> length (entries ob True) + length (entries ob False)"
    and "iter_order pf = (\<lambda>ks. ks)"
  shows "\<exists>snap. build_snapshot ob = Inr snap \<and> get_string_value pf snap = Inl (UB Buffer_Overflow)"
proof -
  let ?a = "\<lambda>es. array_of (map entry_json es)"
  let ?snap = "snapshot_json (?a (rev (entries ob True))) (?a (entries ob False))"
  have arr: "arrange pf (?a es) = ?a es" for es
    by (simp add: array_of_def arrange_entry [OF assms(3)] reorder_def assms(3) comp_def)
  have len: "20 * length es \<le> length (json_text pf (?a es))" for es
    using elems_text_length [of es pf True] by (simp add: array_of_def)
  have "arrange pf ?snap = ?snap"
    by (simp add: snapshot_json_def reorder_def assms(3) arr)
  moreover have "string_buffer_size < length (json_text pf ?snap)"
    using len [of "rev (entries ob True)"] len [of "entries ob False"] assms(2)
    by (simp add: snapshot_json_def string_buffer_size_def)
  ultimately have "get_string_value pf ?snap = Inl (UB Buffer_Overflow)"
    using writers_text [of pf ?snap, THEN conjunct1] by (simp add: Let_def)
  with build_snapshot_eq [OF assms(1)] show ?thesis by blast
qed

definition wide_book :: "nat \<Rightarrow> order_book" where
  "wide_book n = \<lparr>price_min = 0, price_max = int n - 1, tick_size = 1, num_levels = n,
     bids = replicate n \<lparr>queue = [(0, \<lparr>order_id = 1, order_size = 1\<rparr>)], total_size = 1\<rparr>,
     asks = replicate n empty_level, orders_ref = Map.empty, next_node = 0\<rparr>"

lemma wide_book_readable: "0 < n \<Longrightarrow> n < 2 ^ 31 \<Longrightarrow> readable (wide_book n)"
  by (auto simp: wide_book_def readable_def config_ok_def in_int64_def side_levels_def)

lemma wide_book_used: "used_levels (wide_book n) True = [0..<n]"
  by (simp add: used_levels_def wide_book_def level_used_def side_levels_def)

theorem snapshot_overruns_buffer_witness:
  "\<exists>snap. build_snapshot (wide_book 5000) = Inr snap \<and> get_string_value demo_platform snap = Inl (UB Buffer_Overflow)"
  using snapshot_overruns_buffer [OF wide_book_readable, of 5000 demo_platform] wide_book_used [of 5000]
  by (simp add: entries_def demo_platform_def)

definition deep_level :: "order_book \<Rightarrow> bool \<Rightarrow> nat \<Rightarrow> bool" where
  "deep_level ob b i \<longleftrightarrow> level_used ob b i \<and> 0 < total_size (side_levels ob b ! i)"

definition priced_level :: "order_book \<Rightarrow> bool \<Rightarrow> nat \<Rightarrow> int \<times> level" where
  "priced_level ob b i = (level_price ob i, side_levels ob b ! i)"

lemma collect_bids_eq:
  "readable ob \<Longrightarrow> k \<le> num_levels ob \<Longrightarrow> length out \<le> pair_capacity \<Longrightarrow> collect_bids ob k out =
     (let ls = map (priced_level ob True) (rev (filter (deep_level ob True) [0..<k])) in
      if length out + length ls \<le> pair_capacity then Inr (out @ ls) else Inl (UB Buffer_Overflow))"
proof (induction k arbitrary: out)
  case (Suc k)
  show ?case
  proof (cases "deep_level ob True k")
    case True
    with Suc show ?thesis
      by (cases "length out = pair_capacity") (auto simp: deep_level_def priced_level_def Let_def)
  next
    case False
    then have "\<not> (level_used ob True k \<and> 0 < total_size (side_levels ob True ! k))" by (simp add: deep_level_def)
    with Suc False show ?thesis by (auto simp: Let_def)
  qed
qed simp

lemma collect_asks_eq:
  "readable ob \<Longrightarrow> length out \<le> pair_capacity \<Longrightarrow> collect_asks ob i out =
     (let ls = map (priced_level ob False) (filter (deep_level ob False) [i..<num_levels ob]) in
      if length out + length ls \<le> pair_capacity then Inr (out @ ls) else Inl (UB Buffer_Overflow))"
proof (induction ob i out rule: collect_asks.induct)
  case (1 ob i out)
  show ?case
  proof (cases "i < num_levels ob")
    case True
    then have v: "vec_at (asks ob) i = Inr (side_levels ob False ! i)" using "1.prems"(1) by simp
    show ?thesis
    proof (cases "deep_level ob False i")
      case deep: True
      then have d: "\<not> level_empty (side_levels ob False ! i) \<and> 0 < total_size (side_levels ob False ! i)"
        by (simp add: deep_level_def)
      show ?thesis
        using "1.IH"(1) [OF True v d] "1.prems" True v d deep
        by (auto simp: collect_asks.simps [of ob i] upt_rec [of i] priced_level_def Let_def)
    next
      case shallow: False
      then have d: "\<not> (\<not> level_empty (side_levels ob False ! i) \<and> 0 < total_size (side_levels ob False ! i))"
        by (simp add: deep_level_def)
      show ?thesis
        unfolding collect_asks.simps [of ob i]
        using "1.IH"(2) [OF True v d] "1.prems" True v d shallow
        by (auto simp: upt_rec [of i] Let_def)
    qed
  qed (use "1.prems" in \<open>simp add: collect_asks.simps [of ob i] Let_def\<close>)
qed

text \<open>
  \<open>build_bid_ask_pairs\<close> pairs the levels of the two sides with a positive total, best
  ones first, and pads the shorter side with zeros; with more than 2000 such levels on a side
  it writes past its local arrays.
\<close>

theorem bid_ask_pairs_exact:
  assumes "readable ob"
  shows "build_bid_ask_pairs ob =
    (let bs = map (priced_level ob True) (rev (filter (deep_level ob True) [0..<num_levels ob]));
         as = map (priced_level ob False) (filter (deep_level ob False) [0..<num_levels ob]);
         n = max (length bs) (length as)
     in if length bs \<le> pair_capacity \<and> length as \<le> pair_capacity
        then Inr (json_of_pairs [(''bid_ask_pairs'', array_of (map (pair_json bs as) [0..<n])),
               (''num_levels'', of_integer (int n))])
        else Inl (UB Buffer_Overflow))"
proof -
  have n: "foldl (\<lambda>js i. json_push_back js (f i)) JNone is = array_of (map f is)" for f :: "nat \<Rightarrow> 'd json" and "is"
  proof -
    have "foldl (\<lambda>js i. json_push_back js (f i)) a is = foldl json_push_back a (map f is)" for a
      by (induction "is" arbitrary: a) simp_all
    then show ?thesis using push_all_array [of "[]" "map f is"] by (simp add: array_of_def)
  qed
  show ?thesis
    using assms by (simp add: build_bid_ask_pairs_def last_index_eq collect_bids_eq collect_asks_eq n Let_def)
qed

theorem bid_ask_pairs_exact_witness:
  "build_bid_ask_pairs (wide_book 2001) = (Inl (UB Buffer_Overflow) :: int json result)"
proof -
  have "filter (deep_level (wide_book 2001) True) [0..<2001] = [0..<2001]"
    by (simp add: deep_level_def wide_book_def level_used_def side_levels_def)
  then show ?thesis
    using bid_ask_pairs_exact [OF wide_book_readable, of 2001]
    by (simp add: Let_def pair_capacity_def wide_book_def)
qed

end
