(* ===== verification/Ring.thy ===== *)
theory Ring
  imports Prelude
begin

section \<open>Ring buffers and bounded FIFO queues\<close>

text \<open>
  The object pool and the message queue of the server keep their items in an array that two
  indices walk round, modulo its length. \<open>ring_items\<close> reads the occupied part of such
  an array; the lemmas here say what writing at its end and reading at its start do to it.
  The locale \<open>bounded_fifo\<close> is the contract the clients of both rely on.
\<close>

subsection \<open>Reading a ring\<close>

definition ring_items :: "'a list \<Rightarrow> nat \<Rightarrow> nat \<Rightarrow> 'a list" where
  "ring_items xs start n = map (\<lambda>j. xs ! ((start + j) mod length xs)) [0..<n]"

lemma length_ring_items [simp]: "length (ring_items xs start n) = n"
  by (simp add: ring_items_def)

lemma ring_items_0 [simp]: "ring_items xs start 0 = []"
  by (simp add: ring_items_def)

lemma ring_items_Suc:
  "ring_items xs start (Suc n) = xs ! (start mod length xs) # ring_items xs ((start + 1) mod length xs) n"
proof -
  have "[0..<Suc n] = 0 # map Suc [0..<n]" by (simp add: upt_conv_Cons map_Suc_upt del: upt_Suc)
  then show ?thesis by (simp add: ring_items_def mod_simps del: upt_Suc)
qed

text \<open>Indices of a window no longer than the ring are distinct.\<close>

lemma ring_index_inj:
  assumes "a < b" "b < a + n" shows "a mod n \<noteq> b mod (n::nat)"
proof
  assume "a mod n = b mod n"
  then have "n dvd b - a" using assms(1) by (metis mod_eq_dvd_iff_nat less_imp_le_nat)
  with assms show False by (auto dest: dvd_imp_le)
qed

lemma ring_index_eq:
  assumes "d \<le> a" "d \<le> b" "a < d + n" "b < d + n" "a mod n = b mod (n::nat)" shows "a = b"
  using ring_index_inj [of a b n] ring_index_inj [of b a n] assms by (cases a b rule: linorder_cases) auto

text \<open>Writing at the first free index appends.\<close>

lemma ring_items_push:
  assumes "n < length xs"
  shows "ring_items (xs[(start + n) mod length xs := x]) start (Suc n) = ring_items xs start n @ [x]"
proof -
  have "(start + j) mod length xs \<noteq> (start + n) mod length xs" if "j < n" for j
    using ring_index_inj [of "start + j" "start + n" "length xs"] that assms by simp
  moreover have "(start + n) mod length xs < length xs" using assms by (cases xs) (simp_all add: mod_less_divisor del: mod_less)
  ultimately show ?thesis by (auto simp: ring_items_def) (metis nth_list_update_neq)
qed

text \<open>Writing outside the occupied part changes nothing that is read.\<close>

lemma ring_items_outside:
  assumes "\<And>j. j < n \<Longrightarrow> (start + j) mod length xs \<noteq> i"
  shows "ring_items (xs[i := x]) start n = ring_items xs start n"
  using assms by (auto simp: ring_items_def nth_list_update) (metis nth_list_update_neq)

lemma ring_items_pop:
  assumes "Suc n \<le> length xs"
  shows "ring_items (xs[start mod length xs := x]) ((start + 1) mod length xs) n =
    ring_items xs ((start + 1) mod length xs) n"
proof (rule ring_items_outside)
  fix j assume "j < n"
  then show "((start + 1) mod length xs + j) mod length xs \<noteq> start mod length xs"
    using ring_index_inj [of start "start + 1 + j" "length xs"] assms by (simp add: mod_simps)
qed

subsection \<open>The contract of a bounded FIFO\<close>

text \<open>
  \<open>put\<close> fails with an error of the provider when \<open>cap\<close> items are held; \<open>get\<close>
  returns nothing from an empty queue and the oldest item otherwise.
\<close>

locale bounded_fifo =
  fixes ok :: "'q \<Rightarrow> bool" and items :: "'q \<Rightarrow> 'a list" and cap :: "'q \<Rightarrow> nat"
    and put :: "'q \<Rightarrow> 'a \<Rightarrow> 'q result" and get :: "'q \<Rightarrow> 'a option \<times> 'q"
  assumes items_bound: "ok q \<Longrightarrow> length (items q) \<le> cap q"
    and put_ok: "ok q \<Longrightarrow> length (items q) < cap q \<Longrightarrow>
      \<exists>q'. put q x = Inr q' \<and> ok q' \<and> items q' = items q @ [x] \<and> cap q' = cap q"
    and put_full: "ok q \<Longrightarrow> length (items q) = cap q \<Longrightarrow> \<exists>e. put q x = Inl e"
    and get_empty: "ok q \<Longrightarrow> items q = [] \<Longrightarrow> get q = (None, q)"
    and get_item: "ok q \<Longrightarrow> items q = x # xs \<Longrightarrow>
      fst (get q) = Some x \<and> ok (snd (get q)) \<and> items (snd (get q)) = xs \<and> cap (snd (get q)) = cap q"
begin

primrec put_all :: "'q \<Rightarrow> 'a list \<Rightarrow> 'q result" where
  "put_all q [] = Inr q"
| "put_all q (x # xs) = bindE (put q x) (\<lambda>q'. put_all q' xs)"

primrec get_n :: "nat \<Rightarrow> 'q \<Rightarrow> 'a list \<times> 'q" where
  "get_n 0 q = ([], q)"
| "get_n (Suc n) q = (case get q of (None, q') \<Rightarrow> ([], q')
     | (Some x, q') \<Rightarrow> (case get_n n q' of (xs, q'') \<Rightarrow> (x # xs, q'')))"

lemma put_all_fits:
  "ok q \<Longrightarrow> length (items q) + length xs \<le> cap q \<Longrightarrow>
     \<exists>q'. put_all q xs = Inr q' \<and> ok q' \<and> items q' = items q @ xs \<and> cap q' = cap q"
proof (induction xs arbitrary: q)
  case (Cons x xs)
  then obtain q1 where q1: "put q x = Inr q1" "ok q1" "items q1 = items q @ [x]" "cap q1 = cap q"
    using put_ok [of q x] by auto
  with Cons.IH [of q1] Cons.prems show ?case by simp
qed auto

lemma put_all_overflow:
  "ok q \<Longrightarrow> cap q < length (items q) + length xs \<Longrightarrow> \<exists>e. put_all q xs = Inl e"
proof (induction xs arbitrary: q)
  case Nil
  then show ?case using items_bound [of q] by simp
next
  case (Cons x xs)
  show ?case
  proof (cases "length (items q) < cap q")
    case True
    then obtain q1 where "put q x = Inr q1" "ok q1" "items q1 = items q @ [x]" "cap q1 = cap q"
      using put_ok [OF Cons.prems(1)] by blast
    with Cons.IH [of q1] Cons.prems show ?thesis by simp
  next
    case False
    with put_full [OF Cons.prems(1), of x] items_bound [OF Cons.prems(1)] show ?thesis by auto
  qed
qed

lemma get_n_items:
  "ok q \<Longrightarrow> fst (get_n n q) = take n (items q) \<and> ok (snd (get_n n q)) \<and>
     items (snd (get_n n q)) = drop n (items q)"
proof (induction n arbitrary: q)
  case (Suc n)
  show ?case
  proof (cases "items q")
    case Nil
    with get_empty [OF Suc.prems] Suc.prems show ?thesis by simp
  next
    case (Cons x xs)
    with get_item [OF Suc.prems Cons] Suc.IH [of "snd (get q)"] show ?thesis
      by (cases "get q") (auto split: prod.splits)
  qed
qed simp

text \<open>What goes into an empty queue comes out in the same order.\<close>

lemma put_get_fifo:
  assumes "ok q" "items q = []" "length xs \<le> cap q"
  shows "\<exists>q'. put_all q xs = Inr q' \<and> fst (get_n (length xs) q') = xs \<and>
    items (snd (get_n (length xs) q')) = []"
proof -
  from put_all_fits [OF assms(1), of xs] assms obtain q' where "put_all q xs = Inr q'" "ok q'" "items q' = xs"
    by auto
  with get_n_items [of q' "length xs"] show ?thesis by auto
qed

end

end
