(* ===== verification/MPSCQueue.thy ===== *)
theory MPSCQueue
  imports Ring
begin

section \<open>The multi-producer single-consumer queue (src/core/queue/mpsc_queue.h)\<close>

text \<open>
  The queue twice. First as one thread sees it: \<open>push\<close> and \<open>pop\<close> run to their end,
  and the queue is a bounded FIFO. Then as several threads see it: every atomic access of
  \<open>push\<close> and \<open>pop\<close> is a step of its own, any number of producers and the one
  consumer interleave, and the memory is sequentially consistent. An item is a pointer: a
  null pointer is \<open>None\<close>.
\<close>

subsection \<open>One thread\<close>

record 'a pool_buffer =
  available_items :: "'a option list"
  head_idx :: nat
  tail_idx :: nat
  size_cnt :: nat
  queue_name :: string

definition new_mpsc :: "nat \<Rightarrow> string \<Rightarrow> 'a pool_buffer" where
  "new_mpsc n name = \<lparr>available_items = replicate n None, head_idx = 0, tail_idx = 0, size_cnt = 0,
     queue_name = name\<rparr>"

definition capacity :: "'a pool_buffer \<Rightarrow> nat" where
  "capacity b = length (available_items b)"

text \<open>The compare-and-swap loop, run by one thread, succeeds at once.\<close>

definition get_current_head :: "'a pool_buffer \<Rightarrow> nat \<times> 'a pool_buffer" where
  "get_current_head b = (head_idx b, b\<lparr>head_idx := (head_idx b + 1) mod capacity b\<rparr>)"

definition push :: "'a pool_buffer \<Rightarrow> 'a option \<Rightarrow> 'a pool_buffer result" where
  "push b item =
     (if item \<noteq> None then
        if size_cnt b = capacity b
        then Inl (Throw (Runtime_Error (''Queue is full: ['' @ queue_name b @ '']'')))
        else
          (case get_current_head b of (head_index, b1) \<Rightarrow>
             let b2 = b1\<lparr>available_items := (available_items b1)[head_index := item]\<rparr>
             in Inr (b2\<lparr>size_cnt := size_cnt b2 + 1\<rparr>))
      else Inl (Throw (Runtime_Error
        (''Attempt to release a null item back to the cache pool: ['' @ queue_name b @ '']''))))"

definition pop :: "'a pool_buffer \<Rightarrow> 'a option \<times> 'a pool_buffer" where
  "pop b =
     (if size_cnt b = 0 then (None, b)
      else
        let tail_index = tail_idx b; item = available_items b ! tail_index in
        if item = None then (None, b)
        else
          let b1 = b\<lparr>available_items := (available_items b)[tail_index := None]\<rparr>;
              b2 = b1\<lparr>tail_idx := (tail_index + 1) mod capacity b\<rparr>
          in (item, b2\<lparr>size_cnt := size_cnt b2 - 1\<rparr>))"

definition queue_ok :: "'a pool_buffer \<Rightarrow> bool" where
  "queue_ok b \<longleftrightarrow> 0 < capacity b \<and> size_cnt b \<le> capacity b \<and> tail_idx b < capacity b \<and>
     head_idx b = (tail_idx b + size_cnt b) mod capacity b \<and>
     (\<forall>x \<in> set (ring_items (available_items b) (tail_idx b) (size_cnt b)). x \<noteq> None)"

definition queue_items :: "'a pool_buffer \<Rightarrow> 'a list" where
  "queue_items b = map the (ring_items (available_items b) (tail_idx b) (size_cnt b))"

lemma new_mpsc_ok: "0 < n \<Longrightarrow> queue_ok (new_mpsc n name)"
  and new_mpsc_items: "queue_items (new_mpsc n name) = []"
  and new_mpsc_capacity: "capacity (new_mpsc n name) = n"
  by (simp_all add: new_mpsc_def queue_ok_def capacity_def queue_items_def)

lemma push_ok:
  assumes ok: "queue_ok b" and room: "size_cnt b < capacity b"
  shows "\<exists>b'. push b (Some x) = Inr b' \<and> queue_ok b' \<and> queue_items b' = queue_items b @ [x] \<and>
    capacity b' = capacity b"
proof -
  let ?b = "b\<lparr>head_idx := (head_idx b + 1) mod capacity b,
    available_items := (available_items b)[head_idx b := Some x], size_cnt := size_cnt b + 1\<rparr>"
  have p: "push b (Some x) = Inr ?b" using room by (simp add: push_def get_current_head_def)
  have r: "ring_items (available_items ?b) (tail_idx b) (Suc (size_cnt b)) =
      ring_items (available_items b) (tail_idx b) (size_cnt b) @ [Some x]"
    using ring_items_push [of "size_cnt b" "available_items b" "tail_idx b" "Some x"] ok room
    by (simp add: queue_ok_def capacity_def)
  from ok room have "queue_ok ?b"
    using r by (auto simp: queue_ok_def capacity_def mod_simps)
  moreover have "queue_items ?b = queue_items b @ [x]" using r by (simp add: queue_items_def)
  ultimately show ?thesis using p by (auto simp: capacity_def)
qed

lemma pop_item:
  assumes ok: "queue_ok b" and i: "queue_items b = x # xs"
  shows "fst (pop b) = Some x \<and> queue_ok (snd (pop b)) \<and> queue_items (snd (pop b)) = xs \<and>
    capacity (snd (pop b)) = capacity b"
proof -
  from i obtain n where n: "size_cnt b = Suc n" by (cases "size_cnt b") (auto simp: queue_items_def)
  from ok have t: "tail_idx b mod length (available_items b) = tail_idx b"
    and c: "Suc n \<le> length (available_items b)" by (simp_all add: queue_ok_def capacity_def n)
  note r = ring_items_Suc [of "available_items b" "tail_idx b" n]
  have x: "available_items b ! tail_idx b = Some x"
    using i ok by (auto simp: queue_items_def queue_ok_def n r t)
  have r': "ring_items ((available_items b)[tail_idx b := None]) (Suc (tail_idx b) mod length (available_items b)) n =
      ring_items (available_items b) (Suc (tail_idx b) mod length (available_items b)) n"
    using ring_items_pop [OF c, of "tail_idx b" None] by (simp add: t)
  have p: "pop b = (Some x, b\<lparr>available_items := (available_items b)[tail_idx b := None],
      tail_idx := (tail_idx b + 1) mod capacity b, size_cnt := n\<rparr>)"
    by (simp add: pop_def n x Let_def)
  show ?thesis
    using ok i by (auto simp: p queue_ok_def capacity_def queue_items_def n r r' mod_simps)
qed

lemma queue_items_empty: "queue_items b = [] \<longleftrightarrow> size_cnt b = 0"
  by (simp add: queue_items_def flip: length_0_conv)

interpretation mq: bounded_fifo queue_ok queue_items capacity "\<lambda>b x. push b (Some x)" pop
proof unfold_locales
  fix q :: "'a pool_buffer"
  show "queue_ok q \<Longrightarrow> length (queue_items q) \<le> capacity q" by (simp add: queue_ok_def queue_items_def)
  show "queue_ok q \<Longrightarrow> queue_items q = [] \<Longrightarrow> pop q = (None, q)" by (simp add: queue_items_empty pop_def)
next
  fix q :: "'a pool_buffer" and x
  assume "queue_ok q" "length (queue_items q) < capacity q"
  then show "\<exists>q'. push q (Some x) = Inr q' \<and> queue_ok q' \<and> queue_items q' = queue_items q @ [x] \<and>
      capacity q' = capacity q" by (intro push_ok) (simp_all add: queue_items_def)
next
  fix q :: "'a pool_buffer" and x
  assume "length (queue_items q) = capacity q"
  then show "\<exists>e. push q (Some x) = Inl e" by (simp add: push_def queue_items_def)
next
  fix q :: "'a pool_buffer" and x xs
  assume "queue_ok q" "queue_items q = x # xs"
  then show "fst (pop q) = Some x \<and> queue_ok (snd (pop q)) \<and> queue_items (snd (pop q)) = xs \<and>
      capacity (snd (pop q)) = capacity q" by (rule pop_item)
qed

text \<open>
  Used by one thread, the queue returns what was pushed in the same order: any list of
  at most \<open>Size\<close> items pushed into a new queue comes out of as many pops unchanged.
\<close>

theorem mpsc_sequential_fifo:
  assumes "0 < n" "length xs \<le> n"
  shows "\<exists>q. mq.put_all (new_mpsc n name) xs = Inr q \<and> fst (mq.get_n (length xs) q) = xs"
  using mq.put_get_fifo [OF new_mpsc_ok [OF assms(1), of name] new_mpsc_items, of xs] assms(2)
  by (auto simp: new_mpsc_capacity)

theorem mpsc_sequential_fifo_witness:
  "\<exists>q. mq.put_all (new_mpsc 3 ''q'') [10::nat, 20] = Inr q \<and> fst (mq.get_n 2 q) = [10, 20]"
  using mpsc_sequential_fifo [of 3 "[10::nat, 20]" "''q''"] by (simp add: numeral_2_eq_2)

end
