(* ===== verification/MPSC_Threads.thy ===== *)
theory MPSC_Threads
  imports MPSCQueue
begin

section \<open>The queue with several threads\<close>

text \<open>
  \<open>push\<close> and \<open>pop\<close> of \<open>mpsc_queue.h\<close> cut at their atomic accesses. A producer
  checks the size, advances the head with a compare-and-swap, stores its pointer and
  increments the size; the consumer checks the size, loads the pointer at the tail, clears
  the slot, advances the tail and decrements the size. The failed iterations of the
  compare-and-swap loop change nothing shared and are left out. Two fields of the state
  record the history: the items in the order in which their slots were claimed, and the
  items \<open>pop\<close> has returned.
\<close>

datatype 'a producer = P_Idle | P_Checked 'a | P_Claimed 'a nat | P_Stored

datatype 'a consumer = C_Idle | C_Nonempty | C_Loaded 'a nat | C_Cleared 'a nat | C_Advanced 'a

record ('p, 'a) threads =
  buf :: "'a pool_buffer"
  prod :: "'p \<Rightarrow> 'a producer"
  cons :: "'a consumer"
  claims :: "'a list"
  taken :: "'a list"

definition start :: "nat \<Rightarrow> string \<Rightarrow> ('p, 'a) threads" where
  "start n name = \<lparr>buf = new_mpsc n name, prod = \<lambda>_. P_Idle, cons = C_Idle, claims = [], taken = []\<rparr>"

inductive qstep :: "('p, 'a) threads \<Rightarrow> ('p, 'a) threads \<Rightarrow> bool" where
  push_full: "prod s p = P_Idle \<Longrightarrow> size_cnt (buf s) = capacity (buf s) \<Longrightarrow> qstep s s"
| push_check: "prod s p = P_Idle \<Longrightarrow> size_cnt (buf s) \<noteq> capacity (buf s) \<Longrightarrow>
    qstep s (s\<lparr>prod := (prod s)(p := P_Checked x)\<rparr>)"
| push_claim: "prod s p = P_Checked x \<Longrightarrow> get_current_head (buf s) = (i, b) \<Longrightarrow>
    qstep s (s\<lparr>buf := b, prod := (prod s)(p := P_Claimed x i), claims := claims s @ [x]\<rparr>)"
| push_store: "prod s p = P_Claimed x i \<Longrightarrow>
    qstep s (s\<lparr>buf := (buf s)\<lparr>available_items := (available_items (buf s))[i := Some x]\<rparr>,
               prod := (prod s)(p := P_Stored)\<rparr>)"
| push_count: "prod s p = P_Stored \<Longrightarrow>
    qstep s (s\<lparr>buf := (buf s)\<lparr>size_cnt := size_cnt (buf s) + 1\<rparr>, prod := (prod s)(p := P_Idle)\<rparr>)"
| pop_empty: "cons s = C_Idle \<Longrightarrow> size_cnt (buf s) = 0 \<Longrightarrow> qstep s s"
| pop_check: "cons s = C_Idle \<Longrightarrow> size_cnt (buf s) \<noteq> 0 \<Longrightarrow> qstep s (s\<lparr>cons := C_Nonempty\<rparr>)"
| pop_null: "cons s = C_Nonempty \<Longrightarrow> available_items (buf s) ! tail_idx (buf s) = None \<Longrightarrow>
    qstep s (s\<lparr>cons := C_Idle\<rparr>)"
| pop_load: "cons s = C_Nonempty \<Longrightarrow> available_items (buf s) ! tail_idx (buf s) = Some x \<Longrightarrow>
    qstep s (s\<lparr>cons := C_Loaded x (tail_idx (buf s))\<rparr>)"
| pop_clear: "cons s = C_Loaded x i \<Longrightarrow>
    qstep s (s\<lparr>buf := (buf s)\<lparr>available_items := (available_items (buf s))[i := None]\<rparr>,
               cons := C_Cleared x i\<rparr>)"
| pop_advance: "cons s = C_Cleared x i \<Longrightarrow>
    qstep s (s\<lparr>buf := (buf s)\<lparr>tail_idx := (i + 1) mod capacity (buf s)\<rparr>, cons := C_Advanced x\<rparr>)"
| pop_count: "cons s = C_Advanced x \<Longrightarrow>
    qstep s (s\<lparr>buf := (buf s)\<lparr>size_cnt := size_cnt (buf s) - 1\<rparr>, cons := C_Idle,
               taken := taken s @ [x]\<rparr>)"

text \<open>The claims whose slot the consumer has emptied, and the claims still outstanding.\<close>

definition cleared :: "('p, 'a) threads \<Rightarrow> nat" where
  "cleared s = length (taken s) + (case cons s of C_Cleared _ _ \<Rightarrow> 1 | C_Advanced _ \<Rightarrow> 1 | _ \<Rightarrow> 0)"

definition outstanding :: "('p, 'a) threads \<Rightarrow> nat" where
  "outstanding s = length (claims s) - cleared s"

text \<open>The runs in which the outstanding claims never exceed the capacity.\<close>

inductive bounded_run :: "nat \<Rightarrow> string \<Rightarrow> ('p, 'a) threads \<Rightarrow> bool" for n name where
  run_start: "bounded_run n name (start n name)"
| run_step: "bounded_run n name s \<Longrightarrow> qstep s s' \<Longrightarrow> outstanding s' \<le> n \<Longrightarrow> bounded_run n name s'"

inductive run :: "nat \<Rightarrow> string \<Rightarrow> ('p, 'a) threads \<Rightarrow> bool" for n name where
  any_start: "run n name (start n name)"
| any_step: "run n name s \<Longrightarrow> qstep s s' \<Longrightarrow> run n name s'"

subsection \<open>The invariant\<close>

text \<open>\<open>cell s t i\<close>: claim number \<open>t\<close> is outstanding and owns slot \<open>i\<close>.\<close>

definition cell :: "('p, 'a) threads \<Rightarrow> nat \<Rightarrow> nat \<Rightarrow> bool" where
  "cell s t i \<longleftrightarrow> cleared s \<le> t \<and> t < length (claims s) \<and> i = t mod capacity (buf s)"

definition consumer_ok :: "('p, 'a) threads \<Rightarrow> bool" where
  "consumer_ok s = (let b = buf s; k = length (taken s) in
     tail_idx b = (k + (case cons s of C_Advanced _ \<Rightarrow> 1 | _ \<Rightarrow> 0)) mod capacity b \<and>
     (case cons s of C_Idle \<Rightarrow> True | C_Nonempty \<Rightarrow> True
      | C_Loaded x i \<Rightarrow> i = tail_idx b \<and> available_items b ! i = Some x \<and> k < length (claims s) \<and> x = claims s ! k
      | C_Cleared x i \<Rightarrow> i = tail_idx b \<and> k < length (claims s) \<and> x = claims s ! k
      | C_Advanced x \<Rightarrow> k < length (claims s) \<and> x = claims s ! k) \<and>
     (cons s \<noteq> C_Idle \<longrightarrow> 0 < size_cnt b))"

definition threads_inv :: "('p, 'a) threads \<Rightarrow> bool" where
  "threads_inv s \<longleftrightarrow> 0 < capacity (buf s) \<and>
     head_idx (buf s) = length (claims s) mod capacity (buf s) \<and>
     cleared s \<le> length (claims s) \<and> length (claims s) \<le> cleared s + capacity (buf s) \<and>
     (\<forall>i < capacity (buf s). \<forall>x. available_items (buf s) ! i = Some x \<longrightarrow>
        (\<exists>t. cell s t i \<and> x = claims s ! t)) \<and>
     (\<forall>p x i. prod s p = P_Claimed x i \<longrightarrow>
        available_items (buf s) ! i = None \<and> (\<exists>t. cell s t i \<and> x = claims s ! t)) \<and>
     (\<forall>p q x y i. prod s p = P_Claimed x i \<longrightarrow> prod s q = P_Claimed y i \<longrightarrow> p = q) \<and>
     (\<forall>t i. cell s t i \<longrightarrow> available_items (buf s) ! i \<noteq> None \<or>
        (\<exists>p. prod s p = P_Claimed (claims s ! t) i)) \<and>
     take (length (taken s)) (claims s) = taken s \<and> consumer_ok s"

lemma inv_basic:
  assumes "threads_inv s"
  shows "0 < capacity (buf s)" "head_idx (buf s) = length (claims s) mod capacity (buf s)"
    "cleared s \<le> length (claims s)" "length (claims s) \<le> cleared s + capacity (buf s)"
    "take (length (taken s)) (claims s) = taken s" "consumer_ok s"
  using assms unfolding threads_inv_def by blast+

lemma cell_inj:
  assumes "threads_inv s" "cell s t i" "cell s t' i" shows "t = t'"
proof (rule ring_index_eq [of "cleared s" t t' "capacity (buf s)"])
  show "cleared s \<le> t" "cleared s \<le> t'" "t mod capacity (buf s) = t' mod capacity (buf s)"
    "t < cleared s + capacity (buf s)" "t' < cleared s + capacity (buf s)"
    using assms(2,3) inv_basic(4) [OF assms(1)] by (simp_all add: cell_def)
qed

lemma cell_index: "threads_inv s \<Longrightarrow> cell s t i \<Longrightarrow> i < capacity (buf s)"
  using inv_basic(1) [of s] by (simp add: cell_def)

lemma threads_inv_start: "0 < n \<Longrightarrow> threads_inv (start n name)"
  by (simp add: threads_inv_def start_def new_mpsc_def capacity_def cleared_def cell_def consumer_ok_def)

lemma inv_claim:
  assumes inv: "threads_inv s" and p: "prod s p = P_Checked x" and h: "get_current_head (buf s) = (i, b)"
    and o: "outstanding (s\<lparr>buf := b, prod := (prod s)(p := P_Claimed x i), claims := claims s @ [x]\<rparr>) \<le> capacity (buf s)"
  shows "threads_inv (s\<lparr>buf := b, prod := (prod s)(p := P_Claimed x i), claims := claims s @ [x]\<rparr>)"
    (is "threads_inv ?s")
proof -
  let ?n = "capacity (buf s)" and ?k = "length (claims s)"
  from h have b: "b = (buf s)\<lparr>head_idx := (head_idx (buf s) + 1) mod ?n\<rparr>" and i: "i = head_idx (buf s)"
    by (auto simp: get_current_head_def)
  from inv have n: "0 < ?n" and hd: "i = ?k mod ?n" and c: "cleared s \<le> ?k" "?k \<le> cleared s + ?n"
    by (simp_all add: threads_inv_def i)
  have cl: "cleared ?s = cleared s" by (simp add: cleared_def)
  from o c have room: "?k < cleared s + ?n" by (simp add: outstanding_def cl)
  have cell': "cell ?s t j \<longleftrightarrow> cell s t j \<or> (t = ?k \<and> j = i)" for t j
    unfolding cell_def cl using c hd by (auto simp: b capacity_def less_Suc_eq)
  have fresh: "\<not> cell s t i" for t
    using ring_index_inj [of t ?k ?n] room by (auto simp: cell_def hd)
  have claims': "cell s t j \<Longrightarrow> claims ?s ! t = claims s ! t" for t j
    by (simp add: cell_def nth_append)
  have i_lt: "i < ?n" using n hd by simp
  have empty: "available_items (buf s) ! i = None"
    using inv fresh i_lt unfolding threads_inv_def by (metis not_None_eq)
  have nocl: "prod s q \<noteq> P_Claimed y i" for q y
    using inv fresh unfolding threads_inv_def by blast
  have cons: "consumer_ok ?s"
    using inv_basic(6) [OF inv] by (auto simp: consumer_ok_def Let_def b capacity_def nth_append
        split: consumer.splits)
  have tk: "take (length (taken s)) (claims s @ [x]) = taken s"
  proof -
    have "length (taken s) \<le> ?k" using c by (simp add: cleared_def)
    then show ?thesis using inv by (simp add: threads_inv_def)
  qed
  show ?thesis
    unfolding threads_inv_def
  proof (intro conjI allI impI)
    show "head_idx (buf ?s) = length (claims ?s) mod capacity (buf ?s)"
      using mod_Suc_eq [of ?k ?n] hd by (simp add: b capacity_def i)
    show "\<exists>t. cell ?s t j \<and> y = claims ?s ! t"
      if "j < capacity (buf ?s)" "available_items (buf ?s) ! j = Some y" for j y
    proof -
      from that have "j < ?n" "available_items (buf s) ! j = Some y" by (simp_all add: b capacity_def)
      with inv obtain t where "cell s t j" "y = claims s ! t" unfolding threads_inv_def by blast
      with claims' cell' show ?thesis by metis
    qed
    fix q y j assume q: "prod ?s q = P_Claimed y j"
    show "available_items (buf ?s) ! j = None"
      using q inv empty by (auto simp: b threads_inv_def split: if_splits)
    show "\<exists>t. cell ?s t j \<and> y = claims ?s ! t"
    proof (cases "q = p")
      case True
      with q cell' show ?thesis by (intro exI [of _ ?k]) auto
    next
      case False
      with q inv obtain t where "cell s t j" "y = claims s ! t" unfolding threads_inv_def by force
      with claims' cell' show ?thesis by metis
    qed
    fix r z assume r: "prod ?s r = P_Claimed z j"
    show "q = r"
      using q r inv nocl unfolding threads_inv_def by (auto split: if_splits)
  next
    fix t j assume "cell ?s t j"
    then consider "cell s t j" | "t = ?k" "j = i" using cell' by blast
    then show "available_items (buf ?s) ! j \<noteq> None \<or> (\<exists>q. prod ?s q = P_Claimed (claims ?s ! t) j)"
    proof cases
      case 1
      with inv consider "available_items (buf s) ! j \<noteq> None" | q where "prod s q = P_Claimed (claims s ! t) j"
        unfolding threads_inv_def by blast
      then show ?thesis
      proof cases
        case 2
        with p have "q \<noteq> p" by auto
        with 2 claims' [OF 1] show ?thesis by (intro disjI2 exI [of _ q]) simp
      qed (simp add: b)
    next
      case 2
      then show ?thesis by (intro disjI2 exI [of _ p]) simp
    qed
  qed (use n c room tk cons cl in \<open>simp_all add: b capacity_def\<close>)
qed

lemma inv_store:
  assumes inv: "threads_inv s" and p: "prod s p = P_Claimed x i"
  shows "threads_inv (s\<lparr>buf := (buf s)\<lparr>available_items := (available_items (buf s))[i := Some x]\<rparr>,
    prod := (prod s)(p := P_Stored)\<rparr>)" (is "threads_inv ?s")
proof -
  from inv p obtain t where t: "cell s t i" "x = claims s ! t" and e: "available_items (buf s) ! i = None"
    unfolding threads_inv_def by metis
  from cell_index [OF inv t(1)] have i: "i < length (available_items (buf s))" by (simp add: capacity_def)
  have same: "cell ?s = cell s" "cleared ?s = cleared s" "capacity (buf ?s) = capacity (buf s)"
    by (simp_all add: cell_def fun_eq_iff cleared_def capacity_def)
  have cons: "consumer_ok ?s"
  proof (cases "cons s")
    case (C_Loaded y j)
    with inv_basic(6) [OF inv] e have "j \<noteq> i" by (auto simp: consumer_ok_def Let_def)
    with C_Loaded inv_basic(6) [OF inv] show ?thesis
      by (auto simp: consumer_ok_def Let_def capacity_def)
  qed (use inv_basic(6) [OF inv] in \<open>simp_all add: consumer_ok_def Let_def capacity_def\<close>)
  show ?thesis
    unfolding threads_inv_def
  proof (intro conjI allI impI)
    show "\<exists>t. cell ?s t j \<and> y = claims ?s ! t"
      if "j < capacity (buf ?s)" "available_items (buf ?s) ! j = Some y" for j y
      using that t i inv unfolding same threads_inv_def by (cases "j = i") (auto simp: capacity_def)
    fix q y j assume q: "prod ?s q = P_Claimed y j"
    then have q': "q \<noteq> p" "prod s q = P_Claimed y j" by (auto split: if_splits)
    with p inv have "j \<noteq> i" unfolding threads_inv_def by metis
    with q' inv show "available_items (buf ?s) ! j = None" by (simp add: threads_inv_def)
    show "\<exists>t. cell ?s t j \<and> y = claims ?s ! t" using q' inv unfolding same threads_inv_def by simp
    fix r z assume "prod ?s r = P_Claimed z j"
    with q inv show "q = r" unfolding threads_inv_def by (auto split: if_splits)
  next
    fix t' j assume c: "cell ?s t' j"
    show "available_items (buf ?s) ! j \<noteq> None \<or> (\<exists>q. prod ?s q = P_Claimed (claims ?s ! t') j)"
    proof (cases "j = i")
      case False
      from c inv consider "available_items (buf s) ! j \<noteq> None" | q where "prod s q = P_Claimed (claims s ! t') j"
        unfolding same threads_inv_def by blast
      then show ?thesis
      proof cases
        case 2
        with p False have "q \<noteq> p" by auto
        with 2 show ?thesis by (intro disjI2 exI [of _ q]) simp
      qed (use False in simp)
    qed (use i in simp)
  qed (use inv_basic [OF inv] cons same in simp_all)
qed

lemma inv_load:
  assumes inv: "threads_inv s" and c: "cons s = C_Nonempty"
    and x: "available_items (buf s) ! tail_idx (buf s) = Some x"
  shows "threads_inv (s\<lparr>cons := C_Loaded x (tail_idx (buf s))\<rparr>)"
proof -
  let ?t = "tail_idx (buf s)" and ?k = "length (taken s)"
  from inv c have tl: "?t = ?k mod capacity (buf s)" "0 < capacity (buf s)" "0 < size_cnt (buf s)"
    by (auto simp: threads_inv_def consumer_ok_def Let_def)
  then have "?t < capacity (buf s)" by simp
  with inv x obtain t where t: "cell s t ?t" "x = claims s ! t" unfolding threads_inv_def by blast
  from c have cl: "cleared s = ?k" by (simp add: cleared_def)
  have "t = ?k"
    using t(1) inv tl by (intro ring_index_eq [of ?k t ?k "capacity (buf s)"])
      (auto simp: cell_def cl threads_inv_def)
  with t have "?k < length (claims s)" "x = claims s ! ?k" by (simp_all add: cell_def)
  with inv c x tl show ?thesis
    by (simp add: threads_inv_def cleared_def cell_def consumer_ok_def Let_def)
qed

lemma inv_clear:
  assumes inv: "threads_inv s" and c: "cons s = C_Loaded x i"
  shows "threads_inv (s\<lparr>buf := (buf s)\<lparr>available_items := (available_items (buf s))[i := None]\<rparr>,
    cons := C_Cleared x i\<rparr>)" (is "threads_inv ?s")
proof -
  let ?k = "length (taken s)"
  from inv c have l: "i = ?k mod capacity (buf s)" "available_items (buf s) ! i = Some x"
    "?k < length (claims s)" "0 < size_cnt (buf s)" "x = claims s ! ?k" "tail_idx (buf s) = i"
    and n: "0 < capacity (buf s)"
    by (auto simp: threads_inv_def consumer_ok_def Let_def)
  have cl: "cleared s = ?k" "cleared ?s = Suc ?k" using c by (simp_all add: cleared_def)
  have own: "cell s ?k i" using l by (simp add: cell_def cl)
  have cell': "cell ?s t j \<longleftrightarrow> cell s t j \<and> t \<noteq> ?k" for t j
    by (auto simp: cell_def cl capacity_def)
  have other: "cell s t j \<Longrightarrow> t \<noteq> ?k \<Longrightarrow> j \<noteq> i" for t j
    using cell_inj [OF inv own] by auto
  have i: "i < length (available_items (buf s))" using cell_index [OF inv own] by (simp add: capacity_def)
  have ne: "prod s q = P_Claimed y j \<Longrightarrow> j \<noteq> i" for q y j
    using inv l(2) unfolding threads_inv_def by (metis option.distinct(1))
  show ?thesis
    unfolding threads_inv_def
  proof (intro conjI allI impI)
    show "\<exists>t. cell ?s t j \<and> y = claims ?s ! t"
      if "j < capacity (buf ?s)" "available_items (buf ?s) ! j = Some y" for j y
    proof -
      from that i have j: "j \<noteq> i" "available_items (buf s) ! j = Some y" "j < capacity (buf s)"
        by (auto simp: capacity_def nth_list_update split: if_splits)
      with inv obtain t where t: "cell s t j" "y = claims s ! t" unfolding threads_inv_def by blast
      from t(1) j(1) l(1) have "t \<noteq> ?k" by (auto simp: cell_def)
      with t show ?thesis by (auto simp: cell')
    qed
    fix q y j assume q: "prod ?s q = P_Claimed y j"
    then have q': "prod s q = P_Claimed y j" by simp
    from q' inv have "available_items (buf s) ! j = None" unfolding threads_inv_def by blast
    with ne [OF q'] show "available_items (buf ?s) ! j = None" by simp
    from q' inv obtain t where t: "cell s t j" "y = claims s ! t" unfolding threads_inv_def by blast
    with ne [OF q'] l(1) have "t \<noteq> ?k" by (auto simp: cell_def)
    with t show "\<exists>t. cell ?s t j \<and> y = claims ?s ! t" by (auto simp: cell')
    fix r z assume "prod ?s r = P_Claimed z j"
    with q' inv show "q = r" unfolding threads_inv_def by simp
  next
    fix t j assume "cell ?s t j"
    with other cell' have "cell s t j" "j \<noteq> i" by auto
    with inv show "available_items (buf ?s) ! j \<noteq> None \<or> (\<exists>q. prod ?s q = P_Claimed (claims ?s ! t) j)"
      by (auto simp: threads_inv_def)
  next
    show "consumer_ok ?s"
      using l(1) l(3) l(4) l(5) l(6) by (simp add: consumer_ok_def Let_def capacity_def)
    show "cleared ?s \<le> length (claims ?s)" using l(3) cl by simp
    show "length (claims ?s) \<le> cleared ?s + capacity (buf ?s)"
      using inv_basic(4) [OF inv] cl by (simp add: capacity_def)
    show "0 < capacity (buf ?s)" using n by (simp add: capacity_def)
    show "head_idx (buf ?s) = length (claims ?s) mod capacity (buf ?s)"
      using inv_basic(2) [OF inv] by (simp add: capacity_def)
    show "take (length (taken ?s)) (claims ?s) = taken ?s" using inv_basic(5) [OF inv] by simp
  qed
qed

lemma inv_other:
  assumes inv: "threads_inv s" and same: "available_items (buf s') = available_items (buf s)"
    "head_idx (buf s') = head_idx (buf s)" "claims s' = claims s" "cleared s' = cleared s"
    and prod: "\<And>q y j. prod s' q = P_Claimed y j \<longleftrightarrow> prod s q = P_Claimed y j"
    and tk: "take (length (taken s')) (claims s) = taken s'" and cons: "consumer_ok s'"
  shows "threads_inv s'"
proof -
  have c: "cell s' = cell s" "capacity (buf s') = capacity (buf s)"
    using same by (simp_all add: fun_eq_iff cell_def capacity_def)
  show ?thesis using inv cons tk unfolding threads_inv_def c prod same by blast
qed

lemma inv_step:
  assumes inv: "threads_inv s" and q: "qstep s s'" and o: "outstanding s' \<le> capacity (buf s)"
  shows "threads_inv s'"
  using q
proof cases
  case (push_claim p x i b)
  show ?thesis using inv_claim [OF inv push_claim(2,3)] o push_claim(1) by simp
next
  case (push_store p x i)
  show ?thesis using inv_store [OF inv push_store(2)] push_store(1) by simp
next
  case (pop_load x)
  show ?thesis using inv_load [OF inv pop_load(2,3)] pop_load(1) by simp
next
  case (pop_clear x i)
  show ?thesis using inv_clear [OF inv pop_clear(2)] pop_clear(1) by simp
next
  case (push_check p x)
  show ?thesis
    by (rule inv_other [OF inv])
      (use push_check inv_basic(5,6) [OF inv] in \<open>auto simp: cleared_def consumer_ok_def Let_def split: consumer.splits\<close>)
next
  case (push_count p)
  show ?thesis
    by (rule inv_other [OF inv])
      (use push_count inv_basic(5,6) [OF inv] in \<open>auto simp: cleared_def consumer_ok_def Let_def capacity_def split: consumer.splits\<close>)
next
  case pop_check
  show ?thesis
    by (rule inv_other [OF inv])
      (use pop_check inv_basic(5,6) [OF inv] in \<open>auto simp: cleared_def consumer_ok_def Let_def\<close>)
next
  case pop_null
  show ?thesis
    by (rule inv_other [OF inv])
      (use pop_null inv_basic(5,6) [OF inv] in \<open>auto simp: cleared_def consumer_ok_def Let_def\<close>)
next
  case (pop_advance x i)
  show ?thesis
    by (rule inv_other [OF inv])
      (use pop_advance inv_basic(5,6) [OF inv] mod_Suc_eq [of "length (taken s)" "capacity (buf s)"] in
        \<open>auto simp: cleared_def consumer_ok_def Let_def capacity_def\<close>)
next
  case (pop_count x)
  show ?thesis
    by (rule inv_other [OF inv])
      (use pop_count inv_basic(5,6) [OF inv] in
        \<open>auto simp: cleared_def consumer_ok_def Let_def capacity_def take_Suc_conv_app_nth\<close>)
qed (use inv in simp_all)

lemma qstep_capacity: "qstep s s' \<Longrightarrow> capacity (buf s') = capacity (buf s)"
  by (induction rule: qstep.induct) (auto simp: capacity_def get_current_head_def)

lemma bounded_run_inv: "bounded_run n name s \<Longrightarrow> 0 < n \<Longrightarrow> threads_inv s \<and> capacity (buf s) = n"
proof (induction rule: bounded_run.induct)
  case run_start
  then show ?case using threads_inv_start [of n name] by (simp add: start_def new_mpsc_capacity)
next
  case (run_step s s')
  then show ?case using inv_step [of s s'] qstep_capacity [of s s'] by simp
qed

subsection \<open>First in, first out, nothing lost\<close>

lemma idle_contents:
  assumes inv: "threads_inv s" and idle: "\<forall>p. prod s p = P_Idle" "cons s = C_Idle"
  shows "ring_items (available_items (buf s)) (tail_idx (buf s)) (length (claims s) - length (taken s)) =
    map Some (drop (length (taken s)) (claims s))"
proof (rule nth_equalityI)
  let ?c = "length (taken s)" and ?n = "capacity (buf s)"
  fix j assume "j < length (ring_items (available_items (buf s)) (tail_idx (buf s)) (length (claims s) - ?c))"
  then have j: "?c + j < length (claims s)" by simp
  have t: "tail_idx (buf s) = ?c mod ?n" using inv_basic(6) [OF inv] idle by (simp add: consumer_ok_def Let_def)
  let ?i = "(?c + j) mod ?n"
  have cell: "cell s (?c + j) ?i" using j idle by (simp add: cell_def cleared_def)
  with inv idle(1) have "available_items (buf s) ! ?i \<noteq> None"
    unfolding threads_inv_def by (metis producer.distinct(3))
  then obtain x where x: "available_items (buf s) ! ?i = Some x" by blast
  with inv cell_index [OF inv cell] obtain t where t': "cell s t ?i" "x = claims s ! t"
    unfolding threads_inv_def by blast
  with cell_inj [OF inv cell t'(1)] x
  have "available_items (buf s) ! ?i = Some (claims s ! (?c + j))" by simp
  with j show "ring_items (available_items (buf s)) (tail_idx (buf s)) (length (claims s) - ?c) ! j =
      map Some (drop ?c (claims s)) ! j"
    using t nth_upt [of 0 j "length (claims s) - ?c"]
    by (simp add: ring_items_def capacity_def mod_simps add.commute less_diff_conv)
qed simp

text \<open>
  C16: whatever way producers and consumer interleave, as long as no more than \<open>Size\<close>
  claimed slots are outstanding at any time, \<open>pop\<close> has returned a prefix of the items in
  the order in which \<open>push\<close> claimed their slots, each once; and when every thread is idle
  the ring holds exactly the rest, in order.
\<close>

theorem mpsc_threads_fifo:
  assumes "bounded_run n name s" "0 < n"
  shows "taken s = take (length (taken s)) (claims s) \<and>
    ((\<forall>p. prod s p = P_Idle) \<and> cons s = C_Idle \<longrightarrow>
       ring_items (available_items (buf s)) (tail_idx (buf s)) (length (claims s) - length (taken s)) =
         map Some (drop (length (taken s)) (claims s)))"
  using bounded_run_inv [OF assms] inv_basic(5) [of s] idle_contents [of s] by metis

subsection \<open>One producer cannot overrun the ring\<close>

definition in_flight :: "'a producer \<Rightarrow> nat" where
  "in_flight p = (case p of P_Claimed _ _ \<Rightarrow> 1 | P_Stored \<Rightarrow> 1 | _ \<Rightarrow> 0)"

definition count_ok :: "nat \<Rightarrow> (unit, 'a) threads \<Rightarrow> bool" where
  "count_ok n s \<longleftrightarrow> size_cnt (buf s) + in_flight (prod s ()) + length (taken s) = length (claims s) \<and>
     size_cnt (buf s) + in_flight (prod s ()) \<le> n \<and>
     (\<forall>x. prod s () = P_Checked x \<longrightarrow> size_cnt (buf s) < n)"

lemma count_ok_step:
  assumes "count_ok n s" "threads_inv s" "capacity (buf s) = n" "qstep s s'"
  shows "count_ok n s' \<and> outstanding s' \<le> n"
proof -
  have "count_ok n s'"
    using assms(4)
  proof cases
    case (pop_count x)
    with inv_basic(6) [OF assms(2)] have "0 < size_cnt (buf s)" by (simp add: consumer_ok_def Let_def)
    with pop_count assms(1) show ?thesis by (auto simp: count_ok_def in_flight_def)
  qed (use assms(1,3) in \<open>auto simp: count_ok_def in_flight_def get_current_head_def\<close>)
  then show ?thesis by (auto simp: count_ok_def outstanding_def cleared_def split: consumer.splits)
qed

lemma single_producer_bounded:
  fixes s :: "(unit, 'a) threads"
  shows "run n name s \<Longrightarrow> 0 < n \<Longrightarrow> bounded_run n name s \<and> count_ok n s"
proof (induction rule: run.induct)
  case any_start
  then show ?case
    using bounded_run.run_start [of n name]
    by (simp add: count_ok_def in_flight_def start_def new_mpsc_def)
next
  case (any_step s s')
  then have b: "bounded_run n name s" "count_ok n s" by simp_all
  from bounded_run_inv [OF b(1) any_step.prems] count_ok_step [OF b(2) _ _ any_step.hyps(2)]
  have "count_ok n s'" "outstanding s' \<le> n" by blast+
  with b(1) any_step.hyps(2) show ?case by (auto intro: bounded_run.run_step)
qed

text \<open>
  C17: with a single producer the size check of \<open>push\<close> is enough: in every run, without
  any assumption on it, the items popped are the items pushed, in order, and an idle queue
  holds the rest.
\<close>

theorem mpsc_single_producer_fifo:
  fixes s :: "(unit, 'a) threads"
  assumes "run n name s" "0 < n"
  shows "taken s = take (length (taken s)) (claims s) \<and>
    (prod s () = P_Idle \<and> cons s = C_Idle \<longrightarrow>
       ring_items (available_items (buf s)) (tail_idx (buf s)) (length (claims s) - length (taken s)) =
         map Some (drop (length (taken s)) (claims s)))"
proof -
  from single_producer_bounded [OF assms] have inv: "threads_inv s"
    using bounded_run_inv [OF _ assms(2)] by blast
  have all: "(\<forall>p. prod s p = P_Idle) \<longleftrightarrow> prod s () = P_Idle" by (metis (full_types) old.unit.exhaust)
  show ?thesis using inv_basic(5) [OF inv] idle_contents [OF inv] unfolding all by simp
qed

subsection \<open>Two producers can\<close>

text \<open>
  A scheduler that runs one named step at a time; it refuses a step the thread is not at.
\<close>

datatype ('p, 'a) action =
    Push_Check 'p 'a | Push_Claim 'p | Push_Store 'p | Push_Count 'p
  | Pop_Check | Pop_Load | Pop_Clear | Pop_Advance | Pop_Count

fun sched :: "('p, 'a) threads \<Rightarrow> ('p, 'a) action \<Rightarrow> ('p, 'a) threads option" where
  "sched s (Push_Check p x) = (if prod s p \<noteq> P_Idle then None
     else if size_cnt (buf s) = capacity (buf s) then Some s
     else Some (s\<lparr>prod := (prod s)(p := P_Checked x)\<rparr>))"
| "sched s (Push_Claim p) = (case prod s p of P_Checked x \<Rightarrow>
     (case get_current_head (buf s) of (i, b) \<Rightarrow>
        Some (s\<lparr>buf := b, prod := (prod s)(p := P_Claimed x i), claims := claims s @ [x]\<rparr>)) | _ \<Rightarrow> None)"
| "sched s (Push_Store p) = (case prod s p of P_Claimed x i \<Rightarrow>
     Some (s\<lparr>buf := (buf s)\<lparr>available_items := (available_items (buf s))[i := Some x]\<rparr>,
             prod := (prod s)(p := P_Stored)\<rparr>) | _ \<Rightarrow> None)"
| "sched s (Push_Count p) = (case prod s p of P_Stored \<Rightarrow>
     Some (s\<lparr>buf := (buf s)\<lparr>size_cnt := size_cnt (buf s) + 1\<rparr>, prod := (prod s)(p := P_Idle)\<rparr>) | _ \<Rightarrow> None)"
| "sched s Pop_Check = (if cons s \<noteq> C_Idle then None
     else if size_cnt (buf s) = 0 then Some s else Some (s\<lparr>cons := C_Nonempty\<rparr>))"
| "sched s Pop_Load = (if cons s \<noteq> C_Nonempty then None
     else case available_items (buf s) ! tail_idx (buf s) of
       None \<Rightarrow> Some (s\<lparr>cons := C_Idle\<rparr>) | Some x \<Rightarrow> Some (s\<lparr>cons := C_Loaded x (tail_idx (buf s))\<rparr>))"
| "sched s Pop_Clear = (case cons s of C_Loaded x i \<Rightarrow>
     Some (s\<lparr>buf := (buf s)\<lparr>available_items := (available_items (buf s))[i := None]\<rparr>,
             cons := C_Cleared x i\<rparr>) | _ \<Rightarrow> None)"
| "sched s Pop_Advance = (case cons s of C_Cleared x i \<Rightarrow>
     Some (s\<lparr>buf := (buf s)\<lparr>tail_idx := (i + 1) mod capacity (buf s)\<rparr>, cons := C_Advanced x\<rparr>) | _ \<Rightarrow> None)"
| "sched s Pop_Count = (case cons s of C_Advanced x \<Rightarrow>
     Some (s\<lparr>buf := (buf s)\<lparr>size_cnt := size_cnt (buf s) - 1\<rparr>, cons := C_Idle, taken := taken s @ [x]\<rparr>) | _ \<Rightarrow> None)"

primrec sched_all :: "('p, 'a) threads \<Rightarrow> ('p, 'a) action list \<Rightarrow> ('p, 'a) threads option" where
  "sched_all s [] = Some s"
| "sched_all s (a # as) = (case sched s a of None \<Rightarrow> None | Some s' \<Rightarrow> sched_all s' as)"

lemma sched_sound: "sched s a = Some s' \<Longrightarrow> qstep s s'"
  by (cases a) (auto split: if_splits producer.splits consumer.splits option.splits prod.splits
      intro: qstep.intros qstep.intros(5,11,12) [simplified])

lemma sched_all_run: "run n name s \<Longrightarrow> sched_all s as = Some s' \<Longrightarrow> run n name s'"
proof (induction as arbitrary: s)
  case (Cons a as)
  from Cons.prems(2) obtain s1 where s1: "sched s a = Some s1" "sched_all s1 as = Some s'"
    by (auto split: option.splits)
  from run.any_step [OF Cons.prems(1) sched_sound [OF s1(1)]] s1(2) show ?case by (rule Cons.IH)
qed simp

definition two_pushes :: "(bool, nat) action list" where
  "two_pushes = [Push_Check True 10, Push_Check False 20, Push_Claim True, Push_Claim False,
     Push_Store True, Push_Count True, Push_Store False, Push_Count False]"

definition one_pop :: "(bool, nat) action list" where
  "one_pop = [Pop_Check, Pop_Load, Pop_Clear, Pop_Advance, Pop_Count]"

text \<open>
  Two producers that both read the size before either adds to it overrun a queue with
  one free slot: both pushes return, one item overwrites the other, and after the consumer
  has popped what is there the item pushed first is gone for good, while the size stays at
  one although the ring is empty, so \<open>pop\<close> returns null from then on.
\<close>

theorem mpsc_two_producers_lose_item:
  "\<exists>s :: (bool, nat) threads. run 1 ''q'' s \<and> (\<forall>p. prod s p = P_Idle) \<and> cons s = C_Idle \<and>
     claims s = [10, 20] \<and> taken s = [20] \<and> available_items (buf s) = [None] \<and>
     size_cnt (buf s) = 1 \<and> fst (pop (buf s)) = None"
proof -
  let ?r = "sched_all (start 1 ''q'') (two_pushes @ one_pop)"
  have r: "?r \<noteq> None \<and> (\<forall>p. prod (the ?r) p = P_Idle) \<and> cons (the ?r) = C_Idle \<and>
     claims (the ?r) = [10, 20] \<and> taken (the ?r) = [20] \<and> available_items (buf (the ?r)) = [None] \<and>
     size_cnt (buf (the ?r)) = 1 \<and> fst (pop (buf (the ?r))) = None"
    by (simp add: two_pushes_def one_pop_def start_def new_mpsc_def capacity_def get_current_head_def
        pop_def Let_def)
  then have "run 1 ''q'' (the ?r)" using sched_all_run [OF run.any_start, of 1 "''q''"] by fastforce
  with r show ?thesis by blast
qed

lemma bounded_run_sched:
  "bounded_run n name s \<Longrightarrow> sched s a \<noteq> None \<Longrightarrow> outstanding (the (sched s a)) \<le> n \<Longrightarrow>
     bounded_run n name (the (sched s a))"
  using bounded_run.run_step [of n name s "the (sched s a)"] sched_sound [of s a] by auto

theorem mpsc_threads_fifo_witness:
  "\<exists>s :: (bool, nat) threads. bounded_run 2 ''q'' s \<and> claims s = [10] \<and> taken s = [] \<and>
     taken s = take (length (taken s)) (claims s) \<and>
     ring_items (available_items (buf s)) (tail_idx (buf s)) 1 = [Some 10]"
proof -
  let ?sa = "start 2 ''q'' :: (bool, nat) threads"
  note ev = start_def new_mpsc_def capacity_def get_current_head_def outstanding_def cleared_def
  have b1: "bounded_run 2 ''q'' (the (sched ?sa (Push_Check True 10)))" (is "bounded_run _ _ ?sb")
    by (rule bounded_run_sched [OF bounded_run.run_start]) (simp_all add: ev)
  have b2: "bounded_run 2 ''q'' (the (sched ?sb (Push_Claim True)))" (is "bounded_run _ _ ?sc")
    by (rule bounded_run_sched [OF b1]) (simp_all add: ev)
  have b3: "bounded_run 2 ''q'' (the (sched ?sc (Push_Store True)))" (is "bounded_run _ _ ?sd")
    by (rule bounded_run_sched [OF b2]) (simp_all add: ev)
  have b4: "bounded_run 2 ''q'' (the (sched ?sd (Push_Count True)))" (is "bounded_run _ _ ?se")
    by (rule bounded_run_sched [OF b3]) (simp_all add: ev)
  have v: "claims ?se = [10]" "taken ?se = []" "\<forall>p. prod ?se p = P_Idle" "cons ?se = C_Idle"
    by (simp_all add: ev)
  from mpsc_threads_fifo [OF b4] v have
    "ring_items (available_items (buf ?se)) (tail_idx (buf ?se)) 1 = [Some 10]" by simp
  with b4 v show ?thesis by (intro exI [of _ ?se]) simp
qed

theorem mpsc_single_producer_fifo_witness:
  "\<exists>s :: (unit, nat) threads. run 2 ''q'' s \<and> claims s = [10] \<and>
     ring_items (available_items (buf s)) (tail_idx (buf s)) 1 = [Some 10]"
proof -
  let ?s = "the (sched_all (start 2 ''q'') [Push_Check () 10, Push_Claim (), Push_Store (), Push_Count ()]) ::
    (unit, nat) threads"
  have v: "sched_all (start 2 ''q'') [Push_Check () 10, Push_Claim (), Push_Store (), Push_Count ()] = Some ?s"
     "claims ?s = [10]" "taken ?s = []" "prod ?s () = P_Idle" "cons ?s = C_Idle"
    by (simp_all add: start_def new_mpsc_def capacity_def get_current_head_def)
  from sched_all_run [OF run.any_start v(1)] have r: "run 2 ''q'' ?s" .
  from mpsc_single_producer_fifo [OF r] v have
    "ring_items (available_items (buf ?s)) (tail_idx (buf ?s)) 1 = [Some 10]" by simp
  with r v(2) show ?thesis by blast
qed

end
