(* ===== verification/CachePool.thy ===== *)
theory CachePool
  imports Ring "HOL-Library.Multiset"
begin

section \<open>The object pool (src/core/cache/cache_pool.h)\<close>

text \<open>
  A fixed array of objects and a ring of pointers to the free ones. A pointer is the index
  of its object. \<open>acquire\<close> takes the pointer at the head and runs the object's
  \<open>init\<close>, if its class has one; \<open>release\<close> puts the pointer back at the tail and runs
  \<open>clear\<close>. The theory holds the operations as one thread runs them, the contract of a
  pool with a disciplined client (locale \<open>resource_pool\<close>), and the operations cut at
  their atomic accesses.
\<close>

type_synonym ptr = nat

record 'o pool =
  avail :: "ptr list"
  objs :: "'o list"
  head_at :: nat
  tail_at :: nat
  free_cnt :: nat

text \<open>The class of the pooled objects: its name and its optional \<open>init\<close> and \<open>clear\<close>.\<close>

record 'o pool_class =
  type_name :: string
  has_init :: "('o \<Rightarrow> 'o) option"
  has_clear :: "('o \<Rightarrow> 'o) option"

definition run_hook :: "('o \<Rightarrow> 'o) option \<Rightarrow> ptr \<Rightarrow> 'o list \<Rightarrow> 'o list" where
  "run_hook h p os = (case h of None \<Rightarrow> os | Some f \<Rightarrow> os[p := f (os ! p)])"

definition new_pool :: "'o list \<Rightarrow> 'o pool" where
  "new_pool os = \<lparr>avail = [0..<length os], objs = os, head_at = 0, tail_at = 0, free_cnt = length os\<rparr>"

definition pool_size :: "'o pool \<Rightarrow> nat" where
  "pool_size pl = length (avail pl)"

text \<open>The atomic counter is a \<open>size_t\<close>: adding and subtracting wrap around.\<close>

definition fetch_add1 :: "nat \<Rightarrow> nat" where
  "fetch_add1 n = (n + 1) mod 2 ^ 64"

definition fetch_sub1 :: "nat \<Rightarrow> nat" where
  "fetch_sub1 n = (n + (2 ^ 64 - 1)) mod 2 ^ 64"

lemma fetch_sub1_Suc [simp]: "Suc n < 2 ^ 64 \<Longrightarrow> fetch_sub1 (Suc n) = n"
proof -
  have "Suc n + (2 ^ 64 - 1) = n + 2 ^ 64" by simp
  moreover assume "Suc n < 2 ^ 64"
  ultimately show ?thesis unfolding fetch_sub1_def by (simp only: mod_add_self2 mod_less Suc_lessD)
qed

lemma fetch_add1_less [simp]: "Suc n < 2 ^ 64 \<Longrightarrow> fetch_add1 n = Suc n"
  by (simp add: fetch_add1_def)

text \<open>Both compare-and-swap loops, run by one thread, succeed at once.\<close>

definition pool_head :: "'o pool \<Rightarrow> nat \<times> 'o pool" where
  "pool_head pl = (head_at pl, pl\<lparr>head_at := (head_at pl + 1) mod pool_size pl\<rparr>)"

definition pool_tail :: "'o pool \<Rightarrow> nat \<times> 'o pool" where
  "pool_tail pl = (tail_at pl, pl\<lparr>tail_at := (tail_at pl + 1) mod pool_size pl\<rparr>)"

definition acquire :: "'o pool_class \<Rightarrow> 'o pool \<Rightarrow> (ptr \<times> 'o pool) result" where
  "acquire c pl =
     (if free_cnt pl = 0
      then Inl (Throw (Runtime_Error (''No available items in cache pool: ['' @ type_name c @ '']'')))
      else
        (case pool_head pl of (head_index, pl1) \<Rightarrow>
           let item = avail pl1 ! head_index;
               pl2 = pl1\<lparr>free_cnt := fetch_sub1 (free_cnt pl1)\<rparr>
           in Inr (item, pl2\<lparr>objs := run_hook (has_init c) item (objs pl2)\<rparr>)))"

definition release :: "'o pool_class \<Rightarrow> 'o pool \<Rightarrow> ptr option \<Rightarrow> 'o pool result" where
  "release c pl item = (case item of
     None \<Rightarrow> Inl (Throw (Runtime_Error
       (''Attempt to release a null item back to the cache pool: ['' @ type_name c @ '']'')))
   | Some p \<Rightarrow>
       (case pool_tail pl of (tail_index, pl1) \<Rightarrow>
          let pl2 = pl1\<lparr>avail := (avail pl1)[tail_index := p]\<rparr>;
              pl3 = pl2\<lparr>free_cnt := fetch_add1 (free_cnt pl2)\<rparr>
          in Inr (pl3\<lparr>objs := run_hook (has_clear c) p (objs pl3)\<rparr>)))"

definition release_ptr :: "'o pool_class \<Rightarrow> 'o pool \<Rightarrow> ptr \<Rightarrow> 'o pool result" where
  "release_ptr c pl p = release c pl (Some p)"

definition total_released_items :: "'o pool \<Rightarrow> nat" where
  "total_released_items pl = pool_size pl - free_cnt pl"

subsection \<open>The contract\<close>

datatype 'a pool_op = Acquire | Release 'a

locale resource_pool =
  fixes ok :: "'s \<Rightarrow> bool" and free :: "'s \<Rightarrow> 'a list" and total :: "'s \<Rightarrow> nat"
    and acq :: "'s \<Rightarrow> ('a \<times> 's) result" and rel :: "'s \<Rightarrow> 'a \<Rightarrow> 's result"
  assumes acq_free: "ok s \<Longrightarrow> free s = x # xs \<Longrightarrow>
      \<exists>s'. acq s = Inr (x, s') \<and> ok s' \<and> free s' = xs \<and> total s' = total s"
    and acq_none: "ok s \<Longrightarrow> free s = [] \<Longrightarrow> \<exists>e. acq s = Inl e"
    and rel_room: "ok s \<Longrightarrow> length (free s) < total s \<Longrightarrow>
      \<exists>s'. rel s x = Inr s' \<and> ok s' \<and> free s' = free s @ [x] \<and> total s' = total s"
begin

text \<open>
  A client keeps the items it holds. It releases only what it holds; an acquire that throws
  leaves it as it was.
\<close>

primrec client :: "'s \<times> 'a list \<Rightarrow> 'a pool_op \<Rightarrow> 's \<times> 'a list" where
  "client sh Acquire = (case acq (fst sh) of Inl e \<Rightarrow> sh | Inr (x, s') \<Rightarrow> (s', x # snd sh))"
| "client sh (Release x) = (if x \<in> set (snd sh) then
     (case rel (fst sh) x of Inl e \<Rightarrow> sh | Inr s' \<Rightarrow> (s', remove1 x (snd sh))) else sh)"

definition partitioned :: "'s \<times> 'a list \<Rightarrow> 'a multiset \<Rightarrow> bool" where
  "partitioned sh u \<longleftrightarrow> ok (fst sh) \<and> mset (free (fst sh)) + mset (snd sh) = u \<and> size u = total (fst sh)"

lemma client_partitioned: "partitioned sh u \<Longrightarrow> partitioned (client sh act) u"
proof (cases act)
  case Acquire
  assume p: "partitioned sh u"
  show ?thesis
  proof (cases "free (fst sh)")
    case Nil
    with p acq_none [of "fst sh"] Acquire show ?thesis by (auto simp: partitioned_def)
  next
    case (Cons x xs)
    from p acq_free [OF _ this] obtain s' where
      "acq (fst sh) = Inr (x, s')" "ok s'" "free s' = xs" "total s' = total (fst sh)"
      by (auto simp: partitioned_def)
    with p Acquire Cons show ?thesis by (auto simp: partitioned_def)
  qed
next
  case (Release x)
  assume p: "partitioned sh u"
  show ?thesis
  proof (cases "x \<in> set (snd sh)")
    case True
    from p have "length (free (fst sh)) + length (snd sh) = total (fst sh)"
      by (auto simp: partitioned_def)
    with True have "length (free (fst sh)) < total (fst sh)" by (cases "snd sh") auto
    with p rel_room [of "fst sh" x] obtain s' where
      "rel (fst sh) x = Inr s'" "ok s'" "free s' = free (fst sh) @ [x]" "total s' = total (fst sh)"
      by (auto simp: partitioned_def)
    with p True Release show ?thesis by (auto simp: partitioned_def)
  qed (use p Release in simp)
qed

lemma client_run: "partitioned sh u \<Longrightarrow> partitioned (foldl client sh ops) u"
  by (induction ops arbitrary: sh) (simp_all add: client_partitioned del: client.simps)

text \<open>No two holders of one item, and nothing leaks.\<close>

lemma client_distinct:
  assumes "ok s" "distinct (free s)" "length (free s) = total s"
  shows "distinct (free (fst (foldl client (s, []) ops)) @ snd (foldl client (s, []) ops)) \<and>
    set (free (fst (foldl client (s, []) ops))) \<union> set (snd (foldl client (s, []) ops)) = set (free s)"
proof -
  have "partitioned (s, []) (mset (free s))" using assms by (simp add: partitioned_def)
  from client_run [OF this, of ops]
  have m: "mset (free (fst (foldl client (s, []) ops)) @ snd (foldl client (s, []) ops)) = mset (free s)"
    by (simp add: partitioned_def)
  from mset_eq_imp_distinct_iff [OF m] mset_eq_setD [OF m] assms(2) show ?thesis by simp
qed

end

subsection \<open>The pool keeps it\<close>

definition pool_ok :: "'o pool \<Rightarrow> bool" where
  "pool_ok pl \<longleftrightarrow> 0 < pool_size pl \<and> pool_size pl < 2 ^ 64 \<and> free_cnt pl \<le> pool_size pl \<and> head_at pl < pool_size pl \<and>
     tail_at pl = (head_at pl + free_cnt pl) mod pool_size pl"

definition pool_free :: "'o pool \<Rightarrow> ptr list" where
  "pool_free pl = ring_items (avail pl) (head_at pl) (free_cnt pl)"

lemma acquire_ok:
  assumes ok: "pool_ok pl" and f: "pool_free pl = x # xs"
  shows "\<exists>pl'. acquire c pl = Inr (x, pl') \<and> pool_ok pl' \<and> pool_free pl' = xs \<and> pool_size pl' = pool_size pl"
proof -
  from f obtain n where n: "free_cnt pl = Suc n" by (cases "free_cnt pl") (auto simp: pool_free_def)
  from ok have h: "head_at pl mod length (avail pl) = head_at pl" by (simp add: pool_ok_def pool_size_def)
  from f have x: "avail pl ! head_at pl = x"
    and xs: "ring_items (avail pl) (Suc (head_at pl) mod length (avail pl)) n = xs"
    using ring_items_Suc [of "avail pl" "head_at pl" n] by (simp_all add: pool_free_def n h)
  show ?thesis
    using ok x xs by (auto simp: acquire_def pool_head_def n Let_def pool_ok_def pool_size_def
        pool_free_def mod_simps)
qed

lemma release_ok:
  assumes ok: "pool_ok pl" and room: "length (pool_free pl) < pool_size pl"
  shows "\<exists>pl'. release c pl (Some p) = Inr pl' \<and> pool_ok pl' \<and> pool_free pl' = pool_free pl @ [p] \<and>
    pool_size pl' = pool_size pl"
proof -
  from room have r: "free_cnt pl < length (avail pl)" by (simp add: pool_free_def pool_size_def)
  have t: "tail_at pl = (head_at pl + free_cnt pl) mod length (avail pl)"
    using ok by (simp add: pool_ok_def pool_size_def)
  have "ring_items ((avail pl)[tail_at pl := p]) (head_at pl) (Suc (free_cnt pl)) =
      ring_items (avail pl) (head_at pl) (free_cnt pl) @ [p]"
    unfolding t by (rule ring_items_push [OF r])
  then show ?thesis
    using ok r t by (auto simp: release_def pool_tail_def Let_def pool_ok_def pool_size_def
        pool_free_def mod_simps)
qed

interpretation cp: resource_pool pool_ok pool_free pool_size "acquire c" "release_ptr c"
  for c :: "'o pool_class"
proof unfold_locales
  fix s :: "'o pool"
  show "pool_ok s \<Longrightarrow> pool_free s = [] \<Longrightarrow> \<exists>e. acquire c s = Inl e"
    by (simp add: acquire_def pool_free_def flip: length_0_conv)
qed (unfold release_ptr_def, (rule acquire_ok release_ok; assumption)+)

lemma pool_objs_upd [simp]:
  "pool_ok (pl\<lparr>objs := os\<rparr>) = pool_ok pl" "pool_free (pl\<lparr>objs := os\<rparr>) = pool_free pl"
  "pool_size (pl\<lparr>objs := os\<rparr>) = pool_size pl"
  by (simp_all add: pool_ok_def pool_free_def pool_size_def)

lemma acquire_objs: "has_init c = None \<Longrightarrow> acquire c pl = Inr (p, pl') \<Longrightarrow> objs pl' = objs pl"
  by (auto simp: acquire_def pool_head_def Let_def run_hook_def split: if_splits)

lemma release_objs: "has_clear c = None \<Longrightarrow> release c pl (Some p) = Inr pl' \<Longrightarrow> objs pl' = objs pl"
  by (auto simp: release_def pool_tail_def Let_def run_hook_def)

lemma acquire_objs_hook: "acquire c pl = Inr (p, pl') \<Longrightarrow> objs pl' = run_hook (has_init c) p (objs pl)"
  by (auto simp: acquire_def pool_head_def Let_def split: if_splits)

lemma release_objs_hook: "release c pl (Some p) = Inr pl' \<Longrightarrow> objs pl' = run_hook (has_clear c) p (objs pl)"
  by (auto simp: release_def pool_tail_def Let_def)

lemma new_pool_ok:
  "os \<noteq> [] \<Longrightarrow> length os < 2 ^ 64 \<Longrightarrow> pool_ok (new_pool os)"
  and new_pool_free: "pool_free (new_pool os) = [0..<length os]"
  and new_pool_size: "pool_size (new_pool os) = length os"
  by (auto simp: new_pool_def pool_ok_def pool_size_def pool_free_def ring_items_def intro!: map_idI)

text \<open>
  C18: a client that runs alone, on one thread, and releases only what it holds, whatever it does, never
  holds an object twice, never holds an object the pool still offers, and no object is lost. Threads
  that share a pool have no such guarantee (\<open>pool_release_race\<close>).
\<close>

theorem pool_client_exclusive:
  assumes "os \<noteq> []" "length os < 2 ^ 64"
    and "(pl, held) = foldl (cp.client c) (new_pool os, []) ops"
  shows "distinct (pool_free pl @ held) \<and> set (pool_free pl) \<union> set held = {..<length os}"
  using cp.client_distinct [of "new_pool os" c ops] new_pool_ok [OF assms(1,2)] assms(3)
  by (auto simp: new_pool_free new_pool_size prod_eq_iff)

definition plain :: "nat pool_class" where
  "plain = \<lparr>type_name = ''T'', has_init = Some (\<lambda>_. 1), has_clear = Some (\<lambda>_. 0)\<rparr>"

theorem pool_client_exclusive_witness:
  "\<exists>pl held. (pl, held) = foldl (cp.client plain) (new_pool [7, 8, 9], []) [Acquire, Acquire, Release 0, Acquire] \<and>
     held = [2, 1] \<and> distinct (pool_free pl @ held) \<and> set (pool_free pl) \<union> set held = {..<3}"
proof -
  let ?r = "foldl (cp.client plain) (new_pool [7, 8, 9], []) [Acquire, Acquire, Release 0, Acquire]"
  have v: "snd ?r = [2, 1]"
    by (simp add: acquire_def release_ptr_def release_def pool_head_def pool_tail_def new_pool_def pool_size_def Let_def
        plain_def run_hook_def fetch_sub1_def fetch_add1_def upt_rec)
  obtain pl held where e: "(pl, held) = ?r" by (metis surj_pair)
  with v have "held = [2, 1]" by (metis snd_conv)
  moreover have "distinct (pool_free pl @ held) \<and> set (pool_free pl) \<union> set held = {..<3}"
    using pool_client_exclusive [OF _ _ e] by simp
  ultimately show ?thesis using e by blast
qed

text \<open>
  \<open>release\<close> does not notice a second release of the same object: the object then
  stands twice in the free list, behind everything that was free before.
\<close>

theorem pool_double_release:
  assumes "pool_ok pl" "length (pool_free pl) + 2 \<le> pool_size pl"
  shows "\<exists>pl2. bindE (release c pl (Some p)) (\<lambda>pl1. release c pl1 (Some p)) = Inr pl2 \<and>
    pool_free pl2 = pool_free pl @ [p, p]"
proof -
  from release_ok [OF assms(1), of c p] assms(2) obtain pl1 where
    1: "release c pl (Some p) = Inr pl1" "pool_ok pl1" "pool_free pl1 = pool_free pl @ [p]"
      "pool_size pl1 = pool_size pl" by auto
  from release_ok [OF 1(2), of c p] 1 assms(2) show ?thesis by auto
qed

theorem pool_double_release_witness:
  "\<exists>pl2. bindE (release plain \<lparr>avail = [0, 1], objs = [1, 1], head_at = 0, tail_at = 0, free_cnt = 0\<rparr> (Some 0))
     (\<lambda>pl1. release plain pl1 (Some 0)) = Inr pl2 \<and> pool_free pl2 = [0, 0]"
  using pool_double_release [of "\<lparr>avail = [0, 1], objs = [1, 1], head_at = 0, tail_at = 0, free_cnt = 0\<rparr>" plain 0]
  by (simp add: pool_ok_def pool_size_def pool_free_def)

subsection \<open>Several threads\<close>

text \<open>
  Every thread alternates between an \<open>acquire\<close> and a \<open>release\<close> of what it got, one
  atomic access at a time; a schedule is the list of the threads that make the next step.
\<close>

datatype thread_pc =
    Idle | Acq_Checked | Acq_Claimed nat | Acq_Read ptr | Acq_Counted ptr | Holds ptr
  | Rel_Claimed ptr nat | Rel_Written ptr | Rel_Counted ptr

fun thread_step :: "'o pool_class \<Rightarrow> 'o pool \<Rightarrow> thread_pc \<Rightarrow> 'o pool \<times> thread_pc" where
  "thread_step c pl Idle = (pl, if free_cnt pl = 0 then Idle else Acq_Checked)"
| "thread_step c pl Acq_Checked = (case pool_head pl of (i, pl') \<Rightarrow> (pl', Acq_Claimed i))"
| "thread_step c pl (Acq_Claimed i) = (pl, Acq_Read (avail pl ! i))"
| "thread_step c pl (Acq_Read p) = (pl\<lparr>free_cnt := fetch_sub1 (free_cnt pl)\<rparr>, Acq_Counted p)"
| "thread_step c pl (Acq_Counted p) = (pl\<lparr>objs := run_hook (has_init c) p (objs pl)\<rparr>, Holds p)"
| "thread_step c pl (Holds p) = (case pool_tail pl of (i, pl') \<Rightarrow> (pl', Rel_Claimed p i))"
| "thread_step c pl (Rel_Claimed p i) = (pl\<lparr>avail := (avail pl)[i := p]\<rparr>, Rel_Written p)"
| "thread_step c pl (Rel_Written p) = (pl\<lparr>free_cnt := fetch_add1 (free_cnt pl)\<rparr>, Rel_Counted p)"
| "thread_step c pl (Rel_Counted p) = (pl\<lparr>objs := run_hook (has_clear c) p (objs pl)\<rparr>, Idle)"

primrec run_alone :: "'o pool_class \<Rightarrow> nat \<Rightarrow> 'o pool \<times> thread_pc \<Rightarrow> 'o pool \<times> thread_pc" where
  "run_alone c 0 s = s"
| "run_alone c (Suc n) s = run_alone c n (thread_step c (fst s) (snd s))"

primrec schedule :: "'o pool_class \<Rightarrow> nat list \<Rightarrow> 'o pool \<times> (nat \<Rightarrow> thread_pc) \<Rightarrow> 'o pool \<times> (nat \<Rightarrow> thread_pc)" where
  "schedule c [] s = s"
| "schedule c (t # ts) s = (case thread_step c (fst s) (snd s t) of (pl, pc) \<Rightarrow>
     schedule c ts (pl, (snd s)(t := pc)))"

text \<open>
  A thread that is not interrupted does what \<open>acquire\<close> and \<open>release\<close> do as wholes.
\<close>

theorem pool_steps_compose:
  "(free_cnt pl \<noteq> 0 \<longrightarrow> (case run_alone c 5 (pl, Idle) of (pl', pc) \<Rightarrow>
      \<exists>p. pc = Holds p \<and> acquire c pl = Inr (p, pl'))) \<and>
   (case run_alone c 4 (pl, Holds q) of (pl', pc) \<Rightarrow> pc = Idle \<and> release c pl (Some q) = Inr pl')"
  by (simp add: acquire_def release_def pool_head_def pool_tail_def Let_def numeral_eq_Suc
      del: fetch_add1_less fetch_sub1_Suc)

theorem pool_steps_compose_witness:
  "case run_alone plain 5 (new_pool [7], Idle) of (pl', pc) \<Rightarrow>
     \<exists>p. pc = Holds p \<and> acquire plain (new_pool [7]) = Inr (p, pl')"
proof -
  have "free_cnt (new_pool [7 :: nat]) \<noteq> 0" by (simp add: new_pool_def)
  with pool_steps_compose [of "new_pool [7]" plain, THEN conjunct1] show ?thesis by (rule mp)
qed

text \<open>
  \<open>release\<close> moves the tail before it writes the slot. When a later release overtakes it
  there, an \<open>acquire\<close> reads the slot's old pointer, and two threads end up holding the
  same object while another is free but listed nowhere.
\<close>

theorem pool_release_race:
  "\<exists>sched. let (pl, pc) = schedule plain sched (new_pool [7, 8], \<lambda>_. Idle) in
     pc 2 = Holds 0 \<and> pc 3 = Holds 0 \<and> pc 0 = Idle \<and> pc 1 = Idle \<and> free_cnt pl = 0"
proof -
  let ?s = "[1, 1, 1, 1, 1, 0, 0, 0, 0, 0, 0, 1, 1, 1, 1, 2, 2, 2, 2, 2, 0, 0, 0, 3, 3, 3, 3, 3] :: nat list"
  have "let (pl, pc) = schedule plain ?s (new_pool [7, 8], \<lambda>_. Idle) in
     pc 2 = Holds 0 \<and> pc 3 = Holds 0 \<and> pc 0 = Idle \<and> pc 1 = Idle \<and> free_cnt pl = 0"
    by (simp add: new_pool_def pool_head_def pool_tail_def pool_size_def plain_def run_hook_def
        fetch_sub1_def fetch_add1_def upt_rec)
  then show ?thesis ..
qed

text \<open>
  \<open>release\<close> runs \<open>clear\<close> after the object has become available. Another thread can
  acquire and initialise it in between, and finds it cleared under its hands.
\<close>

theorem pool_late_clear:
  "\<exists>sched. let (pl, pc) = schedule plain sched (new_pool [7], \<lambda>_. Idle) in
     pc 1 = Holds 0 \<and> pc 0 = Idle \<and> objs pl = [0]"
proof -
  have "let (pl, pc) = schedule plain [0, 0, 0, 0, 0, 0, 0, 0, 1, 1, 1, 1, 1, 0] (new_pool [7], \<lambda>_. Idle) in
     pc 1 = Holds 0 \<and> pc 0 = Idle \<and> objs pl = [0]"
    by (simp add: new_pool_def pool_head_def pool_tail_def pool_size_def plain_def run_hook_def
        fetch_sub1_def fetch_add1_def upt_rec)
  then show ?thesis ..
qed

end
