(* ===== verification/Utilities.thy ===== *)
theory Utilities
  imports Complex_Main Cpp_Strings
begin

section \<open>Utilities (src/core/utils, src/core/enum_reflect)\<close>

text \<open>
  The string and number helpers of the class \<open>Utils\<close>, the base64 coder, the latency
  samples and the enum tables. A loop of the code that need not end is a partial function
  whose value is \<open>None\<close> when it does not.
\<close>

subsection \<open>Splitting strings\<close>

text \<open>
  The loop of \<open>split_string\<close> from the position \<open>start\<close>. The loop variables are
  \<open>int\<close>s; the model is for strings shorter than \<open>2 ^ 31\<close>, where they do not overflow. The
  test \<open>str.size() - start >= 0\<close> compares unsigned values and always holds.
\<close>

partial_function (option) split_from :: "string \<Rightarrow> string \<Rightarrow> nat \<Rightarrow> string list option" where
  "split_from str del start =
     (case std_find str start del of
        Some fin \<Rightarrow> Option.bind (split_from str del (fin + length del))
                     (\<lambda>rest. Some (take (fin - start) (drop start str) # rest))
      | None \<Rightarrow> Some [drop start str])"

definition split_string :: "string \<Rightarrow> string \<Rightarrow> string list option" where
  "split_string str del = split_from str del 0"

fun join :: "string \<Rightarrow> string list \<Rightarrow> string" where
  "join del [] = []"
| "join del [x] = x"
| "join del (x # xs) = x @ del @ join del xs"

lemma join_Cons: "xs \<noteq> [] \<Longrightarrow> join del (x # xs) = x @ del @ join del xs"
  by (cases xs) simp_all

lemma find_before:
  assumes "std_find s start del = Some i" "del \<noteq> []"
  shows "std_find (take (i - start) (drop start s)) 0 del = None"
  unfolding std_find_None
proof (intro allI impI)
  fix j assume j: "j + length del \<le> length (take (i - start) (drop start s))"
  then have "j + length del \<le> i - start" by simp
  then have "take (length del) (drop j (take (i - start) (drop start s))) = take (length del) (drop (start + j) s)"
    by (auto simp: drop_take min_def add.commute)
  moreover have "start + j < i" using j assms(2) by (cases del) auto
  ultimately show "take (length del) (drop j (take (i - start) (drop start s))) \<noteq> del"
    using assms(1) by (simp add: std_find_Some)
qed

lemma split_from_correct:
  assumes "del \<noteq> []" "start \<le> length str"
  shows "\<exists>ps. split_from str del start = Some ps \<and> ps \<noteq> [] \<and> join del ps = drop start str \<and>
    (\<forall>p \<in> set ps. std_find p 0 del = None)"
  using assms(2)
proof (induction "length str - start" arbitrary: start rule: less_induct)
  case less
  show ?case
  proof (cases "std_find str start del")
    case None
    then have "std_find (drop start str) 0 del = None"
      using less.prems unfolding std_find_None by (auto simp: add.commute)
    with None show ?thesis by (simp add: split_from.simps [of str del start])
  next
    case (Some i)
    let ?n = "i + length del"
    from Some have i: "start \<le> i" "?n \<le> length str" by (simp_all add: std_find_Some)
    moreover have "length str - ?n < length str - start" using i assms(1) by (cases del) auto
    ultimately obtain ps where ps: "split_from str del ?n = Some ps" "ps \<noteq> []"
      "join del ps = drop ?n str" "\<forall>p \<in> set ps. std_find p 0 del = None"
      using less.hyps [of ?n] by auto
    have "drop start str = take (i - start) (drop start str) @ del @ drop ?n str"
      using std_find_split [OF Some] by (metis append_take_drop_id same_append_eq)
    with ps Some find_before [OF Some assms(1)] show ?thesis
      by (simp add: split_from.simps [of str del start] join_Cons)
  qed
qed

text \<open>
  For a non-empty delimiter \<open>split_string\<close> returns; no piece contains the delimiter,
  and joining the pieces with it gives the string back.
\<close>

theorem split_string_correct:
  assumes "del \<noteq> []"
  shows "\<exists>ps. split_string str del = Some ps \<and> join del ps = str \<and>
    (\<forall>p \<in> set ps. std_find p 0 del = None)"
  using split_from_correct [OF assms, of 0 str] by (auto simp: split_string_def)

theorem split_string_correct_witness:
  "\<exists>ps. split_string ''a=b='' ''='' = Some ps \<and> join ''='' ps = ''a=b='' \<and>
    (\<forall>p \<in> set ps. std_find p 0 ''='' = None)"
  by (rule split_string_correct) simp

lemma split_from_join:
  assumes "ps \<noteq> []" "\<forall>p \<in> set ps. std_find p 0 d = None" "d \<noteq> []" "unbordered d"
  shows "drop n s = join d ps \<Longrightarrow> n \<le> length s \<Longrightarrow> split_from s d n = Some ps"
  using assms(1,2)
proof (induction ps arbitrary: n)
  case (Cons p ps)
  show ?case
  proof (cases "ps = []")
    case True
    with Cons.prems have "drop n s = p" "std_find p 0 d = None" by simp_all
    with Cons.prems(2) have "std_find s n d = None" by (simp add: std_find_drop [of n s])
    then have "split_from s d n = Some [drop n s]" by (simp only: split_from.simps [of s d n] option.case)
    with True \<open>drop n s = p\<close> show ?thesis by simp
  next
    case False
    with Cons.prems(1) have s: "drop n s = p @ d @ join d ps" by (simp add: join_Cons)
    have f: "std_find s n d = Some (n + length p)"
      using find_after_piece [OF assms(3,4), of p "join d ps"] Cons.prems s by (simp add: std_find_drop [of n s])
    have "length (drop n s) = length p + length d + length (join d ps)" unfolding s by simp
    then have l: "n + length p + length d \<le> length s" using Cons.prems(2) by simp
    have "drop (n + length p + length d) s = drop (length p + length d) (drop n s)" by (simp add: ac_simps)
    also have "\<dots> = join d ps" unfolding s by simp
    finally have "split_from s d (n + length p + length d) = Some ps"
      using Cons.IH [OF _ l False] Cons.prems(4) by simp
    with f have "split_from s d n = Some (take (length p) (drop n s) # ps)"
      by (simp only: split_from.simps [of s d n] option.case Option.bind.bind_lunit diff_add_inverse)
    then show ?thesis by (simp add: s)
  qed
qed simp

lemma split_string_join:
  assumes "ps \<noteq> []" "\<forall>p \<in> set ps. std_find p 0 d = None" "d \<noteq> []" "unbordered d"
  shows "split_string (join d ps) d = Some ps"
  unfolding split_string_def by (rule split_from_join) (use assms in simp_all)

subsection \<open>Numbers in strings\<close>

text \<open>Positions go through an \<open>int\<close>; the results are converted to \<open>size_t\<close>.\<close>

definition get_decimal_digits :: "string \<Rightarrow> nat" where
  "get_decimal_digits str =
     (let pos = pos_to_int (find_first_not_of str 0 ''0.'') in to_size_t (pos - 1))"

definition round_string_number :: "string \<Rightarrow> nat \<Rightarrow> string result" where
  "round_string_number str precision =
     (let point_pos = pos_to_int (find_first_of str 0 ''.'') in
      if -1 < point_pos
      then substr str 0 (nat point_pos + (if precision = 0 then 0 else precision + 1))
      else Inr str)"

subsection \<open>Days\<close>

text \<open>The fields of \<open>gmtime\<close> the code reads: UTC has no leap seconds in \<open>time_t\<close>.\<close>

definition get_0h :: "nat \<Rightarrow> nat" where
  "get_0h rawtime =
     (let tm_hour = rawtime mod 86400 div 3600; tm_min = rawtime mod 3600 div 60; tm_sec = rawtime mod 60
      in rawtime - 3600 * tm_hour - 60 * tm_min - tm_sec)"

definition get_0h_tomorrow :: "nat \<Rightarrow> nat" where
  "get_0h_tomorrow rawtime = get_0h rawtime + 86400"

definition get_0h_days_before :: "nat \<Rightarrow> nat \<Rightarrow> nat" where
  "get_0h_days_before rawtime days = to_size_t (int (get_0h rawtime) - 86400 * int days)"

lemma get_0h_eq: "get_0h t = t - t mod 86400"
proof -
  have "t mod 86400 mod 3600 = t mod 3600" by (rule mod_mod_cancel) simp
  moreover have "t mod 3600 mod 60 = t mod 60" by (rule mod_mod_cancel) simp
  ultimately have "3600 * (t mod 86400 div 3600) + (60 * (t mod 3600 div 60) + t mod 60) = t mod 86400"
    using mult_div_mod_eq [of 3600 "t mod 86400"] mult_div_mod_eq [of 60 "t mod 3600"] by argo
  then show ?thesis unfolding get_0h_def Let_def diff_diff_left by (simp only: add.assoc)
qed

text \<open>
  The day functions return multiples of a day: the last midnight not after now, the next
  one, which is strictly later, and the one the given number of days back.
\<close>

theorem midnights:
  assumes "t < 2 ^ 63" "n * 86400 \<le> get_0h t"
  shows "86400 dvd get_0h t \<and> get_0h t \<le> t \<and> t < get_0h_tomorrow t \<and>
    get_0h_days_before t n = get_0h t - n * 86400"
proof -
  have "t mod 86400 < 86400" by simp
  moreover have "86400 dvd t - t mod 86400" by (simp add: minus_mod_eq_mult_div)
  moreover have "t mod 86400 \<le> t" by simp
  moreover have "get_0h_days_before t n = get_0h t - n * 86400"
  proof -
    have e: "int (get_0h t) - 86400 * int n = int (get_0h t - n * 86400)" using assms(2) by simp
    have "get_0h t - n * 86400 < 2 ^ 64" using assms(1) by (simp add: get_0h_eq)
    then show ?thesis unfolding get_0h_days_before_def e to_size_t_def by (simp add: zmod_trivial_iff)
  qed
  ultimately show ?thesis unfolding get_0h_tomorrow_def by (simp add: get_0h_eq)
qed

theorem midnights_witness:
  "86400 dvd get_0h 1700000000 \<and> 1700000000 < get_0h_tomorrow 1700000000 \<and>
    get_0h_days_before 1700000000 2 = get_0h 1700000000 - 2 * 86400"
  using midnights [of 1700000000 2] by (simp add: get_0h_eq)

subsection \<open>Enum names\<close>

text \<open>
  \<open>parse_enum_name\<close> cuts the name of an enum value out of the signature the compiler
  gives; the table of an enum holds the names of the values 0 to 199.
\<close>

definition parse_enum_name :: "string \<Rightarrow> string" where
  "parse_enum_name full =
     (let key = ''E V = '' in
      case std_find full 0 key of None \<Rightarrow> ''''
      | Some s0 \<Rightarrow>
        let start = s0 + length key;
            fin = (case std_find full start '';'' of Some e \<Rightarrow> Some e | None \<Rightarrow> std_find full start '']'')
        in (case fin of None \<Rightarrow> ''''
            | Some e \<Rightarrow>
              let nm = take (e - start) (drop start full) in
              (case std_rfind nm ''::'' of Some sep \<Rightarrow> drop (sep + 2) nm | None \<Rightarrow> nm)))"

definition enum_max :: nat where
  "enum_max = 200"

definition enum_name :: "string list \<Rightarrow> nat \<Rightarrow> string result" where
  "enum_name table v = vec_at table v"

definition enum_value :: "string list \<Rightarrow> string \<Rightarrow> nat" where
  "enum_value table nm = (case List.find (\<lambda>i. table ! i = nm) [0..<length table] of Some i \<Rightarrow> i | None \<Rightarrow> 0)"

text \<open>
  With a table of distinct names, \<open>enum_value\<close> inverts \<open>enum_name\<close>, and a name that
  is not in the table yields the value 0, so it cannot be told from the first name.
\<close>

theorem enum_roundtrip:
  assumes "distinct table" "v < length table"
  shows "\<exists>nm. enum_name table v = Inr nm \<and> enum_value table nm = v \<and>
    (\<forall>x. x \<notin> set table \<longrightarrow> enum_value table x = enum_value table (table ! 0))"
proof -
  have f: "enum_value table (table ! i) = i" if "i < length table" for i
  proof -
    have "List.find (\<lambda>j. table ! j = table ! i) [0..<length table] = Some i"
      unfolding find_upt_Some using assms(1) that by (auto simp: nth_eq_iff_index_eq)
    then show ?thesis by (simp add: enum_value_def)
  qed
  have n: "enum_value table x = 0" if "x \<notin> set table" for x
  proof -
    have "List.find (\<lambda>j. table ! j = x) [0..<length table] = None"
      unfolding find_upt_None using that by (auto simp: in_set_conv_nth)
    then show ?thesis by (simp add: enum_value_def)
  qed
  have "0 < length table" using assms(2) by linarith
  with f [of v] f [of 0] n assms(2) show ?thesis by (auto simp: enum_name_def)
qed

theorem enum_roundtrip_witness:
  "\<exists>nm. enum_name (map parse_enum_name [''[E = U; E V = U::A]'', ''E V = B]'']) 1 = Inr nm \<and>
    enum_value (map parse_enum_name [''[E = U; E V = U::A]'', ''E V = B]'']) nm = 1"
proof -
  have t: "map parse_enum_name [''[E = U; E V = U::A]'', ''E V = B]''] = [''A'', ''B'']" by code_simp
  show ?thesis unfolding t using enum_roundtrip [of "[''A'', ''B'']" 1] by auto
qed

subsection \<open>Latency samples\<close>

text \<open>
  The samples are kept in the order they arrive; when there are more than
  \<open>max_samples\<close>, the oldest quarter goes. A percentile is read from a sorted copy. The
  samples are of any linearly ordered type, and the rank is computed in exact rational
  arithmetic, so the rounding of \<open>double\<close> is left out.
\<close>

record 'a latency_tracker =
  samples :: "'a list"
  max_samples :: nat

definition add_sample :: "'a latency_tracker \<Rightarrow> 'a \<Rightarrow> 'a latency_tracker" where
  "add_sample lt v =
     (let s = samples lt @ [v] in
      lt\<lparr>samples := if max_samples lt < length s then drop (length s div 4) s else s\<rparr>)"

definition percentile :: "'a :: {linorder, zero} latency_tracker \<Rightarrow> rat \<Rightarrow> 'a result" where
  "percentile lt p =
     (if samples lt = [] then Inr 0
      else let v = sort (samples lt) in vec_at v (nat \<lfloor>(p / 100) * of_nat (length v - 1)\<rfloor>))"

definition clear_samples :: "'a latency_tracker \<Rightarrow> 'a latency_tracker" where
  "clear_samples lt = lt\<lparr>samples := []\<rparr>"

lemma add_sample_ok:
  assumes "length (samples lt) \<le> max_samples lt" "3 \<le> max_samples lt"
  shows "length (samples (add_sample lt v)) \<le> max_samples lt"
    "\<exists>n. samples (add_sample lt v) = drop n (samples lt) @ [v]"
proof -
  have "Suc (length (samples lt)) div 4 \<le> length (samples lt)" by linarith
  then show "\<exists>n. samples (add_sample lt v) = drop n (samples lt) @ [v]"
    by (auto simp: add_sample_def Let_def intro: exI [of _ 0])
  show "length (samples (add_sample lt v)) \<le> max_samples lt"
    using assms by (auto simp: add_sample_def Let_def)
qed

lemma add_samples_suffix:
  assumes "length (samples lt) \<le> max_samples lt" "3 \<le> max_samples lt"
  shows "length (samples (foldl add_sample lt vs)) \<le> max_samples lt \<and>
    (\<exists>n. samples (foldl add_sample lt vs) = drop n (samples lt @ vs))"
  using assms
proof (induction vs arbitrary: lt)
  case (Cons v vs)
  let ?l = "add_sample lt v"
  have m: "max_samples ?l = max_samples lt" by (simp add: add_sample_def Let_def)
  from add_sample_ok(2) [OF Cons.prems, of v] obtain n where n: "samples ?l = drop n (samples lt) @ [v]" ..
  from Cons.IH [of ?l] add_sample_ok(1) [OF Cons.prems, of v] Cons.prems(2) m obtain k where
    k: "length (samples (foldl add_sample ?l vs)) \<le> max_samples lt"
      "samples (foldl add_sample ?l vs) = drop k (samples ?l @ vs)" by auto
  have "samples ?l @ vs = drop (min n (length (samples lt))) (samples lt @ v # vs)"
    using n by (simp add: min_def)
  with k(2) have "samples (foldl add_sample ?l vs) =
      drop (k + min n (length (samples lt))) (samples lt @ v # vs)"
    by (simp only: drop_drop)
  with k(1) show ?case by auto
qed (auto intro: exI [of _ 0])

text \<open>
  Whatever samples are added, the tracker holds at most \<open>max_samples\<close> of them, the most
  recent ones in the order of their arrival.
\<close>

theorem latency_keeps_recent:
  assumes "samples lt = []" "3 \<le> max_samples lt"
  shows "length (samples (foldl add_sample lt vs)) \<le> max_samples lt \<and>
    (\<exists>n. samples (foldl add_sample lt vs) = drop n vs)"
  using add_samples_suffix [of lt vs] assms by simp

theorem latency_keeps_recent_witness:
  "\<exists>n. samples (foldl add_sample \<lparr>samples = [], max_samples = 4\<rparr> [1, 2, 3, 4, 5, 6 :: int]) =
    drop n [1, 2, 3, 4, 5, 6]"
  using latency_keeps_recent [of "\<lparr>samples = [], max_samples = 4\<rparr>" "[1, 2, 3, 4, 5, 6 :: int]"] by simp

lemma percentile_index:
  fixes p :: rat
  assumes "0 \<le> p" "p \<le> 100" "n \<noteq> 0"
  shows "nat \<lfloor>(p / 100) * of_nat (n - 1)\<rfloor> < (n :: nat)"
proof -
  have "(p / 100) * of_nat (n - 1) \<le> 1 * (of_nat (n - 1) :: rat)"
    using assms by (intro mult_right_mono) auto
  then have "\<lfloor>(p / 100) * of_nat (n - 1)\<rfloor> \<le> \<lfloor>of_nat (n - 1) :: rat\<rfloor>" by (intro floor_mono) simp
  with assms(3) show ?thesis by simp
qed

text \<open>
  A percentile between 0 and 100 of a non-empty tracker is one of its samples; it grows
  with the percentage, from the smallest sample at 0 to the largest at 100.
\<close>

theorem percentile_correct:
  assumes "samples lt \<noteq> []" "0 \<le> p" "p \<le> q" "q \<le> 100"
  shows "\<exists>x y. percentile lt p = Inr x \<and> percentile lt q = Inr y \<and> x \<in> set (samples lt) \<and> x \<le> y \<and>
    percentile lt 0 = Inr (Min (set (samples lt))) \<and> percentile lt 100 = Inr (Max (set (samples lt)))"
proof -
  let ?v = "sort (samples lt)" and ?i = "\<lambda>p. nat \<lfloor>(p / 100) * of_nat (length (samples lt) - 1)\<rfloor>"
  have n: "length (samples lt) \<noteq> 0" using assms(1) by simp
  have i: "?i p < length ?v" "?i q < length ?v"
    using percentile_index [OF _ _ n] assms by auto
  have pq: "(p / 100) * of_nat (length (samples lt) - 1) \<le> (q / 100) * of_nat (length (samples lt) - 1)"
    using assms(3) by (intro mult_right_mono) auto
  have "?i p \<le> ?i q" using floor_mono [OF pq] by (rule nat_mono)
  then have "?v ! ?i p \<le> ?v ! ?i q" by (rule sorted_nth_mono [OF sorted_sort _ i(2)])
  moreover have "?v ! ?i p \<in> set (samples lt)" using i(1) by (metis nth_mem set_sort)
  moreover have "?v ! 0 = Min (set (samples lt))" "?v ! (length ?v - 1) = Max (set (samples lt))"
  proof -
    have "?v ! 0 \<le> x" "x \<le> ?v ! (length ?v - 1)" if "x \<in> set (samples lt)" for x
    proof -
      from that obtain k where "k < length ?v" "?v ! k = x" by (metis in_set_conv_nth set_sort)
      then show "?v ! 0 \<le> x" "x \<le> ?v ! (length ?v - 1)"
        using sorted_nth_mono [of ?v 0 k] sorted_nth_mono [of ?v k "length ?v - 1"] by auto
    qed
    moreover have "?v ! 0 \<in> set (samples lt)" "?v ! (length ?v - 1) \<in> set (samples lt)"
      using assms(1) nth_mem [of 0 ?v] nth_mem [of "length ?v - 1" ?v] by (simp_all del: nth_mem)
    ultimately show "?v ! 0 = Min (set (samples lt))" "?v ! (length ?v - 1) = Max (set (samples lt))"
      by (auto intro!: Min_eqI [symmetric] Max_eqI [symmetric])
  qed
  ultimately show ?thesis using i assms(1) n by (simp add: percentile_def Let_def)
qed

theorem percentile_correct_witness:
  "\<exists>x. percentile \<lparr>samples = [30, 10, 20 :: int], max_samples = 4\<rparr> 50 = Inr x \<and> x \<in> {30, 10, 20} \<and>
    percentile \<lparr>samples = [30, 10, 20 :: int], max_samples = 4\<rparr> 100 = Inr 30"
  using percentile_correct [of "\<lparr>samples = [30, 10, 20 :: int], max_samples = 4\<rparr>" 50 99] by auto

subsection \<open>The spin lock\<close>

text \<open>
  A thread spins on \<open>test_and_set\<close>, whose failed rounds change nothing, enters with the
  round that finds the flag clear, and clears it when it leaves.
\<close>

record 't spin =
  flag :: bool
  inside :: "'t set"

inductive spin_step :: "'t spin \<Rightarrow> 't spin \<Rightarrow> bool" where
  spin_wait: "flag s \<Longrightarrow> t \<notin> inside s \<Longrightarrow> spin_step s s"
| spin_lock: "\<not> flag s \<Longrightarrow> t \<notin> inside s \<Longrightarrow> spin_step s (s\<lparr>flag := True, inside := insert t (inside s)\<rparr>)"
| spin_unlock: "t \<in> inside s \<Longrightarrow> spin_step s (s\<lparr>flag := False, inside := inside s - {t}\<rparr>)"

inductive_cases spin_stepE: "spin_step s s'"

inductive spin_reach :: "'t spin \<Rightarrow> bool" where
  spin_init: "spin_reach \<lparr>flag = False, inside = {}\<rparr>"
| spin_next: "spin_reach s \<Longrightarrow> spin_step s s' \<Longrightarrow> spin_reach s'"

lemma spin_inv: "spin_reach s \<Longrightarrow> (\<exists>t. inside s \<subseteq> {t}) \<and> (inside s \<noteq> {} \<longrightarrow> flag s)"
proof (induction rule: spin_reach.induct)
  case (spin_next s s')
  from spin_next.hyps(2) spin_next.IH show ?case
    by (elim spin_stepE) auto
qed simp

text \<open>
  At most one thread is inside the spin lock, and the lock is free whenever none is.
\<close>

theorem spin_lock_exclusive:
  assumes "spin_reach s" "t \<in> inside s" "u \<in> inside s"
  shows "t = u \<and> flag s"
  using spin_inv [OF assms(1)] assms(2,3) by auto

theorem spin_lock_exclusive_witness:
  "\<exists>s :: nat spin. spin_reach s \<and> 3 \<in> inside s \<and> flag s"
proof -
  have "spin_reach \<lparr>flag = True, inside = {3 :: nat}\<rparr>"
    using spin_next [OF spin_init spin_lock [of "\<lparr>flag = False, inside = {}\<rparr>" "3 :: nat"]] by simp
  with spin_lock_exclusive [OF this, of 3 3] show ?thesis by auto
qed

end
