(* ===== verification/Dates.thy ===== *)
theory Dates
  imports Json_Roundtrip
begin

section \<open>Dates as text (Utils::get_string_time and its variants in src/core/utils/utils.cpp)\<close>

text \<open>
  A \<open>time_t\<close> counts seconds since 1970. \<open>gmtime\<close> turns it into a date of the Gregorian calendar, \<open>strftime\<close> writes
  that, in the formats the code uses. The calendar is walked year by year and month by month; that this is the date POSIX
  means is shown against the formula that the standard gives for the seconds of a date.
\<close>

subsection \<open>The calendar\<close>

definition leap_year :: "int \<Rightarrow> bool" where
  "leap_year y \<longleftrightarrow> 4 dvd y \<and> (\<not> 100 dvd y \<or> 400 dvd y)"

definition days_in_year :: "int \<Rightarrow> nat" where
  "days_in_year y = (if leap_year y then 366 else 365)"

definition days_in_month :: "int \<Rightarrow> nat \<Rightarrow> nat" where
  "days_in_month y m = (if m = 1 then (if leap_year y then 29 else 28) else if m \<in> {3, 5, 8, 10} then 30 else 31)"

text \<open>The year in which day \<open>d\<close> of year \<open>y\<close> lies, and its number there; then the same backwards and for months.\<close>

function year_from :: "nat \<Rightarrow> int \<Rightarrow> int \<times> nat" where
  "year_from d y = (if d < days_in_year y then (y, d) else year_from (d - days_in_year y) (y + 1))"
  by pat_completeness auto
termination by (relation "measure fst") (auto simp: days_in_year_def)

declare year_from.simps [simp del]

function year_back :: "nat \<Rightarrow> int \<Rightarrow> int \<times> nat" where
  "year_back n y = (let l = days_in_year (y - 1) in
     if n \<le> l then (y - 1, l - n) else year_back (n - l) (y - 1))"
  by pat_completeness auto
termination by (relation "measure fst") (auto simp: days_in_year_def)

declare year_back.simps [simp del]

function month_from :: "nat \<Rightarrow> int \<Rightarrow> nat \<Rightarrow> nat \<times> nat" where
  "month_from d y m = (if 11 \<le> m \<or> d < days_in_month y m then (m, d) else month_from (d - days_in_month y m) y (m + 1))"
  by pat_completeness auto
termination by (relation "measure (\<lambda>(d, y, m). 12 - m)") auto

declare month_from.simps [simp del]

record tm =
  tm_sec :: nat
  tm_min :: nat
  tm_hour :: nat
  tm_mday :: nat
  tm_mon :: nat
  tm_year :: int

definition gmtime :: "int \<Rightarrow> tm option" where
  "gmtime t = (let days = t div 86400; s = nat (t mod 86400);
       (y, yd) = (if 0 \<le> days then year_from (nat days) 1970 else year_back (nat (- days)) 1970);
       (m, d) = month_from yd y 0
     in if - (2 ^ 31) \<le> y - 1900 \<and> y - 1900 < 2 ^ 31
        then Some \<lparr>tm_sec = s mod 60, tm_min = s div 60 mod 60, tm_hour = s div 3600, tm_mday = d + 1, tm_mon = m, tm_year = y - 1900\<rparr>
        else None)"

subsection \<open>It is the date POSIX means\<close>

definition months_before :: "int \<Rightarrow> nat \<Rightarrow> nat" where
  "months_before y m = (\<Sum>k<m. days_in_month y k)"

definition posix_seconds :: "tm \<Rightarrow> int" where
  "posix_seconds tm = (let yday = int (months_before (tm_year tm + 1900) (tm_mon tm) + tm_mday tm) - 1 in
     int (tm_sec tm) + 60 * int (tm_min tm) + 3600 * int (tm_hour tm) + 86400 * yday + 31536000 * (tm_year tm - 70) +
     86400 * ((tm_year tm - 69) div 4) - 86400 * ((tm_year tm - 1) div 100) + 86400 * ((tm_year tm + 299) div 400))"

definition valid_date :: "tm \<Rightarrow> bool" where
  "valid_date tm \<longleftrightarrow> tm_sec tm < 60 \<and> tm_min tm < 60 \<and> tm_hour tm < 24 \<and> tm_mon tm < 12 \<and> 1 \<le> tm_mday tm \<and>
     tm_mday tm \<le> days_in_month (tm_year tm + 1900) (tm_mon tm)"

definition days_to_year :: "int \<Rightarrow> int" where
  "days_to_year y = 365 * (y - 1970) + (y - 1969) div 4 - (y - 1901) div 100 + (y - 1601) div 400"

lemma div_next:
  fixes z n :: int
  assumes "0 < n"
  shows "(z + 1) div n = z div n + (if n dvd z + 1 then 1 else 0)"
proof -
  let ?q = "z div n" and ?r = "z mod n"
  have z: "z = n * ?q + ?r" and r: "0 \<le> ?r" "?r < n" using assms by simp_all
  show ?thesis
  proof (cases "?r + 1 = n")
    case True
    have "n * (?q + 1) = n * ?q + n" by (simp add: distrib_left)
    with z True have e: "z + 1 = n * (?q + 1)" by linarith
    have "(z + 1) div n = ?q + 1" using assms unfolding e by simp
    moreover have "n dvd z + 1" unfolding e by simp
    ultimately show ?thesis by simp
  next
    case False
    have e: "z + 1 = n * ?q + (?r + 1)" using z by linarith
    from False r have b: "0 \<le> ?r + 1" "?r + 1 < n" by linarith+
    have "(z + 1) div n = ?q" by (rule int_div_pos_eq [OF e b])
    moreover have "(z + 1) mod n = ?r + 1" by (rule int_mod_pos_eq [OF e b])
    ultimately show ?thesis using r by (simp add: dvd_eq_mod_eq_0)
  qed
qed

lemma days_to_next_year: "days_to_year (y + 1) = days_to_year y + int (days_in_year y)"
proof -
  have "(y - 1968) div 4 = (y - 1969) div 4 + (if 4 dvd y then 1 else 0)"
    using div_next [of 4 "y - 1969"] dvd_add_left_iff [of 4 "- 1968" y] by simp
  moreover have "(y - 1900) div 100 = (y - 1901) div 100 + (if 100 dvd y then 1 else 0)"
    using div_next [of 100 "y - 1901"] dvd_add_left_iff [of 100 "- 1900" y] by simp
  moreover have "(y - 1600) div 400 = (y - 1601) div 400 + (if 400 dvd y then 1 else 0)"
    using div_next [of 400 "y - 1601"] dvd_add_left_iff [of 400 "- 1600" y] by simp
  moreover have "400 dvd y \<Longrightarrow> 100 dvd y" "100 dvd y \<Longrightarrow> 4 dvd y"
    using dvd_trans [of 100 400 y] dvd_trans [of 4 100 y] by simp_all
  ultimately show ?thesis by (auto simp: days_to_year_def days_in_year_def leap_year_def algebra_simps)
qed

lemma year_from_days:
  "year_from d y = (y', d') \<Longrightarrow> days_to_year y' + int d' = days_to_year y + int d \<and> d' < days_in_year y'"
proof (induction d y rule: year_from.induct)
  case (1 d y)
  show ?case
  proof (cases "d < days_in_year y")
    case True
    with "1.prems" show ?thesis by (simp add: year_from.simps [of d y])
  next
    case False
    with 1 show ?thesis by (simp add: year_from.simps [of d y] days_to_next_year)
  qed
qed

lemma year_back_days:
  "year_back n y = (y', d') \<Longrightarrow> 0 < n \<Longrightarrow> days_to_year y' + int d' = days_to_year y - int n \<and> d' < days_in_year y'"
proof (induction n y rule: year_back.induct)
  case (1 n y)
  have e: "days_to_year y = days_to_year (y - 1) + int (days_in_year (y - 1))" using days_to_next_year [of "y - 1"] by simp
  show ?case
  proof (cases "n \<le> days_in_year (y - 1)")
    case True
    with "1.prems" e show ?thesis by (auto simp: year_back.simps [of n y] Let_def)
  next
    case False
    with 1 e show ?thesis by (simp add: year_back.simps [of n y] Let_def)
  qed
qed

lemma months_before_12: "months_before y 12 = days_in_year y"
  by (simp add: months_before_def days_in_month_def days_in_year_def numeral_eq_Suc)

lemma month_from_days:
  "month_from d y m = (m', d') \<Longrightarrow> m < 12 \<Longrightarrow> months_before y m + d < days_in_year y \<Longrightarrow>
     months_before y m' + d' = months_before y m + d \<and> m' < 12 \<and> d' < days_in_month y m'"
proof (induction d y m rule: month_from.induct)
  case (1 d y m)
  show ?case
  proof (cases "11 \<le> m \<or> d < days_in_month y m")
    case True
    have "d < days_in_month y m" if "11 \<le> m"
    proof -
      from that 1 have "m = 11" by simp
      with 1 show ?thesis using months_before_12 [of y] by (simp add: months_before_def numeral_eq_Suc)
    qed
    with True 1 show ?thesis by (auto simp: month_from.simps [of d y m])
  next
    case False
    with 1 show ?thesis by (simp add: month_from.simps [of d y m] months_before_def)
  qed
qed

text \<open>
  \<open>gmtime\<close> as the model computes it, by walking the calendar from 1970 in either direction, is the date that
  POSIX assigns to a time: a valid date of the Gregorian calendar whose seconds since the epoch, by the formula of the standard, are the time.
\<close>

theorem gmtime_is_posix:
  assumes "gmtime t = Some tm"
  shows "posix_seconds tm = t \<and> valid_date tm"
proof -
  let ?days = "t div 86400" and ?s = "nat (t mod 86400)"
  obtain y yd where y: "(if 0 \<le> ?days then year_from (nat ?days) 1970 else year_back (nat (- ?days)) 1970) = (y, yd)" by force
  obtain m d where m: "month_from yd y 0 = (m, d)" by force
  have tm: "tm = \<lparr>tm_sec = ?s mod 60, tm_min = ?s div 60 mod 60, tm_hour = ?s div 3600, tm_mday = d + 1, tm_mon = m, tm_year = y - 1900\<rparr>"
    using assms y m by (simp add: gmtime_def Let_def split: if_splits)
  have days: "days_to_year y + int yd = ?days \<and> yd < days_in_year y"
  proof (cases "0 \<le> ?days")
    case True
    with y year_from_days [of "nat ?days" 1970 y yd] show ?thesis by (simp add: days_to_year_def)
  next
    case False
    with y year_back_days [of "nat (- ?days)" 1970 y yd] show ?thesis by (simp add: days_to_year_def)
  qed
  have month: "months_before y m + d = yd \<and> m < 12 \<and> d < days_in_month y m"
    using month_from_days [OF m] days by (simp add: months_before_def)
  have s: "int (?s mod 60) + 60 * int (?s div 60 mod 60) + 3600 * int (?s div 3600) = t mod 86400" "?s div 3600 < 24"
  proof -
    have "?s < 86400" by simp
    then show "?s div 3600 < 24" by (simp add: less_mult_imp_div_less)
    have "?s mod 60 + 60 * (?s div 60 mod 60) + 3600 * (?s div 60 div 60) = ?s"
      using mod_mult_div_eq [of ?s 60] mod_mult_div_eq [of "?s div 60" 60] by linarith
    then have "?s mod 60 + 60 * (?s div 60 mod 60) + 3600 * (?s div 3600) = ?s" by (simp add: div_mult2_eq [symmetric])
    then have "int (?s mod 60 + 60 * (?s div 60 mod 60) + 3600 * (?s div 3600)) = int ?s" by (rule arg_cong)
    then show "int (?s mod 60) + 60 * int (?s div 60 mod 60) + 3600 * int (?s div 3600) = t mod 86400"
      unfolding of_nat_add of_nat_mult of_nat_numeral by simp
  qed
  have f: "posix_seconds tm = int (?s mod 60) + 60 * int (?s div 60 mod 60) + 3600 * int (?s div 3600) +
      86400 * (int (months_before y m + (d + 1)) - 1) + 31536000 * (y - 1970) +
      86400 * ((y - 1969) div 4) - 86400 * ((y - 1901) div 100) + 86400 * ((y - 1601) div 400)"
    by (simp add: posix_seconds_def tm Let_def)
  have "posix_seconds tm = t mod 86400 + 86400 * (int (months_before y m + d) + days_to_year y)"
    unfolding f s(1) days_to_year_def by (simp only: distrib_left right_diff_distrib of_nat_add of_nat_1)
  also have "int (months_before y m + d) + days_to_year y = ?days" using month days by simp
  also have "t mod 86400 + 86400 * ?days = t" by simp
  finally show ?thesis using month s(2) by (simp add: valid_date_def tm Suc_le_eq)
qed

theorem gmtime_is_posix_witness:
  "gmtime 1709210096 = Some \<lparr>tm_sec = 56, tm_min = 34, tm_hour = 12, tm_mday = 29, tm_mon = 1, tm_year = 124\<rparr> \<and>
   posix_seconds \<lparr>tm_sec = 56, tm_min = 34, tm_hour = 12, tm_mday = 29, tm_mon = 1, tm_year = 124\<rparr> = 1709210096"
proof -
  have g: "gmtime 1709210096 = Some \<lparr>tm_sec = 56, tm_min = 34, tm_hour = 12, tm_mday = 29, tm_mon = 1, tm_year = 124\<rparr>"
    by (simp add: gmtime_def year_from.simps month_from.simps days_in_year_def days_in_month_def leap_year_def Let_def)
  with gmtime_is_posix [OF g] show ?thesis by blast
qed

subsection \<open>The texts\<close>

definition two_digits :: "nat \<Rightarrow> string" where
  "two_digits n = [digit_char (n div 10), digit_char (n mod 10)]"

definition clock_text :: "tm \<Rightarrow> string" where
  "clock_text tm = two_digits (tm_hour tm) @ '':'' @ two_digits (tm_min tm) @ '':'' @ two_digits (tm_sec tm)"

definition year_text :: "tm \<Rightarrow> string" where
  "year_text tm = int_to_chars (tm_year tm + 1900)"

text \<open>\<open>strftime\<close> into a buffer of 80 characters; what does not fit leaves it unspecified.\<close>

definition strftime_80 :: "string \<Rightarrow> string result" where
  "strftime_80 s = (if length s < 80 then Inr s else Inl (UB Uninitialized))"

definition dmy_text :: "tm \<Rightarrow> string" where
  "dmy_text tm = two_digits (tm_mday tm) @ ''-'' @ two_digits (tm_mon tm + 1) @ ''-'' @ year_text tm @ '' '' @ clock_text tm"

definition ymd_text :: "tm \<Rightarrow> string" where
  "ymd_text tm = year_text tm @ ''-'' @ two_digits (tm_mon tm + 1) @ ''-'' @ two_digits (tm_mday tm) @ '' '' @ clock_text tm"

definition get_string_time :: "int \<Rightarrow> int \<Rightarrow> string result" where
  "get_string_time time_val offset = bindE (chk64 (time_val + offset)) (\<lambda>t.
     case gmtime t of None \<Rightarrow> Inl (UB Null_Pointer) | Some timeinfo \<Rightarrow> strftime_80 (dmy_text timeinfo))"

definition get_string_time_YMD :: "int \<Rightarrow> int \<Rightarrow> string result" where
  "get_string_time_YMD time_val offset = bindE (chk64 (time_val + offset)) (\<lambda>t.
     case gmtime t of None \<Rightarrow> Inl (UB Null_Pointer) | Some timeinfo \<Rightarrow> strftime_80 (ymd_text timeinfo))"

text \<open>\<open>sprintf\<close> with \<open>%03d\<close> into \<open>mili_buffer\<close>, which has five characters: the sign counts for the width.\<close>

definition padded :: "nat \<Rightarrow> string \<Rightarrow> string" where
  "padded w s = replicate (w - length s) CHR ''0'' @ s"

definition print_millisec :: "int \<Rightarrow> string result" where
  "print_millisec i = (let s = (if i < 0 then CHR ''-'' # padded 2 (nat_to_chars (nat (- i))) else padded 3 (nat_to_chars (nat i)))
     in if length s + 1 \<le> 5 then Inr s else Inl (UB Buffer_Overflow))"

definition get_string_time_YMD_with_millisecond :: "int \<Rightarrow> int \<Rightarrow> string result" where
  "get_string_time_YMD_with_millisecond time_val offset = bindE (chk64 (time_val + offset)) (\<lambda>t.
     let millisec = t smod 1000; t' = t sdiv 1000 in
     case gmtime t' of
       None \<Rightarrow> Inr []
     | Some timeinfo \<Rightarrow> bindE (strftime_80 (ymd_text timeinfo)) (\<lambda>s.
         bindE (print_millisec millisec) (\<lambda>ms. Inr (s @ '':'' @ ms))))"

lemma nat_to_chars_length: "n < 10 ^ k \<Longrightarrow> 0 < k \<Longrightarrow> length (nat_to_chars n) \<le> k"
proof (induction n arbitrary: k rule: nat_to_chars.induct)
  case (1 n)
  show ?case
  proof (cases "n < 10")
    case True
    with "1.prems" show ?thesis by (simp add: nat_to_chars.simps [of n])
  next
    case False
    have "k \<noteq> 1" using "1.prems" False by auto
    with "1.prems"(2) obtain j where j: "k = Suc j" "0 < j" by (cases k) auto
    with "1.prems" have "n div 10 < 10 ^ j" by (simp add: less_mult_imp_div_less)
    with "1.IH" [OF False _ j(2)] j(1) False show ?thesis by (simp add: nat_to_chars.simps [of n])
  qed
qed

lemma gmtime_year: "gmtime t = Some tm \<Longrightarrow> - (2 ^ 31) \<le> tm_year tm \<and> tm_year tm < 2 ^ 31"
  by (auto simp: gmtime_def Let_def split: prod.splits if_splits)

lemma year_text_length:
  assumes "gmtime t = Some tm"
  shows "length (year_text tm) \<le> 12"
proof -
  note y = gmtime_year [OF assms]
  from y have "nat (tm_year tm + 1900) < 10 ^ 11" "nat (- (tm_year tm + 1900)) < 10 ^ 11" by (simp, arith)+
  then have "length (nat_to_chars (nat (tm_year tm + 1900))) \<le> 11" "length (nat_to_chars (nat (- (tm_year tm + 1900)))) \<le> 11"
    using nat_to_chars_length [of "nat (tm_year tm + 1900)" 11] nat_to_chars_length [of "nat (- (tm_year tm + 1900))" 11] by simp_all
  then show ?thesis by (simp add: year_text_def int_to_chars_def)
qed

lemma strftime_fits:
  assumes "gmtime t = Some tm"
  shows "strftime_80 (ymd_text tm) = Inr (ymd_text tm)" "strftime_80 (dmy_text tm) = Inr (dmy_text tm)"
  using year_text_length [OF assms] by (simp_all add: strftime_80_def ymd_text_def dmy_text_def two_digits_def clock_text_def)

lemma print_millisec_fits:
  assumes "- 1000 < i" "i < 1000"
  shows "\<exists>s. print_millisec i = Inr s"
proof -
  from assms have "nat i < 10 ^ 3" "nat (- i) < 10 ^ 3" by simp_all
  then have "length (nat_to_chars (nat i)) \<le> 3" "length (nat_to_chars (nat (- i))) \<le> 3"
    using nat_to_chars_length [of "nat i" 3] nat_to_chars_length [of "nat (- i)" 3] by simp_all
  then show ?thesis by (simp add: print_millisec_def padded_def Let_def) arith
qed

text \<open>The text with milliseconds always fits its buffers, for times before 1970 too.\<close>

theorem millisecond_text_fits:
  assumes "in_int64 (t + offset)"
  shows "\<exists>s. get_string_time_YMD_with_millisecond t offset = Inr s"
proof -
  have "- 1000 < (t + offset) smod 1000" "(t + offset) smod 1000 < 1000"
    using smod_int_range [of 1000 "t + offset"] by auto
  from print_millisec_fits [OF this] obtain ms where "print_millisec ((t + offset) smod 1000) = Inr ms" by blast
  then show ?thesis using assms strftime_fits
    by (auto simp: get_string_time_YMD_with_millisecond_def chk64_def Let_def split: option.splits)
qed

theorem millisecond_text_fits_witness: "\<exists>s. get_string_time_YMD_with_millisecond (- 1) 0 = Inr s"
  by (rule millisecond_text_fits) (simp add: in_int64_def)

subsection \<open>Reading a date\<close>

definition number_at :: "string \<Rightarrow> nat \<Rightarrow> nat" where
  "number_at s k = 10 * the (char_digit (s ! k)) + the (char_digit (s ! (k + 1)))"

definition read_time :: "string \<Rightarrow> int" where
  "read_time s = (let ds = digits_prefix s; r = drop (length ds) s in
     posix_seconds \<lparr>tm_sec = number_at r 13, tm_min = number_at r 10, tm_hour = number_at r 7, tm_mday = number_at r 4,
       tm_mon = number_at r 1 - 1, tm_year = int (digits_value ds) - 1900\<rparr>)"

lemma digits_prefix_length: "length (digits_prefix (nat_to_chars n)) = length (nat_to_chars n)"
proof -
  have "\<forall>c \<in> set s. char_digit c \<noteq> None \<Longrightarrow> length (digits_prefix s) = length s" for s by (induction s) auto
  with nat_chars_digits show ?thesis by blast
qed

lemma ymd_reads_back:
  assumes g: "gmtime t = Some tm" and y: "0 \<le> tm_year tm + 1900"
  shows "read_time (ymd_text tm) = t"
proof -
  let ?y = "nat_to_chars (nat (tm_year tm + 1900))"
  let ?r = "''-'' @ two_digits (tm_mon tm + 1) @ ''-'' @ two_digits (tm_mday tm) @ '' '' @ clock_text tm"
  have p: "posix_seconds tm = t" and v: "valid_date tm" using gmtime_is_posix [OF g] by simp_all
  have tx: "ymd_text tm = ?y @ ?r" using y by (simp add: ymd_text_def year_text_def int_to_chars_def)
  have "digits_prefix ?r = []" using minus_no_digit by simp
  then have ds: "digits_prefix (ymd_text tm) = digits_prefix ?y"
    unfolding tx using digits_prefix_append [OF nat_chars_digits] by simp
  have r: "drop (length (digits_prefix (ymd_text tm))) (ymd_text tm) = ?r"
    unfolding ds digits_prefix_length unfolding tx by simp
  have "days_in_month k m \<le> 31" for k m by (simp add: days_in_month_def)
  with v have b: "tm_sec tm < 100" "tm_min tm < 100" "tm_hour tm < 100" "tm_mon tm + 1 < 100" "tm_mday tm < 100"
    unfolding valid_date_def by (force dest: le_trans)+
  have n: "10 * the (char_digit (digit_char (k div 10))) + the (char_digit (digit_char (k mod 10))) = k" if "k < 100" for k
    using that by (simp add: less_mult_imp_div_less)
  have "number_at ?r 13 = tm_sec tm" "number_at ?r 10 = tm_min tm" "number_at ?r 7 = tm_hour tm" "number_at ?r 4 = tm_mday tm"
    "number_at ?r 1 = tm_mon tm + 1"
    using n b by (simp_all add: number_at_def two_digits_def clock_text_def)
  moreover have "int (digits_value (digits_prefix ?y)) - 1900 = tm_year tm" using y by (simp add: nat_chars_value)
  moreover have "\<lparr>tm_sec = tm_sec tm, tm_min = tm_min tm, tm_hour = tm_hour tm, tm_mday = tm_mday tm, tm_mon = tm_mon tm + 1 - 1,
      tm_year = tm_year tm\<rparr> = tm" by simp
  ultimately show ?thesis using p unfolding read_time_def Let_def r unfolding ds by (simp only:)
qed

text \<open>
  the text \<open>get_string_time_YMD\<close> makes of a time reads back as that time, offset included, for every year from 0 on.
\<close>

theorem date_text_reads_back:
  assumes "in_int64 (t + offset)" "gmtime (t + offset) = Some tm" "0 \<le> tm_year tm + 1900"
  shows "\<exists>s. get_string_time_YMD t offset = Inr s \<and> read_time s = t + offset"
  using assms ymd_reads_back [OF assms(2,3)] strftime_fits [OF assms(2)] by (simp add: get_string_time_YMD_def chk64_def)

theorem date_text_reads_back_witness:
  "\<exists>s. get_string_time_YMD 1709184896 25200 = Inr s \<and> read_time s = 1709210096"
proof -
  have g: "gmtime (1709184896 + 25200) = Some \<lparr>tm_sec = 56, tm_min = 34, tm_hour = 12, tm_mday = 29, tm_mon = 1, tm_year = 124\<rparr>"
    by (simp add: gmtime_def year_from.simps month_from.simps days_in_year_def days_in_month_def leap_year_def Let_def)
  from date_text_reads_back [OF _ g] show ?thesis by (simp add: in_int64_def)
qed

end
