(* ===== verification/Base64.thy ===== *)
theory Base64
  imports Cpp_Strings
begin

section \<open>The base64 coder (Utils::base64_encode, Utils::base64_decode in src/core/utils/utils.cpp)\<close>

text \<open>
  The byte loops of the coder, with the arrays \<open>char_array_3\<close> and \<open>char_array_4\<close> as the
  list of the bytes collected so far, and the bit arithmetic on bytes as it is written.
  \<open>base64_chars.find\<close> returns \<open>npos\<close> for a character outside the alphabet, which the
  assignment to a byte cuts to 255. The encoder counts with an \<open>unsigned int\<close> down from the given length, which may be
  more than the buffer holds; the decoder has the length as an \<open>int\<close>, cut to 32 bits, and counts it down while it counts
  the position up, each step checked for overflow. Behind its last character a string reads as NUL.
\<close>

unbundle bit_operations_syntax

definition base64_chars :: string where
  "base64_chars = ''ABCDEFGHIJKLMNOPQRSTUVWXYZabcdefghijklmnopqrstuvwxyz0123456789+/''"

definition is_base64 :: "char \<Rightarrow> bool" where
  "is_base64 c \<longleftrightarrow> c \<in> set ''ABCDEFGHIJKLMNOPQRSTUVWXYZ'' \<or> c \<in> set ''abcdefghijklmnopqrstuvwxyz'' \<or>
     c \<in> set ''0123456789'' \<or> c = CHR ''+'' \<or> c = CHR ''/''"

definition b64_char :: "u8 \<Rightarrow> char" where
  "b64_char i = base64_chars ! unat i"

definition b64_index :: "char \<Rightarrow> u8" where
  "b64_index c = (case find_first_of base64_chars 0 [c] of None \<Rightarrow> 255 | Some i \<Rightarrow> of_nat i)"

definition split3 :: "u8 \<Rightarrow> u8 \<Rightarrow> u8 \<Rightarrow> u8 list" where
  "split3 a0 a1 a2 =
     [drop_bit 2 (a0 AND 0xfc),
      push_bit 4 (a0 AND 0x03) + drop_bit 4 (a1 AND 0xf0),
      push_bit 2 (a1 AND 0x0f) + drop_bit 6 (a2 AND 0xc0),
      a2 AND 0x3f]"

definition join4 :: "u8 \<Rightarrow> u8 \<Rightarrow> u8 \<Rightarrow> u8 \<Rightarrow> u8 list" where
  "join4 c0 c1 c2 c3 =
     [push_bit 2 c0 + drop_bit 4 (c1 AND 0x30),
      push_bit 4 (c1 AND 0xf) + drop_bit 2 (c2 AND 0x3c),
      push_bit 6 (c2 AND 0x3) + c3]"

definition encode_tail :: "u8 list \<Rightarrow> string" where
  "encode_tail arr =
     (let i = length arr; pad = arr @ replicate (3 - i) 0 in
      if i = 0 then []
      else map b64_char (take (i + 1) (split3 (pad ! 0) (pad ! 1) (pad ! 2))) @ replicate (3 - i) (CHR ''=''))"

fun encode_loop :: "string \<Rightarrow> u8 list \<Rightarrow> u8 list \<Rightarrow> u32 \<Rightarrow> string result" where
  "encode_loop ret arr buf bufLen =
     (if bufLen = 0 then Inr (ret @ encode_tail arr)
      else case buf of
        [] \<Rightarrow> Inl (UB Out_Of_Bounds)
      | b # rest \<Rightarrow>
          if length arr + 1 = 3 then encode_loop (ret @ map b64_char (split3 (arr ! 0) (arr ! 1) b)) [] rest (bufLen - 1)
          else encode_loop ret (arr @ [b]) rest (bufLen - 1))"

definition base64_encode :: "u8 list \<Rightarrow> u32 \<Rightarrow> string result" where
  "base64_encode buf bufLen = encode_loop [] [] buf bufLen"

definition decode_tail :: "char list \<Rightarrow> u8 list" where
  "decode_tail arr =
     (let i = length arr; pad = map b64_index (arr @ replicate (4 - i) (CHR 0x00)) in
      if i = 0 then [] else take (i - 1) (join4 (pad ! 0) (pad ! 1) (pad ! 2) (pad ! 3)))"

text \<open>\<open>s\<close> is the string from the position \<open>in_pos\<close> on.\<close>

fun decode_loop :: "u8 list \<Rightarrow> char list \<Rightarrow> string \<Rightarrow> int \<Rightarrow> int \<Rightarrow> u8 list result" where
  "decode_loop ret arr s in_len in_pos =
     (if in_len = 0 then Inr (ret @ decode_tail arr)
      else if in_len = - 2147483648 then Inl (UB Signed_Overflow)
      else case s of
        [] \<Rightarrow> Inr (ret @ decode_tail arr)
      | c # rest \<Rightarrow>
          if c = CHR ''='' \<or> \<not> is_base64 c then Inr (ret @ decode_tail arr)
          else if in_pos = 2147483647 then Inl (UB Signed_Overflow)
          else if length arr + 1 = 4 then
            decode_loop (ret @ join4 (b64_index (arr ! 0)) (b64_index (arr ! 1)) (b64_index (arr ! 2)) (b64_index c)) [] rest
              (in_len - 1) (in_pos + 1)
          else decode_loop ret (arr @ [c]) rest (in_len - 1) (in_pos + 1))"

definition base64_decode :: "string \<Rightarrow> u8 list result" where
  "base64_decode s = decode_loop [] [] s (sint (of_nat (length s) :: 32 word)) 0"

declare encode_loop.simps [simp del] decode_loop.simps [simp del]

subsection \<open>Bytes bit by bit\<close>

lemma less8: "n < 8 \<Longrightarrow> n = 0 \<or> n = 1 \<or> n = 2 \<or> n = 3 \<or> n = 4 \<or> n = 5 \<or> n = 6 \<or> n = (7::nat)"
  by arith

lemma word8_eqI:
  assumes "bit x 0 = bit y 0" "bit x 1 = bit y 1" "bit x 2 = bit y 2" "bit x 3 = bit y 3"
    "bit x 4 = bit y 4" "bit x 5 = bit y 5" "bit x 6 = bit y 6" "bit x 7 = bit y 7"
  shows "x = (y :: u8)"
  by (rule bit_word_eqI) (use assms in \<open>auto dest: less8\<close>)

lemma add8:
  fixes x y :: u8
  assumes "\<And>n. n < 8 \<Longrightarrow> \<not> bit x n \<or> \<not> bit y n"
  shows "x + y = x OR y"
proof (rule disjunctive_add)
  fix n
  show "\<not> bit x n \<or> \<not> bit y n"
    using assms [of n] bit_imp_le_length [of x n] by auto
qed

lemma bit8 [simp]: "8 \<le> n \<Longrightarrow> \<not> bit (x :: u8) n"
  using bit_imp_le_length [of x n] by auto

text \<open>The three sums of the encoder and of the decoder never carry.\<close>

lemma enc_sums:
  fixes a b c :: u8
  shows "push_bit 4 (a AND 3) + drop_bit 4 (b AND 0xf0) = push_bit 4 (a AND 3) OR drop_bit 4 (b AND 0xf0)"
    "push_bit 2 (b AND 0xf) + drop_bit 6 (c AND 0xc0) = push_bit 2 (b AND 0xf) OR drop_bit 6 (c AND 0xc0)"
  by (rule add8, drule less8, elim disjE, simp_all add: bit_simps)+

lemma join_split:
  fixes a b c :: u8
  shows "push_bit 2 (drop_bit 2 (a AND 0xfc)) +
      drop_bit 4 ((push_bit 4 (a AND 3) OR drop_bit 4 (b AND 0xf0)) AND 0x30) = a"
    "push_bit 4 ((push_bit 4 (a AND 3) OR drop_bit 4 (b AND 0xf0)) AND 0xf) +
      drop_bit 2 ((push_bit 2 (b AND 0xf) OR drop_bit 6 (c AND 0xc0)) AND 0x3c) = b"
    "push_bit 6 ((push_bit 2 (b AND 0xf) OR drop_bit 6 (c AND 0xc0)) AND 3) + (c AND 0x3f) = c"
  by (subst add8, drule less8, elim disjE, simp_all add: bit_simps, rule word8_eqI, simp_all add: bit_simps)+

lemma join4_split3:
  "join4 (drop_bit 2 (a AND 0xfc)) (push_bit 4 (a AND 0x03) + drop_bit 4 (b AND 0xf0))
     (push_bit 2 (b AND 0x0f) + drop_bit 6 (c AND 0xc0)) (c AND 0x3f) = [a, b, c]"
  unfolding join4_def enc_sums join_split ..

subsection \<open>Characters\<close>

lemma six_bits:
  fixes a b c :: u8
  shows "unat (drop_bit 2 (a AND 0xfc)) < 64"
    "unat (push_bit 4 (a AND 0x03) + drop_bit 4 (b AND 0xf0)) < 64"
    "unat (push_bit 2 (b AND 0x0f) + drop_bit 6 (c AND 0xc0)) < 64" "unat (c AND 0x3f) < 64"
proof -
  have t: "unat x < 64" if "x = take_bit 6 x" for x :: u8
  proof -
    have "unat (take_bit 6 x) = take_bit 6 (unat x)" by (rule unsigned_take_bit_eq)
    also have "\<dots> < 2 ^ 6" by (rule take_bit_nat_less_exp)
    finally show ?thesis using that by simp
  qed
  show "unat (drop_bit 2 (a AND 0xfc)) < 64" "unat (c AND 0x3f) < 64"
    by (rule t, rule word8_eqI, simp_all add: bit_simps)+
  show "unat (push_bit 4 (a AND 0x03) + drop_bit 4 (b AND 0xf0)) < 64"
    "unat (push_bit 2 (b AND 0x0f) + drop_bit 6 (c AND 0xc0)) < 64"
    unfolding enc_sums by (rule t, rule word8_eqI, simp_all add: bit_simps)+
qed

lemma b64_char_all: "\<forall>i \<in> set [0..<64]. find_first_of base64_chars 0 [base64_chars ! i] = Some i \<and>
    is_base64 (base64_chars ! i) \<and> base64_chars ! i \<noteq> CHR ''=''"
  by code_simp

lemma b64_char_ok [simp]:
  assumes "unat i < 64"
  shows "b64_index (b64_char i) = i" "is_base64 (b64_char i)" "b64_char i \<noteq> CHR ''=''"
  using b64_char_all assms by (simp_all add: b64_index_def b64_char_def)

lemma b64_pad: "b64_index (CHR 0x00) = 255"
  by code_simp

subsection \<open>Reading what was written\<close>

text \<open>The text of a list of bytes, without the accumulator and the counter.\<close>

fun encoded :: "u8 list \<Rightarrow> string" where
  "encoded (a # b # c # r) = map b64_char (split3 a b c) @ encoded r"
| "encoded bs = encode_tail bs"

lemma encoded_short: "length bs < 3 \<Longrightarrow> encoded bs = encode_tail bs"
  by (cases bs rule: encoded.cases) simp_all

lemma encode_loop_more:
  assumes "unat n \<noteq> 0"
  shows "encode_loop ret arr (b # rest) n = (if length arr + 1 = 3
    then encode_loop (ret @ map b64_char (split3 (arr ! 0) (arr ! 1) b)) [] rest (n - 1)
    else encode_loop ret (arr @ [b]) rest (n - 1))"
  using assms by (subst encode_loop.simps) auto

lemma unat_pred: "unat n = Suc k \<Longrightarrow> unat (n - 1) = k" for n :: u32
  by (metis diff_Suc_1 nat.simps(3) unat_eq_zero unat_minus_one)

lemma encode_loop_text: "unat n = length bs \<Longrightarrow> encode_loop ret [] bs n = Inr (ret @ encoded bs)"
proof (induction bs arbitrary: ret n rule: encoded.induct [case_names more none one two])
  case (more a b c r)
  note n1 = unat_pred [OF more(2) [simplified]]
  note n2 = unat_pred [OF n1]
  note n3 = unat_pred [OF n2]
  have "encode_loop ret [] (a # b # c # r) n = encode_loop (ret @ map b64_char (split3 a b c)) [] r (n - 1 - 1 - 1)"
    using more(2) n1 n2 by (simp add: encode_loop_more)
  with more(1) [OF n3] show ?case by simp
next
  case none
  then have "n = 0" by (simp add: unat_eq_0)
  then show ?case by (subst encode_loop.simps) simp
next
  case (one a)
  note n1 = unat_pred [OF one [simplified]]
  then have "n - 1 = 0" by (simp only: unat_eq_0)
  then have "encode_loop ret [a] [] (n - 1) = Inr (ret @ encode_tail [a])" by (subst encode_loop.simps) simp
  with one show ?case by (simp add: encode_loop_more)
next
  case (two a b)
  note n1 = unat_pred [OF two [simplified]]
  note n2 = unat_pred [OF n1]
  then have "n - 1 - 1 = 0" by (simp only: unat_eq_0)
  then have "encode_loop ret [a, b] [] (n - 1 - 1) = Inr (ret @ encode_tail [a, b])" by (subst encode_loop.simps) simp
  with two n1 show ?case by (simp add: encode_loop_more)
qed

lemma encode_tail_length: "bs \<noteq> [] \<Longrightarrow> length bs < 3 \<Longrightarrow> length (encode_tail bs) = 4"
  by (cases bs rule: encoded.cases) (simp_all add: encode_tail_def split3_def numeral_eq_Suc)

lemma encoded_length: "length (encoded bs) = 4 * ((length bs + 2) div 3)"
proof (induction bs rule: encoded.induct [case_names more none one two])
  case (more a b c r)
  have "(length (a # b # c # r) + 2) div 3 = (length r + 2) div 3 + 1" by simp
  with more show ?case by (simp add: split3_def)
qed (simp_all add: encode_tail_length encode_tail_def [of "[]"])

lemma decode_loop_step:
  assumes "is_base64 c" "c \<noteq> CHR ''=''" "1 \<le> l" "0 \<le> i" "i + l < 2147483648"
  shows "decode_loop ret arr (c # s) l i = (if length arr + 1 = 4
      then decode_loop (ret @ join4 (b64_index (arr ! 0)) (b64_index (arr ! 1)) (b64_index (arr ! 2)) (b64_index c)) [] s (l - 1) (i + 1)
      else decode_loop ret (arr @ [c]) s (l - 1) (i + 1))"
  using assms by (subst decode_loop.simps) simp

lemma decode_loop_stop:
  "l \<noteq> - 2147483648 \<Longrightarrow> decode_loop ret arr (CHR ''='' # s) l i = Inr (ret @ decode_tail arr)"
  by (subst decode_loop.simps) simp

lemma decode_loop_end: "decode_loop ret arr s 0 i = Inr (ret @ decode_tail arr)"
  by (subst decode_loop.simps) simp

lemma decode_loop_text:
  "int (length (encoded bs)) = l \<Longrightarrow> 0 \<le> i \<Longrightarrow> i + l < 2147483648 \<Longrightarrow> decode_loop ret [] (encoded bs) l i = Inr (ret @ bs)"
proof (induction bs arbitrary: ret l i rule: encoded.induct [case_names more none one two])
  case (more a b c r)
  note six = six_bits(1) [of a] six_bits(2) [of a b] six_bits(3) [of b c] six_bits(4) [of c]
  have l: "int (length (encoded r)) = l - 4" "4 \<le> l" using more(2) by (simp_all add: split3_def)
  have "decode_loop ret [] (encoded (a # b # c # r)) l i = decode_loop (ret @ [a, b, c]) [] (encoded r) (l - 4) (4 + i)"
    using l(2) more(3,4) six join4_split3 [of a b c] by (simp add: split3_def decode_loop_step numeral_3_eq_3)
  with more(1) [OF l(1), of "4 + i" "ret @ [a, b, c]"] more(3,4) show ?case by simp
next
  case none
  then show ?case by (simp add: encode_tail_def decode_loop_end decode_tail_def)
next
  case (one a)
  have "take 1 (join4 (drop_bit 2 (a AND 0xfc)) (push_bit 4 (a AND 0x03) + drop_bit 4 (0 AND 0xf0)) x y) = [a]" for x y
    unfolding join4_def enc_sums join_split by simp
  moreover have "l = 4" using one by (simp add: encode_tail_length)
  ultimately show ?case
    using one six_bits(1) [of a] six_bits(2) [of a 0]
    by (simp add: encode_tail_def split3_def decode_loop_step decode_loop_stop decode_tail_def numeral_eq_Suc del: and_zero_eq)
next
  case (two a b)
  have "take 2 (join4 (drop_bit 2 (a AND 0xfc)) (push_bit 4 (a AND 0x03) + drop_bit 4 (b AND 0xf0))
      (push_bit 2 (b AND 0x0f) + drop_bit 6 (0 AND 0xc0)) y) = [a, b]" for y
    unfolding join4_def enc_sums join_split by simp
  moreover have "l = 4" using two by (simp add: encode_tail_length)
  ultimately show ?case
    using two six_bits(1) [of a] six_bits(2) [of a b] six_bits(3) [of b 0]
    by (simp add: encode_tail_def split3_def decode_loop_step decode_loop_stop decode_tail_def numeral_eq_Suc del: and_zero_eq)
qed

lemma int_of_length: "sint (of_nat n :: 32 word) = signed_take_bit 31 (int n)"
  using sint_sbintrunc' [of "int n", where 'a = 32] by simp

text \<open>A text of \<open>2 ^ 31\<close> characters: its length as an \<open>int\<close> is the smallest, and counting it down overflows.\<close>

lemma base64_too_long: "length t = 2 ^ 31 \<Longrightarrow> base64_decode t = Inl (UB Signed_Overflow)"
proof -
  assume "length t = 2 ^ 31"
  then have "sint (of_nat (length t) :: 32 word) = - 2147483648" by (simp only: int_of_length) (simp add: signed_take_bit_eq_if_negative)
  then show ?thesis unfolding base64_decode_def by (subst decode_loop.simps) simp
qed

text \<open>
  C19: decoding what was encoded gives the bytes back, whatever they are, as long as the text has fewer than \<open>2 ^ 31\<close> characters,
  which is what the decoder's \<open>int\<close> can count (see \<open>base64_too_long\<close>).
\<close>

theorem base64_roundtrip:
  assumes "4 * ((length bs + 2) div 3) < 2 ^ 31"
  shows "\<exists>s. base64_encode bs (of_nat (length bs)) = Inr s \<and> length s = 4 * ((length bs + 2) div 3) \<and> base64_decode s = Inr bs"
proof -
  have n: "unat (of_nat (length bs) :: u32) = length bs" using assms by (simp add: unat_of_nat take_bit_nat_eq_self)
  have "sint (of_nat (length (encoded bs)) :: 32 word) = int (length (encoded bs))"
    unfolding int_of_length using assms by (intro signed_take_bit_int_eq_self) (simp_all add: encoded_length)
  with decode_loop_text [of bs _ 0 "[]"] assms have "base64_decode (encoded bs) = Inr bs"
    by (simp add: base64_decode_def encoded_length)
  with encode_loop_text [OF n, of "[]"] show ?thesis by (simp add: base64_encode_def encoded_length)
qed

theorem base64_roundtrip_witness:
  "\<exists>s. base64_encode [0x4d, 0x61] 2 = Inr s \<and> length s = 4 \<and> base64_decode s = Inr [0x4d, 0x61]"
  using base64_roundtrip [of "[0x4d, 0x61]"] by simp

end
