(* ===== verification/Coroutines.thy ===== *)
theory Coroutines
  imports CachePool MPSCQueue
begin

section \<open>Tasks, futures and event bases (src/core/coroutine)\<close>

text \<open>
  The scheduler of the coroutines: \<open>base_promise_type.h\<close>, \<open>base_task.h\<close>,
  \<open>task.h\<close>, \<open>future.h\<close>, \<open>event_base.h\<close> and \<open>event_base.cpp\<close>. A
  coroutine is a value of type \<open>coro\<close>: what its body does next as far as the scheduler
  can see, with a continuation for every \<open>co_await\<close>. The runtime holds the coroutine
  frames and the awaited futures by address (addresses are never used twice), the pool of
  \<open>TaskInfo\<close> records and one ready queue for every event base, the last two as modelled
  in \<open>CachePool\<close> and \<open>MPSCQueue\<close>. One event base runs one task at a time, until it
  suspends; what the event bases, the timers and other threads do interleaves between such
  runs. \<open>Coroutines_Inv\<close> has the invariant and the theorems.
\<close>

subsection \<open>The state\<close>

datatype ('c, 'v) segment =
    Return 'v
  | Await_Task 'c "'v \<Rightarrow> 'c"
  | Await_Future "'v option" "'v \<Rightarrow> 'c"
  | Spawn nat 'c "('c, 'v) segment"

codatatype 'v coro = Body (code: "('v coro, 'v) segment")

text \<open>
  \<open>Await_Task b k\<close> is \<open>co_await f()\<close> for a coroutine function \<open>f\<close> with body \<open>b\<close>.
  \<open>Await_Future w k\<close> awaits a \<open>Future\<close>; \<open>w\<close> is the value its execute function sets at
  once, if it does, else somebody sets it later. \<open>Spawn eb b c\<close> is
  \<open>{ auto task = f(); task.start_running_on(eb); }\<close> followed by \<open>c\<close>. A \<open>segment\<close> is
  what a body does up to its next suspension, which is finite: the code between two \<open>co_await\<close>s is taken to end.
  The body as a whole is not: a coroutine may go on awaiting for ever, as \<open>polling\<close> in \<open>Coroutines_Props\<close> does.

  A suspended frame keeps the awaitable of its \<open>co_await\<close> expression alive: the temporary
  \<open>Task\<close> that owns the child, or the temporary \<open>Future\<close>.
\<close>

datatype 'v resume_point =
    At_Start "'v coro"
  | After_Task nat "'v \<Rightarrow> 'v coro"
  | After_Future nat "'v \<Rightarrow> 'v coro"
  | At_Final

record 'v promise =
  m_is_waiting :: bool
  m_suspending_promise :: "nat option"
  m_event_base :: "nat option"
  is_task_release :: bool
  task_ptr :: "ptr option"
  task_value :: "'v option"
  resume_point :: "'v resume_point"

record 'v future_value =
  m_value :: "'v option"
  m_is_set :: bool
  future_promise :: "nat option"

record task_info =
  ti_handle :: "nat option"
  base_promise_type_address :: "nat option"
  event_base :: "nat option"
  is_first_time :: bool

record 'v runtime =
  promises :: "nat \<Rightarrow> 'v promise option"
  futures :: "nat \<Rightarrow> 'v future_value option"
  next_address :: nat
  task_infos :: "task_info pool"
  ready_queue :: "nat \<Rightarrow> ptr pool_buffer"

definition MAX_TASK_INFO :: nat where
  "MAX_TASK_INFO = 20000"

definition clear_task_info :: "task_info \<Rightarrow> task_info" where
  "clear_task_info ti = ti\<lparr>ti_handle := None, base_promise_type_address := None, event_base := None\<rparr>"

definition task_info_class :: "task_info pool_class" where
  "task_info_class = \<lparr>type_name = ''TaskInfo'', has_init = None, has_clear = Some clear_task_info\<rparr>"

definition new_task_info :: task_info where
  "new_task_info = \<lparr>ti_handle = None, base_promise_type_address = None, event_base = None, is_first_time = True\<rparr>"

definition new_runtime :: "nat \<Rightarrow> 'v runtime" where
  "new_runtime n = \<lparr>promises = (\<lambda>_. None), futures = (\<lambda>_. None), next_address = 0,
     task_infos = new_pool (replicate n new_task_info), ready_queue = (\<lambda>_. new_mpsc n ''TaskInfo'')\<rparr>"

subsection \<open>Frames\<close>

definition is_done :: "'v promise \<Rightarrow> bool" where
  "is_done f \<longleftrightarrow> (case resume_point f of At_Final \<Rightarrow> True | _ \<Rightarrow> False)"

definition promise_at :: "nat \<Rightarrow> 'v runtime \<Rightarrow> 'v promise result" where
  "promise_at a rt = (case promises rt a of None \<Rightarrow> Inl (UB Use_After_Free) | Some f \<Rightarrow> Inr f)"

definition future_at :: "nat \<Rightarrow> 'v runtime \<Rightarrow> 'v future_value result" where
  "future_at k rt = (case futures rt k of None \<Rightarrow> Inl (UB Use_After_Free) | Some v \<Rightarrow> Inr v)"

definition put_promise :: "nat \<Rightarrow> 'v promise \<Rightarrow> 'v runtime \<Rightarrow> 'v runtime" where
  "put_promise a f rt = rt\<lparr>promises := (promises rt)(a \<mapsto> f)\<rparr>"

definition put_future :: "nat \<Rightarrow> 'v future_value \<Rightarrow> 'v runtime \<Rightarrow> 'v runtime" where
  "put_future k v rt = rt\<lparr>futures := (futures rt)(k \<mapsto> v)\<rparr>"

text \<open>Calling a coroutine function: the frame is made, and \<open>initial_suspend\<close> stops at once.\<close>

definition create_coroutine :: "'v coro \<Rightarrow> 'v runtime \<Rightarrow> nat \<times> 'v runtime" where
  "create_coroutine b rt = (next_address rt,
     rt\<lparr>promises := (promises rt)(next_address rt \<mapsto>
          \<lparr>m_is_waiting = False, m_suspending_promise = None, m_event_base = None, is_task_release = False,
           task_ptr = None, task_value = None, resume_point = At_Start b\<rparr>),
        next_address := next_address rt + 1\<rparr>)"

definition create_future :: "'v runtime \<Rightarrow> nat \<times> 'v runtime" where
  "create_future rt = (next_address rt,
     rt\<lparr>futures := (futures rt)(next_address rt \<mapsto> \<lparr>m_value = None, m_is_set = False, future_promise = None\<rparr>),
        next_address := next_address rt + 1\<rparr>)"

definition destroy_future :: "nat \<Rightarrow> 'v runtime \<Rightarrow> 'v runtime" where
  "destroy_future k rt = rt\<lparr>futures := (futures rt)(k := None)\<rparr>"

text \<open>\<open>handle.destroy()\<close>\<close>

definition destroy_frame :: "nat \<Rightarrow> 'v runtime \<Rightarrow> 'v runtime result" where
  "destroy_frame a rt = bindE (promise_at a rt) (\<lambda>_. Inr (rt\<lparr>promises := (promises rt)(a := None)\<rparr>))"

subsection \<open>The event base\<close>

definition task_info_at :: "ptr \<Rightarrow> 'v runtime \<Rightarrow> task_info" where
  "task_info_at p rt = objs (task_infos rt) ! p"

definition set_task_info :: "ptr \<Rightarrow> task_info \<Rightarrow> 'v runtime \<Rightarrow> 'v runtime" where
  "set_task_info p ti rt = rt\<lparr>task_infos := (task_infos rt)\<lparr>objs := (objs (task_infos rt))[p := ti]\<rparr>\<rparr>"

definition add_to_event_base :: "nat \<Rightarrow> nat \<Rightarrow> 'v runtime \<Rightarrow> (ptr \<times> 'v runtime) result" where
  "add_to_event_base eb a rt = bindE (acquire task_info_class (task_infos rt)) (\<lambda>(p, pl).
     Inr (p, set_task_info p \<lparr>ti_handle = Some a, base_promise_type_address = Some a, event_base = Some eb,
       is_first_time = True\<rparr> (rt\<lparr>task_infos := pl\<rparr>)))"

text \<open>\<open>TaskInfoPool::release\<close> puts the record back and calls its \<open>clear\<close>, which destroys the frame.\<close>

definition remove_from_event_base :: "ptr option \<Rightarrow> 'v runtime \<Rightarrow> 'v runtime result" where
  "remove_from_event_base q rt = bindE (release task_info_class (task_infos rt) q) (\<lambda>pl.
     let h = (case q of None \<Rightarrow> None | Some p \<Rightarrow> ti_handle (task_info_at p rt)); rt1 = rt\<lparr>task_infos := pl\<rparr> in
     case h of None \<Rightarrow> Inr rt1 | Some a \<Rightarrow> destroy_frame a rt1)"

definition set_ready_task :: "nat \<Rightarrow> ptr option \<Rightarrow> 'v runtime \<Rightarrow> 'v runtime result" where
  "set_ready_task eb p rt = bindE (push (ready_queue rt eb) p) (\<lambda>q.
     Inr (rt\<lparr>ready_queue := (ready_queue rt)(eb := q)\<rparr>))"

subsection \<open>BasePromiseType and BaseTask\<close>

definition set_waiting :: "nat \<Rightarrow> bool \<Rightarrow> 'v runtime \<Rightarrow> 'v runtime result" where
  "set_waiting a v rt = bindE (promise_at a rt) (\<lambda>f.
     let rt1 = put_promise a (f\<lparr>m_is_waiting := v\<rparr>) rt in
     if \<not> v then
       (case m_event_base f of
          None \<Rightarrow> Inl (UB Null_Pointer)
        | Some eb \<Rightarrow> set_ready_task eb (task_ptr f) rt1)
     else Inr rt1)"

definition register_on :: "nat \<Rightarrow> nat option \<Rightarrow> 'v runtime \<Rightarrow> 'v runtime result" where
  "register_on a ebo rt = bindE (promise_at a rt) (\<lambda>f.
     case ebo of
       None \<Rightarrow> Inl (UB Null_Pointer)
     | Some eb \<Rightarrow>
         bindE (add_to_event_base eb a (put_promise a (f\<lparr>m_event_base := ebo\<rparr>) rt)) (\<lambda>(p, rt1).
           set_waiting a False (put_promise a (f\<lparr>m_event_base := ebo, task_ptr := Some p\<rparr>) rt1)))"

text \<open>\<open>~BaseTask()\<close>, that is \<open>destroy(false)\<close>, of a \<open>Task\<close> that owns a frame.\<close>

definition destroy_task :: "nat \<Rightarrow> 'v runtime \<Rightarrow> 'v runtime result" where
  "destroy_task a rt = bindE (promise_at a rt) (\<lambda>f.
     if is_done f then
       (if m_event_base f \<noteq> None then remove_from_event_base (task_ptr f) rt else Inr rt)
     else Inr (put_promise a (f\<lparr>is_task_release := True\<rparr>) rt))"

text \<open>
  Assigning to a \<open>Task\<close>, \<open>destroy(true)\<close> of what it owned: a coroutine that has been started is taken off
  its event base and freed wherever it is; one that never was is forgotten. The results are the handles of target and source.
\<close>

definition destroy_task_now :: "nat \<Rightarrow> 'v runtime \<Rightarrow> 'v runtime result" where
  "destroy_task_now a rt = bindE (promise_at a rt) (\<lambda>f.
     if m_event_base f \<noteq> None then remove_from_event_base (task_ptr f) rt else Inr rt)"

definition assign_task :: "nat option \<Rightarrow> nat option \<Rightarrow> 'v runtime \<Rightarrow> (nat option \<times> nat option \<times> 'v runtime) result" where
  "assign_task target source rt = bindE (case target of None \<Rightarrow> Inr rt | Some a \<Rightarrow> destroy_task_now a rt) (\<lambda>rt1.
     Inr (source, None, rt1))"

lemma assign_to_empty_task: "assign_task None (Some c) rt = Inr (Some c, None, rt)"
  by (simp add: assign_task_def)

text \<open>\<open>BaseTask::await_suspend\<close>: the coroutine \<open>a\<close> waits for the task that owns \<open>c\<close>.\<close>

definition task_await_suspend :: "nat \<Rightarrow> nat \<Rightarrow> 'v runtime \<Rightarrow> 'v runtime result" where
  "task_await_suspend c a rt = bindE (set_waiting a True rt) (\<lambda>rt1.
     bindE (promise_at c rt1) (\<lambda>g.
       let rt2 = put_promise c (g\<lparr>m_suspending_promise := Some a\<rparr>) rt1 in
       bindE (promise_at a rt2) (\<lambda>f. register_on c (m_event_base f) rt2)))"

definition final_suspend :: "nat \<Rightarrow> 'v runtime \<Rightarrow> 'v runtime result" where
  "final_suspend a rt = bindE (promise_at a rt) (\<lambda>f.
     case m_suspending_promise f of None \<Rightarrow> Inr rt | Some b \<Rightarrow> set_waiting b False rt)"

text \<open>
  \<open>task_value\<close> stands for \<open>value\<close> and for what \<open>promise_value\<close> holds from the same
  moment on, for the \<open>std::future\<close> that \<open>start_running_on\<close> returns.
\<close>

definition return_value :: "nat \<Rightarrow> 'v \<Rightarrow> 'v runtime \<Rightarrow> 'v runtime result" where
  "return_value a v rt = bindE (promise_at a rt) (\<lambda>f. Inr (put_promise a (f\<lparr>task_value := Some v\<rparr>) rt))"

definition task_await_resume :: "nat \<Rightarrow> 'v runtime \<Rightarrow> 'v result" where
  "task_await_resume c rt = bindE (promise_at c rt) (\<lambda>g.
     case task_value g of None \<Rightarrow> Inl (UB Uninitialized) | Some v \<Rightarrow> Inr v)"

subsection \<open>Future\<close>

definition future_set_ready :: "nat \<Rightarrow> 'v runtime \<Rightarrow> 'v runtime result" where
  "future_set_ready k rt = bindE (future_at k rt) (\<lambda>v.
     let rt1 = put_future k (v\<lparr>m_is_set := True\<rparr>) rt in
     case future_promise v of None \<Rightarrow> Inr rt1 | Some a \<Rightarrow> set_waiting a False rt1)"

definition set_value :: "nat \<Rightarrow> 'v \<Rightarrow> 'v runtime \<Rightarrow> 'v runtime result" where
  "set_value k x rt = bindE (future_at k rt) (\<lambda>v.
     if m_is_set v then Inr rt
     else future_set_ready k (put_future k (v\<lparr>m_value := Some x\<rparr>) rt))"

text \<open>\<open>Future::await_suspend\<close>; the execute function is called last.\<close>

definition future_await_suspend :: "nat \<Rightarrow> nat \<Rightarrow> 'v option \<Rightarrow> 'v runtime \<Rightarrow> 'v runtime result" where
  "future_await_suspend k a w rt = bindE (set_waiting a True rt) (\<lambda>rt1.
     bindE (future_at k rt1) (\<lambda>v.
       let rt2 = put_future k (v\<lparr>future_promise := Some a\<rparr>) rt1 in
       case w of None \<Rightarrow> Inr rt2 | Some x \<Rightarrow> set_value k x rt2))"

definition future_await_resume :: "nat \<Rightarrow> 'v runtime \<Rightarrow> 'v result" where
  "future_await_resume k rt = bindE (future_at k rt) (\<lambda>v.
     case m_value v of None \<Rightarrow> Inl (UB Uninitialized) | Some x \<Rightarrow> Inr x)"

subsection \<open>Running a coroutine\<close>

definition set_resume_point :: "nat \<Rightarrow> 'v resume_point \<Rightarrow> 'v runtime \<Rightarrow> 'v runtime result" where
  "set_resume_point a r rt = bindE (promise_at a rt) (\<lambda>f. Inr (put_promise a (f\<lparr>resume_point := r\<rparr>) rt))"

text \<open>
  From a resumption to the next suspension. The \<open>initial_suspend\<close> of a child leaves it
  undone, so \<open>await_ready\<close> is false, as it always is for a \<open>Future\<close>.
\<close>

definition start_task :: "nat \<Rightarrow> 'v coro \<Rightarrow> 'v runtime \<Rightarrow> (nat \<times> 'v runtime) result" where
  "start_task eb b rt = (case create_coroutine b rt of (c, rt1) \<Rightarrow>
     bindE (register_on c (Some eb) rt1) (\<lambda>rt2. Inr (c, rt2)))"

primrec run_code :: "nat \<Rightarrow> ('v coro, 'v) segment \<Rightarrow> 'v runtime \<Rightarrow> 'v runtime result" where
  "run_code a (Return v) rt =
     bindE (return_value a v rt) (\<lambda>rt1. bindE (set_resume_point a At_Final rt1) (final_suspend a))"
| "run_code a (Await_Task b k) rt = (case create_coroutine b rt of (c, rt1) \<Rightarrow>
     bindE (set_resume_point a (After_Task c k) rt1) (task_await_suspend c a))"
| "run_code a (Await_Future w k) rt = (case create_future rt of (i, rt1) \<Rightarrow>
     bindE (set_resume_point a (After_Future i k) rt1) (future_await_suspend i a w))"
| "run_code a (Spawn eb b c) rt = bindE (start_task eb b rt) (\<lambda>(d, rt1).
     bindE (destroy_task d rt1) (run_code a c))"

text \<open>
  \<open>handle.resume()\<close>: the pending \<open>co_await\<close> delivers its value and its temporary
  awaitable is destroyed, then the body goes on.
\<close>

definition resume_frame :: "nat \<Rightarrow> 'v runtime \<Rightarrow> 'v runtime result" where
  "resume_frame a rt = bindE (promise_at a rt) (\<lambda>f.
     case resume_point f of
       At_Start c \<Rightarrow> run_code a (code c) rt
     | After_Task c k \<Rightarrow>
         bindE (task_await_resume c rt) (\<lambda>v.
         bindE (destroy_task c rt) (\<lambda>rt1.
         bindE (set_resume_point a (At_Start (k v)) rt1) (run_code a (code (k v)))))
     | After_Future i k \<Rightarrow>
         bindE (future_await_resume i rt) (\<lambda>v.
         bindE (set_resume_point a (At_Start (k v)) (destroy_future i rt)) (run_code a (code (k v))))
     | At_Final \<Rightarrow> Inl (UB Resumed_Final))"

definition check_to_remove_task :: "ptr \<Rightarrow> 'v runtime \<Rightarrow> 'v runtime result" where
  "check_to_remove_task p rt = (case base_promise_type_address (task_info_at p rt) of
     None \<Rightarrow> Inl (UB Null_Pointer)
   | Some a \<Rightarrow> bindE (promise_at a rt) (\<lambda>f.
       if is_task_release f then remove_from_event_base (Some p) rt else Inr rt))"

definition check_handle :: "ptr \<Rightarrow> 'v runtime \<Rightarrow> 'v runtime result" where
  "check_handle p rt = (case ti_handle (task_info_at p rt) of
     None \<Rightarrow> Inr rt
   | Some a \<Rightarrow> bindE (promise_at a rt) (\<lambda>f.
       if is_done f then Inr rt
       else
         bindE (if \<not> is_first_time (task_info_at p rt) then Inr rt
                else if event_base (task_info_at p rt) = None then Inl (UB Null_Pointer)
                else Inr (set_task_info p ((task_info_at p rt)\<lparr>is_first_time := False\<rparr>) rt)) (\<lambda>rt1.
         bindE (resume_frame a rt1) (\<lambda>rt2.
           case ti_handle (task_info_at p rt2) of
             None \<Rightarrow> Inl (UB Null_Pointer)
           | Some a' \<Rightarrow> bindE (promise_at a' rt2) (\<lambda>f'.
               if is_done f' \<and> event_base (task_info_at p rt2) \<noteq> None
               then check_to_remove_task p rt2 else Inr rt2)))))"

text \<open>One turn of \<open>EventBase::loop\<close>.\<close>

definition event_base_turn :: "nat \<Rightarrow> 'v runtime \<Rightarrow> 'v runtime result" where
  "event_base_turn eb rt = (case pop (ready_queue rt eb) of (item, q) \<Rightarrow>
     let rt1 = rt\<lparr>ready_queue := (ready_queue rt)(eb := q)\<rparr> in
     case item of None \<Rightarrow> Inr rt1 | Some p \<Rightarrow> check_handle p rt1)"

subsection \<open>What happens to the runtime\<close>

text \<open>
  \<open>Turn\<close> is a turn of an event base's loop. The other events come from code that is no
  coroutine: it starts a task and keeps the \<open>Task\<close> object for a while, lets it go, or
  calls \<open>set_value\<close> on a future that is still awaited. \<open>held\<close> are the frames whose
  \<open>Task\<close> object such code still has.
\<close>

datatype 'v event = Turn nat | Start nat "'v coro" | Let_Go nat | Set_Value nat 'v

fun run_event :: "'v runtime \<times> nat list \<Rightarrow> 'v event \<Rightarrow> ('v runtime \<times> nat list) result" where
  "run_event (rt, held) (Turn eb) = bindE (event_base_turn eb rt) (\<lambda>rt'. Inr (rt', held))"
| "run_event (rt, held) (Start eb b) = bindE (start_task eb b rt) (\<lambda>(c, rt'). Inr (rt', c # held))"
| "run_event (rt, held) (Let_Go a) =
     (if a \<in> set held then bindE (destroy_task a rt) (\<lambda>rt'. Inr (rt', remove1 a held)) else Inr (rt, held))"
| "run_event (rt, held) (Set_Value k x) =
     (if futures rt k \<noteq> None then bindE (set_value k x rt) (\<lambda>rt'. Inr (rt', held)) else Inr (rt, held))"

definition run_events :: "'v runtime \<times> nat list \<Rightarrow> 'v event list \<Rightarrow> ('v runtime \<times> nat list) result" where
  "run_events = foldE run_event"

end
