(* ===== verification/Event_Bases.thy ===== *)
theory Event_Bases
  imports OrderBook_Feed Coroutines
begin

section \<open>The event bases of the program (src/core/coroutine/event_base_manager.h) and the snapshot coroutines of the book\<close>

text \<open>
  \<open>EventBaseManager\<close> makes an event base and its thread when it is asked for the first time. The function is a
  template with static tables, so there are two of them: one for epoll bases and one for the others. A spin lock makes
  each call atomic (\<open>spin_lock_exclusive\<close> in \<open>Utilities\<close>).
\<close>

subsection \<open>EventBaseManager\<close>

datatype epoll_base_id = SYSTEM_IO_TASK

datatype event_base_id = ORDER | GATEWAY | MARKET_MAKER_STRATEGY | BUY_SPOT_STRATEGY | MEAN_REVERSION_STRATEGY
  | PRICE_ARBITRAGE_STRATEGY | TREND_FOLLOW_STRATEGY

primrec epoll_base_number :: "epoll_base_id \<Rightarrow> nat" where
  "epoll_base_number SYSTEM_IO_TASK = 0"

primrec event_base_number :: "event_base_id \<Rightarrow> nat" where
  "event_base_number ORDER = 1"
| "event_base_number GATEWAY = 2"
| "event_base_number MARKET_MAKER_STRATEGY = 3"
| "event_base_number BUY_SPOT_STRATEGY = 4"
| "event_base_number MEAN_REVERSION_STRATEGY = 5"
| "event_base_number PRICE_ARBITRAGE_STRATEGY = 6"
| "event_base_number TREND_FOLLOW_STRATEGY = 7"

text \<open>
  \<open>bases\<close>: the event bases in the order they were made, each as its \<open>m_event_base_id\<close>; a pointer is a position
  here. \<open>pinned\<close>: the core that each thread asks to be pinned to.
\<close>

record 'i event_base_manager =
  event_base_list :: "'i \<Rightarrow> nat option"
  bases :: "nat list"
  pinned :: "nat list"

definition new_manager :: "'i event_base_manager" where
  "new_manager = \<lparr>event_base_list = (\<lambda>_. None), bases = [], pinned = []\<rparr>"

definition get_event_base_by_id :: "('i \<Rightarrow> nat) \<Rightarrow> 'i \<Rightarrow> 'i event_base_manager \<Rightarrow> nat \<times> 'i event_base_manager" where
  "get_event_base_by_id number i m = (case event_base_list m i of
     Some b \<Rightarrow> (b, m)
   | None \<Rightarrow> (let b = length (bases m) in
       (b, m\<lparr>event_base_list := (event_base_list m)(i \<mapsto> b), bases := bases m @ [number i], pinned := pinned m @ [number i]\<rparr>)))"

primrec get_all :: "('i \<Rightarrow> nat) \<Rightarrow> 'i list \<Rightarrow> 'i event_base_manager \<Rightarrow> nat list \<times> 'i event_base_manager" where
  "get_all number [] m = ([], m)"
| "get_all number (i # is) m = (case get_event_base_by_id number i m of (b, m1) \<Rightarrow>
     case get_all number is m1 of (bs, m2) \<Rightarrow> (b # bs, m2))"

definition manager_ok :: "('i \<Rightarrow> nat) \<Rightarrow> 'i event_base_manager \<Rightarrow> bool" where
  "manager_ok number m \<longleftrightarrow> pinned m = bases m \<and> distinct (bases m) \<and> set (bases m) = number ` dom (event_base_list m) \<and>
     (\<forall>i b. event_base_list m i = Some b \<longrightarrow> b < length (bases m) \<and> bases m ! b = number i)"

lemma get_event_base_ok:
  assumes inj: "inj number" and ok: "manager_ok number m" and g: "get_event_base_by_id number i m = (b, m')"
  shows "manager_ok number m' \<and> b < length (bases m') \<and> bases m' ! b = number i \<and> (\<exists>ys. bases m' = bases m @ ys)"
proof (cases "event_base_list m i")
  case (Some c)
  with ok g show ?thesis by (auto simp: get_event_base_by_id_def manager_ok_def)
next
  case None
  with g have m': "b = length (bases m)" "m' = m\<lparr>event_base_list := (event_base_list m)(i \<mapsto> b), bases := bases m @ [number i], pinned := pinned m @ [number i]\<rparr>"
    by (auto simp: get_event_base_by_id_def Let_def)
  have "number i \<notin> number ` dom (event_base_list m)" using None inj by (auto dest: injD)
  with ok m' show ?thesis by (auto simp: manager_ok_def nth_append intro: less_SucI)
qed

lemma get_all_ok:
  assumes inj: "inj number"
  shows "manager_ok number m \<Longrightarrow> get_all number is m = (bs, m') \<Longrightarrow>
    manager_ok number m' \<and> map (\<lambda>b. bases m' ! b) bs = map number is \<and> (\<forall>b \<in> set bs. b < length (bases m')) \<and> (\<exists>ys. bases m' = bases m @ ys)"
proof (induction "is" arbitrary: m bs)
  case (Cons i "is")
  from Cons.prems(2) obtain b m1 bs1 where 1: "get_event_base_by_id number i m = (b, m1)" "get_all number is m1 = (bs1, m')" "bs = b # bs1"
    by (auto split: prod.splits)
  note g = get_event_base_ok [OF inj Cons.prems(1) 1(1)]
  from g Cons.IH [OF _ 1(2)] have r: "manager_ok number m'" "map (\<lambda>b. bases m' ! b) bs1 = map number is"
    "\<forall>b \<in> set bs1. b < length (bases m')" and "\<exists>ys. bases m' = bases m1 @ ys" by blast+
  then obtain ys where ys: "bases m' = bases m1 @ ys" by blast
  with g have "bases m' ! b = number i" "b < length (bases m')" "\<exists>zs. bases m' = bases m @ zs" by (auto simp: nth_append)
  with r 1(3) show ?case by simp
qed auto

text \<open>
  Whoever asks for an event base, in whatever order, gets the same one for the same id and different ones for
  different ids; each has one thread, and no two threads of the program ask for the same core.
\<close>

theorem event_bases_unique:
  assumes "inj number" "get_all number is new_manager = (bs, m)" "k < length is" "l < length is"
  shows "(bs ! k = bs ! l \<longleftrightarrow> is ! k = is ! l) \<and> pinned m = bases m \<and> distinct (pinned m) \<and> bases m ! (bs ! k) = number (is ! k)"
proof -
  have "manager_ok number new_manager" by (simp add: manager_ok_def new_manager_def)
  from get_all_ok [OF assms(1) this assms(2)] have ok: "manager_ok number m" and b: "map (\<lambda>b. bases m ! b) bs = map number is"
    and lt: "\<forall>b \<in> set bs. b < length (bases m)" by blast+
  have len: "length bs = length is" using b by (metis length_map)
  have n: "bases m ! (bs ! j) = number (is ! j)" "bs ! j < length (bases m)" if "j < length is" for j
    using that b lt len by (metis nth_map, simp)
  have "bs ! k = bs ! l \<longleftrightarrow> bases m ! (bs ! k) = bases m ! (bs ! l)"
    using ok n(2) assms(3,4) by (auto simp: manager_ok_def nth_eq_iff_index_eq)
  with n(1) assms ok show ?thesis by (auto simp: manager_ok_def dest: injD)
qed

theorem event_bases_unique_witness:
  "fst (get_all event_base_number [GATEWAY, ORDER, GATEWAY] new_manager) = [0, 1, 0] \<and>
   (fst (get_all event_base_number [GATEWAY, ORDER, GATEWAY] new_manager) ! 0 = fst (get_all event_base_number [GATEWAY, ORDER, GATEWAY] new_manager) ! 2)"
proof -
  have i: "inj event_base_number"
  proof (rule injI)
    show "x = y" if "event_base_number x = event_base_number y" for x y using that by (cases x; cases y) simp_all
  qed
  obtain bs m where g: "get_all event_base_number [GATEWAY, ORDER, GATEWAY] new_manager = (bs, m)" by fastforce
  from event_bases_unique [OF i g, of 0 2] g show ?thesis
    by (auto simp: new_manager_def get_event_base_by_id_def Let_def)
qed

text \<open>The epoll base and the others do not share a core either.\<close>

lemma cores_apart: "epoll_base_number e \<noteq> event_base_number i"
  by (cases e; cases i) simp_all

subsection \<open>The coroutines of the book\<close>

text \<open>\<open>get_snapshot_async\<close> and \<open>get_mbp_msg_from_mbo_msg_async\<close> of \<open>orderbook.h\<close>: \<open>f\<close> is the future to set.\<close>

definition get_snapshot_async :: "nat \<Rightarrow> order_book \<Rightarrow> 'd json runtime \<Rightarrow> 'd json runtime result" where
  "get_snapshot_async f ob rt = bindE (build_snapshot ob) (\<lambda>snap. set_value f snap rt)"

definition get_mbp_msg_from_mbo_msg_async :: "nat \<Rightarrow> mbo_msg \<Rightarrow> order_book \<Rightarrow> 'd json runtime \<Rightarrow> 'd json runtime result" where
  "get_mbp_msg_from_mbo_msg_async f m ob rt = bindE (build_mbp_msg10_from_mbo_msg ob m) (\<lambda>data. set_value f data rt)"

lemma snapshot_set_once:
  assumes "build_snapshot ob = Inr snap" "futures rt f = Some v" "\<not> m_is_set v" "future_promise v = None"
  shows "\<exists>rt'. get_snapshot_async f ob rt = Inr rt' \<and> futures rt' f = Some (v\<lparr>m_value := Some snap, m_is_set := True\<rparr>) \<and>
    get_snapshot_async f ob rt' = Inr rt'"
  using assms by (simp add: get_snapshot_async_def set_value_def future_set_ready_def future_at_def put_future_def Let_def)

end
