(* ===== verification/Coroutines_Inv.thy ===== *)
theory Coroutines_Inv
  imports Coroutines
begin

section \<open>Every suspended coroutine is resumed exactly once and freed exactly once\<close>

text \<open>
  The invariant of the scheduler of \<open>Coroutines\<close>: which frames and futures exist, who waits for
  whom, which \<open>TaskInfo\<close> stands for which frame and in which ready queue it is. It implies that
  no frame is freed while somebody can still reach it and that every frame that can run is queued once.
\<close>

subsection \<open>The invariant\<close>

definition frame_is :: "'v runtime \<Rightarrow> nat \<Rightarrow> ('v promise \<Rightarrow> bool) \<Rightarrow> bool" where
  "frame_is rt a P \<longleftrightarrow> (case promises rt a of None \<Rightarrow> False | Some f \<Rightarrow> P f)"

definition future_is :: "'v runtime \<Rightarrow> nat \<Rightarrow> ('v future_value \<Rightarrow> bool) \<Rightarrow> bool" where
  "future_is rt i P \<longleftrightarrow> (case futures rt i of None \<Rightarrow> False | Some v \<Rightarrow> P v)"

definition child_of :: "'v promise \<Rightarrow> nat option" where
  "child_of f = (case resume_point f of After_Task c _ \<Rightarrow> Some c | _ \<Rightarrow> None)"

definition future_of :: "'v promise \<Rightarrow> nat option" where
  "future_of f = (case resume_point f of After_Future i _ \<Rightarrow> Some i | _ \<Rightarrow> None)"

definition runnable :: "'v runtime \<Rightarrow> 'v promise \<Rightarrow> bool" where
  "runnable rt f \<longleftrightarrow> \<not> is_done f \<and> (\<forall>c. child_of f = Some c \<longrightarrow> frame_is rt c is_done) \<and>
     (\<forall>i. future_of f = Some i \<longrightarrow> future_is rt i m_is_set)"

definition waits_ok :: "'v runtime \<Rightarrow> nat \<Rightarrow> 'v promise \<Rightarrow> bool" where
  "waits_ok rt a f \<longleftrightarrow>
     (\<forall>c. child_of f = Some c \<longrightarrow> a < c \<and> frame_is rt c (\<lambda>g. m_suspending_promise g = Some a)) \<and>
     (\<forall>i. future_of f = Some i \<longrightarrow> future_is rt i (\<lambda>v. future_promise v = Some a)) \<and>
     (is_done f \<longrightarrow> task_value f \<noteq> None)"

definition frame_ok :: "nat set \<Rightarrow> nat list \<Rightarrow> 'v runtime \<Rightarrow> nat \<Rightarrow> 'v promise \<Rightarrow> bool" where
  "frame_ok X H rt a f \<longleftrightarrow> a < next_address rt \<and> waits_ok rt a f \<and>
     (is_task_release f \<longleftrightarrow> m_suspending_promise f = None \<and> a \<notin> set H) \<and>
     (is_done f \<longrightarrow> is_task_release f \<longrightarrow> a \<in> X) \<and>
     (\<forall>b. m_suspending_promise f = Some b \<longrightarrow> frame_is rt b (\<lambda>g. child_of g = Some a))"

definition frames_ok :: "nat set \<Rightarrow> nat list \<Rightarrow> 'v runtime \<Rightarrow> bool" where
  "frames_ok X H rt \<longleftrightarrow> (\<forall>a f. promises rt a = Some f \<longrightarrow> frame_ok X H rt a f)"

definition futures_ok :: "'v runtime \<Rightarrow> bool" where
  "futures_ok rt \<longleftrightarrow> (\<forall>i v. futures rt i = Some v \<longrightarrow>
     i < next_address rt \<and> (m_is_set v \<longrightarrow> m_value v \<noteq> None) \<and>
     (\<exists>a. future_promise v = Some a \<and> frame_is rt a (\<lambda>f. future_of f = Some i)))"

definition held_ok :: "nat list \<Rightarrow> 'v runtime \<Rightarrow> bool" where
  "held_ok H rt \<longleftrightarrow> distinct H \<and> (\<forall>a\<in>set H. frame_is rt a (\<lambda>f. m_suspending_promise f = None))"

abbreviation slots :: "'v runtime \<Rightarrow> nat" where
  "slots rt \<equiv> pool_size (task_infos rt)"

definition infos_ok :: "nat set \<Rightarrow> 'v runtime \<Rightarrow> bool" where
  "infos_ok U rt \<longleftrightarrow> pool_ok (task_infos rt) \<and> length (objs (task_infos rt)) = slots rt \<and>
     distinct (pool_free (task_infos rt)) \<and> set (pool_free (task_infos rt)) \<subseteq> {..<slots rt} \<and>
     (\<forall>p < slots rt. ti_handle (task_info_at p rt) = None \<longleftrightarrow> p \<in> set (pool_free (task_infos rt))) \<and>
     (\<forall>p < slots rt. \<forall>a. ti_handle (task_info_at p rt) = Some a \<longrightarrow> a \<notin> U \<and>
        base_promise_type_address (task_info_at p rt) = Some a \<and> event_base (task_info_at p rt) \<noteq> None \<and>
        frame_is rt a (\<lambda>f. task_ptr f = Some p \<and> m_event_base f = event_base (task_info_at p rt))) \<and>
     (\<forall>a f. promises rt a = Some f \<longrightarrow> a \<notin> U \<longrightarrow>
        (\<exists>p. task_ptr f = Some p \<and> p < slots rt \<and> ti_handle (task_info_at p rt) = Some a))"

definition listed :: "nat set \<Rightarrow> 'v runtime \<Rightarrow> nat \<Rightarrow> ptr \<Rightarrow> bool" where
  "listed X rt eb p \<longleftrightarrow> p < slots rt \<and> event_base (task_info_at p rt) = Some eb \<and>
     (\<exists>a. ti_handle (task_info_at p rt) = Some a \<and> a \<notin> X \<and> frame_is rt a (runnable rt))"

definition queues_ok :: "nat set \<Rightarrow> 'v runtime \<Rightarrow> bool" where
  "queues_ok X rt \<longleftrightarrow> (\<forall>eb. queue_ok (ready_queue rt eb) \<and> capacity (ready_queue rt eb) = slots rt \<and>
     distinct (queue_items (ready_queue rt eb)) \<and>
     (\<forall>p. p \<in> set (queue_items (ready_queue rt eb)) \<longleftrightarrow> listed X rt eb p))"

text \<open>
  \<open>X\<close>: frames that are in no ready queue although they could run (the running one);
  \<open>U\<close>: frames not yet registered; \<open>H\<close>: frames whose \<open>Task\<close> is held by other code.
\<close>

definition rt_ok :: "nat set \<Rightarrow> nat set \<Rightarrow> nat list \<Rightarrow> 'v runtime \<Rightarrow> bool" where
  "rt_ok X U H rt \<longleftrightarrow> frames_ok X H rt \<and> futures_ok rt \<and> held_ok H rt \<and> infos_ok U rt \<and> queues_ok X rt"

lemma put_promise_fields [simp]:
  "promises (put_promise a f rt) = (promises rt)(a \<mapsto> f)" "futures (put_promise a f rt) = futures rt"
  "next_address (put_promise a f rt) = next_address rt" "task_infos (put_promise a f rt) = task_infos rt"
  "ready_queue (put_promise a f rt) = ready_queue rt" "task_info_at p (put_promise a f rt) = task_info_at p rt"
  by (simp_all add: put_promise_def task_info_at_def)

lemma put_future_fields [simp]:
  "promises (put_future a v rt) = promises rt" "futures (put_future a v rt) = (futures rt)(a \<mapsto> v)"
  "next_address (put_future a v rt) = next_address rt" "task_infos (put_future a v rt) = task_infos rt"
  "ready_queue (put_future a v rt) = ready_queue rt" "task_info_at p (put_future a v rt) = task_info_at p rt"
  by (simp_all add: put_future_def task_info_at_def)

lemma frame_is_put [simp]:
  "frame_is (put_promise a f rt) b P \<longleftrightarrow> (if b = a then P f else frame_is rt b P)"
  "frame_is (put_future i v rt) b P \<longleftrightarrow> frame_is rt b P"
  "future_is (put_promise a f rt) i Q \<longleftrightarrow> future_is rt i Q"
  "future_is (put_future j v rt) i Q \<longleftrightarrow> (if i = j then Q v else future_is rt i Q)"
  by (simp_all add: frame_is_def future_is_def)

lemma frame_is_eq: "promises rt a = Some f \<Longrightarrow> frame_is rt a P \<longleftrightarrow> P f"
  by (simp add: frame_is_def)

lemma future_is_eq: "futures rt i = Some v \<Longrightarrow> future_is rt i P \<longleftrightarrow> P v"
  by (simp add: future_is_def)

lemma is_done_iff: "is_done f \<longleftrightarrow> resume_point f = At_Final"
  by (simp add: is_done_def split: resume_point.splits)

lemma point_simps [simp]:
  "child_of (f\<lparr>m_is_waiting := w\<rparr>) = child_of f" "future_of (f\<lparr>m_is_waiting := w\<rparr>) = future_of f"
  "is_done (f\<lparr>m_is_waiting := w\<rparr>) = is_done f" "runnable rt (f\<lparr>m_is_waiting := w\<rparr>) = runnable rt f"
  "waits_ok rt a (f\<lparr>m_is_waiting := w\<rparr>) = waits_ok rt a f"
  by (simp_all add: child_of_def future_of_def is_done_def runnable_def waits_ok_def)

lemma frameD:
  assumes "rt_ok X U H rt" "promises rt a = Some f"
  shows "a < next_address rt" "waits_ok rt a f" "is_task_release f \<longleftrightarrow> m_suspending_promise f = None \<and> a \<notin> set H"
    "is_done f \<Longrightarrow> is_task_release f \<Longrightarrow> a \<in> X"
    "m_suspending_promise f = Some b \<Longrightarrow> frame_is rt b (\<lambda>g. child_of g = Some a)"
  using assms by (auto simp: rt_ok_def frames_ok_def frame_ok_def)

lemma infoD:
  assumes "rt_ok X U H rt" "promises rt a = Some f" "a \<notin> U"
  obtains p eb where "p < slots rt" "task_ptr f = Some p" "ti_handle (task_info_at p rt) = Some a"
    "m_event_base f = Some eb" "event_base (task_info_at p rt) = Some eb"
    "base_promise_type_address (task_info_at p rt) = Some a"
proof -
  from assms obtain p where p: "task_ptr f = Some p" "p < slots rt" "ti_handle (task_info_at p rt) = Some a"
    unfolding rt_ok_def infos_ok_def by blast
  with assms(1) have "base_promise_type_address (task_info_at p rt) = Some a \<and> event_base (task_info_at p rt) \<noteq> None \<and>
      frame_is rt a (\<lambda>f. task_ptr f = Some p \<and> m_event_base f = event_base (task_info_at p rt))"
    by (simp add: rt_ok_def infos_ok_def)
  with p assms(2) that show ?thesis by (auto simp: frame_is_eq)
qed

subsection \<open>Waking a coroutine\<close>

lemma frame_is_waiting: "promises rt a = Some f \<Longrightarrow> (P (f\<lparr>m_is_waiting := v\<rparr>) \<longleftrightarrow> P f) \<Longrightarrow>
    frame_is (put_promise a (f\<lparr>m_is_waiting := v\<rparr>) rt) b P \<longleftrightarrow> frame_is rt b P"
  by (simp add: frame_is_eq)

lemma runnable_waiting [simp]: "promises rt a = Some f \<Longrightarrow>
    runnable (put_promise a (f\<lparr>m_is_waiting := v\<rparr>) rt) = runnable rt"
  by (rule ext) (simp add: runnable_def frame_is_waiting del: frame_is_put(1))

lemma waits_waiting [simp]: "promises rt a = Some f \<Longrightarrow>
    waits_ok (put_promise a (f\<lparr>m_is_waiting := v\<rparr>) rt) b = waits_ok rt b"
  by (rule ext) (simp add: waits_ok_def frame_is_waiting del: frame_is_put(1))

lemma rt_ok_waiting:
  assumes "rt_ok X U H rt" "promises rt a = Some f"
  shows "rt_ok X U H (put_promise a (f\<lparr>m_is_waiting := v\<rparr>) rt)"
proof -
  have "frames_ok X H (put_promise a (f\<lparr>m_is_waiting := v\<rparr>) rt)"
    using assms by (simp add: rt_ok_def frames_ok_def frame_ok_def frame_is_waiting del: frame_is_put(1))
  moreover have "futures_ok (put_promise a (f\<lparr>m_is_waiting := v\<rparr>) rt)"
    using assms by (simp add: rt_ok_def futures_ok_def frame_is_waiting del: frame_is_put(1) split: option.splits)
  moreover have "held_ok H (put_promise a (f\<lparr>m_is_waiting := v\<rparr>) rt)"
    using assms by (simp add: rt_ok_def held_ok_def frame_is_waiting del: frame_is_put(1))
  moreover have "infos_ok U (put_promise a (f\<lparr>m_is_waiting := v\<rparr>) rt)"
    using assms by (simp add: rt_ok_def infos_ok_def frame_is_waiting del: frame_is_put(1))
  moreover have "queues_ok X (put_promise a (f\<lparr>m_is_waiting := v\<rparr>) rt)"
    using assms by (simp add: rt_ok_def queues_ok_def listed_def frame_is_waiting del: frame_is_put(1) split: option.splits)
  ultimately show ?thesis by (simp add: rt_ok_def)
qed

lemma queue_fields [simp]:
  "promises (rt\<lparr>ready_queue := q\<rparr>) = promises rt" "task_info_at p (rt\<lparr>ready_queue := q\<rparr>) = task_info_at p rt"
  "frame_is (rt\<lparr>ready_queue := q\<rparr>) = frame_is rt" "future_is (rt\<lparr>ready_queue := q\<rparr>) = future_is rt"
  by (simp_all add: task_info_at_def frame_is_def future_is_def fun_eq_iff)

lemma queue_fields2 [simp]:
  "runnable (rt\<lparr>ready_queue := q\<rparr>) = runnable rt" "waits_ok (rt\<lparr>ready_queue := q\<rparr>) = waits_ok rt"
  by (simp_all add: runnable_def waits_ok_def fun_eq_iff)

lemma queue_fields3 [simp]:
  "listed X (rt\<lparr>ready_queue := q\<rparr>) = listed X rt" "frames_ok X H (rt\<lparr>ready_queue := q\<rparr>) = frames_ok X H rt"
  "futures_ok (rt\<lparr>ready_queue := q\<rparr>) = futures_ok rt" "held_ok H (rt\<lparr>ready_queue := q\<rparr>) = held_ok H rt"
  "infos_ok U (rt\<lparr>ready_queue := q\<rparr>) = infos_ok U rt"
  by (simp_all add: listed_def frames_ok_def frame_ok_def futures_ok_def held_ok_def infos_ok_def fun_eq_iff)

lemma listed_insert:
  assumes "rt_ok Y U H rt" "promises rt a = Some f" "task_ptr f = Some p" "a \<notin> X" "a \<notin> U" "runnable rt f"
    "m_event_base f = Some eb"
  shows "listed X rt e q \<longleftrightarrow> listed (insert a X) rt e q \<or> (e = eb \<and> q = p)"
proof -
  from infoD [OF assms(1,2,5)] assms(3,7) have i: "p < slots rt" "ti_handle (task_info_at p rt) = Some a"
    "event_base (task_info_at p rt) = Some eb" by auto
  have "q = p" if "q < slots rt" "ti_handle (task_info_at q rt) = Some a"
    using assms(1,2,3) that by (auto simp: rt_ok_def infos_ok_def frame_is_eq)
  then show ?thesis using assms i by (auto simp: listed_def frame_is_eq split: option.splits)
qed

lemma frames_ok_insert: "frames_ok (insert a X) H rt \<Longrightarrow> promises rt a = Some f \<Longrightarrow> \<not> is_done f \<Longrightarrow> frames_ok X H rt"
  unfolding frames_ok_def frame_ok_def by (metis insertE option.inject)

lemma wake_ok:
  assumes ok: "rt_ok (insert a X) U H rt" and a: "promises rt a = Some f" "a \<notin> U" "a \<notin> X" "runnable rt f"
  shows "\<exists>rt'. set_waiting a False rt = Inr rt' \<and> rt_ok X U H rt' \<and>
    promises rt' = (promises rt)(a \<mapsto> f\<lparr>m_is_waiting := False\<rparr>) \<and> futures rt' = futures rt \<and> slots rt' = slots rt \<and>
    next_address rt' = next_address rt"
proof -
  let ?rt = "put_promise a (f\<lparr>m_is_waiting := False\<rparr>) rt"
  have ok': "rt_ok (insert a X) U H ?rt" by (rule rt_ok_waiting [OF ok a(1)])
  from ok a(1,2) obtain p eb where p: "p < slots rt" "task_ptr f = Some p" "ti_handle (task_info_at p rt) = Some a"
    "m_event_base f = Some eb" by (rule infoD)
  have q: "queue_ok (ready_queue rt eb)" "capacity (ready_queue rt eb) = slots rt" "distinct (queue_items (ready_queue rt eb))"
    and q_iff: "\<And>q. q \<in> set (queue_items (ready_queue rt eb)) \<longleftrightarrow> listed (insert a X) rt eb q"
    using ok by (auto simp: rt_ok_def queues_ok_def)
  have np: "p \<notin> set (queue_items (ready_queue rt eb))" using p by (auto simp: q_iff listed_def)
  have "insert p (set (queue_items (ready_queue rt eb))) \<subseteq> {..<slots rt}" using p(1) by (auto simp: q_iff listed_def)
  then have "card (insert p (set (queue_items (ready_queue rt eb)))) \<le> slots rt"
    using card_mono [of "{..<slots rt}"] by fastforce
  then have "length (queue_items (ready_queue rt eb)) < slots rt" using q(3) np by (simp add: distinct_card)
  with mq.put_ok [OF q(1)] q(2) obtain b where b: "push (ready_queue rt eb) (Some p) = Inr b" "queue_ok b"
    "queue_items b = queue_items (ready_queue rt eb) @ [p]" "capacity b = slots rt" by metis
  let ?r = "?rt\<lparr>ready_queue := (ready_queue rt)(eb := b)\<rparr>"
  have e: "set_waiting a False rt = Inr ?r"
    using a(1) p b(1) by (simp add: set_waiting_def promise_at_def set_ready_task_def)
  have l: "listed X ?rt e q \<longleftrightarrow> listed (insert a X) ?rt e q \<or> (e = eb \<and> q = p)" for e q
    by (rule listed_insert [OF ok', where f = "f\<lparr>m_is_waiting := False\<rparr>"]) (use a p in simp_all)
  have "frames_ok X H ?rt"
    by (rule frames_ok_insert [of a]) (use ok' a(4) in \<open>auto simp: rt_ok_def runnable_def\<close>)
  moreover have "queues_ok X ?r"
    using ok' np b by (auto simp: rt_ok_def queues_ok_def l)
  ultimately have "rt_ok X U H ?r" using ok' by (simp add: rt_ok_def)
  with e show ?thesis by simp
qed

end
