(* ===== verification/Coroutines_Ops.thy ===== *)
theory Coroutines_Ops
  imports Coroutines_Inv
begin

section \<open>The operations of the scheduler keep the invariant\<close>

text \<open>
  Creating a coroutine, registering it on an event base and marking it ready keep the invariant.
\<close>

lemma next_address_fields [simp]:
  "promises (rt\<lparr>next_address := n\<rparr>) = promises rt" "task_info_at p (rt\<lparr>next_address := n\<rparr>) = task_info_at p rt"
  "frame_is (rt\<lparr>next_address := n\<rparr>) = frame_is rt" "future_is (rt\<lparr>next_address := n\<rparr>) = future_is rt"
  by (simp_all add: task_info_at_def frame_is_def future_is_def fun_eq_iff)

lemma next_address_fields2 [simp]:
  "runnable (rt\<lparr>next_address := n\<rparr>) = runnable rt" "waits_ok (rt\<lparr>next_address := n\<rparr>) = waits_ok rt"
  by (simp_all add: runnable_def waits_ok_def fun_eq_iff)

lemma task_info_fields [simp]:
  "promises (rt\<lparr>task_infos := pl\<rparr>) = promises rt" "promises (set_task_info p ti rt) = promises rt"
  "futures (set_task_info p ti rt) = futures rt" "next_address (set_task_info p ti rt) = next_address rt"
  "ready_queue (set_task_info p ti rt) = ready_queue rt" "slots (set_task_info p ti rt) = slots rt"
  "pool_ok (task_infos (set_task_info p ti rt)) = pool_ok (task_infos rt)"
  "pool_free (task_infos (set_task_info p ti rt)) = pool_free (task_infos rt)"
  "length (objs (task_infos (set_task_info p ti rt))) = length (objs (task_infos rt))"
  "frame_is (rt\<lparr>task_infos := pl\<rparr>) = frame_is rt" "frame_is (set_task_info p ti rt) = frame_is rt"
  "future_is (rt\<lparr>task_infos := pl\<rparr>) = future_is rt" "future_is (set_task_info p ti rt) = future_is rt"
  by (simp_all add: set_task_info_def frame_is_def future_is_def fun_eq_iff)

lemma task_info_fields2 [simp]:
  "runnable (rt\<lparr>task_infos := pl\<rparr>) = runnable rt" "waits_ok (rt\<lparr>task_infos := pl\<rparr>) = waits_ok rt"
  "runnable (set_task_info p ti rt) = runnable rt" "waits_ok (set_task_info p ti rt) = waits_ok rt"
  by (simp_all add: runnable_def waits_ok_def fun_eq_iff)

lemma frame_is_some: "frame_is rt a P \<Longrightarrow> \<exists>f. promises rt a = Some f \<and> P f"
  by (auto simp: frame_is_def split: option.splits)

lemma future_is_some: "future_is rt i P \<Longrightarrow> \<exists>v. futures rt i = Some v \<and> P v"
  by (auto simp: future_is_def split: option.splits)

text \<open>Writing to frame \<open>a\<close> what a predicate does not look at leaves the predicate alone.\<close>

lemma frame_is_put_old: "promises rt a = Some f \<Longrightarrow> (P f' \<longleftrightarrow> P f) \<Longrightarrow>
    frame_is (put_promise a f' rt) b P \<longleftrightarrow> frame_is rt b P"
  by (simp add: frame_is_eq)

lemma frames_ok_put:
  assumes "\<And>b g. b \<noteq> a \<Longrightarrow> promises rt b = Some g \<Longrightarrow> frame_ok X H rt' b g" "frame_ok X H rt' a f'"
    "promises rt' = (promises rt)(a \<mapsto> f')"
  shows "frames_ok X H rt'"
  using assms by (auto simp: frames_ok_def)

lemma shrink_ok:
  assumes "rt_ok (insert a X) U H rt" "promises rt a = Some f" "\<not> runnable rt f" "is_done f \<Longrightarrow> \<not> is_task_release f"
  shows "rt_ok X U H rt"
proof -
  have "frames_ok X H rt" using assms unfolding rt_ok_def frames_ok_def frame_ok_def by (metis insertE option.inject)
  moreover have "listed X rt eb p \<longleftrightarrow> listed (insert a X) rt eb p" for eb p
    using assms(2,3) by (auto simp: listed_def frame_is_eq)
  ultimately show ?thesis using assms(1) by (simp add: rt_ok_def queues_ok_def)
qed

subsection \<open>Creating and registering a task\<close>

lemma create_coroutine_ok:
  assumes ok: "rt_ok X U H rt"
  shows "\<exists>rt' g. create_coroutine b rt = (next_address rt, rt') \<and>
    rt_ok (insert (next_address rt) X) (insert (next_address rt) U) (next_address rt # H) rt' \<and>
    promises rt' = (promises rt)(next_address rt \<mapsto> g) \<and> resume_point g = At_Start b \<and>
    m_suspending_promise g = None \<and> promises rt (next_address rt) = None \<and> next_address rt \<notin> set H \<and>
    slots rt' = slots rt \<and> futures rt' = futures rt \<and> next_address rt' = next_address rt + 1"
proof -
  let ?c = "next_address rt"
  obtain g :: "'a promise" where g: "g = \<lparr>m_is_waiting = False, m_suspending_promise = None, m_event_base = None,
    is_task_release = False, task_ptr = None, task_value = None, resume_point = At_Start b\<rparr>" by blast
  let ?rt = "put_promise ?c g (rt\<lparr>next_address := ?c + 1\<rparr>)"
  have e: "create_coroutine b rt = (?c, ?rt)" by (simp add: create_coroutine_def put_promise_def g)
  have fresh: "promises rt ?c = None"
    using ok frameD(1) [OF ok] by (cases "promises rt ?c") force+
  have F: "\<not> frame_is rt ?c P" for P by (simp add: frame_is_def fresh)
  have pt: "child_of g = None" "future_of g = None" "\<not> is_done g" "m_suspending_promise g = None" "\<not> is_task_release g"
    "resume_point g = At_Start b" by (simp_all add: child_of_def future_of_def is_done_def g)
  have nH: "?c \<notin> set H" using ok F by (auto simp: rt_ok_def held_ok_def)
  have w: "waits_ok ?rt a f" if "waits_ok rt a f" for a f
    using that F by (auto simp: waits_ok_def)
  have w2: "waits_ok ?rt ?c g" using pt by (simp add: waits_ok_def)
  have r: "frame_is ?rt a (runnable ?rt) \<longleftrightarrow> frame_is rt a (runnable rt)" if "a \<noteq> ?c" for a
  proof (cases "promises rt a")
    case (Some f)
    then have "waits_ok rt a f" using frameD(2) [OF ok] by blast
    then have "runnable ?rt f \<longleftrightarrow> runnable rt f" using F by (auto simp: runnable_def waits_ok_def)
    with Some that show ?thesis by (simp add: frame_is_def)
  qed (simp add: frame_is_def that)
  have "frames_ok (insert ?c X) (?c # H) ?rt"
  proof (rule frames_ok_put [where rt = rt and a = ?c and f' = g])
    fix a f assume "a \<noteq> ?c" "promises rt a = Some f"
    with frameD [OF ok this(2)] F w show "frame_ok (insert ?c X) (?c # H) ?rt a f" by (auto simp: frame_ok_def)
  qed (use w2 pt in \<open>simp_all add: frame_ok_def\<close>)
  moreover have "futures_ok ?rt" using ok F by (fastforce simp: rt_ok_def futures_ok_def)
  moreover have "held_ok (?c # H) ?rt" using ok nH pt by (auto simp: rt_ok_def held_ok_def)
  moreover have "infos_ok (insert ?c U) ?rt"
    using ok F unfolding rt_ok_def infos_ok_def by auto
  moreover have "listed (insert ?c X) ?rt eb p \<longleftrightarrow> listed X rt eb p" for eb p
    using F r by (simp add: listed_def) metis
  then have "queues_ok (insert ?c X) ?rt" using ok by (simp add: rt_ok_def queues_ok_def)
  ultimately have "rt_ok (insert ?c X) (insert ?c U) (?c # H) ?rt" by (simp add: rt_ok_def)
  with e fresh nH pt show ?thesis by auto
qed


text \<open>
  \<open>register_on\<close> gives the frame a record of the pool and puts it into the queue of its event
  base; an exhausted pool throws.
\<close>

lemma register_ok:
  assumes ok: "rt_ok (insert c X) (insert c U) H rt" and c: "promises rt c = Some g" "resume_point g = At_Start b"
    "c \<notin> U" "c \<notin> X"
  shows "fine (\<lambda>rt'. rt_ok X U H rt' \<and> slots rt' = slots rt \<and> futures rt' = futures rt \<and> next_address rt' = next_address rt \<and>
    (\<exists>g'. promises rt' = (promises rt)(c \<mapsto> g') \<and> resume_point g' = At_Start b \<and>
       m_suspending_promise g' = m_suspending_promise g)) (register_on c (Some eb) rt)"
proof (cases "pool_free (task_infos rt)")
  case Nil
  then have "free_cnt (task_infos rt) = 0" by (simp add: pool_free_def flip: length_0_conv)
  then show ?thesis using c by (simp add: register_on_def promise_at_def add_to_event_base_def acquire_def)
next
  case (Cons p fr)
  have inf: "infos_ok (insert c U) rt" using ok by (simp add: rt_ok_def)
  then have "pool_ok (task_infos rt)" by (simp add: infos_ok_def)
  from acquire_ok [OF this Cons] obtain pl where a: "acquire task_info_class (task_infos rt) = Inr (p, pl)" "pool_ok pl"
    "pool_free pl = fr" "pool_size pl = slots rt" by blast
  have o: "objs pl = objs (task_infos rt)" by (rule acquire_objs [OF _ a(1)]) (simp add: task_info_class_def)
  have p: "p < slots rt" "ti_handle (task_info_at p rt) = None" "p \<notin> set fr" "distinct fr"
    using inf Cons by (auto simp: infos_ok_def)
  obtain ti where ti: "ti = \<lparr>ti_handle = Some c, base_promise_type_address = Some c, event_base = Some eb, is_first_time = True\<rparr>"
    by blast
  obtain g1 where g1: "g1 = g\<lparr>m_event_base := Some eb, task_ptr := Some p\<rparr>" by blast
  let ?rt = "put_promise c g1 (set_task_info p ti (rt\<lparr>task_infos := pl\<rparr>))"
  have e: "register_on c (Some eb) rt = set_waiting c False ?rt"
    using c(1) by (simp add: register_on_def promise_at_def add_to_event_base_def a(1) ti g1 put_promise_def set_task_info_def)
  have pt: "child_of g1 = None" "future_of g1 = None" "\<not> is_done g1" "child_of g = None" "future_of g = None" "\<not> is_done g"
    "resume_point g1 = At_Start b" "m_suspending_promise g1 = m_suspending_promise g" "is_task_release g1 = is_task_release g"
    "task_ptr g1 = Some p" "m_event_base g1 = Some eb" using c by (simp_all add: child_of_def future_of_def is_done_def g1)
  have at: "task_info_at q ?rt = (if q = p then ti else task_info_at q rt)" for q
    using p(1) inf by (simp add: task_info_at_def set_task_info_def o infos_ok_def)
  have sl: "slots ?rt = slots rt" by (simp add: a)
  have tih: "ti_handle ti = Some c" by (simp add: ti)
  have w: "waits_ok rt a f \<Longrightarrow> waits_ok ?rt a f" for a f using c(1) pt by (auto simp: waits_ok_def frame_is_eq)
  have r: "runnable ?rt = runnable rt" using c(1) pt by (auto simp: runnable_def frame_is_eq fun_eq_iff)
  have "frames_ok (insert c X) H ?rt"
  proof (rule frames_ok_put [where rt = rt and a = c and f' = g1])
    fix a f assume "a \<noteq> c" "promises rt a = Some f"
    with frameD [OF ok this(2)] c(1) pt w show "frame_ok (insert c X) H ?rt a f"
      by (auto simp: frame_ok_def frame_is_eq)
  next
    show "frame_ok (insert c X) H ?rt c g1"
      using frameD [OF ok c(1)] c(1) pt by (auto simp: frame_ok_def frame_is_eq waits_ok_def)
  qed simp
  moreover have "futures_ok ?rt"
    using ok c(1) pt unfolding rt_ok_def futures_ok_def by (fastforce simp: frame_is_eq)
  moreover have "held_ok H ?rt" using ok c(1) pt by (auto simp: rt_ok_def held_ok_def frame_is_eq)
  moreover have "infos_ok U ?rt"
    using inf Cons p a(2-4) pt ti c
    unfolding infos_ok_def at sl by (auto simp: o) (metis option.distinct(1))+
  moreover have "listed (insert c X) ?rt e q \<longleftrightarrow> listed (insert c X) rt e q" for e q
    unfolding listed_def at sl r using p(2) tih by (cases "q = p") (simp_all cong: conj_cong)
  then have "queues_ok (insert c X) ?rt" using ok sl by (simp add: rt_ok_def queues_ok_def)
  ultimately have ok1: "rt_ok (insert c X) U H ?rt" by (simp add: rt_ok_def)
  have "runnable ?rt g1" using pt by (simp add: runnable_def)
  from wake_ok [OF ok1 _ c(3,4) this] obtain rt' where w: "set_waiting c False ?rt = Inr rt'" "rt_ok X U H rt'"
    "promises rt' = (promises ?rt)(c \<mapsto> g1\<lparr>m_is_waiting := False\<rparr>)" "futures rt' = futures ?rt" "slots rt' = slots ?rt"
    "next_address rt' = next_address ?rt" by auto
  show ?thesis
    unfolding e w(1) fine_Inr w(3-6) sl
    by (intro conjI w(2) exI [of _ "g1\<lparr>m_is_waiting := False\<rparr>"]) (simp_all add: pt)
qed

end
