(* ===== verification/Coroutines_Step.thy ===== *)
theory Coroutines_Step
  imports Coroutines_Ops
begin

section \<open>Suspending, resuming and freeing\<close>

text \<open>
  What the invariant says after one frame has changed, and that suspending and resuming keep it.
\<close>

lemma link_simps [simp]:
  "child_of (f\<lparr>m_suspending_promise := w\<rparr>) = child_of f" "future_of (f\<lparr>m_suspending_promise := w\<rparr>) = future_of f"
  "is_done (f\<lparr>m_suspending_promise := w\<rparr>) = is_done f" "runnable rt (f\<lparr>m_suspending_promise := w\<rparr>) = runnable rt f"
  "waits_ok rt a (f\<lparr>m_suspending_promise := w\<rparr>) = waits_ok rt a f"
  "child_of (f\<lparr>is_task_release := v\<rparr>) = child_of f" "future_of (f\<lparr>is_task_release := v\<rparr>) = future_of f"
  "is_done (f\<lparr>is_task_release := v\<rparr>) = is_done f" "runnable rt (f\<lparr>is_task_release := v\<rparr>) = runnable rt f"
  "waits_ok rt a (f\<lparr>is_task_release := v\<rparr>) = waits_ok rt a f"
  by (simp_all add: child_of_def future_of_def is_done_def runnable_def waits_ok_def)

text \<open>What a change of one frame leaves true.\<close>

lemma infos_put:
  assumes "infos_ok U rt" "promises rt a = Some f" "task_ptr f' = task_ptr f" "m_event_base f' = m_event_base f"
  shows "infos_ok U (put_promise a f' rt)"
  using assms unfolding infos_ok_def by (auto simp: frame_is_eq)

lemma queues_put:
  assumes "queues_ok X rt" "promises rt a = Some f" "a \<in> X \<or> (runnable (put_promise a f' rt) f' \<longleftrightarrow> runnable rt f)"
    "\<And>b g. b \<noteq> a \<Longrightarrow> b \<notin> X \<Longrightarrow> promises rt b = Some g \<Longrightarrow> runnable (put_promise a f' rt) g \<longleftrightarrow> runnable rt g"
  shows "queues_ok X (put_promise a f' rt)"
proof -
  have r: "frame_is (put_promise a f' rt) b (runnable (put_promise a f' rt)) \<longleftrightarrow> frame_is rt b (runnable rt)"
    if "b \<notin> X" for b
    using assms(2,3) assms(4) [OF _ that] that by (auto simp: frame_is_def split: option.splits)
  have "listed X (put_promise a f' rt) eb p \<longleftrightarrow> listed X rt eb p" for eb p
    unfolding listed_def put_promise_fields using r by metis
  then show ?thesis using assms(1) by (simp add: queues_ok_def)
qed

text \<open>Writing to a frame what only the scheduler's bookkeeping of that frame reads.\<close>

lemma runnable_put_same: "promises rt a = Some f \<Longrightarrow> is_done f' = is_done f \<Longrightarrow>
    runnable (put_promise a f' rt) = runnable rt"
  by (auto simp: runnable_def frame_is_eq fun_eq_iff)

lemma others_not_waiting:
  assumes "rt_ok X U H rt" "promises rt c = Some g" "m_suspending_promise g = None" "promises rt b = Some f"
  shows "child_of f \<noteq> Some c"
  using frameD(2) [OF assms(1,4)] assms(2,3) by (auto simp: waits_ok_def frame_is_eq)

lemma only_parent_waits:
  assumes "rt_ok X U H rt" "promises rt c = Some g" "m_suspending_promise g = Some a" "promises rt b = Some f"
    "child_of f = Some c"
  shows "b = a"
  using frameD(2) [OF assms(1,4)] assms(2,3,5) by (auto simp: waits_ok_def frame_is_eq)

lemma only_owner_waits:
  assumes "rt_ok X U H rt" "futures rt i = Some v" "future_promise v = Some a" "promises rt b = Some f"
    "future_of f = Some i"
  shows "b = a"
  using frameD(2) [OF assms(1,4)] assms(2,3,5) by (auto simp: waits_ok_def future_is_eq)

lemma futureD:
  assumes "rt_ok X U H rt" "futures rt i = Some v"
  shows "i < next_address rt" "m_is_set v \<Longrightarrow> m_value v \<noteq> None"
    "\<exists>a f. future_promise v = Some a \<and> promises rt a = Some f \<and> future_of f = Some i"
proof -
  have "\<exists>a. future_promise v = Some a \<and> frame_is rt a (\<lambda>f. future_of f = Some i)"
    using assms by (simp add: rt_ok_def futures_ok_def)
  then show "\<exists>a f. future_promise v = Some a \<and> promises rt a = Some f \<and> future_of f = Some i"
    by (auto dest: frame_is_some)
qed (use assms in \<open>simp_all add: rt_ok_def futures_ok_def\<close>)

text \<open>The parent starts to wait for a task it owns.\<close>

lemma link_ok:
  assumes ok: "rt_ok X U (c # H) rt" and a: "promises rt a = Some f" "resume_point f = At_Start d" "a \<in> X"
    and c: "promises rt c = Some g" "\<not> is_done g" "a < c" "c \<in> X"
    and f': "child_of f' = Some c" "future_of f' = None" "\<not> is_done f'" "m_suspending_promise f' = m_suspending_promise f"
      "is_task_release f' = is_task_release f" "task_ptr f' = task_ptr f" "m_event_base f' = m_event_base f"
  shows "rt_ok X U H (put_promise c (g\<lparr>m_suspending_promise := Some a\<rparr>) (put_promise a f' rt))"
proof -
  let ?rt1 = "put_promise a f' rt" let ?g = "g\<lparr>m_suspending_promise := Some a\<rparr>"
  let ?rt = "put_promise c ?g ?rt1"
  have pa: "child_of f = None" "future_of f = None" "\<not> is_done f"
    using a by (simp_all add: child_of_def future_of_def is_done_def)
  have g0: "m_suspending_promise g = None" "c \<notin> set H" "\<not> is_task_release g"
    using ok c(1) frameD(3) [OF ok c(1)] by (auto simp: rt_ok_def held_ok_def frame_is_eq)
  have own: "waits_ok rt c g" "c < next_address rt" "waits_ok rt a f" "a < next_address rt"
    using frameD(1,2) [OF ok c(1)] frameD(1,2) [OF ok a(1)] by simp_all
  have wo: "waits_ok ?rt b h" if "b \<noteq> a" "promises rt b = Some h" for b h
    using that frameD(2) [OF ok that(2)] others_not_waiting [OF ok c(1) g0(1) that(2)] a(1) c(3) f'(4)
    by (auto simp: waits_ok_def frame_is_eq)
  have wg: "waits_ok ?rt c ?g"
    using wo [OF _ c(1)] c(3) by simp
  have r1: "runnable ?rt1 = runnable rt" by (rule runnable_put_same [OF a(1)]) (use pa f' in simp)
  have "frames_ok X H ?rt"
    unfolding frames_ok_def
  proof (intro allI impI)
    fix b h assume h: "promises ?rt b = Some h"
    consider "b = c" "h = ?g" | "b = a" "b \<noteq> c" "h = f'" | "b \<noteq> a" "b \<noteq> c" "promises rt b = Some h"
      using h c(3) by (auto split: if_splits)
    then show "frame_ok X H ?rt b h"
    proof cases
      case 1
      then show ?thesis using wg own c(2,3) g0 f' by (simp add: frame_ok_def)
    next
      case 2
      then show ?thesis
        using frameD [OF ok a(1)] own c f' pa a(1) g0 by (auto simp: frame_ok_def waits_ok_def frame_is_eq)
    next
      case 3
      then show ?thesis
        using frameD [OF ok 3(3)] wo [OF 3(1,3)] pa a(1) c(1) f' by (auto simp: frame_ok_def frame_is_eq)
    qed
  qed
  moreover have "futures_ok ?rt"
    using ok a(1) c(1) pa unfolding rt_ok_def futures_ok_def by (fastforce simp: frame_is_eq)
  moreover have "held_ok H ?rt"
    using ok a(1) c(1) g0 f' by (auto simp: rt_ok_def held_ok_def frame_is_eq)
  moreover have "infos_ok U ?rt1" by (rule infos_put [OF _ a(1)]) (use ok f' in \<open>simp_all add: rt_ok_def\<close>)
  then have "infos_ok U ?rt" by (rule infos_put [where f = g]) (use c in simp_all)
  moreover have "queues_ok X ?rt1" by (rule queues_put [OF _ a(1)]) (use ok a r1 in \<open>simp_all add: rt_ok_def\<close>)
  then have "queues_ok X ?rt"
  proof (rule queues_put [where f = g])
    fix b h
    show "runnable ?rt h \<longleftrightarrow> runnable ?rt1 h" using runnable_put_same [of ?rt1 c g ?g] c by simp
  qed (use c in simp_all)
  ultimately show ?thesis by (simp add: rt_ok_def)
qed

text \<open>The parent takes the task back after the child has returned.\<close>

lemma unlink_ok:
  assumes ok: "rt_ok X U H rt" and a: "promises rt a = Some f" "child_of f = Some c" "a \<in> X"
    and c: "promises rt c = Some g" "is_done g"
  shows "rt_ok X U (c # H) (put_promise c (g\<lparr>m_suspending_promise := None\<rparr>)
           (put_promise a (f\<lparr>resume_point := At_Start d\<rparr>) rt))"
proof -
  let ?f = "f\<lparr>resume_point := At_Start d\<rparr>" let ?rt1 = "put_promise a ?f rt"
  let ?g = "g\<lparr>m_suspending_promise := None\<rparr>" let ?rt = "put_promise c ?g ?rt1"
  have pt: "child_of ?f = None" "future_of ?f = None" "\<not> is_done ?f"
    by (simp_all add: child_of_def future_of_def is_done_def)
  have pa: "future_of f = None" "\<not> is_done f"
    using a by (simp_all add: child_of_def future_of_def is_done_def split: resume_point.splits)
  have pg: "child_of g = None" "future_of g = None"
    using c(2) by (simp_all add: child_of_def future_of_def is_done_def split: resume_point.splits)
  have ac: "a < c" "m_suspending_promise g = Some a"
    using frameD(2) [OF ok a(1)] a(2) c(1) by (auto simp: waits_ok_def frame_is_eq)
  have g0: "c \<notin> set H" "\<not> is_task_release g"
    using ok c(1) ac frameD(3) [OF ok c(1)] by (auto simp: rt_ok_def held_ok_def frame_is_eq)
  have wo: "waits_ok ?rt b h" if "b \<noteq> a" "promises rt b = Some h" for b h
    using that frameD(2) [OF ok that(2)] only_parent_waits [OF ok c(1) ac(2) that(2)] a(1) c(1) g0
    by (auto simp: waits_ok_def frame_is_eq)
  have wg: "waits_ok ?rt c ?g" using wo [OF _ c(1)] ac(1) by simp
  have "frames_ok X (c # H) ?rt"
    unfolding frames_ok_def
  proof (intro allI impI)
    fix b h assume h: "promises ?rt b = Some h"
    consider "b = c" "h = ?g" | "b = a" "b \<noteq> c" "h = ?f" | "b \<noteq> a" "b \<noteq> c" "promises rt b = Some h"
      using h ac(1) by (auto split: if_splits)
    then show "frame_ok X (c # H) ?rt b h"
    proof cases
      case 1
      then show ?thesis using wg frameD(1) [OF ok c(1)] g0 by (simp add: frame_ok_def)
    next
      case 2
      then show ?thesis
        using frameD [OF ok a(1)] pt pg a(1) c(1) by (auto simp: frame_ok_def waits_ok_def frame_is_eq)
    next
      case 3
      then show ?thesis
        using frameD [OF ok 3(3)] wo [OF 3(1,3)] a c(1) pt pg by (auto simp: frame_ok_def frame_is_eq)
    qed
  qed
  moreover have "futures_ok ?rt"
    using ok a(1) c(1) pa pt unfolding rt_ok_def futures_ok_def by (fastforce simp: frame_is_eq)
  moreover have "held_ok (c # H) ?rt"
    using ok a(1) g0 by (auto simp: rt_ok_def held_ok_def frame_is_eq)
  moreover have "infos_ok U ?rt1" by (rule infos_put [OF _ a(1)]) (use ok in \<open>simp_all add: rt_ok_def\<close>)
  then have "infos_ok U ?rt" by (rule infos_put [where f = g]) (use c ac in simp_all)
  moreover have r1: "runnable ?rt1 = runnable rt" by (rule runnable_put_same [OF a(1)]) (use pa pt in simp)
  have r2: "runnable ?rt = runnable ?rt1" by (rule runnable_put_same [of _ _ g]) (use c ac pt in simp_all)
  have "queues_ok X ?rt1" by (rule queues_put [OF _ a(1)]) (use ok a r1 in \<open>simp_all add: rt_ok_def\<close>)
  then have "queues_ok X ?rt" by (rule queues_put [where f = g]) (use c ac r2 in simp_all)
  ultimately show ?thesis by (simp add: rt_ok_def)
qed

end
