(* ===== verification/Coroutines_Run.thy ===== *)
theory Coroutines_Run
  imports Coroutines_Step
begin

text \<open>
  Freeing a frame, by its owner or by itself at its final suspension, keeps the invariant.
\<close>

subsection \<open>Freeing a frame\<close>

definition freed :: "task_info pool \<Rightarrow> nat \<Rightarrow> 'v runtime \<Rightarrow> 'v runtime" where
  "freed pl c rt = rt\<lparr>task_infos := pl, promises := (promises rt)(c := None)\<rparr>"

lemma remove_eq:
  assumes "release task_info_class (task_infos rt) (Some p) = Inr pl" "ti_handle (task_info_at p rt) = Some c"
    "promises rt c = Some f"
  shows "remove_from_event_base (Some p) rt = Inr (freed pl c rt)"
  using assms by (simp add: remove_from_event_base_def Let_def destroy_frame_def promise_at_def freed_def)

lemma release_info:
  assumes "infos_ok U rt" "p < slots rt" "ti_handle (task_info_at p rt) \<noteq> None"
  shows "\<exists>pl. release task_info_class (task_infos rt) (Some p) = Inr pl \<and> pool_ok pl \<and>
    pool_free pl = pool_free (task_infos rt) @ [p] \<and> pool_size pl = slots rt \<and>
    objs pl = (objs (task_infos rt))[p := clear_task_info (task_info_at p rt)]"
proof -
  have i: "pool_ok (task_infos rt)" "distinct (pool_free (task_infos rt))" "set (pool_free (task_infos rt)) \<subseteq> {..<slots rt}"
    "p \<notin> set (pool_free (task_infos rt))" using assms by (auto simp: infos_ok_def)
  have "card (insert p (set (pool_free (task_infos rt)))) \<le> slots rt"
    using i(3) assms(2) card_mono [of "{..<slots rt}" "insert p (set (pool_free (task_infos rt)))"] by simp
  then have "length (pool_free (task_infos rt)) < slots rt" using i by (simp add: distinct_card)
  from release_ok [OF i(1) this] obtain pl where "release task_info_class (task_infos rt) (Some p) = Inr pl" "pool_ok pl"
    "pool_free pl = pool_free (task_infos rt) @ [p]" "pool_size pl = slots rt" by blast
  with release_objs_hook [OF this(1)] show ?thesis
    by (simp add: task_info_class_def run_hook_def task_info_at_def)
qed

lemma remove_ok:
  assumes ok: "rt_ok X U H rt" and c: "promises rt c = Some f" "is_done f" "m_suspending_promise f = None" "c \<notin> U"
    "task_ptr f = Some p"
  shows "\<exists>pl. release task_info_class (task_infos rt) (Some p) = Inr pl \<and> ti_handle (task_info_at p rt) = Some c \<and>
    pool_size pl = slots rt \<and> rt_ok (X - {c}) U (remove1 c H) (freed pl c rt)"
proof -
  have inf: "infos_ok U rt" using ok by (simp add: rt_ok_def)
  from infoD [OF ok c(1,4)] c(5) have p: "p < slots rt" "ti_handle (task_info_at p rt) = Some c" by auto
  from release_info [OF inf p(1)] p(2) obtain pl where pl: "release task_info_class (task_infos rt) (Some p) = Inr pl"
    "pool_ok pl" "pool_free pl = pool_free (task_infos rt) @ [p]" "pool_size pl = slots rt"
    "objs pl = (objs (task_infos rt))[p := clear_task_info (task_info_at p rt)]" by auto
  let ?rt = "freed pl c rt"
  have sl: "slots ?rt = slots rt" "next_address ?rt = next_address rt" "futures ?rt = futures rt" "ready_queue ?rt = ready_queue rt"
    "promises ?rt = (promises rt)(c := None)" "task_infos ?rt = pl" by (simp_all add: freed_def pl)
  have at: "task_info_at q ?rt = (if q = p then clear_task_info (task_info_at p rt) else task_info_at q rt)" for q
    using p(1) inf by (simp add: task_info_at_def freed_def pl infos_ok_def)
  have hn: "ti_handle (clear_task_info x) = None" for x by (simp add: clear_task_info_def)
  have fr: "frame_is ?rt b P \<longleftrightarrow> b \<noteq> c \<and> frame_is rt b P" for b P by (simp add: frame_is_def freed_def)
  have fu: "future_is ?rt i Q \<longleftrightarrow> future_is rt i Q" for i Q by (simp add: future_is_def freed_def)
  have nw: "promises rt b = Some h \<Longrightarrow> child_of h \<noteq> Some c" for b h by (rule others_not_waiting [OF ok c(1,3)])
  have w: "promises rt b = Some h \<Longrightarrow> waits_ok ?rt b h" for b h
    using frameD(2) [OF ok, of b h] nw [of b h] by (auto simp: waits_ok_def fr fu)
  have r: "promises rt b = Some h \<Longrightarrow> runnable ?rt h \<longleftrightarrow> runnable rt h" for b h
    using nw [of b h] by (auto simp: runnable_def fr fu)
  have pc: "child_of f = None" "future_of f = None"
    using c(2) by (simp_all add: child_of_def future_of_def is_done_def split: resume_point.splits)
  have dH: "distinct H" using ok by (simp add: rt_ok_def held_ok_def)
  have "frames_ok (X - {c}) (remove1 c H) ?rt"
    unfolding frames_ok_def
  proof (intro allI impI)
    fix b h assume "promises ?rt b = Some h"
    then have h: "b \<noteq> c" "promises rt b = Some h" by (auto simp: sl split: if_splits)
    from frameD [OF ok h(2)] h w [OF h(2)] c(1) pc dH show "frame_ok (X - {c}) (remove1 c H) ?rt b h"
      by (auto simp: frame_ok_def fr sl frame_is_eq)
  qed
  moreover have "futures_ok ?rt"
    using ok c(1) pc unfolding rt_ok_def futures_ok_def sl fr by (fastforce simp: frame_is_eq)
  moreover have "held_ok (remove1 c H) ?rt" using ok dH by (auto simp: rt_ok_def held_ok_def fr)
  moreover have u: "ti_handle (task_info_at q rt) = Some c \<Longrightarrow> q < slots rt \<Longrightarrow> q = p" for q
    using inf c(1,5) by (auto simp: infos_ok_def frame_is_eq)
  have "infos_ok U ?rt"
    unfolding infos_ok_def sl(6)
  proof (intro conjI allI impI)
    show "length (objs pl) = pool_size pl" using inf pl by (simp add: infos_ok_def)
    show "distinct (pool_free pl)" "set (pool_free pl) \<subseteq> {..<pool_size pl}" using inf pl p by (auto simp: infos_ok_def)
    fix q assume q: "q < pool_size pl"
    show "ti_handle (task_info_at q ?rt) = None \<longleftrightarrow> q \<in> set (pool_free pl)"
      using inf q by (auto simp: at pl(3,4) hn infos_ok_def)
    fix a assume a: "ti_handle (task_info_at q ?rt) = Some a"
    then have q': "q \<noteq> p" "ti_handle (task_info_at q rt) = Some a" by (auto simp: at hn split: if_splits)
    have "a \<noteq> c" using u [of q] q q' by (auto simp: pl)
    then show "a \<notin> U" "base_promise_type_address (task_info_at q ?rt) = Some a" "event_base (task_info_at q ?rt) \<noteq> None"
      "frame_is ?rt a (\<lambda>f. task_ptr f = Some q \<and> m_event_base f = event_base (task_info_at q ?rt))"
      using inf q q' by (auto simp: infos_ok_def fr at pl(4))
  next
    fix a h assume "promises ?rt a = Some h" "a \<notin> U"
    then have h: "a \<noteq> c" "promises rt a = Some h" by (auto simp: sl split: if_splits)
    from infoD [OF ok h(2) \<open>a \<notin> U\<close>] obtain q where q: "q < slots rt" "task_ptr h = Some q" "ti_handle (task_info_at q rt) = Some a"
      by metis
    then have "q \<noteq> p" using h p by auto
    with q show "\<exists>q. task_ptr h = Some q \<and> q < pool_size pl \<and> ti_handle (task_info_at q ?rt) = Some a"
      by (simp add: at pl)
  qed (rule pl)
  moreover have "listed (X - {c}) ?rt eb q \<longleftrightarrow> listed X rt eb q" for eb q
  proof -
    have rr: "frame_is ?rt b (runnable ?rt) \<longleftrightarrow> b \<noteq> c \<and> frame_is rt b (runnable rt)" for b
      using r [of b] by (cases "promises rt b") (auto simp: fr frame_is_eq frame_is_def sl)
    have "\<not> frame_is rt c (runnable rt)" using c by (simp add: frame_is_eq runnable_def)
    moreover have "q < slots rt \<Longrightarrow> q \<noteq> p \<Longrightarrow> ti_handle (task_info_at q rt) \<noteq> Some c" using u by blast
    ultimately show ?thesis
      unfolding listed_def at sl(1) rr by (cases "q = p") (use p hn in auto)
  qed
  then have "queues_ok (X - {c}) ?rt" using ok by (simp add: rt_ok_def queues_ok_def sl pl)
  ultimately have "rt_ok (X - {c}) U (remove1 c H) ?rt" by (simp add: rt_ok_def)
  with pl p show ?thesis by blast
qed

text \<open>\<open>~BaseTask\<close>: a finished frame is freed, another one is marked and will free itself.\<close>

lemma mark_ok:
  assumes ok: "rt_ok X U (c # H) rt" and c: "promises rt c = Some f" "\<not> is_done f"
  shows "rt_ok X U H (put_promise c (f\<lparr>is_task_release := True\<rparr>) rt)"
proof -
  let ?f = "f\<lparr>is_task_release := True\<rparr>" let ?rt = "put_promise c ?f rt"
  have c0: "m_suspending_promise f = None" "c \<notin> set H"
    using ok c by (auto simp: rt_ok_def held_ok_def frame_is_eq)
  have w: "waits_ok rt b h \<Longrightarrow> waits_ok ?rt b h" for b h using c(1) by (auto simp: waits_ok_def frame_is_eq)
  have r: "runnable ?rt = runnable rt" by (rule runnable_put_same [OF c(1)]) simp
  have "frames_ok X H ?rt"
  proof (rule frames_ok_put [where rt = rt and a = c and f' = ?f])
    fix b h assume "b \<noteq> c" "promises rt b = Some h"
    with frameD [OF ok this(2)] w c(1) show "frame_ok X H ?rt b h" by (auto simp: frame_ok_def frame_is_eq)
  next
    show "frame_ok X H ?rt c ?f"
      using frameD [OF ok c(1)] w [of c f] c c0 by (simp add: frame_ok_def)
  qed simp
  moreover have "futures_ok ?rt" using ok c(1) unfolding rt_ok_def futures_ok_def by (fastforce simp: frame_is_eq)
  moreover have "held_ok H ?rt" using ok c(1) by (auto simp: rt_ok_def held_ok_def frame_is_eq)
  moreover have "infos_ok U ?rt" by (rule infos_put [OF _ c(1)]) (use ok in \<open>simp_all add: rt_ok_def\<close>)
  moreover have "queues_ok X ?rt" by (rule queues_put [OF _ c(1)]) (use ok c r in \<open>simp_all add: rt_ok_def\<close>)
  ultimately show ?thesis by (simp add: rt_ok_def)
qed

lemma destroy_held_ok:
  assumes ok: "rt_ok X U (c # H) rt" "c \<notin> U"
  shows "\<exists>rt'. destroy_task c rt = Inr rt' \<and> rt_ok (X - {c}) U H rt' \<or>
    destroy_task c rt = Inr rt' \<and> rt_ok X U H rt' \<and> frame_is rt c (\<lambda>f. \<not> is_done f) \<and>
      (\<exists>f. promises rt c = Some f \<and> promises rt' = (promises rt)(c \<mapsto> f\<lparr>is_task_release := True\<rparr>)) \<and> slots rt' = slots rt"
proof -
  from ok(1) obtain f where f: "promises rt c = Some f" "m_suspending_promise f = None"
    by (auto simp: rt_ok_def held_ok_def dest: frame_is_some)
  show ?thesis
  proof (cases "is_done f")
    case True
    from infoD [OF ok(1) f(1) ok(2)] obtain p eb where p: "task_ptr f = Some p" "m_event_base f = Some eb" by metis
    from remove_ok [OF ok(1) f(1) True f(2) ok(2) p(1)] obtain pl where
      "release task_info_class (task_infos rt) (Some p) = Inr pl" "ti_handle (task_info_at p rt) = Some c"
      and o: "rt_ok (X - {c}) U H (freed pl c rt)" by auto
    from remove_eq [OF this(1,2) f(1)] p f(1) True have "destroy_task c rt = Inr (freed pl c rt)"
      by (simp add: destroy_task_def promise_at_def)
    with o show ?thesis by blast
  next
    case False
    with mark_ok [OF ok(1) f(1) False] f(1) show ?thesis
      by (auto simp: destroy_task_def promise_at_def frame_is_eq)
  qed
qed

end
