(* ===== verification/Coroutines_Sched.thy ===== *)
theory Coroutines_Sched
  imports Coroutines_Run
begin

section \<open>Futures, returning, and whole turns\<close>

text \<open>
  Setting and destroying a future, returning from a task and a whole turn of an event base keep
  the invariant.
\<close>

lemma point_parts [simp]:
  "child_of (f\<lparr>resume_point := At_Start d\<rparr>) = None" "future_of (f\<lparr>resume_point := At_Start d\<rparr>) = None"
  "is_done (f\<lparr>resume_point := At_Start d\<rparr>) = False"
  "child_of (f\<lparr>resume_point := After_Task c k\<rparr>) = Some c" "future_of (f\<lparr>resume_point := After_Task c k\<rparr>) = None"
  "is_done (f\<lparr>resume_point := After_Task c k\<rparr>) = False"
  "child_of (f\<lparr>resume_point := After_Future i k\<rparr>) = None" "future_of (f\<lparr>resume_point := After_Future i k\<rparr>) = Some i"
  "is_done (f\<lparr>resume_point := After_Future i k\<rparr>) = False"
  "child_of (f\<lparr>resume_point := At_Final\<rparr>) = None" "future_of (f\<lparr>resume_point := At_Final\<rparr>) = None"
  "is_done (f\<lparr>resume_point := At_Final\<rparr>) = True"
  by (simp_all add: child_of_def future_of_def is_done_def)

lemma destroy_future_fields [simp]:
  "promises (destroy_future i rt) = promises rt" "futures (destroy_future i rt) = (futures rt)(i := None)"
  "next_address (destroy_future i rt) = next_address rt" "task_infos (destroy_future i rt) = task_infos rt"
  "ready_queue (destroy_future i rt) = ready_queue rt" "task_info_at p (destroy_future i rt) = task_info_at p rt"
  "frame_is (destroy_future i rt) b P \<longleftrightarrow> frame_is rt b P"
  "future_is (destroy_future i rt) j Q \<longleftrightarrow> j \<noteq> i \<and> future_is rt j Q"
  by (simp_all add: destroy_future_def task_info_at_def frame_is_def future_is_def)

lemma starting: "resume_point f = At_Start d \<Longrightarrow> child_of f = None \<and> future_of f = None \<and> \<not> is_done f"
  by (simp add: child_of_def future_of_def is_done_def)

lemma future_link_ok:
  assumes ok: "rt_ok X U H rt" and a: "promises rt a = Some f" "resume_point f = At_Start d" "a \<in> X"
    and f': "child_of f' = None" "future_of f' = Some (next_address rt)" "\<not> is_done f'"
      "m_suspending_promise f' = m_suspending_promise f"
      "is_task_release f' = is_task_release f" "task_ptr f' = task_ptr f" "m_event_base f' = m_event_base f"
    and v: "\<not> m_is_set v" "future_promise v = Some a"
  shows "rt_ok X U H (put_future (next_address rt) v (put_promise a f' (rt\<lparr>next_address := next_address rt + 1\<rparr>)))"
proof -
  let ?i = "next_address rt"
  let ?rt = "put_future ?i v (put_promise a f' (rt\<lparr>next_address := ?i + 1\<rparr>))"
  note pa = starting [OF a(2)]
  have nf: "\<not> future_is rt ?i Q" for Q
    using futureD(1) [OF ok, of ?i] by (auto dest: future_is_some)
  have al: "a < ?i" by (rule frameD(1) [OF ok a(1)])
  have w: "b \<noteq> a \<Longrightarrow> promises rt b = Some h \<Longrightarrow> waits_ok ?rt b h" for b h
    using frameD(2) [OF ok, of b h] nf a(1) f' by (auto simp: waits_ok_def frame_is_eq)
  have r: "promises rt b = Some h \<Longrightarrow> runnable ?rt h \<longleftrightarrow> runnable rt h" for b h
    using frameD(2) [OF ok, of b h] nf a(1) f' pa by (auto simp: runnable_def waits_ok_def frame_is_eq)
  have "frames_ok X H ?rt"
    unfolding frames_ok_def
  proof (intro allI impI)
    fix b h assume h: "promises ?rt b = Some h"
    show "frame_ok X H ?rt b h"
    proof (cases "b = a")
      case True
      with h frameD [OF ok a(1)] f' v al a(1) pa show ?thesis by (auto simp: frame_ok_def waits_ok_def frame_is_eq)
    next
      case False
      with h have "promises rt b = Some h" by simp
      with frameD [OF ok this] w [OF False this] f' a(1) pa show ?thesis by (auto simp: frame_ok_def frame_is_eq)
    qed
  qed
  moreover have "futures_ok ?rt"
    unfolding futures_ok_def
  proof (intro allI impI)
    fix j u assume "futures ?rt j = Some u"
    then consider "j = ?i" "u = v" | "j \<noteq> ?i" "futures rt j = Some u" by (auto split: if_splits)
    then show "j < next_address ?rt \<and> (m_is_set u \<longrightarrow> m_value u \<noteq> None) \<and>
        (\<exists>a. future_promise u = Some a \<and> frame_is ?rt a (\<lambda>f. future_of f = Some j))"
    proof cases
      case 2
      with futureD [OF ok 2(2)] a(1) pa show ?thesis by (auto simp: frame_is_def)
    qed (use v f' in simp)
  qed
  moreover have "held_ok H ?rt" using ok a(1) f' by (auto simp: rt_ok_def held_ok_def frame_is_eq)
  moreover have "infos_ok U ?rt"
    using ok a(1) f' unfolding rt_ok_def infos_ok_def by (auto simp: frame_is_eq)
  moreover have "frame_is ?rt b (runnable ?rt) \<longleftrightarrow> frame_is rt b (runnable rt)" if "b \<notin> X" for b
    using r that a(3) by (auto simp: frame_is_def split: option.splits)
  then have "listed X ?rt eb p \<longleftrightarrow> listed X rt eb p" for eb p
    unfolding listed_def by (simp cong: conj_cong)
  then have "queues_ok X ?rt" using ok by (simp add: rt_ok_def queues_ok_def)
  ultimately show ?thesis by (simp add: rt_ok_def)
qed

lemma future_set_ok:
  assumes ok: "rt_ok X U H rt" and v: "futures rt i = Some v" "\<not> m_is_set v" "future_promise v = Some a"
    and v': "m_is_set v'" "m_value v' \<noteq> None" "future_promise v' = Some a"
  shows "rt_ok (insert a X) U H (put_future i v' rt)"
proof -
  let ?rt = "put_future i v' rt"
  have w: "waits_ok rt b h \<Longrightarrow> waits_ok ?rt b h" for b h using v v' by (auto simp: waits_ok_def future_is_eq)
  have r: "runnable ?rt h \<longleftrightarrow> runnable rt h" if "promises rt b = Some h" "b \<noteq> a" for b h
    using that only_owner_waits [OF ok v(1,3) that(1)] v by (auto simp: runnable_def future_is_eq)
  have "frames_ok (insert a X) H ?rt"
    using frameD [OF ok] w by (auto simp: frames_ok_def frame_ok_def)
  moreover have "futures_ok ?rt"
    unfolding futures_ok_def
  proof (intro allI impI)
    fix j u assume "futures ?rt j = Some u"
    then have "if j = i then u = v' else futures rt j = Some u" by (auto split: if_splits)
    then consider "j = i" "u = v'" | "futures rt j = Some u" by metis
    then show "j < next_address ?rt \<and> (m_is_set u \<longrightarrow> m_value u \<noteq> None) \<and>
        (\<exists>a. future_promise u = Some a \<and> frame_is ?rt a (\<lambda>f. future_of f = Some j))"
    proof cases
      case 1
      obtain f where "promises rt a = Some f" "future_of f = Some i" using futureD(3) [OF ok v(1)] v(3) by auto
      with 1 futureD(1) [OF ok v(1)] v' show ?thesis by (simp add: frame_is_eq)
    next
      case 2
      obtain b f where "future_promise u = Some b" "promises rt b = Some f" "future_of f = Some j"
        using futureD(3) [OF ok 2] by auto
      with futureD(1,2) [OF ok 2] show ?thesis by (simp add: frame_is_eq)
    qed
  qed
  moreover have "held_ok H ?rt" "infos_ok U ?rt" using ok by (simp_all add: rt_ok_def held_ok_def infos_ok_def)
  moreover have na: "\<not> frame_is rt a (runnable rt)"
    using futureD(3) [OF ok v(1)] v by (auto simp: frame_is_eq runnable_def future_is_eq)
  moreover have "frame_is rt b (runnable ?rt) \<longleftrightarrow> frame_is rt b (runnable rt)" if "b \<noteq> a" for b
    using r that by (auto simp: frame_is_def split: option.splits)
  then have "listed (insert a X) ?rt eb p \<longleftrightarrow> listed X rt eb p" for eb p
    unfolding listed_def put_future_fields frame_is_put using na by (metis insert_iff)
  then have "queues_ok (insert a X) ?rt" using ok by (simp add: rt_ok_def queues_ok_def)
  ultimately show ?thesis by (simp add: rt_ok_def)
qed

lemma set_value_ok:
  assumes ok: "rt_ok X U H rt" and v: "futures rt i = Some v" "future_promise v = Some a" "a \<notin> X" "a \<notin> U"
  shows "\<exists>rt'. set_value i x rt = Inr rt' \<and> rt_ok X U H rt' \<and> slots rt' = slots rt \<and>
    (promises rt' = promises rt \<or>
     (\<exists>f. promises rt a = Some f \<and> promises rt' = (promises rt)(a \<mapsto> f\<lparr>m_is_waiting := False\<rparr>)))"
proof (cases "m_is_set v")
  case True
  with ok v show ?thesis by (simp add: set_value_def future_at_def)
next
  case False
  let ?v = "v\<lparr>m_value := Some x, m_is_set := True\<rparr>" let ?rt = "put_future i ?v rt"
  have "rt_ok (insert a X) U H ?rt" by (rule future_set_ok [OF ok v(1) False v(2)]) (use v in simp_all)
  moreover obtain f where f: "promises rt a = Some f" "future_of f = Some i" using futureD(3) [OF ok v(1)] v(2) by auto
  moreover have "runnable ?rt f"
    using f by (simp add: runnable_def child_of_def future_of_def is_done_def split: resume_point.splits)
  ultimately obtain rt' where "set_waiting a False ?rt = Inr rt'" "rt_ok X U H rt'" "slots rt' = slots ?rt"
    "promises rt a = Some f" "promises rt' = (promises rt)(a \<mapsto> f\<lparr>m_is_waiting := False\<rparr>)"
    using wake_ok [of a X U H ?rt f] v by auto
  moreover have "set_value i x rt = set_waiting a False ?rt"
    using v False by (simp add: set_value_def future_at_def future_set_ready_def put_future_def)
  ultimately show ?thesis by simp
qed

lemma future_unlink_ok:
  assumes ok: "rt_ok X U H rt" and a: "promises rt a = Some f" "future_of f = Some i" "a \<in> X"
  shows "rt_ok X U H (put_promise a (f\<lparr>resume_point := At_Start d\<rparr>) (destroy_future i rt))"
proof -
  let ?f = "f\<lparr>resume_point := At_Start d\<rparr>" let ?rt = "put_promise a ?f (destroy_future i rt)"
  have pa: "child_of f = None" "\<not> is_done f"
    using a(2) by (simp_all add: child_of_def future_of_def is_done_def split: resume_point.splits)
  obtain v where v: "futures rt i = Some v" "future_promise v = Some a"
    using frameD(2) [OF ok a(1)] a(2) by (auto simp: waits_ok_def dest: future_is_some)
  have oth: "promises rt b = Some h \<Longrightarrow> b \<noteq> a \<Longrightarrow> future_of h \<noteq> Some i" for b h
    using only_owner_waits [OF ok v] by blast
  have w: "promises rt b = Some h \<Longrightarrow> b \<noteq> a \<Longrightarrow> waits_ok ?rt b h" for b h
    using frameD(2) [OF ok, of b h] oth [of b h] a(1) by (auto simp: waits_ok_def frame_is_eq)
  have r: "promises rt b = Some h \<Longrightarrow> b \<noteq> a \<Longrightarrow> runnable ?rt h \<longleftrightarrow> runnable rt h" for b h
    using oth [of b h] a(1) pa by (auto simp: runnable_def frame_is_eq)
  have "frames_ok X H ?rt"
    unfolding frames_ok_def
  proof (intro allI impI)
    fix b h assume h: "promises ?rt b = Some h"
    show "frame_ok X H ?rt b h"
    proof (cases "b = a")
      case True
      with h frameD [OF ok a(1)] a(1) pa show ?thesis by (auto simp: frame_ok_def waits_ok_def frame_is_eq)
    next
      case False
      with h have "promises rt b = Some h" by simp
      with frameD [OF ok this] w [OF this False] a(1) pa False show ?thesis
        by (auto simp: frame_ok_def frame_is_eq)
    qed
  qed
  moreover have "futures_ok ?rt"
    unfolding futures_ok_def
  proof (intro allI impI)
    fix j u assume "futures ?rt j = Some u"
    then have j: "j \<noteq> i" "futures rt j = Some u" by (auto split: if_splits)
    obtain b h where b: "future_promise u = Some b" "promises rt b = Some h" "future_of h = Some j"
      using futureD(3) [OF ok j(2)] by auto
    then have "b \<noteq> a" using a j(1) by auto
    with b futureD(1,2) [OF ok j(2)] show "j < next_address ?rt \<and> (m_is_set u \<longrightarrow> m_value u \<noteq> None) \<and>
        (\<exists>a. future_promise u = Some a \<and> frame_is ?rt a (\<lambda>f. future_of f = Some j))"
      by (simp add: frame_is_eq)
  qed
  moreover have "held_ok H ?rt" using ok a(1) by (auto simp: rt_ok_def held_ok_def frame_is_eq)
  moreover have "infos_ok U ?rt"
    using ok a(1) unfolding rt_ok_def infos_ok_def by (auto simp: frame_is_eq)
  moreover have "frame_is ?rt b (runnable ?rt) \<longleftrightarrow> frame_is rt b (runnable rt)" if "b \<notin> X" for b
    using r that a(3) by (auto simp: frame_is_def split: option.splits)
  then have "listed X ?rt eb p \<longleftrightarrow> listed X rt eb p" for eb p
    unfolding listed_def by (simp cong: conj_cong)
  then have "queues_ok X ?rt" using ok by (simp add: rt_ok_def queues_ok_def)
  ultimately show ?thesis by (simp add: rt_ok_def)
qed

lemma final_ok:
  assumes ok: "rt_ok X U H rt" and a: "promises rt a = Some f" "resume_point f = At_Start d" "a \<in> X"
  shows "rt_ok (set_option (m_suspending_promise f) \<union> X) U H
     (put_promise a (f\<lparr>task_value := Some v, resume_point := At_Final\<rparr>) rt)"
proof -
  let ?f = "f\<lparr>task_value := Some v, resume_point := At_Final\<rparr>" let ?rt = "put_promise a ?f rt"
  let ?X = "set_option (m_suspending_promise f) \<union> X"
  note pa = starting [OF a(2)]
  have pf: "child_of ?f = None" "future_of ?f = None" "is_done ?f" by (simp_all add: child_of_def future_of_def is_done_def)
  have w: "promises rt b = Some h \<Longrightarrow> b \<noteq> a \<Longrightarrow> waits_ok ?rt b h" for b h
    using frameD(2) [OF ok, of b h] a(1) by (auto simp: waits_ok_def frame_is_eq)
  have only: "b \<in> set_option (m_suspending_promise f)" if "promises rt b = Some h" "child_of h = Some a" for b h
    using frameD(2) [OF ok that(1)] that a(1) by (auto simp: waits_ok_def frame_is_eq)
  have r: "frame_is ?rt b (runnable ?rt) \<longleftrightarrow> frame_is rt b (runnable rt)" if "b \<notin> ?X" for b
    using that only [of b] a pf by (auto simp: frame_is_def runnable_def split: option.splits)
  have nr: "\<not> frame_is rt b (runnable rt)" if "m_suspending_promise f = Some b" for b
    using frameD(5) [OF ok a(1) that] a(1) pa by (auto simp: frame_is_def runnable_def split: option.splits)
  have "frames_ok ?X H ?rt"
    unfolding frames_ok_def
  proof (intro allI impI)
    fix b h assume h: "promises ?rt b = Some h"
    show "frame_ok ?X H ?rt b h"
    proof (cases "b = a")
      case True
      with h frameD [OF ok a(1)] a pa pf show ?thesis by (auto simp: frame_ok_def waits_ok_def frame_is_eq)
    next
      case False
      with h have "promises rt b = Some h" by simp
      with frameD [OF ok this] w [OF this False] a(1) pa pf show ?thesis by (auto simp: frame_ok_def frame_is_eq)
    qed
  qed
  moreover have "futures_ok ?rt" using ok a(1) pa unfolding rt_ok_def futures_ok_def by (fastforce simp: frame_is_eq)
  moreover have "held_ok H ?rt" using ok a(1) by (auto simp: rt_ok_def held_ok_def frame_is_eq)
  moreover have "infos_ok U ?rt" by (rule infos_put [OF _ a(1)]) (use ok in \<open>simp_all add: rt_ok_def\<close>)
  moreover have "listed ?X ?rt eb p \<longleftrightarrow> listed X rt eb p" for eb p
    unfolding listed_def put_promise_fields using r nr by (metis UnCI UnE elem_set)
  then have "queues_ok ?X ?rt" using ok by (simp add: rt_ok_def queues_ok_def)
  ultimately show ?thesis by (simp add: rt_ok_def)
qed

end
