(* ===== verification/Coroutines_Safe.thy ===== *)
theory Coroutines_Safe
  imports Coroutines_Sched
begin

section \<open>The scheduler is safe\<close>

text \<open>
  No operation of the scheduler touches a frame or future that has been freed: a turn of an event
  base, whatever the body does until it suspends, ends without error in a state with the invariant.
\<close>

subsection \<open>From a resumption to the next suspension\<close>

lemma put_promise_twice [simp]: "put_promise a f (put_promise a g rt) = put_promise a f rt"
  by (simp add: put_promise_def)

lemma start_task_ok:
  assumes ok: "rt_ok X {} H rt" and X: "next_address rt \<notin> X"
  shows "fine (\<lambda>(c, rt'). c = next_address rt \<and> rt_ok X {} (c # H) rt' \<and> slots rt' = slots rt \<and> promises rt c = None \<and>
    (\<exists>g. promises rt' = (promises rt)(c \<mapsto> g) \<and> resume_point g = At_Start b \<and> m_suspending_promise g = None) \<and>
    next_address rt' = next_address rt + 1) (start_task eb b rt)"
proof -
  let ?c = "next_address rt"
  from create_coroutine_ok [OF ok, of b] obtain rt1 g where c: "create_coroutine b rt = (?c, rt1)"
    "rt_ok (insert ?c X) (insert ?c {}) (?c # H) rt1" "promises rt1 = (promises rt)(?c \<mapsto> g)" "resume_point g = At_Start b"
    "m_suspending_promise g = None" "promises rt ?c = None" "slots rt1 = slots rt" "next_address rt1 = ?c + 1"
    by auto
  have "promises rt1 ?c = Some g" using c(3) by simp
  note r = register_ok [OF c(2) this c(4) _ X, of eb]
  show ?thesis
    unfolding start_task_def c(1) prod.case
    by (rule fine_bind [OF r]) (use c in auto)
qed

definition ran :: "nat \<Rightarrow> ptr \<Rightarrow> nat list \<Rightarrow> nat \<Rightarrow> 'v runtime \<Rightarrow> bool" where
  "ran a p H n rt \<longleftrightarrow> slots rt = n \<and> (\<exists>f. promises rt a = Some f \<and> task_ptr f = Some p \<and>
     rt_ok (if is_done f \<and> is_task_release f then {a} else {}) {} H rt)"

lemma run_return_ok:
  assumes ok: "rt_ok {a} {} H rt" and a: "promises rt a = Some f" "resume_point f = At_Start d" "task_ptr f = Some p"
  shows "fine (ran a p H (slots rt)) (run_code a (Return v) rt)"
proof -
  let ?f = "f\<lparr>task_value := Some v, resume_point := At_Final\<rparr>" let ?rt = "put_promise a ?f rt"
  have e: "run_code a (Return v) rt = final_suspend a ?rt"
    using a by (simp add: return_value_def set_resume_point_def promise_at_def)
  have d: "is_done ?f" by simp
  have f: "rt_ok (set_option (m_suspending_promise f) \<union> {a}) {} H ?rt" by (rule final_ok [OF ok a(1,2)]) simp
  show ?thesis
  proof (cases "m_suspending_promise f")
    case None
    with f have f1: "rt_ok {a} {} H ?rt" by simp
    have "rt_ok {} {} H ?rt" if "\<not> is_task_release f"
      by (rule shrink_ok [OF f1, of ?f]) (use that d in \<open>simp_all add: runnable_def\<close>)
    with f1 have "ran a p H (slots rt) ?rt" using a(3) by (auto simp: ran_def)
    with None show ?thesis unfolding e by (simp add: final_suspend_def promise_at_def)
  next
    case (Some b)
    with frameD(5) [OF ok a(1)] obtain h where h: "promises rt b = Some h" "child_of h = Some a"
      by (auto dest: frame_is_some)
    with frameD(2) [OF ok h(1)] have ba: "b < a" by (simp add: waits_ok_def)
    have pt: "future_of h = None" "\<not> is_done h"
      using h(2) by (simp_all add: child_of_def future_of_def is_done_def split: resume_point.splits)
    have "runnable ?rt h" using h pt d by (simp add: runnable_def)
    moreover have "rt_ok (insert b {a}) {} H ?rt" using f Some by (simp add: insert_commute)
    ultimately obtain rt' where
      w: "set_waiting b False ?rt = Inr rt'" "rt_ok (insert a {}) {} H rt'" "slots rt' = slots rt"
      "promises rt' = (promises ?rt)(b \<mapsto> h\<lparr>m_is_waiting := False\<rparr>)"
      using wake_ok [of b "{a}" "{}" H ?rt h] h(1) ba by auto
    have fa: "promises rt' a = Some ?f" using w(4) ba by simp
    have nr: "\<not> is_task_release f" using frameD(3) [OF ok a(1)] Some by simp
    have "rt_ok {} {} H rt'" by (rule shrink_ok [OF w(2) fa]) (use nr d in \<open>simp_all add: runnable_def\<close>)
    then have "ran a p H (slots rt) rt'" using fa nr w(3) a(3) by (auto simp: ran_def)
    with w(1) Some show ?thesis unfolding e by (simp add: final_suspend_def promise_at_def)
  qed
qed

lemma run_await_task_ok:
  assumes ok: "rt_ok {a} {} H rt" and a: "promises rt a = Some f" "resume_point f = At_Start d" "task_ptr f = Some p"
  shows "fine (ran a p H (slots rt)) (run_code a (Await_Task b k) rt)"
proof -
  let ?c = "next_address rt"
  have al: "a < ?c" by (rule frameD(1) [OF ok a(1)])
  from create_coroutine_ok [OF ok, of b] obtain rt1 g where c: "create_coroutine b rt = (?c, rt1)"
    "rt_ok {a, ?c} {?c} (?c # H) rt1" "promises rt1 = (promises rt)(?c \<mapsto> g)" "resume_point g = At_Start b"
    "slots rt1 = slots rt" by (auto simp: insert_commute)
  let ?f = "f\<lparr>resume_point := After_Task ?c k, m_is_waiting := True\<rparr>"
  let ?g = "g\<lparr>m_suspending_promise := Some a\<rparr>" let ?rt = "put_promise ?c ?g (put_promise a ?f rt1)"
  have fa: "promises rt1 a = Some f" and gc: "promises rt1 ?c = Some g" using c(3) a(1) al by simp_all
  obtain eb where eb: "m_event_base f = Some eb" using infoD [OF ok a(1)] by auto
  have e: "run_code a (Await_Task b k) rt = register_on ?c (Some eb) ?rt"
    using fa gc al eb by (simp add: c(1) set_resume_point_def promise_at_def task_await_suspend_def set_waiting_def)
  have l: "rt_ok (insert ?c {a}) (insert ?c {}) H ?rt"
    using link_ok [OF c(2) fa a(2) _ gc _ al, of ?f] starting [OF c(4)] by (auto simp: insert_commute)
  have gc': "promises ?rt ?c = Some ?g" by simp
  have "fine (\<lambda>rt'. rt_ok {a} {} H rt' \<and> slots rt' = slots ?rt \<and> futures rt' = futures ?rt \<and> next_address rt' = next_address ?rt \<and>
    (\<exists>g'. promises rt' = (promises ?rt)(?c \<mapsto> g') \<and> resume_point g' = At_Start b \<and>
       m_suspending_promise g' = m_suspending_promise ?g)) (register_on ?c (Some eb) ?rt)"
    by (rule register_ok [OF l gc']) (use c(4) al in simp_all)
  then show ?thesis
    unfolding e
  proof (rule fine_mono, clarify)
    fix rt' g'
    assume r: "rt_ok {a} {} H rt'" "slots rt' = slots ?rt" "promises rt' = (promises ?rt)(?c \<mapsto> g')" "resume_point g' = At_Start b"
    have fa': "promises rt' a = Some ?f" using r(3) al by simp
    have "\<not> runnable rt' ?f" using r(3) starting [OF r(4)] by (simp add: runnable_def frame_is_def)
    then have "rt_ok {} {} H rt'" by (intro shrink_ok [OF r(1) fa']) simp_all
    then show "ran a p H (slots rt) rt'" using fa' r(2) c(5) a(3) by (auto simp: ran_def)
  qed
qed

lemma run_await_future_ok:
  assumes ok: "rt_ok {a} {} H rt" and a: "promises rt a = Some f" "resume_point f = At_Start d" "task_ptr f = Some p"
  shows "fine (ran a p H (slots rt)) (run_code a (Await_Future w k) rt)"
proof -
  let ?i = "next_address rt"
  let ?f = "f\<lparr>resume_point := After_Future ?i k, m_is_waiting := True\<rparr>"
  let ?v = "\<lparr>m_value = None, m_is_set = False, future_promise = Some a\<rparr>"
  let ?rt = "put_future ?i ?v (put_promise a ?f (rt\<lparr>next_address := ?i + 1\<rparr>))"
  have e: "run_code a (Await_Future w k) rt = (case w of None \<Rightarrow> Inr ?rt | Some x \<Rightarrow> set_value ?i x ?rt)"
    using a(1) by (simp add: create_future_def set_resume_point_def promise_at_def future_await_suspend_def set_waiting_def
        future_at_def put_promise_def put_future_def Let_def cong: option.case_cong)
  have "rt_ok (insert a {}) {} H ?rt" by (rule future_link_ok [OF ok a(1,2)]) simp_all
  then have l: "rt_ok {} {} H ?rt" by (rule shrink_ok [where f = ?f]) (simp_all add: runnable_def)
  show ?thesis
  proof (cases w)
    case None
    have "ran a p H (slots rt) ?rt" using l a(3) by (simp add: ran_def)
    with None show ?thesis unfolding e by simp
  next
    case (Some x)
    from set_value_ok [OF l, of ?i ?v a x] obtain rt' where r: "set_value ?i x ?rt = Inr rt'" "rt_ok {} {} H rt'"
      "slots rt' = slots rt" "promises rt' = promises ?rt \<or>
        (\<exists>f. promises ?rt a = Some f \<and> promises rt' = (promises ?rt)(a \<mapsto> f\<lparr>m_is_waiting := False\<rparr>))" by auto
    then have "ran a p H (slots rt) rt'" using a(3) by (auto simp: ran_def)
    with Some r(1) show ?thesis unfolding e by simp
  qed
qed

lemma run_code_ok:
  assumes "rt_ok {a} {} H rt" "promises rt a = Some f" "resume_point f = At_Start d" "task_ptr f = Some p"
  shows "fine (ran a p H (slots rt)) (run_code a sg rt)"
  using assms
proof (induction sg arbitrary: rt)
  case (Spawn eb b c)
  let ?d = "next_address rt"
  have ad: "a < ?d" by (rule frameD(1) [OF Spawn.prems(1,2)])
  have "fine (\<lambda>(c, rt'). c = ?d \<and> rt_ok {a} {} (c # H) rt' \<and> slots rt' = slots rt \<and> promises rt c = None \<and>
    (\<exists>g. promises rt' = (promises rt)(c \<mapsto> g) \<and> resume_point g = At_Start b \<and> m_suspending_promise g = None) \<and>
    next_address rt' = next_address rt + 1) (start_task eb b rt)"
    by (rule start_task_ok [OF Spawn.prems(1)]) (use ad in simp)
  then show ?case
    unfolding run_code.simps
  proof (rule fine_bind2, clarify)
    fix rt1 g
    assume r: "rt_ok {a} {} (?d # H) rt1" "slots rt1 = slots rt" "promises rt1 = (promises rt)(?d \<mapsto> g)" "resume_point g = At_Start b"
    let ?rt = "put_promise ?d (g\<lparr>is_task_release := True\<rparr>) rt1"
    have m: "rt_ok {a} {} H ?rt" by (rule mark_ok [OF r(1)]) (use r(3) starting [OF r(4)] in simp_all)
    have "fine (ran a p H (slots ?rt)) (run_code a c ?rt)"
      by (rule Spawn.IH [OF m]) (use r(3) ad Spawn.prems in auto)
    moreover have "destroy_task ?d rt1 = Inr ?rt" using r(3) starting [OF r(4)] by (simp add: destroy_task_def promise_at_def)
    ultimately show "fine (ran a p H (slots rt)) (bindE (destroy_task ?d rt1) (run_code a c))" using r(2) by simp
  qed
qed (auto intro: run_return_ok run_await_task_ok run_await_future_ok simp del: run_code.simps)

lemma resume_frame_ok:
  assumes ok: "rt_ok {a} {} H rt" and a: "promises rt a = Some f" "runnable rt f" "task_ptr f = Some p"
  shows "fine (ran a p H (slots rt)) (resume_frame a rt)"
proof (cases "resume_point f")
  case (At_Start c)
  with run_code_ok [OF ok a(1) _ a(3)] a(1) show ?thesis by (simp add: resume_frame_def promise_at_def)
next
  case (After_Task c k)
  then have ch: "child_of f = Some c" by (simp add: child_of_def)
  with a(2) frameD(2) [OF ok a(1)] obtain g where g: "promises rt c = Some g" "is_done g" "a < c" "m_suspending_promise g = Some a"
    by (auto simp: runnable_def waits_ok_def dest!: frame_is_some)
  with frameD(2) [OF ok g(1)] obtain v where v: "task_value g = Some v" by (auto simp: waits_ok_def)
  obtain q eb where q: "task_ptr g = Some q" "ti_handle (task_info_at q rt) = Some c" "m_event_base g = Some eb"
    using infoD [OF ok g(1)] by (metis empty_iff)
  let ?f = "f\<lparr>resume_point := At_Start (k v)\<rparr>" let ?g = "g\<lparr>m_suspending_promise := None\<rparr>"
  let ?S = "put_promise c ?g (put_promise a ?f rt)"
  have S: "rt_ok {a} {} (c # H) ?S" by (rule unlink_ok [OF ok a(1) ch _ g(1,2)]) simp
  have gS: "promises ?S c = Some ?g" by simp
  from remove_ok [OF S gS] g(2) q obtain pl where pl: "release task_info_class (task_infos rt) (Some q) = Inr pl"
    "pool_size pl = slots rt" "rt_ok {a} {} H (freed pl c ?S)"
    using g(3) by auto
  have e1: "destroy_task c rt = Inr (freed pl c rt)"
    using remove_eq [OF pl(1) q(2) g(1)] g q by (simp add: destroy_task_def promise_at_def)
  have e2: "put_promise a ?f (freed pl c rt) = freed pl c ?S"
    using g(3) by (simp add: freed_def put_promise_def fun_upd_twist)
  have "resume_frame a rt = run_code a (code (k v)) (freed pl c ?S)"
    using a(1) After_Task g(1,3) v e1 e2
    by (simp add: resume_frame_def promise_at_def task_await_resume_def set_resume_point_def freed_def)
  moreover have "promises (freed pl c ?S) a = Some ?f" using g(3) by (simp add: freed_def)
  from run_code_ok [OF pl(3) this, of "k v" p "code (k v)"] have "fine (ran a p H (slots rt)) (run_code a (code (k v)) (freed pl c ?S))"
    using a(3) pl(2) by (simp add: freed_def)
  ultimately show ?thesis by simp
next
  case (After_Future i k)
  then have fo: "future_of f = Some i" by (simp add: future_of_def)
  with a(2) obtain v where v: "futures rt i = Some v" "m_is_set v" by (auto simp: runnable_def dest!: future_is_some)
  with futureD(2) [OF ok v(1)] obtain x where x: "m_value v = Some x" by auto
  let ?f = "f\<lparr>resume_point := At_Start (k x)\<rparr>" let ?rt = "put_promise a ?f (destroy_future i rt)"
  have S: "rt_ok {a} {} H ?rt" by (rule future_unlink_ok [OF ok a(1) fo]) simp
  have "resume_frame a rt = run_code a (code (k x)) ?rt"
    using a(1) After_Future v x
    by (simp add: resume_frame_def promise_at_def future_await_resume_def future_at_def set_resume_point_def)
  with run_code_ok [OF S, of ?f "k x" p "code (k x)"] a(3) show ?thesis by simp
next
  case At_Final
  with a(2) show ?thesis by (simp add: runnable_def is_done_def)
qed


subsection \<open>Turns and events\<close>

lemma first_time_ok:
  assumes ok: "rt_ok X U H rt" and ti: "ti_handle ti = ti_handle (task_info_at p rt)"
    "base_promise_type_address ti = base_promise_type_address (task_info_at p rt)"
    "event_base ti = event_base (task_info_at p rt)"
  shows "rt_ok X U H (set_task_info p ti rt)"
proof -
  let ?rt = "set_task_info p ti rt"
  have a: "task_info_at q ?rt = (if q = p \<and> p < length (objs (task_infos rt)) then ti else task_info_at q rt)" for q
    by (cases "p < length (objs (task_infos rt))") (auto simp: task_info_at_def set_task_info_def list_update_beyond)
  have at: "ti_handle (task_info_at q ?rt) = ti_handle (task_info_at q rt)"
    "base_promise_type_address (task_info_at q ?rt) = base_promise_type_address (task_info_at q rt)"
    "event_base (task_info_at q ?rt) = event_base (task_info_at q rt)" for q
    using ti by (simp_all add: a)
  have "listed X ?rt = listed X rt" by (simp add: listed_def at fun_eq_iff)
  moreover have "infos_ok U ?rt = infos_ok U rt" by (simp add: infos_ok_def at)
  moreover have "frames_ok X H ?rt = frames_ok X H rt" "futures_ok ?rt = futures_ok rt" "held_ok H ?rt = held_ok H rt"
    by (simp_all add: frames_ok_def frame_ok_def futures_ok_def held_ok_def)
  ultimately show ?thesis using ok by (simp add: rt_ok_def queues_ok_def)
qed

lemma pop_ok:
  assumes ok: "rt_ok {} {} H rt" and q: "queue_items (ready_queue rt eb) = p # ps"
  obtains a f q where "pop (ready_queue rt eb) = (Some p, q)" "p < slots rt" "ti_handle (task_info_at p rt) = Some a"
    "promises rt a = Some f" "task_ptr f = Some p" "runnable rt f" "rt_ok {a} {} H (rt\<lparr>ready_queue := (ready_queue rt)(eb := q)\<rparr>)"
    "event_base (task_info_at p rt) = Some eb"
proof -
  have "distinct (queue_items (ready_queue rt eb))" using ok unfolding rt_ok_def queues_ok_def by blast
  with q have d: "distinct (p # ps)" by simp
  have qk: "queue_ok (ready_queue rt eb)" "distinct (p # ps)" "\<And>e r. r \<in> set (queue_items (ready_queue rt e)) \<longleftrightarrow> listed {} rt e r"
    "capacity (ready_queue rt eb) = slots rt"
    using ok d by (simp_all add: rt_ok_def queues_ok_def)
  have "listed {} rt eb p" using qk(3) [of p eb] q by simp
  then obtain a f where a: "p < slots rt" "ti_handle (task_info_at p rt) = Some a" "event_base (task_info_at p rt) = Some eb"
    "promises rt a = Some f" "runnable rt f"
    by (auto simp: listed_def dest!: frame_is_some)
  then have "task_ptr f = Some p \<and> m_event_base f = Some eb" using ok by (auto simp: rt_ok_def infos_ok_def frame_is_eq)
  then have f: "task_ptr f = Some p" "m_event_base f = Some eb" by simp_all
  from mq.get_item [OF qk(1) q] obtain b where b: "pop (ready_queue rt eb) = (Some p, b)" "queue_ok b" "queue_items b = ps"
    "capacity b = slots rt" using qk(4) by (metis prod.collapse)
  have l: "listed {} rt e r \<longleftrightarrow> listed (insert a {}) rt e r \<or> (e = eb \<and> r = p)" for e r
    by (rule listed_insert [OF ok a(4) f(1) _ _ a(5) f(2)]) simp_all
  have np: "\<not> listed {a} rt eb p" using a by (simp add: listed_def)
  have "r \<in> set ps \<longleftrightarrow> listed {a} rt eb r" for r using qk(2) qk(3) [of r eb] q l [of eb r] np by auto
  moreover have "r \<in> set (queue_items (ready_queue rt e)) \<longleftrightarrow> listed {a} rt e r" if "e \<noteq> eb" for e r
    using qk(3) [of r e] l [of e r] that by simp
  ultimately have "queues_ok {a} (rt\<lparr>ready_queue := (ready_queue rt)(eb := b)\<rparr>)"
    using ok b qk(2) by (auto simp: rt_ok_def queues_ok_def)
  moreover have "frames_ok {a} H rt" using ok by (auto simp: rt_ok_def frames_ok_def frame_ok_def)
  ultimately have "rt_ok {a} {} H (rt\<lparr>ready_queue := (ready_queue rt)(eb := b)\<rparr>)" using ok by (simp add: rt_ok_def)
  with that b(1) a f show ?thesis by blast
qed

lemma check_to_remove_ok:
  assumes r: "ran a p H n rt" and f: "promises rt a = Some f" "is_done f"
  shows "\<exists>rt'. check_to_remove_task p rt = Inr rt' \<and> rt_ok {} {} H rt' \<and> slots rt' = n"
proof -
  from r f have t: "task_ptr f = Some p" "slots rt = n" "rt_ok (if is_task_release f then {a} else {}) {} H rt"
    by (auto simp: ran_def)
  from infoD [OF t(3) f(1)] t(1) have i: "base_promise_type_address (task_info_at p rt) = Some a" "ti_handle (task_info_at p rt) = Some a"
    by auto
  show ?thesis
  proof (cases "is_task_release f")
    case True
    with t(3) have ok: "rt_ok {a} {} H rt" by simp
    from frameD(3) [OF ok f(1)] True have h: "m_suspending_promise f = None" "a \<notin> set H" by auto
    from remove_ok [OF ok f h(1) _ t(1)] h(2) obtain pl where "release task_info_class (task_infos rt) (Some p) = Inr pl"
      "pool_size pl = slots rt" "rt_ok {} {} H (freed pl a rt)" by (auto simp: remove1_idem)
    with remove_eq [OF this(1) i(2) f(1)] True f i(1) t(2) show ?thesis
      by (auto simp: check_to_remove_task_def promise_at_def freed_def)
  next
    case False
    with t f i show ?thesis by (simp add: check_to_remove_task_def promise_at_def)
  qed
qed

lemma event_base_turn_ok:
  assumes ok: "rt_ok {} {} H rt"
  shows "fine (\<lambda>rt'. rt_ok {} {} H rt' \<and> slots rt' = slots rt) (event_base_turn eb rt)"
proof (cases "queue_items (ready_queue rt eb)")
  case Nil
  then have "pop (ready_queue rt eb) = (None, ready_queue rt eb)" by (simp add: queue_items_empty pop_def)
  then show ?thesis using ok by (simp add: event_base_turn_def)
next
  case (Cons p ps)
  obtain a f q where q: "pop (ready_queue rt eb) = (Some p, q)" "p < slots rt" "ti_handle (task_info_at p rt) = Some a"
    "promises rt a = Some f" "task_ptr f = Some p" "runnable rt f" "event_base (task_info_at p rt) = Some eb"
    "rt_ok {a} {} H (rt\<lparr>ready_queue := (ready_queue rt)(eb := q)\<rparr>)"
    using pop_ok [OF ok Cons] by metis
  let ?rt = "rt\<lparr>ready_queue := (ready_queue rt)(eb := q)\<rparr>"
  obtain rt1 where r1: "(if \<not> is_first_time (task_info_at p ?rt) then Inr ?rt
      else if event_base (task_info_at p ?rt) = None then Inl (UB Null_Pointer)
      else Inr (set_task_info p ((task_info_at p ?rt)\<lparr>is_first_time := False\<rparr>) ?rt)) = Inr rt1"
    "rt_ok {a} {} H rt1" "promises rt1 = promises rt" "runnable rt1 = runnable rt" "slots rt1 = slots rt"
    using q(7,8) first_time_ok [OF q(8), of "(task_info_at p ?rt)\<lparr>is_first_time := False\<rparr>" p]
    by (cases "is_first_time (task_info_at p ?rt)") auto
  have nd: "\<not> is_done f" using q(6) by (simp add: runnable_def)
  have e: "event_base_turn eb rt = bindE (resume_frame a rt1) (\<lambda>rt2.
      case ti_handle (task_info_at p rt2) of None \<Rightarrow> Inl (UB Null_Pointer)
      | Some a' \<Rightarrow> bindE (promise_at a' rt2) (\<lambda>f'.
          if is_done f' \<and> event_base (task_info_at p rt2) \<noteq> None then check_to_remove_task p rt2 else Inr rt2))"
    using q r1(1) nd by (simp add: event_base_turn_def check_handle_def promise_at_def)
  have "fine (ran a p H (slots rt1)) (resume_frame a rt1)"
    by (rule resume_frame_ok [OF r1(2)]) (use q r1 in simp_all)
  then show ?thesis
    unfolding e
  proof (rule fine_bind)
    fix rt2 assume r: "ran a p H (slots rt1) rt2"
    then obtain f' where f': "promises rt2 a = Some f'" "task_ptr f' = Some p" "slots rt2 = slots rt"
      "rt_ok (if is_done f' \<and> is_task_release f' then {a} else {}) {} H rt2" using r1(5) by (auto simp: ran_def)
    from infoD [OF f'(4,1)] f'(2) have i: "ti_handle (task_info_at p rt2) = Some a" "event_base (task_info_at p rt2) \<noteq> None"
      by auto
    show "fine (\<lambda>rt'. rt_ok {} {} H rt' \<and> slots rt' = slots rt) (case ti_handle (task_info_at p rt2) of None \<Rightarrow> Inl (UB Null_Pointer)
      | Some a' \<Rightarrow> bindE (promise_at a' rt2) (\<lambda>f'.
          if is_done f' \<and> event_base (task_info_at p rt2) \<noteq> None then check_to_remove_task p rt2 else Inr rt2))"
    proof (cases "is_done f'")
      case True
      with check_to_remove_ok [OF r f'(1)] i f' r1(5) show ?thesis by (auto simp: promise_at_def)
    next
      case False
      with i f' show ?thesis by (simp add: promise_at_def)
    qed
  qed
qed

lemma let_go_ok:
  assumes ok: "rt_ok {} {} H rt" "a \<in> set H"
  shows "\<exists>rt'. destroy_task a rt = Inr rt' \<and> rt_ok {} {} (remove1 a H) rt' \<and> slots rt' = slots rt"
proof -
  have s: "set (a # remove1 a H) = set H" "distinct H" using ok by (auto simp: rt_ok_def held_ok_def)
  have "frames_ok {} (a # remove1 a H) rt = frames_ok {} H rt" by (simp only: frames_ok_def frame_ok_def s(1))
  moreover have "distinct (a # remove1 a H)" using s(2) by simp
  then have "held_ok (a # remove1 a H) rt = held_ok H rt" using s(2) by (simp only: held_ok_def s(1))
  ultimately have ok': "rt_ok {} {} (a # remove1 a H) rt" using ok(1) by (simp add: rt_ok_def)
  from ok' obtain f where f: "promises rt a = Some f" "m_suspending_promise f = None"
    by (auto simp: rt_ok_def held_ok_def dest: frame_is_some)
  show ?thesis
  proof (cases "is_done f")
    case True
    from infoD [OF ok' f(1)] obtain p eb where p: "task_ptr f = Some p" "m_event_base f = Some eb" by (metis empty_iff)
    from remove_ok [OF ok' f(1) True f(2) _ p(1)] obtain pl where
      r: "release task_info_class (task_infos rt) (Some p) = Inr pl" "ti_handle (task_info_at p rt) = Some a"
      and o: "rt_ok {} {} (remove1 a H) (freed pl a rt)" "pool_size pl = slots rt" by auto
    from remove_eq [OF r f(1)] p f(1) True have "destroy_task a rt = Inr (freed pl a rt)"
      by (simp add: destroy_task_def promise_at_def)
    with o show ?thesis by (simp add: freed_def)
  next
    case False
    with mark_ok [OF ok' f(1) False] f(1) show ?thesis by (simp add: destroy_task_def promise_at_def)
  qed
qed

lemma run_event_ok:
  assumes ok: "rt_ok {} {} H rt"
  shows "fine (\<lambda>(rt', H'). rt_ok {} {} H' rt' \<and> slots rt' = slots rt) (run_event (rt, H) ev)"
proof (cases ev)
  case (Turn eb)
  then show ?thesis
    by simp (rule fine_bind [OF event_base_turn_ok [OF ok]], simp)
next
  case (Start eb b)
  show ?thesis
    unfolding Start run_event.simps by (rule fine_bind [OF start_task_ok [OF ok]]) auto
next
  case (Let_Go a)
  with let_go_ok [OF ok] ok show ?thesis by fastforce
next
  case (Set_Value k x)
  show ?thesis
  proof (cases "futures rt k")
    case (Some v)
    from futureD(3) [OF ok Some] obtain a where "future_promise v = Some a" by auto
    from set_value_ok [OF ok Some this, where x = x] Set_Value Some show ?thesis by fastforce
  qed (use Set_Value ok in simp)
qed

lemma run_events_ok:
  "rt_ok {} {} H rt \<Longrightarrow> fine (\<lambda>(rt', H'). rt_ok {} {} H' rt' \<and> slots rt' = slots rt) (run_events (rt, H) evs)"
proof (induction evs arbitrary: rt H)
  case (Cons ev evs)
  show ?case
    unfolding run_events_def foldE.simps
    by (rule fine_bind [OF run_event_ok [OF Cons.prems]])
      (use Cons.IH in \<open>fastforce simp: run_events_def intro: fine_mono\<close>)
qed (simp add: run_events_def)

lemma new_runtime_ok:
  assumes "0 < n" "n < 2 ^ 64"
  shows "rt_ok {} {} [] (new_runtime n :: 'v runtime)" "slots (new_runtime n :: 'v runtime) = n"
proof -
  let ?rt = "new_runtime n :: 'v runtime"
  have p: "pool_ok (new_pool (replicate n new_task_info))" by (rule new_pool_ok) (use assms in auto)
  have rt: "promises ?rt = (\<lambda>_. None)" "futures ?rt = (\<lambda>_. None)" "task_infos ?rt = new_pool (replicate n new_task_info)"
    "ready_queue ?rt = (\<lambda>_. new_mpsc n ''TaskInfo'')" by (simp_all add: new_runtime_def)
  have ti: "p < n \<Longrightarrow> ti_handle (task_info_at p ?rt) = None" for p
    by (simp add: task_info_at_def rt new_pool_def new_task_info_def)
  have "length (objs (new_pool (replicate n new_task_info))) = n" by (simp add: new_pool_def)
  then have "infos_ok {} ?rt"
    using p ti by (auto simp: infos_ok_def rt new_pool_free new_pool_size)
  moreover have "\<not> listed {} ?rt eb p" for eb p by (simp add: listed_def rt frame_is_def)
  then have "queues_ok {} ?rt"
    using assms(1) by (simp add: queues_ok_def rt new_mpsc_ok new_mpsc_items new_mpsc_capacity new_pool_size)
  ultimately show "rt_ok {} {} [] ?rt"
    by (simp add: rt_ok_def frames_ok_def futures_ok_def held_ok_def rt)
  show "slots (new_runtime n :: 'v runtime) = n" by (simp add: new_runtime_def new_pool_size)
qed

end
