(* ===== verification/Coroutines_Results.thy ===== *)
theory Coroutines_Results
  imports Coroutines_Safe "HOL-Library.Multiset"
begin

section \<open>What the coroutines return, and that they get there\<close>

text \<open>
  The values of the tasks: what each operation does to the part of the frames a body computes with,
  and the measure that bounds the turns which are left.
\<close>

subsection \<open>What an operation does to the bodies\<close>

definition view :: "'v runtime \<Rightarrow> nat \<Rightarrow> ('v resume_point \<times> 'v option) option" where
  "view rt a = map_option (\<lambda>f. (resume_point f, task_value f)) (promises rt a)"

definition same_view :: "'v runtime \<Rightarrow> 'v runtime \<Rightarrow> bool" where
  "same_view rt rt' \<longleftrightarrow> view rt' = view rt \<and> next_address rt' = next_address rt"

named_theorems view_simps

lemma same_view_refl [simp]: "same_view rt rt"
  by (simp add: same_view_def)

lemma same_view_trans: "same_view rt rt1 \<Longrightarrow> same_view rt1 rt2 \<Longrightarrow> same_view rt rt2"
  by (simp add: same_view_def)

lemma view_put [view_simps]: "view (put_promise a f rt) = (view rt)(a \<mapsto> (resume_point f, task_value f))"
  by (auto simp: view_def)

lemma view_fields [view_simps]:
  "view (put_future i v rt) = view rt" "view (destroy_future i rt) = view rt"
  "view (rt\<lparr>task_infos := pl\<rparr>) = view rt" "view (set_task_info p ti rt) = view rt"
  "view (rt\<lparr>ready_queue := q\<rparr>) = view rt" "view (rt\<lparr>next_address := n\<rparr>) = view rt"
  by (simp_all add: view_def fun_eq_iff)

lemma promise_at_Inr [simp]: "promise_at a rt = Inr f \<longleftrightarrow> promises rt a = Some f"
  by (simp add: promise_at_def split: option.splits)

lemma future_at_Inr [simp]: "future_at i rt = Inr v \<longleftrightarrow> futures rt i = Some v"
  by (simp add: future_at_def split: option.splits)

lemma view_same_put: "promises rt a = Some f \<Longrightarrow> resume_point f' = resume_point f \<Longrightarrow> task_value f' = task_value f \<Longrightarrow>
    view (put_promise a f' rt) = view rt"
  by (auto simp: view_def fun_eq_iff)

lemma set_waiting_view: "set_waiting a w rt = Inr rt' \<Longrightarrow> same_view rt rt'"
  by (auto simp: set_waiting_def bindE_eq_Inr set_ready_task_def Let_def same_view_def view_fields view_same_put
      split: option.splits if_splits)

lemma register_on_view:
  assumes "register_on a eb rt = Inr rt'" shows "same_view rt rt'"
proof -
  from assms obtain f e p pl where f: "promises rt a = Some f"
    and s: "set_waiting a False (put_promise a (f\<lparr>m_event_base := Some e, task_ptr := Some p\<rparr>)
       (set_task_info p \<lparr>ti_handle = Some a, base_promise_type_address = Some a, event_base = Some e, is_first_time = True\<rparr>
         (put_promise a (f\<lparr>m_event_base := Some e\<rparr>) rt\<lparr>task_infos := pl\<rparr>))) = Inr rt'"
    by (auto simp: register_on_def bindE_eq_Inr add_to_event_base_def split: option.splits)
  from set_waiting_view [OF s] f show ?thesis by (auto simp: same_view_def view_simps view_def fun_eq_iff)
qed

lemma start_task_view:
  assumes "start_task eb b rt = Inr (c, rt')"
  shows "c = next_address rt \<and> view rt' = (view rt)(c \<mapsto> (At_Start b, None)) \<and> next_address rt' = next_address rt + 1"
  using assms
  by (auto simp: start_task_def create_coroutine_def bindE_eq_Inr same_view_def view_def dest!: register_on_view)

lemma set_resume_point_view:
  "set_resume_point a r rt = Inr rt' \<Longrightarrow> \<exists>f. promises rt a = Some f \<and> view rt' = (view rt)(a \<mapsto> (r, task_value f)) \<and>
     next_address rt' = next_address rt"
  by (auto simp: set_resume_point_def view_simps bindE_eq_Inr)

lemma task_await_suspend_view: "task_await_suspend c a rt = Inr rt' \<Longrightarrow> same_view rt rt'"
  by (auto simp: task_await_suspend_def bindE_eq_Inr Let_def same_view_def view_same_put
      dest!: set_waiting_view register_on_view)

lemma final_suspend_view: "final_suspend a rt = Inr rt' \<Longrightarrow> same_view rt rt'"
  by (auto simp: final_suspend_def bindE_eq_Inr dest: set_waiting_view split: option.splits)

lemma future_set_ready_view: "future_set_ready i rt = Inr rt' \<Longrightarrow> same_view rt rt'"
  by (auto simp: future_set_ready_def bindE_eq_Inr Let_def same_view_def view_fields dest!: set_waiting_view split: option.splits)

lemma set_value_view: "set_value i x rt = Inr rt' \<Longrightarrow> same_view rt rt'"
  by (auto simp: set_value_def bindE_eq_Inr same_view_def view_fields dest!: future_set_ready_view split: if_splits)

lemma future_await_suspend_view: "future_await_suspend i a w rt = Inr rt' \<Longrightarrow> same_view rt rt'"
  by (auto simp: future_await_suspend_def bindE_eq_Inr Let_def same_view_def view_fields
      dest!: set_waiting_view set_value_view split: option.splits)

lemma mark_view:
  assumes "destroy_task a rt = Inr rt'" "view rt a = Some (r, v)" "r \<noteq> At_Final"
  shows "same_view rt rt'"
  using assms
  by (auto simp: destroy_task_def bindE_eq_Inr is_done_iff same_view_def view_same_put view_def split: if_splits)

text \<open>What a body does until it suspends, as far as the resume points show it.\<close>

primrec body_view :: "nat \<Rightarrow> ('v coro, 'v) segment \<Rightarrow> (nat \<Rightarrow> ('v resume_point \<times> 'v option) option) \<Rightarrow> nat \<Rightarrow>
    (nat \<Rightarrow> ('v resume_point \<times> 'v option) option) \<times> nat" where
  "body_view a (Return v) m n = (m(a \<mapsto> (At_Final, Some v)), n)"
| "body_view a (Await_Task b k) m n =
     (m(n \<mapsto> (At_Start b, None), a \<mapsto> (After_Task n k, case m a of None \<Rightarrow> None | Some x \<Rightarrow> snd x)), n + 1)"
| "body_view a (Await_Future w k) m n = (m(a \<mapsto> (After_Future n k, case m a of None \<Rightarrow> None | Some x \<Rightarrow> snd x)), n + 1)"
| "body_view a (Spawn eb b c) m n = body_view a c (m(n \<mapsto> (At_Start b, None))) (n + 1)"

lemma run_code_view:
  "run_code a c rt = Inr rt' \<Longrightarrow> a < next_address rt \<Longrightarrow> body_view a c (view rt) (next_address rt) = (view rt', next_address rt')"
proof (induction c arbitrary: rt)
  case (Return v)
  then obtain rt1 rt2 where r: "return_value a v rt = Inr rt1" "set_resume_point a At_Final rt1 = Inr rt2" "final_suspend a rt2 = Inr rt'"
    by (auto simp: bindE_eq_Inr)
  from r(1) obtain f where "promises rt a = Some f" "rt1 = put_promise a (f\<lparr>task_value := Some v\<rparr>) rt"
    by (auto simp: return_value_def bindE_eq_Inr)
  with set_resume_point_view [OF r(2)] final_suspend_view [OF r(3)] show ?case
    by (auto simp: same_view_def view_simps)
next
  case (Await_Task b k)
  let ?c = "next_address rt"
  from Await_Task.prems obtain rt1 rt2 where r: "create_coroutine b rt = (?c, rt1)" "set_resume_point a (After_Task ?c k) rt1 = Inr rt2"
    "task_await_suspend ?c a rt2 = Inr rt'"
    by (auto simp: bindE_eq_Inr create_coroutine_def)
  from r(1) Await_Task.prems(2) have "view rt1 = (view rt)(?c \<mapsto> (At_Start b, None)) \<and> next_address rt1 = ?c + 1 \<and>
      promises rt1 a = promises rt a"
    by (auto simp: create_coroutine_def view_def)
  with set_resume_point_view [OF r(2)] task_await_suspend_view [OF r(3)] Await_Task.prems(2) show ?case
    by (auto simp: same_view_def view_def fun_eq_iff split: option.splits)
next
  case (Await_Future w k)
  let ?i = "next_address rt"
  from Await_Future.prems obtain rt1 rt2 where r: "create_future rt = (?i, rt1)" "set_resume_point a (After_Future ?i k) rt1 = Inr rt2"
    "future_await_suspend ?i a w rt2 = Inr rt'"
    by (auto simp: bindE_eq_Inr create_future_def)
  from r(1) have "view rt1 = view rt \<and> next_address rt1 = ?i + 1 \<and> promises rt1 = promises rt"
    by (auto simp: create_future_def view_def)
  with set_resume_point_view [OF r(2)] future_await_suspend_view [OF r(3)] show ?case
    by (auto simp: same_view_def view_def fun_eq_iff split: option.splits)
next
  case (Spawn eb b c)
  then obtain d rt1 rt2 where r: "start_task eb b rt = Inr (d, rt1)" "destroy_task d rt1 = Inr rt2" "run_code a c rt2 = Inr rt'"
    by (auto simp: bindE_eq_Inr)
  from start_task_view [OF r(1)] have 1: "d = next_address rt" "view rt1 = (view rt)(d \<mapsto> (At_Start b, None))"
    "next_address rt1 = next_address rt + 1" by auto
  have "same_view rt1 rt2" by (rule mark_view [OF r(2)]) (use 1 in auto)
  then have 2: "view rt2 = (view rt)(next_address rt \<mapsto> (At_Start b, None))" "next_address rt2 = next_address rt + 1"
    using 1 by (simp_all add: same_view_def)
  have "body_view a c (view rt2) (next_address rt2) = (view rt', next_address rt')"
    by (rule Spawn.IH [OF r(3)]) (use 2 Spawn.prems(2) in simp)
  then show ?case unfolding 2 by simp
qed


subsection \<open>Turns as seen through the resume points\<close>

text \<open>
  \<open>turn_view\<close>: one frame runs from its resume point to the next one, and is freed if it
  was let go and has finished; or nothing happens.
\<close>

inductive resumed :: "(nat \<Rightarrow> ('v resume_point \<times> 'v option) option) \<Rightarrow> nat \<Rightarrow> 'v coro \<Rightarrow>
    (nat \<Rightarrow> ('v resume_point \<times> 'v option) option) \<Rightarrow> bool" for m a where
  resumed_start: "m a = Some (At_Start c, t) \<Longrightarrow> resumed m a c m"
| resumed_task: "m a = Some (After_Task c k, t) \<Longrightarrow> m c = Some (At_Final, Some v) \<Longrightarrow> c \<noteq> a \<Longrightarrow>
    resumed m a (k v) (m(c := None, a \<mapsto> (At_Start (k v), t)))"
| resumed_future: "m a = Some (After_Future i k, t) \<Longrightarrow> resumed m a (k x) (m(a \<mapsto> (At_Start (k x), t)))"

inductive turn_view :: "(nat \<Rightarrow> ('v resume_point \<times> 'v option) option) \<times> nat \<Rightarrow>
    (nat \<Rightarrow> ('v resume_point \<times> 'v option) option) \<times> nat \<Rightarrow> bool" where
  turn_suspended: "resumed m a c m1 \<Longrightarrow> body_view a (code c) m1 n = (m2, n2) \<Longrightarrow> a < n \<Longrightarrow> turn_view (m, n) (m2, n2)"
| turn_freed: "resumed m a c m1 \<Longrightarrow> body_view a (code c) m1 n = (m2, n2) \<Longrightarrow> m2 a = Some (At_Final, v) \<Longrightarrow> a < n \<Longrightarrow>
    turn_view (m, n) (m2(a := None), n2)"

lemma view_freed [view_simps]: "view (freed pl c rt) = (view rt)(c := None)"
  by (auto simp: freed_def view_def)

lemma next_freed [simp]: "next_address (freed pl c rt) = next_address rt"
  by (simp add: freed_def)

lemma resume_view:
  assumes ok: "rt_ok {a} {} H rt" and a: "promises rt a = Some f" "runnable rt f" and r: "resume_frame a rt = Inr rt'"
  shows "\<exists>c m1. resumed (view rt) a c m1 \<and> body_view a (code c) m1 (next_address rt) = (view rt', next_address rt')"
proof -
  have va: "view rt a = Some (resume_point f, task_value f)" "a < next_address rt"
    using a(1) frameD(1) [OF ok a(1)] by (simp_all add: view_def)
  show ?thesis
  proof (cases "resume_point f")
    case (At_Start c)
    with r a(1) run_code_view [of a "code c" rt rt'] va show ?thesis
      by (auto simp: resume_frame_def bindE_eq_Inr intro: resumed_start)
  next
    case (After_Task c k)
    then have ch: "child_of f = Some c" by (simp add: child_of_def)
    with a(2) frameD(2) [OF ok a(1)] obtain g where g: "promises rt c = Some g" "is_done g" "a < c" "m_suspending_promise g = Some a"
      by (auto simp: runnable_def waits_ok_def dest!: frame_is_some)
    with frameD(2) [OF ok g(1)] obtain v where v: "task_value g = Some v" by (auto simp: waits_ok_def)
    obtain q eb where q: "task_ptr g = Some q" "ti_handle (task_info_at q rt) = Some c" "m_event_base g = Some eb" "q < slots rt"
      using infoD [OF ok g(1)] by (metis empty_iff)
    obtain pl where pl: "release task_info_class (task_infos rt) (Some q) = Inr pl"
      using release_info [of "{}" rt q] ok q by (auto simp: rt_ok_def)
    have e: "destroy_task c rt = Inr (freed pl c rt)"
      using remove_eq [OF pl q(2) g(1)] g q by (simp add: destroy_task_def promise_at_def)
    let ?rt = "put_promise a (f\<lparr>resume_point := At_Start (k v)\<rparr>) (freed pl c rt)"
    have "run_code a (code (k v)) ?rt = Inr rt'"
      using r a(1) After_Task g v e
      by (simp add: resume_frame_def promise_at_def task_await_resume_def set_resume_point_def freed_def)
    from run_code_view [OF this] va have "body_view a (code (k v)) (view ?rt) (next_address rt) = (view rt', next_address rt')"
      by simp
    moreover have "view rt c = Some (At_Final, Some v)" using g(1,2) v by (simp add: view_def is_done_iff)
    then have "resumed (view rt) a (k v) ((view rt)(c := None, a \<mapsto> (At_Start (k v), task_value f)))"
      using va After_Task g(3) by (intro resumed_task) auto
    moreover have "view ?rt = (view rt)(c := None, a \<mapsto> (At_Start (k v), task_value f))" by (simp add: view_simps)
    ultimately show ?thesis by metis
  next
    case (After_Future i k)
    then obtain x where "run_code a (code (k x)) (put_promise a (f\<lparr>resume_point := At_Start (k x)\<rparr>) (destroy_future i rt)) = Inr rt'"
      using r a(1) by (auto simp: resume_frame_def bindE_eq_Inr set_resume_point_def)
    from run_code_view [OF this] va have "body_view a (code (k x)) ((view rt)(a \<mapsto> (At_Start (k x), task_value f))) (next_address rt) =
        (view rt', next_address rt')" by (simp add: view_simps)
    with resumed_future [of "view rt" a i k "task_value f" x] va After_Future show ?thesis by metis
  next
    case At_Final
    with a(2) show ?thesis by (simp add: runnable_def is_done_def)
  qed
qed

lemma event_base_turn_view:
  assumes ok: "rt_ok {} {} H rt" and r: "event_base_turn eb rt = Inr rt'"
  shows "(queue_items (ready_queue rt eb) = [] \<longrightarrow> rt' = rt) \<and>
    (queue_items (ready_queue rt eb) \<noteq> [] \<longrightarrow> turn_view (view rt, next_address rt) (view rt', next_address rt'))"
proof (cases "queue_items (ready_queue rt eb)")
  case Nil
  then have "pop (ready_queue rt eb) = (None, ready_queue rt eb)" by (simp add: queue_items_empty pop_def)
  then show ?thesis using r Nil by (auto simp: event_base_turn_def)
next
  case (Cons p ps)
  obtain a f q where q: "pop (ready_queue rt eb) = (Some p, q)" "p < slots rt" "ti_handle (task_info_at p rt) = Some a"
    "promises rt a = Some f" "task_ptr f = Some p" "runnable rt f" "event_base (task_info_at p rt) = Some eb"
    "rt_ok {a} {} H (rt\<lparr>ready_queue := (ready_queue rt)(eb := q)\<rparr>)"
    using pop_ok [OF ok Cons] by metis
  let ?rt = "rt\<lparr>ready_queue := (ready_queue rt)(eb := q)\<rparr>"
  obtain rt1 where r1: "(if \<not> is_first_time (task_info_at p ?rt) then Inr ?rt
      else if event_base (task_info_at p ?rt) = None then Inl (UB Null_Pointer)
      else Inr (set_task_info p ((task_info_at p ?rt)\<lparr>is_first_time := False\<rparr>) ?rt)) = Inr rt1"
    "rt_ok {a} {} H rt1" "promises rt1 = promises rt" "runnable rt1 = runnable rt" "slots rt1 = slots rt"
    "view rt1 = view rt" "next_address rt1 = next_address rt"
    using q(7,8) first_time_ok [OF q(8), of "(task_info_at p ?rt)\<lparr>is_first_time := False\<rparr>" p]
    by (cases "is_first_time (task_info_at p ?rt)") (auto simp: view_fields)
  have nd: "\<not> is_done f" using q(6) by (simp add: runnable_def)
  have e: "event_base_turn eb rt = bindE (resume_frame a rt1) (\<lambda>rt2.
      case ti_handle (task_info_at p rt2) of None \<Rightarrow> Inl (UB Null_Pointer)
      | Some a' \<Rightarrow> bindE (promise_at a' rt2) (\<lambda>f'.
          if is_done f' \<and> event_base (task_info_at p rt2) \<noteq> None then check_to_remove_task p rt2 else Inr rt2))"
    using q r1(1) nd by (simp add: event_base_turn_def check_handle_def promise_at_def)
  from r e obtain rt2 where r2: "resume_frame a rt1 = Inr rt2" by (auto simp: bindE_eq_Inr)
  have "fine (ran a p H (slots rt1)) (resume_frame a rt1)"
    by (rule resume_frame_ok [OF r1(2)]) (use q r1 in simp_all)
  with r2 obtain f' where f': "promises rt2 a = Some f'" "task_ptr f' = Some p"
    "rt_ok (if is_done f' \<and> is_task_release f' then {a} else {}) {} H rt2" by (auto simp: ran_def)
  from infoD [OF f'(3,1)] f'(2) have i: "ti_handle (task_info_at p rt2) = Some a" "event_base (task_info_at p rt2) \<noteq> None"
    "base_promise_type_address (task_info_at p rt2) = Some a" by auto
  obtain c m1 where c: "resumed (view rt) a c m1" "body_view a (code c) m1 (next_address rt) = (view rt2, next_address rt2)"
    using resume_view [OF r1(2) _ _ r2, of f] q(4,6) r1 by auto
  have al: "a < next_address rt" by (rule frameD(1) [OF ok q(4)])
  have "rt' = rt2 \<or> (is_done f' \<and> view rt' = (view rt2)(a := None) \<and> next_address rt' = next_address rt2)"
    using r r2 i f'(1) unfolding e
    by (auto simp: promise_at_def check_to_remove_task_def remove_from_event_base_def bindE_eq_Inr destroy_frame_def Let_def
        view_def fun_eq_iff split: if_splits)
  moreover have "is_done f' \<Longrightarrow> view rt2 a = Some (At_Final, task_value f')" using f'(1) by (simp add: view_def is_done_iff)
  ultimately have "turn_view (view rt, next_address rt) (view rt', next_address rt')"
    using turn_suspended [OF c al] turn_freed [OF c _ al] by auto
  with Cons show ?thesis by simp
qed

end
