(* ===== verification/Coroutines_Props.thy ===== *)
theory Coroutines_Props
  imports Coroutines_Results
begin

section \<open>Properties of the coroutine runtime\<close>

text \<open>
  The theorems about \<open>src/core/coroutine\<close>: the scheduler is safe, leaves nothing behind when it is
  quiescent, becomes idle without outside events when every body it has started ends, and a task yields what its body yields when it is
  read as an ordinary function.
\<close>

subsection \<open>Every turn makes progress\<close>

text \<open>A body that ends: it can await only finitely often, whatever the values are it is given, and so can all it awaits and starts.\<close>

inductive finishes :: "('v coro, 'v) segment \<Rightarrow> bool" where
  finishes_value: "finishes (Return v)"
| finishes_task: "finishes (code b) \<Longrightarrow> (\<And>v. finishes (code (k v))) \<Longrightarrow> finishes (Await_Task b k)"
| finishes_future: "(\<And>v. finishes (code (k v))) \<Longrightarrow> finishes (Await_Future w k)"
| finishes_spawn: "finishes (code b) \<Longrightarrow> finishes c \<Longrightarrow> finishes (Spawn eb b c)"

inductive_simps finishes_simps [simp]:
  "finishes (Return v)" "finishes (Await_Task b k)" "finishes (Await_Future w k)" "finishes (Spawn eb b c)"

datatype 'v todo = Now "('v coro, 'v) segment" | Later "'v \<Rightarrow> 'v coro"

primrec ends :: "'v todo \<Rightarrow> bool" where
  "ends (Now c) = finishes c"
| "ends (Later k) = (\<forall>v. finishes (code (k v)))"

inductive_set smaller :: "('v todo \<times> 'v todo) set" where
  smaller_value: "ends (Later k) \<Longrightarrow> (Now (code (k v)), Later k) \<in> smaller"
| smaller_await: "finishes (Await_Task b k) \<Longrightarrow> (Later k, Now (Await_Task b k)) \<in> smaller"
| smaller_child: "finishes (Await_Task b k) \<Longrightarrow> (Now (code b), Now (Await_Task b k)) \<in> smaller"
| smaller_future: "finishes (Await_Future w k) \<Longrightarrow> (Later k, Now (Await_Future w k)) \<in> smaller"
| smaller_spawned: "finishes (Spawn eb b c) \<Longrightarrow> (Now (code b), Now (Spawn eb b c)) \<in> smaller"
| smaller_rest: "finishes (Spawn eb b c) \<Longrightarrow> (Now c, Now (Spawn eb b c)) \<in> smaller"

inductive_cases smaller_nowE: "(x, Now c) \<in> smaller"
inductive_cases smaller_laterE: "(x, Later k) \<in> smaller"

lemma smaller_ends: "(x, y) \<in> smaller \<Longrightarrow> ends x \<and> ends y"
  by (cases rule: smaller.cases) auto

lemma wf_smaller: "wf smaller"
proof -
  have later: "(\<And>v. Now (code (k v)) \<in> Wellfounded.acc smaller) \<Longrightarrow> Later k \<in> Wellfounded.acc smaller" for k :: "'a \<Rightarrow> 'a coro"
    by (rule accI) (auto elim: smaller_laterE)
  have now: "finishes c \<Longrightarrow> Now c \<in> Wellfounded.acc smaller" for c :: "('a coro, 'a) segment"
  proof (induction rule: finishes.induct)
    case (finishes_value v)
    show ?case by (rule accI) (auto elim: smaller_nowE)
  next
    case (finishes_task b k)
    have "Later k \<in> Wellfounded.acc smaller" by (rule later) (rule finishes_task.IH)
    with finishes_task.IH(1) show ?case by - (rule accI, auto elim: smaller_nowE)
  next
    case (finishes_future k w)
    have "Later k \<in> Wellfounded.acc smaller" by (rule later) (rule finishes_future.IH)
    then show ?case by - (rule accI, auto elim: smaller_nowE)
  next
    case (finishes_spawn b c eb)
    then show ?case by - (rule accI, auto elim: smaller_nowE)
  qed
  have "x \<in> Wellfounded.acc smaller" for x :: "'a todo"
  proof (cases "ends x")
    case True
    then show ?thesis by (cases x) (auto intro: now later)
  next
    case False
    show ?thesis by (rule accI) (use False smaller_ends in blast)
  qed
  then show ?thesis by (rule acc_wfI [rule_format])
qed

fun to_do :: "('v resume_point \<times> 'v option) option \<Rightarrow> 'v todo multiset" where
  "to_do (Some (At_Start c, _)) = {#Now (code c)#}"
| "to_do (Some (After_Task _ k, _)) = {#Later k#}"
| "to_do (Some (After_Future _ k, _)) = {#Later k#}"
| "to_do (Some (At_Final, _)) = {#}"
| "to_do None = {#}"

definition work :: "(nat \<Rightarrow> ('v resume_point \<times> 'v option) option) \<times> nat \<Rightarrow> 'v todo multiset" where
  "work s = (\<Sum>b < snd s. to_do (fst s b))"

definition others :: "nat \<Rightarrow> (nat \<Rightarrow> ('v resume_point \<times> 'v option) option) \<Rightarrow> nat \<Rightarrow> 'v todo multiset" where
  "others a m n = (\<Sum>b\<in>{..<n} - {a}. to_do (m b))"

lemma work_others: "a < n \<Longrightarrow> work (m, n) = others a m n + to_do (m a)"
  by (simp add: work_def others_def sum.remove [of "{..<n}" a] add.commute)

lemma others_upd [simp]: "others a (m(a := x)) n = others a m n"
  by (auto simp: others_def intro: sum.cong)

lemma others_new: "a < n \<Longrightarrow> others a (m(n := x)) (Suc n) = others a m n + to_do x"
proof -
  assume a: "a < n"
  then have "{..<Suc n} - {a} = insert n ({..<n} - {a})" by auto
  moreover have "(\<Sum>b\<in>{..<n} - {a}. to_do ((m(n := x)) b)) = others a m n"
    unfolding others_def by (rule sum.cong) auto
  ultimately show ?thesis by (simp add: others_def add.commute)
qed

lemma others_next: "a < n \<Longrightarrow> m n = None \<Longrightarrow> others a m (n + 1) = others a m n"
  using others_new [of a n m None] fun_upd_triv [of m n] by simp

lemma mult_trans: "(A, B) \<in> mult r \<Longrightarrow> (B, C) \<in> mult r \<Longrightarrow> (A, C) \<in> mult r"
  unfolding mult_def by (rule trancl_trans)

lemma mult_ends: "(M, N) \<in> mult smaller \<Longrightarrow> \<forall>y \<in># N. ends y \<Longrightarrow> \<forall>x \<in># M. ends x"
  unfolding mult_def
proof (induction rule: trancl_induct)
  case (base N)
  then show ?case by (fastforce simp: mult1_def dest: smaller_ends)
next
  case (step N N')
  from step.hyps(2) step.prems have "\<forall>y \<in># N. ends y" by (fastforce simp: mult1_def dest: smaller_ends)
  then show ?case by (rule step.IH)
qed

definition all_end :: "(nat \<Rightarrow> ('v resume_point \<times> 'v option) option) \<Rightarrow> bool" where
  "all_end m \<longleftrightarrow> (\<forall>a. \<forall>y \<in># to_do (m a). ends y)"

lemma work_elem: "y \<in># work (m, n) \<longleftrightarrow> (\<exists>a<n. y \<in># to_do (m a))"
  unfolding work_def fst_conv snd_conv by (induction n) (auto simp: less_Suc_eq)

lemma all_end_work: "(\<forall>b\<ge>n. m b = None) \<Longrightarrow> all_end m \<longleftrightarrow> (\<forall>y \<in># work (m, n). ends y)"
  by (auto simp: all_end_def work_elem Ball_def) (metis empty_iff linorder_not_less set_mset_empty to_do.simps(5))

lemma body_view_work:
  "a < n \<Longrightarrow> (\<forall>b\<ge>n. m b = None) \<Longrightarrow> body_view a c m n = (m', n') \<Longrightarrow> finishes c \<Longrightarrow>
     (work (m', n'), others a m n + {#Now c#}) \<in> mult smaller \<and> n \<le> n' \<and> (\<forall>b\<ge>n'. m' b = None)"
proof (induction c arbitrary: m n)
  case (Return v)
  then have "work (m', n') = others a m n + {#}" by (auto simp: work_others [of a])
  moreover have "(others a m n + {#}, others a m n + {#Now (Return v)#}) \<in> mult smaller"
    by (rule one_step_implies_mult) auto
  ultimately show ?case using Return by auto
next
  case (Await_Task b k)
  let ?m = "m(n \<mapsto> (At_Start b, None))"
  from Await_Task.prems have m': "m' = ?m(a \<mapsto> (After_Task n k, case m a of None \<Rightarrow> None | Some x \<Rightarrow> snd x))"
    "n' = n + 1" by auto
  have "work (m', n') = others a m' n' + to_do (m' a)" by (rule work_others) (use Await_Task.prems(1) m'(2) in simp)
  also have "others a m' n' = others a ?m (n + 1)" unfolding m' by (rule others_upd)
  also have "\<dots> = others a m n + {#Now (code b)#}" using Await_Task.prems(1) by (simp add: others_new)
  also have "to_do (m' a) = {#Later k#}" by (simp add: m')
  finally have "work (m', n') = others a m n + ({#Now (code b)#} + {#Later k#})" by (simp only: add.assoc)
  moreover have "(others a m n + ({#Now (code b)#} + {#Later k#}), others a m n + {#Now (Await_Task b k)#}) \<in> mult smaller"
    by (rule one_step_implies_mult) (use Await_Task.prems(4) in \<open>auto intro: smaller.intros\<close>)
  moreover have "n \<le> n' \<and> (\<forall>b\<ge>n'. m' b = None)" using Await_Task.prems(1,2) m' by auto
  ultimately show ?case by simp
next
  case (Await_Future w k)
  from Await_Future.prems(3) have m': "m' = m(a \<mapsto> (After_Future n k, case m a of None \<Rightarrow> None | Some x \<Rightarrow> snd x))"
    "n' = n + 1" by auto
  have "work (m', n') = others a m' n' + to_do (m' a)" by (rule work_others) (use Await_Future.prems(1) m'(2) in simp)
  also have "others a m' n' = others a m (n + 1)" unfolding m' by (rule others_upd)
  also have "\<dots> = others a m n" using Await_Future.prems(1,2) by (intro others_next) simp_all
  also have "to_do (m' a) = {#Later k#}" by (simp add: m')
  finally have "work (m', n') = others a m n + {#Later k#}" .
  moreover have "(others a m n + {#Later k#}, others a m n + {#Now (Await_Future w k)#}) \<in> mult smaller"
    by (rule one_step_implies_mult) (use Await_Future.prems(4) in \<open>auto intro: smaller.intros\<close>)
  moreover have "n \<le> n' \<and> (\<forall>b\<ge>n'. m' b = None)" using Await_Future.prems(1,2) m' by auto
  ultimately show ?case by simp
next
  case (Spawn eb b c)
  have "(work (m', n'), others a (m(n \<mapsto> (At_Start b, None))) (n + 1) + {#Now c#}) \<in> mult smaller \<and> n + 1 \<le> n' \<and>
      (\<forall>b\<ge>n'. m' b = None)"
  proof (rule Spawn.IH)
    show "body_view a c (m(n \<mapsto> (At_Start b, None))) (n + 1) = (m', n')" using Spawn.prems(3) by simp
    show "\<forall>d\<ge>n + 1. (m(n \<mapsto> (At_Start b, None))) d = None" using Spawn.prems(2) by simp
  qed (use Spawn.prems in simp_all)
  then have 1: "(work (m', n'), others a m n + ({#Now (code b)#} + {#Now c#})) \<in> mult smaller" "n + 1 \<le> n'" "\<forall>b\<ge>n'. m' b = None"
    using Spawn.prems(1) by (auto simp: others_new)
  have "(others a m n + ({#Now (code b)#} + {#Now c#}), others a m n + {#Now (Spawn eb b c)#}) \<in> mult smaller"
    by (rule one_step_implies_mult) (use Spawn.prems(4) in \<open>auto intro: smaller.intros\<close>)
  with 1(1) have "(work (m', n'), others a m n + {#Now (Spawn eb b c)#}) \<in> mult smaller" by (rule mult_trans)
  with 1 show ?case by simp
qed

lemma work_drop: "m a = Some (At_Final, v) \<Longrightarrow> work (m(a := None), n) = work (m, n)"
  unfolding work_def by (rule sum.cong) auto

lemma turn_view_work:
  assumes "turn_view s s'" "\<forall>b\<ge>snd s. fst s b = None" "all_end (fst s)"
  shows "(work s', work s) \<in> mult smaller \<and> (\<forall>b\<ge>snd s'. fst s' b = None)"
proof -
  have body: "(work (m2, n2), work (m, n)) \<in> mult smaller \<and> (\<forall>b\<ge>n2. m2 b = None)"
    if r: "resumed m a c m1" and b: "body_view a (code c) m1 n = (m2, n2)" and n: "a < n" "\<forall>b\<ge>n. m b = None" "all_end m"
    for m a c m1 m2 n n2
    using r
  proof cases
    case (resumed_start t)
    have "finishes (code c)" using n(3) resumed_start(2) by (auto simp: all_end_def dest: spec [of _ a])
    with body_view_work [OF n(1,2) b [unfolded \<open>m1 = m\<close>]] resumed_start n show ?thesis by (simp add: work_others)
  next
    case (resumed_task ch k t v)
    have n1: "\<forall>b\<ge>n. m1 b = None" using resumed_task n by auto
    have "others a m1 n = others a (m(ch := None)) n" by (simp add: resumed_task)
    also have "\<dots> = others a m n"
      unfolding others_def by (rule sum.cong) (auto simp: resumed_task)
    finally have o: "others a m1 n = others a m n" .
    have e: "ends (Later k)" using n(3) resumed_task by (auto simp: all_end_def dest: spec [of _ a])
    have "(others a m n + {#Now (code (k v))#}, others a m n + {#Later k#}) \<in> mult smaller"
      by (rule one_step_implies_mult) (use e in \<open>auto intro: smaller.intros\<close>)
    moreover have "work (m, n) = others a m n + {#Later k#}" using resumed_task n by (simp add: work_others)
    moreover have "finishes (code (k v))" using e by simp
    ultimately show ?thesis using body_view_work [OF n(1) n1 b] o resumed_task(1) by (auto intro: mult_trans)
  next
    case (resumed_future i k t x)
    have n1: "\<forall>b\<ge>n. m1 b = None" using resumed_future n by auto
    have o: "others a m1 n = others a m n" by (simp add: resumed_future)
    have e: "ends (Later k)" using n(3) resumed_future by (auto simp: all_end_def dest: spec [of _ a])
    have "(others a m n + {#Now (code (k x))#}, others a m n + {#Later k#}) \<in> mult smaller"
      by (rule one_step_implies_mult) (use e in \<open>auto intro: smaller.intros\<close>)
    moreover have "work (m, n) = others a m n + {#Later k#}" using resumed_future n by (simp add: work_others)
    moreover have "finishes (code (k x))" using e by simp
    ultimately show ?thesis using body_view_work [OF n(1) n1 b] o resumed_future(1) by (auto intro: mult_trans)
  qed
  from assms(1) show ?thesis
  proof cases
    case (turn_suspended m a c m1 n m2 n2)
    with body [OF turn_suspended(3-5)] assms(2,3) show ?thesis by simp
  next
    case (turn_freed m a c m1 n m2 n2 v)
    with body [OF turn_freed(3,4) turn_freed(6)] assms(2,3) show ?thesis by (simp add: work_drop)
  qed
qed

lemma turn_view_ends:
  assumes "turn_view s s'" "\<forall>b\<ge>snd s. fst s b = None" "all_end (fst s)"
  shows "all_end (fst s')"
  using turn_view_work [OF assms] mult_ends [of "work s'" "work s"] assms(2,3)
    all_end_work [of "snd s" "fst s"] all_end_work [of "snd s'" "fst s'"] by simp

primrec turns :: "nat \<Rightarrow> nat \<Rightarrow> 'v runtime \<Rightarrow> 'v runtime result" where
  "turns eb 0 rt = Inr rt"
| "turns eb (Suc k) rt = bindE (event_base_turn eb rt) (turns eb k)"

lemma rt_fresh: "rt_ok X U H rt \<Longrightarrow> \<forall>b\<ge>next_address rt. view rt b = None"
  using frameD(1) by (fastforce simp: view_def)

lemma turns_idle:
  assumes "rt_ok {} {} H rt" "all_end (view rt)"
  shows "\<exists>k. fine (\<lambda>rt'. rt_ok {} {} H rt' \<and> queue_items (ready_queue rt' eb) = []) (turns eb k rt)"
proof -
  have "wf (inv_image (mult smaller) (\<lambda>rt :: 'a runtime. work (view rt, next_address rt)))"
    by (simp add: wf_mult wf_smaller)
  then show ?thesis using assms
  proof (induction rt rule: wf_induct_rule)
    case (less rt)
    show ?case
    proof (cases "queue_items (ready_queue rt eb) = []")
      case True
      with less.prems(1) show ?thesis by (intro exI [of _ 0]) simp
    next
      case False
      from event_base_turn_ok [OF less.prems(1), of eb] show ?thesis
      proof (cases "event_base_turn eb rt")
        case (Inl e)
        with event_base_turn_ok [OF less.prems(1), of eb] show ?thesis by (intro exI [of _ "Suc 0"]) simp
      next
        case (Inr rt1)
        with event_base_turn_ok [OF less.prems(1), of eb] have ok1: "rt_ok {} {} H rt1" by simp
        from event_base_turn_view [OF less.prems(1) Inr] False
        have tv: "turn_view (view rt, next_address rt) (view rt1, next_address rt1)" by simp
        from turn_view_work [OF this] rt_fresh [OF less.prems(1)] less.prems(2)
        have "(rt1, rt) \<in> inv_image (mult smaller) (\<lambda>rt. work (view rt, next_address rt))" by simp
        moreover have "all_end (view rt1)" using turn_view_ends [OF tv] rt_fresh [OF less.prems(1)] less.prems(2) by simp
        ultimately obtain k where
          "fine (\<lambda>rt'. rt_ok {} {} H rt' \<and> queue_items (ready_queue rt' eb) = []) (turns eb k rt1)"
          using less.IH [OF _ ok1] by blast
        with Inr show ?thesis by (intro exI [of _ "Suc k"]) simp
      qed
    qed
  qed
qed


subsection \<open>What a task returns\<close>

text \<open>
  \<open>returns b v\<close>: the body \<open>b\<close> run like an ordinary function, every awaited task replaced by
  its value, can return \<open>v\<close>, for some values of the futures it awaits.
\<close>

inductive returns :: "('v coro, 'v) segment \<Rightarrow> 'v \<Rightarrow> bool" where
  returns_value: "returns (Return v) v"
| returns_task: "returns (code b) u \<Longrightarrow> returns (code (k u)) v \<Longrightarrow> returns (Await_Task b k) v"
| returns_future: "returns (code (k u)) v \<Longrightarrow> returns (Await_Future w k) v"
| returns_spawn: "returns c v \<Longrightarrow> returns (Spawn eb b c) v"

inductive_simps returns_simps [simp]:
  "returns (Return v) w" "returns (Await_Task b k) v" "returns (Await_Future w k) v" "returns (Spawn eb b c) v"

text \<open>\<open>G a\<close> is the body the frame \<open>a\<close> was created with.\<close>

fun explains :: "(nat \<Rightarrow> 'v coro) \<Rightarrow> nat \<Rightarrow> nat \<Rightarrow> 'v resume_point \<times> 'v option \<Rightarrow> bool" where
  "explains G n a (At_Start c, _) = (\<forall>v. returns (code c) v \<longrightarrow> returns (code (G a)) v)"
| "explains G n a (After_Task c k, _) =
     (c < n \<and> (\<forall>u v. returns (code (G c)) u \<longrightarrow> returns (code (k u)) v \<longrightarrow> returns (code (G a)) v))"
| "explains G n a (After_Future i k, _) = (\<forall>u v. returns (code (k u)) v \<longrightarrow> returns (code (G a)) v)"
| "explains G n a (At_Final, t) = (\<exists>v. t = Some v \<and> returns (code (G a)) v)"

definition explained :: "(nat \<Rightarrow> 'v coro) \<Rightarrow> (nat \<Rightarrow> ('v resume_point \<times> 'v option) option) \<times> nat \<Rightarrow> bool" where
  "explained G s \<longleftrightarrow> (\<forall>a x. fst s a = Some x \<longrightarrow> a < snd s \<and> explains G (snd s) a x)"

lemma explainedD: "explained G (m, n) \<Longrightarrow> m a = Some x \<Longrightarrow> a < n \<and> explains G n a x"
  by (cases x) (simp add: explained_def)

definition older :: "nat \<Rightarrow> (nat \<Rightarrow> 'v coro) \<Rightarrow> (nat \<Rightarrow> 'v coro) \<Rightarrow> bool" where
  "older n G G' \<longleftrightarrow> (\<forall>a<n. G' a = G a)"

lemma older_trans: "older n G G1 \<Longrightarrow> older n' G1 G2 \<Longrightarrow> n \<le> n' \<Longrightarrow> older n G G2"
  by (auto simp: older_def)

lemma explains_older: "explains G n a x \<Longrightarrow> older n G G' \<Longrightarrow> a < n \<Longrightarrow> n \<le> n' \<Longrightarrow> explains G' n' a x"
  by (cases "(G, n, a, x)" rule: explains.cases) (auto simp: older_def)

lemma others_older:
  assumes "\<forall>b x. b \<noteq> a \<longrightarrow> m b = Some x \<longrightarrow> b < n \<and> explains G n b x" "older n G G'" "n \<le> n'"
  shows "\<forall>b x. b \<noteq> a \<longrightarrow> m b = Some x \<longrightarrow> b < n' \<and> explains G' n' b x"
  using assms explains_older by (meson order_less_le_trans)

lemma explained_at:
  assumes "\<forall>b x. b \<noteq> a \<longrightarrow> m b = Some x \<longrightarrow> b < n \<and> explains G n b x" "a < n" "explains G n a y"
  shows "explained G (m(a \<mapsto> y), n)"
  using assms by (simp add: explained_def del: split_paired_All)

lemma body_view_explained:
  assumes "body_view a c m n = (m', n')" "a < n" "\<forall>v. returns c v \<longrightarrow> returns (code (G a)) v"
    "\<forall>b x. b \<noteq> a \<longrightarrow> m b = Some x \<longrightarrow> b < n \<and> explains G n b x"
  shows "\<exists>G'. older n G G' \<and> n \<le> n' \<and> explained G' (m', n')"
  using assms
proof (induction c arbitrary: m n G)
  case (Return v)
  have "explained G (m(a \<mapsto> (At_Final, Some v)), n)" by (rule explained_at) (use Return.prems in simp_all)
  with Return.prems(1) show ?case by (intro exI [of _ G]) (simp add: older_def)
next
  case (Await_Task b k)
  let ?G = "G(n := b)" let ?m = "m(n \<mapsto> (At_Start b, None))"
  have o: "older n G ?G" by (simp add: older_def)
  have "\<forall>b x. b \<noteq> a \<longrightarrow> m b = Some x \<longrightarrow> b < n + 1 \<and> explains ?G (n + 1) b x"
    by (rule others_older [OF Await_Task.prems(4) o]) simp
  then have "\<forall>b x. b \<noteq> a \<longrightarrow> ?m b = Some x \<longrightarrow> b < n + 1 \<and> explains ?G (n + 1) b x"
    by (auto simp del: split_paired_All)
  then have "explained ?G (?m(a \<mapsto> (After_Task n k, t)), n + 1)" for t
    by (rule explained_at) (use Await_Task.prems in \<open>auto intro: returns_task\<close>)
  with o Await_Task.prems(1) show ?case by (intro exI [of _ ?G]) (auto simp del: fun_upd_apply)
next
  case (Await_Future w k)
  have o: "older n G G" by (simp add: older_def)
  have "\<forall>b x. b \<noteq> a \<longrightarrow> m b = Some x \<longrightarrow> b < n + 1 \<and> explains G (n + 1) b x"
    by (rule others_older [OF Await_Future.prems(4) o]) simp
  then have "explained G (m(a \<mapsto> (After_Future n k, t)), n + 1)" for t
    by (rule explained_at) (use Await_Future.prems in \<open>auto intro: returns_future\<close>)
  with o Await_Future.prems(1) show ?case by (intro exI [of _ G]) auto
next
  case (Spawn eb b c)
  let ?G = "G(n := b)" let ?m = "m(n \<mapsto> (At_Start b, None))"
  have o: "older n G ?G" by (simp add: older_def)
  have "\<forall>b x. b \<noteq> a \<longrightarrow> m b = Some x \<longrightarrow> b < n + 1 \<and> explains ?G (n + 1) b x"
    by (rule others_older [OF Spawn.prems(4) o]) simp
  then have m: "\<forall>b x. b \<noteq> a \<longrightarrow> ?m b = Some x \<longrightarrow> b < n + 1 \<and> explains ?G (n + 1) b x"
    by (auto simp del: split_paired_All)
  have "\<exists>G'. older (n + 1) ?G G' \<and> n + 1 \<le> n' \<and> explained G' (m', n')"
  proof (rule Spawn.IH [OF _ _ _ m])
    show "body_view a c ?m (n + 1) = (m', n')" using Spawn.prems(1) by simp
  qed (use Spawn.prems in simp_all)
  then show ?case using older_trans [OF o] by (metis add_leD1 le_add1)
qed

lemma turn_view_explained:
  assumes "turn_view s s'" "explained G s"
  shows "\<exists>G'. older (snd s) G G' \<and> snd s \<le> snd s' \<and> explained G' s'"
proof -
  have body: "\<exists>G'. older n G G' \<and> n \<le> n2 \<and> explained G' (m2, n2)"
    if r: "resumed m a c m1" and b: "body_view a (code c) m1 n = (m2, n2)" and n: "a < n" "explained G (m, n)" for m a c m1 m2 n n2
  proof (rule body_view_explained [OF b n(1)])
    show "\<forall>b x. b \<noteq> a \<longrightarrow> m1 b = Some x \<longrightarrow> b < n \<and> explains G n b x"
      using r n by cases (auto simp: explained_def split: if_splits)
    show "\<forall>v. returns (code c) v \<longrightarrow> returns (code (G a)) v"
      using r
    proof cases
      case (resumed_task ch k t v)
      from explainedD [OF n(2) resumed_task(3)] explainedD [OF n(2) resumed_task(4)]
      have "explains G n a (After_Task ch k, t)" "explains G n ch (At_Final, Some v)" by simp_all
      then show ?thesis using resumed_task by auto
    next
      case (resumed_start t)
      from explainedD [OF n(2) resumed_start(2)] have "explains G n a (At_Start c, t)" by simp
      then show ?thesis by simp
    next
      case (resumed_future i k t x)
      from explainedD [OF n(2) resumed_future(3)] have "explains G n a (After_Future i k, t)" by simp
      then show ?thesis using resumed_future by auto
    qed
  qed
  from assms(1) show ?thesis
  proof cases
    case (turn_suspended m a c m1 n m2 n2)
    with body [OF turn_suspended(3-5)] assms(2) show ?thesis by simp
  next
    case (turn_freed m a c m1 n m2 n2 v)
    with body [OF turn_freed(3,4) turn_freed(6)] assms(2) obtain G' where
      "older n G G'" "n \<le> n2" "explained G' (m2, n2)" by auto
    then show ?thesis using turn_freed by (intro exI [of _ G']) (auto simp: explained_def)
  qed
qed

abbreviation rt_explained :: "(nat \<Rightarrow> 'v coro) \<Rightarrow> 'v runtime \<Rightarrow> bool" where
  "rt_explained G rt \<equiv> explained G (view rt, next_address rt)"

lemma destroy_task_view:
  assumes "destroy_task a rt = Inr rt'"
  shows "(view rt' = view rt \<or> (\<exists>b. view rt' = (view rt)(b := None))) \<and> next_address rt' = next_address rt"
  using assms
  by (auto simp: destroy_task_def bindE_eq_Inr remove_from_event_base_def destroy_frame_def Let_def view_same_put view_fields
      view_def fun_eq_iff split: if_splits option.splits)

lemma run_event_explained:
  assumes ok: "rt_ok {} {} H rt" and G: "rt_explained G rt" and r: "run_event (rt, H) ev = Inr (rt', H')"
  shows "\<exists>G'. older (next_address rt) G G' \<and> next_address rt \<le> next_address rt' \<and> rt_explained G' rt'"
proof -
  have same: ?thesis if "same_view rt rt'"
    using that G by (intro exI [of _ G]) (auto simp: same_view_def older_def)
  show ?thesis
  proof (cases ev)
    case (Turn eb)
    with r have t: "event_base_turn eb rt = Inr rt'" by (auto simp: bindE_eq_Inr)
    from event_base_turn_view [OF ok t] turn_view_explained [OF _ G] same show ?thesis
      by (cases "queue_items (ready_queue rt eb) = []") auto
  next
    case (Start eb b)
    with r obtain c where "start_task eb b rt = Inr (c, rt')" by (auto simp: bindE_eq_Inr)
    from start_task_view [OF this] have v: "view rt' = (view rt)(next_address rt \<mapsto> (At_Start b, None))"
      "next_address rt' = next_address rt + 1" by auto
    let ?G = "G(next_address rt := b)"
    have o: "older (next_address rt) G ?G" by (simp add: older_def)
    have "rt_explained ?G rt'"
      using G explains_older [OF _ o, of _ _ "next_address rt + 1"] by (fastforce simp: explained_def v)
    with o v(2) show ?thesis by auto
  next
    case (Let_Go a)
    show ?thesis
    proof (cases "a \<in> set H")
      case True
      with Let_Go r have "destroy_task a rt = Inr rt'" by (auto simp: bindE_eq_Inr)
      from destroy_task_view [OF this] G show ?thesis
        by (intro exI [of _ G]) (auto simp: older_def explained_def split: if_splits)
    qed (use Let_Go r same in auto)
  next
    case (Set_Value k x)
    with r have "same_view rt rt'" by (auto simp: bindE_eq_Inr dest: set_value_view split: if_splits)
    then show ?thesis by (rule same)
  qed
qed

lemma run_events_explained:
  "rt_ok {} {} H rt \<Longrightarrow> rt_explained G rt \<Longrightarrow> run_events (rt, H) evs = Inr (rt', H') \<Longrightarrow>
     \<exists>G'. older (next_address rt) G G' \<and> next_address rt \<le> next_address rt' \<and> rt_explained G' rt'"
proof (induction evs arbitrary: rt H G)
  case Nil
  then show ?case by (intro exI [of _ G]) (auto simp: run_events_def older_def)
next
  case (Cons ev evs)
  then obtain rt1 H1 where r: "run_event (rt, H) ev = Inr (rt1, H1)" "run_events (rt1, H1) evs = Inr (rt', H')"
    by (auto simp: run_events_def bindE_eq_Inr)
  from run_event_explained [OF Cons.prems(1,2) r(1)] obtain G1 where
    G1: "older (next_address rt) G G1" "next_address rt \<le> next_address rt1" "rt_explained G1 rt1" by blast
  have "rt_ok {} {} H1 rt1" using run_event_ok [OF Cons.prems(1), of ev] r(1) by simp
  from Cons.IH [OF this G1(3) r(2)] G1 show ?case by (meson le_trans older_trans)
qed

lemma run_event_ends:
  assumes ok: "rt_ok {} {} H rt" and e: "all_end (view rt)" and s: "\<forall>eb b. ev = Start eb b \<longrightarrow> finishes (code b)"
    and r: "run_event (rt, H) ev = Inr (rt', H')"
  shows "all_end (view rt')"
proof (cases ev)
  case (Turn eb)
  with r have t: "event_base_turn eb rt = Inr rt'" by (auto simp: bindE_eq_Inr)
  from event_base_turn_view [OF ok t] turn_view_ends [of "(view rt, next_address rt)"] rt_fresh [OF ok] e show ?thesis
    by (cases "queue_items (ready_queue rt eb) = []") auto
next
  case (Start eb b)
  with r obtain c where "start_task eb b rt = Inr (c, rt')" by (auto simp: bindE_eq_Inr)
  from start_task_view [OF this] Start s e show ?thesis by (auto simp: all_end_def)
next
  case (Let_Go a)
  show ?thesis
  proof (cases "a \<in> set H")
    case True
    with Let_Go r have "destroy_task a rt = Inr rt'" by (auto simp: bindE_eq_Inr)
    from destroy_task_view [OF this] e show ?thesis by (auto simp: all_end_def split: if_splits)
  qed (use Let_Go r e in auto)
next
  case (Set_Value k x)
  with r have "view rt' = view rt" by (auto simp: bindE_eq_Inr same_view_def dest: set_value_view split: if_splits)
  with e show ?thesis by simp
qed

lemma run_events_end:
  "rt_ok {} {} H rt \<Longrightarrow> all_end (view rt) \<Longrightarrow> \<forall>eb b. Start eb b \<in> set evs \<longrightarrow> finishes (code b) \<Longrightarrow>
     run_events (rt, H) evs = Inr (rt', H') \<Longrightarrow> all_end (view rt')"
proof (induction evs arbitrary: rt H)
  case (Cons ev evs)
  then obtain rt1 H1 where r: "run_event (rt, H) ev = Inr (rt1, H1)" "run_events (rt1, H1) evs = Inr (rt', H')"
    by (auto simp: run_events_def bindE_eq_Inr)
  have "all_end (view rt1)" by (rule run_event_ends [OF Cons.prems(1,2) _ r(1)]) (use Cons.prems(3) in auto)
  moreover have "rt_ok {} {} H1 rt1" using run_event_ok [OF Cons.prems(1), of ev] r(1) by simp
  ultimately show ?case using Cons.IH r(2) Cons.prems(3) by auto
qed (simp add: run_events_def)

lemma new_runtime_ends: "all_end (view (new_runtime n))"
  by (simp add: all_end_def view_def new_runtime_def)


subsection \<open>The properties\<close>

text \<open>
  C29: whatever tasks are started, let go, run and resumed in whatever order, the runtime never touches a
  freed frame or future, never resumes a finished coroutine and never overruns a ready queue;
  the one way to fail is the exception of an exhausted pool. Every live frame has its own
  record, and the record stands in the queue of its event base, once, exactly if the frame
  can go on.
\<close>

theorem scheduler_safe:
  assumes "0 < n" "n < 2 ^ 64"
  shows "case run_events (new_runtime n, []) evs of
      Inl e \<Rightarrow> \<exists>m. e = Throw (Runtime_Error m)
    | Inr (rt, held) \<Rightarrow> (\<forall>eb. distinct (queue_items (ready_queue rt eb))) \<and>
        (\<forall>a f. promises rt a = Some f \<longrightarrow>
          (\<exists>p eb. task_ptr f = Some p \<and> m_event_base f = Some eb \<and> ti_handle (task_info_at p rt) = Some a \<and>
             (p \<in> set (queue_items (ready_queue rt eb)) \<longleftrightarrow> runnable rt f)))"
proof -
  have queued: "\<exists>p eb. task_ptr f = Some p \<and> m_event_base f = Some eb \<and> ti_handle (task_info_at p rt) = Some a \<and>
      (p \<in> set (queue_items (ready_queue rt eb)) \<longleftrightarrow> runnable rt f)"
    if ok: "rt_ok {} {} H rt" and f: "promises rt a = Some f" for rt :: "'a runtime" and H a f
  proof -
    obtain p eb where p: "p < slots rt" "task_ptr f = Some p" "ti_handle (task_info_at p rt) = Some a"
      "m_event_base f = Some eb" "event_base (task_info_at p rt) = Some eb"
      using infoD [OF ok f] by (metis empty_iff)
    moreover have "p \<in> set (queue_items (ready_queue rt eb)) \<longleftrightarrow> listed {} rt eb p"
      using ok by (simp add: rt_ok_def queues_ok_def)
    ultimately show ?thesis using f by (auto simp: listed_def frame_is_eq)
  qed
  note run = run_events_ok [OF new_runtime_ok(1) [OF assms], of evs]
  show ?thesis
  proof (cases "run_events (new_runtime n :: 'a runtime, []) evs")
    case (Inl e)
    with run show ?thesis by simp
  next
    case (Inr r)
    with run obtain rt held where r: "r = (rt, held)" "rt_ok {} {} held rt" by auto
    then have "\<forall>eb. distinct (queue_items (ready_queue rt eb))" by (simp add: rt_ok_def queues_ok_def)
    with Inr r(1) queued [OF r(2)] show ?thesis by simp
  qed
qed

lemma all_done:
  assumes ok: "rt_ok {} {} H rt" and q: "\<forall>eb. queue_items (ready_queue rt eb) = []"
    and f: "\<forall>i v. futures rt i = Some v \<longrightarrow> m_is_set v"
  shows "promises rt a = Some f \<Longrightarrow> is_done f"
proof (induction "next_address rt - a" arbitrary: a f rule: less_induct)
  case less
  have "\<not> runnable rt f"
  proof
    assume "runnable rt f"
    moreover obtain p eb where "p < slots rt" "ti_handle (task_info_at p rt) = Some a" "event_base (task_info_at p rt) = Some eb"
      using infoD [OF ok less.prems] by (metis empty_iff)
    ultimately have "listed {} rt eb p" using less.prems by (auto simp: listed_def frame_is_eq)
    moreover have "listed {} rt eb p \<longleftrightarrow> p \<in> set (queue_items (ready_queue rt eb))"
      using ok by (simp add: rt_ok_def queues_ok_def)
    ultimately show False using q by simp
  qed
  moreover have "frame_is rt c is_done" if ch: "child_of f = Some c" for c
  proof -
    from frameD(2) [OF ok less.prems] ch obtain g where g: "a < c" "promises rt c = Some g"
      by (auto simp: waits_ok_def dest!: frame_is_some)
    with frameD(1) [OF ok g(2)] have "next_address rt - c < next_address rt - a" by simp
    from less.hyps [OF this g(2)] g(2) show ?thesis by (simp add: frame_is_eq)
  qed
  moreover have "future_is rt i m_is_set" if "future_of f = Some i" for i
    using frameD(2) [OF ok less.prems] that assms(3) by (auto simp: waits_ok_def future_is_def split: option.splits)
  ultimately show ?case by (auto simp: runnable_def)
qed

text \<open>
  C30: when the queues have run empty and no future is outstanding, every task has finished, every frame that
  nobody holds has been freed with its record, and the pool holds all the others: nothing
  is lost and nothing waits for ever.
\<close>

theorem scheduler_quiescent:
  assumes "0 < n" "n < 2 ^ 64" "run_events (new_runtime n, []) evs = Inr (rt, held)"
    and "\<forall>eb. queue_items (ready_queue rt eb) = []" "\<forall>i v. futures rt i = Some v \<longrightarrow> m_is_set v"
  shows "dom (promises rt) = set held \<and> (\<forall>a f. promises rt a = Some f \<longrightarrow> is_done f) \<and>
    length (pool_free (task_infos rt)) + length held = n"
proof -
  from run_events_ok [OF new_runtime_ok(1) [OF assms(1,2)], of evs] assms(3) new_runtime_ok(2) [OF assms(1,2)]
  have ok: "rt_ok {} {} held rt" and n: "slots rt = n" by simp_all
  note fin = all_done [OF ok assms(4,5)]
  have d: "dom (promises rt) = set held"
  proof (rule set_eqI, rule iffI)
    fix a assume "a \<in> dom (promises rt)"
    then obtain f where f: "promises rt a = Some f" by auto
    from frameD(3-5) [OF ok f] fin [OF f] show "a \<in> set held"
    proof (cases "m_suspending_promise f")
      case (Some b)
      with frameD(5) [OF ok f] obtain g where "promises rt b = Some g" "child_of g = Some a" by (auto dest: frame_is_some)
      with fin [of b g] show ?thesis by (simp add: is_done_iff child_of_def)
    qed auto
  qed (use ok in \<open>auto simp: rt_ok_def held_ok_def frame_is_def split: option.splits\<close>)
  let ?fr = "set (pool_free (task_infos rt))" let ?tp = "\<lambda>a. the (task_ptr (the (promises rt a)))"
  have inf: "infos_ok {} rt" and dh: "distinct held" using ok by (simp_all add: rt_ok_def held_ok_def)
  have tp: "?tp a < n \<and> ti_handle (task_info_at (?tp a) rt) = Some a" if "a \<in> set held" for a
  proof -
    from that d obtain f where f: "promises rt a = Some f" by auto
    from infoD [OF ok f] obtain p eb where "p < slots rt" "task_ptr f = Some p" "ti_handle (task_info_at p rt) = Some a"
      by (metis empty_iff)
    with f n show ?thesis by simp
  qed
  have inj: "inj_on ?tp (set held)"
  proof (rule inj_onI)
    fix a b assume "a \<in> set held" "b \<in> set held" and e: "?tp a = ?tp b"
    from tp [OF this(1)] tp [OF this(2)] show "a = b" unfolding e by simp
  qed
  have from_slot: "p \<in> ?tp ` set held" if "p < n" "p \<notin> ?fr" for p
  proof -
    from inf that n obtain a where "ti_handle (task_info_at p rt) = Some a" by (auto simp: infos_ok_def)
    with inf that n have "frame_is rt a (\<lambda>f. task_ptr f = Some p \<and> m_event_base f = event_base (task_info_at p rt))"
      by (simp add: infos_ok_def)
    then obtain f where "promises rt a = Some f" "task_ptr f = Some p" by (auto dest: frame_is_some)
    with d show ?thesis by (intro image_eqI [of _ _ a]) auto
  qed
  have "?fr \<union> ?tp ` set held = {..<n}" using inf tp from_slot n by (auto simp: infos_ok_def)
  moreover have "?fr \<inter> ?tp ` set held = {}" using inf tp n by (auto simp: infos_ok_def)
  ultimately have "card ?fr + card (?tp ` set held) = n"
    by (metis card_Un_disjoint card_lessThan finite_imageI finite_set)
  moreover have "card ?fr = length (pool_free (task_infos rt))" using inf by (simp add: infos_ok_def distinct_card)
  ultimately show ?thesis using d fin card_image [OF inj] dh by (simp add: distinct_card)
qed

text \<open>
  C31: without further outside events a loop goes idle. When every body that was started can await only finitely often,
  after finitely many turns of an event base its ready queue is empty, or the pool of 20000 records has run out and the
  exception of that ends the loop. A body that awaits in an endless loop is a value of \<open>coro\<close> too, and is what \<open>finishes\<close> excludes.
\<close>

theorem event_loop_goes_idle:
  assumes "0 < n" "n < 2 ^ 64" "run_events (new_runtime n, []) evs = Inr (rt, held)"
    and "\<forall>eb b. Start eb b \<in> set evs \<longrightarrow> finishes (code b)"
  shows "\<exists>k. case turns eb k rt of
      Inl e \<Rightarrow> \<exists>m. e = Throw (Runtime_Error m)
    | Inr rt' \<Rightarrow> queue_items (ready_queue rt' eb) = []"
proof -
  from run_events_ok [OF new_runtime_ok(1) [OF assms(1,2)], of evs] assms(3)
  have "rt_ok {} {} held rt" by simp
  from turns_idle [OF this run_events_end [OF new_runtime_ok(1) [OF assms(1,2)] new_runtime_ends assms(4,3)], of eb]
  show ?thesis by (auto simp: fine_def split: sum.splits)
qed

lemma started_returns:
  assumes "0 < n" "n < 2 ^ 64" "run_events (new_runtime n, []) before = Inr (rt0, held0)"
    and "run_events (rt0, held0) (Start eb b # evs) = Inr (rt, held)"
    and "promises rt (next_address rt0) = Some f" "is_done f"
  shows "\<exists>v. task_value f = Some v \<and> returns (code b) v"
proof -
  have ok0: "rt_ok {} {} held0 rt0"
    using run_events_ok [OF new_runtime_ok(1) [OF assms(1,2)], of before] assms(3) by simp
  obtain G :: "nat \<Rightarrow> 'a coro" where "rt_explained G (new_runtime n)"
    by (auto simp: explained_def view_def new_runtime_def)
  from run_events_explained [OF new_runtime_ok(1) [OF assms(1,2)] this assms(3)]
  obtain G0 where G0: "rt_explained G0 rt0" by blast
  let ?c = "next_address rt0"
  from assms(4) obtain rt1 where s: "start_task eb b rt0 = Inr (?c, rt1)" "run_events (rt1, ?c # held0) evs = Inr (rt, held)"
    using start_task_view by (fastforce simp: run_events_def bindE_eq_Inr)
  have ok1: "rt_ok {} {} (?c # held0) rt1" using start_task_ok [OF ok0, of b eb] s(1) by simp
  have v: "view rt1 = (view rt0)(?c \<mapsto> (At_Start b, None))" "next_address rt1 = ?c + 1" using start_task_view [OF s(1)] by auto
  let ?G = "G0(?c := b)"
  have o: "older ?c G0 ?G" by (simp add: older_def)
  have "rt_explained ?G rt1"
    using G0 explains_older [OF _ o, of _ _ "?c + 1"] by (fastforce simp: explained_def v)
  from run_events_explained [OF ok1 this s(2)] obtain G' where "older (?c + 1) ?G G'" "rt_explained G' rt"
    by (auto simp: v)
  moreover have "view rt ?c = Some (At_Final, task_value f)" using assms(5,6) by (simp add: view_def is_done_iff)
  ultimately have "explains G' (next_address rt) ?c (At_Final, task_value f)" "G' ?c = b"
    using explainedD [of G' "view rt" "next_address rt" ?c] by (auto simp: older_def)
  then show ?thesis by simp
qed

text \<open>
  C32: a task returns what its body, read as an ordinary function that calls the awaited
  tasks, can return: each \<open>co_await\<close> delivers the value of the very task it awaited, however
  the runs of the tasks interleave.
\<close>

theorem task_returns:
  assumes "0 < n" "n < 2 ^ 64" "run_events (new_runtime n, []) before = Inr (rt0, held0)"
    and "run_events (rt0, held0) (Start eb b # evs) = Inr (rt, held)"
    and "promises rt (next_address rt0) = Some f" "is_done f"
  shows "\<exists>v. task_value f = Some v \<and> returns (code b) v"
  using assms by (rule started_returns)

subsection \<open>Endless loops\<close>

text \<open>\<open>while (true) { co_await f; }\<close> for a future that is set at once.\<close>

primcorec polling :: "nat coro" where
  "code polling = Await_Future (Some 0) (\<lambda>_. polling)"

lemma polling_endless: "\<not> finishes (code polling)" "\<not> returns (code polling) v"
proof -
  have "finishes c \<Longrightarrow> c \<noteq> code polling" for c
    by (induction rule: finishes.induct) (auto simp del: finishes_simps)
  then show "\<not> finishes (code polling)" by blast
  have "returns c v \<Longrightarrow> c \<noteq> code polling" for c
    by (induction rule: returns.induct) (auto simp del: returns_simps)
  then show "\<not> returns (code polling) v" by blast
qed

text \<open>Such a task is never done, however long the event bases run.\<close>

lemma polling_never_done:
  assumes "0 < n" "n < 2 ^ 64" "run_events (new_runtime n, []) before = Inr (rt0, held0)"
    and "run_events (rt0, held0) (Start eb polling # evs) = Inr (rt, held)" "promises rt (next_address rt0) = Some f"
  shows "\<not> is_done f"
  using started_returns [OF assms] polling_endless(2) by blast


subsection \<open>A run\<close>

text \<open>A task that awaits a task and a future, run to its end and let go.\<close>

definition demo_coro :: "nat coro" where
  "demo_coro = Body (Await_Task (Body (Return 5)) (\<lambda>v. Body (Await_Future (Some 7) (\<lambda>w. Body (Return (v + w))))))"

lemmas runtime_run =
  run_events_def event_base_turn_def check_handle_def check_to_remove_task_def resume_frame_def start_task_def
  create_coroutine_def create_future_def set_resume_point_def return_value_def final_suspend_def task_await_suspend_def
  task_await_resume_def future_await_suspend_def future_await_resume_def set_value_def future_set_ready_def
  register_on_def set_waiting_def set_ready_task_def destroy_task_def add_to_event_base_def remove_from_event_base_def
  destroy_frame_def promise_at_def future_at_def put_promise_def put_future_def set_task_info_def task_info_at_def
  destroy_future_def is_done_def push_def pop_def get_current_head_def capacity_def acquire_def release_def pool_head_def
  pool_tail_def pool_size_def run_hook_def task_info_class_def clear_task_info_def new_runtime_def new_pool_def new_mpsc_def
  new_task_info_def Let_def

lemma two_slots: "replicate 2 x = [x, x]" "[0..<2] = [0, Suc 0]" "fetch_sub1 2 = Suc 0" "fetch_sub1 (Suc 0) = 0"
proof -
  show "replicate 2 x = [x, x]" "[0..<2] = [0, Suc 0]" by (simp_all add: numeral_2_eq_2)
  show "fetch_sub1 2 = Suc 0" using fetch_sub1_Suc [of 1, unfolded Suc_1] by simp
  show "fetch_sub1 (Suc 0) = 0" by simp
qed

lemma demo_done:
  "\<exists>rt. run_events (new_runtime 2, []) [Start 0 demo_coro, Turn 0, Turn 0, Turn 0, Turn 0] = Inr (rt, [0]) \<and>
     (\<exists>f. promises rt 0 = Some f \<and> is_done f \<and> task_value f = Some 12) \<and>
     (\<forall>eb. queue_items (ready_queue rt eb) = []) \<and> (\<forall>i. futures rt i = None)"
  by (simp add: runtime_run demo_coro_def two_slots queue_items_empty fun_upd_def)

theorem scheduler_safe_witness:
  "case run_events (new_runtime 2, []) [Start 0 demo_coro, Turn 0] of
     Inl e \<Rightarrow> \<exists>m. e = Throw (Runtime_Error m) | Inr (rt, held) \<Rightarrow> \<forall>eb. distinct (queue_items (ready_queue rt eb))"
  using scheduler_safe [of 2 "[Start 0 demo_coro, Turn 0]"] by (auto split: sum.splits prod.splits)

theorem scheduler_quiescent_witness:
  "\<exists>rt. run_events (new_runtime 2, []) [Start 0 demo_coro, Turn 0, Turn 0, Turn 0, Turn 0] = Inr (rt, [0]) \<and>
     length (pool_free (task_infos rt)) = 1"
  using scheduler_quiescent [of 2 "[Start 0 demo_coro, Turn 0, Turn 0, Turn 0, Turn 0]" _ "[0]"] demo_done by fastforce

theorem event_loop_goes_idle_witness:
  "\<exists>k rt. run_events (new_runtime 2, []) [Start 0 demo_coro] = Inr (rt, [0]) \<and>
     (case turns 0 k rt of Inl e \<Rightarrow> \<exists>m. e = Throw (Runtime_Error m) | Inr rt' \<Rightarrow> queue_items (ready_queue rt' 0) = [])"
proof -
  obtain rt where "run_events (new_runtime 2, []) [Start 0 demo_coro] = Inr (rt, [0])"
    by (simp add: runtime_run two_slots)
  moreover have "\<forall>eb b. Start eb b \<in> set [Start 0 demo_coro] \<longrightarrow> finishes (code b)" by (simp add: demo_coro_def)
  ultimately show ?thesis using event_loop_goes_idle [of 2 "[Start 0 demo_coro]" rt "[0]" 0] by auto
qed

theorem task_returns_witness:
  "\<exists>rt f. run_events (new_runtime 2, []) [Start 0 demo_coro, Turn 0, Turn 0, Turn 0, Turn 0] = Inr (rt, [0]) \<and>
     promises rt 0 = Some f \<and> is_done f \<and> task_value f = Some 12 \<and> returns (code demo_coro) 12"
proof -
  obtain rt f where r: "run_events (new_runtime 2, []) [Start 0 demo_coro, Turn 0, Turn 0, Turn 0, Turn 0] = Inr (rt, [0])"
    "promises rt 0 = Some f" "is_done f" "task_value f = Some 12" using demo_done by auto
  then have "\<exists>v. task_value f = Some v \<and> returns (code demo_coro) v"
    using task_returns [of 2 "[]" "new_runtime 2" "[]" 0 demo_coro "[Turn 0, Turn 0, Turn 0, Turn 0]" rt "[0]" f]
    by (auto simp: new_runtime_def run_events_def)
  with r show ?thesis by auto
qed

end
