(* ===== verification/Json_Access.thy ===== *)
theory Json_Access
  imports Json
begin

section \<open>Reading and comparing values (src/core/json/json.h, json_value.h)\<close>

text \<open>
  The conversion operators and the comparison and assignment operators that go through them. A
  C++ type the templates are used with is a \<open>number_type\<close>: a signed or unsigned integer of a
  given width, or \<open>double\<close>, whose arithmetic is a parameter. A value that does not convert
  gives the default of the type.
\<close>

datatype number_type = Int_Type nat | Word_Type nat

definition fits :: "number_type \<Rightarrow> int \<Rightarrow> bool" where
  "fits ty i = (case ty of Int_Type w \<Rightarrow> - (2 ^ (w - 1)) \<le> i \<and> i < 2 ^ (w - 1) | Word_Type w \<Rightarrow> 0 \<le> i \<and> i < 2 ^ w)"

text \<open>\<open>static_cast\<close> between integer types keeps the low bits.\<close>

definition cast_int :: "number_type \<Rightarrow> int \<Rightarrow> int" where
  "cast_int ty i = (case ty of Int_Type w \<Rightarrow> signed_take_bit (w - 1) i | Word_Type w \<Rightarrow> take_bit w i)"

text \<open>The arithmetic of \<open>double\<close>; a conversion to an integer type the value does not fit is undefined (\<open>None\<close>).\<close>

record 'd doubles =
  double_of_int :: "int \<Rightarrow> 'd"
  trunc_double :: "'d \<Rightarrow> int"
  double_is_zero :: "'d \<Rightarrow> bool"

definition value_to_int :: "'d doubles \<Rightarrow> number_type \<Rightarrow> 'd jval \<Rightarrow> int result" where
  "value_to_int ds ty v = (case v of
     VNull \<Rightarrow> Inr 0
   | VBool b \<Rightarrow> Inr (if b then 1 else 0)
   | VInt i \<Rightarrow> Inr (cast_int ty i)
   | VUInt n \<Rightarrow> Inr (cast_int ty (int n))
   | VDouble d \<Rightarrow> if fits ty (trunc_double ds d) then Inr (trunc_double ds d) else Inl (UB Signed_Overflow)
   | VString s \<Rightarrow> Inr 0)"

definition value_to_double :: "'d doubles \<Rightarrow> 'd jval \<Rightarrow> 'd" where
  "value_to_double ds v = (case v of
     VBool b \<Rightarrow> double_of_int ds (if b then 1 else 0)
   | VInt i \<Rightarrow> double_of_int ds i
   | VUInt n \<Rightarrow> double_of_int ds (int n)
   | VDouble d \<Rightarrow> d
   | _ \<Rightarrow> double_of_int ds 0)"

definition value_to_bool :: "'d doubles \<Rightarrow> 'd jval \<Rightarrow> bool" where
  "value_to_bool ds v = (case v of
     VBool b \<Rightarrow> b
   | VInt i \<Rightarrow> i \<noteq> 0
   | VUInt n \<Rightarrow> n \<noteq> 0
   | VDouble d \<Rightarrow> \<not> double_is_zero ds d
   | _ \<Rightarrow> False)"

text \<open>A value that is not a string converts to an empty \<open>ShareString\<close>.\<close>

definition value_to_text :: "'d jval \<Rightarrow> string" where
  "value_to_text v = (case v of VString s \<Rightarrow> s | _ \<Rightarrow> [])"

definition json_to_int :: "'d doubles \<Rightarrow> number_type \<Rightarrow> 'd json \<Rightarrow> int result" where
  "json_to_int ds ty j = (case j of JValue v _ \<Rightarrow> value_to_int ds ty v | _ \<Rightarrow> Inr 0)"

definition json_to_double :: "'d doubles \<Rightarrow> 'd json \<Rightarrow> 'd" where
  "json_to_double ds j = (case j of JValue v _ \<Rightarrow> value_to_double ds v | _ \<Rightarrow> double_of_int ds 0)"

definition json_to_bool :: "'d doubles \<Rightarrow> 'd json \<Rightarrow> bool" where
  "json_to_bool ds j = (case j of JValue v _ \<Rightarrow> value_to_bool ds v | _ \<Rightarrow> False)"

subsection \<open>Comparison\<close>

definition json_eq_text :: "'d json \<Rightarrow> string \<Rightarrow> bool" where
  "json_eq_text j t = (case j of JValue v _ \<Rightarrow> value_to_text v = t | _ \<Rightarrow> False)"

definition json_eq :: "'d doubles \<Rightarrow> number_type \<Rightarrow> 'd json \<Rightarrow> int \<Rightarrow> bool result" where
  "json_eq ds ty j x = (case j of JValue v _ \<Rightarrow> bindE (value_to_int ds ty v) (\<lambda>i. Inr (i = x)) | _ \<Rightarrow> Inr False)"

definition json_neq :: "'d doubles \<Rightarrow> number_type \<Rightarrow> 'd json \<Rightarrow> int \<Rightarrow> bool result" where
  "json_neq ds ty j x = bindE (json_eq ds ty j x) (\<lambda>b. Inr (\<not> b))"

definition json_less :: "'d doubles \<Rightarrow> number_type \<Rightarrow> 'd json \<Rightarrow> int \<Rightarrow> bool result" where
  "json_less ds ty j x = (case j of JValue v _ \<Rightarrow> bindE (value_to_int ds ty v) (\<lambda>i. Inr (i < x)) | _ \<Rightarrow> Inr False)"

definition json_greater :: "'d doubles \<Rightarrow> number_type \<Rightarrow> 'd json \<Rightarrow> int \<Rightarrow> bool result" where
  "json_greater ds ty j x = (case j of JValue v _ \<Rightarrow> bindE (value_to_int ds ty v) (\<lambda>i. Inr (i > x)) | _ \<Rightarrow> Inr False)"

definition json_less_eq :: "'d doubles \<Rightarrow> number_type \<Rightarrow> 'd json \<Rightarrow> int \<Rightarrow> bool result" where
  "json_less_eq ds ty j x = bindE (json_greater ds ty j x) (\<lambda>b. Inr (\<not> b))"

definition json_greater_eq :: "'d doubles \<Rightarrow> number_type \<Rightarrow> 'd json \<Rightarrow> int \<Rightarrow> bool result" where
  "json_greater_eq ds ty j x = bindE (json_less ds ty j x) (\<lambda>b. Inr (\<not> b))"

subsection \<open>Adding\<close>

definition check_create_json_value :: "'d json \<Rightarrow> 'd json" where
  "check_create_json_value j = (case j of JValue v f \<Rightarrow> j | _ \<Rightarrow> JValue VNull True)"

text \<open>Addition in an integer type: unsigned wraps around, signed overflow is undefined.\<close>

definition add_in :: "number_type \<Rightarrow> int \<Rightarrow> int \<Rightarrow> int result" where
  "add_in ty x y = (case ty of
     Int_Type w \<Rightarrow> if fits ty (x + y) then Inr (x + y) else Inl (UB Signed_Overflow)
   | Word_Type w \<Rightarrow> Inr (cast_int ty (x + y)))"

definition json_add :: "'d doubles \<Rightarrow> number_type \<Rightarrow> 'd json \<Rightarrow> int \<Rightarrow> 'd json result" where
  "json_add ds ty j x = (case check_create_json_value j of
     JValue v f \<Rightarrow> bindE (value_to_int ds ty v) (\<lambda>i. bindE (add_in ty i x) (\<lambda>r. Inr (JValue (VInt (wrap_int64 r)) f)))
   | j' \<Rightarrow> Inr j')"

definition json_subtract :: "'d doubles \<Rightarrow> number_type \<Rightarrow> 'd json \<Rightarrow> int \<Rightarrow> 'd json result" where
  "json_subtract ds ty j x = bindE (add_in ty 0 (- x)) (\<lambda>y. json_add ds ty j y)"

subsection \<open>What the operators mean\<close>

lemma cast_fits: "0 < (case ty of Int_Type w \<Rightarrow> w | Word_Type w \<Rightarrow> 1) \<Longrightarrow> fits ty i \<Longrightarrow> cast_int ty i = i"
  by (cases ty) (auto simp: fits_def cast_int_def signed_take_bit_int_eq_self_iff take_bit_int_eq_self_iff)

text \<open>
  On an integer that fits the type it is compared with, the six comparison operators and the
  two assignments are those of the integers; a sum out of range is undefined for a signed type.
\<close>

theorem json_int_operators:
  assumes "0 < w" "fits (Int_Type w) i" "fits (Int_Type w) x" "w \<le> 64"
  shows "json_eq ds (Int_Type w) (JValue (VInt i) f) x = Inr (i = x)"
    "json_neq ds (Int_Type w) (JValue (VInt i) f) x = Inr (i \<noteq> x)"
    "json_less ds (Int_Type w) (JValue (VInt i) f) x = Inr (i < x)"
    "json_greater ds (Int_Type w) (JValue (VInt i) f) x = Inr (i > x)"
    "json_less_eq ds (Int_Type w) (JValue (VInt i) f) x = Inr (i \<le> x)"
    "json_greater_eq ds (Int_Type w) (JValue (VInt i) f) x = Inr (i \<ge> x)"
    "json_add ds (Int_Type w) (JValue (VInt i) f) x =
       (if fits (Int_Type w) (i + x) then Inr (JValue (VInt (i + x)) f) else Inl (UB Signed_Overflow))"
    "json_subtract ds (Int_Type w) (JValue (VInt i) f) x =
       (if fits (Int_Type w) (- x) \<and> fits (Int_Type w) (i - x) then Inr (JValue (VInt (i - x)) f) else Inl (UB Signed_Overflow))"
proof -
  have c: "cast_int (Int_Type w) i = i" using assms(1,2) by (simp add: cast_fits)
  have w: "wrap_int64 y = y" if "fits (Int_Type w) y" for y
  proof -
    have "(2 :: int) ^ (w - 1) \<le> 2 ^ 63" using assms(4) by (intro power_increasing) auto
    with that show ?thesis by (intro wrap_int64_id) (auto simp: fits_def in_int64_def)
  qed
  show "json_eq ds (Int_Type w) (JValue (VInt i) f) x = Inr (i = x)"
    "json_neq ds (Int_Type w) (JValue (VInt i) f) x = Inr (i \<noteq> x)"
    "json_less ds (Int_Type w) (JValue (VInt i) f) x = Inr (i < x)"
    "json_greater ds (Int_Type w) (JValue (VInt i) f) x = Inr (i > x)"
    "json_less_eq ds (Int_Type w) (JValue (VInt i) f) x = Inr (i \<le> x)"
    "json_greater_eq ds (Int_Type w) (JValue (VInt i) f) x = Inr (i \<ge> x)"
    by (auto simp: json_eq_def json_neq_def json_less_def json_greater_def json_less_eq_def json_greater_eq_def value_to_int_def c)
  show a: "json_add ds (Int_Type w) (JValue (VInt i) f) x =
       (if fits (Int_Type w) (i + x) then Inr (JValue (VInt (i + x)) f) else Inl (UB Signed_Overflow))" for x
    by (simp add: json_add_def check_create_json_value_def value_to_int_def c add_in_def w)
  show "json_subtract ds (Int_Type w) (JValue (VInt i) f) x =
       (if fits (Int_Type w) (- x) \<and> fits (Int_Type w) (i - x) then Inr (JValue (VInt (i - x)) f) else Inl (UB Signed_Overflow))"
    by (simp add: json_subtract_def add_in_def a)
qed

text \<open>
  The operators take the type of the other operand for the type of the value: a 64-bit value
  that is compared with an \<open>int\<close> or added to one loses its high bits first. And a \<open>Json\<close> that is
  no value is at most and at least every number, since these two operators negate the others.
\<close>

lemma low_bits: "signed_take_bit 31 (5000000000 :: int) = 705032704" "signed_take_bit 63 (705032705 :: int) = 705032705"
  by code_simp+

lemma json_int_truncates:
  "json_less ds (Int_Type 32) (JValue (VInt 5000000000) f) 1000000000 = Inr True"
  "json_add ds (Int_Type 32) (JValue (VInt 5000000000) f) 1 = Inr (JValue (VInt 705032705) f)"
  by (simp_all add: json_less_def json_add_def check_create_json_value_def value_to_int_def cast_int_def add_in_def fits_def
      low_bits wrap_int64_def)

lemma json_no_value_compares:
  "json_less_eq ds ty JNone x = Inr True" "json_greater_eq ds ty JNone x = Inr True"
  "json_less ds ty JNone x = Inr False" "json_greater ds ty JNone x = Inr False" "json_eq ds ty JNone x = Inr False"
  by (simp_all add: json_less_eq_def json_greater_eq_def json_less_def json_greater_def json_eq_def)

end
