(* ===== verification/Streaming.thy ===== *)
theory Streaming
  imports OrderBook_Props OrderBook_Feed Json_Access Utilities
begin

section \<open>Streaming a file into the book (dbn_wrapper.h, orderbook_controller.cpp, main.cpp)\<close>

text \<open>
  \<open>DbnWrapper\<close>, \<open>OrderBookController\<close> and the routes of \<open>main.cpp\<close> that use them, with
  the two threads that run them: the handlers of the routes are coroutines of the I/O thread, the
  coroutines that stream the file and make snapshots belong to the gateway thread. A thread runs
  one coroutine until it is suspended; the threads interleave between any two accesses to the
  state they share. Each of the steps below is one such access. The end callback of the wrapper is
  never set in the repository and is left out, and so are the log messages.

  A databento file is its list of records, \<open>None\<close> for one that is no \<open>MboMsg\<close>; opening a
  missing file throws. Durations measured with the clock are inputs.
\<close>

subsection \<open>Doubles\<close>

text \<open>
  What the code does with doubles: the test \<open>> 0.0\<close>, \<open>static_cast<long long>(n / d)\<close>
  (\<open>None\<close> when the quotient does not fit, which is undefined), \<open>1000000.0 / d\<close>, the constant 1.0 and
  \<open>std::to_string\<close>.
\<close>

record 'd stream_doubles = "'d doubles" +
  double_positive :: "'d \<Rightarrow> bool"
  quotient_ns :: "int \<Rightarrow> 'd \<Rightarrow> int option"
  per_million :: "'d \<Rightarrow> 'd"
  double_one :: 'd
  double_to_string :: "'d \<Rightarrow> string"

subsection \<open>The state\<close>

record 'd dbn_wrapper =
  m_store :: "mbo_msg option list"
  m_speed :: 'd
  m_is_streaming :: bool
  m_stop_future_value :: "nat option"

text \<open>
  Where \<open>start_stream_data\<close> is: before an access to the shared state, before the callback, or
  suspended in \<open>sleep_for\<close> (\<open>Sleeping\<close>, \<open>Woken\<close> once the timer has marked it ready).
\<close>

datatype stream_point =
    Begin_Stream
  | Reset_Future
  | Next_Record
  | Call_Back mbo_msg
  | Sleeping nat mbo_msg
  | Woken mbo_msg
  | End_Stream
  | Notify_Stop
  | Stream_Ended

text \<open>The wrapper is \<open>this\<close> of the coroutine; the callback holds the plain pointer to the book.\<close>

record stream =
  of_wrapper :: nat
  into_book :: "nat option"
  stream_at :: stream_point

datatype 'd api_request = Start_Streaming "'d json" | Stop_Streaming | Get_Snapshot

text \<open>Where a handler is; \<open>Wait_Future\<close> and \<open>Stop_Check\<close> are the points where it may be resumed.\<close>

datatype 'd handler_point =
    Entered
  | Stop_Check
  | Register_Stop nat
  | Clear_Flag nat nat
  | Wait_Future nat
  | Initialize
  | Launch
  | Answered "'d json"

record 'd api_call =
  request :: "'d api_request"
  call_speed :: 'd
  call_at :: "'d handler_point"

text \<open>The ready queue of the gateway: a \<open>start_streaming\<close> task, a snapshot task, a streaming coroutine.\<close>

datatype 'd gateway_task = Launch_Task 'd | Snapshot_Task nat | Stream_Task nat

text \<open>A future is there until its awaiting coroutine has taken the value.\<close>

record 'd controller =
  order_books :: "nat \<Rightarrow> order_book option"
  wrappers :: "nat \<Rightarrow> 'd dbn_wrapper option"
  m_order_book :: "nat option"
  m_dbn_wrapper :: "nat option"
  m_dbn_file_path :: string
  apply_stats :: "'d latency_tracker"
  snapshot_latency :: "'d latency_tracker"
  count_mbo_msgs :: int
  stop_futures :: "nat \<Rightarrow> 'd json option option"
  next_id :: nat
  streams :: "stream list"
  gateway :: "'d gateway_task list"
  gateway_runs :: "nat option"
  calls :: "'d api_call list"
  io_runs :: "nat option"

record 'd stream_env =
  arith :: "'d stream_doubles"
  dbn_file :: "string \<Rightarrow> mbo_msg option list option"
  vector_max :: nat

definition new_controller :: "'d controller" where
  "new_controller = \<lparr>order_books = (\<lambda>_. None), wrappers = (\<lambda>_. None), m_order_book = None, m_dbn_wrapper = None,
     m_dbn_file_path = [], apply_stats = \<lparr>samples = [], max_samples = 200000\<rparr>,
     snapshot_latency = \<lparr>samples = [], max_samples = 200000\<rparr>, count_mbo_msgs = 0, stop_futures = (\<lambda>_. None),
     next_id = 0, streams = [], gateway = [], gateway_runs = None, calls = [], io_runs = None\<rparr>"

subsection \<open>DbnWrapper\<close>

definition wrapper_at :: "nat \<Rightarrow> 'd controller \<Rightarrow> 'd dbn_wrapper result" where
  "wrapper_at a w = (case wrappers w a of None \<Rightarrow> Inl (UB Use_After_Free) | Some x \<Rightarrow> Inr x)"

definition put_wrapper :: "nat \<Rightarrow> 'd dbn_wrapper \<Rightarrow> 'd controller \<Rightarrow> 'd controller" where
  "put_wrapper a x w = w\<lparr>wrappers := (wrappers w)(a \<mapsto> x)\<rparr>"

definition new_dbn_wrapper :: "'d stream_env \<Rightarrow> mbo_msg option list \<Rightarrow> 'd dbn_wrapper" where
  "new_dbn_wrapper env records =
     \<lparr>m_store = records, m_speed = double_one (arith env), m_is_streaming = False, m_stop_future_value = None\<rparr>"

definition set_speed :: "'d \<Rightarrow> 'd dbn_wrapper \<Rightarrow> 'd dbn_wrapper" where
  "set_speed speed x = x\<lparr>m_speed := speed\<rparr>"

definition at_point :: "nat \<Rightarrow> stream_point \<Rightarrow> 'd controller \<Rightarrow> 'd controller" where
  "at_point i p w = w\<lparr>streams := (streams w)[i := (streams w ! i)\<lparr>stream_at := p\<rparr>]\<rparr>"

text \<open>The callback: the message is applied and its duration recorded. \<open>count_mbo_msgs\<close> is an \<open>int\<close>.\<close>

definition stream_callback :: "'d \<Rightarrow> nat option \<Rightarrow> mbo_msg \<Rightarrow> 'd controller \<Rightarrow> 'd controller result" where
  "stream_callback us bo m w = (case bo of
     None \<Rightarrow> Inl (UB Null_Pointer)
   | Some b \<Rightarrow> (case order_books w b of
       None \<Rightarrow> Inl (UB Use_After_Free)
     | Some ob \<Rightarrow> bindE (apply_msg ob m) (\<lambda>ob'.
         if count_mbo_msgs w = 2147483647 then Inl (UB Signed_Overflow)
         else Inr (w\<lparr>order_books := (order_books w)(b \<mapsto> ob'), apply_stats := add_sample (apply_stats w) us,
           count_mbo_msgs := count_mbo_msgs w + 1\<rparr>))))"

text \<open>
  One step of \<open>start_stream_data\<close>. The result says whether the coroutine goes on; else it has
  been suspended or has ended. The count of nanoseconds becomes a \<open>size_t\<close>.
\<close>

definition next_record :: "'d stream_env \<Rightarrow> nat \<Rightarrow> nat \<Rightarrow> 'd dbn_wrapper \<Rightarrow> 'd controller \<Rightarrow> (bool \<times> 'd controller) result" where
  "next_record env i a x w =
     (if \<not> m_is_streaming x then Inr (True, at_point i End_Stream w)
      else case m_store x of
        [] \<Rightarrow> Inr (True, at_point i End_Stream w)
      | None # rest \<Rightarrow> Inr (True, put_wrapper a (x\<lparr>m_store := rest\<rparr>) w)
      | Some m # rest \<Rightarrow>
          let w1 = put_wrapper a (x\<lparr>m_store := rest\<rparr>) w in
          if 0 < msg_ts_in_delta m \<and> double_positive (arith env) (m_speed x) then
            (case quotient_ns (arith env) (msg_ts_in_delta m) (m_speed x) of
               None \<Rightarrow> Inl (UB Signed_Overflow)
             | Some ns \<Rightarrow> Inr (False, at_point i (Sleeping (nat (ns mod 2 ^ 64)) m) w1))
          else Inr (True, at_point i (Call_Back m) w1))"

definition notify_stop :: "nat \<Rightarrow> 'd dbn_wrapper \<Rightarrow> 'd controller \<Rightarrow> 'd controller result" where
  "notify_stop i x w = (case m_stop_future_value x of
     None \<Rightarrow> Inr (at_point i Stream_Ended w)
   | Some f \<Rightarrow> (case stop_futures w f of
       None \<Rightarrow> Inl (UB Use_After_Free)
     | Some (Some _) \<Rightarrow> Inr (at_point i Stream_Ended w)
     | Some None \<Rightarrow> Inr (at_point i Stream_Ended (w\<lparr>stop_futures := (stop_futures w)(f \<mapsto> Some (of_bool_json True))\<rparr>))))"

definition stream_step :: "'d stream_env \<Rightarrow> 'd \<Rightarrow> nat \<Rightarrow> 'd controller \<Rightarrow> (bool \<times> 'd controller) result" where
  "stream_step env us i w = (let a = of_wrapper (streams w ! i) in case stream_at (streams w ! i) of
     Begin_Stream \<Rightarrow> bindE (wrapper_at a w) (\<lambda>x.
       Inr (True, at_point i Reset_Future (put_wrapper a (x\<lparr>m_is_streaming := True\<rparr>) w)))
   | Reset_Future \<Rightarrow> bindE (wrapper_at a w) (\<lambda>x.
       Inr (True, at_point i Next_Record (put_wrapper a (x\<lparr>m_stop_future_value := None\<rparr>) w)))
   | Next_Record \<Rightarrow> bindE (wrapper_at a w) (\<lambda>x. next_record env i a x w)
   | Call_Back m \<Rightarrow> bindE (stream_callback us (into_book (streams w ! i)) m w) (\<lambda>w1. Inr (True, at_point i Next_Record w1))
   | Woken m \<Rightarrow> Inr (True, at_point i (Call_Back m) w)
   | End_Stream \<Rightarrow> bindE (wrapper_at a w) (\<lambda>x.
       Inr (True, at_point i Notify_Stop (put_wrapper a (x\<lparr>m_is_streaming := False\<rparr>) w)))
   | Notify_Stop \<Rightarrow> bindE (wrapper_at a w) (\<lambda>x. bindE (notify_stop i x w) (\<lambda>w1. Inr (False, w1)))
   | _ \<Rightarrow> Inr (False, w))"

subsection \<open>OrderBookController\<close>

text \<open>
  \<open>initialize\<close>: the old book and the old wrapper are destroyed. When the file cannot be opened the
  book is the new one and the wrapper the old one; the result says so.
\<close>

definition initialize :: "'d stream_env \<Rightarrow> string \<Rightarrow> 'd controller \<Rightarrow> (bool \<times> 'd controller) result" where
  "initialize env dbn_file_path w =
     bindE (new_order_book (vector_max env) 20000000 120000000000 10000000) (\<lambda>ob.
       let b = next_id w; a = next_id w + 1;
           old_books = (case m_order_book w of None \<Rightarrow> order_books w | Some b' \<Rightarrow> (order_books w)(b' := None));
           w1 = w\<lparr>order_books := old_books(b \<mapsto> ob), m_order_book := Some b, next_id := next_id w + 2\<rparr>
       in case dbn_file env dbn_file_path of
            None \<Rightarrow> Inr (False, w1)
          | Some records \<Rightarrow>
              let old_wrappers = (case m_dbn_wrapper w of None \<Rightarrow> wrappers w | Some a' \<Rightarrow> (wrappers w)(a' := None))
              in Inr (True, w1\<lparr>wrappers := old_wrappers(a \<mapsto> new_dbn_wrapper env records), m_dbn_wrapper := Some a,
                   m_dbn_file_path := dbn_file_path\<rparr>))"

text \<open>\<open>start_streaming\<close> runs on the gateway and starts the streaming coroutine there.\<close>

definition start_streaming :: "'d \<Rightarrow> 'd controller \<Rightarrow> 'd controller result" where
  "start_streaming speed w = (case m_dbn_wrapper w of
     None \<Rightarrow> Inl (UB Null_Pointer)
   | Some a \<Rightarrow> bindE (wrapper_at a w) (\<lambda>x.
       Inr ((put_wrapper a (set_speed speed x) w)\<lparr>apply_stats := clear_samples (apply_stats w), count_mbo_msgs := 0,
         streams := streams w @ [\<lparr>of_wrapper = a, into_book = m_order_book w, stream_at = Begin_Stream\<rparr>],
         gateway := gateway w @ [Stream_Task (length (streams w))]\<rparr>)))"

definition latencies :: "'d :: {linorder, zero} latency_tracker \<Rightarrow> ('d \<times> 'd \<times> 'd) result" where
  "latencies lt = bindE (percentile lt 50) (\<lambda>a. bindE (percentile lt 90) (\<lambda>b. bindE (percentile lt 99) (\<lambda>c. Inr (a, b, c))))"

definition of_double :: "'d \<Rightarrow> 'd json" where
  "of_double d = JValue (VDouble d) True"

definition snapshot_with_latencies :: "'d stream_env \<Rightarrow> 'd json \<Rightarrow> 'd :: {linorder, zero} latency_tracker \<Rightarrow> 'd latency_tracker \<Rightarrow> 'd json result" where
  "snapshot_with_latencies env snapshot latency stats =
     bindE (latencies latency) (\<lambda>(a, b, c). bindE (latencies stats) (\<lambda>(p, q, r).
       Inr (set_key
         (set_key snapshot ''latency_get_snapshot''
           (json_of_pairs [(''p50'', of_double a), (''p90'', of_double b), (''p99'', of_double c)]))
         ''latency_apply_mbo_msg''
           (json_of_pairs [(''p50'', of_double p), (''p90'', of_double q), (''p99'', of_double r),
             (''throughput_p50'', of_double (per_million (arith env) p)),
             (''throughput_p90'', of_double (per_million (arith env) q)),
             (''throughput_p99'', of_double (per_million (arith env) r))]))))"

definition set_future :: "nat \<Rightarrow> 'd json \<Rightarrow> 'd controller \<Rightarrow> 'd controller result" where
  "set_future f v w = (case stop_futures w f of
     None \<Rightarrow> Inl (UB Use_After_Free)
   | Some (Some _) \<Rightarrow> Inr w
   | Some None \<Rightarrow> Inr (w\<lparr>stop_futures := (stop_futures w)(f \<mapsto> Some v)\<rparr>))"

definition get_orderbook_snapshot_async :: "'d stream_env \<Rightarrow> 'd \<Rightarrow> nat \<Rightarrow> 'd :: {linorder, zero} controller \<Rightarrow> 'd controller result" where
  "get_orderbook_snapshot_async env ms f w = (case m_order_book w of
     None \<Rightarrow> set_future f JNone w
   | Some b \<Rightarrow> (case order_books w b of
       None \<Rightarrow> Inl (UB Use_After_Free)
     | Some ob \<Rightarrow> bindE (build_snapshot ob) (\<lambda>snapshot.
         let latency = add_sample (snapshot_latency w) ms in
         bindE (snapshot_with_latencies env snapshot latency (apply_stats w)) (\<lambda>v.
           set_future f v (w\<lparr>snapshot_latency := latency\<rparr>)))))"

subsection \<open>The gateway thread\<close>

text \<open>A step of the coroutine that runs, or the next task of the ready queue.\<close>

definition gateway_step :: "'d stream_env \<Rightarrow> 'd \<Rightarrow> 'd :: {linorder, zero} controller \<Rightarrow> 'd controller result" where
  "gateway_step env us w = (case gateway_runs w of
     Some i \<Rightarrow> bindE (stream_step env us i w) (\<lambda>(on, w1). Inr (w1\<lparr>gateway_runs := (if on then Some i else None)\<rparr>))
   | None \<Rightarrow> (case gateway w of
       [] \<Rightarrow> Inr w
     | t # ts \<Rightarrow> let w1 = w\<lparr>gateway := ts\<rparr> in (case t of
         Launch_Task speed \<Rightarrow> start_streaming speed w1
       | Snapshot_Task f \<Rightarrow> get_orderbook_snapshot_async env us f w1
       | Stream_Task i \<Rightarrow> Inr (w1\<lparr>gateway_runs := Some i\<rparr>))))"

text \<open>The timer of a sleeping coroutine; one that was armed with zero never fires.\<close>

definition timer_step :: "nat \<Rightarrow> 'd controller \<Rightarrow> 'd controller" where
  "timer_step i w = (if i < length (streams w) then
     (case stream_at (streams w ! i) of
        Sleeping ns m \<Rightarrow> if ns = 0 then w else (at_point i (Woken m) w)\<lparr>gateway := gateway w @ [Stream_Task i]\<rparr>
      | _ \<Rightarrow> w) else w)"

subsection \<open>The routes\<close>

definition dbn_path :: string where
  "dbn_path = ''z_orderbook_data/CLX5_mbo.dbn''"

definition request_speed :: "'d stream_env \<Rightarrow> 'd json \<Rightarrow> 'd result" where
  "request_speed env body_json = bindE (has_field body_json ''speed'') (\<lambda>b.
     Inr (if b then json_to_double (doubles.truncate (arith env)) (get_key body_json ''speed'') else double_one (arith env)))"

definition status_ok :: "string \<Rightarrow> 'd json" where
  "status_ok message = set_key (set_key JNone ''status'' (of_string ''OK'')) ''message'' (of_string message)"

definition snapshot_ok :: "'d json \<Rightarrow> 'd json" where
  "snapshot_ok snapshot = set_key (set_key JNone ''status'' (of_string ''OK'')) ''snapshot'' snapshot"

text \<open>Where the handler goes on after \<open>co_await stop_streaming()\<close>.\<close>

definition after_stop :: "'d api_call \<Rightarrow> 'd handler_point" where
  "after_stop c = (case request c of
     Start_Streaming _ \<Rightarrow> Initialize | _ \<Rightarrow> Answered (status_ok ''Stopped streaming orderbook data''))"

definition call_to :: "nat \<Rightarrow> 'd handler_point \<Rightarrow> 'd controller \<Rightarrow> 'd controller" where
  "call_to h p w = w\<lparr>calls := (calls w)[h := (calls w ! h)\<lparr>call_at := p\<rparr>]\<rparr>"

definition new_future :: "nat \<Rightarrow> 'd controller \<Rightarrow> 'd controller" where
  "new_future f w = w\<lparr>stop_futures := (stop_futures w)(f \<mapsto> None), next_id := f + 1\<rparr>"

text \<open>The task that makes the snapshot is started; \<open>f\<close> is the future it will set.\<close>

definition get_orderbook_snapshot :: "nat \<Rightarrow> 'd controller \<Rightarrow> 'd controller" where
  "get_orderbook_snapshot f w = (let w1 = new_future f w in w1\<lparr>gateway := gateway w1 @ [Snapshot_Task f]\<rparr>)"

text \<open>\<open>stop_streaming\<close> reads the flag; \<open>DbnWrapper::stop\<close> leaves the future with the wrapper, then clears the flag.\<close>

definition stop_streaming :: "nat \<Rightarrow> 'd api_call \<Rightarrow> 'd controller \<Rightarrow> (bool \<times> 'd controller) result" where
  "stop_streaming h c w = (case m_dbn_wrapper w of
     None \<Rightarrow> Inr (False, call_to h (after_stop c) w)
   | Some a \<Rightarrow> bindE (wrapper_at a w) (\<lambda>x.
       if m_is_streaming x then Inr (True, call_to h (Register_Stop a) w) else Inr (False, call_to h (after_stop c) w)))"

definition stop_register :: "nat \<Rightarrow> nat \<Rightarrow> 'd controller \<Rightarrow> (bool \<times> 'd controller) result" where
  "stop_register h a w = (let f = next_id w in bindE (wrapper_at a w) (\<lambda>x.
     Inr (True, call_to h (Clear_Flag a f) (new_future f (put_wrapper a (x\<lparr>m_stop_future_value := Some f\<rparr>) w)))))"

definition stop_clear :: "nat \<Rightarrow> nat \<Rightarrow> nat \<Rightarrow> 'd controller \<Rightarrow> (bool \<times> 'd controller) result" where
  "stop_clear h a f w = bindE (wrapper_at a w) (\<lambda>x.
     Inr (False, call_to h (Wait_Future f) (put_wrapper a (x\<lparr>m_is_streaming := False\<rparr>) w)))"

lemmas stop_defs = get_orderbook_snapshot_def stop_streaming_def stop_register_def stop_clear_def

text \<open>
  One step of a handler. Its exceptions end the program. The result says whether the I/O thread stays with it;
  a handler that waits for a future goes on once the future is set.
\<close>

definition handler_step :: "'d stream_env \<Rightarrow> nat \<Rightarrow> 'd controller \<Rightarrow> (bool \<times> 'd controller) result" where
  "handler_step env h w = (let c = calls w ! h in case call_at c of
     Entered \<Rightarrow> (case request c of
         Start_Streaming body \<Rightarrow> bindE (request_speed env body) (\<lambda>speed.
           Inr (False, w\<lparr>calls := (calls w)[h := c\<lparr>call_speed := speed, call_at := Stop_Check\<rparr>]\<rparr>))
       | Stop_Streaming \<Rightarrow> Inr (False, call_to h Stop_Check w)
       | Get_Snapshot \<Rightarrow> Inr (False, call_to h (Wait_Future (next_id w)) (get_orderbook_snapshot (next_id w) w)))
   | Stop_Check \<Rightarrow> stop_streaming h c w
   | Register_Stop a \<Rightarrow> stop_register h a w
   | Clear_Flag a f \<Rightarrow> stop_clear h a f w
   | Wait_Future f \<Rightarrow> (case stop_futures w f of
         None \<Rightarrow> Inl (UB Use_After_Free)
       | Some None \<Rightarrow> Inr (False, w)
       | Some (Some v) \<Rightarrow> Inr (False, call_to h (case request c of Get_Snapshot \<Rightarrow> Answered (snapshot_ok v) | _ \<Rightarrow> after_stop c)
           (w\<lparr>stop_futures := (stop_futures w)(f := None)\<rparr>)))
   | Initialize \<Rightarrow> bindE (initialize env dbn_path w) (\<lambda>(opened, w1).
       if opened then Inr (True, call_to h Launch w1) else Inl (Terminate (Runtime_Error dbn_path)))
   | Launch \<Rightarrow> Inr (False, call_to h
         (Answered (status_ok (''Started streaming orderbook data, with [speed] = '' @ double_to_string (arith env) (call_speed c))))
         (w\<lparr>gateway := gateway w @ [Launch_Task (call_speed c)]\<rparr>))
   | Answered _ \<Rightarrow> Inr (False, w))"

subsection \<open>Runs\<close>

text \<open>
  \<open>Gateway us\<close>: a step of the gateway thread; \<open>us\<close> is the duration it measures, if it measures one.
  \<open>Io h\<close>: a step of a handler, if the I/O thread is free or runs this one.
\<close>

datatype 'd stream_event = Request "'d api_request" | Io nat | Gateway 'd | Timer_Fires nat

fun controller_step :: "'d stream_env \<Rightarrow> 'd :: {linorder, zero} controller \<Rightarrow> 'd stream_event \<Rightarrow> 'd controller result" where
  "controller_step env w (Request r) =
     Inr (w\<lparr>calls := calls w @ [\<lparr>request = r, call_speed = double_one (arith env), call_at = Entered\<rparr>]\<rparr>)"
| "controller_step env w (Io h) =
     (if h < length (calls w) \<and> (io_runs w = None \<or> io_runs w = Some h)
      then bindE (handler_step env h w) (\<lambda>(on, w1). Inr (w1\<lparr>io_runs := (if on then Some h else None)\<rparr>))
      else Inr w)"
| "controller_step env w (Gateway us) = gateway_step env us w"
| "controller_step env w (Timer_Fires i) = Inr (timer_step i w)"

definition controller_run :: "'d stream_env \<Rightarrow> 'd :: {linorder, zero} controller \<Rightarrow> 'd stream_event list \<Rightarrow> 'd controller result" where
  "controller_run env = foldE (controller_step env)"

end
