(* ===== verification/Streaming_Inv.thy ===== *)
theory Streaming_Inv
  imports Streaming
begin

section \<open>One stream\<close>

text \<open>
  What holds while a file is streamed into the book it was opened for, with any number of requests
  to stop and for snapshots, but no second request to start.
\<close>

subsection \<open>The messages\<close>

primrec mbo_messages :: "mbo_msg option list \<Rightarrow> mbo_msg list" where
  "mbo_messages [] = []"
| "mbo_messages (r # rs) = (case r of None \<Rightarrow> mbo_messages rs | Some m \<Rightarrow> m # mbo_messages rs)"

primrec pending_message :: "stream_point \<Rightarrow> mbo_msg list" where
  "pending_message Begin_Stream = []"
| "pending_message Reset_Future = []"
| "pending_message Next_Record = []"
| "pending_message (Call_Back m) = [m]"
| "pending_message (Sleeping ns m) = [m]"
| "pending_message (Woken m) = [m]"
| "pending_message End_Stream = []"
| "pending_message Notify_Stop = []"
| "pending_message Stream_Ended = []"

primrec snapshot_tasks :: "'d gateway_task list \<Rightarrow> nat list" where
  "snapshot_tasks [] = []"
| "snapshot_tasks (t # ts) = (case t of Snapshot_Task f \<Rightarrow> f # snapshot_tasks ts | _ \<Rightarrow> snapshot_tasks ts)"

primrec stream_tasks :: "'d gateway_task list \<Rightarrow> 'd gateway_task list" where
  "stream_tasks [] = []"
| "stream_tasks (t # ts) = (case t of Snapshot_Task f \<Rightarrow> stream_tasks ts | _ \<Rightarrow> t # stream_tasks ts)"

lemma tasks_append [simp]:
  "snapshot_tasks (xs @ ys) = snapshot_tasks xs @ snapshot_tasks ys"
  "stream_tasks (xs @ ys) = stream_tasks xs @ stream_tasks ys"
  by (induction xs) (auto split: gateway_task.splits)

text \<open>
  The feed is admissible for the book the controller makes, and the nanoseconds to sleep are
  defined at the speeds a wrapper has, the initial one and the requested one.
\<close>

definition speed_of :: "'d stream_env \<Rightarrow> 'd json \<Rightarrow> 'd \<Rightarrow> bool" where
  "speed_of env body v \<longleftrightarrow> v = double_one (arith env) \<or> request_speed env body = Inr v"

definition stream_setting :: "'d stream_env \<Rightarrow> 'd json \<Rightarrow> mbo_msg option list \<Rightarrow> order_book \<Rightarrow> bool" where
  "stream_setting env body records ob0 \<longleftrightarrow> dbn_file env dbn_path = Some records \<and>
     new_order_book (vector_max env) 20000000 120000000000 10000000 = Inr ob0 \<and>
     admissible_all 20000000 120000000000 [] (mbo_messages records) \<and> length (mbo_messages records) < 2147483648 \<and>
     (\<forall>m \<in> set (mbo_messages records). \<forall>speed. speed_of env body speed \<and> double_positive (arith env) speed \<longrightarrow>
        quotient_ns (arith env) (msg_ts_in_delta m) speed \<noteq> None)"

lemma stream_config: "valid_config 20000000 120000000000 10000000"
  by (simp add: valid_config_def in_int64_def)

lemma admissible_append: "admissible_all lo hi s (xs @ ys) \<Longrightarrow> admissible_all lo hi s xs"
  by (induction xs arbitrary: s) auto

lemma admissible_take: "admissible_all lo hi s ms \<Longrightarrow> admissible_all lo hi s (take n ms)"
  using admissible_append [of lo hi s "take n ms" "drop n ms"] by simp

lemma stream_sim:
  assumes "stream_setting env body records ob0"
  shows "\<exists>ob. apply_all ob0 (take n (mbo_messages records)) = Inr ob \<and> sim ob (foldl spec_step [] (take n (mbo_messages records)))"
proof -
  have new: "new_order_book (vector_max env) 20000000 120000000000 10000000 = Inr ob0"
    and adm: "admissible_all 20000000 120000000000 [] (take n (mbo_messages records))"
    using assms by (simp_all add: stream_setting_def admissible_take)
  obtain ob where "apply_all ob0 (take n (mbo_messages records)) = Inr ob" "sim ob (foldl spec_step [] (take n (mbo_messages records)))"
    by (rule run_sim [OF stream_config new adm])
  then show ?thesis by blast
qed

text \<open>The book after the first \<open>n\<close> messages; each further message is applied without error.\<close>

definition book_after :: "order_book \<Rightarrow> mbo_msg list \<Rightarrow> nat \<Rightarrow> order_book \<Rightarrow> bool" where
  "book_after ob0 ms n ob \<longleftrightarrow> n \<le> length ms \<and> apply_all ob0 (take n ms) = Inr ob"

lemma book_after_next:
  assumes s: "stream_setting env body records ob0" and b: "book_after ob0 (mbo_messages records) n ob"
    and d: "drop n (mbo_messages records) = m # rest"
  shows "\<exists>ob'. apply_msg ob m = Inr ob' \<and> book_after ob0 (mbo_messages records) (n + 1) ob' \<and>
    drop (n + 1) (mbo_messages records) = rest"
proof -
  let ?ms = "mbo_messages records"
  have n: "n < length ?ms" using d by (cases "n < length ?ms") simp_all
  have m: "?ms ! n = m" using d n by (simp add: Cons_nth_drop_Suc [symmetric])
  from stream_sim [OF s] obtain ob' where "apply_all ob0 (take (n + 1) ?ms) = Inr ob'" by blast
  then have "apply_msg ob m = Inr ob'" "apply_all ob0 (take (n + 1) ?ms) = Inr ob'"
    using b n m by (simp_all add: take_Suc_conv_app_nth apply_all_def foldE_append book_after_def bindE_eq_Inr)
  moreover have "drop (n + 1) ?ms = rest" using d by (metis Suc_eq_plus1 drop_Suc list.sel(3) tl_drop)
  ultimately show ?thesis using n by (simp add: book_after_def)
qed

lemma book_after_snapshot:
  assumes "stream_setting env body records ob0" "book_after ob0 (mbo_messages records) n ob"
  shows "\<exists>v. build_snapshot ob = Inr v"
proof -
  from stream_sim [OF assms(1), of n] assms(2) obtain s where "sim ob s" by (auto simp: book_after_def)
  from build_snapshot_eq [OF sim_readable [OF this]] show ?thesis by blast
qed

lemma percentile_total: "0 \<le> p \<Longrightarrow> p \<le> 100 \<Longrightarrow> \<exists>v. percentile lt p = Inr v"
  using percentile_index [of p "length (samples lt)"] by (auto simp: percentile_def Let_def vec_at_def)

lemma latencies_total: "\<exists>v. snapshot_with_latencies env snapshot lt lt' = Inr v"
  using percentile_total [of 50 lt] percentile_total [of 90 lt] percentile_total [of 99 lt]
    percentile_total [of 50 lt'] percentile_total [of 90 lt'] percentile_total [of 99 lt']
  by (auto simp: snapshot_with_latencies_def latencies_def)

subsection \<open>The invariant\<close>

primrec is_start :: "'d api_request \<Rightarrow> bool" where
  "is_start (Start_Streaming b) = True"
| "is_start Stop_Streaming = False"
| "is_start Get_Snapshot = False"

text \<open>The future a handler waits for, or is about to.\<close>

definition awaits :: "'d api_call \<Rightarrow> nat option" where
  "awaits c = (case call_at c of Wait_Future f \<Rightarrow> Some f | Clear_Flag a f \<Rightarrow> Some f | _ \<Rightarrow> None)"

definition handler_ok :: "nat option \<Rightarrow> 'd api_call \<Rightarrow> bool" where
  "handler_ok ao c \<longleftrightarrow> (case call_at c of
     Entered \<Rightarrow> True
   | Stop_Check \<Rightarrow> request c = Stop_Streaming
   | Register_Stop a \<Rightarrow> request c = Stop_Streaming \<and> ao = Some a
   | Clear_Flag a f \<Rightarrow> request c = Stop_Streaming \<and> ao = Some a
   | Wait_Future f \<Rightarrow> True
   | Initialize \<Rightarrow> False
   | Launch \<Rightarrow> False
   | Answered v \<Rightarrow> True)"

definition calls_ok :: "'d controller \<Rightarrow> bool" where
  "calls_ok w \<longleftrightarrow> calls w \<noteq> [] \<and> (\<exists>body. request (calls w ! 0) = Start_Streaming body \<and> body \<noteq> JNone) \<and>
     (\<forall>h. 0 < h \<and> h < length (calls w) \<longrightarrow> \<not> is_start (request (calls w ! h)) \<and> handler_ok (m_dbn_wrapper w) (calls w ! h)) \<and>
     (\<forall>h f. h < length (calls w) \<and> awaits (calls w ! h) = Some f \<longrightarrow> f < next_id w \<and> stop_futures w f \<noteq> None) \<and>
     (\<forall>h h' f. h < length (calls w) \<and> h' < length (calls w) \<and> awaits (calls w ! h) = Some f \<and> awaits (calls w ! h') = Some f \<longrightarrow> h = h')"

definition tasks_ok :: "'d controller \<Rightarrow> bool" where
  "tasks_ok w \<longleftrightarrow> distinct (snapshot_tasks (gateway w)) \<and>
     (\<forall>f \<in> set (snapshot_tasks (gateway w)). f < next_id w \<and> stop_futures w f = Some None)"

text \<open>Before the wrapper is made.\<close>

definition idle :: "'d controller \<Rightarrow> bool" where
  "idle w \<longleftrightarrow> m_dbn_wrapper w = None \<and> m_order_book w = None \<and> streams w = [] \<and> gateway_runs w = None \<and>
     stream_tasks (gateway w) = [] \<and> call_at (calls w ! 0) \<in> {Entered, Stop_Check, Initialize}"

text \<open>The wrapper is there and its stream has not been started.\<close>

definition stopping :: "'d api_call \<Rightarrow> bool" where
  "stopping c \<longleftrightarrow> (case call_at c of Register_Stop a \<Rightarrow> True | Clear_Flag a f \<Rightarrow> True | _ \<Rightarrow> False)"

definition launching :: "mbo_msg option list \<Rightarrow> order_book \<Rightarrow> 'd controller \<Rightarrow> bool" where
  "launching records ob0 w \<longleftrightarrow> streams w = [] \<and> gateway_runs w = None \<and> (\<forall>h < length (calls w). \<not> stopping (calls w ! h)) \<and>
     (\<exists>a b x. m_dbn_wrapper w = Some a \<and> m_order_book w = Some b \<and> wrappers w a = Some x \<and> order_books w b = Some ob0 \<and>
        m_store x = records \<and> \<not> m_is_streaming x \<and> m_stop_future_value x = None) \<and>
     (call_at (calls w ! 0) = Launch \<and> stream_tasks (gateway w) = [] \<or>
      (\<exists>v speed. call_at (calls w ! 0) = Answered v \<and> stream_tasks (gateway w) = [Launch_Task speed]))"

definition placed :: "stream_point \<Rightarrow> 'd gateway_task list \<Rightarrow> nat option \<Rightarrow> bool" where
  "placed p ts runs \<longleftrightarrow> (case p of
     Begin_Stream \<Rightarrow> (runs = None \<and> ts = [Stream_Task 0]) \<or> (runs = Some 0 \<and> ts = [])
   | Woken m \<Rightarrow> (runs = None \<and> ts = [Stream_Task 0]) \<or> (runs = Some 0 \<and> ts = [])
   | Sleeping ns m \<Rightarrow> runs = None \<and> ts = []
   | Stream_Ended \<Rightarrow> runs = None \<and> ts = []
   | _ \<Rightarrow> runs = Some 0 \<and> ts = [])"

definition quiet :: "'d controller \<Rightarrow> bool" where
  "quiet w \<longleftrightarrow> (\<forall>h < length (calls w). request (calls w ! h) \<noteq> Stop_Streaming)"

definition reading :: "stream_point \<Rightarrow> bool" where
  "reading p \<longleftrightarrow> (case p of Begin_Stream \<Rightarrow> False | End_Stream \<Rightarrow> False | Notify_Stop \<Rightarrow> False | Stream_Ended \<Rightarrow> False | _ \<Rightarrow> True)"

definition finishing :: "stream_point \<Rightarrow> bool" where
  "finishing p \<longleftrightarrow> p = End_Stream \<or> p = Notify_Stop \<or> p = Stream_Ended"

definition stop_ok :: "stream_point \<Rightarrow> 'd dbn_wrapper \<Rightarrow> 'd controller \<Rightarrow> bool" where
  "stop_ok p x w \<longleftrightarrow> (\<forall>f. m_stop_future_value x = Some f \<and> p \<noteq> Stream_Ended \<longrightarrow>
     stop_futures w f = Some None \<and> f \<notin> set (snapshot_tasks (gateway w)) \<and> f < next_id w)"

text \<open>The stream is there, at point \<open>p\<close>, with \<open>n\<close> messages applied.\<close>

definition streaming :: "mbo_msg option list \<Rightarrow> order_book \<Rightarrow> nat \<Rightarrow> stream_point \<Rightarrow> 'd controller \<Rightarrow> bool" where
  "streaming records ob0 n p w \<longleftrightarrow> (\<exists>v. call_at (calls w ! 0) = Answered v) \<and> count_mbo_msgs w = int n \<and>
     placed p (stream_tasks (gateway w)) (gateway_runs w) \<and>
     (\<exists>a b x ob. m_dbn_wrapper w = Some a \<and> m_order_book w = Some b \<and> wrappers w a = Some x \<and> order_books w b = Some ob \<and>
        streams w = [\<lparr>of_wrapper = a, into_book = Some b, stream_at = p\<rparr>] \<and>
        book_after ob0 (mbo_messages records) n ob \<and>
        drop n (mbo_messages records) = pending_message p @ mbo_messages (m_store x) \<and> stop_ok p x w \<and>
        (quiet w \<longrightarrow> (reading p \<longrightarrow> m_is_streaming x) \<and> (finishing p \<longrightarrow> mbo_messages (m_store x) = [])))"

definition stream_inv :: "mbo_msg option list \<Rightarrow> order_book \<Rightarrow> 'd controller \<Rightarrow> bool" where
  "stream_inv records ob0 w \<longleftrightarrow> calls_ok w \<and> tasks_ok w \<and>
     (idle w \<or> launching records ob0 w \<or> (\<exists>n p. streaming records ob0 n p w))"

subsection \<open>The gateway thread keeps it\<close>

lemma calls_ok_cong:
  "calls_ok w \<Longrightarrow> calls w' = calls w \<Longrightarrow> m_dbn_wrapper w' = m_dbn_wrapper w \<Longrightarrow> next_id w' = next_id w \<Longrightarrow>
     dom (stop_futures w) \<subseteq> dom (stop_futures w') \<Longrightarrow> calls_ok w'"
  unfolding calls_ok_def by (auto simp: subset_iff domIff)

lemma tasks_ok_cong:
  "tasks_ok w \<Longrightarrow> gateway w' = gateway w \<Longrightarrow> next_id w' = next_id w \<Longrightarrow>
     \<forall>f \<in> set (snapshot_tasks (gateway w)). stop_futures w' f = stop_futures w f \<Longrightarrow> tasks_ok w'"
  by (simp add: tasks_ok_def)

lemma current_book:
  assumes "stream_inv records ob0 w" "m_order_book w = Some b"
  shows "\<exists>n ob. order_books w b = Some ob \<and> book_after ob0 (mbo_messages records) n ob"
proof -
  have "book_after ob0 (mbo_messages records) 0 ob0" by (simp add: book_after_def apply_all_def)
  with assms show ?thesis unfolding stream_inv_def idle_def launching_def streaming_def by auto
qed

text \<open>A snapshot task that has been run.\<close>

lemma snapshot_inv:
  assumes s: "stream_setting env body records ob0" and inv: "stream_inv records ob0 w" and g: "gateway w = Snapshot_Task f # ts"
  shows "\<exists>w'. get_orderbook_snapshot_async env ms f (w\<lparr>gateway := ts\<rparr>) = Inr w' \<and> stream_inv records ob0 w'"
proof -
  have c: "calls_ok w" and t: "tasks_ok w" using inv by (simp_all add: stream_inv_def)
  have f: "f \<notin> set (snapshot_tasks ts)" "stop_futures w f = Some None" "f < next_id w" using t g by (simp_all add: tasks_ok_def)
  define after where "after lt v = w\<lparr>gateway := ts, snapshot_latency := lt, stop_futures := (stop_futures w)(f \<mapsto> Some v)\<rparr>" for lt v
  have "calls_ok (after lt v)" for lt v by (rule calls_ok_cong [OF c]) (auto simp: after_def)
  moreover have "tasks_ok (after lt v)" for lt v using t g f by (auto simp: tasks_ok_def after_def)
  moreover have "idle w \<Longrightarrow> idle (after lt v)" for lt v using g by (simp add: idle_def after_def)
  moreover have "launching records ob0 w \<Longrightarrow> launching records ob0 (after lt v)" for lt v using g by (simp add: launching_def after_def)
  moreover have "streaming records ob0 n p (after lt v)" if "streaming records ob0 n p w" for n p lt v
  proof -
    have "stop_ok p x w \<Longrightarrow> stop_ok p x (after lt v)" for x using g f by (auto simp: stop_ok_def after_def)
    moreover have "quiet (after lt v) = quiet w" by (simp add: quiet_def after_def)
    ultimately show ?thesis using that g by (auto simp: streaming_def after_def)
  qed
  ultimately have d: "stream_inv records ob0 (after lt v)" for lt v using inv unfolding stream_inv_def by blast
  have set: "set_future f v (w\<lparr>gateway := ts, snapshot_latency := lt\<rparr>) = Inr (after lt v)" for lt v
    using f by (simp add: set_future_def after_def)
  have set0: "set_future f v (w\<lparr>gateway := ts\<rparr>) = Inr (after (snapshot_latency w) v)" for v
    using f by (simp add: set_future_def after_def)
  show ?thesis
  proof (cases "m_order_book w")
    case None
    with set0 d show ?thesis by (auto simp: get_orderbook_snapshot_async_def)
  next
    case (Some b)
    with current_book [OF inv] book_after_snapshot [OF s] obtain ob and snap :: "'a json"
      where "order_books w b = Some ob" "build_snapshot ob = Inr snap" by blast
    moreover obtain v where "snapshot_with_latencies env snap (add_sample (snapshot_latency w) ms) (apply_stats w) = Inr v"
      using latencies_total by blast
    ultimately show ?thesis using Some d set by (auto simp: get_orderbook_snapshot_async_def Let_def)
  qed
qed

text \<open>A step of the streaming coroutine.\<close>

lemma streamingI:
  assumes "call_at (calls w ! 0) = Answered v" "count_mbo_msgs w = int n" "placed p (stream_tasks (gateway w)) (gateway_runs w)"
    and "m_dbn_wrapper w = Some a" "m_order_book w = Some b" "wrappers w a = Some x" "order_books w b = Some ob"
    and "streams w = [\<lparr>of_wrapper = a, into_book = Some b, stream_at = p\<rparr>]" "book_after ob0 (mbo_messages records) n ob"
    and "drop n (mbo_messages records) = pending_message p @ mbo_messages (m_store x)" "stop_ok p x w"
    and "quiet w \<Longrightarrow> reading p \<Longrightarrow> m_is_streaming x" "quiet w \<Longrightarrow> finishing p \<Longrightarrow> mbo_messages (m_store x) = []"
  shows "streaming records ob0 n p w"
  unfolding streaming_def using assms by blast

lemma at_point_fields [simp]:
  "calls (at_point i p w) = calls w" "count_mbo_msgs (at_point i p w) = count_mbo_msgs w" "gateway (at_point i p w) = gateway w"
  "gateway_runs (at_point i p w) = gateway_runs w" "m_dbn_wrapper (at_point i p w) = m_dbn_wrapper w"
  "m_order_book (at_point i p w) = m_order_book w" "wrappers (at_point i p w) = wrappers w"
  "order_books (at_point i p w) = order_books w" "stop_futures (at_point i p w) = stop_futures w" "next_id (at_point i p w) = next_id w"
  "streams w = [s] \<Longrightarrow> streams (at_point 0 p w) = [s\<lparr>stream_at := p\<rparr>]"
  by (simp_all add: at_point_def)

lemma put_wrapper_fields [simp]:
  "calls (put_wrapper a x w) = calls w" "count_mbo_msgs (put_wrapper a x w) = count_mbo_msgs w" "gateway (put_wrapper a x w) = gateway w"
  "gateway_runs (put_wrapper a x w) = gateway_runs w" "m_dbn_wrapper (put_wrapper a x w) = m_dbn_wrapper w"
  "m_order_book (put_wrapper a x w) = m_order_book w" "wrappers (put_wrapper a x w) = (wrappers w)(a \<mapsto> x)"
  "order_books (put_wrapper a x w) = order_books w" "stop_futures (put_wrapper a x w) = stop_futures w"
  "next_id (put_wrapper a x w) = next_id w" "streams (put_wrapper a x w) = streams w"
  by (simp_all add: put_wrapper_def)

lemma quiet_cong: "calls w' = calls w \<Longrightarrow> quiet w' = quiet w"
  by (simp add: quiet_def)

lemma stop_ok_cong: "stop_ok p x w \<Longrightarrow> m_stop_future_value x' = m_stop_future_value x \<Longrightarrow> stop_futures w' = stop_futures w \<Longrightarrow>
    gateway w' = gateway w \<Longrightarrow> next_id w' = next_id w \<Longrightarrow> p \<noteq> Stream_Ended \<Longrightarrow> stop_ok p' x' w'"
  by (simp add: stop_ok_def)

lemmas points = placed_def reading_def finishing_def

text \<open>The speeds, whatever the handlers do.\<close>

definition paced :: "'d stream_env \<Rightarrow> 'd json \<Rightarrow> 'd controller \<Rightarrow> bool" where
  "paced env body w \<longleftrightarrow> (\<forall>c \<in> set (calls w). speed_of env body (call_speed c) \<and> (\<forall>b. request c = Start_Streaming b \<longrightarrow> b = body)) \<and>
     (\<forall>v. Launch_Task v \<in> set (gateway w) \<longrightarrow> speed_of env body v) \<and>
     (\<forall>a x. wrappers w a = Some x \<longrightarrow> speed_of env body (m_speed x))"

lemma stream_advance:
  assumes s: "stream_setting env body records ob0" and pc: "paced env body w" and st: "streaming records ob0 n p w" and r: "gateway_runs w = Some 0"
  shows "\<exists>on w1 n' p'. stream_step env us 0 w = Inr (on, w1) \<and>
    streaming records ob0 n' p' (w1\<lparr>gateway_runs := (if on then Some 0 else None)\<rparr>) \<and> calls w1 = calls w \<and> next_id w1 = next_id w \<and>
    m_dbn_wrapper w1 = m_dbn_wrapper w \<and> gateway w1 = gateway w \<and> dom (stop_futures w) \<subseteq> dom (stop_futures w1) \<and>
    (\<forall>f \<in> set (snapshot_tasks (gateway w)). stop_futures w1 f = stop_futures w f)"
proof -
  from st obtain v a b x ob where w: "call_at (calls w ! 0) = Answered v" "count_mbo_msgs w = int n"
    "m_dbn_wrapper w = Some a" "m_order_book w = Some b" "wrappers w a = Some x" "order_books w b = Some ob"
    "streams w = [\<lparr>of_wrapper = a, into_book = Some b, stream_at = p\<rparr>]" and ob: "book_after ob0 (mbo_messages records) n ob"
    and ms: "drop n (mbo_messages records) = pending_message p @ mbo_messages (m_store x)" and so: "stop_ok p x w"
    and q: "quiet w \<Longrightarrow> reading p \<Longrightarrow> m_is_streaming x" "quiet w \<Longrightarrow> finishing p \<Longrightarrow> mbo_messages (m_store x) = []"
    and pl: "placed p (stream_tasks (gateway w)) (gateway_runs w)"
    unfolding streaming_def by blast
  have ts: "stream_tasks (gateway w) = []" and np: "p \<noteq> Stream_Ended" "\<And>ns m. p \<noteq> Sleeping ns m"
    using pl r by (auto simp: placed_def split: stream_point.splits)
  have xa: "wrapper_at a w = Inr x" by (simp add: wrapper_at_def w)
  have go: "streaming records ob0 n p' (w1\<lparr>gateway_runs := (if on then Some 0 else None)\<rparr>) \<and> calls w1 = calls w \<and> next_id w1 = next_id w \<and>
      m_dbn_wrapper w1 = m_dbn_wrapper w \<and> gateway w1 = gateway w \<and> dom (stop_futures w) \<subseteq> dom (stop_futures w1) \<and>
      (\<forall>f \<in> set (snapshot_tasks (gateway w)). stop_futures w1 f = stop_futures w f)"
    if w1: "w1 = at_point 0 p' (put_wrapper a x' w)" and o: "placed p' (stream_tasks (gateway w)) (if on then Some 0 else None)"
      and m: "pending_message p' @ mbo_messages (m_store x') = drop n (mbo_messages records)"
      and f: "m_stop_future_value x' = m_stop_future_value x \<or> m_stop_future_value x' = None"
      and q': "quiet w \<Longrightarrow> reading p' \<Longrightarrow> m_is_streaming x'" "quiet w \<Longrightarrow> finishing p' \<Longrightarrow> mbo_messages (m_store x') = []"
    for w1 p' x' on
  proof -
    have so': "stop_ok p' x' (w1\<lparr>gateway_runs := r\<rparr>)" for r using so np f by (auto simp: stop_ok_def w1)
    have "streaming records ob0 n p' (w1\<lparr>gateway_runs := (if on then Some 0 else None)\<rparr>)"
      by (rule streamingI [where x = x', OF _ _ _ _ _ _ _ _ ob])
        (use w ts o m so' q' in \<open>simp_all add: w1 quiet_def\<close>)
    then show ?thesis by (simp add: w1)
  qed
  have same: "put_wrapper a x w = w" using w by (simp add: put_wrapper_def fun_upd_idem)
  have at: "stream_step env us 0 w = Inr (on, w1) \<Longrightarrow> w1 = at_point 0 p' (put_wrapper a x' w) \<Longrightarrow> placed p' (stream_tasks (gateway w)) (if on then Some 0 else None) \<Longrightarrow>
      pending_message p' @ mbo_messages (m_store x') = drop n (mbo_messages records) \<Longrightarrow>
      m_stop_future_value x' = m_stop_future_value x \<or> m_stop_future_value x' = None \<Longrightarrow>
      (quiet w \<Longrightarrow> reading p' \<Longrightarrow> m_is_streaming x') \<Longrightarrow> (quiet w \<Longrightarrow> finishing p' \<Longrightarrow> mbo_messages (m_store x') = []) \<Longrightarrow> ?thesis"
    for on w1 p' x' by (intro exI [of _ on] exI [of _ w1] exI [of _ n] exI [of _ p'] conjI) (use go [of w1 p' x' on] in blast)+
  show ?thesis
  proof (cases p)
    case Begin_Stream
    with ms show ?thesis
      by (intro at [where x' = "x\<lparr>m_is_streaming := True\<rparr>" and p' = Reset_Future and on = True])
        (simp_all add: stream_step_def w xa points ts)
  next
    case Reset_Future
    with ms q show ?thesis
      by (intro at [where x' = "x\<lparr>m_stop_future_value := None\<rparr>" and p' = Next_Record and on = True])
        (simp_all add: stream_step_def w xa points ts)
  next
    case (Woken m)
    with ms q show ?thesis
      by (intro at [where x' = x and p' = "Call_Back m" and on = True]) (simp_all add: stream_step_def w points same ts)
  next
    case End_Stream
    with ms q show ?thesis
      by (intro at [where x' = "x\<lparr>m_is_streaming := False\<rparr>" and p' = Notify_Stop and on = True])
        (simp_all add: stream_step_def w xa points ts)
  next
    case Next_Record
    have step: "stream_step env us 0 w = next_record env 0 a x w" by (simp add: stream_step_def w xa Next_Record)
    show ?thesis
    proof (cases "\<not> m_is_streaming x \<or> m_store x = []")
      case True
      with q Next_Record have e: "quiet w \<Longrightarrow> mbo_messages (m_store x) = []" by (auto simp: points)
      from True have "next_record env 0 a x w = Inr (True, at_point 0 End_Stream w)" by (auto simp: next_record_def)
      with ms e Next_Record show ?thesis
        by (intro at [where x' = x and p' = End_Stream and on = True]) (simp_all add: step points same ts)
    next
      case False
      then obtain rec rest where rs: "m_is_streaming x" "m_store x = rec # rest" by (cases "m_store x") auto
      let ?x = "x\<lparr>m_store := rest\<rparr>"
      show ?thesis
      proof (cases rec)
        case None
        have "at_point 0 Next_Record (put_wrapper a ?x w) = put_wrapper a ?x w"
          using w Next_Record by (simp add: at_point_def put_wrapper_def)
        with rs None ms Next_Record show ?thesis
          by (intro at [where x' = ?x and p' = Next_Record and on = True]) (simp_all add: step next_record_def points ts)
      next
        case (Some m)
        show ?thesis
        proof (cases "0 < msg_ts_in_delta m \<and> double_positive (arith env) (m_speed x)")
          case True
          moreover have "speed_of env body (m_speed x)" using pc w by (simp add: paced_def)
          moreover have "m \<in> set (drop n (mbo_messages records))" using ms rs Some by simp
          then have "m \<in> set (mbo_messages records)" by (rule in_set_dropD)
          ultimately obtain ns where "quotient_ns (arith env) (msg_ts_in_delta m) (m_speed x) = Some ns"
            using s unfolding stream_setting_def by blast
          with rs Some ms Next_Record True show ?thesis
            by (intro at [where x' = ?x and p' = "Sleeping (nat (ns mod 2 ^ 64)) m" and on = False])
              (simp_all add: step next_record_def points ts)
        next
          case False
          with rs Some have "next_record env 0 a x w = Inr (True, at_point 0 (Call_Back m) (put_wrapper a ?x w))"
            by (auto simp: next_record_def Let_def)
          with rs Some ms Next_Record show ?thesis
            by (intro at [where x' = ?x and p' = "Call_Back m" and on = True]) (simp_all add: step points ts)
        qed
      qed
    qed
  next
    case (Call_Back m)
    then have "drop n (mbo_messages records) = m # mbo_messages (m_store x)" using ms by simp
    from book_after_next [OF s ob this] obtain ob' where ob': "apply_msg ob m = Inr ob'" "book_after ob0 (mbo_messages records) (n + 1) ob'"
      "drop (n + 1) (mbo_messages records) = mbo_messages (m_store x)" by blast
    have "length (mbo_messages records) < 2147483648" "n + 1 \<le> length (mbo_messages records)"
      using s ob'(2) by (simp_all add: stream_setting_def book_after_def)
    then have c: "count_mbo_msgs w \<noteq> 2147483647" using w by simp
    let ?w = "w\<lparr>order_books := (order_books w)(b \<mapsto> ob'), apply_stats := add_sample (apply_stats w) us, count_mbo_msgs := count_mbo_msgs w + 1\<rparr>"
    have step: "stream_step env us 0 w = Inr (True, at_point 0 Next_Record ?w)"
      using w c ob' Call_Back by (simp add: stream_step_def stream_callback_def)
    have so': "stop_ok Next_Record x (at_point 0 Next_Record ?w\<lparr>gateway_runs := r\<rparr>)" for r
      using so np by (simp add: stop_ok_def)
    have "streaming records ob0 (n + 1) Next_Record (at_point 0 Next_Record ?w\<lparr>gateway_runs := Some 0\<rparr>)"
      by (rule streamingI [where x = x, OF _ _ _ _ _ _ _ _ ob'(2)])
        (use w ts ob' so' q Call_Back in \<open>simp_all add: points quiet_def ts\<close>)
    with step show ?thesis
      by (intro exI [of _ True] exI [of _ "at_point 0 Next_Record ?w"] exI [of _ "n + 1"] exI [of _ Next_Record]) simp
  next
    case Notify_Stop
    have n: "\<exists>w1. notify_stop 0 x w = Inr w1 \<and> (\<exists>fs. w1 = at_point 0 Stream_Ended (w\<lparr>stop_futures := fs\<rparr>) \<and> dom (stop_futures w) \<subseteq> dom fs \<and>
      (\<forall>f \<in> set (snapshot_tasks (gateway w)). fs f = stop_futures w f))"
    proof (cases "m_stop_future_value x")
      case None
      then show ?thesis by (auto simp: notify_stop_def intro: exI [of _ "stop_futures w"])
    next
      case (Some f)
      with so np have "stop_futures w f = Some None" "f \<notin> set (snapshot_tasks (gateway w))" by (simp_all add: stop_ok_def)
      with Some show ?thesis by (auto simp: notify_stop_def intro!: exI [of _ "(stop_futures w)(f \<mapsto> Some (of_bool_json True))"])
    qed
    then obtain fs where fs: "notify_stop 0 x w = Inr (at_point 0 Stream_Ended (w\<lparr>stop_futures := fs\<rparr>))" "dom (stop_futures w) \<subseteq> dom fs"
      "\<forall>f \<in> set (snapshot_tasks (gateway w)). fs f = stop_futures w f" by blast
    let ?w = "at_point 0 Stream_Ended (w\<lparr>stop_futures := fs\<rparr>)"
    have "streaming records ob0 n Stream_Ended (?w\<lparr>gateway_runs := None\<rparr>)"
      by (rule streamingI [where x = x, OF _ _ _ _ _ _ _ _ ob])
        (use w ts ms q Notify_Stop in \<open>simp_all add: points quiet_def ts stop_ok_def\<close>)
    moreover have "stream_step env us 0 w = Inr (False, ?w)" using Notify_Stop w xa fs by (simp add: stream_step_def)
    ultimately show ?thesis using fs
      by (intro exI [of _ False] exI [of _ ?w] exI [of _ n] exI [of _ Stream_Ended]) simp
  qed (use np in simp_all)
qed

lemma gateway_inv:
  assumes s: "stream_setting env body records ob0" and pc: "paced env body w" and inv: "stream_inv records ob0 w"
  shows "\<exists>w'. gateway_step env us w = Inr w' \<and> stream_inv records ob0 w'"
proof (cases "gateway_runs w")
  case (Some i)
  with inv obtain n p where st: "streaming records ob0 n p w" by (auto simp: stream_inv_def idle_def launching_def)
  then have i: "i = 0" using Some by (auto simp: streaming_def placed_def split: stream_point.splits)
  from stream_advance [OF s pc st] Some i obtain on w1 n' p' where a: "stream_step env us 0 w = Inr (on, w1)"
    "streaming records ob0 n' p' (w1\<lparr>gateway_runs := (if on then Some 0 else None)\<rparr>)" "calls w1 = calls w" "next_id w1 = next_id w"
    "m_dbn_wrapper w1 = m_dbn_wrapper w" "gateway w1 = gateway w" "dom (stop_futures w) \<subseteq> dom (stop_futures w1)"
    "\<forall>f \<in> set (snapshot_tasks (gateway w)). stop_futures w1 f = stop_futures w f" by blast
  let ?w = "w1\<lparr>gateway_runs := (if on then Some 0 else None)\<rparr>"
  have "calls_ok w" "tasks_ok w" using inv by (simp_all add: stream_inv_def)
  then have "calls_ok ?w" "tasks_ok ?w" using a by (auto intro: calls_ok_cong tasks_ok_cong)
  with a Some i show ?thesis by (auto simp: gateway_step_def stream_inv_def)
next
  case None
  show ?thesis
  proof (cases "gateway w")
    case Nil
    with None inv show ?thesis by (simp add: gateway_step_def)
  next
    case (Cons t ts)
    let ?w = "w\<lparr>gateway := ts\<rparr>"
    have c: "calls_ok w" and t: "tasks_ok w" using inv by (simp_all add: stream_inv_def)
    have c': "calls_ok ?w" by (rule calls_ok_cong [OF c]) simp_all
    show ?thesis
    proof (cases t)
      case (Snapshot_Task f)
      with snapshot_inv [OF s inv, where f = f and ts = ts and ms = us] Cons None show ?thesis by (simp add: gateway_step_def)
    next
      case (Launch_Task speed)
      have "\<not> placed p (Launch_Task speed # xs) r" for p xs r by (cases p) (simp_all add: placed_def)
      with inv Cons Launch_Task have l: "launching records ob0 w" by (auto simp: stream_inv_def idle_def streaming_def)
      then obtain a b x v where w: "m_dbn_wrapper w = Some a" "m_order_book w = Some b" "wrappers w a = Some x"
        "order_books w b = Some ob0" "m_store x = records" "m_stop_future_value x = None" "streams w = []"
        "call_at (calls w ! 0) = Answered v" "stream_tasks ts = []" using Cons Launch_Task by (auto simp: launching_def)
      let ?w1 = "(put_wrapper a (set_speed speed x) ?w)\<lparr>apply_stats := clear_samples (apply_stats w), count_mbo_msgs := 0,
         streams := [\<lparr>of_wrapper = a, into_book = Some b, stream_at = Begin_Stream\<rparr>], gateway := ts @ [Stream_Task 0]\<rparr>"
      have "gateway_step env us w = Inr ?w1" using None Cons Launch_Task w by (simp add: gateway_step_def start_streaming_def wrapper_at_def)
      moreover have "calls_ok ?w1" by (rule calls_ok_cong [OF c]) simp_all
      moreover have "tasks_ok ?w1" using t Cons Launch_Task by (simp add: tasks_ok_def)
      moreover have "streaming records ob0 0 Begin_Stream ?w1"
        by (rule streamingI [where x = "set_speed speed x"])
          (use w None in \<open>simp_all add: set_speed_def points book_after_def apply_all_def stop_ok_def\<close>)
      ultimately show ?thesis by (auto simp: stream_inv_def)
    next
      case (Stream_Task i)
      with inv Cons have "\<not> idle w" "\<not> launching records ob0 w" by (auto simp: idle_def launching_def)
      with inv obtain n p where st: "streaming records ob0 n p w" by (auto simp: stream_inv_def)
      then have pl: "placed p (Stream_Task i # stream_tasks ts) None" using Cons Stream_Task None by (auto simp: streaming_def)
      then have i: "i = 0" "stream_tasks ts = []" by (auto simp: placed_def split: stream_point.splits)
      let ?w1 = "?w\<lparr>gateway_runs := Some i\<rparr>"
      have "stop_ok p x w \<Longrightarrow> stop_ok p x ?w1" for x using Cons Stream_Task by (simp add: stop_ok_def)
      moreover have "quiet ?w1 = quiet w" by (simp add: quiet_def)
      moreover have "placed p [] (Some 0)" using pl by (auto simp: placed_def split: stream_point.splits)
      ultimately have "streaming records ob0 n p ?w1" using st i by (auto simp: streaming_def)
      moreover have "calls_ok ?w1" by (rule calls_ok_cong [OF c]) simp_all
      moreover have "tasks_ok ?w1" using t Cons Stream_Task by (simp add: tasks_ok_def)
      moreover have "gateway_step env us w = Inr ?w1" using None Cons Stream_Task by (simp add: gateway_step_def)
      ultimately show ?thesis by (auto simp: stream_inv_def)
    qed
  qed
qed

lemma timer_inv:
  assumes inv: "stream_inv records ob0 w"
  shows "stream_inv records ob0 (timer_step i w)"
proof (cases "timer_step i w = w")
  case False
  then obtain ns m where i: "i < length (streams w)" "stream_at (streams w ! i) = Sleeping ns m"
    and e: "timer_step i w = (at_point i (Woken m) w)\<lparr>gateway := gateway w @ [Stream_Task i]\<rparr>"
    by (auto simp: timer_step_def split: stream_point.splits if_splits)
  then have "\<not> idle w" "\<not> launching records ob0 w" by (auto simp: idle_def launching_def)
  with inv obtain n p where st: "streaming records ob0 n p w" by (auto simp: stream_inv_def)
  with i have p: "p = Sleeping ns m" and i0: "i = 0" by (auto simp: streaming_def)
  let ?w = "(at_point 0 (Woken m) w)\<lparr>gateway := gateway w @ [Stream_Task 0]\<rparr>"
  have "calls_ok w" "tasks_ok w" using inv by (simp_all add: stream_inv_def)
  then have "calls_ok ?w" "tasks_ok ?w" by (auto simp: tasks_ok_def intro: calls_ok_cong)
  moreover have "stop_ok p x w \<Longrightarrow> stop_ok (Woken m) x ?w" for x by (simp add: stop_ok_def p)
  then have "streaming records ob0 n (Woken m) ?w"
    using st p by (auto simp: streaming_def points quiet_def)
  moreover have "timer_step i w = ?w" using e i0 by simp
  ultimately show ?thesis by (auto simp: stream_inv_def)
qed (use inv in simp)

subsection \<open>The I/O thread keeps it\<close>

lemma calls_ok_update:
  assumes c: "calls_ok w" and h: "h < length (calls w)" "calls w' = (calls w)[h := c']" "request c' = request (calls w ! h)"
    and m: "m_dbn_wrapper w' = m_dbn_wrapper w" "next_id w \<le> next_id w'"
    and o: "\<And>f. stop_futures w f \<noteq> None \<Longrightarrow> awaits (calls w ! h) \<noteq> Some f \<Longrightarrow> stop_futures w' f \<noteq> None"
    and k: "0 < h \<Longrightarrow> handler_ok (m_dbn_wrapper w) c'"
    and a: "\<And>f. awaits c' = Some f \<Longrightarrow> f < next_id w' \<and> stop_futures w' f \<noteq> None \<and> (awaits (calls w ! h) = Some f \<or> next_id w \<le> f)"
  shows "calls_ok w'"
proof -
  have at: "calls w' ! j = (if j = h then c' else calls w ! j)" if "j < length (calls w)" for j using h that by (simp add: nth_list_update)
  have len: "length (calls w') = length (calls w)" using h by simp
  have old: "f < next_id w \<and> stop_futures w f \<noteq> None" if "j < length (calls w)" "awaits (calls w ! j) = Some f" for j f
    using c that unfolding calls_ok_def by blast
  have inj: "j = j'" if "j < length (calls w)" "j' < length (calls w)" "awaits (calls w ! j) = Some f" "awaits (calls w ! j') = Some f" for j j' f
    using c that unfolding calls_ok_def by blast
  have new: "f < next_id w' \<and> stop_futures w' f \<noteq> None" if "j < length (calls w)" "awaits (calls w' ! j) = Some f" for j f
  proof (cases "j = h")
    case True
    with that at a show ?thesis by simp
  next
    case False
    with that at have j: "awaits (calls w ! j) = Some f" by simp
    with inj [OF that(1) h(1) j] False have "awaits (calls w ! h) \<noteq> Some f" by blast
    with old [OF that(1) j] o m(2) show ?thesis by (meson order_less_le_trans)
  qed
  have inj': "j = j'" if "j < length (calls w)" "j' < length (calls w)" "awaits (calls w' ! j) = Some f" "awaits (calls w' ! j') = Some f" for j j' f
  proof (rule ccontr)
    assume ne: "j \<noteq> j'"
    have "False" if "i < length (calls w)" "i \<noteq> h" "awaits (calls w ! i) = Some f" "awaits c' = Some f" for i
      using a [OF that(4)] old [OF that(1,3)] inj [OF that(1) h(1) that(3)] that(2) by auto
    with ne that at inj show False by (metis h(1))
  qed
  have "request (calls w' ! j) = request (calls w ! j)" if "j < length (calls w)" for j using at [OF that] h(3) by simp
  moreover have "handler_ok (m_dbn_wrapper w') (calls w' ! j)" if "0 < j" "j < length (calls w)" for j
    using that at k m(1) c unfolding calls_ok_def by auto
  moreover have "calls w \<noteq> []" using h(1) by auto
  ultimately show ?thesis using c new inj' len unfolding calls_ok_def by auto
qed

lemma calls_ok_wrapper:
  "calls_ok w \<Longrightarrow> m_dbn_wrapper w = None \<Longrightarrow> calls w' = calls w \<Longrightarrow> next_id w \<le> next_id w' \<Longrightarrow> stop_futures w' = stop_futures w \<Longrightarrow>
     calls_ok w'"
proof -
  assume c: "calls_ok w" "m_dbn_wrapper w = None" and w': "calls w' = calls w" "next_id w \<le> next_id w'" "stop_futures w' = stop_futures w"
  have "handler_ok None x \<Longrightarrow> handler_ok (m_dbn_wrapper w') x" for x :: "'a api_call"
    by (auto simp: handler_ok_def split: handler_point.splits)
  moreover have "f < next_id w \<Longrightarrow> f < next_id w'" for f using w'(2) by linarith
  ultimately show ?thesis using c w' unfolding calls_ok_def by metis
qed

lemma tasks_ok_keep:
  "tasks_ok w \<Longrightarrow> gateway w' = gateway w \<Longrightarrow> next_id w \<le> next_id w' \<Longrightarrow>
     \<forall>f. f < next_id w \<and> stop_futures w f = Some None \<longrightarrow> stop_futures w' f = Some None \<Longrightarrow> tasks_ok w'"
  unfolding tasks_ok_def by fastforce

text \<open>What a step of a handler other than the first must leave alone.\<close>

lemma idle_cong:
  "idle w \<Longrightarrow> calls w' ! 0 = calls w ! 0 \<Longrightarrow> m_dbn_wrapper w' = m_dbn_wrapper w \<Longrightarrow> m_order_book w' = m_order_book w \<Longrightarrow>
     streams w' = streams w \<Longrightarrow> gateway_runs w' = gateway_runs w \<Longrightarrow> stream_tasks (gateway w') = stream_tasks (gateway w) \<Longrightarrow> idle w'"
  by (simp add: idle_def)

lemma launching_cong:
  "launching records ob0 w \<Longrightarrow> calls w' ! 0 = calls w ! 0 \<Longrightarrow> m_dbn_wrapper w' = m_dbn_wrapper w \<Longrightarrow> m_order_book w' = m_order_book w \<Longrightarrow>
     streams w' = streams w \<Longrightarrow> gateway_runs w' = gateway_runs w \<Longrightarrow> stream_tasks (gateway w') = stream_tasks (gateway w) \<Longrightarrow>
     wrappers w' = wrappers w \<Longrightarrow> order_books w' = order_books w \<Longrightarrow> \<forall>h < length (calls w'). \<not> stopping (calls w' ! h) \<Longrightarrow>
     launching records ob0 w'"
  by (simp add: launching_def)

lemma streaming_cong:
  assumes "streaming records ob0 n p w" "calls w' ! 0 = calls w ! 0" "m_dbn_wrapper w' = m_dbn_wrapper w" "m_order_book w' = m_order_book w"
    and "streams w' = streams w" "gateway_runs w' = gateway_runs w" "stream_tasks (gateway w') = stream_tasks (gateway w)"
    and "order_books w' = order_books w" "count_mbo_msgs w' = count_mbo_msgs w"
    and x: "\<And>a x. m_dbn_wrapper w = Some a \<Longrightarrow> wrappers w a = Some x \<Longrightarrow> stop_ok p x w \<Longrightarrow>
      \<exists>x'. wrappers w' a = Some x' \<and> m_store x' = m_store x \<and> stop_ok p x' w' \<and> (quiet w' \<longrightarrow> quiet w \<and> m_is_streaming x' = m_is_streaming x)"
  shows "streaming records ob0 n p w'"
proof -
  from assms(1) obtain v a b x ob where w: "call_at (calls w ! 0) = Answered v" "count_mbo_msgs w = int n"
    "m_dbn_wrapper w = Some a" "m_order_book w = Some b" "wrappers w a = Some x" "order_books w b = Some ob"
    "streams w = [\<lparr>of_wrapper = a, into_book = Some b, stream_at = p\<rparr>]" "book_after ob0 (mbo_messages records) n ob"
    "drop n (mbo_messages records) = pending_message p @ mbo_messages (m_store x)" "stop_ok p x w"
    "quiet w \<Longrightarrow> reading p \<Longrightarrow> m_is_streaming x" "quiet w \<Longrightarrow> finishing p \<Longrightarrow> mbo_messages (m_store x) = []"
    "placed p (stream_tasks (gateway w)) (gateway_runs w)"
    unfolding streaming_def by blast
  from x [OF w(3,5,10)] obtain x' where "wrappers w' a = Some x'" "m_store x' = m_store x" "stop_ok p x' w'"
    "quiet w' \<longrightarrow> quiet w \<and> m_is_streaming x' = m_is_streaming x" by blast
  with w assms(2-9) show ?thesis by (intro streamingI [where x = x']) simp_all
qed

definition phase :: "mbo_msg option list \<Rightarrow> order_book \<Rightarrow> 'd controller \<Rightarrow> bool" where
  "phase records ob0 w \<longleftrightarrow> idle w \<or> launching records ob0 w \<or> (\<exists>n p. streaming records ob0 n p w)"

lemma stream_inv_phase: "stream_inv records ob0 w \<longleftrightarrow> calls_ok w \<and> tasks_ok w \<and> phase records ob0 w"
  by (simp add: stream_inv_def phase_def)

lemma quiet_update: "h < length (calls w) \<Longrightarrow> calls w' = (calls w)[h := c'] \<Longrightarrow> request c' = request (calls w ! h) \<Longrightarrow> quiet w' = quiet w"
  by (auto simp: quiet_def nth_list_update)

lemma phase_same_wrappers:
  assumes ph: "phase records ob0 w" and h: "0 < h" "h < length (calls w)" "calls w' = (calls w)[h := c']" "request c' = request (calls w ! h)"
    and e: "m_dbn_wrapper w' = m_dbn_wrapper w" "m_order_book w' = m_order_book w" "streams w' = streams w" "gateway_runs w' = gateway_runs w"
      "stream_tasks (gateway w') = stream_tasks (gateway w)" "order_books w' = order_books w" "count_mbo_msgs w' = count_mbo_msgs w"
      "wrappers w' = wrappers w" "next_id w \<le> next_id w'"
    and f: "\<And>f. f < next_id w \<Longrightarrow> stop_futures w f = Some None \<Longrightarrow> f \<notin> set (snapshot_tasks (gateway w)) \<Longrightarrow>
      stop_futures w' f = Some None \<and> f \<notin> set (snapshot_tasks (gateway w'))"
    and st: "stopping c' \<Longrightarrow> \<not> launching records ob0 w"
  shows "phase records ob0 w'"
proof -
  have c0: "calls w' ! 0 = calls w ! 0" using h by simp
  have q: "quiet w' = quiet w" by (rule quiet_update [OF h(2-4)])
  have "idle w \<Longrightarrow> idle w'" using idle_cong c0 e(1-5) by blast
  moreover have "launching records ob0 w'" if l: "launching records ob0 w"
  proof (rule launching_cong [OF l c0 e(1-5,8,6)])
    have "\<not> stopping c'" using st l by blast
    with l h show "\<forall>j < length (calls w'). \<not> stopping (calls w' ! j)" by (auto simp: launching_def nth_list_update)
  qed
  moreover have "streaming records ob0 n p w'" if s: "streaming records ob0 n p w" for n p
  proof (rule streaming_cong [OF s c0 e(1-7)])
    fix a x assume x: "wrappers w a = Some x" "stop_ok p x w"
    have "stop_ok p x w'" using x(2) f e(9) unfolding stop_ok_def by (auto dest: order_less_le_trans)
    with x(1) e(8) q show "\<exists>x'. wrappers w' a = Some x' \<and> m_store x' = m_store x \<and> stop_ok p x' w' \<and>
        (quiet w' \<longrightarrow> quiet w \<and> m_is_streaming x' = m_is_streaming x)" by auto
  qed
  ultimately show ?thesis using ph unfolding phase_def by blast
qed

lemma phase_stopping:
  assumes ph: "phase records ob0 w" and h: "0 < h" "h < length (calls w)" "calls w' = (calls w)[h := c']" "request c' = request (calls w ! h)"
    and sp: "stopping (calls w ! h)" and c: "calls_ok w"
    and e: "m_dbn_wrapper w' = m_dbn_wrapper w" "m_order_book w' = m_order_book w" "streams w' = streams w" "gateway_runs w' = gateway_runs w"
      "stream_tasks (gateway w') = stream_tasks (gateway w)" "order_books w' = order_books w" "count_mbo_msgs w' = count_mbo_msgs w"
    and x: "\<And>a x p. m_dbn_wrapper w = Some a \<Longrightarrow> wrappers w a = Some x \<Longrightarrow> stop_ok p x w \<Longrightarrow>
      \<exists>x'. wrappers w' a = Some x' \<and> m_store x' = m_store x \<and> stop_ok p x' w'"
  shows "phase records ob0 w'"
proof -
  have ok: "handler_ok (m_dbn_wrapper w) (calls w ! h)" using c h unfolding calls_ok_def by blast
  then have "request (calls w ! h) = Stop_Streaming" "m_dbn_wrapper w \<noteq> None"
    using sp by (auto simp: handler_ok_def stopping_def split: handler_point.splits)
  then have q: "\<not> quiet w" "\<not> idle w" using h(2) by (auto simp: quiet_def idle_def)
  have "\<not> launching records ob0 w" using sp h(2) by (auto simp: launching_def)
  with q ph obtain n p where s: "streaming records ob0 n p w" by (auto simp: phase_def)
  have c0: "calls w' ! 0 = calls w ! 0" using h by simp
  have q': "\<not> quiet w'" using quiet_update [OF h(2-4)] q by simp
  have "streaming records ob0 n p w'"
    by (rule streaming_cong [OF s c0 e(1-7)]) (use x q' in blast)
  then show ?thesis by (auto simp: phase_def)
qed

lemma stream_inv_io [simp]: "stream_inv records ob0 (w\<lparr>io_runs := r\<rparr>) = stream_inv records ob0 w"
  by (simp add: stream_inv_def calls_ok_def tasks_ok_def idle_def launching_def streaming_def stop_ok_def quiet_def)

lemma call_to_fields [simp]:
  "m_dbn_wrapper (call_to h p w) = m_dbn_wrapper w" "m_order_book (call_to h p w) = m_order_book w" "streams (call_to h p w) = streams w"
  "gateway_runs (call_to h p w) = gateway_runs w" "gateway (call_to h p w) = gateway w" "order_books (call_to h p w) = order_books w"
  "count_mbo_msgs (call_to h p w) = count_mbo_msgs w" "wrappers (call_to h p w) = wrappers w" "next_id (call_to h p w) = next_id w"
  "stop_futures (call_to h p w) = stop_futures w" "calls (call_to h p w) = (calls w)[h := (calls w ! h)\<lparr>call_at := p\<rparr>]"
  by (simp_all add: call_to_def)

lemma new_future_fields [simp]:
  "m_dbn_wrapper (new_future f w) = m_dbn_wrapper w" "m_order_book (new_future f w) = m_order_book w" "streams (new_future f w) = streams w"
  "gateway_runs (new_future f w) = gateway_runs w" "gateway (new_future f w) = gateway w" "order_books (new_future f w) = order_books w"
  "count_mbo_msgs (new_future f w) = count_mbo_msgs w" "wrappers (new_future f w) = wrappers w" "next_id (new_future f w) = f + 1"
  "stop_futures (new_future f w) = (stop_futures w)(f \<mapsto> None)" "calls (new_future f w) = calls w"
  by (simp_all add: new_future_def)

text \<open>A step of a handler that only changes where it is.\<close>

lemma call_to_inv:
  assumes inv: "stream_inv records ob0 w" and h: "0 < h" "h < length (calls w)"
    and k: "handler_ok (m_dbn_wrapper w) ((calls w ! h)\<lparr>call_at := p\<rparr>)" "awaits ((calls w ! h)\<lparr>call_at := p\<rparr>) = None"
    and st: "stopping ((calls w ! h)\<lparr>call_at := p\<rparr>) \<Longrightarrow> \<not> launching records ob0 w"
  shows "stream_inv records ob0 (call_to h p w)"
proof -
  have c: "calls_ok w" "tasks_ok w" "phase records ob0 w" using inv by (simp_all add: stream_inv_phase)
  have "calls_ok (call_to h p w)" by (rule calls_ok_update [OF c(1) h(2), where c' = "(calls w ! h)\<lparr>call_at := p\<rparr>"]) (use k in simp_all)
  moreover have "tasks_ok (call_to h p w)" by (rule tasks_ok_keep [OF c(2)]) simp_all
  moreover have "phase records ob0 (call_to h p w)"
    by (rule phase_same_wrappers [OF c(3) h, where c' = "(calls w ! h)\<lparr>call_at := p\<rparr>"]) (use st in simp_all)
  ultimately show ?thesis by (simp add: stream_inv_phase)
qed

lemma live_wrapper: "stream_inv records ob0 w \<Longrightarrow> m_dbn_wrapper w = Some a \<Longrightarrow>
    \<exists>x. wrappers w a = Some x \<and> (m_is_streaming x \<longrightarrow> \<not> launching records ob0 w)"
  by (auto simp: stream_inv_def idle_def launching_def streaming_def)

lemma fresh_unasked: "tasks_ok w \<Longrightarrow> next_id w \<notin> set (snapshot_tasks (gateway w))"
  by (auto simp: tasks_ok_def)

lemma ask_snapshot_inv:
  assumes inv: "stream_inv records ob0 w" and h: "0 < h" "h < length (calls w)" "awaits (calls w ! h) = None"
  shows "stream_inv records ob0 (call_to h (Wait_Future (next_id w))
    ((new_future (next_id w) w)\<lparr>gateway := gateway w @ [Snapshot_Task (next_id w)]\<rparr>))" (is "stream_inv records ob0 ?w")
proof -
  have c: "calls_ok w" "tasks_ok w" "phase records ob0 w" using inv by (simp_all add: stream_inv_phase)
  have "calls_ok ?w"
    by (rule calls_ok_update [OF c(1) h(2), where c' = "(calls w ! h)\<lparr>call_at := Wait_Future (next_id w)\<rparr>"])
      (simp_all add: handler_ok_def awaits_def)
  moreover have "tasks_ok ?w" using c(2) fresh_unasked [OF c(2)] by (auto simp: tasks_ok_def)
  moreover have "phase records ob0 ?w"
    by (rule phase_same_wrappers [OF c(3) h(1,2), where c' = "(calls w ! h)\<lparr>call_at := Wait_Future (next_id w)\<rparr>"])
      (auto simp: stopping_def)
  ultimately show ?thesis by (simp add: stream_inv_phase)
qed

lemma register_stop_inv:
  assumes inv: "stream_inv records ob0 w" and h: "0 < h" "h < length (calls w)" "call_at (calls w ! h) = Register_Stop a"
    and x: "wrappers w a = Some x"
  shows "stream_inv records ob0 (call_to h (Clear_Flag a (next_id w))
    (new_future (next_id w) (put_wrapper a (x\<lparr>m_stop_future_value := Some (next_id w)\<rparr>) w)))" (is "stream_inv records ob0 ?w")
proof -
  have c: "calls_ok w" "tasks_ok w" "phase records ob0 w" using inv by (simp_all add: stream_inv_phase)
  have k: "handler_ok (m_dbn_wrapper w) (calls w ! h)" using c(1) h unfolding calls_ok_def by blast
  let ?c = "(calls w ! h)\<lparr>call_at := Clear_Flag a (next_id w)\<rparr>"
  have "calls_ok ?w" by (rule calls_ok_update [OF c(1) h(2), where c' = ?c]) (use k h in \<open>simp_all add: handler_ok_def awaits_def\<close>)
  moreover have "tasks_ok ?w" by (rule tasks_ok_keep [OF c(2)]) simp_all
  moreover have "phase records ob0 ?w"
  proof (rule phase_stopping [OF c(3) h(1,2), where c' = ?c])
    fix a' x' p assume a': "m_dbn_wrapper w = Some a'" "wrappers w a' = Some x'"
    with k h have "a' = a" by (simp add: handler_ok_def)
    with a' x show "\<exists>x''. wrappers ?w a' = Some x'' \<and> m_store x'' = m_store x' \<and> stop_ok p x'' ?w"
      using fresh_unasked [OF c(2)] by (auto simp: stop_ok_def)
  qed (use h c in \<open>simp_all add: stopping_def\<close>)
  ultimately show ?thesis by (simp add: stream_inv_phase)
qed

lemma clear_flag_inv:
  assumes inv: "stream_inv records ob0 w" and h: "0 < h" "h < length (calls w)" "call_at (calls w ! h) = Clear_Flag a f"
    and x: "wrappers w a = Some x"
  shows "stream_inv records ob0 (call_to h (Wait_Future f) (put_wrapper a (x\<lparr>m_is_streaming := False\<rparr>) w))" (is "stream_inv records ob0 ?w")
proof -
  have c: "calls_ok w" "tasks_ok w" "phase records ob0 w" using inv by (simp_all add: stream_inv_phase)
  have k: "handler_ok (m_dbn_wrapper w) (calls w ! h)" using c(1) h unfolding calls_ok_def by blast
  have f: "f < next_id w" "stop_futures w f \<noteq> None" using c(1) h unfolding calls_ok_def awaits_def by fastforce+
  let ?c = "(calls w ! h)\<lparr>call_at := Wait_Future f\<rparr>"
  have "calls_ok ?w" by (rule calls_ok_update [OF c(1) h(2), where c' = ?c]) (use h f in \<open>simp_all add: handler_ok_def awaits_def\<close>)
  moreover have "tasks_ok ?w" by (rule tasks_ok_keep [OF c(2)]) simp_all
  moreover have "phase records ob0 ?w"
  proof (rule phase_stopping [OF c(3) h(1,2), where c' = ?c])
    fix a' x' p assume a': "m_dbn_wrapper w = Some a'" "wrappers w a' = Some x'" "stop_ok p x' w"
    with k h have "a' = a" by (simp add: handler_ok_def)
    with a' x show "\<exists>x''. wrappers ?w a' = Some x'' \<and> m_store x'' = m_store x' \<and> stop_ok p x'' ?w"
      by (auto simp: stop_ok_def)
  qed (use h c in \<open>simp_all add: stopping_def\<close>)
  ultimately show ?thesis by (simp add: stream_inv_phase)
qed

lemma take_future_inv:
  assumes inv: "stream_inv records ob0 w" and h: "0 < h" "h < length (calls w)" "call_at (calls w ! h) = Wait_Future f"
    and f: "stop_futures w f = Some (Some v)"
  shows "stream_inv records ob0 (call_to h (Answered r) (w\<lparr>stop_futures := (stop_futures w)(f := None)\<rparr>))" (is "stream_inv records ob0 ?w")
proof -
  have c: "calls_ok w" "tasks_ok w" "phase records ob0 w" using inv by (simp_all add: stream_inv_phase)
  let ?c = "(calls w ! h)\<lparr>call_at := Answered r\<rparr>"
  have "calls_ok ?w" by (rule calls_ok_update [OF c(1) h(2), where c' = ?c]) (use h f in \<open>auto simp: handler_ok_def awaits_def\<close>)
  moreover have "tasks_ok ?w" by (rule tasks_ok_keep [OF c(2)]) (use f in auto)
  moreover have "phase records ob0 ?w"
    by (rule phase_same_wrappers [OF c(3) h(1,2), where c' = ?c]) (use f in \<open>auto simp: stopping_def\<close>)
  ultimately show ?thesis by (simp add: stream_inv_phase)
qed

lemma later_handler_inv:
  assumes inv: "stream_inv records ob0 w" and h: "0 < h" "h < length (calls w)"
  shows "\<exists>on w1. handler_step env h w = Inr (on, w1) \<and> stream_inv records ob0 w1"
proof -
  let ?c = "calls w ! h"
  have c: "calls_ok w" using inv by (simp add: stream_inv_def)
  have k: "handler_ok (m_dbn_wrapper w) ?c" "\<not> is_start (request ?c)" using c h unfolding calls_ok_def by blast+
  have rq: "request ?c = Stop_Streaming \<or> request ?c = Get_Snapshot" using k(2) by (cases "request ?c") simp_all
  show ?thesis
  proof (cases "call_at ?c")
    case Entered
    have "stream_inv records ob0 (call_to h Stop_Check w)" if "request ?c = Stop_Streaming"
      by (rule call_to_inv [OF inv h]) (use that in \<open>simp_all add: handler_ok_def awaits_def stopping_def\<close>)
    with rq ask_snapshot_inv [OF inv h] Entered show ?thesis by (auto simp: handler_step_def stop_defs Let_def awaits_def)
  next
    case Stop_Check
    then have r: "request ?c = Stop_Streaming" using k by (simp add: handler_ok_def)
    have done1: "stream_inv records ob0 (call_to h (after_stop ?c) w)"
      by (rule call_to_inv [OF inv h]) (use r in \<open>simp_all add: handler_ok_def awaits_def stopping_def after_stop_def\<close>)
    show ?thesis
    proof (cases "m_dbn_wrapper w")
      case None
      with Stop_Check done1 show ?thesis by (auto simp: handler_step_def stop_defs)
    next
      case (Some a)
      from live_wrapper [OF inv Some] obtain x where x: "wrappers w a = Some x" "m_is_streaming x \<longrightarrow> \<not> launching records ob0 w" by blast
      have "m_is_streaming x \<Longrightarrow> stream_inv records ob0 (call_to h (Register_Stop a) w)"
        by (rule call_to_inv [OF inv h]) (use r x Some in \<open>simp_all add: handler_ok_def awaits_def\<close>)
      with Stop_Check Some x done1 show ?thesis by (cases "m_is_streaming x") (auto simp: handler_step_def stop_defs wrapper_at_def)
    qed
  next
    case (Register_Stop a)
    with k have "m_dbn_wrapper w = Some a" by (simp add: handler_ok_def)
    with live_wrapper [OF inv] obtain x where x: "wrappers w a = Some x" by blast
    with register_stop_inv [OF inv h Register_Stop x] Register_Stop show ?thesis
      by (auto simp: handler_step_def stop_defs wrapper_at_def Let_def)
  next
    case (Clear_Flag a f)
    with k have "m_dbn_wrapper w = Some a" by (simp add: handler_ok_def)
    with live_wrapper [OF inv] obtain x where x: "wrappers w a = Some x" by blast
    with clear_flag_inv [OF inv h Clear_Flag x] Clear_Flag show ?thesis by (auto simp: handler_step_def stop_defs wrapper_at_def)
  next
    case (Wait_Future f)
    then have "awaits ?c = Some f" by (simp add: awaits_def)
    then have "stop_futures w f \<noteq> None" using c h unfolding calls_ok_def by blast
    then consider "stop_futures w f = Some None" | v where "stop_futures w f = Some (Some v)" by (metis not_None_eq)
    then show ?thesis
    proof cases
      case 2
      have "\<exists>r. (case request ?c of Get_Snapshot \<Rightarrow> Answered (snapshot_ok v) | _ \<Rightarrow> after_stop ?c) = Answered r"
        using rq by (auto simp: after_stop_def)
      with take_future_inv [OF inv h Wait_Future 2] 2 Wait_Future show ?thesis by (auto simp: handler_step_def stop_defs)
    next
      case 1
      have "handler_step env h w = Inr (False, w)" using 1 Wait_Future by (simp add: handler_step_def stop_defs)
      with inv show ?thesis by blast
    qed
  next
    case (Answered v)
    then have "handler_step env h w = Inr (False, w)" by (simp add: handler_step_def stop_defs)
    with inv show ?thesis by blast
  qed (use k in \<open>simp_all add: handler_ok_def\<close>)
qed

lemma first_call_ok:
  "calls_ok w \<Longrightarrow> awaits (calls w ! 0) = None \<Longrightarrow> calls w' = (calls w)[0 := c'] \<Longrightarrow> request c' = request (calls w ! 0) \<Longrightarrow>
     awaits c' = None \<Longrightarrow> m_dbn_wrapper w' = m_dbn_wrapper w \<Longrightarrow> next_id w' = next_id w \<Longrightarrow> stop_futures w' = stop_futures w \<Longrightarrow> calls_ok w'"
  by (rule calls_ok_update [where h = 0 and c' = c']) (auto simp: calls_ok_def)

lemma first_handler_inv:
  assumes s: "stream_setting env body records ob0" and inv: "stream_inv records ob0 w"
  shows "\<exists>on w1. handler_step env 0 w = Inr (on, w1) \<and> stream_inv records ob0 w1"
proof -
  let ?c = "calls w ! 0"
  have c: "calls_ok w" and t: "tasks_ok w" and ph: "phase records ob0 w" using inv by (simp_all add: stream_inv_phase)
  then have ne: "calls w \<noteq> []" and "\<exists>body. request ?c = Start_Streaming body \<and> body \<noteq> JNone" unfolding calls_ok_def by blast+
  then obtain body where rq: "request ?c = Start_Streaming body" "body \<noteq> JNone" by blast
  show ?thesis
  proof (cases "idle w")
    case True
    then have at: "call_at ?c \<in> {Entered, Stop_Check, Initialize}" and m: "m_dbn_wrapper w = None" "m_order_book w = None"
      by (simp_all add: idle_def)
    then have aw: "awaits ?c = None" by (auto simp: awaits_def)
    have idle_at: "stream_inv records ob0 (w\<lparr>calls := (calls w)[0 := ?c\<lparr>call_speed := v, call_at := p\<rparr>]\<rparr>)"
      if "p \<in> {Entered, Stop_Check, Initialize}" for v p
    proof -
      let ?w = "w\<lparr>calls := (calls w)[0 := ?c\<lparr>call_speed := v, call_at := p\<rparr>]\<rparr>"
      have "calls_ok ?w" by (rule first_call_ok [OF c aw, where c' = "?c\<lparr>call_speed := v, call_at := p\<rparr>"])
          (use that in \<open>auto simp: awaits_def\<close>)
      moreover have "tasks_ok ?w" by (rule tasks_ok_keep [OF t]) simp_all
      moreover have "idle ?w" using True that ne by (simp add: idle_def)
      ultimately show ?thesis by (simp add: stream_inv_phase phase_def)
    qed
    from at consider "call_at ?c = Entered" | "call_at ?c = Stop_Check" | "call_at ?c = Initialize" by auto
    then show ?thesis
    proof cases
      case 1
      have "\<exists>b. has_field body ''speed'' = Inr b" using rq(2) by (cases body) (auto simp: has_field_def is_json_value_def)
      then obtain v where "request_speed env body = Inr v" by (auto simp: request_speed_def)
      with 1 rq idle_at [of Stop_Check v] show ?thesis by (auto simp: handler_step_def stop_defs)
    next
      case 2
      have "after_stop ?c = Initialize" using rq by (simp add: after_stop_def)
      with 2 m idle_at [of Initialize "call_speed ?c"] show ?thesis by (auto simp: handler_step_def stop_defs call_to_def)
    next
      case 3
      let ?b = "next_id w" let ?x = "new_dbn_wrapper env records"
      let ?w1 = "w\<lparr>order_books := (order_books w)(?b \<mapsto> ob0), m_order_book := Some ?b, next_id := ?b + 2,
        wrappers := (wrappers w)(?b + 1 \<mapsto> ?x), m_dbn_wrapper := Some (?b + 1), m_dbn_file_path := dbn_path\<rparr>"
      let ?w = "call_to 0 Launch ?w1"
      have "initialize env dbn_path w = Inr (True, ?w1)"
        using s m by (simp add: initialize_def stream_setting_def Let_def)
      then have step: "handler_step env 0 w = Inr (True, ?w)" using 3 by (simp add: handler_step_def stop_defs)
      have c1: "calls_ok ?w1" by (rule calls_ok_wrapper [OF c m(1)]) simp_all
      have "calls_ok ?w" by (rule first_call_ok [OF c1, where c' = "?c\<lparr>call_at := Launch\<rparr>"]) (use aw in \<open>simp_all add: awaits_def\<close>)
      moreover have "tasks_ok ?w" by (rule tasks_ok_keep [OF t]) simp_all
      moreover have "launching records ob0 ?w"
      proof -
        have "\<not> stopping (calls ?w ! h)" if "h < length (calls ?w)" for h
        proof (cases "h = 0")
          case True
          with ne show ?thesis by (simp add: stopping_def)
        next
          case False
          with that c have "handler_ok None (calls w ! h)" unfolding calls_ok_def m(1) by auto
          with False show ?thesis by (auto simp: stopping_def handler_ok_def split: handler_point.splits)
        qed
        then show ?thesis using True ne by (auto simp: launching_def idle_def new_dbn_wrapper_def)
      qed
      ultimately show ?thesis using step by (auto simp: stream_inv_phase phase_def)
    qed
  next
    case False
    note not_idle = False
    show ?thesis
    proof (cases "call_at ?c = Launch")
      case True
      then have l: "launching records ob0 w" using ph not_idle by (auto simp: phase_def streaming_def)
      let ?a = "Answered (status_ok (''Started streaming orderbook data, with [speed] = '' @ double_to_string (arith env) (call_speed ?c)))"
      let ?w = "call_to 0 ?a (w\<lparr>gateway := gateway w @ [Launch_Task (call_speed ?c)]\<rparr>)"
      have "calls_ok ?w" by (rule first_call_ok [OF c, where c' = "?c\<lparr>call_at := ?a\<rparr>"]) (use True in \<open>simp_all add: awaits_def\<close>)
      moreover have "tasks_ok ?w" using t by (simp add: tasks_ok_def)
      moreover have "launching records ob0 ?w"
        using l True ne by (auto simp: launching_def nth_list_update stopping_def)
      ultimately have "stream_inv records ob0 ?w" unfolding stream_inv_phase phase_def by blast
      moreover have "handler_step env 0 w = Inr (False, ?w)" using True by (simp add: handler_step_def stop_defs Let_def)
      ultimately show ?thesis by blast
    next
      case False
      then obtain v where "call_at ?c = Answered v" using ph not_idle by (auto simp: phase_def launching_def streaming_def)
      with inv show ?thesis by (auto simp: handler_step_def stop_defs)
    qed
  qed
qed

end
