(* ===== verification/Streaming_Run.thy ===== *)
theory Streaming_Run
  imports Streaming_Inv
begin

section \<open>Runs with one stream\<close>

text \<open>Every event other than a second request to start keeps the invariant of \<open>Streaming_Inv\<close>, and none fails.\<close>

subsection \<open>Every event\<close>

definition starts :: "'d stream_event \<Rightarrow> bool" where
  "starts e \<longleftrightarrow> (case e of Request r \<Rightarrow> is_start r | _ \<Rightarrow> False)"

lemma request_inv:
  assumes inv: "stream_inv records ob0 w" and r: "\<not> is_start r"
  shows "stream_inv records ob0 (w\<lparr>calls := calls w @ [\<lparr>request = r, call_speed = v, call_at = Entered\<rparr>]\<rparr>)" (is "stream_inv records ob0 ?w")
proof -
  have c: "calls_ok w" and t: "tasks_ok w" and ph: "phase records ob0 w" using inv by (simp_all add: stream_inv_phase)
  have ne: "calls w \<noteq> []" using c by (simp add: calls_ok_def)
  let ?c = "\<lparr>request = r, call_speed = v, call_at = Entered\<rparr>"
  have "calls_ok ?w"
    using c r ne unfolding calls_ok_def by (auto simp: nth_append less_Suc_eq awaits_def handler_ok_def)
  moreover have "tasks_ok ?w" by (rule tasks_ok_keep [OF t]) simp_all
  moreover have "idle w \<Longrightarrow> idle ?w" using ne by (simp add: idle_def nth_append)
  moreover have "launching records ob0 w \<Longrightarrow> launching records ob0 ?w"
    using ne by (auto simp: launching_def nth_append less_Suc_eq stopping_def)
  moreover have "streaming records ob0 n p ?w" if st: "streaming records ob0 n p w" for n p
  proof -
    have "request (calls w ! h) \<noteq> Stop_Streaming" if "quiet ?w" "h < length (calls w)" for h
      using that(1) [unfolded quiet_def, rule_format, of h] that(2) by (simp add: nth_append)
    then have q: "quiet ?w \<Longrightarrow> quiet w" unfolding quiet_def by blast
    have so: "stop_ok p x ?w = stop_ok p x w" for x by (simp add: stop_ok_def)
    show ?thesis by (rule streaming_cong [OF st]) (use ne q so in \<open>auto simp: nth_append\<close>)
  qed
  ultimately show ?thesis using ph by (auto simp: stream_inv_phase phase_def)
qed

text \<open>The speeds are kept by every step that succeeds.\<close>

lemma paced_cong:
  "paced env body w \<Longrightarrow> calls w' = calls w \<Longrightarrow> set (gateway w') \<subseteq> set (gateway w) \<union> range Snapshot_Task \<union> range Stream_Task \<Longrightarrow>
     (\<And>a x. wrappers w' a = Some x \<Longrightarrow> speed_of env body (m_speed x)) \<Longrightarrow> paced env body w'"
  unfolding paced_def by auto

lemma paced_call:
  assumes "paced env body w" "h < length (calls w)"
    and "calls w' = (calls w)[h := c']" "request c' = request (calls w ! h)" "speed_of env body (call_speed c')"
    and "\<And>v. Launch_Task v \<in> set (gateway w') \<Longrightarrow> speed_of env body v"
    and "\<And>a x. wrappers w' a = Some x \<Longrightarrow> speed_of env body (m_speed x)"
  shows "paced env body w'"
proof -
  have "speed_of env body (call_speed c) \<and> (\<forall>b. request c = Start_Streaming b \<longrightarrow> b = body)" if "c \<in> set (calls w')" for c
  proof -
    have "c = c' \<or> c \<in> set (calls w)" using that assms(3) set_update_subset_insert [of "calls w" h c'] by auto
    then show ?thesis using assms(1,4,5) nth_mem [OF assms(2)] unfolding paced_def by auto
  qed
  with assms(6,7) show ?thesis unfolding paced_def by blast
qed

text \<open>What a step of the streaming coroutine leaves alone.\<close>

definition same_speeds :: "'d controller \<Rightarrow> 'd controller \<Rightarrow> bool" where
  "same_speeds w w1 \<longleftrightarrow> calls w1 = calls w \<and> gateway w1 = gateway w \<and>
     (\<forall>a x. wrappers w1 a = Some x \<longrightarrow> (\<exists>x'. wrappers w a = Some x' \<and> m_speed x = m_speed x'))"

lemma same_speeds_at [simp]: "same_speeds w (at_point i p w1) = same_speeds w w1"
  by (simp add: same_speeds_def)

lemma same_speeds_put: "wrapper_at a w = Inr x \<Longrightarrow> m_speed x' = m_speed x \<Longrightarrow> same_speeds w (put_wrapper a x' w)"
  by (auto simp: same_speeds_def wrapper_at_def split: option.splits)

lemma same_speeds_refl [simp]: "same_speeds w w"
  by (simp add: same_speeds_def)

lemma stream_callback_speeds: "stream_callback us bo m w = Inr w1 \<Longrightarrow> same_speeds w w1"
  by (auto simp: stream_callback_def bindE_eq_Inr same_speeds_def split: option.splits if_splits)

lemma next_record_speeds: "wrapper_at a w = Inr x \<Longrightarrow> next_record env i a x w = Inr (on, w1) \<Longrightarrow> same_speeds w w1"
  by (auto simp: next_record_def Let_def same_speeds_put split: list.splits option.splits if_splits)

lemma notify_stop_speeds: "notify_stop i x w = Inr w1 \<Longrightarrow> same_speeds w w1"
  by (auto simp: notify_stop_def split: option.splits) (simp add: same_speeds_def)

lemma stream_step_speeds: "stream_step env us i w = Inr (on, w1) \<Longrightarrow> same_speeds w w1"
  by (auto simp: stream_step_def Let_def bindE_eq_Inr same_speeds_put stream_callback_speeds notify_stop_speeds
    split: stream_point.splits dest: next_record_speeds)

lemma same_speeds_paced: "paced env body w \<Longrightarrow> same_speeds w w1 \<Longrightarrow> paced env body w1"
  unfolding paced_def same_speeds_def by metis

lemma set_future_speeds: "set_future f v w = Inr w1 \<Longrightarrow> same_speeds w w1"
  by (auto simp: set_future_def same_speeds_def split: option.splits)

lemma snapshot_speeds: "get_orderbook_snapshot_async env ms f w = Inr w1 \<Longrightarrow> same_speeds w w1"
  by (auto simp: get_orderbook_snapshot_async_def Let_def bindE_eq_Inr split: option.splits dest!: set_future_speeds)
    (simp_all add: same_speeds_def)

lemma start_streaming_paced:
  assumes pc: "paced env body w" and v: "speed_of env body v" and "start_streaming v w = Inr w1"
  shows "paced env body w1"
  using assms(3) by (auto simp: start_streaming_def bindE_eq_Inr wrapper_at_def set_speed_def v split: option.splits
    intro!: paced_cong [OF pc]) (use pc v in \<open>auto simp: paced_def split: if_splits\<close>)

lemma paced_gateway: "paced env body w \<Longrightarrow> gateway w = t # ts \<Longrightarrow> paced env body (w\<lparr>gateway := ts\<rparr>)"
  by (auto simp: paced_def)

lemma paced_runs: "paced env body (w\<lparr>gateway_runs := r\<rparr>) = paced env body w" "paced env body (w\<lparr>io_runs := r\<rparr>) = paced env body w"
  by (simp_all add: paced_def)

lemma gateway_paced:
  assumes pc: "paced env body w" and st: "gateway_step env us w = Inr w1"
  shows "paced env body w1"
proof (cases "gateway_runs w")
  case (Some i)
  with st show ?thesis
    by (auto simp: gateway_step_def bindE_eq_Inr paced_runs intro: same_speeds_paced [OF pc stream_step_speeds])
next
  case None
  show ?thesis
  proof (cases "gateway w")
    case Nil
    with None st pc show ?thesis by (simp add: gateway_step_def)
  next
    case (Cons t ts)
    note pg = paced_gateway [OF pc Cons]
    show ?thesis
    proof (cases t)
      case (Launch_Task v)
      with pc Cons have "speed_of env body v" by (simp add: paced_def)
      with start_streaming_paced [OF pg] Launch_Task st None Cons show ?thesis by (simp add: gateway_step_def)
    next
      case (Snapshot_Task f)
      with st None Cons have "get_orderbook_snapshot_async env us f (w\<lparr>gateway := ts\<rparr>) = Inr w1" by (simp add: gateway_step_def)
      from same_speeds_paced [OF pg snapshot_speeds [OF this]] show ?thesis .
    next
      case (Stream_Task i)
      with st None Cons pg show ?thesis by (auto simp: gateway_step_def paced_runs)
    qed
  qed
qed

lemma timer_paced: "paced env body w \<Longrightarrow> paced env body (timer_step i w)"
  by (auto simp: timer_step_def paced_def at_point_def split: stream_point.splits)

text \<open>The handlers.\<close>

lemma paced_call_to:
  assumes pc: "paced env body w" and h: "h < length (calls w)" and "calls w' = calls w" "gateway w' = gateway w"
    and "\<And>a x. wrappers w' a = Some x \<Longrightarrow> speed_of env body (m_speed x)"
  shows "paced env body (call_to h p w')"
  by (rule paced_call [OF pc h, where c' = "(calls w ! h)\<lparr>call_at := p\<rparr>"])
    (use assms nth_mem [OF h] in \<open>auto simp: call_to_def paced_def\<close>)

lemma paced_wrapper: "paced env body w \<Longrightarrow> wrappers w a = Some x \<Longrightarrow> speed_of env body (m_speed x)"
  by (simp add: paced_def)

lemma paced_call_speed: "paced env body w \<Longrightarrow> h < length (calls w) \<Longrightarrow> speed_of env body (call_speed (calls w ! h))"
  by (simp add: paced_def)

lemma paced_request: "paced env body w \<Longrightarrow> h < length (calls w) \<Longrightarrow> request (calls w ! h) = Start_Streaming b \<Longrightarrow> b = body"
  using nth_mem [of h "calls w"] unfolding paced_def by blast

lemma initialize_speeds:
  assumes "paced env body w" "initialize env path w = Inr (on, w1)"
  shows "calls w1 = calls w" "gateway w1 = gateway w" "\<And>a x. wrappers w1 a = Some x \<Longrightarrow> speed_of env body (m_speed x)"
  using assms(2) by (auto simp: initialize_def bindE_eq_Inr Let_def new_dbn_wrapper_def speed_of_def
    dest!: paced_wrapper [OF assms(1)] split: option.splits if_splits)

lemma handler_paced:
  assumes pc: "paced env body w" and h: "h < length (calls w)" and st: "handler_step env h w = Inr (on, w1)"
  shows "paced env body w1"
proof -
  note pw = paced_wrapper [OF pc]
  show ?thesis
  proof (cases "call_at (calls w ! h)")
    case Entered
    show ?thesis
    proof (cases "request (calls w ! h)")
      case (Start_Streaming b)
      then have "b = body" by (rule paced_request [OF pc h])
      with st Entered Start_Streaming obtain v where v: "request_speed env body = Inr v"
        "w1 = w\<lparr>calls := (calls w)[h := (calls w ! h)\<lparr>call_speed := v, call_at := Stop_Check\<rparr>]\<rparr>"
        by (auto simp: handler_step_def stop_defs bindE_eq_Inr)
      show ?thesis
        by (rule paced_call [OF pc h, where c' = "(calls w ! h)\<lparr>call_speed := v, call_at := Stop_Check\<rparr>"])
          (use v pc in \<open>auto simp: speed_of_def paced_def\<close>)
    next
      case Stop_Streaming
      have "paced env body (call_to h Stop_Check w)" by (rule paced_call_to [OF pc h _ _ pw]) simp_all
      with st Entered Stop_Streaming show ?thesis by (simp add: handler_step_def stop_defs Let_def)
    next
      case Get_Snapshot
      let ?f = "next_id w" let ?w = "w\<lparr>stop_futures := (stop_futures w)(next_id w \<mapsto> None), next_id := next_id w + 1, gateway := gateway w @ [Snapshot_Task (next_id w)]\<rparr>"
      have "paced env body ?w" by (rule paced_cong [OF pc]) (use pw in auto)
      moreover have "w1 = call_to h (Wait_Future ?f) ?w" using st Entered Get_Snapshot by (simp add: handler_step_def stop_defs new_future_def Let_def)
      ultimately show ?thesis using h paced_wrapper [of env body ?w] by (auto intro!: paced_call_to [of env body ?w])
    qed
  next
    case Stop_Check
    have keep: "paced env body (call_to h p w)" for p by (rule paced_call_to [OF pc h _ _ pw]) simp_all
    from st Stop_Check keep show ?thesis
      by (auto simp: handler_step_def stop_defs Let_def bindE_eq_Inr split: option.splits if_splits)
  next
    case (Register_Stop a)
    with st show ?thesis
      by (auto simp: handler_step_def stop_defs bindE_eq_Inr Let_def new_future_def wrapper_at_def split: option.splits
        intro!: paced_call_to [OF pc h] dest: pw) (auto split: if_splits dest: pw)
  next
    case (Clear_Flag a f)
    with st show ?thesis
      by (auto simp: handler_step_def stop_defs bindE_eq_Inr Let_def wrapper_at_def split: option.splits
        intro!: paced_call_to [OF pc h] dest: pw) (auto split: if_splits dest: pw)
  next
    case (Wait_Future f)
    with st pc show ?thesis
      by (auto simp: handler_step_def stop_defs Let_def split: option.splits intro!: paced_call_to [OF pc h] dest: pw)
  next
    case Initialize
    with st obtain w2 where "initialize env dbn_path w = Inr (True, w2)" "w1 = call_to h Launch w2"
      by (auto simp: handler_step_def stop_defs bindE_eq_Inr split: if_splits)
    with initialize_speeds [OF pc] show ?thesis by (auto intro!: paced_call_to [OF pc h])
  next
    case Launch
    let ?v = "call_speed (calls w ! h)" let ?w = "w\<lparr>gateway := gateway w @ [Launch_Task ?v]\<rparr>"
    have "paced env body ?w" using pc paced_call_speed [OF pc h] by (auto simp: paced_def)
    then have "paced env body (call_to h p ?w)" for p by (rule paced_call_to) (use h pw in auto)
    moreover from st Launch obtain p where "w1 = call_to h p ?w" by (auto simp: handler_step_def stop_defs Let_def)
    ultimately show ?thesis by simp
  qed (use st pc in \<open>simp_all add: handler_step_def stop_defs Let_def\<close>)
qed

lemma controller_step_paced:
  assumes pc: "paced env body w" and e: "\<not> starts e" and st: "controller_step env w e = Inr w1"
  shows "paced env body w1"
proof (cases e)
  case (Request r)
  let ?c = "\<lparr>request = r, call_speed = double_one (arith env), call_at = Entered\<rparr>"
  have "speed_of env body (call_speed ?c)" "\<forall>b. request ?c = Start_Streaming b \<longrightarrow> b = body"
    using e Request by (auto simp: starts_def speed_of_def)
  moreover have "w1 = w\<lparr>calls := calls w @ [?c]\<rparr>" using st Request by simp
  ultimately show ?thesis using pc unfolding paced_def by auto
next
  case (Io h)
  with st pc show ?thesis by (auto simp: bindE_eq_Inr paced_runs split: if_splits intro: handler_paced)
qed (use st gateway_paced [OF pc] timer_paced [OF pc] in auto)

lemma controller_step_inv:
  assumes s: "stream_setting env body records ob0" and pc: "paced env body w" and inv: "stream_inv records ob0 w" and e: "\<not> starts e"
  shows "\<exists>w'. controller_step env w e = Inr w' \<and> stream_inv records ob0 w'"
proof (cases e)
  case (Request r)
  with request_inv [OF inv] e show ?thesis by (simp add: starts_def)
next
  case (Io h)
  consider "h = 0" "calls w \<noteq> []" | "0 < h" "h < length (calls w)" | "\<not> h < length (calls w)" by (cases "h = 0"; force)
  then show ?thesis
  proof cases
    case 1
    with first_handler_inv [OF s inv] Io inv show ?thesis by fastforce
  next
    case 2
    with later_handler_inv [OF inv 2, where env = env] Io inv show ?thesis by fastforce
  qed (use Io inv in simp)
next
  case (Gateway us)
  with gateway_inv [OF s pc inv] show ?thesis by simp
next
  case (Timer_Fires i)
  with timer_inv [OF inv] show ?thesis by simp
qed

lemma controller_run_inv:
  assumes s: "stream_setting env body records ob0" and pc: "paced env body w" and inv: "stream_inv records ob0 w"
    and e: "\<forall>e \<in> set es. \<not> starts e"
  shows "\<exists>w'. controller_run env w es = Inr w' \<and> stream_inv records ob0 w' \<and> paced env body w'"
  using inv pc e
proof (induction es arbitrary: w)
  case (Cons e es)
  then obtain w1 where 1: "controller_step env w e = Inr w1" "stream_inv records ob0 w1"
    using controller_step_inv [OF s Cons.prems(2,1), of e] by auto
  have "paced env body w1" by (rule controller_step_paced [OF Cons.prems(2) _ 1(1)]) (use Cons.prems in simp)
  with Cons.IH [OF 1(2)] Cons.prems 1(1) show ?case by (simp add: controller_run_def)
qed (simp add: controller_run_def)

lemma first_request_inv:
  assumes "body \<noteq> JNone"
  shows "\<exists>w. controller_step env new_controller (Request (Start_Streaming body)) = Inr w \<and>
     stream_inv records ob0 w \<and> paced env body w"
  using assms by (auto simp: paced_def speed_of_def new_controller_def stream_inv_def calls_ok_def tasks_ok_def idle_def awaits_def nth_Cons' split: if_splits)

end
