(* ===== verification/Streaming_Props.thy ===== *)
theory Streaming_Props
  imports Streaming_Run
begin

section \<open>What streaming promises\<close>

text \<open>
  A stream plays its file into the book, and completes it when nothing stops it. A request to stop
  can be lost, and a second request to start can destroy what the first one uses.
\<close>

subsection \<open>From the first request\<close>

lemma run_from_start:
  assumes "stream_setting env body records ob0" "body \<noteq> JNone" "\<forall>e \<in> set es. \<not> starts e"
  obtains w where "controller_run env new_controller (Request (Start_Streaming body) # es) = Inr w" "stream_inv records ob0 w"
    "paced env body w"
proof -
  from first_request_inv [OF assms(2), where env = env and records = records and ?ob0.0 = ob0] obtain w
    where w: "controller_step env new_controller (Request (Start_Streaming body)) = Inr w"
    "stream_inv records ob0 w" "paced env body w" by blast
  from controller_run_inv [OF assms(1) w(3,2) assms(3)] w(1) show thesis
    by (auto simp: controller_run_def simp del: controller_step.simps intro: that)
qed

definition stream_ended :: "'d controller \<Rightarrow> bool" where
  "stream_ended w \<longleftrightarrow> (\<exists>s \<in> set (streams w). stream_at s = Stream_Ended)"

lemma ended_book:
  assumes "stream_inv records ob0 w" "m_order_book w = Some b"
  shows "\<exists>n ob. order_books w b = Some ob \<and> book_after ob0 (mbo_messages records) n ob \<and>
    (quiet w \<and> stream_ended w \<longrightarrow> n = length (mbo_messages records))"
proof (cases "\<exists>n p. streaming records ob0 n p w")
  case True
  then obtain n p where st: "streaming records ob0 n p w" by blast
  show ?thesis
  proof (intro exI conjI impI)
    from st assms(2) show "order_books w b = Some (the (order_books w b))" by (auto simp: streaming_def)
    from st assms(2) show "book_after ob0 (mbo_messages records) n (the (order_books w b))" by (auto simp: streaming_def)
    assume e: "quiet w \<and> stream_ended w"
    then have "p = Stream_Ended" using st by (auto simp: streaming_def stream_ended_def)
    with st e have "n \<le> length (mbo_messages records)" "drop n (mbo_messages records) = []"
      by (auto simp: streaming_def book_after_def finishing_def)
    then show "n = length (mbo_messages records)" by simp
  qed
next
  case False
  then have "\<not> stream_ended w" using assms(1) by (auto simp: stream_inv_def idle_def launching_def stream_ended_def)
  with current_book [OF assms] show ?thesis by blast
qed

lemma request_speed_defined: "body \<noteq> JNone \<Longrightarrow> \<exists>v. request_speed env body = Inr v"
  by (cases body) (auto simp: request_speed_def has_field_def is_json_value_def)

lemma controller_book: "11999 \<le> n \<Longrightarrow> \<exists>ob. new_order_book n 20000000 120000000000 10000000 = Inr ob"
  by (simp add: new_order_book_def in_int64_def sdiv_nonneg Let_def)

text \<open>A file of two messages and another record, on an instance with whole numbers for doubles.\<close>

definition demo_records :: "mbo_msg option list" where
  "demo_records = [Some (make_mbo 1 CHR ''A'' CHR ''B'' 100000000 5), None, Some (make_mbo 2 CHR ''A'' CHR ''A'' 200000000 3)]"

definition demo_arith :: "int stream_doubles" where
  "demo_arith = \<lparr>double_of_int = id, trunc_double = id, double_is_zero = (\<lambda>d. d = 0), double_positive = (\<lambda>d. 0 < d),
     quotient_ns = (\<lambda>n d. if d = 0 then None else Some (n div d)), per_million = (\<lambda>d. 1000000 div d), double_one = 1,
     double_to_string = (\<lambda>d. [])\<rparr>"

definition demo_env :: "mbo_msg option list \<Rightarrow> int stream_env" where
  "demo_env records = \<lparr>arith = demo_arith, dbn_file = (\<lambda>p. if p = dbn_path then Some records else None), vector_max = 20000\<rparr>"

definition demo_body :: "int json" where
  "demo_body = JObject False [(''speed'', JValue (VDouble 0) True)] []"

lemma demo_body_object: "demo_body \<noteq> JNone"
  by (simp add: demo_body_def)

lemma demo_setting:
  assumes "records = [] \<or> records = demo_records"
  shows "\<exists>ob0. stream_setting (demo_env records) demo_body records ob0"
proof -
  have "admissible_all 20000000 120000000000 [] (mbo_messages records)" "length (mbo_messages records) < 2147483648"
    using assms by (auto simp: demo_records_def admissible_def spec_step_def spec_find_def in_int64_def spec_new_def Let_def)
  moreover obtain ob0 where "new_order_book 20000 20000000 120000000000 10000000 = Inr ob0"
    using controller_book [of 20000] by auto
  ultimately show ?thesis by (auto simp: stream_setting_def demo_env_def demo_arith_def)
qed

text \<open>
  C8: for a file whose messages are an admissible feed, whatever requests to stop and for snapshots come in, and however the two threads interleave,
  a stream that was started on a controller, once, runs without error, the FIFO queues of the book are at every moment those of the
  abstract book after the first messages of the file, and after all of them when the stream has
  ended and nobody asked it to stop.
\<close>

theorem stream_plays_file:
  fixes env :: "'d :: {linorder, zero} stream_env"
  assumes "stream_setting env body records ob0" "body \<noteq> JNone" "\<forall>e \<in> set es. \<not> starts e"
  shows "\<exists>w. controller_run env new_controller (Request (Start_Streaming body) # es) = Inr w \<and>
    (\<forall>b. m_order_book w = Some b \<longrightarrow> (\<exists>n ob. order_books w b = Some ob \<and> n \<le> length (mbo_messages records) \<and>
      (\<forall>side i. i < num_levels ob \<longrightarrow> level_orders ob side i =
         map to_order (filter (at_level ob side i) (foldl spec_step [] (take n (mbo_messages records))))) \<and>
      (quiet w \<and> stream_ended w \<longrightarrow> n = length (mbo_messages records))))"
proof -
  from run_from_start [OF assms] obtain w where
    run: "controller_run env new_controller (Request (Start_Streaming body) # es) = Inr w" and inv: "stream_inv records ob0 w" .
  have "\<exists>n ob. order_books w b = Some ob \<and> n \<le> length (mbo_messages records) \<and>
      (\<forall>side i. i < num_levels ob \<longrightarrow> level_orders ob side i =
         map to_order (filter (at_level ob side i) (foldl spec_step [] (take n (mbo_messages records))))) \<and>
      (quiet w \<and> stream_ended w \<longrightarrow> n = length (mbo_messages records))" if b: "m_order_book w = Some b" for b
  proof -
    from ended_book [OF inv b] obtain n ob where ob: "order_books w b = Some ob" "n \<le> length (mbo_messages records)"
      "apply_all ob0 (take n (mbo_messages records)) = Inr ob" "quiet w \<and> stream_ended w \<longrightarrow> n = length (mbo_messages records)"
      by (auto simp: book_after_def)
    from stream_sim [OF assms(1), of n] ob(3) have "sim ob (foldl spec_step [] (take n (mbo_messages records)))" by auto
    from simD(4) [OF this] ob show ?thesis by blast
  qed
  with run show ?thesis by blast
qed

theorem stream_plays_file_witness:
  "\<exists>ob0 w. new_order_book 20000 20000000 120000000000 10000000 = Inr ob0 \<and>
    controller_run (demo_env demo_records) new_controller
      [Request (Start_Streaming demo_body), Io 0, Request Get_Snapshot, Io 0, Io 1, Io 0, Gateway 3, Io 0] = Inr w \<and>
    (\<forall>b. m_order_book w = Some b \<longrightarrow> (\<exists>n ob. order_books w b = Some ob \<and> n \<le> 2 \<and>
      (\<forall>side i. i < num_levels ob \<longrightarrow> level_orders ob side i =
         map to_order (filter (at_level ob side i) (foldl spec_step [] (take n (mbo_messages demo_records)))))))"
proof -
  let ?es = "[Io 0, Request Get_Snapshot, Io 0, Io 1, Io 0, Gateway 3, Io 0] :: int stream_event list"
  obtain ob0 where s: "stream_setting (demo_env demo_records) demo_body demo_records ob0" using demo_setting by blast
  have es: "\<forall>e \<in> set ?es. \<not> starts e" by (simp add: starts_def)
  have "length (mbo_messages demo_records) = 2" by (simp add: demo_records_def)
  moreover from s have "new_order_book 20000 20000000 120000000000 10000000 = Inr ob0"
    by (simp add: stream_setting_def demo_env_def)
  ultimately show ?thesis using stream_plays_file [OF s demo_body_object es] by (simp only:) blast
qed

subsection \<open>A stream without pauses\<close>

primrec steps_left :: "stream_point \<Rightarrow> nat \<Rightarrow> nat" where
  "steps_left Begin_Stream n = 2 * n + 5"
| "steps_left Reset_Future n = 2 * n + 4"
| "steps_left Next_Record n = 2 * n + 3"
| "steps_left (Call_Back m) n = 2 * n + 4"
| "steps_left (Sleeping ns m) n = 2 * n + 6"
| "steps_left (Woken m) n = 2 * n + 5"
| "steps_left End_Stream n = 2"
| "steps_left Notify_Stop n = 1"
| "steps_left Stream_Ended n = 0"

text \<open>The gateway runs the stream of a wrapper whose speed is not positive, and has nothing else to do.\<close>

definition unpaced :: "'d stream_env \<Rightarrow> nat \<Rightarrow> 'd controller \<Rightarrow> bool" where
  "unpaced env k w \<longleftrightarrow> gateway w = [] \<and> (\<exists>a bo p x. streams w = [\<lparr>of_wrapper = a, into_book = bo, stream_at = p\<rparr>] \<and>
     wrappers w a = Some x \<and> \<not> double_positive (arith env) (m_speed x) \<and>
     (\<forall>ns m. p \<noteq> Sleeping ns m) \<and> gateway_runs w = (if p = Stream_Ended then None else Some 0) \<and> steps_left p (length (m_store x)) \<le> k)"

lemma unpaced_ended: "unpaced env 0 w \<Longrightarrow> stream_ended w"
proof -
  have "steps_left p n = 0 \<Longrightarrow> p = Stream_Ended" for p n by (cases p) simp_all
  then show "unpaced env 0 w \<Longrightarrow> stream_ended w" by (auto simp: unpaced_def stream_ended_def)
qed

lemma unpaced_step:
  assumes u: "unpaced env k w" and st: "gateway_step env us w = Inr w1"
  shows "unpaced env (k - 1) w1"
proof -
  from u obtain a bo p x where w: "gateway w = []" "streams w = [\<lparr>of_wrapper = a, into_book = bo, stream_at = p\<rparr>]" "wrappers w a = Some x"
    and sp: "\<not> double_positive (arith env) (m_speed x)" and np: "\<And>ns m. p \<noteq> Sleeping ns m"
    and r: "gateway_runs w = (if p = Stream_Ended then None else Some 0)" and k: "steps_left p (length (m_store x)) \<le> k"
    unfolding unpaced_def by blast
  show ?thesis
  proof (cases "p = Stream_Ended")
    case True
    with st w r have "w1 = w" by (simp add: gateway_step_def)
    with True w sp r show ?thesis by (auto simp: unpaced_def)
  next
    case False
    with st r obtain on w2 where st2: "stream_step env us 0 w = Inr (on, w2)"
      and w1: "w1 = w2\<lparr>gateway_runs := (if on then Some 0 else None)\<rparr>" by (auto simp: gateway_step_def bindE_eq_Inr)
    have xa: "wrapper_at a w = Inr x" by (simp add: wrapper_at_def w)
    have un: "unpaced env (k - 1) (w2\<lparr>gateway_runs := (if on then Some 0 else None)\<rparr>)"
      if "gateway w2 = []" "streams w2 = [\<lparr>of_wrapper = a, into_book = bo, stream_at = p'\<rparr>]" "wrappers w2 a = Some x'"
        "m_speed x' = m_speed x" "\<And>ns m. p' \<noteq> Sleeping ns m" "on = (p' \<noteq> Stream_Ended)"
        "steps_left p' (length (m_store x')) + 1 \<le> steps_left p (length (m_store x))" for w2 on p' x'
      using that sp k unfolding unpaced_def by auto
    show ?thesis
    proof (cases p)
      case Begin_Stream
      with st2 w xa show ?thesis unfolding w1
        by (intro un [where p' = Reset_Future and x' = "x\<lparr>m_is_streaming := True\<rparr>"]) (auto simp: stream_step_def)
    next
      case Reset_Future
      with st2 w xa show ?thesis unfolding w1
        by (intro un [where p' = Next_Record and x' = "x\<lparr>m_stop_future_value := None\<rparr>"]) (auto simp: stream_step_def)
    next
      case Next_Record
      then have nx: "next_record env 0 a x w = Inr (on, w2)" using st2 w xa by (simp add: stream_step_def)
      show ?thesis
      proof (cases "\<not> m_is_streaming x \<or> m_store x = []")
        case True
        then have "next_record env 0 a x w = Inr (True, at_point 0 End_Stream w)" by (auto simp: next_record_def)
        then have "w2 = at_point 0 End_Stream w" "on" using nx by simp_all
        with w Next_Record show ?thesis unfolding w1 by (intro un [where p' = End_Stream and x' = x]) simp_all
      next
        case False
        then obtain r rest where rs: "m_is_streaming x" "m_store x = r # rest" by (cases "m_store x") auto
        show ?thesis
        proof (cases r)
          case None
          with nx rs have "w2 = put_wrapper a (x\<lparr>m_store := rest\<rparr>) w" "on" by (auto simp: next_record_def)
          with w rs Next_Record show ?thesis unfolding w1
            by (intro un [where p' = Next_Record and x' = "x\<lparr>m_store := rest\<rparr>"]) simp_all
        next
          case (Some m)
          with nx rs sp have "w2 = at_point 0 (Call_Back m) (put_wrapper a (x\<lparr>m_store := rest\<rparr>) w)" "on"
            by (auto simp: next_record_def Let_def)
          with w rs Next_Record show ?thesis unfolding w1
            by (intro un [where p' = "Call_Back m" and x' = "x\<lparr>m_store := rest\<rparr>"]) simp_all
        qed
      qed
    next
      case (Call_Back m)
      with st2 w obtain w3 where "stream_callback us bo m w = Inr w3" "w2 = at_point 0 Next_Record w3" "on"
        by (auto simp: stream_step_def bindE_eq_Inr)
      with w Call_Back show ?thesis unfolding w1
        by (intro un [where p' = Next_Record and x' = x]) (auto simp: stream_callback_def bindE_eq_Inr split: option.splits if_splits)
    next
      case (Woken m)
      with st2 w show ?thesis unfolding w1
        by (intro un [where p' = "Call_Back m" and x' = x]) (auto simp: stream_step_def)
    next
      case End_Stream
      with st2 w xa show ?thesis unfolding w1
        by (intro un [where p' = Notify_Stop and x' = "x\<lparr>m_is_streaming := False\<rparr>"]) (auto simp: stream_step_def)
    next
      case Notify_Stop
      with st2 w xa show ?thesis unfolding w1
        by (intro un [where p' = Stream_Ended and x' = x])
          (auto simp: stream_step_def notify_stop_def bindE_eq_Inr split: option.splits)
    qed (use False np in simp_all)
  qed
qed

lemma unpaced_run:
  assumes "unpaced env k w" "controller_run env w (replicate n (Gateway us)) = Inr w1" "k \<le> n"
  shows "stream_ended w1"
  using assms
proof (induction n arbitrary: w k)
  case 0
  then show ?case using unpaced_ended by (simp add: controller_run_def)
next
  case (Suc n)
  then obtain w2 where "gateway_step env us w = Inr w2" "controller_run env w2 (replicate n (Gateway us)) = Inr w1"
    by (auto simp: controller_run_def bindE_eq_Inr)
  with Suc.IH [OF unpaced_step [OF Suc.prems(1)]] Suc.prems(3) show ?case by simp
qed

lemma gateway_step_calls: "gateway_step env us w = Inr w1 \<Longrightarrow> calls w1 = calls w"
  by (auto simp: gateway_step_def start_streaming_def Let_def bindE_eq_Inr put_wrapper_def same_speeds_def
    split: option.splits list.splits gateway_task.splits dest!: stream_step_speeds snapshot_speeds)

lemma gateway_run_calls: "controller_run env w (replicate n (Gateway us)) = Inr w1 \<Longrightarrow> calls w1 = calls w"
proof (induction n arbitrary: w)
  case (Suc n)
  then obtain w2 where "gateway_step env us w = Inr w2" "controller_run env w2 (replicate n (Gateway us)) = Inr w1"
    by (auto simp: controller_run_def bindE_eq_Inr)
  with Suc.IH show ?case by (simp add: gateway_step_calls)
qed (simp add: controller_run_def)

text \<open>The handler of a request to start, up to the running coroutine.\<close>

definition start_events :: "'d json \<Rightarrow> 'd \<Rightarrow> 'd stream_event list" where
  "start_events body us = [Request (Start_Streaming body), Io 0, Io 0, Io 0, Io 0, Gateway us, Gateway us]"

lemmas start_simps = controller_run_def handler_step_def stop_defs gateway_step_def new_controller_def initialize_def
  start_streaming_def wrapper_at_def put_wrapper_def call_to_def after_stop_def Let_def

lemma start_runs:
  assumes "stream_setting env body records ob0" "request_speed env body = Inr v"
  shows "\<exists>w. controller_run env new_controller (start_events body us) = Inr w \<and> gateway w = [] \<and> gateway_runs w = Some 0 \<and>
    m_order_book w = Some 0 \<and> m_dbn_wrapper w = Some 1 \<and> next_id w = 2 \<and> io_runs w = None \<and> stop_futures w = (\<lambda>_. None) \<and>
    wrappers w 1 = Some (set_speed v (new_dbn_wrapper env records)) \<and> order_books w 0 = Some ob0 \<and> count_mbo_msgs w = 0 \<and>
    streams w = [\<lparr>of_wrapper = 1, into_book = Some 0, stream_at = Begin_Stream\<rparr>] \<and>
    length (calls w) = 1 \<and> request (calls w ! 0) = Start_Streaming body"
proof -
  have "dbn_file env dbn_path = Some records" "new_order_book (vector_max env) 20000000 120000000000 10000000 = Inr ob0"
    using assms(1) by (simp_all add: stream_setting_def)
  with assms(2) show ?thesis by (simp add: start_events_def start_simps)
qed

text \<open>
  C9: a file whose messages are an admissible feed, played without pauses since the requested speed is not positive, is in the
  book completely after two steps of the gateway for each of its records, five for the loop and two
  to start it: the stream has ended, and the FIFO queues are those of the abstract book after all messages.
\<close>

theorem unpaced_stream_completes:
  fixes env :: "'d :: {linorder, zero} stream_env"
  assumes "stream_setting env body records ob0" "body \<noteq> JNone" "request_speed env body = Inr v" "\<not> double_positive (arith env) v"
    and "2 * length records + 5 \<le> n"
  shows "\<exists>w b ob. controller_run env new_controller (start_events body us @ replicate n (Gateway us)) = Inr w \<and>
    stream_ended w \<and> m_order_book w = Some b \<and> order_books w b = Some ob \<and>
    (\<forall>side i. i < num_levels ob \<longrightarrow> level_orders ob side i =
       map to_order (filter (at_level ob side i) (foldl spec_step [] (mbo_messages records))))"
proof -
  from start_runs [OF assms(1,3), of us] obtain w0 where w0: "controller_run env new_controller (start_events body us) = Inr w0"
    "gateway w0 = []" "gateway_runs w0 = Some 0" "wrappers w0 1 = Some (set_speed v (new_dbn_wrapper env records))"
    "streams w0 = [\<lparr>of_wrapper = 1, into_book = Some 0, stream_at = Begin_Stream\<rparr>]" "length (calls w0) = 1"
    "request (calls w0 ! 0) = Start_Streaming body" by blast
  let ?es = "tl (start_events body us) @ replicate n (Gateway us)"
  have es: "\<forall>e \<in> set ?es. \<not> starts e" by (auto simp: start_events_def starts_def)
  from run_from_start [OF assms(1,2) es] obtain w where
    run: "controller_run env new_controller (start_events body us @ replicate n (Gateway us)) = Inr w"
    and inv: "stream_inv records ob0 w" by (auto simp: start_events_def)
  from run w0(1) have "controller_run env w0 (replicate n (Gateway us)) = Inr w" by (simp add: controller_run_def foldE_append)
  moreover have "unpaced env (2 * length records + 5) w0"
    using w0 assms(4) by (simp add: unpaced_def set_speed_def new_dbn_wrapper_def)
  ultimately have e: "stream_ended w" "calls w = calls w0" using unpaced_run [OF _ _ assms(5)] gateway_run_calls by blast+
  with w0 have q: "quiet w" by (simp add: quiet_def)
  from inv e(1) obtain b where b: "m_order_book w = Some b" by (auto simp: stream_inv_def idle_def launching_def streaming_def stream_ended_def)
  from ended_book [OF inv b] e(1) q obtain ob where ob: "order_books w b = Some ob" "apply_all ob0 (mbo_messages records) = Inr ob"
    by (auto simp: book_after_def)
  from stream_sim [OF assms(1), of "length (mbo_messages records)"] ob(2) have "sim ob (foldl spec_step [] (mbo_messages records))" by auto
  from simD(4) [OF this] run e(1) b ob(1) show ?thesis by blast
qed

theorem unpaced_stream_completes_witness:
  "\<exists>w b ob. controller_run (demo_env demo_records) new_controller (start_events demo_body 7 @ replicate 11 (Gateway 7)) = Inr w \<and>
    stream_ended w \<and> m_order_book w = Some b \<and> order_books w b = Some ob"
proof -
  obtain ob0 where s: "stream_setting (demo_env demo_records) demo_body demo_records ob0" using demo_setting by blast
  have v: "request_speed (demo_env demo_records) demo_body = Inr 0" "\<not> double_positive (arith (demo_env demo_records)) 0"
    by (simp_all add: request_speed_def has_field_def is_json_value_def get_key_def demo_body_def json_to_double_def value_to_double_def
      demo_env_def demo_arith_def)
  have "2 * length demo_records + 5 \<le> 11" by (simp add: demo_records_def)
  from unpaced_stream_completes [OF s demo_body_object v this, of 7] show ?thesis by blast
qed

subsection \<open>A request to stop that is lost\<close>

text \<open>
  Handler \<open>h\<close> has left the future \<open>f\<close> with the wrapper, or is about to clear the flag, and the stream has ended without
  setting it: it had looked at the pointer before, or a second request to stop has replaced it.
\<close>

definition stop_missed :: "nat \<Rightarrow> nat \<Rightarrow> 'd controller \<Rightarrow> bool" where
  "stop_missed h f w \<longleftrightarrow> h < length (calls w) \<and> request (calls w ! h) = Stop_Streaming \<and>
     (call_at (calls w ! h) = Wait_Future f \<or> (\<exists>a. call_at (calls w ! h) = Clear_Flag a f)) \<and>
     stop_futures w f = Some None \<and> f \<notin> set (snapshot_tasks (gateway w)) \<and> stream_ended w"

lemma missed_waits: "stop_missed h f w \<Longrightarrow> stream_inv records ob0 w \<Longrightarrow> f < next_id w"
  unfolding stop_missed_def stream_inv_def calls_ok_def awaits_def by fastforce

lemma missed_other_call:
  assumes m: "stop_missed h f w" and f: "f < next_id w" and st: "handler_step env h' w = Inr (on, w1)" and ne: "h' \<noteq> h"
  shows "stop_missed h f w1"
proof -
  have keep: "stop_missed h f (call_to h' p w2)"
    if "calls w2 = calls w" "stop_futures w2 f = Some None" "f \<notin> set (snapshot_tasks (gateway w2))" "streams w2 = streams w" for p w2
    using that m ne by (simp add: stop_missed_def stream_ended_def call_to_def)
  have mf: "stop_futures w f = Some None" "f \<notin> set (snapshot_tasks (gateway w))" using m by (simp_all add: stop_missed_def)
  have same: "calls (put_wrapper a x w) = calls w" "stop_futures (put_wrapper a x w) f = Some None"
    "f \<notin> set (snapshot_tasks (gateway (put_wrapper a x w)))" "streams (put_wrapper a x w) = streams w" for a x
    using m by (simp_all add: stop_missed_def)
  show ?thesis
  proof (cases "call_at (calls w ! h')")
    case Entered
    show ?thesis
    proof (cases "request (calls w ! h')")
      case (Start_Streaming b)
      with st Entered m ne show ?thesis
        by (auto simp: handler_step_def stop_defs bindE_eq_Inr Let_def stop_missed_def stream_ended_def)
    next
      case Stop_Streaming
      with st Entered m show ?thesis by (auto simp: handler_step_def stop_defs Let_def mf intro!: keep)
    next
      case Get_Snapshot
      with st Entered m f show ?thesis
        by (auto simp: handler_step_def stop_defs Let_def new_future_def mf intro!: keep)
    qed
  next
    case Stop_Check
    with st m show ?thesis
      by (auto simp: handler_step_def stop_defs Let_def bindE_eq_Inr mf split: option.splits if_splits intro!: keep)
  next
    case (Register_Stop a)
    with st m f same show ?thesis
      by (auto simp: handler_step_def stop_defs Let_def bindE_eq_Inr new_future_def intro!: keep)
  next
    case (Clear_Flag a f')
    with st m same show ?thesis by (auto simp: handler_step_def stop_defs Let_def bindE_eq_Inr intro!: keep)
  next
    case (Wait_Future f')
    with st m mf(1) show ?thesis
      by (cases "f = f'") (auto simp: handler_step_def stop_defs Let_def mf split: option.splits intro!: keep)
  next
    case Initialize
    with st obtain w2 where "initialize env dbn_path w = Inr (True, w2)" "w1 = call_to h' Launch w2"
      by (auto simp: handler_step_def stop_defs bindE_eq_Inr Let_def split: if_splits)
    with m show ?thesis by (auto simp: initialize_def bindE_eq_Inr Let_def mf split: option.splits intro!: keep)
  next
    case Launch
    from st Launch obtain p where "w1 = call_to h' p (w\<lparr>gateway := gateway w @ [Launch_Task (call_speed (calls w ! h'))]\<rparr>)"
      by (auto simp: handler_step_def stop_defs Let_def)
    with m show ?thesis by (auto simp: mf intro!: keep)
  qed (use st m in \<open>simp_all add: handler_step_def stop_defs Let_def\<close>)
qed

lemma missed_own_call:
  assumes m: "stop_missed h f w" and st: "handler_step env h w = Inr (on, w1)"
  shows "stop_missed h f w1"
proof (cases "call_at (calls w ! h) = Wait_Future f")
  case True
  with st m show ?thesis by (auto simp: handler_step_def stop_defs Let_def stop_missed_def)
next
  case False
  with m obtain a where "call_at (calls w ! h) = Clear_Flag a f" by (auto simp: stop_missed_def)
  with st m show ?thesis
    by (auto simp: handler_step_def stop_defs Let_def bindE_eq_Inr stop_missed_def stream_ended_def call_to_def)
qed

lemma missed_gateway:
  assumes m: "stop_missed h f w" and inv: "stream_inv records ob0 w" and st: "gateway_step env us w = Inr w1"
  shows "stop_missed h f w1"
proof -
  have e: "stream_ended w" and g: "f \<notin> set (snapshot_tasks (gateway w))" using m by (simp_all add: stop_missed_def)
  then obtain n p where s: "streaming records ob0 n p w" using inv by (auto simp: stream_inv_def idle_def launching_def stream_ended_def)
  with e have "p = Stream_Ended" by (auto simp: streaming_def stream_ended_def)
  with s have r: "gateway_runs w = None" "stream_tasks (gateway w) = []" by (simp_all add: streaming_def placed_def)
  show ?thesis
  proof (cases "gateway w")
    case Nil
    with st r m show ?thesis by (simp add: gateway_step_def)
  next
    case (Cons t ts)
    with r(2) obtain f' where t: "t = Snapshot_Task f'" by (auto split: gateway_task.splits)
    with Cons g have ne: "f \<noteq> f'" "f \<notin> set (snapshot_tasks ts)" by simp_all
    have set: "stop_missed h f w2" if "set_future f' v w' = Inr w2" "calls w' = calls w" "gateway w' = ts"
      "stop_futures w' = stop_futures w" "streams w' = streams w" for v w' w2
      using that m ne by (auto simp: set_future_def stop_missed_def stream_ended_def split: option.splits)
    from st r(1) Cons t have "get_orderbook_snapshot_async env us f' (w\<lparr>gateway := ts\<rparr>) = Inr w1" by (simp add: gateway_step_def)
    then show ?thesis
      by (auto simp: get_orderbook_snapshot_async_def Let_def bindE_eq_Inr split: option.splits intro: set)
  qed
qed

lemma missed_step:
  assumes m: "stop_missed h f w" and inv: "stream_inv records ob0 w" and st: "controller_step env w e = Inr w1"
  shows "stop_missed h f w1"
proof (cases e)
  case (Request r)
  with st m show ?thesis by (auto simp: stop_missed_def stream_ended_def nth_append)
next
  case (Io h')
  show ?thesis
  proof (cases "h' < length (calls w) \<and> (io_runs w = None \<or> io_runs w = Some h')")
    case True
    with st Io obtain on w2 where s: "handler_step env h' w = Inr (on, w2)" "w1 = w2\<lparr>io_runs := (if on then Some h' else None)\<rparr>"
      by (auto simp: bindE_eq_Inr)
    have "stop_missed h f w2"
      using missed_own_call [OF m] missed_other_call [OF m missed_waits [OF m inv] s(1)] s(1) by blast
    with s(2) show ?thesis by (simp add: stop_missed_def stream_ended_def)
  next
    case False
    with st Io m show ?thesis by auto
  qed
next
  case (Gateway us)
  with st missed_gateway [OF m inv] show ?thesis by simp
next
  case (Timer_Fires i)
  have e: "stream_ended w" using m by (simp add: stop_missed_def)
  then obtain n p where s: "streaming records ob0 n p w" using inv by (auto simp: stream_inv_def idle_def launching_def stream_ended_def)
  with e have "timer_step i w = w" by (auto simp: streaming_def stream_ended_def timer_step_def)
  with st Timer_Fires m show ?thesis by simp
qed

lemma missed_run:
  assumes s: "stream_setting env body records ob0" and m: "stop_missed h f w" and "stream_inv records ob0 w" "paced env body w"
    and "\<forall>e \<in> set es. \<not> starts e"
  shows "\<exists>w1. controller_run env w es = Inr w1 \<and> stop_missed h f w1"
  using assms(2-)
proof (induction es arbitrary: w)
  case (Cons e es)
  then obtain w1 where 1: "controller_step env w e = Inr w1" "stream_inv records ob0 w1"
    using controller_step_inv [OF s Cons.prems(3,2), of e] by auto
  have "paced env body w1" by (rule controller_step_paced [OF Cons.prems(3) _ 1(1)]) (use Cons.prems in simp)
  with Cons.IH [OF missed_step [OF Cons.prems(1,2) 1(1)] 1(2)] Cons.prems 1(1) show ?case by (simp add: controller_run_def)
qed (simp add: controller_run_def)

text \<open>
  C10: a request to stop that leaves its future with the wrapper after the stream has looked for one, or
  that is overtaken by another one, is never answered: whatever happens short of a new start, its handler still waits.
\<close>

theorem late_stop_waits_forever:
  fixes env :: "'d :: {linorder, zero} stream_env"
  assumes "stream_setting env body records ob0" "body \<noteq> JNone" "\<forall>e \<in> set es. \<not> starts e" "\<forall>e \<in> set es'. \<not> starts e"
    and "controller_run env new_controller (Request (Start_Streaming body) # es) = Inr w" "stop_missed h f w"
  shows "\<exists>w'. controller_run env new_controller (Request (Start_Streaming body) # es @ es') = Inr w' \<and>
    h < length (calls w') \<and> (\<forall>v. call_at (calls w' ! h) \<noteq> Answered v)"
proof -
  from run_from_start [OF assms(1-3)] assms(5) have inv: "stream_inv records ob0 w" "paced env body w" by auto
  from missed_run [OF assms(1,6) inv assms(4)] obtain w' where w': "controller_run env w es' = Inr w'" "stop_missed h f w'" by blast
  have "controller_run env new_controller ((Request (Start_Streaming body) # es) @ es') = Inr w'"
    using assms(5) w'(1) unfolding controller_run_def foldE_append by simp
  with w'(2) show ?thesis by (auto simp: stop_missed_def)
qed

text \<open>An empty file; the stop is asked for when the stream has left its loop and has not yet cleared its flag.\<close>

definition late_stop_events :: "int stream_event list" where
  "late_stop_events = start_events demo_body 7 @
     [Gateway 7, Gateway 7, Gateway 7, Request Stop_Streaming, Io 1, Io 1, Gateway 7, Gateway 7, Io 1, Io 1]"

lemma late_stop_run:
  assumes "stream_setting (demo_env []) demo_body [] ob0"
  shows "\<exists>w. controller_run (demo_env []) new_controller late_stop_events = Inr w \<and> stop_missed 1 2 w"
proof -
  obtain v where v: "request_speed (demo_env []) demo_body = Inr v" using request_speed_defined [OF demo_body_object] by blast
  from start_runs [OF assms this, of 7] obtain w where w: "controller_run (demo_env []) new_controller (start_events demo_body 7) = Inr w"
    "gateway w = []" "gateway_runs w = Some 0" "m_order_book w = Some 0" "m_dbn_wrapper w = Some 1" "next_id w = 2" "io_runs w = None"
    "wrappers w 1 = Some (set_speed v (new_dbn_wrapper (demo_env []) []))"
    "streams w = [\<lparr>of_wrapper = 1, into_book = Some 0, stream_at = Begin_Stream\<rparr>]" "length (calls w) = 1" by blast
  then obtain c where "calls w = [c]" by (auto simp: length_Suc_conv)
  with w show ?thesis
    by (simp add: late_stop_events_def controller_run_def foldE_append handler_step_def stop_defs gateway_step_def stream_step_def next_record_def
      notify_stop_def wrapper_at_def put_wrapper_def at_point_def call_to_def new_future_def new_dbn_wrapper_def set_speed_def
      stop_missed_def stream_ended_def Let_def)
qed

theorem late_stop_waits_forever_witness:
  "\<exists>w'. controller_run (demo_env []) new_controller (late_stop_events @ [Io 1, Request Get_Snapshot, Gateway 7, Io 1]) = Inr w' \<and>
    1 < length (calls w') \<and> (\<forall>v. call_at (calls w' ! 1) \<noteq> Answered v)"
proof -
  let ?es' = "[Io 1, Request Get_Snapshot, Gateway 7, Io 1] :: int stream_event list"
  obtain ob0 where s: "stream_setting (demo_env []) demo_body [] ob0" using demo_setting by blast
  from late_stop_run [OF s] obtain w where w: "controller_run (demo_env []) new_controller late_stop_events = Inr w" "stop_missed 1 2 w" by blast
  have c: "late_stop_events = Request (Start_Streaming demo_body) # tl late_stop_events"
    by (simp add: late_stop_events_def start_events_def)
  have es: "\<forall>e \<in> set (tl late_stop_events). \<not> starts e" by (simp add: late_stop_events_def start_events_def starts_def)
  have es': "\<forall>e \<in> set ?es'. \<not> starts e" by (simp add: starts_def)
  from late_stop_waits_forever [OF s demo_body_object es es' _ w(2)] w(1) c show ?thesis by (metis append_Cons)
qed

subsection \<open>A second request to start\<close>

definition restart_events :: "'d json \<Rightarrow> 'd json \<Rightarrow> 'd \<Rightarrow> 'd stream_event list" where
  "restart_events body body' us =
     [Request (Start_Streaming body), Io 0, Io 0, Io 0, Io 0, Gateway us,
      Request (Start_Streaming body'), Io 1, Io 1, Io 1, Gateway us, Gateway us]"

text \<open>
  when a second request to start is handled before the coroutine of the first has begun to run, the wrapper does
  not yet count as streaming, so nothing waits: the wrapper is replaced and the queued coroutine then uses the destroyed one.
\<close>

theorem restart_uses_destroyed_wrapper:
  fixes env :: "'d :: {linorder, zero} stream_env"
  assumes "dbn_file env dbn_path = Some records" "11999 \<le> vector_max env" "body \<noteq> JNone" "body' \<noteq> JNone"
  shows "controller_run env new_controller (restart_events body body' us) = Inl (UB Use_After_Free)"
proof -
  from assms(3,4) obtain v v' where v: "request_speed env body = Inr v" "request_speed env body' = Inr v'"
    using request_speed_defined by blast
  from controller_book [OF assms(2)] obtain ob where "new_order_book (vector_max env) 20000000 120000000000 10000000 = Inr ob" by blast
  with v assms(1) show ?thesis
    by (simp add: restart_events_def start_simps stream_step_def new_dbn_wrapper_def set_speed_def)
qed

theorem restart_uses_destroyed_wrapper_witness:
  "controller_run (demo_env demo_records) new_controller (restart_events demo_body demo_body 7) = Inl (UB Use_After_Free)"
  by (rule restart_uses_destroyed_wrapper) (simp_all add: demo_env_def demo_body_def)

text \<open>A request to start without a JSON body dereferences a null pointer.\<close>

lemma start_without_body: "controller_run env new_controller [Request (Start_Streaming JNone), Io 0] = Inl (UB Null_Pointer)"
  by (simp add: controller_run_def handler_step_def stop_defs request_speed_def new_controller_def Let_def has_field_def is_json_value_def)

end
