(* ===== verification/Streaming_Answers.thy ===== *)
theory Streaming_Answers
  imports Streaming_Props
begin

section \<open>What the clients are told while a file is streamed\<close>

text \<open>
  A snapshot that is answered shows the book of the abstract specification after a prefix of the file, and no
  request for a snapshot is lost.
\<close>

subsection \<open>Snapshots\<close>

lemma prefix_snapshot:
  fixes env :: "'d stream_env"
  assumes s: "stream_setting env body records ob0" and b: "book_after ob0 (mbo_messages records) n ob"
    and g: "\<forall>m \<in> set (mbo_messages records). placing m \<longrightarrow> (msg_price m - 20000000) mod 10000000 = 0"
  shows "build_snapshot ob = Inr (snapshot_json
    (array_of (map entry_json (rev (spec_depth True (foldl spec_step [] (take n (mbo_messages records)))))))
    (array_of (map entry_json (spec_depth False (foldl spec_step [] (take n (mbo_messages records)))))) :: 'd json)"
proof -
  let ?ms = "take n (mbo_messages records)"
  have new: "new_order_book (vector_max env) 20000000 120000000000 10000000 = Inr ob0"
    and adm: "admissible_all 20000000 120000000000 [] ?ms"
    using s by (simp_all add: stream_setting_def admissible_take)
  from run_sim [OF stream_config new adm] b have ob: "sim ob (foldl spec_step [] ?ms)"
    "price_min ob = 20000000" "tick_size ob = 10000000" "price_max ob = 120000000000" by (auto simp: book_after_def)
  have "\<forall>m \<in> set ?ms. placing m \<longrightarrow> (msg_price m - 20000000) mod 10000000 = 0" using g by (auto dest: in_set_takeD)
  then have t: "\<forall>r \<in> set (foldl spec_step [] ?ms). on_tick ob (rs_price r)"
    using admissible_run_on_tick [OF adm] ob by (auto simp: on_tick_def price_in_range_def)
  show ?thesis using build_snapshot_eq [OF sim_readable [OF ob(1)]] sim_entries [OF ob(1) t] by simp
qed

lemma latencies_kept:
  assumes "snapshot_with_latencies env (snapshot_json bs as) lt lt' = Inr v"
  shows "get_key v ''bids'' = bs \<and> get_key v ''asks'' = as"
  using assms by (auto simp: snapshot_with_latencies_def bindE_eq_Inr snapshot_json_def set_key_def check_create_json_object_def get_key_def)

lemma snapshot_in_answer: "get_key (snapshot_ok v) ''snapshot'' = v" "get_key (snapshot_ok v) ''status'' = of_string ''OK''"
  by (simp_all add: snapshot_ok_def set_key_def check_create_json_object_def get_key_def)

text \<open>What a client is shown: nothing when there is no book yet, else the levels of the book after a prefix of the messages.\<close>

definition shows_prefix :: "mbo_msg list \<Rightarrow> 'd json \<Rightarrow> bool" where
  "shows_prefix ms v \<longleftrightarrow> v = JNone \<or> (\<exists>n \<le> length ms.
     get_key v ''bids'' = array_of (map entry_json (rev (spec_depth True (foldl spec_step [] (take n ms))))) \<and>
     get_key v ''asks'' = array_of (map entry_json (spec_depth False (foldl spec_step [] (take n ms)))))"

definition on_grid :: "mbo_msg list \<Rightarrow> bool" where
  "on_grid ms \<longleftrightarrow> (\<forall>m \<in> set ms. placing m \<longrightarrow> (msg_price m - 20000000) mod 10000000 = 0)"

text \<open>A handler of the snapshot route: its future is set by the task that is queued, and by no other.\<close>

definition snapshot_call :: "mbo_msg list \<Rightarrow> 'd controller \<Rightarrow> 'd api_call \<Rightarrow> bool" where
  "snapshot_call ms w c \<longleftrightarrow> (case call_at c of
     Entered \<Rightarrow> True
   | Wait_Future f \<Rightarrow> (stop_futures w f = Some None \<and> f \<in> set (snapshot_tasks (gateway w))) \<or>
       (\<exists>v. stop_futures w f = Some (Some v) \<and> shows_prefix ms v)
   | Answered r \<Rightarrow> (\<exists>v. r = snapshot_ok v \<and> shows_prefix ms v)
   | _ \<Rightarrow> False)"

definition snapshots_ok :: "mbo_msg list \<Rightarrow> 'd controller \<Rightarrow> bool" where
  "snapshots_ok ms w \<longleftrightarrow> (\<forall>h < length (calls w). request (calls w ! h) = Get_Snapshot \<longrightarrow> snapshot_call ms w (calls w ! h))"

lemma snapshot_call_cong:
  assumes "snapshot_call ms w c" "\<And>f. awaits c = Some f \<Longrightarrow> stop_futures w' f = stop_futures w f"
    and "set (snapshot_tasks (gateway w)) \<subseteq> set (snapshot_tasks (gateway w'))"
  shows "snapshot_call ms w' c"
  using assms by (auto simp: snapshot_call_def awaits_def split: handler_point.splits)

lemma snapshots_ok_cong:
  assumes "snapshots_ok ms w" "calls w' = calls w" "stop_futures w' = stop_futures w"
    and "snapshot_tasks (gateway w') = snapshot_tasks (gateway w)"
  shows "snapshots_ok ms w'"
  using assms by (auto simp: snapshots_ok_def intro: snapshot_call_cong)

lemma snapshot_call_calls [simp]: "snapshot_call ms (w\<lparr>calls := cs\<rparr>) c = snapshot_call ms w c"
  by (auto simp: snapshot_call_def split: handler_point.splits)

text \<open>What a step of a handler leaves alone.\<close>

definition handler_frame :: "nat \<Rightarrow> 'd controller \<Rightarrow> 'd controller \<Rightarrow> bool" where
  "handler_frame h w w1 \<longleftrightarrow> length (calls w1) = length (calls w) \<and> (\<forall>h'. h' \<noteq> h \<longrightarrow> calls w1 ! h' = calls w ! h') \<and>
     set (snapshot_tasks (gateway w)) \<subseteq> set (snapshot_tasks (gateway w1)) \<and>
     (\<forall>f < next_id w. awaits (calls w ! h) \<noteq> Some f \<longrightarrow> stop_futures w1 f = stop_futures w f)"

lemma handler_step_frame:
  assumes "handler_step env h w = Inr (on, w1)"
  shows "handler_frame h w w1"
proof (cases "call_at (calls w ! h)")
  case Entered
  with assms show ?thesis
    by (auto simp: handler_step_def stop_defs handler_frame_def call_to_def new_future_def bindE_eq_Inr Let_def split: api_request.splits)
next
  case Stop_Check
  with assms show ?thesis
    by (auto simp: handler_step_def stop_defs handler_frame_def call_to_def bindE_eq_Inr Let_def split: option.splits if_splits)
next
  case (Register_Stop a)
  with assms show ?thesis
    by (auto simp: handler_step_def stop_defs handler_frame_def call_to_def new_future_def put_wrapper_def bindE_eq_Inr Let_def)
next
  case (Clear_Flag a f)
  with assms show ?thesis
    by (auto simp: handler_step_def stop_defs handler_frame_def call_to_def put_wrapper_def bindE_eq_Inr Let_def)
next
  case (Wait_Future f)
  with assms show ?thesis
    by (auto simp: handler_step_def handler_frame_def call_to_def awaits_def Let_def split: option.splits)
next
  case Initialize
  with assms show ?thesis
    by (auto simp: handler_step_def handler_frame_def call_to_def initialize_def bindE_eq_Inr Let_def split: option.splits if_splits)
qed (use assms in \<open>auto simp: handler_step_def handler_frame_def call_to_def Let_def\<close>)

lemma own_snapshot_call:
  assumes st: "handler_step env h w = Inr (on, w1)" and h: "h < length (calls w)"
    and r: "request (calls w ! h) = Get_Snapshot \<longrightarrow> snapshot_call ms w (calls w ! h)"
    and r1: "request (calls w1 ! h) = Get_Snapshot"
  shows "snapshot_call ms w1 (calls w1 ! h)"
proof (cases "call_at (calls w ! h)")
  case Entered
  with assms show ?thesis
    by (auto simp: handler_step_def stop_defs call_to_def new_future_def snapshot_call_def bindE_eq_Inr Let_def split: api_request.splits)
next
  case Stop_Check
  with assms show ?thesis
    by (auto simp: handler_step_def stop_defs call_to_def snapshot_call_def bindE_eq_Inr Let_def split: option.splits if_splits)
next
  case (Register_Stop a)
  with assms show ?thesis
    by (auto simp: handler_step_def stop_defs call_to_def new_future_def put_wrapper_def snapshot_call_def bindE_eq_Inr Let_def)
next
  case (Clear_Flag a f)
  with assms show ?thesis
    by (auto simp: handler_step_def stop_defs call_to_def put_wrapper_def snapshot_call_def bindE_eq_Inr Let_def)
next
  case (Wait_Future f)
  with assms show ?thesis
    by (auto simp: handler_step_def call_to_def snapshot_call_def Let_def split: option.splits)
next
  case Initialize
  with assms show ?thesis
    by (auto simp: handler_step_def call_to_def initialize_def snapshot_call_def bindE_eq_Inr Let_def split: option.splits if_splits)
qed (use assms in \<open>auto simp: handler_step_def call_to_def snapshot_call_def Let_def\<close>)

lemma handler_snapshots:
  assumes inv: "stream_inv records ob0 w" and ok: "snapshots_ok ms w" and h: "h < length (calls w)"
    and st: "handler_step env h w = Inr (on, w1)"
  shows "snapshots_ok ms w1"
  unfolding snapshots_ok_def
proof (intro allI impI)
  fix h' assume h': "h' < length (calls w1)" and r: "request (calls w1 ! h') = Get_Snapshot"
  have fr: "handler_frame h w w1" by (rule handler_step_frame [OF st])
  have c: "calls_ok w" using inv by (simp add: stream_inv_def)
  show "snapshot_call ms w1 (calls w1 ! h')"
  proof (cases "h' = h")
    case True
    with own_snapshot_call [OF st h _ r [unfolded True]] ok h show ?thesis by (simp add: snapshots_ok_def)
  next
    case False
    with fr h' r ok have same: "calls w1 ! h' = calls w ! h'" and l: "h' < length (calls w)" and "snapshot_call ms w (calls w ! h')"
      by (simp_all add: handler_frame_def snapshots_ok_def)
    moreover have "stop_futures w1 f = stop_futures w f" if "awaits (calls w ! h') = Some f" for f
    proof -
      have "f < next_id w" "awaits (calls w ! h) \<noteq> Some f" using c that l h False unfolding calls_ok_def by blast+
      with fr show ?thesis by (simp add: handler_frame_def)
    qed
    ultimately show ?thesis using snapshot_call_cong [of ms w] fr unfolding same by (simp add: handler_frame_def)
  qed
qed

text \<open>The gateway: a step of the stream sets no future a snapshot is waited for with, a snapshot task sets its own.\<close>

definition kept_futures :: "'d controller \<Rightarrow> 'd controller \<Rightarrow> bool" where
  "kept_futures w w1 \<longleftrightarrow> calls w1 = calls w \<and> set (snapshot_tasks (gateway w)) \<subseteq> set (snapshot_tasks (gateway w1)) \<and>
     (\<forall>f. f \<in> set (snapshot_tasks (gateway w)) \<or> (\<exists>v. stop_futures w f = Some (Some v)) \<longrightarrow> stop_futures w1 f = stop_futures w f)"

lemma kept_snapshots: "kept_futures w w1 \<Longrightarrow> snapshots_ok ms w \<Longrightarrow> snapshots_ok ms w1"
  unfolding snapshots_ok_def
proof (intro allI impI)
  fix h assume k: "kept_futures w w1" and ok: "\<forall>h<length (calls w). request (calls w ! h) = Get_Snapshot \<longrightarrow> snapshot_call ms w (calls w ! h)"
    and h: "h < length (calls w1)" "request (calls w1 ! h) = Get_Snapshot"
  let ?c = "calls w ! h"
  have "snapshot_call ms w ?c" using ok h k by (simp add: kept_futures_def)
  then have "snapshot_call ms w1 ?c" using k by (auto simp: snapshot_call_def kept_futures_def split: handler_point.splits)
  then show "snapshot_call ms w1 (calls w1 ! h)" using k by (simp add: kept_futures_def)
qed

lemma kept_same: "calls w1 = calls w \<Longrightarrow> gateway w1 = gateway w \<Longrightarrow> stop_futures w1 = stop_futures w \<Longrightarrow> kept_futures w w1"
  by (simp add: kept_futures_def)

lemma notify_keeps:
  assumes "notify_stop i x w = Inr w1" "\<forall>f. m_stop_future_value x = Some f \<longrightarrow> f \<notin> set (snapshot_tasks (gateway w))"
  shows "kept_futures w w1"
  using assms by (auto simp: notify_stop_def kept_futures_def split: option.splits)

lemma stream_step_keeps:
  assumes inv: "stream_inv records ob0 w" and r: "gateway_runs w = Some i" and st: "stream_step env us i w = Inr (on, w1)"
  shows "kept_futures w w1"
proof -
  from inv r obtain n p where s: "streaming records ob0 n p w" by (auto simp: stream_inv_def idle_def launching_def)
  then obtain a b x where x: "wrappers w a = Some x" "streams w = [\<lparr>of_wrapper = a, into_book = Some b, stream_at = p\<rparr>]" "stop_ok p x w"
    and pl: "placed p (stream_tasks (gateway w)) (gateway_runs w)" by (auto simp: streaming_def)
  from pl r have i: "i = 0" and p: "p \<noteq> Stream_Ended" by (auto simp: placed_def split: stream_point.splits)
  have "wrapper_at a w = Inr x" by (simp add: wrapper_at_def x)
  with st x i p show ?thesis
    by (cases p) (auto simp: stream_step_def bindE_eq_Inr next_record_def stream_callback_def Let_def stop_ok_def
      split: option.splits list.splits if_splits intro!: kept_same elim!: notify_keeps)
qed

lemma snapshot_task_shows:
  assumes s: "stream_setting env body records ob0" and inv: "stream_inv records ob0 w" and g: "on_grid (mbo_messages records)"
    and f: "stop_futures w f = Some None" and st: "get_orderbook_snapshot_async env us f (w\<lparr>gateway := ts\<rparr>) = Inr w1"
  shows "\<exists>v. stop_futures w1 = (stop_futures w)(f \<mapsto> Some v) \<and> calls w1 = calls w \<and> gateway w1 = ts \<and> shows_prefix (mbo_messages records) v"
proof (cases "m_order_book w")
  case None
  with st f show ?thesis by (auto simp: get_orderbook_snapshot_async_def set_future_def shows_prefix_def)
next
  case (Some b)
  from current_book [OF inv Some] obtain n ob where ob: "order_books w b = Some ob" "book_after ob0 (mbo_messages records) n ob" by blast
  note snap = prefix_snapshot [OF s ob(2) g [unfolded on_grid_def]]
  from st Some ob(1) snap f obtain v where
    v: "snapshot_with_latencies env (snapshot_json
      (array_of (map entry_json (rev (spec_depth True (foldl spec_step [] (take n (mbo_messages records)))))))
      (array_of (map entry_json (spec_depth False (foldl spec_step [] (take n (mbo_messages records)))))))
      (add_sample (snapshot_latency w) us) (apply_stats w) = Inr v"
    and w1: "stop_futures w1 = (stop_futures w)(f \<mapsto> Some v)" "calls w1 = calls w" "gateway w1 = ts"
    by (auto simp: get_orderbook_snapshot_async_def Let_def bindE_eq_Inr set_future_def)
  from latencies_kept [OF v] ob(2) have "shows_prefix (mbo_messages records) v" by (auto simp: shows_prefix_def book_after_def)
  with w1 show ?thesis by blast
qed

lemma gateway_snapshots:
  assumes s: "stream_setting env body records ob0" and inv: "stream_inv records ob0 w" and g: "on_grid (mbo_messages records)"
    and ok: "snapshots_ok (mbo_messages records) w" and st: "gateway_step env us w = Inr w1"
  shows "snapshots_ok (mbo_messages records) w1"
proof (cases "gateway_runs w")
  case (Some i)
  with st obtain on w2 where w2: "stream_step env us i w = Inr (on, w2)" "w1 = w2\<lparr>gateway_runs := (if on then Some i else None)\<rparr>"
    by (auto simp: gateway_step_def bindE_eq_Inr)
  have "snapshots_ok (mbo_messages records) w2" by (rule kept_snapshots [OF stream_step_keeps [OF inv Some w2(1)] ok])
  then show ?thesis by (rule snapshots_ok_cong) (simp_all add: w2(2))
next
  case None
  show ?thesis
  proof (cases "gateway w")
    case Nil
    with None st ok show ?thesis by (simp add: gateway_step_def)
  next
    case (Cons t ts)
    show ?thesis
    proof (cases t)
      case (Launch_Task speed)
      with None Cons st have "start_streaming speed (w\<lparr>gateway := ts\<rparr>) = Inr w1" by (simp add: gateway_step_def)
      with Cons Launch_Task show ?thesis
        by (intro snapshots_ok_cong [OF ok]) (auto simp: start_streaming_def bindE_eq_Inr put_wrapper_def split: option.splits)
    next
      case (Stream_Task i)
      with None Cons st have "w1 = w\<lparr>gateway := ts, gateway_runs := Some i\<rparr>" by (simp add: gateway_step_def)
      with Cons Stream_Task show ?thesis by (intro snapshots_ok_cong [OF ok]) simp_all
    next
      case (Snapshot_Task f)
      have t: "stop_futures w f = Some None" "f \<notin> set (snapshot_tasks ts)" using inv Cons Snapshot_Task
        by (auto simp: stream_inv_def tasks_ok_def)
      from None Cons st Snapshot_Task have "get_orderbook_snapshot_async env us f (w\<lparr>gateway := ts\<rparr>) = Inr w1" by (simp add: gateway_step_def)
      from snapshot_task_shows [OF s inv g t(1) this] obtain v where
        v: "stop_futures w1 = (stop_futures w)(f \<mapsto> Some v)" "calls w1 = calls w" "gateway w1 = ts" "shows_prefix (mbo_messages records) v" by blast
      have "snapshot_call (mbo_messages records) w1 c" if "snapshot_call (mbo_messages records) w c" for c
        using that v Cons Snapshot_Task by (auto simp: snapshot_call_def split: handler_point.splits)
      with ok v(2) show ?thesis by (simp add: snapshots_ok_def)
    qed
  qed
qed

lemma step_snapshots:
  assumes s: "stream_setting env body records ob0" and inv: "stream_inv records ob0 w" and g: "on_grid (mbo_messages records)"
    and ok: "snapshots_ok (mbo_messages records) w" and st: "controller_step env w e = Inr w1"
  shows "snapshots_ok (mbo_messages records) w1"
proof (cases e)
  case (Request r)
  have "snapshot_call ms w \<lparr>request = r, call_speed = v, call_at = Entered\<rparr>" for ms v by (simp add: snapshot_call_def)
  with Request st ok show ?thesis by (auto simp: snapshots_ok_def nth_append less_Suc_eq)
next
  case (Io h)
  show ?thesis
  proof (cases "h < length (calls w) \<and> (io_runs w = None \<or> io_runs w = Some h)")
    case True
    with st Io obtain on w2 where w2: "handler_step env h w = Inr (on, w2)" "w1 = w2\<lparr>io_runs := (if on then Some h else None)\<rparr>"
      by (auto simp: bindE_eq_Inr)
    from handler_snapshots [OF inv ok _ w2(1)] True have "snapshots_ok (mbo_messages records) w2" by blast
    then show ?thesis by (rule snapshots_ok_cong) (simp_all add: w2(2))
  qed (use st Io ok in auto)
next
  case (Gateway us)
  with st gateway_snapshots [OF s inv g ok] show ?thesis by simp
next
  case (Timer_Fires i)
  with st show ?thesis
    by (intro snapshots_ok_cong [OF ok]) (auto simp: timer_step_def split: stream_point.splits)
qed

lemma run_snapshots:
  assumes s: "stream_setting env body records ob0" and g: "on_grid (mbo_messages records)"
  shows "stream_inv records ob0 w \<Longrightarrow> paced env body w \<Longrightarrow> \<forall>e \<in> set es. \<not> starts e \<Longrightarrow> snapshots_ok (mbo_messages records) w \<Longrightarrow>
    controller_run env w es = Inr w1 \<Longrightarrow> snapshots_ok (mbo_messages records) w1"
proof (induction es arbitrary: w)
  case (Cons e es)
  then obtain w2 where w2: "controller_step env w e = Inr w2" "controller_run env w2 es = Inr w1" by (auto simp: controller_run_def bindE_eq_Inr)
  with controller_step_inv [OF s Cons.prems(2,1), of e] Cons.prems(3) have "stream_inv records ob0 w2" by auto
  moreover have "paced env body w2" by (rule controller_step_paced [OF Cons.prems(2) _ w2(1)]) (use Cons.prems in simp)
  moreover note step_snapshots [OF s Cons.prems(1) g Cons.prems(4) w2(1)]
  ultimately show ?case using Cons.IH w2(2) Cons.prems(3) by simp
qed (simp add: controller_run_def)


subsection \<open>An example\<close>

lemma unpaced_until:
  assumes "unpaced env k w" "controller_run env w (replicate n (Gateway us)) = Inr w1"
  shows "unpaced env (k - n) w1"
  using assms
proof (induction n arbitrary: w k)
  case (Suc n)
  then obtain w2 where "gateway_step env us w = Inr w2" "controller_run env w2 (replicate n (Gateway us)) = Inr w1"
    by (auto simp: controller_run_def bindE_eq_Inr)
  with Suc.IH [OF unpaced_step [OF Suc.prems(1)]] show ?case by simp
qed (simp add: controller_run_def)

lemma io_updates [simp]: "io_runs (put_wrapper a x w) = io_runs w" "io_runs (at_point i p w) = io_runs w"
  by (simp_all add: put_wrapper_def at_point_def)

lemma next_record_io: "next_record env i a x w = Inr (on, w1) \<Longrightarrow> io_runs w1 = io_runs w"
  by (auto simp: next_record_def Let_def split: list.splits option.splits if_splits)

lemma notify_stop_io: "notify_stop i x w = Inr w1 \<Longrightarrow> io_runs w1 = io_runs w"
  by (auto simp: notify_stop_def split: option.splits)

lemma stream_callback_io: "stream_callback us bo m w = Inr w1 \<Longrightarrow> io_runs w1 = io_runs w"
  by (auto simp: stream_callback_def bindE_eq_Inr split: option.splits if_splits)

lemma stream_step_io: "stream_step env us i w = Inr (on, w1) \<Longrightarrow> io_runs w1 = io_runs w"
  by (cases "stream_at (streams w ! i)")
    (auto simp: stream_step_def Let_def bindE_eq_Inr dest: next_record_io notify_stop_io stream_callback_io)

lemma gateway_step_io: "gateway_step env us w = Inr w1 \<Longrightarrow> io_runs w1 = io_runs w"
  by (auto simp: gateway_step_def start_streaming_def get_orderbook_snapshot_async_def set_future_def Let_def bindE_eq_Inr
    split: option.splits list.splits gateway_task.splits dest: stream_step_io)

lemma gateway_run_io: "controller_run env w (replicate n (Gateway us)) = Inr w1 \<Longrightarrow> io_runs w1 = io_runs w"
proof (induction n arbitrary: w)
  case (Suc n)
  then obtain w2 where "gateway_step env us w = Inr w2" "controller_run env w2 (replicate n (Gateway us)) = Inr w1"
    by (auto simp: controller_run_def bindE_eq_Inr)
  with Suc.IH show ?case by (simp add: gateway_step_io)
qed (simp add: controller_run_def)

text \<open>The file is played, then a snapshot is asked for and answered.\<close>

definition ask_events :: "int stream_event list" where
  "ask_events = tl (start_events demo_body 7) @ replicate 11 (Gateway 7) @ [Request Get_Snapshot, Io 1, Gateway 7, Io 1]"

lemma ask_run:
  assumes s: "stream_setting (demo_env demo_records) demo_body demo_records ob0"
  shows "\<exists>w r. controller_run (demo_env demo_records) new_controller (Request (Start_Streaming demo_body) # ask_events) = Inr w \<and>
    length (calls w) = 2 \<and> request (calls w ! 1) = Get_Snapshot \<and> call_at (calls w ! 1) = Answered r"
proof -
  let ?env = "demo_env demo_records"
  have v: "request_speed ?env demo_body = Inr 0" "\<not> double_positive (arith ?env) 0"
    by (simp_all add: request_speed_def has_field_def is_json_value_def get_key_def demo_body_def json_to_double_def value_to_double_def
      demo_env_def demo_arith_def)
  from start_runs [OF s v(1), of 7] obtain w0 where w0: "controller_run ?env new_controller (start_events demo_body 7) = Inr w0"
    "gateway w0 = []" "gateway_runs w0 = Some 0" "wrappers w0 1 = Some (set_speed 0 (new_dbn_wrapper ?env demo_records))" "io_runs w0 = None"
    "streams w0 = [\<lparr>of_wrapper = 1, into_book = Some 0, stream_at = Begin_Stream\<rparr>]" "length (calls w0) = 1" by blast
  have u: "unpaced ?env 11 w0" using w0 v(2) by (simp add: unpaced_def set_speed_def new_dbn_wrapper_def demo_records_def)
  have es: "\<forall>e \<in> set ask_events. \<not> starts e" by (auto simp: ask_events_def start_events_def starts_def)
  from run_from_start [OF s demo_body_object es] obtain w where
    run: "controller_run ?env new_controller (Request (Start_Streaming demo_body) # ask_events) = Inr w" by blast
  have "Request (Start_Streaming demo_body) # ask_events =
      start_events demo_body 7 @ replicate 11 (Gateway 7) @ [Request Get_Snapshot, Io 1, Gateway 7, Io 1]"
    by (simp add: ask_events_def start_events_def)
  with run w0(1) obtain w1 where w1: "controller_run ?env w0 (replicate 11 (Gateway 7)) = Inr w1"
    and rest: "controller_run ?env w1 [Request Get_Snapshot, Io 1, Gateway 7, Io 1] = Inr w"
    by (auto simp: controller_run_def foldE_append bindE_eq_Inr)
  have "unpaced ?env 0 w1" using unpaced_until [OF u w1] by simp
  then have e: "gateway w1 = []" "gateway_runs w1 = None"
    using unpaced_ended [of ?env w1] by (auto simp: unpaced_def stream_ended_def)
  have c: "length (calls w1) = 1" "io_runs w1 = None" using gateway_run_calls [OF w1] gateway_run_io [OF w1] w0 by simp_all
  let ?f = "next_id w1" let ?call = "\<lparr>request = Get_Snapshot, call_speed = double_one (arith ?env), call_at = Wait_Future ?f\<rparr>"
  let ?w3 = "w1\<lparr>calls := calls w1 @ [?call], stop_futures := (stop_futures w1)(?f \<mapsto> None), next_id := ?f + 1, gateway := [Snapshot_Task ?f]\<rparr>"
  obtain c0 where c0: "calls w1 = [c0]" using c(1) by (auto simp: length_Suc_conv)
  have "controller_run ?env w1 [Request Get_Snapshot, Io 1] = Inr ?w3"
    using e c(2) c0 by (simp add: controller_run_def handler_step_def stop_defs call_to_def new_future_def)
  with rest obtain w4 where w4: "gateway_step ?env 7 ?w3 = Inr w4" "controller_step ?env w4 (Io 1) = Inr w"
    by (auto simp: controller_run_def bindE_eq_Inr simp del: controller_step.simps(2))
  have "calls w4 = [c0, ?call]" "io_runs w4 = None" using gateway_step_calls [OF w4(1)] gateway_step_io [OF w4(1)] c0 c(2) by simp_all
  moreover have "\<exists>v. stop_futures w4 ?f = Some (Some v)"
    using w4(1) e by (auto simp: gateway_step_def get_orderbook_snapshot_async_def set_future_def Let_def bindE_eq_Inr split: option.splits)
  ultimately show ?thesis using run w4(2) by (auto simp: handler_step_def call_to_def)
qed


end
