(* ===== verification/Epoll.thy ===== *)
theory Epoll
  imports JsonParse
begin

section \<open>The epoll event base (src/core/coroutine/epoll_base.cpp, src/core/system_io)\<close>

text \<open>
  \<open>EpollBase\<close> works on objects it knows only by the virtual methods of \<open>SystemIOObject\<close>:
  \<open>io_class\<close> is the table of these methods for objects \<open>'o\<close> over a state \<open>'w\<close>.

  The kernel is not part of the repository. What its calls return is a parameter, the list
  \<open>answers\<close>; \<open>kernel\<close> only keeps what is documented of the calls: a new descriptor is one
  that is not open, \<open>epoll_ctl\<close> registers an open descriptor once, \<open>close\<close> also takes the
  descriptor out of the epoll set. An exhausted list of answers stands for errors.
\<close>

subsection \<open>The system calls\<close>

datatype descriptor = Event_Fd nat | Timer_Fd "nat \<times> nat" | Unbound_Socket | Listening_Fd | Connection nat

record 'o kernel =
  answers :: "int list"
  descriptors :: "int \<Rightarrow> descriptor option"
  interest :: "int \<Rightarrow> (u32 \<times> 'o) option"
  accepted :: nat
  refused :: bool
  written :: "(nat \<times> string) list"

definition new_kernel :: "int list \<Rightarrow> 'o kernel" where
  "new_kernel as = \<lparr>answers = as, descriptors = (\<lambda>_. None), interest = (\<lambda>_. None), accepted = 0, refused = False, written = []\<rparr>"

definition answer_of :: "'o kernel \<Rightarrow> int \<times> 'o kernel" where
  "answer_of k = (case answers k of [] \<Rightarrow> (-1, k) | a # as \<Rightarrow> (a, k\<lparr>answers := as\<rparr>))"

definition new_fd :: "descriptor \<Rightarrow> 'o kernel \<Rightarrow> int \<times> 'o kernel" where
  "new_fd d k = (case answer_of k of (a, k1) \<Rightarrow>
     if 0 \<le> a \<and> descriptors k1 a = None then (a, k1\<lparr>descriptors := (descriptors k1)(a \<mapsto> d)\<rparr>)
     else (-1, k1\<lparr>refused := True\<rparr>))"

definition epoll_ctl_add :: "int \<Rightarrow> u32 \<Rightarrow> 'o \<Rightarrow> 'o kernel \<Rightarrow> int \<times> 'o kernel" where
  "epoll_ctl_add fd ev o' k = (case answer_of k of (a, k1) \<Rightarrow>
     if a = 0 \<and> descriptors k1 fd \<noteq> None \<and> interest k1 fd = None
     then (0, k1\<lparr>interest := (interest k1)(fd \<mapsto> (ev, o'))\<rparr>)
     else (-1, k1\<lparr>refused := True\<rparr>))"

definition epoll_ctl_del :: "int \<Rightarrow> 'o kernel \<Rightarrow> int \<times> 'o kernel" where
  "epoll_ctl_del fd k = (if interest k fd = None then (-1, k) else (0, k\<lparr>interest := (interest k)(fd := None)\<rparr>))"

definition close_fd :: "int \<Rightarrow> 'o kernel \<Rightarrow> 'o kernel" where
  "close_fd fd k = k\<lparr>descriptors := (descriptors k)(fd := None), interest := (interest k)(fd := None)\<rparr>"

definition eventfd_write :: "int \<Rightarrow> nat \<Rightarrow> 'o kernel \<Rightarrow> 'o kernel" where
  "eventfd_write fd n k = (case descriptors k fd of
     Some (Event_Fd c) \<Rightarrow> k\<lparr>descriptors := (descriptors k)(fd \<mapsto> Event_Fd (c + n))\<rparr> | _ \<Rightarrow> k)"

definition timerfd_settime :: "int \<Rightarrow> nat \<times> nat \<Rightarrow> 'o kernel \<Rightarrow> int \<times> 'o kernel" where
  "timerfd_settime fd ts k = (case answer_of k of (a, k1) \<Rightarrow>
     if a = 0 then (0, k1\<lparr>descriptors := (descriptors k1)(fd \<mapsto> Timer_Fd ts)\<rparr>)
     else (-1, k1\<lparr>refused := True\<rparr>))"

definition accept_connection :: "int \<Rightarrow> 'o kernel \<Rightarrow> int \<times> 'o kernel" where
  "accept_connection fd k =
     (if descriptors k fd = Some Listening_Fd
      then (case new_fd (Connection (accepted k)) k of (c, k1) \<Rightarrow> (c, if c = -1 then k1 else k1\<lparr>accepted := accepted k + 1\<rparr>))
      else (-1, k\<lparr>refused := True\<rparr>))"

definition write_fd :: "int \<Rightarrow> string \<Rightarrow> 'o kernel \<Rightarrow> 'o kernel" where
  "write_fd fd buf k = (case descriptors k fd of
     Some (Connection c) \<Rightarrow> k\<lparr>written := written k @ [(c, buf)]\<rparr> | _ \<Rightarrow> k)"

definition EPOLLIN :: u32 where "EPOLLIN = 1"
definition EPOLLOUT :: u32 where "EPOLLOUT = 4"
definition EPOLLERR :: u32 where "EPOLLERR = 8"
definition EPOLLHUP :: u32 where "EPOLLHUP = 16"
definition EPOLLRDHUP :: u32 where "EPOLLRDHUP = 8192"

unbundle bit_operations_syntax

definition has_event :: "u32 \<Rightarrow> u32 \<Rightarrow> bool" where
  "has_event ev flags \<longleftrightarrow> ev AND flags \<noteq> 0"

definition EPOLL_FAILED :: u32 where
  "EPOLL_FAILED = (EPOLLERR OR EPOLLHUP) OR EPOLLRDHUP"

lemma event_in [simp]: "has_event EPOLLIN EPOLLIN" "\<not> has_event EPOLLIN EPOLL_FAILED" "\<not> has_event EPOLLIN EPOLLOUT"
  by (simp_all add: has_event_def EPOLLIN_def EPOLL_FAILED_def EPOLLERR_def EPOLLHUP_def EPOLLRDHUP_def EPOLLOUT_def)

text \<open>The events \<open>epoll_wait\<close> may report for a descriptor: what was asked for, and errors.\<close>

definition may_report :: "'o kernel \<Rightarrow> int \<Rightarrow> u32 \<Rightarrow> bool" where
  "may_report k fd ev \<longleftrightarrow> (case interest k fd of
     None \<Rightarrow> False | Some (wanted, _) \<Rightarrow> ev \<noteq> 0 \<and> ev AND NOT (wanted OR EPOLLERR OR EPOLLHUP) = 0)"

subsection \<open>Objects and the event base\<close>

record ('o, 'w) system =
  kern :: "'o kernel"
  world :: 'w

type_synonym ('o, 'w) handler_result = "(int \<times> ('o, 'w) system) result option"

text \<open>\<open>None\<close>: the method does not return, it loops or ends the process.\<close>

record ('o, 'w) io_class =
  fd_of :: "'o \<Rightarrow> 'w \<Rightarrow> int"
  get_io_events :: "'o \<Rightarrow> u32"
  generate_fd :: "'o \<Rightarrow> ('o, 'w) system \<Rightarrow> ('o, 'w) handler_result"
  activate :: "'o \<Rightarrow> ('o, 'w) system \<Rightarrow> ('o, 'w) handler_result"
  on_read :: "'o \<Rightarrow> ('o, 'w) system \<Rightarrow> ('o, 'w) handler_result"
  on_write :: "'o \<Rightarrow> ('o, 'w) system \<Rightarrow> ('o, 'w) handler_result"
  release_object :: "'o \<Rightarrow> 'w \<Rightarrow> 'w result"

definition add_fd :: "('o, 'w) io_class \<Rightarrow> int \<Rightarrow> 'o \<Rightarrow> ('o, 'w) system \<Rightarrow> ('o, 'w) system" where
  "add_fd cl fd p st = st\<lparr>kern := snd (epoll_ctl_add fd (get_io_events cl p) p (kern st))\<rparr>"

definition del_fd :: "('o, 'w) io_class \<Rightarrow> int \<Rightarrow> 'o option \<Rightarrow> ('o, 'w) system \<Rightarrow> ('o, 'w) system result" where
  "del_fd cl fd po st = (case po of
     None \<Rightarrow> Inr st
   | Some p \<Rightarrow>
       if fd = -1 then Inr st
       else
         (let k1 = snd (epoll_ctl_del fd (kern st)); k2 = close_fd fd k1 in
          bindE (release_object cl p (world st)) (\<lambda>w. Inr (st\<lparr>kern := k2, world := w\<rparr>))))"

definition start_living_system_io_object :: "('o, 'w) io_class \<Rightarrow> 'o \<Rightarrow> ('o, 'w) system \<Rightarrow> ('o, 'w) system result option" where
  "start_living_system_io_object cl p st = bindP (generate_fd cl p st) (\<lambda>(fd, st1).
     if fd < 0 then Some (Inr st1)
     else bindP (activate cl p (add_fd cl fd p st1)) (\<lambda>(activate_res, st2).
       if activate_res < 0 then Some (del_fd cl fd (Some p) st2) else Some (Inr st2)))"

definition epoll_set_ready_task :: "('o, 'w) io_class \<Rightarrow> 'o \<Rightarrow> ('o, 'w) system \<Rightarrow> ('o, 'w) system result option" where
  "epoll_set_ready_task cl p st = bindP (generate_fd cl p st) (\<lambda>(fd, st1).
     if fd < 0 then Some (Inr st1)
     else (let st2 = add_fd cl fd p st1 in Some (Inr (st2\<lparr>kern := eventfd_write fd 1 (kern st2)\<rparr>))))"

text \<open>One event of the array that \<open>epoll_wait\<close> has filled, and the whole array.\<close>

definition handle_event :: "('o, 'w) io_class \<Rightarrow> 'o \<times> u32 \<Rightarrow> ('o, 'w) system \<Rightarrow> ('o, 'w) system result option" where
  "handle_event cl e st = (case e of (p, event) \<Rightarrow>
     let fd = fd_of cl p (world st) in
     if has_event event EPOLL_FAILED then Some (del_fd cl fd (Some p) st)
     else
       bindP (if has_event event EPOLLIN then on_read cl p st else Some (Inr (0, st))) (\<lambda>(res, st1).
         if res = -1 then Some (del_fd cl fd (Some p) st1)
         else
           bindP (if has_event event EPOLLOUT then on_write cl p st1 else Some (Inr (0, st1))) (\<lambda>(res, st2).
             if res = -1 then Some (del_fd cl fd (Some p) st2) else Some (Inr st2))))"

primrec epoll_loop_turn :: "('o, 'w) io_class \<Rightarrow> ('o \<times> u32) list \<Rightarrow> ('o, 'w) system \<Rightarrow> ('o, 'w) system result option" where
  "epoll_loop_turn cl [] st = Some (Inr st)"
| "epoll_loop_turn cl (e # es) st = bindP (handle_event cl e st) (epoll_loop_turn cl es)"

text \<open>
  The loop, for what \<open>epoll_wait\<close> yields one call after the other. When it fails the process exits, also when a
  signal has interrupted it.
\<close>

datatype 'o waited = Reported "('o \<times> u32) list" | Interrupted | Wait_Failed

datatype 'st loop_state = Running 'st | Exited

primrec epoll_loop :: "('o, 'w) io_class \<Rightarrow> 'o waited list \<Rightarrow> ('o, 'w) system \<Rightarrow> ('o, 'w) system loop_state result option" where
  "epoll_loop cl [] st = Some (Inr (Running st))"
| "epoll_loop cl (w # ws) st = (case w of
     Reported es \<Rightarrow> bindP (epoll_loop_turn cl es st) (epoll_loop cl ws)
   | Interrupted \<Rightarrow> Some (Inr Exited)
   | Wait_Failed \<Rightarrow> Some (Inr Exited))"

subsection \<open>The epoll set is well formed\<close>

text \<open>Only open descriptors are registered.\<close>

definition kernel_ok :: "'o kernel \<Rightarrow> bool" where
  "kernel_ok k \<longleftrightarrow> dom (interest k) \<subseteq> dom (descriptors k)"

lemma kernel_ok_mono:
  "kernel_ok k \<Longrightarrow> interest k' = interest k \<Longrightarrow> dom (descriptors k) \<subseteq> dom (descriptors k') \<Longrightarrow> kernel_ok k'"
  by (simp add: kernel_ok_def)

lemma answer_of_fields [simp]:
  "answer_of k = (a, k') \<Longrightarrow> descriptors k' = descriptors k" "answer_of k = (a, k') \<Longrightarrow> interest k' = interest k"
  "answer_of k = (a, k') \<Longrightarrow> accepted k' = accepted k" "answer_of k = (a, k') \<Longrightarrow> written k' = written k"
  "answer_of k = (a, k') \<Longrightarrow> refused k' = refused k"
  by (auto simp: answer_of_def split: list.splits)

lemma new_fd_cases:
  "(\<exists>k'. new_fd d k = (-1, k') \<and> descriptors k' = descriptors k \<and> interest k' = interest k) \<or>
   (\<exists>a k'. new_fd d k = (a, k') \<and> 0 \<le> a \<and> descriptors k a = None \<and> descriptors k' = (descriptors k)(a \<mapsto> d) \<and>
      interest k' = interest k)"
proof -
  obtain a k1 where "answer_of k = (a, k1)" by force
  then show ?thesis by (simp add: new_fd_def)
qed

lemma kernel_ok_add [simp]: "kernel_ok k \<Longrightarrow> kernel_ok (snd (epoll_ctl_add fd ev p k))"
  by (auto simp: kernel_ok_def epoll_ctl_add_def split: prod.splits)

lemma kernel_ok_del [simp]: "kernel_ok k \<Longrightarrow> kernel_ok (snd (epoll_ctl_del fd k))"
  by (auto simp: kernel_ok_def epoll_ctl_del_def)

lemma kernel_ok_close [simp]: "kernel_ok k \<Longrightarrow> kernel_ok (close_fd fd k)"
  by (auto simp: kernel_ok_def close_fd_def)

lemma kernel_ok_eventfd [simp]: "kernel_ok k \<Longrightarrow> kernel_ok (eventfd_write fd n k)"
  by (auto simp: kernel_ok_def eventfd_write_def split: option.splits descriptor.splits)

lemma close_deleted [simp]: "close_fd fd (snd (epoll_ctl_del fd k)) = close_fd fd k"
  by (simp add: epoll_ctl_del_def close_fd_def)

lemma kernel_ok_new: "kernel_ok k \<Longrightarrow> new_fd d k = (a, k') \<Longrightarrow> kernel_ok k'"
  using new_fd_cases [of d k] by (elim disjE exE conjE) (auto elim!: kernel_ok_mono)

subsection \<open>What the objects owe the event base\<close>

text \<open>
  The methods of an object may open and register descriptors of their own, but leave everyone
  else's alone, and \<open>generate_fd\<close> yields a descriptor that was not open.
\<close>

definition grows :: "'o kernel \<Rightarrow> 'o kernel \<Rightarrow> bool" where
  "grows k k' \<longleftrightarrow> (kernel_ok k \<longrightarrow> kernel_ok k') \<and> interest k \<subseteq>\<^sub>m interest k' \<and> dom (descriptors k) \<subseteq> dom (descriptors k')"

lemma grows_refl [simp]: "grows k k"
  by (simp add: grows_def)

lemma grows_trans: "grows k k' \<Longrightarrow> grows k' k'' \<Longrightarrow> grows k k''"
  by (auto simp: grows_def intro: map_le_trans)

lemma growsI: "kernel_ok k \<longrightarrow> kernel_ok k' \<Longrightarrow> interest k' = interest k \<or> (\<exists>fd x. interest k fd = None \<and> interest k' = (interest k)(fd \<mapsto> x)) \<Longrightarrow>
    dom (descriptors k) \<subseteq> dom (descriptors k') \<Longrightarrow> grows k k'"
  unfolding grows_def map_le_def by (intro conjI) (auto simp: dom_def)

lemma grows_same: "interest k' = interest k \<Longrightarrow> dom (descriptors k) \<subseteq> dom (descriptors k') \<Longrightarrow> grows k k'"
  by (rule growsI) (auto elim: kernel_ok_mono)

lemma grows_new: "new_fd d k = (a, k') \<Longrightarrow> grows k k' \<and> (0 \<le> a \<longrightarrow> descriptors k a = None)"
  using new_fd_cases [of d k] by (intro conjI grows_same) auto

lemma grows_add [simp]: "grows k (snd (epoll_ctl_add fd ev p k))"
proof (rule growsI)
  show "interest (snd (epoll_ctl_add fd ev p k)) = interest k \<or>
      (\<exists>fd' x. interest k fd' = None \<and> interest (snd (epoll_ctl_add fd ev p k)) = (interest k)(fd' \<mapsto> x))"
    by (auto simp: epoll_ctl_add_def split: prod.splits)
  show "dom (descriptors k) \<subseteq> dom (descriptors (snd (epoll_ctl_add fd ev p k)))"
    by (auto simp: epoll_ctl_add_def split: prod.splits)
qed simp

lemma grows_eventfd [simp]: "grows k (eventfd_write fd n k)"
  by (rule grows_same) (auto simp: eventfd_write_def split: option.splits descriptor.splits)

lemma grows_settime: "timerfd_settime fd ts k = (a, k') \<Longrightarrow> grows k k'"
  by (rule grows_same) (auto simp: timerfd_settime_def split: prod.splits if_splits)

text \<open>Closing a descriptor that was not open before leaves everything from before.\<close>

lemma grows_close: "grows k k' \<Longrightarrow> kernel_ok k \<Longrightarrow> descriptors k fd = None \<Longrightarrow> grows k (close_fd fd k')"
  unfolding grows_def close_fd_def kernel_ok_def map_le_def by auto

text \<open>\<open>k'\<close> has everything of \<open>k\<close> but at most the descriptor \<open>fd\<close>.\<close>

definition keeps_others :: "int \<Rightarrow> 'o kernel \<Rightarrow> 'o kernel \<Rightarrow> bool" where
  "keeps_others fd k k' \<longleftrightarrow> kernel_ok k' \<and> (interest k)(fd := None) \<subseteq>\<^sub>m interest k' \<and>
     dom (descriptors k) - {fd} \<subseteq> dom (descriptors k')"

lemma keeps_others_grows: "kernel_ok k \<Longrightarrow> grows k k' \<Longrightarrow> keeps_others fd k k'"
  unfolding grows_def keeps_others_def map_le_def by auto

lemma keeps_others_del: "kernel_ok k \<Longrightarrow> grows k k' \<Longrightarrow> keeps_others fd k (close_fd fd k')"
  unfolding grows_def keeps_others_def map_le_def close_fd_def kernel_ok_def by auto

lemma del_fd_eq: "del_fd cl fd (Some p) st = Inr st' \<Longrightarrow> fd \<noteq> -1 \<Longrightarrow>
    kern st' = close_fd fd (snd (epoll_ctl_del fd (kern st)))"
  by (auto simp: del_fd_def bindE_eq_Inr Let_def)

lemma bindP_eq: "bindP r f = Some (Inr y) \<longleftrightarrow> (\<exists>x. r = Some (Inr x) \<and> f x = Some (Inr y))"
  by (auto simp: bindP_def split: option.splits sum.splits)

locale io_objects =
  fixes cl :: "('o, 'w) io_class"
  assumes generate: "kernel_ok (kern st) \<Longrightarrow> generate_fd cl p st = Some (Inr (fd, st')) \<Longrightarrow>
      grows (kern st) (kern st') \<and> (0 \<le> fd \<longrightarrow> descriptors (kern st) fd = None)"
    and activate: "activate cl p st = Some (Inr (r, st')) \<Longrightarrow> grows (kern st) (kern st')"
    and read: "kernel_ok (kern st) \<Longrightarrow> on_read cl p st = Some (Inr (r, st')) \<Longrightarrow> grows (kern st) (kern st')"
    and "write": "on_write cl p st = Some (Inr (r, st')) \<Longrightarrow> grows (kern st) (kern st')"
begin

lemma start_living_grows:
  assumes ok: "kernel_ok (kern st)" and r: "start_living_system_io_object cl p st = Some (Inr st')"
  shows "grows (kern st) (kern st')"
proof -
  from r obtain fd st1 where g: "generate_fd cl p st = Some (Inr (fd, st1))"
    and c: "(if fd < 0 then Some (Inr st1) else bindP (activate cl p (add_fd cl fd p st1)) (\<lambda>(activate_res, st2).
       if activate_res < 0 then Some (del_fd cl fd (Some p) st2) else Some (Inr st2))) = Some (Inr st')"
    by (auto simp: start_living_system_io_object_def bindP_eq)
  note new = generate [OF ok g]
  show ?thesis
  proof (cases "fd < 0")
    case False
    with c obtain a st2 where a: "activate cl p (add_fd cl fd p st1) = Some (Inr (a, st2))"
      and d: "(if a < 0 then Some (del_fd cl fd (Some p) st2) else Some (Inr st2)) = Some (Inr st')"
      by (auto simp: bindP_eq)
    have "grows (kern st1) (kern (add_fd cl fd p st1))" by (simp add: add_fd_def)
    with new activate [OF a] have g: "grows (kern st) (kern st2)" by (meson grows_trans)
    from d False new ok g show ?thesis
      using grows_close [OF g ok] del_fd_eq [of cl fd p st2 st'] by (auto split: if_splits)
  qed (use c new in simp)
qed

lemma set_ready_grows:
  assumes ok: "kernel_ok (kern st)" and r: "epoll_set_ready_task cl p st = Some (Inr st')"
  shows "grows (kern st) (kern st')"
proof -
  from r obtain fd st1 where g: "generate_fd cl p st = Some (Inr (fd, st1))"
    and c: "st' = st1 \<or> st' = (add_fd cl fd p st1)\<lparr>kern := eventfd_write fd 1 (kern (add_fd cl fd p st1))\<rparr>"
    by (auto simp: epoll_set_ready_task_def bindP_eq Let_def split: if_splits)
  have "grows (kern st1) (kern (add_fd cl fd p st1))" by (simp add: add_fd_def)
  moreover have "grows (kern (add_fd cl fd p st1)) (eventfd_write fd 1 (kern (add_fd cl fd p st1)))" by simp
  ultimately show ?thesis using c generate [OF ok g] by (auto intro: grows_trans)
qed

lemma handle_event_keeps_others:
  assumes ok: "kernel_ok (kern st)" and r: "handle_event cl (p, ev) st = Some (Inr st')"
  shows "keeps_others (fd_of cl p (world st)) (kern st) (kern st')"
proof -
  let ?fd = "fd_of cl p (world st)"
  have del: "keeps_others ?fd (kern st) (kern st')"
    if "grows (kern st) (kern st1)" "del_fd cl ?fd (Some p) st1 = Inr st'" for st1
  proof (cases "?fd = -1")
    case True
    with that ok show ?thesis by (simp add: del_fd_def keeps_others_grows)
  next
    case False
    from del_fd_eq [OF that(2) this] that(1) ok show ?thesis by (simp add: keeps_others_del)
  qed
  show ?thesis
  proof (cases "has_event ev EPOLL_FAILED")
    case True
    with r del [of st] show ?thesis by (simp add: handle_event_def Let_def)
  next
    case False
    with r obtain r1 st1 where 1: "(if has_event ev EPOLLIN then on_read cl p st else Some (Inr (0, st))) = Some (Inr (r1, st1))"
      and c: "(if r1 = -1 then Some (del_fd cl ?fd (Some p) st1) else
        bindP (if has_event ev EPOLLOUT then on_write cl p st1 else Some (Inr (0, st1))) (\<lambda>(res, st2).
          if res = -1 then Some (del_fd cl ?fd (Some p) st2) else Some (Inr st2))) = Some (Inr st')"
      by (auto simp: handle_event_def Let_def bindP_eq)
    from 1 have g1: "grows (kern st) (kern st1)" using read [OF ok, of p] by (auto split: if_splits)
    show ?thesis
    proof (cases "r1 = -1")
      case True
      with c del [OF g1] show ?thesis by simp
    next
      case False
      with c obtain r2 st2 where 2: "(if has_event ev EPOLLOUT then on_write cl p st1 else Some (Inr (0, st1))) = Some (Inr (r2, st2))"
        and d: "(if r2 = -1 then Some (del_fd cl ?fd (Some p) st2) else Some (Inr st2)) = Some (Inr st')"
        by (auto simp: bindP_eq)
      from 2 have "grows (kern st1) (kern st2)" using "write" [of p st1] by (auto split: if_splits)
      with g1 have g2: "grows (kern st) (kern st2)" by (rule grows_trans)
      with d del [OF g2] ok show ?thesis by (auto simp: keeps_others_grows split: if_splits)
    qed
  qed
qed

lemma loop_turn_kernel_ok:
  "kernel_ok (kern st) \<Longrightarrow> epoll_loop_turn cl es st = Some (Inr st') \<Longrightarrow> kernel_ok (kern st')"
proof (induction es arbitrary: st)
  case (Cons e es)
  then obtain st1 where s: "handle_event cl (fst e, snd e) st = Some (Inr st1)" "epoll_loop_turn cl es st1 = Some (Inr st')"
    by (auto simp: bindP_eq)
  from handle_event_keeps_others [OF Cons.prems(1) s(1)] have "kernel_ok (kern st1)" by (simp add: keeps_others_def)
  from Cons.IH [OF this s(2)] show ?case .
qed simp

lemma loop_kernel_ok:
  "kernel_ok (kern st) \<Longrightarrow> epoll_loop cl ws st = Some (Inr (Running st')) \<Longrightarrow> kernel_ok (kern st')"
proof (induction ws arbitrary: st)
  case (Cons w ws)
  from Cons.prems(2) obtain es st1 where "epoll_loop_turn cl es st = Some (Inr st1)" "epoll_loop cl ws st1 = Some (Inr (Running st'))"
    by (auto simp: bindP_eq split: waited.splits)
  with Cons.IH loop_turn_kernel_ok [OF Cons.prems(1)] show ?case by blast
qed simp

end

end
