(* ===== verification/Timers.thy ===== *)
theory Timers
  imports Epoll CachePool
begin

section \<open>Tasks and timers on the epoll event base (src/core/system_io/timer_io.cpp, src/core/time)\<close>

text \<open>
  The two one-shot kinds of \<open>SystemIOObject\<close>: a \<open>TaskInfo\<close>, which is made ready through an
  \<open>eventfd\<close>, and a \<open>TimerIO\<close>, which fires through a \<open>timerfd\<close>. What \<open>check_handle\<close> and
  a timer's callback do to the coroutines is a parameter, \<open>code\<close>: from the state of the
  coroutines it yields the new one and what it asks of the event base, to mark tasks ready and to
  schedule timers.
\<close>

datatype io_ref = Task_Obj ptr | Timer_Obj ptr

record 'cb timer_io =
  timer_fd :: int
  interval_ns :: nat
  timer_callback :: "'cb option"

record ('v, 'cb) io_world =
  timers :: "'cb timer_io pool"
  task_fds :: "ptr \<Rightarrow> int"
  inner :: 'v

datatype 'cb io_request = Mark_Ready ptr | Schedule nat 'cb

record ('v, 'cb) code =
  check_task :: "ptr \<Rightarrow> 'v \<Rightarrow> ('v \<times> 'cb io_request list) result"
  run_callback :: "'cb \<Rightarrow> 'v \<Rightarrow> ('v \<times> 'cb io_request list) result"

subsection \<open>TimerIO\<close>

definition set_callback :: "nat \<Rightarrow> 'cb \<Rightarrow> 'cb timer_io \<Rightarrow> 'cb timer_io" where
  "set_callback interval_ns_value callback_value t =
     t\<lparr>interval_ns := interval_ns_value, timer_callback := Some callback_value\<rparr>"

definition clear_timer :: "'cb timer_io \<Rightarrow> 'cb timer_io" where
  "clear_timer t = t\<lparr>timer_callback := None, interval_ns := 0\<rparr>"

definition timer_class :: "'cb timer_io pool_class" where
  "timer_class = \<lparr>type_name = ''TimerIO'', has_init = None, has_clear = Some clear_timer\<rparr>"

definition timer_at :: "ptr \<Rightarrow> ('v, 'cb) io_world \<Rightarrow> 'cb timer_io" where
  "timer_at p w = objs (timers w) ! p"

definition put_timer :: "ptr \<Rightarrow> 'cb timer_io \<Rightarrow> ('v, 'cb) io_world \<Rightarrow> ('v, 'cb) io_world" where
  "put_timer p t w = w\<lparr>timers := (timers w)\<lparr>objs := (objs (timers w))[p := t]\<rparr>\<rparr>"

type_synonym ('v, 'cb) io_system = "(io_ref, ('v, 'cb) io_world) system"

definition timer_generate_fd :: "ptr \<Rightarrow> ('v, 'cb) io_system \<Rightarrow> int \<times> ('v, 'cb) io_system" where
  "timer_generate_fd p st = (case new_fd (Timer_Fd (0, 0)) (kern st) of (fd, k1) \<Rightarrow>
     let t = (timer_at p (world st))\<lparr>timer_fd := fd\<rparr>; st1 = st\<lparr>kern := k1, world := put_timer p t (world st)\<rparr> in
     if fd < 0 then (-1, st1)
     else (case timerfd_settime fd (interval_ns t div 1000000000, interval_ns t mod 1000000000) k1 of (r, k2) \<Rightarrow>
       if r < 0 then (-1, st1\<lparr>kern := close_fd fd k2\<rparr>) else (fd, st1\<lparr>kern := k2\<rparr>)))"

subsection \<open>TaskInfo\<close>

definition task_generate_fd :: "ptr \<Rightarrow> ('v, 'cb) io_system \<Rightarrow> int \<times> ('v, 'cb) io_system" where
  "task_generate_fd p st = (case new_fd (Event_Fd 0) (kern st) of (fd, k1) \<Rightarrow>
     (fd, st\<lparr>kern := k1, world := (world st)\<lparr>task_fds := (task_fds (world st))(p := fd)\<rparr>\<rparr>))"

subsection \<open>The methods\<close>

primrec io_fd :: "io_ref \<Rightarrow> ('v, 'cb) io_world \<Rightarrow> int" where
  "io_fd (Task_Obj p) w = task_fds w p"
| "io_fd (Timer_Obj p) w = timer_fd (timer_at p w)"

primrec io_generate_fd :: "io_ref \<Rightarrow> ('v, 'cb) io_system \<Rightarrow> int \<times> ('v, 'cb) io_system" where
  "io_generate_fd (Task_Obj p) = task_generate_fd p"
| "io_generate_fd (Timer_Obj p) = timer_generate_fd p"

text \<open>\<open>release\<close> of a \<open>TaskInfo\<close> does nothing: the event base releases it.\<close>

primrec io_release :: "io_ref \<Rightarrow> ('v, 'cb) io_world \<Rightarrow> ('v, 'cb) io_world result" where
  "io_release (Task_Obj p) w = Inr w"
| "io_release (Timer_Obj p) w = bindE (release timer_class (timers w) (Some p)) (\<lambda>pl. Inr (w\<lparr>timers := pl\<rparr>))"

text \<open>The methods of both classes except \<open>handle_read\<close>.\<close>

definition io_base :: "(io_ref, ('v, 'cb) io_world) io_class" where
  "io_base = \<lparr>fd_of = io_fd, get_io_events = (\<lambda>_. EPOLLIN), generate_fd = (\<lambda>p st. Some (Inr (io_generate_fd p st))),
     activate = (\<lambda>_ st. Some (Inr (0, st))), on_read = (\<lambda>_ st. Some (Inr (0, st))),
     on_write = (\<lambda>_ st. Some (Inr (0, st))), release_object = io_release\<rparr>"

subsection \<open>Timer (src/core/time/timer.cpp)\<close>

definition SECOND :: nat where "SECOND = 1000000000"
definition MILLISECOND :: nat where "MILLISECOND = 1000000"
definition MICROSECOND :: nat where "MICROSECOND = 1000"
definition NANOSECOND :: nat where "NANOSECOND = 1"

text \<open>The product is a \<open>size_t\<close>.\<close>

definition add_schedule_task :: "'cb \<Rightarrow> nat \<Rightarrow> nat \<Rightarrow> ('v, 'cb) io_system \<Rightarrow> ('v, 'cb) io_system result option" where
  "add_schedule_task cb tick_interval unit st =
     bindP (Some (acquire timer_class (timers (world st)))) (\<lambda>(p, pl).
       let w = (world st)\<lparr>timers := pl\<rparr>;
           t = set_callback ((tick_interval * unit) mod 2 ^ 64) cb (timer_at p w)
       in start_living_system_io_object io_base (Timer_Obj p) (st\<lparr>world := put_timer p t w\<rparr>))"

text \<open>What the execute function of the future that \<open>sleep_for\<close> returns schedules: its callback sets the future to the ticks.\<close>

definition sleep_for :: "nat \<Rightarrow> nat \<Rightarrow> (nat \<Rightarrow> 'cb) \<Rightarrow> ('v, 'cb) io_system \<Rightarrow> ('v, 'cb) io_system result option" where
  "sleep_for tick_interval unit set_future st =
     (let tick = (tick_interval * unit) mod 2 ^ 64 in add_schedule_task (set_future tick) tick NANOSECOND st)"

primrec perform :: "'cb io_request list \<Rightarrow> ('v, 'cb) io_system \<Rightarrow> ('v, 'cb) io_system result option" where
  "perform [] st = Some (Inr st)"
| "perform (r # rs) st = bindP (case r of
      Mark_Ready p \<Rightarrow> epoll_set_ready_task io_base (Task_Obj p) st
    | Schedule ns cb \<Rightarrow> add_schedule_task cb ns NANOSECOND st) (perform rs)"

text \<open>Both \<open>handle_read\<close> methods always return -1: the object has done its work.\<close>

definition with_code :: "('v \<Rightarrow> ('v \<times> 'cb io_request list) result) \<Rightarrow> ('v, 'cb) io_system \<Rightarrow>
    (int \<times> ('v, 'cb) io_system) result option" where
  "with_code f st = bindP (Some (f (inner (world st)))) (\<lambda>(v, rs).
     bindP (perform rs (st\<lparr>world := (world st)\<lparr>inner := v\<rparr>\<rparr>)) (\<lambda>st'. Some (Inr (-1, st'))))"

primrec io_handle_read :: "('v, 'cb) code \<Rightarrow> io_ref \<Rightarrow> ('v, 'cb) io_system \<Rightarrow> (int \<times> ('v, 'cb) io_system) result option" where
  "io_handle_read c (Task_Obj p) st = with_code (check_task c p) st"
| "io_handle_read c (Timer_Obj p) st = (case timer_callback (timer_at p (world st)) of
     None \<Rightarrow> Some (Inr (-1, st)) | Some cb \<Rightarrow> with_code (run_callback c cb) st)"

definition io_class_of :: "('v, 'cb) code \<Rightarrow> (io_ref, ('v, 'cb) io_world) io_class" where
  "io_class_of c = io_base\<lparr>on_read := io_handle_read c\<rparr>"

subsection \<open>The contract holds\<close>

lemma io_generate_grows:
  assumes k: "kernel_ok (kern st)" and ok: "io_generate_fd p st = (fd, st')"
  shows "grows (kern st) (kern st') \<and> (0 \<le> fd \<longrightarrow> descriptors (kern st) fd = None)"
proof (cases p)
  case (Task_Obj q)
  obtain a k1 where n: "new_fd (Event_Fd 0) (kern st) = (a, k1)" by force
  with ok Task_Obj grows_new [OF n] show ?thesis by (auto simp: task_generate_fd_def)
next
  case (Timer_Obj q)
  obtain a k1 where n: "new_fd (Timer_Fd (0, 0)) (kern st) = (a, k1)" by force
  let ?ts = "(interval_ns (timer_at q (world st)) div 1000000000, interval_ns (timer_at q (world st)) mod 1000000000)"
  obtain r k2 where s: "timerfd_settime a ?ts k1 = (r, k2)" by force
  note g = grows_new [OF n]
  from g grows_settime [OF s] have g2: "grows (kern st) k2" by (blast intro: grows_trans)
  show ?thesis
  proof (cases "0 \<le> a \<and> r < 0")
    case True
    have "grows (kern st) (close_fd a k2)" using grows_close [OF g2 k] g True by simp
    then show ?thesis using ok Timer_Obj n s True by (auto simp: timer_generate_fd_def Let_def)
  next
    case False
    with ok Timer_Obj n s g g2 show ?thesis by (auto simp: timer_generate_fd_def Let_def split: if_splits)
  qed
qed

interpretation base: io_objects "io_base :: (io_ref, ('v, 'cb) io_world) io_class"
  by unfold_locales (auto simp: io_base_def dest: io_generate_grows)

lemma schedule_grows:
  "kernel_ok (kern st) \<Longrightarrow> add_schedule_task cb n u st = Some (Inr st') \<Longrightarrow> grows (kern st) (kern st')"
  by (auto simp: add_schedule_task_def bindP_eq Let_def dest!: base.start_living_grows [rotated])

lemma perform_grows: "kernel_ok (kern st) \<Longrightarrow> perform rs st = Some (Inr st') \<Longrightarrow> grows (kern st) (kern st')"
proof (induction rs arbitrary: st)
  case (Cons r rs)
  then obtain st1 where s: "(case r of Mark_Ready p \<Rightarrow> epoll_set_ready_task io_base (Task_Obj p) st
      | Schedule ns cb \<Rightarrow> add_schedule_task cb ns NANOSECOND st) = Some (Inr st1)" "perform rs st1 = Some (Inr st')"
    by (auto simp: bindP_eq)
  from s(1) Cons.prems(1) have g: "grows (kern st) (kern st1)"
    by (cases r) (auto dest: base.set_ready_grows [rotated] schedule_grows)
  with Cons.prems(1) have "kernel_ok (kern st1)" by (simp add: grows_def)
  from Cons.IH [OF this s(2)] g show ?case by (blast intro: grows_trans)
qed simp

lemma with_code_grows:
  "kernel_ok (kern st) \<Longrightarrow> with_code f st = Some (Inr (r, st')) \<Longrightarrow> grows (kern st) (kern st')"
  by (auto simp: with_code_def bindP_eq dest!: perform_grows [rotated])

interpretation io: io_objects "io_class_of c"
proof unfold_locales
  fix p st fd r st'
  show "kernel_ok (kern st) \<Longrightarrow> generate_fd (io_class_of c) p st = Some (Inr (fd, st')) \<Longrightarrow>
      grows (kern st) (kern st') \<and> (0 \<le> fd \<longrightarrow> descriptors (kern st) fd = None)"
    by (auto simp: io_class_of_def io_base_def dest: io_generate_grows)
  show "kernel_ok (kern st) \<Longrightarrow> on_read (io_class_of c) p st = Some (Inr (r, st')) \<Longrightarrow> grows (kern st) (kern st')"
    by (cases p) (auto simp: io_class_of_def dest: with_code_grows split: option.splits)
qed (auto simp: io_class_of_def io_base_def)

end
