(* ===== verification/Timers_Inv.thy ===== *)
theory Timers_Inv
  imports Timers
begin

section \<open>Every ready task and every timer runs once\<close>

text \<open>
  Which tasks and timers are registered with the epoll set, and that every operation of
  \<open>Epoll\<close> and \<open>Timers\<close> keeps this exact while the kernel refuses nothing.
\<close>

subsection \<open>Pools with their objects\<close>

definition clean_pool :: "'o pool \<Rightarrow> bool" where
  "clean_pool pl \<longleftrightarrow> pool_ok pl \<and> length (objs pl) = pool_size pl \<and> distinct (pool_free pl) \<and>
     set (pool_free pl) \<subseteq> {..<pool_size pl}"

lemma clean_acquire:
  assumes c: "clean_pool pl" and a: "acquire c pl = Inr (p, pl')"
  shows "clean_pool pl' \<and> pool_free pl = p # pool_free pl' \<and> pool_size pl' = pool_size pl \<and> p < pool_size pl \<and>
    p \<notin> set (pool_free pl') \<and> objs pl' = run_hook (has_init c) p (objs pl)"
proof (cases "pool_free pl")
  case Nil
  then have "length (pool_free pl) = 0" by simp
  then have "free_cnt pl = 0" by (simp add: pool_free_def)
  with a show ?thesis by (simp add: acquire_def)
next
  case (Cons x xs)
  from acquire_ok [OF _ this, of c] c a have "x = p" "pool_ok pl'" "pool_free pl' = xs" "pool_size pl' = pool_size pl"
    by (auto simp: clean_pool_def)
  with c Cons acquire_objs_hook [OF a] show ?thesis
    by (auto simp: clean_pool_def run_hook_def split: option.splits)
qed

lemma clean_release:
  assumes c: "clean_pool pl" and p: "p < pool_size pl" "p \<notin> set (pool_free pl)"
  shows "\<exists>pl'. release c pl (Some p) = Inr pl' \<and> clean_pool pl' \<and> pool_free pl' = pool_free pl @ [p] \<and>
    pool_size pl' = pool_size pl \<and> objs pl' = run_hook (has_clear c) p (objs pl)"
proof -
  have "card (insert p (set (pool_free pl))) \<le> pool_size pl"
    using c p(1) card_mono [of "{..<pool_size pl}" "insert p (set (pool_free pl))"] by (simp add: clean_pool_def)
  then have "length (pool_free pl) < pool_size pl" using c p by (simp add: clean_pool_def distinct_card)
  with release_ok [of pl c p] c obtain pl' where r: "release c pl (Some p) = Inr pl'" "pool_ok pl'"
    "pool_free pl' = pool_free pl @ [p]" "pool_size pl' = pool_size pl" by (auto simp: clean_pool_def)
  with c p release_objs_hook [OF r(1)] show ?thesis
    by (auto simp: clean_pool_def run_hook_def split: option.splits)
qed

lemma clean_objs: "clean_pool pl \<Longrightarrow> clean_pool (pl\<lparr>objs := (objs pl)[p := t]\<rparr>)"
  by (simp add: clean_pool_def)

subsection \<open>The invariant\<close>

definition split_ns :: "nat \<Rightarrow> nat \<times> nat" where
  "split_ns n = (n div 1000000000, n mod 1000000000)"

abbreviation busy_timer :: "('v, 'cb) io_world \<Rightarrow> ptr \<Rightarrow> bool" where
  "busy_timer w p \<equiv> p < pool_size (timers w) \<and> p \<notin> set (pool_free (timers w))"

primrec reg_ok :: "ptr list \<Rightarrow> io_ref kernel \<Rightarrow> ('v, 'cb) io_world \<Rightarrow> int \<Rightarrow> io_ref \<Rightarrow> bool" where
  "reg_ok ps k w fd (Task_Obj p) \<longleftrightarrow> task_fds w p = fd \<and> p \<in> set ps \<and> descriptors k fd = Some (Event_Fd 1)"
| "reg_ok ps k w fd (Timer_Obj p) \<longleftrightarrow> timer_fd (timer_at p w) = fd \<and> busy_timer w p \<and>
     timer_callback (timer_at p w) \<noteq> None \<and> descriptors k fd = Some (Timer_Fd (split_ns (interval_ns (timer_at p w))))"

text \<open>
  \<open>ps\<close>: the tasks that have been marked ready and not yet run. \<open>X\<close>: the descriptors of
  running tasks.
\<close>

definition sound :: "int set \<Rightarrow> ptr list \<Rightarrow> io_ref kernel \<Rightarrow> ('v, 'cb) io_world \<Rightarrow> bool" where
  "sound X ps k w \<longleftrightarrow> (\<forall>fd ev o'. fd \<notin> X \<longrightarrow> interest k fd = Some (ev, o') \<longrightarrow> ev = EPOLLIN \<and> reg_ok ps k w fd o')"

definition complete :: "int set \<Rightarrow> ptr list \<Rightarrow> io_ref kernel \<Rightarrow> ('v, 'cb) io_world \<Rightarrow> bool" where
  "complete X ps k w \<longleftrightarrow> dom (descriptors k) \<subseteq> dom (interest k) \<union> X \<and>
     (\<forall>p\<in>set ps. interest k (task_fds w p) = Some (EPOLLIN, Task_Obj p) \<and> task_fds w p \<notin> X) \<and>
     (\<forall>p. busy_timer w p \<longrightarrow> interest k (timer_fd (timer_at p w)) = Some (EPOLLIN, Timer_Obj p) \<and> timer_fd (timer_at p w) \<notin> X)"

definition io_inv :: "int set \<Rightarrow> ptr list \<Rightarrow> io_ref kernel \<Rightarrow> ('v, 'cb) io_world \<Rightarrow> bool" where
  "io_inv X ps k w \<longleftrightarrow> kernel_ok k \<and> dom (descriptors k) \<subseteq> {0..} \<and> X \<subseteq> dom (descriptors k) \<and> clean_pool (timers w) \<and>
     sound X ps k w \<and> (\<not> refused k \<longrightarrow> complete X ps k w)"

subsection \<open>Starting an object\<close>

text \<open>What starting an object does to the kernel: it is refused, and at most a descriptor opened, or it is registered.\<close>

inductive started :: "int \<Rightarrow> descriptor \<Rightarrow> u32 \<times> 'o \<Rightarrow> 'o kernel \<Rightarrow> 'o kernel \<Rightarrow> bool" where
  no_descriptor: "refused k' \<Longrightarrow> interest k' = interest k \<Longrightarrow> descriptors k' = descriptors k \<Longrightarrow>
    fd = -1 \<or> descriptors k fd = None \<Longrightarrow> started fd d p k k'"
| unregistered: "refused k' \<Longrightarrow> interest k' = interest k \<Longrightarrow> 0 \<le> fd \<Longrightarrow> descriptors k fd = None \<Longrightarrow>
    descriptors k' = (descriptors k)(fd \<mapsto> d) \<Longrightarrow> started fd d p k k'"
| registered: "refused k' = refused k \<Longrightarrow> 0 \<le> fd \<Longrightarrow> descriptors k fd = None \<Longrightarrow>
    descriptors k' = (descriptors k)(fd \<mapsto> d) \<Longrightarrow> interest k' = (interest k)(fd \<mapsto> p) \<Longrightarrow> started fd d p k k'"

lemma new_fd_result: "new_fd d k = (a, k') \<Longrightarrow>
   (a = -1 \<and> descriptors k' = descriptors k \<and> interest k' = interest k \<and> refused k') \<or>
   (0 \<le> a \<and> descriptors k a = None \<and> descriptors k' = (descriptors k)(a \<mapsto> d) \<and> interest k' = interest k \<and>
     refused k' = refused k)"
  by (auto simp: new_fd_def split: prod.splits if_splits)

lemma add_result: "epoll_ctl_add fd ev p k = (r, k') \<Longrightarrow> descriptors k fd = Some d \<Longrightarrow> interest k fd = None \<Longrightarrow>
   descriptors k' = descriptors k \<and>
   (interest k' = interest k \<and> refused k' \<or> interest k' = (interest k)(fd \<mapsto> (ev, p)) \<and> refused k' = refused k)"
  by (auto simp: epoll_ctl_add_def split: prod.splits if_splits)

lemma settime_result: "timerfd_settime fd ts k = (r, k') \<Longrightarrow>
   (r = -1 \<and> descriptors k' = descriptors k \<and> interest k' = interest k \<and> refused k') \<or>
   (r = 0 \<and> descriptors k' = (descriptors k)(fd \<mapsto> Timer_Fd ts) \<and> interest k' = interest k \<and> refused k' = refused k)"
  by (auto simp: timerfd_settime_def split: prod.splits if_splits)

lemma io_base_simps [simp]:
  "generate_fd io_base p st = Some (Inr (io_generate_fd p st))" "activate io_base p st = Some (Inr (0, st))"
  "get_io_events io_base p = EPOLLIN" "fd_of io_base = io_fd" "release_object io_base = io_release"
  "on_write io_base p st = Some (Inr (0, st))"
  by (simp_all add: io_base_def)

lemma not_open: "kernel_ok k \<Longrightarrow> descriptors k fd = None \<Longrightarrow> interest k fd = None"
  unfolding kernel_ok_def by (metis domIff subsetD)

lemma set_ready_started:
  assumes k: "kernel_ok (kern st)" and r: "epoll_set_ready_task io_base (Task_Obj p) st = Some (Inr st')"
  shows "\<exists>fd. started fd (Event_Fd 1) (EPOLLIN, Task_Obj p) (kern st) (kern st') \<and>
    world st' = (world st)\<lparr>task_fds := (task_fds (world st))(p := fd)\<rparr>"
proof -
  obtain fd k1 where n: "new_fd (Event_Fd 0) (kern st) = (fd, k1)" by force
  note nr = new_fd_result [OF n]
  show ?thesis
  proof (cases "fd < 0")
    case True
    with r n nr show ?thesis by (intro exI [of _ fd]) (auto simp: epoll_set_ready_task_def task_generate_fd_def intro: started.intros)
  next
    case False
    with nr have d: "descriptors (kern st) fd = None" "descriptors k1 = (descriptors (kern st))(fd \<mapsto> Event_Fd 0)"
      "interest k1 = interest (kern st)" "refused k1 = refused (kern st)" "0 \<le> fd" by auto
    obtain r' k2 where a: "epoll_ctl_add fd EPOLLIN (Task_Obj p) k1 = (r', k2)" by force
    from add_result [OF a, of "Event_Fd 0"] d not_open [OF k d(1)]
    have "descriptors k2 = (descriptors (kern st))(fd \<mapsto> Event_Fd 0)"
      "interest k2 = interest (kern st) \<and> refused k2 \<or>
       interest k2 = (interest (kern st))(fd \<mapsto> (EPOLLIN, Task_Obj p)) \<and> refused k2 = refused (kern st)" by auto
    with r n a d(1,5) show ?thesis
      by (intro exI [of _ fd]) (auto simp: epoll_set_ready_task_def task_generate_fd_def add_fd_def Let_def eventfd_write_def
          intro: started.intros)
  qed
qed

lemma timer_at_put: "clean_pool (timers w) \<Longrightarrow> p < pool_size (timers w) \<Longrightarrow>
    timer_at q (put_timer p t w) = (if q = p then t else timer_at q w)"
  by (simp add: timer_at_def put_timer_def clean_pool_def nth_list_update)

lemma put_timer_fields [simp]:
  "pool_free (timers (put_timer p t w)) = pool_free (timers w)" "pool_size (timers (put_timer p t w)) = pool_size (timers w)"
  "task_fds (put_timer p t w) = task_fds w" "inner (put_timer p t w) = inner w"
  "clean_pool (timers (put_timer p t w)) = clean_pool (timers w)"
  by (simp_all add: put_timer_def clean_pool_def)

lemma put_timer_twice [simp]: "put_timer p t (put_timer p u w) = put_timer p t w"
  by (simp add: put_timer_def)

lemma start_timer_started:
  assumes k: "kernel_ok (kern st)" and w: "clean_pool (timers (world st))" "p < pool_size (timers (world st))"
    and t: "timer_at p (world st) = t"
    and r: "start_living_system_io_object io_base (Timer_Obj p) st = Some (Inr st')"
  shows "\<exists>fd. started fd (Timer_Fd (split_ns (interval_ns t))) (EPOLLIN, Timer_Obj p) (kern st) (kern st') \<and>
    world st' = put_timer p (t\<lparr>timer_fd := fd\<rparr>) (world st)"
proof -
  obtain fd k1 where n: "new_fd (Timer_Fd (0, 0)) (kern st) = (fd, k1)" by force
  note nr = new_fd_result [OF n]
  show ?thesis
  proof (cases "fd < 0")
    case True
    with r n nr t show ?thesis
      by (intro exI [of _ fd]) (auto simp: start_living_system_io_object_def timer_generate_fd_def Let_def intro: started.intros)
  next
    case False
    with nr have d: "descriptors (kern st) fd = None" "descriptors k1 = (descriptors (kern st))(fd \<mapsto> Timer_Fd (0, 0))"
      "interest k1 = interest (kern st)" "refused k1 = refused (kern st)" "0 \<le> fd" by auto
    obtain r2 k2 where s: "timerfd_settime fd (split_ns (interval_ns t)) k1 = (r2, k2)" by force
    from settime_result [OF s] consider "r2 = -1" "descriptors k2 = descriptors k1" "interest k2 = interest k1" "refused k2"
      | "r2 = 0" "descriptors k2 = (descriptors k1)(fd \<mapsto> Timer_Fd (split_ns (interval_ns t)))" "interest k2 = interest k1"
        "refused k2 = refused k1" by blast
    then show ?thesis
    proof cases
      case 1
      have "(descriptors (kern st))(fd := None) = descriptors (kern st)" "(interest (kern st))(fd := None) = interest (kern st)"
        using d(1) not_open [OF k d(1)] by auto
      with 1 r n s t False d show ?thesis
        by (intro exI [of _ fd]) (auto simp: start_living_system_io_object_def timer_generate_fd_def Let_def split_ns_def close_fd_def
            intro: started.intros)
    next
      case 2
      obtain r3 k3 where a: "epoll_ctl_add fd EPOLLIN (Timer_Obj p) k2 = (r3, k3)" by force
      from add_result [OF a, of "Timer_Fd (split_ns (interval_ns t))"] 2 d not_open [OF k d(1)]
      have "descriptors k3 = (descriptors (kern st))(fd \<mapsto> Timer_Fd (split_ns (interval_ns t)))"
        "interest k3 = interest (kern st) \<and> refused k3 \<or>
         interest k3 = (interest (kern st))(fd \<mapsto> (EPOLLIN, Timer_Obj p)) \<and> refused k3 = refused (kern st)" by auto
      with 2 r n s a t False d(1,5) show ?thesis
        by (intro exI [of _ fd]) (auto simp: start_living_system_io_object_def timer_generate_fd_def Let_def split_ns_def add_fd_def
            intro: started.intros)
    qed
  qed
qed

lemma started_keeps: "started fd d p k k' \<Longrightarrow> descriptors k x = Some y \<Longrightarrow> descriptors k' x = Some y"
  by (cases rule: started.cases) auto

lemma started_interest: "started fd d p k k' \<Longrightarrow> interest k' x = Some (ev, q) \<Longrightarrow>
    interest k x = Some (ev, q) \<or> (x = fd \<and> (ev, q) = p \<and> descriptors k' fd = Some d)"
  by (cases rule: started.cases) (auto split: if_splits)

text \<open>Everything that is open or registered stays as it is.\<close>

definition keeps :: "'o kernel \<Rightarrow> 'o kernel \<Rightarrow> bool" where
  "keeps k k' \<longleftrightarrow> descriptors k \<subseteq>\<^sub>m descriptors k' \<and> interest k \<subseteq>\<^sub>m interest k'"

lemma keeps_refl [simp]: "keeps k k"
  by (simp add: keeps_def)

lemma keeps_trans: "keeps k k' \<Longrightarrow> keeps k' k'' \<Longrightarrow> keeps k k''"
  by (auto simp: keeps_def intro: map_le_trans)

lemma keepsD: "keeps k k' \<Longrightarrow> descriptors k x = Some d \<Longrightarrow> descriptors k' x = Some d"
  "keeps k k' \<Longrightarrow> interest k x = Some i \<Longrightarrow> interest k' x = Some i"
  by (auto simp: keeps_def map_le_def dom_def)

lemma started_keeps_all:
  assumes s: "started fd d p k k'" and k: "kernel_ok k"
  shows "keeps k k'"
proof -
  have n: "descriptors k fd = None \<Longrightarrow> interest k fd = None" by (rule not_open [OF k])
  from s show ?thesis
    by cases (use n in \<open>auto simp: keeps_def map_le_def\<close>)
qed

lemma started_fresh:
  assumes "started fd d p k k'" "X \<subseteq> dom (descriptors k)" "dom (descriptors k) \<subseteq> {0..}"
  shows "fd \<notin> X"
proof
  assume "fd \<in> X"
  then have "fd \<in> dom (descriptors k)" using assms(2) by (rule rev_subsetD)
  moreover from this assms(3) have "fd \<in> {0..}" by (rule rev_subsetD)
  moreover from assms(1) have "fd = -1 \<or> descriptors k fd = None" by cases simp_all
  ultimately show False by (auto simp: domIff)
qed

lemma started_kernel:
  assumes s: "started fd d p k k'" and k: "kernel_ok k" "dom (descriptors k) \<subseteq> {0..}"
  shows "kernel_ok k' \<and> dom (descriptors k') \<subseteq> {0..} \<and> dom (descriptors k) \<subseteq> dom (descriptors k')"
  using s
proof cases
  case registered
  with k have "dom (interest k') \<subseteq> insert fd (dom (descriptors k))" unfolding kernel_ok_def by fastforce
  with registered k(2) show ?thesis by (simp add: kernel_ok_def subset_insertI)
qed (use k in \<open>simp_all add: kernel_ok_def subset_insertI subset_insertI2\<close>)

lemma started_done:
  assumes "started fd d p k k'" "\<not> refused k'"
  shows "\<not> refused k \<and> 0 \<le> fd \<and> descriptors k fd = None \<and>
    descriptors k' = (descriptors k)(fd \<mapsto> d) \<and> interest k' = (interest k)(fd \<mapsto> p)"
  using assms by cases simp_all

lemma timer_at_fields [simp]: "timer_at q (w\<lparr>task_fds := f\<rparr>) = timer_at q w" "timer_at q (w\<lparr>inner := v\<rparr>) = timer_at q w"
  by (simp_all add: timer_at_def)

lemma reg_ok_mono:
  "reg_ok ps k w fd p \<Longrightarrow> (\<And>d. descriptors k fd = Some d \<Longrightarrow> descriptors k' fd = Some d) \<Longrightarrow> set ps \<subseteq> set qs \<Longrightarrow> reg_ok qs k' w fd p"
  by (cases p) auto

lemma mark_inv:
  assumes inv: "io_inv X ps k w" and s: "started fd (Event_Fd 1) (EPOLLIN, Task_Obj p) k k'" and p: "p \<notin> set ps"
  shows "io_inv X (ps @ [p]) k' (w\<lparr>task_fds := (task_fds w)(p := fd)\<rparr>) \<and> keeps k k'"
proof -
  let ?w = "w\<lparr>task_fds := (task_fds w)(p := fd)\<rparr>"
  have k: "kernel_ok k" "dom (descriptors k) \<subseteq> {0..}" "X \<subseteq> dom (descriptors k)" and so: "sound X ps k w"
    using inv by (auto simp: io_inv_def)
  note k' = started_kernel [OF s k(1,2)]
  have fX: "fd \<notin> X" by (rule started_fresh [OF s k(3,2)])
  have "reg_ok (ps @ [p]) k' ?w x q" if "reg_ok ps k w x q" for x q
    using that p started_keeps [OF s, of x] by (cases q) auto
  moreover have "reg_ok (ps @ [p]) k' ?w fd (Task_Obj p)" if "descriptors k' fd = Some (Event_Fd 1)"
    using that by simp
  ultimately have "sound X (ps @ [p]) k' ?w"
    using so started_interest [OF s] unfolding sound_def by blast
  moreover have "complete X (ps @ [p]) k' ?w" if "\<not> refused k'"
  proof -
    note d = started_done [OF s that]
    with inv have c: "complete X ps k w" by (simp add: io_inv_def)
    from d not_open [OF k(1)] have "interest k fd = None" by blast
    with c d p fX show ?thesis by (auto simp: complete_def)
  qed
  moreover have "X \<subseteq> dom (descriptors k')" using k(3) k' by (blast intro: subset_trans)
  ultimately show ?thesis using inv k' started_keeps_all [OF s k(1)] by (simp add: io_inv_def)
qed

lemma schedule_inv:
  assumes inv: "io_inv X ps (kern st) (world st)" and r: "add_schedule_task cb n u st = Some (Inr st')"
  shows "io_inv X ps (kern st') (world st') \<and> inner (world st') = inner (world st) \<and> keeps (kern st) (kern st')"
proof -
  let ?w = "world st" let ?k = "kern st"
  from r obtain p pl where a: "acquire timer_class (timers ?w) = Inr (p, pl)"
    by (cases "acquire timer_class (timers ?w)") (auto simp: add_schedule_task_def)
  let ?t = "set_callback ((n * u) mod 2 ^ 64) cb (timer_at p (?w\<lparr>timers := pl\<rparr>))"
  let ?w1 = "put_timer p ?t (?w\<lparr>timers := pl\<rparr>)"
  have k: "kernel_ok ?k" "dom (descriptors ?k) \<subseteq> {0..}" "X \<subseteq> dom (descriptors ?k)" "clean_pool (timers ?w)"
    and so: "sound X ps ?k ?w" using inv by (auto simp: io_inv_def)
  note c = clean_acquire [OF k(4) a]
  have pl: "objs pl = objs (timers ?w)" using c by (simp add: timer_class_def run_hook_def)
  have t1: "timer_at p ?w1 = ?t" and w1: "clean_pool (timers ?w1)" "p < pool_size (timers ?w1)"
    using c by (simp_all add: timer_at_put)
  from r a have "start_living_system_io_object io_base (Timer_Obj p) (st\<lparr>world := ?w1\<rparr>) = Some (Inr st')"
    by (simp add: add_schedule_task_def Let_def)
  from start_timer_started [OF _ _ _ _ this, of ?t] k(1) w1 t1 obtain fd where
    s: "started fd (Timer_Fd (split_ns (interval_ns ?t))) (EPOLLIN, Timer_Obj p) ?k (kern st')"
    and w': "world st' = put_timer p (?t\<lparr>timer_fd := fd\<rparr>) (?w\<lparr>timers := pl\<rparr>)" by auto
  note k' = started_kernel [OF s k(1,2)]
  have fX: "fd \<notin> X" by (rule started_fresh [OF s k(3,2)])
  have at: "timer_at q (world st') = (if q = p then ?t\<lparr>timer_fd := fd\<rparr> else timer_at q ?w)" for q
    using c by (simp add: w' timer_at_put) (simp add: timer_at_def pl)
  have busy: "busy_timer (world st') q \<longleftrightarrow> q = p \<or> busy_timer ?w q" for q
    using c by (auto simp: w')
  have np: "\<not> busy_timer ?w p" using c by simp
  have tf: "task_fds (world st') = task_fds ?w" by (simp add: w')
  have reg: "reg_ok ps (kern st') (world st') x q" if "reg_ok ps ?k ?w x q" for x q
  proof (cases q)
    case (Timer_Obj j)
    with that np have "j \<noteq> p" by auto
    with that Timer_Obj busy [of j] at [of j] started_keeps [OF s, of x] show ?thesis by auto
  qed (use that tf started_keeps [OF s, of x] in auto)
  have "reg_ok ps (kern st') (world st') fd (Timer_Obj p)" if "descriptors (kern st') fd = Some (Timer_Fd (split_ns (interval_ns ?t)))"
    using that at [of p] busy [of p] by (simp add: set_callback_def)
  with reg so started_interest [OF s] have "sound X ps (kern st') (world st')"
    unfolding sound_def tf by blast
  moreover have "complete X ps (kern st') (world st')" if "\<not> refused (kern st')"
  proof -
    note d = started_done [OF s that]
    with inv have co: "complete X ps ?k ?w" by (simp add: io_inv_def)
    from d not_open [OF k(1)] have "interest ?k fd = None" by blast
    with co d tf at busy np fX show ?thesis by (auto simp: complete_def)
  qed
  moreover have "X \<subseteq> dom (descriptors (kern st'))" using k(3) k' by (blast intro: subset_trans)
  ultimately show ?thesis using k' c started_keeps_all [OF s k(1)] by (simp add: io_inv_def w')
qed

primrec marks :: "'cb io_request list \<Rightarrow> ptr list" where
  "marks [] = []"
| "marks (r # rs) = (case r of Mark_Ready p \<Rightarrow> p # marks rs | Schedule _ _ \<Rightarrow> marks rs)"

lemma perform_inv:
  "io_inv X ps (kern st) (world st) \<Longrightarrow> distinct (ps @ marks rs) \<Longrightarrow> perform rs st = Some (Inr st') \<Longrightarrow>
     io_inv X (ps @ marks rs) (kern st') (world st') \<and> inner (world st') = inner (world st) \<and> keeps (kern st) (kern st')"
proof (induction rs arbitrary: ps st)
  case (Cons r rs)
  show ?case
  proof (cases r)
    case (Mark_Ready p)
    with Cons.prems(3) obtain st1 where s: "epoll_set_ready_task io_base (Task_Obj p) st = Some (Inr st1)" "perform rs st1 = Some (Inr st')"
      by (auto simp: bindP_eq)
    from Cons.prems(1) have "kernel_ok (kern st)" by (simp add: io_inv_def)
    from set_ready_started [OF this s(1)] mark_inv [OF Cons.prems(1), of _ p] Cons.prems(2) Mark_Ready
    have "io_inv X (ps @ [p]) (kern st1) (world st1)" "inner (world st1) = inner (world st)" "keeps (kern st) (kern st1)" by auto
    with Cons.IH [of "ps @ [p]" st1] s(2) Cons.prems(2) Mark_Ready show ?thesis by (auto intro: keeps_trans)
  next
    case (Schedule n cb)
    with Cons.prems(3) obtain st1 where s: "add_schedule_task cb n NANOSECOND st = Some (Inr st1)" "perform rs st1 = Some (Inr st')"
      by (auto simp: bindP_eq)
    from schedule_inv [OF Cons.prems(1) s(1)] Cons.IH [of ps st1] s(2) Cons.prems(2) Schedule show ?thesis by (auto intro: keeps_trans)
  qed
qed simp

end
