(* ===== verification/Timers_Run.thy ===== *)
theory Timers_Run
  imports Timers_Inv
begin

section \<open>Runs of the epoll event base\<close>

text \<open>
  Sequences of events of the epoll event base, and the contract \<open>ready_tasks\<close> for the code that the
  tasks and timers run.
\<close>

subsection \<open>One event\<close>

definition readable :: "'o kernel \<Rightarrow> int \<Rightarrow> bool" where
  "readable k fd \<longleftrightarrow> (case descriptors k fd of
     Some (Event_Fd n) \<Rightarrow> 0 < n | Some (Timer_Fd ts) \<Rightarrow> ts \<noteq> (0, 0) | _ \<Rightarrow> False)"

text \<open>
  \<open>Ready fd\<close>: \<open>epoll_wait\<close> reports a descriptor that can be read, a timer's once it has been
  armed. \<open>Post cb\<close> and \<open>Add_Timer tick unit cb\<close>: code outside the loop, on another thread or
  before the loop has begun, runs \<open>cb\<close> or calls \<open>add_schedule_task\<close>.
\<close>

datatype 'cb io_event = Ready int | Post 'cb | Add_Timer nat nat 'cb

fun io_step :: "('v, 'cb) code \<Rightarrow> ('v, 'cb) io_system \<Rightarrow> 'cb io_event \<Rightarrow> ('v, 'cb) io_system result option" where
  "io_step c st (Ready fd) = (case interest (kern st) fd of
     None \<Rightarrow> Some (Inr st)
   | Some (_, p) \<Rightarrow> if readable (kern st) fd then handle_event (io_class_of c) (p, EPOLLIN) st else Some (Inr st))"
| "io_step c st (Post cb) = bindP (with_code (run_callback c cb) st) (\<lambda>(_, st'). Some (Inr st'))"
| "io_step c st (Add_Timer tick unit cb) = add_schedule_task cb tick unit st"

primrec io_run :: "('v, 'cb) code \<Rightarrow> ('v, 'cb) io_system \<Rightarrow> 'cb io_event list \<Rightarrow> ('v, 'cb) io_system result option" where
  "io_run c st [] = Some (Inr st)"
| "io_run c st (e # es) = bindP (io_step c st e) (\<lambda>st'. io_run c st' es)"

lemma with_code_inv:
  assumes "io_inv X ps (kern st) (world st)" "f (inner (world st)) = Inr (v, rs)" "distinct (ps @ marks rs)"
    and "with_code f st = Some (Inr (r, st'))"
  shows "io_inv X (ps @ marks rs) (kern st') (world st') \<and> inner (world st') = v \<and> r = -1 \<and> keeps (kern st) (kern st')"
proof -
  have "io_inv X ps (kern st) ((world st)\<lparr>inner := v\<rparr>)"
  proof -
    have "reg_ok ps (kern st) ((world st)\<lparr>inner := v\<rparr>) x q = reg_ok ps (kern st) (world st) x q" for x q
      by (cases q) simp_all
    with assms(1) show ?thesis by (simp add: io_inv_def sound_def complete_def)
  qed
  moreover from assms(2,4) have "perform rs (st\<lparr>world := (world st)\<lparr>inner := v\<rparr>\<rparr>) = Some (Inr st') \<and> r = -1"
    by (auto simp: with_code_def bindP_eq)
  ultimately show ?thesis
    using perform_inv [of X ps "st\<lparr>world := (world st)\<lparr>inner := v\<rparr>\<rparr>" rs st'] assms(3) by simp
qed

lemma soundD: "sound X ps k w \<Longrightarrow> interest k fd = Some (ev, p) \<Longrightarrow> fd \<notin> X \<Longrightarrow> ev = EPOLLIN \<and> reg_ok ps k w fd p"
  unfolding sound_def by blast

lemma exempt:
  assumes inv: "io_inv {} ps k w" and i: "interest k fd = Some (ev, Task_Obj p)" and d: "distinct ps"
  shows "io_inv {fd} (remove1 p ps) k w"
proof -
  have so: "sound {} ps k w" and k: "kernel_ok k" using inv by (simp_all add: io_inv_def)
  from soundD [OF so i] have p: "task_fds w p = fd" by simp
  have "reg_ok (remove1 p ps) k w x q" if "reg_ok ps k w x q" "x \<noteq> fd" for x q
    using that p d by (cases q) auto
  with so have "sound {fd} (remove1 p ps) k w" by (simp add: sound_def)
  moreover have "complete {fd} (remove1 p ps) k w" if "complete {} ps k w"
    using that i d by (auto simp: complete_def)
  moreover have "fd \<in> dom (descriptors k)" using i k unfolding kernel_ok_def by blast
  ultimately show ?thesis using inv by (simp add: io_inv_def)
qed

lemma unexempt:
  assumes inv: "io_inv {fd} ps k w"
  shows "io_inv {} ps (close_fd fd k) w"
proof -
  have "reg_ok ps (close_fd fd k) w x q" if "reg_ok ps k w x q" "x \<noteq> fd" for x q
    using that by (cases q) (simp_all add: close_fd_def)
  with inv have "sound {} ps (close_fd fd k) w" by (auto simp: io_inv_def sound_def close_fd_def)
  moreover have "complete {} ps (close_fd fd k) w" if "complete {fd} ps k w"
    using that by (auto simp: complete_def close_fd_def)
  moreover have "dom (descriptors (close_fd fd k)) \<subseteq> {0..}" using inv by (auto simp: io_inv_def close_fd_def)
  moreover have "refused (close_fd fd k) = refused k" by (simp add: close_fd_def)
  ultimately show ?thesis using inv by (simp add: io_inv_def)
qed

lemma timer_done:
  assumes inv: "io_inv {} ps k w" and i: "interest k fd = Some (ev, Timer_Obj p)"
  shows "\<exists>w'. io_release (Timer_Obj p) w = Inr w' \<and> io_inv {} ps (close_fd fd k) w' \<and> inner w' = inner w \<and>
    pool_free (timers w') = pool_free (timers w) @ [p]"
proof -
  have so: "sound {} ps k w" and c: "clean_pool (timers w)" using inv by (simp_all add: io_inv_def)
  from soundD [OF so i] have p: "timer_fd (timer_at p w) = fd" "busy_timer w p" by simp_all
  from clean_release [OF c, of p timer_class] p(2) obtain pl where
    r: "release timer_class (timers w) (Some p) = Inr pl" "clean_pool pl" "pool_free pl = pool_free (timers w) @ [p]"
    "pool_size pl = pool_size (timers w)" "objs pl = run_hook (Some clear_timer) p (objs (timers w))"
    by (auto simp: timer_class_def)
  let ?w = "w\<lparr>timers := pl\<rparr>"
  have at: "timer_at q ?w = timer_at q w" if "q \<noteq> p" for q
    using that by (simp add: timer_at_def r(5) run_hook_def)
  have busy: "busy_timer ?w q \<longleftrightarrow> q \<noteq> p \<and> busy_timer w q" for q using r p by auto
  have "reg_ok ps (close_fd fd k) ?w x q" if "reg_ok ps k w x q" "x \<noteq> fd" for x q
  proof (cases q)
    case (Timer_Obj j)
    with that p have "j \<noteq> p" by auto
    with that Timer_Obj at [of j] busy [of j] show ?thesis by (simp add: close_fd_def)
  qed (use that in \<open>simp add: close_fd_def\<close>)
  with so have "sound {} ps (close_fd fd k) ?w" by (auto simp: sound_def close_fd_def)
  moreover have "complete {} ps (close_fd fd k) ?w" if co: "complete {} ps k w"
  proof -
    have "timer_fd (timer_at q w) \<noteq> fd" if "q \<noteq> p" "busy_timer w q" for q
      using that co i by (auto simp: complete_def)
    with co i at busy show ?thesis by (auto simp: complete_def close_fd_def)
  qed
  moreover have "dom (descriptors (close_fd fd k)) \<subseteq> {0..}" using inv by (auto simp: io_inv_def close_fd_def)
  moreover have "refused (close_fd fd k) = refused k" by (simp add: close_fd_def)
  ultimately show ?thesis using inv r by (simp add: io_inv_def)
qed

text \<open>A readable event of an object whose code returns: the code runs, then the descriptor is closed and the object released.\<close>

lemma one_shot_event:
  assumes r: "handle_event (io_class_of c) (p, EPOLLIN) st = Some (Inr st')" and fd: "io_fd p (world st) \<noteq> -1"
    and inv: "io_inv {} ps (kern st) (world st)" and i: "interest (kern st) (io_fd p (world st)) = Some (ev, p)"
  shows "\<exists>st1 w'. io_handle_read c p st = Some (Inr (-1, st1)) \<and> io_release p (world st1) = Inr w' \<and>
    st' = st1\<lparr>kern := close_fd (io_fd p (world st)) (kern st1), world := w'\<rparr>"
proof -
  from r obtain r1 st1 where 1: "io_handle_read c p st = Some (Inr (r1, st1))"
    and d: "r1 = -1 \<longrightarrow> del_fd (io_class_of c) (io_fd p (world st)) (Some p) st1 = Inr st'"
    by (fastforce simp: handle_event_def Let_def bindP_eq io_class_of_def)
  have "r1 = -1"
    using 1 by (cases p) (auto simp: with_code_def bindP_eq split: option.splits)
  with 1 d fd show ?thesis by (auto simp: del_fd_def Let_def bindE_eq_Inr io_class_of_def)
qed

subsection \<open>The contract between the event base and the coroutines\<close>

text \<open>
  \<open>pend\<close>: the tasks that have been marked ready on this event base and have not yet run. No
  task is marked twice.
\<close>

locale ready_tasks =
  fixes c :: "('v, 'cb) code" and ok :: "'v \<Rightarrow> bool" and pend :: "'v \<Rightarrow> ptr list"
  assumes pend_distinct: "ok v \<Longrightarrow> distinct (pend v)"
    and check: "ok v \<Longrightarrow> p \<in> set (pend v) \<Longrightarrow> check_task c p v = Inr (v', rs) \<Longrightarrow>
      ok v' \<and> pend v' = remove1 p (pend v) @ marks rs"
    and callback: "ok v \<Longrightarrow> run_callback c cb v = Inr (v', rs) \<Longrightarrow> ok v' \<and> pend v' = pend v @ marks rs"
begin

definition holds :: "('v, 'cb) io_system \<Rightarrow> bool" where
  "holds st \<longleftrightarrow> ok (inner (world st)) \<and> io_inv {} (pend (inner (world st))) (kern st) (world st)"

lemma post_holds: "holds st \<Longrightarrow> with_code (run_callback c cb) st = Some (Inr (r, st')) \<Longrightarrow>
    holds st' \<and> keeps (kern st) (kern st') \<and> (\<exists>rs. run_callback c cb (inner (world st)) = Inr (inner (world st'), rs))"
proof -
  assume h: "holds st" and r: "with_code (run_callback c cb) st = Some (Inr (r, st'))"
  then obtain v rs where f: "run_callback c cb (inner (world st)) = Inr (v, rs)" by (auto simp: with_code_def bindP_eq)
  from h callback [OF _ f] have o: "ok v" "pend v = pend (inner (world st)) @ marks rs" by (auto simp: holds_def)
  with pend_distinct [OF o(1)] with_code_inv [of "{}" "pend (inner (world st))" st "run_callback c cb", OF _ f _ r] h f show ?thesis
    by (auto simp: holds_def)
qed

lemma closed_keeps: "keeps k k' \<Longrightarrow> x \<noteq> fd \<Longrightarrow>
    (descriptors k x = Some d \<longrightarrow> descriptors (close_fd fd k') x = Some d) \<and>
    (interest k x = Some i \<longrightarrow> interest (close_fd fd k') x = Some i)"
  using keepsD by (fastforce simp: close_fd_def)

text \<open>The object's code that an event of the descriptor runs.\<close>

definition ran :: "io_ref \<Rightarrow> ('v, 'cb) io_world \<Rightarrow> 'v \<Rightarrow> bool" where
  "ran p w v \<longleftrightarrow> (case p of
     Task_Obj q \<Rightarrow> \<exists>rs. check_task c q (inner w) = Inr (v, rs)
   | Timer_Obj q \<Rightarrow> \<exists>cb rs. timer_callback (timer_at q w) = Some cb \<and> run_callback c cb (inner w) = Inr (v, rs))"

lemma ready_holds:
  assumes h: "holds st" and i: "interest (kern st) fd = Some (ev, p)"
    and r: "handle_event (io_class_of c) (p, EPOLLIN) st = Some (Inr st')"
  shows "holds st' \<and> (\<exists>k. keeps (kern st) k \<and> kern st' = close_fd fd k) \<and> ran p (world st) (inner (world st')) \<and>
    (\<forall>q. p = Timer_Obj q \<longrightarrow> q \<in> set (pool_free (timers (world st'))))"
proof -
  let ?v = "inner (world st)"
  have inv: "io_inv {} (pend ?v) (kern st) (world st)" and o: "ok ?v" using h by (simp_all add: holds_def)
  then have k: "kernel_ok (kern st)" "dom (descriptors (kern st)) \<subseteq> {0..}" and so: "sound {} (pend ?v) (kern st) (world st)"
    by (simp_all add: io_inv_def)
  from soundD [OF so i] have reg: "reg_ok (pend ?v) (kern st) (world st) fd p" by simp
  then have fd: "io_fd p (world st) = fd" by (cases p) simp_all
  have "fd \<in> {0..}" using i k unfolding kernel_ok_def by blast
  with one_shot_event [OF r _ inv] i fd obtain st1 w' where
    1: "io_handle_read c p st = Some (Inr (-1, st1))" and w': "io_release p (world st1) = Inr w'"
    and st': "st' = st1\<lparr>kern := close_fd fd (kern st1), world := w'\<rparr>" by auto
  show ?thesis
  proof (cases p)
    case (Task_Obj q)
    with 1 obtain v rs where f: "check_task c q ?v = Inr (v, rs)" by (auto simp: with_code_def bindP_eq)
    have q: "q \<in> set (pend ?v)" using reg Task_Obj by simp
    from check [OF o q f] have o': "ok v" "pend v = remove1 q (pend ?v) @ marks rs" by auto
    have "io_inv {fd} (remove1 q (pend ?v)) (kern st) (world st)"
      using exempt [OF inv _ pend_distinct [OF o]] i Task_Obj by simp
    from with_code_inv [of "{fd}" _ st "check_task c q", OF this f, of "-1" st1] pend_distinct [OF o'(1)] 1 Task_Obj o'(2) have
      "io_inv {fd} (pend v) (kern st1) (world st1)" "inner (world st1) = v" "keeps (kern st) (kern st1)" by simp_all
    with unexempt [OF this(1)] o'(1) w' Task_Obj f show ?thesis by (auto simp: holds_def st' ran_def)
  next
    case (Timer_Obj q)
    with reg obtain cb where cb: "timer_callback (timer_at q (world st)) = Some cb" by auto
    with 1 Timer_Obj have wc: "with_code (run_callback c cb) st = Some (Inr (-1, st1))" by simp
    from post_holds [OF h wc] obtain rs where h1: "io_inv {} (pend (inner (world st1))) (kern st1) (world st1)" "ok (inner (world st1))"
      and ks: "keeps (kern st) (kern st1)" and f: "run_callback c cb ?v = Inr (inner (world st1), rs)"
      by (auto simp: holds_def)
    have "interest (kern st1) fd = Some (ev, Timer_Obj q)" using keepsD(2) [OF ks i] Timer_Obj by simp
    from timer_done [OF h1(1) this] w' Timer_Obj h1(2) ks f cb show ?thesis by (auto simp: holds_def st' ran_def)
  qed
qed

lemma step_holds:
  assumes h: "holds st" and r: "io_step c st e = Some (Inr st')"
  shows "holds st' \<and> (keeps (kern st) (kern st') \<or> (\<exists>fd ev p k. e = Ready fd \<and> interest (kern st) fd = Some (ev, p) \<and>
    readable (kern st) fd \<and> keeps (kern st) k \<and> kern st' = close_fd fd k))"
proof (cases e)
  case (Ready fd)
  show ?thesis
  proof (cases "interest (kern st) fd")
    case (Some i)
    then obtain ev p where i: "interest (kern st) fd = Some (ev, p)" by (cases i) simp
    show ?thesis
    proof (cases "readable (kern st) fd")
      case True
      with Ready i r have "handle_event (io_class_of c) (p, EPOLLIN) st = Some (Inr st')" by simp
      from ready_holds [OF h i this] Ready i True show ?thesis by blast
    qed (use Ready i r h in simp)
  qed (use Ready r h in simp)
next
  case (Post cb)
  with r post_holds [OF h, of cb] show ?thesis by (auto simp: bindP_eq)
next
  case (Add_Timer tick unit cb)
  with r schedule_inv [of "{}" _ st cb tick unit st'] h show ?thesis by (auto simp: holds_def)
qed

lemma run_holds: "holds st \<Longrightarrow> io_run c st es = Some (Inr st') \<Longrightarrow> holds st'"
  by (induction es arbitrary: st) (use step_holds in \<open>fastforce simp: bindP_eq\<close>)+

text \<open>A timer that is not armed stays as it is.\<close>

lemma run_unarmed:
  "holds st \<Longrightarrow> interest (kern st) fd = Some i \<Longrightarrow> descriptors (kern st) fd = Some (Timer_Fd (0, 0)) \<Longrightarrow>
     io_run c st es = Some (Inr st') \<Longrightarrow>
     interest (kern st') fd = Some i \<and> descriptors (kern st') fd = Some (Timer_Fd (0, 0)) \<and> holds st'"
proof (induction es arbitrary: st)
  case (Cons e es)
  then obtain st1 where s: "io_step c st e = Some (Inr st1)" "io_run c st1 es = Some (Inr st')" by (auto simp: bindP_eq)
  have h1: "holds st1" using step_holds [OF Cons.prems(1) s(1)] by simp
  have nr: "\<not> readable (kern st) fd" using Cons.prems(3) by (simp add: readable_def)
  have "interest (kern st1) fd = Some i \<and> descriptors (kern st1) fd = Some (Timer_Fd (0, 0))"
  proof (cases "keeps (kern st) (kern st1)")
    case True
    with Cons.prems(2,3) show ?thesis by (simp add: keepsD)
  next
    case False
    with step_holds [OF Cons.prems(1) s(1)] obtain fd' k where "readable (kern st) fd'" "keeps (kern st) k" "kern st1 = close_fd fd' k"
      by auto
    moreover from this(1) nr have "fd \<noteq> fd'" by blast
    ultimately show ?thesis using closed_keeps [of "kern st" k fd fd'] Cons.prems(2,3) by auto
  qed
  with Cons.IH [OF h1 _ _ s(2)] show ?case by blast
qed simp

end

end
