(* ===== verification/Epoll_Runtime.thy ===== *)
theory Epoll_Runtime
  imports Timers_Run Coroutines_Props
begin

section \<open>The coroutine runtime on an epoll event base\<close>

text \<open>
  \<open>EpollBase\<close> overrides \<open>set_ready_task\<close>. The event base 0 is the epoll base here
  (\<open>SYSTEM_IO_TASK\<close>), the others are plain event bases with their queues. What stands in the
  model's queue 0 are the tasks that have been marked on the epoll base and not yet run: a mark
  that code makes while it runs appears at its end and becomes a request to the epoll base. When
  the epoll base runs a task it is taken out wherever it stands, since \<open>epoll_wait\<close> reports
  descriptors in any order.
\<close>

subsection \<open>The code of the runtime\<close>

definition load :: "nat \<Rightarrow> string \<Rightarrow> 'a list \<Rightarrow> 'a pool_buffer" where
  "load n name xs = \<lparr>available_items = map Some xs @ replicate (n - length xs) None, head_idx = length xs mod n,
     tail_idx = 0, size_cnt = length xs, queue_name = name\<rparr>"

definition first_ready :: "ptr \<Rightarrow> 'v runtime \<Rightarrow> 'v runtime" where
  "first_ready p rt = (let q = ready_queue rt 0 in
     rt\<lparr>ready_queue := (ready_queue rt)(0 := load (capacity q) (queue_name q) (p # remove1 p (queue_items q)))\<rparr>)"

definition take_out :: "ptr \<Rightarrow> 'v runtime \<Rightarrow> 'v runtime" where
  "take_out p rt = (let rt1 = first_ready p rt in
     rt1\<lparr>ready_queue := (ready_queue rt1)(0 := snd (pop (ready_queue rt1 0)))\<rparr>)"

definition new_marks :: "'v runtime \<Rightarrow> 'v runtime \<Rightarrow> 'cb io_request list" where
  "new_marks rt rt' = map Mark_Ready (drop (length (queue_items (ready_queue rt 0))) (queue_items (ready_queue rt' 0)))"

type_synonym 'v shared_runtime = "'v runtime \<times> nat list"

definition runtime_check_task :: "ptr \<Rightarrow> 'v shared_runtime \<Rightarrow> ('v shared_runtime \<times> 'v event io_request list) result" where
  "runtime_check_task p s = (case s of (rt, held) \<Rightarrow>
     bindE (check_handle p (take_out p rt)) (\<lambda>rt'. Inr ((rt', held), new_marks (take_out p rt) rt')))"

text \<open>
  Callbacks: what other threads do, and \<open>set_value\<close>, which a timer calls on its future whether the
  future is still there or not. A turn of the epoll base is no callback.
\<close>

definition runtime_callback :: "'v event \<Rightarrow> 'v shared_runtime \<Rightarrow> ('v shared_runtime \<times> 'v event io_request list) result" where
  "runtime_callback ev s = (case ev of
     Set_Value k x \<Rightarrow> bindE (set_value k x (fst s)) (\<lambda>rt'. Inr ((rt', snd s), new_marks (fst s) rt'))
   | _ \<Rightarrow> if ev = Turn 0 then Inr (s, []) else bindE (run_event s ev) (\<lambda>s'. Inr (s', new_marks (fst s) (fst s'))))"

lemma runtime_callback_event:
  "runtime_callback ev s = Inr (s', rs) \<Longrightarrow> ev \<noteq> Turn 0 \<Longrightarrow> run_event s ev = Inr s' \<and> rs = new_marks (fst s) (fst s')"
  by (cases s; cases ev) (auto simp: runtime_callback_def bindE_eq_Inr set_value_def future_at_def split: if_splits option.splits)

definition runtime_code :: "('v shared_runtime, 'v event) code" where
  "runtime_code = \<lparr>check_task = runtime_check_task, run_callback = runtime_callback\<rparr>"

lemma runtime_code_simps [simp]:
  "check_task runtime_code = runtime_check_task" "run_callback runtime_code = runtime_callback"
  by (simp_all add: runtime_code_def)

definition shared_ok :: "'v shared_runtime \<Rightarrow> bool" where
  "shared_ok s \<longleftrightarrow> rt_ok {} {} (snd s) (fst s)"

definition marked :: "'v shared_runtime \<Rightarrow> ptr list" where
  "marked s = queue_items (ready_queue (fst s) 0)"

subsection \<open>Queues only grow\<close>

definition extends :: "'v runtime \<Rightarrow> 'v runtime \<Rightarrow> bool" where
  "extends rt rt' \<longleftrightarrow> (queue_ok (ready_queue rt 0) \<longrightarrow> queue_ok (ready_queue rt' 0) \<and>
     (\<exists>ys. queue_items (ready_queue rt' 0) = queue_items (ready_queue rt 0) @ ys))"

lemma extends_same: "ready_queue rt' = ready_queue rt \<Longrightarrow> extends rt rt'"
  by (simp add: extends_def)

lemma extends_trans: "extends rt rt1 \<Longrightarrow> extends rt1 rt2 \<Longrightarrow> extends rt rt2"
  by (fastforce simp: extends_def)

lemma extends_fields [simp]:
  "extends (put_promise a f rt) = extends rt" "extends rt0 (put_promise a f rt) = extends rt0 rt"
  "extends (put_future i v rt) = extends rt" "extends rt0 (put_future i v rt) = extends rt0 rt"
  "extends (set_task_info p ti rt) = extends rt" "extends (rt\<lparr>task_infos := pl\<rparr>) = extends rt"
  "extends (rt\<lparr>promises := ps, next_address := n\<rparr>) = extends rt" "extends (rt\<lparr>futures := fs, next_address := n\<rparr>) = extends rt"
  "extends (destroy_future i rt) = extends rt"
  by (simp_all add: extends_def fun_eq_iff)

lemma set_ready_extends: "set_ready_task eb p rt = Inr rt' \<Longrightarrow> extends rt rt'"
proof -
  assume s: "set_ready_task eb p rt = Inr rt'"
  then obtain q b where q: "p = Some q" "push (ready_queue rt eb) (Some q) = Inr b" "rt' = rt\<lparr>ready_queue := (ready_queue rt)(eb := b)\<rparr>"
    by (cases p) (auto simp: set_ready_task_def bindE_eq_Inr push_def)
  show ?thesis
  proof (cases "eb = 0 \<and> queue_ok (ready_queue rt eb)")
    case True
    with q(2) have "size_cnt (ready_queue rt eb) < capacity (ready_queue rt eb)"
      by (auto simp: push_def queue_ok_def split: if_splits)
    from push_ok [OF _ this, of q] True q show ?thesis by (auto simp: extends_def)
  qed (use q in \<open>auto simp: extends_def\<close>)
qed

lemma set_waiting_extends: "set_waiting a w rt = Inr rt' \<Longrightarrow> extends rt rt'"
  by (auto simp: set_waiting_def bindE_eq_Inr Let_def split: if_splits option.splits
      intro: extends_same dest!: set_ready_extends)

lemma register_extends: "register_on a eb rt = Inr rt' \<Longrightarrow> extends rt rt'"
  by (auto simp: register_on_def add_to_event_base_def bindE_eq_Inr Let_def split: option.splits
      dest!: set_waiting_extends)

lemma destroy_extends: "destroy_task a rt = Inr rt' \<Longrightarrow> extends rt rt'"
  by (rule extends_same) (auto simp: destroy_task_def remove_from_event_base_def destroy_frame_def bindE_eq_Inr Let_def
      split: if_splits option.splits)

lemma resume_point_extends: "set_resume_point a p rt = Inr rt' \<Longrightarrow> extends rt rt'"
  by (rule extends_same) (auto simp: set_resume_point_def bindE_eq_Inr)

lemma start_extends: "start_task eb b rt = Inr (c, rt') \<Longrightarrow> extends rt rt'"
  by (auto simp: start_task_def create_coroutine_def bindE_eq_Inr dest!: register_extends)

lemma await_extends: "task_await_suspend c a rt = Inr rt' \<Longrightarrow> extends rt rt'"
  by (auto simp: task_await_suspend_def bindE_eq_Inr Let_def dest!: register_extends set_waiting_extends
      intro: extends_trans)

lemma set_value_extends: "set_value i x rt = Inr rt' \<Longrightarrow> extends rt rt'"
  by (auto simp: set_value_def future_set_ready_def future_at_def bindE_eq_Inr Let_def split: if_splits option.splits
      dest!: set_waiting_extends intro: extends_same)

lemma future_await_extends: "future_await_suspend i a w rt = Inr rt' \<Longrightarrow> extends rt rt'"
  by (cases w) (auto simp: future_await_suspend_def bindE_eq_Inr Let_def
      dest!: set_waiting_extends set_value_extends intro: extends_trans)

lemma run_code_extends: "run_code a b rt = Inr rt' \<Longrightarrow> extends rt rt'"
proof (induction b arbitrary: rt)
  case (Return v)
  then show ?case
    by (auto simp: return_value_def final_suspend_def bindE_eq_Inr split: option.splits
        dest!: resume_point_extends set_waiting_extends intro: extends_trans)
next
  case (Await_Task b k)
  then show ?case
    by (auto simp: create_coroutine_def bindE_eq_Inr dest!: resume_point_extends await_extends intro: extends_trans)
next
  case (Await_Future w k)
  then show ?case
    by (auto simp: create_future_def bindE_eq_Inr dest!: resume_point_extends future_await_extends intro: extends_trans)
next
  case (Spawn eb b c)
  then obtain d rt1 rt2 where "start_task eb b rt = Inr (d, rt1)" "destroy_task d rt1 = Inr rt2" "run_code a c rt2 = Inr rt'"
    by (auto simp: bindE_eq_Inr)
  with start_extends destroy_extends Spawn.IH show ?case by (meson extends_trans)
qed

lemma resume_extends: "resume_frame a rt = Inr rt' \<Longrightarrow> extends rt rt'"
proof -
  assume r: "resume_frame a rt = Inr rt'"
  then obtain f where "promises rt a = Some f" by (auto simp: resume_frame_def bindE_eq_Inr)
  with r show ?thesis
    by (cases "resume_point f") (auto simp: resume_frame_def bindE_eq_Inr
        dest!: run_code_extends resume_point_extends destroy_extends intro: extends_trans)
qed

lemma check_handle_extends: "check_handle p rt = Inr rt' \<Longrightarrow> extends rt rt'"
proof -
  have "check_to_remove_task p rt1 = Inr rt' \<Longrightarrow> extends rt1 rt'" for rt1
    by (rule extends_same) (auto simp: check_to_remove_task_def remove_from_event_base_def destroy_frame_def bindE_eq_Inr Let_def
        split: if_splits option.splits)
  moreover assume "check_handle p rt = Inr rt'"
  ultimately show ?thesis
    by (auto simp: check_handle_def bindE_eq_Inr extends_same split: option.splits if_splits
        dest!: resume_extends intro: extends_trans)
qed

lemma run_event_extends: "run_event s ev = Inr s' \<Longrightarrow> ev \<noteq> Turn 0 \<Longrightarrow> extends (fst s) (fst s')"
proof (cases s, cases ev)
  fix rt H eb assume s: "s = (rt, H)" "ev = Turn eb" and r: "run_event s ev = Inr s'" "ev \<noteq> Turn 0"
  obtain item q where p: "pop (ready_queue rt eb) = (item, q)" by force
  let ?rt = "rt\<lparr>ready_queue := (ready_queue rt)(eb := q)\<rparr>"
  have e: "extends rt ?rt" using r(2) s(2) by (simp add: extends_def)
  from r s p have "fst s' = ?rt \<or> (\<exists>p. check_handle p ?rt = Inr (fst s'))"
    by (cases item) (auto simp: event_base_turn_def bindE_eq_Inr Let_def)
  with e s check_handle_extends show ?thesis by (auto intro: extends_trans)
qed (auto simp: bindE_eq_Inr extends_same split: if_splits dest!: start_extends destroy_extends set_value_extends)

subsection \<open>The runtime keeps the contract\<close>

lemma load_ok: "0 < n \<Longrightarrow> length xs \<le> n \<Longrightarrow> queue_ok (load n name xs) \<and> queue_items (load n name xs) = xs \<and> capacity (load n name xs) = n"
proof -
  assume n: "0 < n" "length xs \<le> n"
  have r: "ring_items (map Some xs @ replicate (n - length xs) None) 0 (length xs) = map Some xs"
    using n by (auto simp: ring_items_def intro: nth_equalityI simp: nth_append)
  with n show ?thesis
    by (auto simp: queue_ok_def queue_items_def capacity_def load_def comp_def)
qed

lemma take_out_ok:
  assumes ok: "rt_ok {} {} H rt" and p: "p \<in> set (queue_items (ready_queue rt 0))"
  shows "rt_ok {} {} H (first_ready p rt) \<and> event_base_turn 0 (first_ready p rt) = check_handle p (take_out p rt) \<and>
    queue_ok (ready_queue (take_out p rt) 0) \<and> queue_items (ready_queue (take_out p rt) 0) = remove1 p (queue_items (ready_queue rt 0))"
proof -
  let ?q = "ready_queue rt 0" let ?xs = "p # remove1 p (queue_items ?q)"
  let ?l = "load (capacity ?q) (queue_name ?q) ?xs"
  have q: "queue_ok ?q" "distinct (queue_items ?q)" using ok by (simp_all add: rt_ok_def queues_ok_def)
  have len: "length ?xs = length (queue_items ?q)" using p length_pos_if_in_set [OF p] by (simp add: length_remove1)
  have "length (queue_items ?q) \<le> capacity ?q" "0 < capacity ?q" using q by (simp_all add: queue_ok_def queue_items_def)
  with load_ok [of "capacity ?q" ?xs] len have l: "queue_ok ?l" "queue_items ?l = ?xs" "capacity ?l = capacity ?q" by auto
  have f: "first_ready p rt = rt\<lparr>ready_queue := (ready_queue rt)(0 := ?l)\<rparr>" by (simp add: first_ready_def Let_def)
  have "set ?xs = set (queue_items ?q)" "distinct ?xs" using q(2) p by auto
  then have "rt_ok {} {} H (first_ready p rt)" using ok l unfolding f by (simp add: rt_ok_def queues_ok_def)
  moreover note pop_item [OF l(1,2)]
  ultimately show ?thesis
    by (cases "pop ?l") (auto simp: event_base_turn_def take_out_def f Let_def)
qed

lemma marks_of_new: "marks (new_marks rt rt') = drop (length (queue_items (ready_queue rt 0))) (queue_items (ready_queue rt' 0))"
proof -
  have "marks (map Mark_Ready ps) = ps" for ps by (induction ps) simp_all
  then show ?thesis by (simp add: new_marks_def)
qed

lemma extends_marks: "extends rt rt' \<Longrightarrow> queue_ok (ready_queue rt 0) \<Longrightarrow>
    queue_items (ready_queue rt' 0) = queue_items (ready_queue rt 0) @ marks (new_marks rt rt')"
  by (auto simp: extends_def marks_of_new)

interpretation epoll_runtime: ready_tasks runtime_code shared_ok marked
proof unfold_locales
  fix s :: "'a shared_runtime" assume "shared_ok s"
  then show "distinct (marked s)" by (simp add: shared_ok_def marked_def rt_ok_def queues_ok_def)
next
  fix s s' :: "'a shared_runtime" and p rs
  assume ok: "shared_ok s" and p: "p \<in> set (marked s)" and r: "check_task runtime_code p s = Inr (s', rs)"
  obtain rt H where s: "s = (rt, H)" by force
  from r s obtain rt' where c: "check_handle p (take_out p rt) = Inr rt'" and s': "s' = (rt', H)"
    and rs: "rs = new_marks (take_out p rt) rt'"
    by (auto simp: runtime_code_def runtime_check_task_def bindE_eq_Inr)
  have rt: "rt_ok {} {} H rt" "p \<in> set (queue_items (ready_queue rt 0))" using ok p s by (simp_all add: shared_ok_def marked_def)
  note t = take_out_ok [OF this]
  from t event_base_turn_ok [of H "first_ready p rt" 0] c have "rt_ok {} {} H rt'" by simp
  moreover from extends_marks [OF check_handle_extends [OF c]] t have
    "queue_items (ready_queue rt' 0) = remove1 p (queue_items (ready_queue rt 0)) @ marks rs" by (simp add: rs)
  ultimately show "shared_ok s' \<and> marked s' = remove1 p (marked s) @ marks rs" by (simp add: shared_ok_def marked_def s s')
next
  fix s s' :: "'a shared_runtime" and ev rs
  assume ok: "shared_ok s" and r: "run_callback runtime_code ev s = Inr (s', rs)"
  obtain rt H where s: "s = (rt, H)" by force
  show "shared_ok s' \<and> marked s' = marked s @ marks rs"
  proof (cases "ev = Turn 0")
    case False
    with r have e: "run_event (rt, H) ev = Inr s'" and rs: "rs = new_marks rt (fst s')"
      using runtime_callback_event [of ev "(rt, H)" s' rs] False by (simp_all add: runtime_code_def s)
    have rt: "rt_ok {} {} H rt" using ok by (simp add: shared_ok_def s)
    from run_event_ok [OF rt, of ev] e have "shared_ok s'" by (auto simp: shared_ok_def split: prod.splits)
    moreover have "queue_ok (ready_queue rt 0)" using rt by (simp add: rt_ok_def queues_ok_def)
    with extends_marks [of rt "fst s'"] run_event_extends [OF e False] rs have "marked s' = marked s @ marks rs"
      by (simp add: marked_def s)
    ultimately show ?thesis by simp
  qed (use ok r in \<open>simp add: runtime_code_def runtime_callback_def\<close>)
qed

subsection \<open>The properties\<close>

definition new_timer :: "'cb timer_io" where
  "new_timer = \<lparr>timer_fd = 0, interval_ns = 0, timer_callback = None\<rparr>"

definition TIMER_POOL_SIZE :: nat where
  "TIMER_POOL_SIZE = 1000"

definition new_io_system :: "int list \<Rightarrow> nat \<Rightarrow> nat \<Rightarrow> ('v shared_runtime, 'v event) io_system" where
  "new_io_system as m n = \<lparr>kern = new_kernel as,
     world = \<lparr>timers = new_pool (replicate m new_timer), task_fds = (\<lambda>_. 0), inner = (new_runtime n, [])\<rparr>\<rparr>"

lemma new_io_system_holds:
  assumes "0 < m" "m < 2 ^ 64" "0 < n" "n < 2 ^ 64"
  shows "epoll_runtime.holds (new_io_system as m n :: ('v shared_runtime, 'v event) io_system)"
proof -
  have "rt_ok {} {} [] (new_runtime n :: 'v runtime)" by (rule new_runtime_ok(1) [OF assms(3,4)])
  moreover have "queue_items (ready_queue (new_runtime n :: 'v runtime) 0) = []" by (simp add: new_runtime_def new_mpsc_items)
  moreover have "clean_pool (new_pool (replicate m (new_timer :: 'v event timer_io)))"
    using assms new_pool_ok [of "replicate m (new_timer :: 'v event timer_io)"]
    by (auto simp: clean_pool_def new_pool_free new_pool_size) (simp add: new_pool_def)
  ultimately show ?thesis
    by (auto simp: epoll_runtime.holds_def shared_ok_def marked_def new_io_system_def io_inv_def kernel_ok_def sound_def
        complete_def new_kernel_def new_pool_free new_pool_size)
qed

text \<open>
  C33: however timers, tasks and other threads interleave, every descriptor in the epoll set is open and is the
  one its object has in \<open>fd\<close>, so no object is in the set twice. As long as the kernel has
  refused nothing, a task is in the set exactly if its coroutine can go on, a timer exactly if it
  is out of its pool, and no other descriptor is open.
\<close>

theorem epoll_set_exact:
  assumes "0 < m" "m < 2 ^ 64" "0 < n" "n < 2 ^ 64"
    and "io_run runtime_code (new_io_system as m n) es = Some (Inr st)"
  shows "(\<forall>fd ev p. interest (kern st) fd = Some (ev, p) \<longrightarrow> descriptors (kern st) fd \<noteq> None \<and> io_fd p (world st) = fd) \<and>
    (\<not> refused (kern st) \<longrightarrow> dom (descriptors (kern st)) = dom (interest (kern st)) \<and>
      (\<forall>p. busy_timer (world st) p \<longleftrightarrow> (\<exists>fd ev. interest (kern st) fd = Some (ev, Timer_Obj p))) \<and>
      (\<forall>a f. promises (fst (inner (world st))) a = Some f \<longrightarrow> m_event_base f = Some 0 \<longrightarrow>
        (\<exists>p. task_ptr f = Some p \<and>
          (runnable (fst (inner (world st))) f \<longleftrightarrow> (\<exists>fd ev. interest (kern st) fd = Some (ev, Task_Obj p))))))"
proof -
  let ?k = "kern st" let ?w = "world st" let ?rt = "fst (inner ?w)"
  from epoll_runtime.run_holds [OF new_io_system_holds [OF assms(1-4)] assms(5)]
  have ok: "rt_ok {} {} (snd (inner ?w)) ?rt" and inv: "io_inv {} (queue_items (ready_queue ?rt 0)) ?k ?w"
    by (simp_all add: epoll_runtime.holds_def shared_ok_def marked_def)
  have k: "kernel_ok ?k" and so: "sound {} (queue_items (ready_queue ?rt 0)) ?k ?w" using inv by (simp_all add: io_inv_def)
  have reg: "interest ?k fd = Some (ev, p) \<Longrightarrow> reg_ok (queue_items (ready_queue ?rt 0)) ?k ?w fd p" for fd ev p
    using soundD [OF so] by simp
  have 1: "descriptors ?k fd \<noteq> None \<and> io_fd p ?w = fd" if "interest ?k fd = Some (ev, p)" for fd ev p
    using reg [OF that] by (cases p) auto
  show ?thesis
  proof (intro conjI allI impI)
    assume "\<not> refused ?k"
    with inv have co: "complete {} (queue_items (ready_queue ?rt 0)) ?k ?w" by (simp add: io_inv_def)
    then show "dom (descriptors ?k) = dom (interest ?k)" using k by (simp add: complete_def kernel_ok_def)
    show "busy_timer ?w p \<longleftrightarrow> (\<exists>fd ev. interest ?k fd = Some (ev, Timer_Obj p))" for p
    proof
      assume "busy_timer ?w p"
      with co show "\<exists>fd ev. interest ?k fd = Some (ev, Timer_Obj p)" unfolding complete_def by blast
    next
      assume "\<exists>fd ev. interest ?k fd = Some (ev, Timer_Obj p)"
      then obtain fd ev where "interest ?k fd = Some (ev, Timer_Obj p)" by blast
      from reg [OF this] show "busy_timer ?w p" by simp
    qed
    fix a f assume f: "promises ?rt a = Some f" "m_event_base f = Some 0"
    from infoD [OF ok f(1)] f(2) obtain p where p: "p < slots ?rt" "task_ptr f = Some p" "ti_handle (task_info_at p ?rt) = Some a"
      "event_base (task_info_at p ?rt) = Some 0" by (metis empty_iff option.inject)
    have "runnable ?rt f \<longleftrightarrow> listed {} ?rt 0 p" using p f by (auto simp: listed_def frame_is_eq)
    also have "\<dots> \<longleftrightarrow> p \<in> set (queue_items (ready_queue ?rt 0))" using ok by (simp add: rt_ok_def queues_ok_def)
    also have "\<dots> \<longleftrightarrow> (\<exists>fd ev. interest ?k fd = Some (ev, Task_Obj p))"
    proof
      assume "p \<in> set (queue_items (ready_queue ?rt 0))"
      with co show "\<exists>fd ev. interest ?k fd = Some (ev, Task_Obj p)" unfolding complete_def by blast
    next
      assume "\<exists>fd ev. interest ?k fd = Some (ev, Task_Obj p)"
      then obtain fd ev where "interest ?k fd = Some (ev, Task_Obj p)" by blast
      from reg [OF this] show "p \<in> set (queue_items (ready_queue ?rt 0))" by simp
    qed
    finally show "\<exists>p. task_ptr f = Some p \<and> (runnable ?rt f \<longleftrightarrow> (\<exists>fd ev. interest ?k fd = Some (ev, Task_Obj p)))"
      using p(2) by blast
  qed (use 1 in blast)+
qed

text \<open>
  C34: an armed timer fires exactly once: its event runs the callback it was given, on the state of that
  moment, closes the descriptor and puts the timer back into the pool.
\<close>

theorem timer_fires_once:
  assumes "0 < m" "m < 2 ^ 64" "0 < n" "n < 2 ^ 64"
    and "io_run runtime_code (new_io_system as m n) es = Some (Inr st)"
    and "interest (kern st) fd = Some (ev, Timer_Obj p)" "readable (kern st) fd"
    and "io_step runtime_code st (Ready fd) = Some (Inr st')"
  shows "(\<exists>cb rs. timer_callback (timer_at p (world st)) = Some cb \<and>
      runtime_callback cb (inner (world st)) = Inr (inner (world st'), rs)) \<and>
    interest (kern st') fd = None \<and> descriptors (kern st') fd = None \<and> p \<in> set (pool_free (timers (world st')))"
proof -
  have "epoll_runtime.holds st" by (rule epoll_runtime.run_holds [OF new_io_system_holds [OF assms(1-4)] assms(5)])
  from epoll_runtime.ready_holds [OF this assms(6), of st'] assms(6-8) show ?thesis
    by (auto simp: epoll_runtime.ran_def close_fd_def)
qed

lemma add_timer_registers:
  assumes h: "epoll_runtime.holds st" and r: "add_schedule_task cb tick unit st = Some (Inr st')" "\<not> refused (kern st')"
  shows "\<exists>fd p. interest (kern st') fd = Some (EPOLLIN, Timer_Obj p) \<and> timer_callback (timer_at p (world st')) = Some cb \<and>
    descriptors (kern st') fd = Some (Timer_Fd (split_ns ((tick * unit) mod 2 ^ 64)))"
proof -
  let ?w = "world st"
  from h have k: "kernel_ok (kern st)" "clean_pool (timers ?w)" by (simp_all add: epoll_runtime.holds_def io_inv_def)
  from r obtain p pl where a: "acquire timer_class (timers ?w) = Inr (p, pl)"
    by (cases "acquire timer_class (timers ?w)") (auto simp: add_schedule_task_def)
  note c = clean_acquire [OF k(2) a]
  let ?t = "set_callback ((tick * unit) mod 2 ^ 64) cb (timer_at p (?w\<lparr>timers := pl\<rparr>))"
  let ?w1 = "put_timer p ?t (?w\<lparr>timers := pl\<rparr>)"
  have w1: "clean_pool (timers ?w1)" "p < pool_size (timers ?w1)" "timer_at p ?w1 = ?t"
    using c by (simp_all add: timer_at_put)
  from r a have "start_living_system_io_object io_base (Timer_Obj p) (st\<lparr>world := ?w1\<rparr>) = Some (Inr st')"
    by (simp add: add_schedule_task_def Let_def)
  from start_timer_started [OF _ _ _ _ this, of ?t] k(1) w1 obtain fd where
    s: "started fd (Timer_Fd (split_ns (interval_ns ?t))) (EPOLLIN, Timer_Obj p) (kern st) (kern st')"
    and w': "world st' = put_timer p (?t\<lparr>timer_fd := fd\<rparr>) (?w\<lparr>timers := pl\<rparr>)" by auto
  from started_done [OF s r(2)] w' c show ?thesis
    by (intro exI [of _ fd] exI [of _ p]) (simp add: timer_at_put set_callback_def)
qed

text \<open>
  C35: a timer whose interval is 0 nanoseconds, armed without a refusal of the kernel, never fires: a timerfd set to zero is disarmed. Whatever
  happens afterwards, its descriptor stays in the epoll set unread, so a coroutine that awaits
  \<open>sleep_for\<close> of zero ticks, or of a product of ticks and unit that wraps to zero, sleeps for ever.
\<close>

theorem zero_sleep_never_ends:
  assumes "0 < m" "m < 2 ^ 64" "0 < n" "n < 2 ^ 64"
    and "io_run runtime_code (new_io_system as m n) es = Some (Inr st)"
    and "sleep_for tick unit set_future st = Some (Inr st1)" "\<not> refused (kern st1)" "(tick * unit) mod 2 ^ 64 = 0"
  shows "\<exists>fd p. timer_callback (timer_at p (world st1)) = Some (set_future 0) \<and>
    interest (kern st1) fd = Some (EPOLLIN, Timer_Obj p) \<and>
    (\<forall>es' st2. io_run runtime_code st1 es' = Some (Inr st2) \<longrightarrow>
      interest (kern st2) fd = Some (EPOLLIN, Timer_Obj p) \<and> \<not> readable (kern st2) fd)"
proof -
  have h: "epoll_runtime.holds st" by (rule epoll_runtime.run_holds [OF new_io_system_holds [OF assms(1-4)] assms(5)])
  from assms(6,8) have a: "add_schedule_task (set_future 0) 0 NANOSECOND st = Some (Inr st1)" by (simp add: sleep_for_def)
  from add_timer_registers [OF h a assms(7)] obtain fd p where
    f: "interest (kern st1) fd = Some (EPOLLIN, Timer_Obj p)" "descriptors (kern st1) fd = Some (Timer_Fd (0, 0))"
    "timer_callback (timer_at p (world st1)) = Some (set_future 0)" by (auto simp: split_ns_def)
  from epoll_runtime.step_holds [OF h, of "Add_Timer 0 NANOSECOND (set_future 0)"] a have h1: "epoll_runtime.holds st1" by simp
  have "interest (kern st2) fd = Some (EPOLLIN, Timer_Obj p) \<and> \<not> readable (kern st2) fd"
    if "io_run runtime_code st1 es' = Some (Inr st2)" for es' st2
    using epoll_runtime.run_unarmed [OF h1 f(1,2) that] by (simp add: readable_def)
  with f(1,3) show ?thesis by blast
qed

subsection \<open>A run\<close>

text \<open>Two timers and two tasks; the kernel hands out descriptor 7.\<close>

abbreviation demo_io :: "int list \<Rightarrow> (nat shared_runtime, nat event) io_system" where
  "demo_io as \<equiv> new_io_system as 2 2"

lemmas io_evaluation = add_schedule_task_def start_living_system_io_object_def timer_generate_fd_def new_fd_def answer_of_def
  timerfd_settime_def epoll_ctl_add_def add_fd_def put_timer_def timer_at_def set_callback_def acquire_def pool_head_def
  pool_size_def run_hook_def timer_class_def new_io_system_def new_kernel_def new_pool_def new_timer_def two_slots Let_def

lemma demo_timer:
  "\<exists>st. io_run runtime_code (demo_io [7, 0, 0]) [Add_Timer 3 MICROSECOND (Let_Go 5)] = Some (Inr st) \<and>
     interest (kern st) 7 = Some (EPOLLIN, Timer_Obj 0) \<and> readable (kern st) 7 \<and> \<not> refused (kern st) \<and>
     (\<exists>st'. io_step runtime_code st (Ready 7) = Some (Inr st'))"
  by (simp add: io_evaluation MICROSECOND_def readable_def handle_event_def io_class_of_def with_code_def
      runtime_callback_def new_marks_def del_fd_def epoll_ctl_del_def close_fd_def release_def pool_tail_def)

theorem epoll_set_exact_witness:
  "\<exists>st. io_run runtime_code (demo_io [7, 0, 0]) [Add_Timer 3 MICROSECOND (Let_Go 5)] = Some (Inr st) \<and>
     dom (descriptors (kern st)) = dom (interest (kern st))"
proof -
  from demo_timer obtain st where "io_run runtime_code (demo_io [7, 0, 0]) [Add_Timer 3 MICROSECOND (Let_Go 5)] = Some (Inr st)"
    "\<not> refused (kern st)" by blast
  with epoll_set_exact [of 2 2 "[7, 0, 0]" "[Add_Timer 3 MICROSECOND (Let_Go 5)]" st] show ?thesis by auto
qed

theorem timer_fires_once_witness:
  "\<exists>st st'. io_run runtime_code (demo_io [7, 0, 0]) [Add_Timer 3 MICROSECOND (Let_Go 5)] = Some (Inr st) \<and>
     io_step runtime_code st (Ready 7) = Some (Inr st') \<and> 0 \<in> set (pool_free (timers (world st')))"
proof -
  from demo_timer obtain st st' where "io_run runtime_code (demo_io [7, 0, 0]) [Add_Timer 3 MICROSECOND (Let_Go 5)] = Some (Inr st)"
    "interest (kern st) 7 = Some (EPOLLIN, Timer_Obj 0)" "readable (kern st) 7" "io_step runtime_code st (Ready 7) = Some (Inr st')"
    by blast
  with timer_fires_once [of 2 2 "[7, 0, 0]" "[Add_Timer 3 MICROSECOND (Let_Go 5)]" st 7 EPOLLIN 0 st'] show ?thesis by auto
qed

theorem zero_sleep_never_ends_witness:
  "\<exists>st1 fd p. sleep_for 0 SECOND (\<lambda>_. Let_Go 5) (demo_io [7, 0, 0]) = Some (Inr st1) \<and>
     (\<forall>es' st2. io_run runtime_code st1 es' = Some (Inr st2) \<longrightarrow> interest (kern st2) fd = Some (EPOLLIN, Timer_Obj p))"
proof -
  obtain st1 where s: "sleep_for 0 SECOND (\<lambda>_. Let_Go 5) (demo_io [7, 0, 0]) = Some (Inr st1)" "\<not> refused (kern st1)"
    by (simp add: sleep_for_def io_evaluation)
  with zero_sleep_never_ends [of 2 2 "[7, 0, 0]" "[]" "demo_io [7, 0, 0]" 0 SECOND "\<lambda>_. Let_Go 5" st1] show ?thesis
    by auto
qed

end
