(* ===== verification/Http_Request.thy ===== *)
theory Http_Request
  imports Utilities Json_Roundtrip
begin

section \<open>HTTP requests (src/core/network/https_server/request)\<close>

text \<open>
  The classes \<open>HttpRequest\<close>, \<open>HttpRequestGet\<close>, \<open>HttpRequestPost\<close>, \<open>HttpRequestPut\<close> and
  \<open>HttpRequestDelete\<close>: one record whose field \<open>rq_class\<close> is the dynamic class, on which the
  virtual members dispatch. The constructors parse the text of the request: the url, the query
  string, the headers and, for the last three classes, the body. The hash tables keep the value
  that was inserted first for a key; they are association lists in insertion order.

  A constructor that does not return has the value \<open>None\<close>; it can also throw or leave the
  defined behaviour, through the JSON parser it applies to the body. The model is for texts
  shorter than \<open>2 ^ 31\<close> characters, which positions stored in an \<open>int\<close> can hold.
\<close>

datatype request_method = GET | POST | OPTIONS | HEAD | PUT | DELETE | PATCH | UNKNOWN

definition request_method_map :: "(string \<times> request_method) list" where
  "request_method_map = [(''OPTIONS'', OPTIONS), (''GET'', GET), (''HEAD'', HEAD), (''POST'', POST),
     (''PUT'', PUT), (''DELETE'', DELETE), (''PATCH'', PATCH)]"

text \<open>\<open>Utils::get_request_method_string_by_id\<close>, the other way for the methods with a class of their own.\<close>

definition get_request_method_string_by_id :: "request_method \<Rightarrow> string" where
  "get_request_method_string_by_id m = (case m of
     GET \<Rightarrow> ''GET'' | POST \<Rightarrow> ''POST'' | PUT \<Rightarrow> ''PUT'' | DELETE \<Rightarrow> ''DELETE'' | _ \<Rightarrow> ''GET'')"

lemma method_string_reads_back:
  "map_of request_method_map (get_request_method_string_by_id m) = Some m \<longleftrightarrow> m \<in> {GET, POST, PUT, DELETE}"
  by (cases m) (simp_all add: get_request_method_string_by_id_def request_method_map_def)

datatype request_class = Http_Request | Http_Request_Get | Http_Request_Post | Http_Request_Put | Http_Request_Delete

record 'd http_request =
  rq_class :: request_class
  m_url :: string
  m_dir_path :: string
  m_query_string :: string
  m_query_params :: "(string \<times> string) list"
  m_header_params :: "(string \<times> string) list"
  m_body :: string
  m_body_json :: "'d json"

definition emplace :: "'k \<Rightarrow> 'v \<Rightarrow> ('k \<times> 'v) list \<Rightarrow> ('k \<times> 'v) list" where
  "emplace k v m = (if map_of m k = None then m @ [(k, v)] else m)"

definition crlf :: string where
  "crlf = [CHR 0x0D, CHR 0x0A]"

subsection \<open>Request line and query string\<close>

definition deserialize_url :: "string \<Rightarrow> string result" where
  "deserialize_url content =
     (let end_of_method = of_pos (find_first_of content 0 '' '')
      in case find_first_of content (sz_add end_of_method 1) '' '' of
           None \<Rightarrow> Inr []
         | Some end_of_url \<Rightarrow>
             substr content (sz_add end_of_method 1) (sz_sub (sz_sub end_of_url end_of_method) 1))"

text \<open>The url and the query string.\<close>

definition deserialize_query_string :: "string \<Rightarrow> (string \<times> string) result" where
  "deserialize_query_string url =
     (case std_find url 0 ''?'' of
        None \<Rightarrow> Inr (url, [])
      | Some q \<Rightarrow> bindE (substr url (q + 1) (length url - 1)) (\<lambda>query.
          bindE (substr url 0 q) (\<lambda>path. Inr (path, query))))"

function skip_to_amp :: "string \<Rightarrow> nat \<Rightarrow> nat" where
  "skip_to_amp q fin = (if fin < length q \<and> q ! fin \<noteq> CHR ''&'' then skip_to_amp q (fin + 1) else fin)"
  by auto
termination by (relation "measure (\<lambda>(q, fin). length q - fin)") auto

declare skip_to_amp.simps [simp del]

lemma skip_to_amp_ge: "fin \<le> skip_to_amp q fin"
  by (induction q fin rule: skip_to_amp.induct) (subst skip_to_amp.simps, force)

text \<open>The loop over the parameters: a parameter without an equals sign ends it.\<close>

function query_loop :: "string \<Rightarrow> nat \<Rightarrow> (string \<times> string) list \<Rightarrow> (string \<times> string) list" where
  "query_loop q start params =
     (if start < length q then
        let fin = skip_to_amp q start; param = take (fin - start) (drop start q)
        in case std_find param 0 ''='' of
             None \<Rightarrow> params
           | Some e \<Rightarrow> query_loop q (fin + 1)
               (emplace (take e param) (take (length param - 1) (drop (e + 1) param)) params)
      else params)"
  by auto
termination
  using skip_to_amp_ge by (relation "measure (\<lambda>(q, start, params). length q - start)")
    (auto intro!: diff_less_mono2 simp: less_Suc_eq_le)

declare query_loop.simps [simp del]

definition deserialize_query_params :: "string \<Rightarrow> (string \<times> string) list" where
  "deserialize_query_params q = query_loop q 0 []"

subsection \<open>Headers\<close>

primrec add_headers :: "string list \<Rightarrow> (string \<times> string) list \<Rightarrow> (string \<times> string) list option" where
  "add_headers [] params = Some params"
| "add_headers (line # lines) params =
     Option.bind (split_string line '': '') (\<lambda>header. add_headers lines
       (case header of [k, v] \<Rightarrow> emplace k v params | _ \<Rightarrow> params))"

definition deserialize_header_params :: "string \<Rightarrow> (string \<times> string) list result option" where
  "deserialize_header_params content =
     (let start_of_header = sz_add (of_pos (find_first_of content 0 crlf)) 2;
          end_of_header = of_pos (std_find content 0 (crlf @ crlf))
      in case substr content start_of_header (sz_sub end_of_header start_of_header) of
           Inl e \<Rightarrow> Some (Inl e)
         | Inr block \<Rightarrow> Option.bind (split_string block crlf) (\<lambda>lines.
             Option.bind (add_headers lines []) (\<lambda>params. Some (Inr params))))"

text \<open>The constructor of the base class.\<close>

definition new_http_request :: "request_class \<Rightarrow> string \<Rightarrow> string \<Rightarrow> 'd http_request result option" where
  "new_http_request cls content dir_path =
     bindP (Some (deserialize_url content)) (\<lambda>url.
     bindP (Some (deserialize_query_string url)) (\<lambda>(path, query).
     bindP (deserialize_header_params content) (\<lambda>headers.
       Some (Inr \<lparr>rq_class = cls, m_url = path, m_dir_path = dir_path, m_query_string = query,
         m_query_params = deserialize_query_params query, m_header_params = headers,
         m_body = [], m_body_json = JNone\<rparr>))))"

subsection \<open>Bodies\<close>

definition deserialize_body :: "'d platform \<Rightarrow> nat \<Rightarrow> string \<Rightarrow> 'd http_request \<Rightarrow> 'd http_request result option" where
  "deserialize_body pf n content rq =
     bindP (Some (substr content (sz_add (of_pos (std_find content 0 (crlf @ crlf))) 4) (length content - 1))) (\<lambda>body.
     bindP (json_parse pf n body) (\<lambda>j. Some (Inr (rq\<lparr>m_body := body, m_body_json := j\<rparr>))))"

definition key_format :: string where
  "key_format = ''Content-Disposition: form-data; name=''"

definition int_find :: "string \<Rightarrow> string \<Rightarrow> int \<Rightarrow> int" where
  "int_find s pat pos = pos_to_int (std_find s (to_size_t pos) pat)"

definition form_entry :: "string \<Rightarrow> int \<Rightarrow> (string \<times> string) result" where
  "form_entry body key_at =
     (let key_start = key_at + int (length key_format) + 1;
          key_end = int_find body [CHR 0x22] key_start;
          value_start = int_find body (crlf @ crlf) key_end + 4;
          value_end = int_find body crlf value_start
      in bindE (substr body (to_size_t key_start) (to_size_t (key_end - key_start))) (\<lambda>key.
         bindE (substr body (to_size_t value_start) (to_size_t (value_end - value_start))) (\<lambda>value.
         Inr (key, value))))"

partial_function (option) form_loop :: "string \<Rightarrow> string \<Rightarrow> int \<Rightarrow> 'd json \<Rightarrow> 'd json result option" where
  "form_loop body frame start j =
     (let key_start = int_find body key_format start
      in if \<not> (-1 < key_start) then Some (Inr j)
         else case form_entry body key_start of
             Inl e \<Rightarrow> Some (Inl e)
           | Inr (key, value) \<Rightarrow>
               form_loop body frame (int_find body frame (start + int (length frame)))
                 (set_key j (c_str key) (of_string value)))"

definition deserialize_body_form_data :: "'d http_request \<Rightarrow> 'd http_request result option" where
  "deserialize_body_form_data rq =
     (let form_data_start = int_find (m_body rq) key_format 0
      in if -1 < form_data_start then
           bindP (Some (substr (m_body rq) 0 (nat form_data_start))) (\<lambda>frame.
           bindP (form_loop (m_body rq) frame 0 (m_body_json rq)) (\<lambda>j. Some (Inr (rq\<lparr>m_body_json := j\<rparr>))))
         else Some (Inr rq))"

primrec add_raw_params :: "string list \<Rightarrow> 'd json \<Rightarrow> 'd json option" where
  "add_raw_params [] j = Some j"
| "add_raw_params (p # ps) j =
     Option.bind (split_string p ''='') (\<lambda>arr. add_raw_params ps
       (case arr of k # v # _ \<Rightarrow> set_key j (c_str k) (of_string v) | _ \<Rightarrow> j))"

definition deserialize_body_raw_data :: "'d http_request \<Rightarrow> 'd http_request result option" where
  "deserialize_body_raw_data rq =
     (if is_null (m_body_json rq) then
        Option.bind (split_string (m_body rq) ''&'') (\<lambda>arr.
        Option.bind (add_raw_params arr (m_body_json rq)) (\<lambda>j. Some (Inr (rq\<lparr>m_body_json := j\<rparr>))))
      else Some (Inr rq))"

text \<open>The constructor of \<open>HttpRequestPost\<close>, which those of \<open>HttpRequestPut\<close> and
  \<open>HttpRequestDelete\<close> call.\<close>

definition new_http_request_post :: "'d platform \<Rightarrow> nat \<Rightarrow> request_class \<Rightarrow> string \<Rightarrow> string \<Rightarrow> 'd http_request result option" where
  "new_http_request_post pf n cls content dir_path =
     bindP (new_http_request cls content dir_path) (\<lambda>rq.
     bindP (deserialize_body pf n content rq) (\<lambda>rq.
     bindP (deserialize_body_form_data rq) deserialize_body_raw_data))"

definition request_generator_by_method :: "'d platform \<Rightarrow> nat \<Rightarrow> request_method \<Rightarrow> string \<Rightarrow> string \<Rightarrow> 'd http_request result option" where
  "request_generator_by_method pf n meth = (case meth of
     GET \<Rightarrow> new_http_request Http_Request_Get
   | POST \<Rightarrow> new_http_request_post pf n Http_Request_Post
   | DELETE \<Rightarrow> new_http_request_post pf n Http_Request_Delete
   | PUT \<Rightarrow> new_http_request_post pf n Http_Request_Put
   | _ \<Rightarrow> new_http_request Http_Request)"

text \<open>The null pointer stands for a text without a known method.\<close>

definition create_new_http_request :: "'d platform \<Rightarrow> nat \<Rightarrow> string \<Rightarrow> string \<Rightarrow> 'd http_request option result option" where
  "create_new_http_request pf n content dir_path =
     (case find_first_of content 0 '' '' of
        None \<Rightarrow> Some (Inr None)
      | Some e \<Rightarrow> bindP (Some (substr content 0 e)) (\<lambda>str.
          case map_of request_method_map str of
            None \<Rightarrow> Some (Inr None)
          | Some meth \<Rightarrow> bindP (request_generator_by_method pf n meth content dir_path) (\<lambda>rq. Some (Inr (Some rq)))))"

subsection \<open>Members\<close>

definition get_request_method :: "'d http_request \<Rightarrow> request_method" where
  "get_request_method rq = (case rq_class rq of
     Http_Request \<Rightarrow> UNKNOWN | Http_Request_Get \<Rightarrow> GET | Http_Request_Post \<Rightarrow> POST
   | Http_Request_Put \<Rightarrow> PUT | Http_Request_Delete \<Rightarrow> DELETE)"

definition has_body :: "'d http_request \<Rightarrow> bool" where
  "has_body rq \<longleftrightarrow> rq_class rq \<in> {Http_Request_Post, Http_Request_Put, Http_Request_Delete}"

definition param_not_found :: string where
  "param_not_found = ''PARAM_NOT_FOUND''"

definition param_no_missing :: string where
  "param_no_missing = ''PARAM_NO_MISSING''"

definition get_query_param :: "'d http_request \<Rightarrow> string \<Rightarrow> string" where
  "get_query_param rq param = (case map_of (m_query_params rq) param of Some v \<Rightarrow> v | None \<Rightarrow> param_not_found)"

definition get_header_param :: "'d http_request \<Rightarrow> string \<Rightarrow> string" where
  "get_header_param rq param = (case map_of (m_header_params rq) param of Some v \<Rightarrow> v | None \<Rightarrow> param_not_found)"

primrec check_missing_params :: "'d http_request \<Rightarrow> string list \<Rightarrow> string" where
  "check_missing_params rq [] = param_no_missing"
| "check_missing_params rq (p # ps) =
     (if get_query_param rq p = param_not_found then ''Missing query param: ['' @ p @ '']''
      else check_missing_params rq ps)"

definition get_query_json :: "'d platform \<Rightarrow> 'd http_request \<Rightarrow> 'd json" where
  "get_query_json pf rq =
     foldl (\<lambda>res (k, v). set_key res (c_str k) (of_string v)) JNone (reorder pf (m_query_params rq))"

definition get_body :: "'d http_request \<Rightarrow> string" where
  "get_body rq = (if has_body rq then m_body rq else [])"

definition get_body_json :: "'d http_request \<Rightarrow> 'd json" where
  "get_body_json rq = (if has_body rq then m_body_json rq else JValue VNull True)"

text \<open>The conversion of a \<open>Json\<close> to \<open>std::string\<close>.\<close>

definition json_string :: "'d json \<Rightarrow> string" where
  "json_string j = (case j of JValue (VString s) _ \<Rightarrow> s | _ \<Rightarrow> [])"

definition field_of :: "'d json \<Rightarrow> string \<Rightarrow> 'd json" where
  "field_of j k = (case j of JObject _ obj _ \<Rightarrow> (case map_of obj k of Some v \<Rightarrow> v | None \<Rightarrow> JNone) | _ \<Rightarrow> JNone)"

definition get_body_param_string :: "'d http_request \<Rightarrow> string \<Rightarrow> string result" where
  "get_body_param_string rq param =
     (if has_body rq then bindE (has_field (m_body_json rq) param) (\<lambda>f.
        if f then Inr (json_string (field_of (m_body_json rq) (c_str param))) else Inr param_not_found)
      else Inr [])"

definition get_body_param_json :: "'d http_request \<Rightarrow> string \<Rightarrow> 'd json result" where
  "get_body_param_json rq param =
     (if has_body rq then bindE (has_field (m_body_json rq) param) (\<lambda>f.
        if f then Inr (field_of (m_body_json rq) (c_str param)) else Inr (JValue VNull True))
      else Inr (JValue VNull True))"

primrec missing_body_params :: "'d json \<Rightarrow> string list \<Rightarrow> string result" where
  "missing_body_params j [] = Inr param_no_missing"
| "missing_body_params j (p # ps) = bindE (has_field j p) (\<lambda>f.
     if \<not> f then Inr (''Missing body param: ['' @ p @ '']'') else missing_body_params j ps)"

definition check_missing_body_params :: "'d http_request \<Rightarrow> string list \<Rightarrow> string result" where
  "check_missing_body_params rq names =
     (if has_body rq then missing_body_params (m_body_json rq) names else Inr param_no_missing)"

text \<open>\<open>std::stoi\<close>: blanks, a sign, digits.\<close>

definition is_space :: "char \<Rightarrow> bool" where
  "is_space c \<longleftrightarrow> c \<in> {CHR 0x20, CHR 0x09, CHR 0x0A, CHR 0x0B, CHR 0x0C, CHR 0x0D}"

definition std_stoi :: "string \<Rightarrow> int result" where
  "std_stoi s =
     (let t = dropWhile is_space s;
          ds = digits_prefix (if t \<noteq> [] \<and> hd t \<in> {CHR ''-'', CHR ''+''} then tl t else t);
          v = (if t \<noteq> [] \<and> hd t = CHR ''-'' then - int (digits_value ds) else int (digits_value ds))
      in if ds = [] then Inl (Throw Std_Invalid_Argument)
         else if v < - (2 ^ 31) \<or> 2 ^ 31 \<le> v then Inl (Throw Std_Out_Of_Range) else Inr v)"

definition is_valid_format :: "'d http_request \<Rightarrow> bool result" where
  "is_valid_format rq =
     (if has_body rq then
        let p1 = get_header_param rq ''Content-Length''; p2 = get_header_param rq ''content-length''
        in bindE (if p1 \<noteq> param_not_found then std_stoi p1 else if p2 \<noteq> param_not_found then std_stoi p2 else Inr 0)
             (\<lambda>len. Inr (len = 0 \<or> to_size_t len = length (m_body rq)))
      else Inr True)"

text \<open>The query string of a JSON object. The strings of the object lose their quotes, in the
  caller's object too: the loop gets references.\<close>

definition unquote :: "'d json \<Rightarrow> 'd json" where
  "unquote j = (case j of JValue (VString s) _ \<Rightarrow> JValue (VString s) False | _ \<Rightarrow> j)"

fun query_pieces :: "'d platform \<Rightarrow> bool \<Rightarrow> (string \<times> 'd json) list \<Rightarrow> string result" where
  "query_pieces pf first [] = Inr []"
| "query_pieces pf first ((k, v) # kvs) = bindE (get_string_value pf (unquote v)) (\<lambda>t.
     bindE (query_pieces pf False kvs) (\<lambda>rest. Inr ((if first then [] else ''&'') @ k @ ''='' @ t @ rest)))"

definition get_query_string_from_query_json :: "'d platform \<Rightarrow> 'd json \<Rightarrow> (string \<times> 'd json) result" where
  "get_query_string_from_query_json pf j = (case j of
     JObject False obj xs \<Rightarrow>
       bindE (query_pieces pf True (reorder pf obj)) (\<lambda>q. Inr (q, JObject False (map (\<lambda>(k, v). (k, unquote v)) obj) xs))
   | _ \<Rightarrow> Inr ([], j))"

end
