(* ===== verification/Http_Roundtrip.thy ===== *)
theory Http_Roundtrip
  imports Http_Request
begin

section \<open>Requests read back\<close>

text \<open>
  What a client writes as a request is what the server reads: the text of a request line,
  headers and a body, and the members of the object that is built from it.
\<close>

definition header_lines :: "(string \<times> string) list \<Rightarrow> string list" where
  "header_lines = map (\<lambda>(k, v). k @ '': '' @ v)"

definition query_text :: "(string \<times> string) list \<Rightarrow> string" where
  "query_text ps = join ''&'' (map (\<lambda>(k, v). k @ ''='' @ v) ps)"

definition target_text :: "string \<Rightarrow> (string \<times> string) list \<Rightarrow> string" where
  "target_text path ps = (if ps = [] then path else path @ ''?'' @ query_text ps)"

definition request_text :: "string \<Rightarrow> string \<Rightarrow> (string \<times> string) list \<Rightarrow> (string \<times> string) list \<Rightarrow> string \<Rightarrow> string" where
  "request_text meth path ps hs body =
     join crlf ((meth @ '' '' @ target_text path ps @ '' HTTP/1.1'') # header_lines hs) @ crlf @ crlf @ body"

definition no_break :: "string \<Rightarrow> bool" where
  "no_break s \<longleftrightarrow> CHR 0x0D \<notin> set s \<and> CHR 0x0A \<notin> set s"

definition clean_header :: "string \<times> string \<Rightarrow> bool" where
  "clean_header kv = (case kv of (k, v) \<Rightarrow> no_break k \<and> no_break v \<and>
     std_find k 0 '': '' = None \<and> std_find v 0 '': '' = None)"

definition clean_word :: "string \<Rightarrow> bool" where
  "clean_word s \<longleftrightarrow> no_break s \<and> CHR '' '' \<notin> set s"

definition clean_param :: "string \<times> string \<Rightarrow> bool" where
  "clean_param kv = (case kv of (k, v) \<Rightarrow> clean_word k \<and> clean_word v \<and>
     CHR ''='' \<notin> set k \<and> CHR ''&'' \<notin> set k \<and> CHR ''&'' \<notin> set v)"

text \<open>A well-formed request: at least one header, distinct names, no separator inside a part.\<close>

definition clean_request :: "string \<Rightarrow> (string \<times> string) list \<Rightarrow> (string \<times> string) list \<Rightarrow> bool" where
  "clean_request path ps hs \<longleftrightarrow> clean_word path \<and> CHR ''?'' \<notin> set path \<and>
     distinct (map fst ps) \<and> (\<forall>p \<in> set ps. clean_param p) \<and>
     hs \<noteq> [] \<and> distinct (map fst hs) \<and> (\<forall>h \<in> set hs. clean_header h)"

subsection \<open>The end of the headers\<close>

lemma crlf_facts [simp]: "length crlf = 2" "crlf \<noteq> []" "set crlf = {CHR 0x0D, CHR 0x0A}"
  by (simp_all add: crlf_def)

lemma unbordered2: "a \<noteq> b \<Longrightarrow> unbordered [a, b]"
proof -
  assume "a \<noteq> b"
  moreover have "k = 1" if "k < 2" "0 < k" for k :: nat using that by simp
  ultimately show ?thesis unfolding unbordered_def by (metis One_nat_def diff_Suc_1 drop0 drop_Suc_Cons length_Cons
      list.inject list.size(3) numeral_2_eq_2 take0 take_Suc_Cons)
qed

lemma unbordered_crlf: "unbordered crlf"
  by (simp add: crlf_def unbordered2)

lemma plus_0_fun: "((+) (0 :: nat)) = (\<lambda>x. x)"
  by auto

lemma find_skip:
  assumes "pat \<noteq> []" "hd pat \<notin> set l"
  shows "std_find (l @ s) 0 pat = map_option ((+) (length l)) (std_find s 0 pat)"
  using assms(2)
proof (induction l)
  case (Cons c l)
  from Cons.prems assms(1) have "take (length pat) ((c # l) @ s) \<noteq> pat" by (cases pat) auto
  with Cons assms(1) show ?case by (simp add: std_find_Cons option.map_comp o_def)
qed (simp add: option.map_ident [unfolded id_def] plus_0_fun)

lemma find_absent:
  assumes "x \<in> set pat" "x \<notin> set p"
  shows "std_find p 0 pat = None"
  unfolding std_find_None
proof (intro allI impI)
  fix i
  have "set (take (length pat) (drop i p)) \<subseteq> set p"
    by (meson set_drop_subset set_take_subset subset_trans)
  with assms show "take (length pat) (drop i p) \<noteq> pat" by auto
qed

lemma find_header_end:
  assumes "ls \<noteq> []" "\<forall>l \<in> set ls. l \<noteq> [] \<and> CHR 0x0D \<notin> set l"
  shows "std_find (join crlf ls @ crlf @ crlf @ body) 0 (crlf @ crlf) = Some (length (join crlf ls))"
  using assms
proof (induction ls)
  case (Cons l ls)
  have here: "std_find (crlf @ crlf @ body) 0 (crlf @ crlf) = Some 0"
    by (simp add: std_find_Some)
  have skip: "std_find (l @ s) 0 (crlf @ crlf) = map_option ((+) (length l)) (std_find s 0 (crlf @ crlf))" for s
    using find_skip [of "crlf @ crlf" l s] Cons.prems(2) by (simp add: crlf_def)
  show ?case
  proof (cases "ls = []")
    case True
    with skip here show ?thesis by simp
  next
    case False
    then obtain c r where r: "join crlf ls @ crlf @ crlf @ body = c # r" "c \<noteq> CHR 0x0D"
    proof -
      from False obtain l' ls' where ls: "ls = l' # ls'" by (cases ls) auto
      with Cons.prems(2) obtain c r where "l' = c # r" "c \<noteq> CHR 0x0D" by (cases l') auto
      then show thesis using ls that by (cases ls') auto
    qed
    have "std_find (crlf @ c # r) 0 (crlf @ crlf) = map_option ((+) 2) (std_find (c # r) 0 (crlf @ crlf))"
      using r(2) by (simp add: crlf_def std_find_Cons option.map_comp o_def)
    with Cons.IH [OF False] Cons.prems(2) skip False r(1) show ?thesis by (simp add: join_Cons)
  qed
qed simp

subsection \<open>Headers\<close>

lemma add_headers_lines:
  "\<forall>h \<in> set hs. clean_header h \<Longrightarrow> distinct (map fst (acc @ hs)) \<Longrightarrow>
    add_headers (header_lines hs) acc = Some (acc @ hs)"
proof (induction hs arbitrary: acc)
  case (Cons h hs)
  obtain k v where h: "h = (k, v)" by (cases h) auto
  have "split_string (join '': '' [k, v]) '': '' = Some [k, v]"
    using Cons.prems(1) h by (intro split_string_join) (auto simp: clean_header_def unbordered2)
  then have s: "split_string (k @ '': '' @ v) '': '' = Some [k, v]" by simp
  have f: "emplace k v acc = acc @ [(k, v)]"
    using Cons.prems(2) h by (auto simp: emplace_def map_of_eq_None_iff)
  have "add_headers (header_lines (h # hs)) acc = add_headers (header_lines hs) (acc @ [(k, v)])"
    using s f h by (simp add: header_lines_def)
  with Cons.IH [of "acc @ [(k, v)]"] Cons.prems h show ?case by simp
qed (simp add: header_lines_def)

lemma clean_lines:
  assumes "\<forall>h \<in> set hs. clean_header h" "l \<in> set (header_lines hs)"
  shows "l \<noteq> []" "CHR 0x0D \<notin> set l" "CHR 0x0A \<notin> set l"
  using assms by (auto simp: header_lines_def clean_header_def no_break_def)

lemma find_first_of_app:
  assumes "\<forall>c \<in> set l. c \<notin> set cs" "s \<noteq> []" "hd s \<in> set cs"
  shows "find_first_of (p @ l @ s) (length p) cs = Some (length p + length l)"
  using assms by (cases s) (auto simp: find_first_of_Some nth_append)

lemma headers_read:
  assumes "no_break l" "l \<noteq> []" "hs \<noteq> []" "distinct (map fst hs)" "\<forall>h \<in> set hs. clean_header h"
    and len: "length (join crlf (l # header_lines hs)) < 2 ^ 63"
  shows "deserialize_header_params (join crlf (l # header_lines hs) @ crlf @ crlf @ body) = Some (Inr hs)"
proof -
  let ?ls = "header_lines hs"
  have ne: "?ls \<noteq> []" using assms(3) by (simp add: header_lines_def)
  let ?c = "join crlf (l # ?ls) @ crlf @ crlf @ body"
  have c: "?c = l @ crlf @ join crlf ?ls @ crlf @ crlf @ body" using ne by (simp add: join_Cons)
  have start: "find_first_of ?c 0 crlf = Some (length l)"
    unfolding c using find_first_of_app [of l crlf "crlf @ join crlf ?ls @ crlf @ crlf @ body" "[]"] assms(1)
    by (auto simp: no_break_def crlf_def)
  have fin: "std_find ?c 0 (crlf @ crlf) = Some (length l + 2 + length (join crlf ?ls))"
    using find_header_end [of "l # ?ls" body] assms(1,2,5) clean_lines(1,2) ne
    by (auto simp: no_break_def join_Cons)
  have len': "length l + 2 + length (join crlf ?ls) < 2 ^ 63" using len ne by (simp add: join_Cons)
  have b: "substr ?c (length l + 2) (length (join crlf ?ls)) = Inr (join crlf ?ls)"
    unfolding c by simp
  have "\<forall>p \<in> set ?ls. std_find p 0 crlf = None"
    using clean_lines(2) [OF assms(5)] find_absent [of "CHR 0x0D" crlf] by auto
  then have s: "split_string (join crlf ?ls) crlf = Some ?ls"
    using ne by (intro split_string_join) (simp_all add: unbordered_crlf)
  have h: "add_headers ?ls [] = Some hs" using add_headers_lines [of hs "[]"] assms(4,5) by simp
  from len' have sz: "sz_add (length l) 2 = length l + 2"
    "sz_sub (length l + 2 + length (join crlf ?ls)) (length l + 2) = length (join crlf ?ls)" by simp_all
  show ?thesis
    by (simp only: deserialize_header_params_def Let_def start fin of_pos_def option.case sz b sum.case s
        Option.bind.bind_lunit h)
qed


subsection \<open>Query strings\<close>

lemma skip_to_amp_at:
  assumes "CHR ''&'' \<notin> set p" "r = [] \<or> hd r = CHR ''&''"
  shows "drop start q = p @ r \<Longrightarrow> start \<le> length q \<Longrightarrow> skip_to_amp q start = start + length p"
  using assms(1)
proof (induction p arbitrary: start)
  case Nil
  then have "\<not> (start < length q \<and> q ! start \<noteq> CHR ''&'')"
    using assms(2) by (cases "start < length q") (auto simp: hd_drop_conv_nth)
  then show ?case by (subst skip_to_amp.simps) auto
next
  case (Cons c p)
  from Cons.prems(1) have q: "q ! start = c" "start < length q" "drop (Suc start) q = p @ r"
    by (auto simp: nth_via_drop drop_Suc tl_drop [symmetric] intro: ccontr)
  with Cons have "skip_to_amp q (Suc start) = Suc start + length p" by auto
  with q Cons.prems(3) show ?case by (subst skip_to_amp.simps) auto
qed

lemma query_loop_params:
  assumes "\<forall>p \<in> set ps. clean_param p" "distinct (map fst (acc @ ps))"
  shows "drop start q = query_text ps \<Longrightarrow> query_loop q start acc = acc @ ps"
  using assms
proof (induction ps arbitrary: start acc)
  case Nil
  then show ?case by (simp add: query_text_def query_loop.simps [of q start])
next
  case (Cons p ps)
  obtain k v where p: "p = (k, v)" by (cases p)
  let ?p = "k @ ''='' @ v" and ?r = "if ps = [] then [] else ''&'' @ query_text ps"
  from Cons.prems(1) p have q: "drop start q = ?p @ ?r" by (simp add: query_text_def join_Cons)
  then have lt: "start < length q" by (auto intro: ccontr)
  have fin: "skip_to_amp q start = start + length ?p"
    using Cons.prems(2) p q lt by (intro skip_to_amp_at [of ?p ?r]) (auto simp: clean_param_def)
  have t: "take (start + length ?p - start) (drop start q) = ?p" by (simp add: q)
  have e: "std_find ?p 0 ''='' = Some (length k)"
    using find_skip [of "''=''" k "''='' @ v"] Cons.prems(2) p by (simp add: clean_param_def std_find_Cons)
  have f: "emplace k v acc = acc @ [(k, v)]"
    using Cons.prems(3) p by (auto simp: emplace_def map_of_eq_None_iff)
  have "query_loop q start acc = query_loop q (start + length ?p + 1) (acc @ [(k, v)])"
    by (subst query_loop.simps) (simp only: lt if_True Let_def fin t e option.case, simp add: f)
  also have "\<dots> = (acc @ [(k, v)]) @ ps"
  proof (rule Cons.IH)
    have "drop (start + length ?p + 1) q = drop (length ?p + 1) (drop start q)" by (simp add: ac_simps)
    also have "\<dots> = query_text ps" unfolding q by (cases "ps = []") (simp_all add: query_text_def)
    finally show "drop (start + length ?p + 1) q = query_text ps" .
  qed (use Cons.prems p in auto)
  finally show ?case using p by simp
qed

lemma query_params_read:
  "\<forall>p \<in> set ps. clean_param p \<Longrightarrow> distinct (map fst ps) \<Longrightarrow> deserialize_query_params (query_text ps) = ps"
  unfolding deserialize_query_params_def using query_loop_params [of ps "[]" 0 "query_text ps"] by simp

lemma query_string_read:
  assumes "CHR ''?'' \<notin> set path"
  shows "deserialize_query_string (target_text path ps) = Inr (path, if ps = [] then [] else query_text ps)"
proof (cases "ps = []")
  case True
  with assms show ?thesis by (simp add: target_text_def deserialize_query_string_def find_absent)
next
  case False
  have "std_find (path @ ''?'' @ query_text ps) 0 ''?'' = Some (length path)"
    using find_skip [of "''?''" path "''?'' @ query_text ps"] assms by (simp add: std_find_Cons)
  with False show ?thesis by (simp add: target_text_def deserialize_query_string_def)
qed


subsection \<open>Whole requests\<close>

lemma find_blank:
  assumes "CHR '' '' \<notin> set m" "CHR '' '' \<notin> set t"
  shows "find_first_of (m @ '' '' @ t @ '' '' @ r) 0 '' '' = Some (length m)"
    and "find_first_of (m @ '' '' @ t @ '' '' @ r) (length m + 1) '' '' = Some (length m + 1 + length t)"
  using find_first_of_app [of m "'' ''" "'' '' @ t @ '' '' @ r" "[]"]
    find_first_of_app [of t "'' ''" "'' '' @ r" "m @ '' ''"] assms by auto

lemma url_read:
  assumes "CHR '' '' \<notin> set m" "CHR '' '' \<notin> set t" "length m + length t < 2 ^ 62"
  shows "deserialize_url (m @ '' '' @ t @ '' '' @ r) = Inr t"
proof -
  have sz: "sz_add (length m) 1 = length m + 1"
    "sz_sub (sz_sub (length m + 1 + length t) (length m)) 1 = length t" using assms(3) by simp_all
  have "substr (m @ '' '' @ t @ '' '' @ r) (length m + 1) (length t) = Inr t" by simp
  then show ?thesis
    by (simp only: deserialize_url_def Let_def find_blank [OF assms(1,2)] of_pos_def option.case sz)
qed

lemma set_query_text: "set (query_text ps) \<subseteq> (\<Union>p \<in> set ps. set (fst p) \<union> set (snd p)) \<union> {CHR ''='', CHR ''&''}"
proof (induction ps)
  case (Cons p ps)
  show ?case
  proof (cases "ps = []")
    case False
    then have "query_text (p # ps) = fst p @ ''='' @ snd p @ ''&'' @ query_text ps"
      by (simp add: query_text_def join_Cons case_prod_unfold)
    with Cons show ?thesis by auto
  qed (auto simp: query_text_def case_prod_unfold)
qed (simp add: query_text_def)

lemma target_clean:
  assumes "clean_request path ps hs"
  shows "clean_word (target_text path ps)"
proof -
  have "clean_word (query_text ps)"
    using assms set_query_text [of ps]
    by (fastforce simp: clean_request_def clean_word_def no_break_def clean_param_def)
  with assms show ?thesis by (auto simp: target_text_def clean_request_def clean_word_def no_break_def)
qed

definition read_request :: "request_class \<Rightarrow> string \<Rightarrow> string \<Rightarrow> (string \<times> string) list \<Rightarrow> (string \<times> string) list \<Rightarrow> 'd http_request" where
  "read_request cls path dir ps hs = \<lparr>rq_class = cls, m_url = path, m_dir_path = dir,
     m_query_string = (if ps = [] then [] else query_text ps),
     m_query_params = ps, m_header_params = hs, m_body = [], m_body_json = JNone\<rparr>"

lemma read_request_fields [simp]:
  "rq_class (read_request cls path dir ps hs) = cls" "m_url (read_request cls path dir ps hs) = path"
  "m_query_params (read_request cls path dir ps hs) = ps" "m_header_params (read_request cls path dir ps hs) = hs"
  by (simp_all add: read_request_def)

definition short_request :: "string \<Rightarrow> string \<Rightarrow> (string \<times> string) list \<Rightarrow> (string \<times> string) list \<Rightarrow> string \<Rightarrow> bool" where
  "short_request meth path ps hs body \<longleftrightarrow> length (request_text meth path ps hs body) < 2 ^ 31"

lemma request_line: "\<exists>r. request_text meth path ps hs body = meth @ '' '' @ target_text path ps @ '' '' @ r"
  by (cases "header_lines hs = []") (auto simp: request_text_def join_Cons)

lemma new_request_read:
  assumes "clean_request path ps hs" "clean_word meth" "short_request meth path ps hs body"
  shows "new_http_request cls (request_text meth path ps hs body) dir = Some (Inr (read_request cls path dir ps hs))"
proof -
  let ?c = "request_text meth path ps hs body" and ?l = "meth @ '' '' @ target_text path ps @ '' HTTP/1.1''"
  obtain r where r: "?c = meth @ '' '' @ target_text path ps @ '' '' @ r" using request_line by blast
  have len: "length ?c < 2 ^ 31" using assms(3) by (simp add: short_request_def)
  then have "length meth + length (target_text path ps) < 2 ^ 62" unfolding r by simp
  with target_clean [OF assms(1)] assms(2) have u: "deserialize_url ?c = Inr (target_text path ps)"
    unfolding r by (intro url_read) (simp_all add: clean_word_def)
  have q: "deserialize_query_string (target_text path ps) = Inr (path, if ps = [] then [] else query_text ps)"
    using assms(1) by (intro query_string_read) (simp add: clean_request_def)
  have p: "deserialize_query_params (if ps = [] then [] else query_text ps) = ps"
    using assms(1) query_params_read [of ps] by (auto simp: clean_request_def query_text_def)
  have h: "deserialize_header_params ?c = Some (Inr hs)"
    unfolding request_text_def
  proof (rule headers_read)
    show "no_break ?l" using target_clean [OF assms(1)] assms(2) by (auto simp: clean_word_def no_break_def)
    show "length (join crlf (?l # header_lines hs)) < 2 ^ 63"
      using len by (simp add: request_text_def)
  qed (use assms(1) in \<open>simp_all add: clean_request_def\<close>)
  show ?thesis by (simp only: new_http_request_def u q h bindP_simps case_prod_conv p read_request_def)
qed

lemma substr_after_break:
  assumes "c = a @ crlf @ crlf @ body" "std_find c 0 (crlf @ crlf) = Some (length a)" "length c < 2 ^ 31"
  shows "substr c (sz_add (of_pos (std_find c 0 (crlf @ crlf))) 4) (length c - 1) = Inr body"
proof -
  have l: "length c = length a + 4 + length body" by (simp add: assms(1))
  with assms(3) have sz: "sz_add (length a) 4 = length a + 4" by simp
  have "drop (length a + 4) c = body" by (simp add: assms(1))
  with l show ?thesis by (simp add: assms(2) of_pos_def sz)
qed

lemma create_dispatch:
  assumes "clean_request path ps hs" "map_of request_method_map meth = Some m"
  shows "create_new_http_request pf n (request_text meth path ps hs body) dir =
    bindP (request_generator_by_method pf n m (request_text meth path ps hs body) dir) (\<lambda>rq. Some (Inr (Some rq)))"
proof -
  let ?c = "request_text meth path ps hs body"
  have w: "clean_word meth"
    using assms(2) by (auto simp: request_method_map_def clean_word_def no_break_def split: if_splits)
  obtain r where r: "?c = meth @ '' '' @ target_text path ps @ '' '' @ r" using request_line by blast
  have e: "find_first_of ?c 0 '' '' = Some (length meth)"
    unfolding r using find_blank(1) w target_clean [OF assms(1)] by (simp add: clean_word_def)
  have s: "substr ?c 0 (length meth) = Inr meth" unfolding r by simp
  show ?thesis by (simp only: create_new_http_request_def e s option.case bindP_simps assms(2))
qed

lemma body_read:
  assumes "clean_request path ps hs" "clean_word meth" "meth \<noteq> []" "short_request meth path ps hs body"
  shows "substr (request_text meth path ps hs body)
      (sz_add (of_pos (std_find (request_text meth path ps hs body) 0 (crlf @ crlf))) 4)
      (length (request_text meth path ps hs body) - 1) = Inr body"
proof -
  let ?ls = "(meth @ '' '' @ target_text path ps @ '' HTTP/1.1'') # header_lines hs"
  let ?c = "request_text meth path ps hs body"
  have "\<forall>l \<in> set ?ls. l \<noteq> [] \<and> CHR 0x0D \<notin> set l"
    using assms(1,2) target_clean [OF assms(1)] clean_lines(1,2) [of hs]
    by (auto simp: clean_request_def clean_word_def no_break_def)
  then have f: "std_find ?c 0 (crlf @ crlf) = Some (length (join crlf ?ls))"
    unfolding request_text_def by (intro find_header_end) simp
  show ?thesis
    by (rule substr_after_break) (use f assms(4) in \<open>simp_all add: request_text_def short_request_def\<close>)
qed

lemma request_reads_back:
  assumes "clean_request path ps hs" "meth \<in> {''GET'', ''OPTIONS'', ''HEAD'', ''PATCH''}"
    and "short_request meth path ps hs body"
  shows "\<exists>rq. create_new_http_request pf n (request_text meth path ps hs body) dir = Some (Inr (Some rq)) \<and>
    get_request_method rq = (if meth = ''GET'' then GET else UNKNOWN) \<and> m_url rq = path \<and>
    m_query_params rq = ps \<and> m_header_params rq = hs \<and> get_body rq = [] \<and> is_valid_format rq = Inr True"
proof -
  let ?rq = "\<lambda>cls. read_request cls path dir ps hs :: 'a http_request"
  have m: "clean_word meth" using assms(2) by (auto simp: clean_word_def no_break_def)
  have new: "new_http_request cls (request_text meth path ps hs body) dir = Some (Inr (?rq cls))" for cls
    by (rule new_request_read [OF assms(1) m assms(3)])
  show ?thesis
  proof (cases "meth = ''GET''")
    case True
    then have "map_of request_method_map meth = Some GET" by (simp add: request_method_map_def)
    from create_dispatch [OF assms(1) this, of pf n body dir] new [of Http_Request_Get] True
    have "create_new_http_request pf n (request_text meth path ps hs body) dir = Some (Inr (Some (?rq Http_Request_Get)))"
      by (simp add: request_generator_by_method_def)
    with True show ?thesis
      by (intro exI [of _ "?rq Http_Request_Get"])
        (simp add: get_request_method_def get_body_def has_body_def is_valid_format_def)
  next
    case False
    with assms(2) obtain md where md: "map_of request_method_map meth = Some md" "md \<in> {OPTIONS, HEAD, PATCH}"
      by (auto simp: request_method_map_def)
    then have "request_generator_by_method pf n md = new_http_request Http_Request"
      by (auto simp: request_generator_by_method_def)
    with create_dispatch [OF assms(1) md(1), of pf n body dir] new [of Http_Request]
    have "create_new_http_request pf n (request_text meth path ps hs body) dir = Some (Inr (Some (?rq Http_Request)))"
      by simp
    with False show ?thesis
      by (intro exI [of _ "?rq Http_Request"])
        (simp add: get_request_method_def get_body_def has_body_def is_valid_format_def)
  qed
qed


text \<open>
  C20: a well-formed request that carries no body to parse comes out of \<open>CreateNewHttpRequest\<close>
  as it was written: the class of its meth, the path, the query parameters and the headers.
\<close>

theorem http_request_roundtrip:
  assumes "clean_request path ps hs" "meth \<in> {''GET'', ''OPTIONS'', ''HEAD'', ''PATCH''}"
    and "short_request meth path ps hs body"
  shows "\<exists>rq. create_new_http_request pf n (request_text meth path ps hs body) dir = Some (Inr (Some rq)) \<and>
    get_request_method rq = (if meth = ''GET'' then GET else UNKNOWN) \<and> m_url rq = path \<and>
    m_query_params rq = ps \<and> m_header_params rq = hs \<and> get_body rq = [] \<and> is_valid_format rq = Inr True"
  using assms by (rule request_reads_back)

theorem http_request_roundtrip_witness:
  "\<exists>rq. create_new_http_request demo_platform 0
      (request_text ''GET'' ''/book'' [(''depth'', ''5''), (''q'', ''a=b'')] [(''Host'', ''h:80'')] []) ''web'' = Some (Inr (Some rq)) \<and>
    get_request_method rq = (if ''GET'' = ''GET'' then GET else UNKNOWN) \<and> m_url rq = ''/book'' \<and>
    m_query_params rq = [(''depth'', ''5''), (''q'', ''a=b'')] \<and> m_header_params rq = [(''Host'', ''h:80'')] \<and>
    get_body rq = [] \<and> is_valid_format rq = Inr True"
proof (rule http_request_roundtrip)
  show "clean_request ''/book'' [(''depth'', ''5''), (''q'', ''a=b'')] [(''Host'', ''h:80'')]"
    by (simp add: clean_request_def clean_word_def no_break_def clean_param_def clean_header_def
        find_absent [of "CHR '' ''"])
  show "short_request ''GET'' ''/book'' [(''depth'', ''5''), (''q'', ''a=b'')] [(''Host'', ''h:80'')] []"
    by (simp add: short_request_def request_text_def header_lines_def target_text_def query_text_def)
qed simp

subsection \<open>Requests with a JSON body\<close>

lemma stoi_nat_chars: "n < 2 ^ 31 \<Longrightarrow> std_stoi (nat_to_chars n) = Inr (int n)"
proof -
  assume n: "n < 2 ^ 31"
  obtain c s where t: "nat_to_chars n = c # s" by (cases "nat_to_chars n") auto
  then have c: "char_digit c \<noteq> None" using nat_chars_digits [of n] by simp
  have nd: "char_digit x = None" if "is_space x \<or> x = CHR ''-'' \<or> x = CHR ''+''" for x
    using that by (auto simp: is_space_def char_digit_def digit_char_def upt_rec)
  have d: "dropWhile is_space (nat_to_chars n) = nat_to_chars n" using c nd [of c] t by auto
  have h: "hd (nat_to_chars n) \<notin> {CHR ''-'', CHR ''+''}" using c nd [of c] t by auto
  from n show ?thesis
    unfolding std_stoi_def Let_def d using h nat_chars_value [of n] digits_prefix_nonempty [of n] by auto
qed

lemma announced_length:
  assumes "has_body rq" "map_of (m_header_params rq) ''Content-Length'' = Some (nat_to_chars k)" "k < 2 ^ 31"
  shows "is_valid_format rq = Inr (k = 0 \<or> k = length (m_body rq))"
proof -
  have "hd param_not_found = CHR ''P''" by (simp add: param_not_found_def)
  moreover have "char_digit (CHR ''P'') = None" by code_simp
  ultimately have "nat_to_chars k \<noteq> param_not_found"
    using nat_chars_digits [of k] by (metis hd_in_set nat_chars_nonempty)
  with assms show ?thesis by (simp add: is_valid_format_def get_header_param_def stoi_nat_chars)
qed

lemma json_body_reads_back:
  assumes "clean_request path ps hs"
    and "(meth, m) \<in> {(''POST'', POST), (''PUT'', PUT), (''DELETE'', DELETE)}"
    and "short_request meth path ps hs (json_text pf (JObject arr obj xs))"
    and "plain pf (JObject arr obj xs)" "std_find (json_text pf (JObject arr obj xs)) 0 key_format = None"
    and "length (json_text pf (JObject arr obj xs)) \<le> n"
  shows "\<exists>rq. create_new_http_request pf n (request_text meth path ps hs (json_text pf (JObject arr obj xs))) dir =
      Some (Inr (Some rq)) \<and>
    get_request_method rq = m \<and> m_url rq = path \<and> m_query_params rq = ps \<and> m_header_params rq = hs \<and>
    get_body rq = json_text pf (JObject arr obj xs) \<and> get_body_json rq = JObject arr obj xs \<and>
    (\<forall>k < 2 ^ 31. map_of hs ''Content-Length'' = Some (nat_to_chars k) \<longrightarrow>
      is_valid_format rq = Inr (k = 0 \<or> k = length (get_body rq)))"
proof -
  let ?j = "JObject arr obj xs" let ?b = "json_text pf ?j"
  let ?rq = "\<lambda>cls. read_request cls path dir ps hs :: 'a http_request"
  have w: "clean_word meth" "meth \<noteq> []" using assms(2) by (auto simp: clean_word_def no_break_def)
  have new: "new_http_request cls (request_text meth path ps hs ?b) dir = Some (Inr (?rq cls))" for cls
    by (rule new_request_read [OF assms(1) w(1) assms(3)])
  have b: "deserialize_body pf n (request_text meth path ps hs ?b) (?rq cls) =
      Some (Inr ((?rq cls)\<lparr>m_body := ?b, m_body_json := ?j\<rparr>))" for cls
    by (simp only: deserialize_body_def body_read [OF assms(1) w assms(3)] bindP_simps written_parses [OF assms(4,6)])
  have f: "int_find ?b key_format 0 = -1" using assms(5) by (simp add: int_find_def pos_to_int_def)
  have post: "new_http_request_post pf n cls (request_text meth path ps hs ?b) dir =
      Some (Inr ((?rq cls)\<lparr>m_body := ?b, m_body_json := ?j\<rparr>))" for cls
    by (simp add: new_http_request_post_def new b deserialize_body_form_data_def f deserialize_body_raw_data_def
        is_null_def del: json_text.simps)
  define cls where "cls = (case m of PUT \<Rightarrow> Http_Request_Put | DELETE \<Rightarrow> Http_Request_Delete | _ \<Rightarrow> Http_Request_Post)"
  have "map_of request_method_map meth = Some m" "request_generator_by_method pf n m = new_http_request_post pf n cls"
    using assms(2) by (auto simp: request_method_map_def request_generator_by_method_def cls_def)
  with create_dispatch [OF assms(1), of meth m pf n ?b dir] post
  have "create_new_http_request pf n (request_text meth path ps hs ?b) dir =
      Some (Inr (Some ((?rq cls)\<lparr>m_body := ?b, m_body_json := ?j\<rparr>)))"
    by (simp del: json_text.simps)
  moreover have "has_body (?rq cls\<lparr>m_body := ?b, m_body_json := ?j\<rparr>)"
    using assms(2) by (auto simp: cls_def has_body_def)
  ultimately show ?thesis
    using assms(2) announced_length [of "?rq cls\<lparr>m_body := ?b, m_body_json := ?j\<rparr>"]
    by (intro exI [of _ "?rq cls\<lparr>m_body := ?b, m_body_json := ?j\<rparr>"])
      (auto simp: cls_def get_request_method_def get_body_def get_body_json_def simp del: json_text.simps)
qed

text \<open>
  C21: a well-formed POST, PUT or DELETE request whose body is the text of a plain JSON object or
  array, and in whose body the marker of form data (\<open>key_format\<close>) does not occur, is read completely: the body arrives as text and as the JSON value it is the text of,
  and the request counts as complete exactly when the announced length is that of the body or 0.
  A body with the marker in one of its strings is taken for form data, whatever it is, and its JSON value is written into.
\<close>

theorem http_json_body_roundtrip:
  assumes "clean_request path ps hs"
    and "(meth, m) \<in> {(''POST'', POST), (''PUT'', PUT), (''DELETE'', DELETE)}"
    and "short_request meth path ps hs (json_text pf (JObject arr obj xs))"
    and "plain pf (JObject arr obj xs)" "std_find (json_text pf (JObject arr obj xs)) 0 key_format = None"
    and "length (json_text pf (JObject arr obj xs)) \<le> n"
  shows "\<exists>rq. create_new_http_request pf n (request_text meth path ps hs (json_text pf (JObject arr obj xs))) dir =
      Some (Inr (Some rq)) \<and>
    get_request_method rq = m \<and> m_url rq = path \<and> m_query_params rq = ps \<and> m_header_params rq = hs \<and>
    get_body rq = json_text pf (JObject arr obj xs) \<and> get_body_json rq = JObject arr obj xs \<and>
    (\<forall>k < 2 ^ 31. map_of hs ''Content-Length'' = Some (nat_to_chars k) \<longrightarrow>
      is_valid_format rq = Inr (k = 0 \<or> k = length (get_body rq)))"
  using assms by (rule json_body_reads_back)

definition speed_json :: "int json" where
  "speed_json = JObject False [(''speed'', JValue (VInt 2) True)] []"

lemma speed_text: "json_text demo_platform speed_json = [CHR ''{'', CHR 0x22] @ ''speed'' @ [CHR 0x22] @ '':2}''"
  by (simp add: speed_json_def value_pieces_def int_to_chars_def nat_to_chars.simps digit_char_def)

theorem http_json_body_roundtrip_witness:
  "\<exists>rq. create_new_http_request demo_platform 11
      (request_text ''POST'' ''/start'' [] [(''Content-Length'', ''11'')] (json_text demo_platform speed_json)) ''web'' =
      Some (Inr (Some rq)) \<and> get_body_json rq = speed_json \<and> is_valid_format rq = Inr True"
proof -
  have c: "clean_request ''/start'' [] [(''Content-Length'', ''11'')]"
    by (simp add: clean_request_def clean_word_def no_break_def clean_header_def find_absent [of "CHR '' ''"])
  have l: "length (json_text demo_platform speed_json) = 11" by (simp add: speed_text)
  have s: "short_request ''POST'' ''/start'' [] [(''Content-Length'', ''11'')] (json_text demo_platform speed_json)"
    by (simp add: short_request_def request_text_def header_lines_def target_text_def speed_text)
  have p: "plain demo_platform speed_json"
    by (simp add: speed_json_def plain_key_def plain_value_def in_int64_def)
  have k: "std_find (json_text demo_platform speed_json) 0 key_format = None"
    by (rule find_absent [of "CHR ''C''"]) (simp_all add: key_format_def speed_text)
  have "nat_to_chars 11 = ''11''" by (simp add: nat_to_chars.simps digit_char_def)
  then show ?thesis
    using http_json_body_roundtrip [of "''/start''" "[]" "[(''Content-Length'', ''11'')]" "''POST''" POST
        demo_platform False "[(''speed'', JValue (VInt 2) True)]" "[]" 11 "''web''", folded speed_json_def, OF c _ s p k] l
    by (auto dest!: spec [of _ 11])
qed

end
