(* ===== verification/Http_Response.thy ===== *)
theory Http_Response
  imports Http_Roundtrip
begin

section \<open>HTTP responses (src/core/network/https_server/response)\<close>

text \<open>
  The class \<open>HttpResponse\<close>, which owns its content through a pointer that moves from copy to
  copy (\<open>None\<close> is the null pointer), and its text. The responses the class \<open>HttpRequest\<close>
  builds itself, from files and for errors, follow. The file system is a parameter: a function
  from paths to files and directories.
\<close>

datatype response_file_type = JS | CSS | WOFF2 | NONE_TYPE

record file_info =
  file_type :: response_file_type
  file_name :: string

definition no_file_info :: file_info where
  "no_file_info = \<lparr>file_type = NONE_TYPE, file_name = []\<rparr>"

datatype status_code = OK_200 | CREATED_201 | BAD_REQUEST_400 | UNAUTHORIZED_REQUEST_401 | NOT_FOUND_404
  | RISK_ERROR_410 | INTERNAL_SERVER_ERROR_500

primrec status_number :: "status_code \<Rightarrow> nat" where
  "status_number OK_200 = 200"
| "status_number CREATED_201 = 201"
| "status_number BAD_REQUEST_400 = 400"
| "status_number UNAUTHORIZED_REQUEST_401 = 401"
| "status_number NOT_FOUND_404 = 404"
| "status_number RISK_ERROR_410 = 410"
| "status_number INTERNAL_SERVER_ERROR_500 = 500"

definition response_status_code_map :: "(status_code \<times> string) list" where
  "response_status_code_map = [(OK_200, ''OK''), (CREATED_201, ''Created''), (BAD_REQUEST_400, ''Bad Request''),
     (UNAUTHORIZED_REQUEST_401, ''Unauthorized Request''), (NOT_FOUND_404, ''Not Found''),
     (INTERNAL_SERVER_ERROR_500, ''Internal Server Error'')]"

record 'd http_response =
  m_response_code :: status_code
  m_custom_header :: "'d json"
  m_content :: "string option"
  m_is_json_format :: bool
  m_file_info :: file_info

subsection \<open>Constructors, copies and moves\<close>

definition empty_response :: "'d http_response" where
  "empty_response = \<lparr>m_response_code = OK_200, m_custom_header = JValue VNull True, m_content = Some [],
     m_is_json_format = False, m_file_info = no_file_info\<rparr>"

definition json_response :: "'d platform \<Rightarrow> status_code \<Rightarrow> 'd json \<Rightarrow> 'd http_response result" where
  "json_response pf code j = bindE (get_string_value pf j) (\<lambda>t.
     Inr (empty_response\<lparr>m_response_code := code, m_content := Some t, m_is_json_format := True\<rparr>))"

definition text_response :: "status_code \<Rightarrow> string \<Rightarrow> file_info \<Rightarrow> 'd http_response" where
  "text_response code content info =
     empty_response\<lparr>m_response_code := code, m_content := Some content, m_file_info := info\<rparr>"

text \<open>The constructor and the assignment from a modifiable response take its content away.\<close>

definition move_response :: "'d http_response \<Rightarrow> 'd http_response \<times> 'd http_response" where
  "move_response r = (r, r\<lparr>m_content := None\<rparr>)"

definition copy_response :: "'d http_response \<Rightarrow> 'd http_response result" where
  "copy_response r = (case m_content r of None \<Rightarrow> Inl (UB Null_Pointer) | Some _ \<Rightarrow> Inr r)"

definition add_custom_header :: "'d json \<Rightarrow> 'd http_response \<Rightarrow> 'd http_response" where
  "add_custom_header h r = r\<lparr>m_custom_header := h\<rparr>"

subsection \<open>The text of a response\<close>

fun custom_lines :: "'d platform \<Rightarrow> (string \<times> 'd json) list \<Rightarrow> string result" where
  "custom_lines pf [] = Inr []"
| "custom_lines pf ((k, v) # kvs) = bindE (get_string_value pf v) (\<lambda>t.
     bindE (custom_lines pf kvs) (\<lambda>rest. Inr (k @ '': '' @ t @ crlf @ rest)))"

definition custom_header_text :: "'d platform \<Rightarrow> 'd json \<Rightarrow> string result" where
  "custom_header_text pf h =
     (if is_null h then Inr []
      else case h of JObject False obj _ \<Rightarrow> custom_lines pf (reorder pf obj) | _ \<Rightarrow> Inr [])"

definition cors_text :: string where
  "cors_text =
     ''Access-Control-Allow-Origin: *'' @ crlf @
     ''Access-Control-Allow-Headers: Origin, X-Api-Key, X-Requested-With, Content-Type, Accept, Authorization'' @ crlf @
     ''Access-Control-Allow-Credentials: true'' @ crlf @
     ''Access-Control-Allow-Methods: GET, POST, OPTIONS, PUT, PATCH, DELETE'' @ crlf"

definition content_type_text :: "'d http_response \<Rightarrow> string" where
  "content_type_text r =
     (if m_is_json_format r then ''Content-Type: application/json'' @ crlf
      else case file_type (m_file_info r) of
        JS \<Rightarrow> ''Content-Type: application/javascript; charset=utf-8'' @ crlf
      | CSS \<Rightarrow> ''Content-Type: text/css; charset=utf-8'' @ crlf
      | WOFF2 \<Rightarrow> ''Content-Type: font/woff2'' @ crlf
      | NONE_TYPE \<Rightarrow> [])"

definition get_response_in_string :: "'d platform \<Rightarrow> 'd http_response \<Rightarrow> string result" where
  "get_response_in_string pf r =
     (case map_of response_status_code_map (m_response_code r) of
        None \<Rightarrow> Inl (UB Dangling_Iterator)
      | Some phrase \<Rightarrow>
          bindE (custom_header_text pf (m_custom_header r)) (\<lambda>custom.
          case m_content r of
            None \<Rightarrow> Inl (UB Null_Pointer)
          | Some content \<Rightarrow> Inr
              (''HTTP/1.1 '' @ nat_to_chars (status_number (m_response_code r)) @ '' '' @ phrase @ crlf @
               custom @ cors_text @ content_type_text r @
               (if file_name (m_file_info r) \<noteq> [] then
                  ''Content-Disposition: attachment; filename='' @ [CHR 0x22] @ file_name (m_file_info r) @ [CHR 0x22] @ crlf
                else []) @
               ''Content-Length: '' @ nat_to_chars (length content) @ crlf @ crlf @ content)))"

subsection \<open>Responses of a request\<close>

datatype fs_node = Fs_File string | Fs_Directory

type_synonym file_system = "string \<Rightarrow> fs_node option"

definition check_file_type :: "string \<Rightarrow> response_file_type" where
  "check_file_type name =
     (if name \<noteq> [] then
        if std_find name 0 ''.js'' \<noteq> None then JS
        else if std_find name 0 ''.css'' \<noteq> None then CSS
        else if std_find name 0 ''.woff2'' \<noteq> None then WOFF2 else NONE_TYPE
      else NONE_TYPE)"

definition not_found_error_message :: string where
  "not_found_error_message = ''The given document couldn'' @ [CHR 0x27] @ ''t be found''"

definition bad_request_default :: "'d http_response" where
  "bad_request_default = text_response NOT_FOUND_404 not_found_error_message no_file_info"

definition check_is_file_path_exist :: "file_system \<Rightarrow> 'd http_request \<Rightarrow> string \<Rightarrow> bool" where
  "check_is_file_path_exist fs rq path =
     (case fs (m_dir_path rq @ ''/'' @ path) of Some (Fs_File _) \<Rightarrow> True | _ \<Rightarrow> False)"

definition send_file :: "file_system \<Rightarrow> 'd http_request \<Rightarrow> string \<Rightarrow> file_info \<Rightarrow> 'd http_response" where
  "send_file fs rq url info =
     (case fs (m_dir_path rq @ ''/'' @ url) of
        Some (Fs_File content) \<Rightarrow> text_response OK_200 content info
      | Some Fs_Directory \<Rightarrow> empty_response
      | None \<Rightarrow> bad_request_default)"

definition send_file_from_directory :: "file_system \<Rightarrow> 'd http_request \<Rightarrow> string \<Rightarrow> string \<Rightarrow> 'd http_response" where
  "send_file_from_directory fs rq url name = send_file fs rq url
     \<lparr>file_type = (if name \<noteq> [] then check_file_type name else check_file_type url), file_name = name\<rparr>"

definition error_json :: "string \<Rightarrow> nat \<Rightarrow> 'd json" where
  "error_json msg code = set_key (set_key (set_key (set_key JNone ''data'' (of_string []))
     ''msg'' (of_string msg)) ''status_code'' (of_integer (int code))) ''error'' (of_bool_json True)"

definition response_bad_request_400 :: "'d platform \<Rightarrow> string \<Rightarrow> 'd http_response result" where
  "response_bad_request_400 pf err = json_response pf BAD_REQUEST_400 (error_json err 400)"

definition response_unauthorized_request_401 :: "'d platform \<Rightarrow> string \<Rightarrow> 'd http_response result" where
  "response_unauthorized_request_401 pf err = json_response pf UNAUTHORIZED_REQUEST_401 (error_json err 401)"

definition response_internal_error_500 :: "'d platform \<Rightarrow> 'd http_response result" where
  "response_internal_error_500 pf = json_response pf INTERNAL_SERVER_ERROR_500 (error_json ''Internal Server Error'' 500)"

subsection \<open>Reading a response\<close>

definition response_line :: "'d http_response \<Rightarrow> string" where
  "response_line r = ''HTTP/1.1 '' @ nat_to_chars (status_number (m_response_code r)) @ '' '' @
     (case map_of response_status_code_map (m_response_code r) of None \<Rightarrow> [] | Some phrase \<Rightarrow> phrase)"

definition response_headers :: "'d http_response \<Rightarrow> nat \<Rightarrow> (string \<times> string) list" where
  "response_headers r n =
     [(''Access-Control-Allow-Origin'', ''*''),
      (''Access-Control-Allow-Headers'', ''Origin, X-Api-Key, X-Requested-With, Content-Type, Accept, Authorization''),
      (''Access-Control-Allow-Credentials'', ''true''),
      (''Access-Control-Allow-Methods'', ''GET, POST, OPTIONS, PUT, PATCH, DELETE'')] @
     (if m_is_json_format r then [(''Content-Type'', ''application/json'')]
      else case file_type (m_file_info r) of
        JS \<Rightarrow> [(''Content-Type'', ''application/javascript; charset=utf-8'')]
      | CSS \<Rightarrow> [(''Content-Type'', ''text/css; charset=utf-8'')]
      | WOFF2 \<Rightarrow> [(''Content-Type'', ''font/woff2'')]
      | NONE_TYPE \<Rightarrow> []) @
     (if file_name (m_file_info r) \<noteq> [] then
        [(''Content-Disposition'', ''attachment; filename='' @ [CHR 0x22] @ file_name (m_file_info r) @ [CHR 0x22])] else []) @
     [(''Content-Length'', nat_to_chars n)]"

lemma join_crlf_lines: "ls \<noteq> [] \<Longrightarrow> join crlf ls @ crlf = concat (map (\<lambda>l. l @ crlf) ls)"
proof (induction ls)
  case (Cons l ls)
  then show ?case by (cases "ls = []") (simp_all add: join_Cons)
qed simp

lemma response_text:
  assumes "map_of response_status_code_map (m_response_code r) \<noteq> None" "is_null (m_custom_header r)" "m_content r = Some c"
  shows "get_response_in_string pf r =
    Inr (join crlf (response_line r # header_lines (response_headers r (length c))) @ crlf @ crlf @ c)"
proof -
  have "join crlf (response_line r # header_lines (response_headers r (length c))) @ crlf =
      concat (map (\<lambda>l. l @ crlf) (response_line r # header_lines (response_headers r (length c))))"
    by (rule join_crlf_lines) simp
  then have "join crlf (response_line r # header_lines (response_headers r (length c))) @ crlf @ crlf @ c =
      concat (map (\<lambda>l. l @ crlf) (response_line r # header_lines (response_headers r (length c)))) @ crlf @ c"
    by (metis append.assoc)
  with assms show ?thesis
    by (auto simp: get_response_in_string_def custom_header_text_def response_line_def cors_text_def
        content_type_text_def response_headers_def header_lines_def split: response_file_type.splits)
qed


lemma nat_chars_plain: "c \<in> set (nat_to_chars n) \<Longrightarrow> c \<notin> {CHR 0x0D, CHR 0x0A, CHR '':'', CHR '' ''}"
proof -
  have "char_digit x = None" if "x \<in> {CHR 0x0D, CHR 0x0A, CHR '':'', CHR '' ''}" for x
    using that by (auto simp: char_digit_def digit_char_def upt_rec)
  moreover assume "c \<in> set (nat_to_chars n)"
  ultimately show ?thesis using nat_chars_digits [of n] by blast
qed

definition clean_name :: "string \<Rightarrow> bool" where
  "clean_name s \<longleftrightarrow> no_break s \<and> CHR '':'' \<notin> set s"

lemma clean_headerI: "clean_name k \<Longrightarrow> clean_name v \<Longrightarrow> clean_header (k, v)"
  using find_absent [of "CHR '':''" "'': ''"] by (simp add: clean_header_def clean_name_def)

lemma response_headers_clean:
  assumes "clean_name (file_name (m_file_info r))"
  shows "\<forall>h \<in> set (response_headers r n). clean_header h" "distinct (map fst (response_headers r n))"
proof -
  have n: "clean_name (nat_to_chars n)" using nat_chars_plain by (auto simp: clean_name_def no_break_def)
  show "\<forall>h \<in> set (response_headers r n). clean_header h"
    using assms n unfolding response_headers_def
    by (auto simp: clean_name_def no_break_def intro!: clean_headerI split: response_file_type.splits)
  show "distinct (map fst (response_headers r n))"
    by (auto simp: response_headers_def split: response_file_type.splits)
qed

lemma response_line_plain: "no_break (response_line r) \<and> response_line r \<noteq> []"
proof -
  have "no_break (nat_to_chars k)" for k using nat_chars_plain by (auto simp: no_break_def)
  then show ?thesis
    by (cases "m_response_code r") (auto simp: response_line_def response_status_code_map_def no_break_def)
qed

lemma nat_chars_len: "length (nat_to_chars n) \<le> Suc n"
proof (induction n rule: nat_to_chars.induct)
  case (1 n)
  show ?case
  proof (cases "n < 10")
    case False
    with 1 have "length (nat_to_chars n) \<le> Suc (Suc (n div 10))" by (subst nat_to_chars.simps) simp
    also have "\<dots> \<le> Suc n" using False by linarith
    finally show ?thesis .
  qed (subst nat_to_chars.simps, simp)
qed

lemma join_crlf_length: "length (join crlf ls) \<le> (\<Sum>l\<leftarrow>ls. length l + 2)"
proof (induction ls)
  case (Cons l ls)
  then show ?case by (cases "ls = []") (simp_all add: join_Cons)
qed simp

lemma response_head_length:
  assumes "n < 2 ^ 31" "length (file_name (m_file_info r)) < 2 ^ 31"
  shows "length (join crlf (response_line r # header_lines (response_headers r n))) < 2 ^ 62"
proof -
  have l: "length (response_line r) \<le> 1000"
    using nat_chars_len [of "status_number (m_response_code r)"]
    by (cases "m_response_code r") (simp_all add: response_line_def response_status_code_map_def)
  have "(\<Sum>h\<leftarrow>response_headers r n. length (fst h) + length (snd h) + 4) \<le> 2000 + length (file_name (m_file_info r)) + n"
    using nat_chars_len [of n] by (auto simp: response_headers_def split: response_file_type.splits)
  moreover have "(\<Sum>l\<leftarrow>header_lines hs. length l + 2) = (\<Sum>h\<leftarrow>hs. length (fst h) + length (snd h) + 4)" for hs
    by (induction hs) (auto simp: header_lines_def)
  ultimately show ?thesis
    using l assms join_crlf_length [of "response_line r # header_lines (response_headers r n)"] by simp
qed

text \<open>
  C22: a response without custom headers, with a clean file name and less than \<open>2 ^ 31\<close> bytes of content, reads back: its text begins with the status line, its
  headers announce the length of the content, and the content is all that follows the first
  blank line. The internal status 410 has no entry in the table of the phrases, so a response
  with it goes through the end iterator of the table.
\<close>

theorem response_reads_back:
  assumes "is_null (m_custom_header r)" "m_content r = Some c" "clean_name (file_name (m_file_info r))"
    and "length c < 2 ^ 31" "length (file_name (m_file_info r)) < 2 ^ 31"
  shows "if m_response_code r = RISK_ERROR_410 then get_response_in_string pf r = Inl (UB Dangling_Iterator)
    else \<exists>t p hs. get_response_in_string pf r = Inr t \<and> take (length (response_line r)) t = response_line r \<and>
      std_find t 0 (crlf @ crlf) = Some p \<and> drop (p + 4) t = c \<and>
      deserialize_header_params t = Some (Inr hs) \<and> map_of hs ''Content-Length'' = Some (nat_to_chars (length c))"
proof (cases "m_response_code r = RISK_ERROR_410")
  case True
  then show ?thesis by (simp add: get_response_in_string_def response_status_code_map_def)
next
  case False
  let ?l = "response_line r" and ?hs = "response_headers r (length c)"
  let ?h = "join crlf (?l # header_lines ?hs)"
  have code: "map_of response_status_code_map (m_response_code r) \<noteq> None"
    using False by (cases "m_response_code r") (simp_all add: response_status_code_map_def)
  note shown = response_text [OF code assms(1,2), of pf]
  have line: "no_break ?l" "?l \<noteq> []"
    using response_line_plain [of r] by simp_all
  have hs: "?hs \<noteq> []" "map_of ?hs ''Content-Length'' = Some (nat_to_chars (length c))"
    by (auto simp: response_headers_def split: response_file_type.splits)
  have "\<forall>l \<in> set (?l # header_lines ?hs). l \<noteq> [] \<and> CHR 0x0D \<notin> set l"
    using line clean_lines(1,2) [OF response_headers_clean(1) [OF assms(3)]] by (auto simp: no_break_def)
  then have f: "std_find (?h @ crlf @ crlf @ c) 0 (crlf @ crlf) = Some (length ?h)"
    by (intro find_header_end) simp
  have "length ?h < 2 ^ 63" using response_head_length [OF assms(4,5)] by simp
  then have d: "deserialize_header_params (?h @ crlf @ crlf @ c) = Some (Inr ?hs)"
    by (intro headers_read line hs(1) response_headers_clean assms(3))
  have "take (length ?l) (?h @ crlf @ crlf @ c) = ?l" "drop (length ?h + 4) (?h @ crlf @ crlf @ c) = c"
    using hs(1) by (simp_all add: join_Cons header_lines_def)
  with shown f d hs(2) False show ?thesis by auto
qed


definition page :: "int http_response" where
  "page = text_response OK_200 ''hi'' \<lparr>file_type = JS, file_name = ''a.js''\<rparr>"

theorem response_reads_back_witness:
  "\<exists>t p hs. get_response_in_string demo_platform page = Inr t \<and> take (length (response_line page)) t = response_line page \<and>
      std_find t 0 (crlf @ crlf) = Some p \<and> drop (p + 4) t = ''hi'' \<and>
      deserialize_header_params t = Some (Inr hs) \<and> map_of hs ''Content-Length'' = Some (nat_to_chars (length ''hi''))"
  using response_reads_back [of page "''hi''" demo_platform]
  by (simp add: page_def text_response_def empty_response_def is_null_def clean_name_def no_break_def)

end
