(* ===== verification/Http_Routes.thy ===== *)
theory Http_Routes
  imports Http_Response
begin

section \<open>Routes (src/core/network/https_server/route)\<close>

text \<open>
  \<open>RouteController\<close>: two tables from paths to tables from methods to handlers. A handler is a
  coroutine that may change the state of the server; here it is a function from the request and
  the state to the new state and its response or exception. The lookups and the dispatch are
  those of \<open>handle_request_base_on_route\<close>, with its two \<open>catch\<close> clauses. The order in which the
  group table is walked is the platform's.

  The lookups are coroutines as well, and \<open>unhandled_exception\<close> of every coroutine calls
  \<open>std::terminate\<close>: what leaves a coroutine that is awaited is no exception (\<open>awaited\<close>).
\<close>

type_synonym ('d, 's) handler = "'d http_request \<Rightarrow> 's \<Rightarrow> 's \<times> 'd http_response result"

type_synonym ('d, 's) route_table = "(string \<times> (request_method \<times> ('d, 's) handler) list) list"

record ('d, 's) route_controller =
  route_group_map :: "('d, 's) route_table"
  route_map :: "('d, 's) route_table"
  m_dashboard_folder :: string
  bad_request_getter :: "('d http_request \<Rightarrow> 'd http_response) option"

definition set_route :: "request_method \<Rightarrow> string \<Rightarrow> ('d, 's) handler \<Rightarrow> ('d, 's) route_table \<Rightarrow> ('d, 's) route_table" where
  "set_route meth path h table =
     AList.update path (AList.update meth h (case map_of table path of Some rs \<Rightarrow> rs | None \<Rightarrow> [])) table"

definition add_route_group :: "request_method \<Rightarrow> string \<Rightarrow> ('d, 's) handler \<Rightarrow> ('d, 's) route_controller \<Rightarrow> ('d, 's) route_controller" where
  "add_route_group meth path h rc = rc\<lparr>route_group_map := set_route meth path h (route_group_map rc)\<rparr>"

definition add_route :: "request_method \<Rightarrow> string \<Rightarrow> ('d, 's) handler \<Rightarrow> ('d, 's) route_controller \<Rightarrow> ('d, 's) route_controller" where
  "add_route meth path h rc = rc\<lparr>route_map := set_route meth path h (route_map rc)\<rparr>"

definition add_dashboard_folder :: "string \<Rightarrow> ('d, 's) route_controller \<Rightarrow> ('d, 's) route_controller" where
  "add_dashboard_folder folder rc = rc\<lparr>m_dashboard_folder := folder\<rparr>"

definition add_custom_bad_request_getter :: "('d http_request \<Rightarrow> 'd http_response) \<Rightarrow> ('d, 's) route_controller \<Rightarrow> ('d, 's) route_controller" where
  "add_custom_bad_request_getter f rc = rc\<lparr>bad_request_getter := Some f\<rparr>"

text \<open>\<open>response_not_found_404\<close> guards against a null \<open>this\<close> (\<open>None\<close>).\<close>

definition response_not_found_404 :: "('d, 's) route_controller \<Rightarrow> 'd http_request option \<Rightarrow> 'd http_response" where
  "response_not_found_404 rc rq = (case (rq, bad_request_getter rc) of
     (Some r, Some f) \<Rightarrow> f r | _ \<Rightarrow> bad_request_default)"

subsection \<open>Dispatch\<close>

text \<open>An exception in an awaited coroutine ends the program.\<close>

definition awaited :: "'a result \<Rightarrow> 'a result" where
  "awaited r = (case r of Inl (Throw e) \<Rightarrow> Inl (Terminate e) | _ \<Rightarrow> r)"

text \<open>Run a handler and turn its response into text.\<close>

definition run_handler :: "'d platform \<Rightarrow> ('d, 's) handler \<Rightarrow> 'd http_request \<Rightarrow> 's \<Rightarrow> 's \<times> string result" where
  "run_handler pf h rq s = (case h rq s of (s', r) \<Rightarrow> (s', bindE r (get_response_in_string pf)))"

fun walk_groups :: "'d platform \<Rightarrow> ('d, 's) route_table \<Rightarrow> 'd http_request \<Rightarrow> 's \<Rightarrow> 's \<times> string result" where
  "walk_groups pf [] rq s = (s, Inr [])"
| "walk_groups pf ((path, rs) # groups) rq s =
     (if std_find (m_url rq) 0 path \<noteq> None then
        case map_of rs (get_request_method rq) of
          Some h \<Rightarrow> run_handler pf h rq s
        | None \<Rightarrow> walk_groups pf groups rq s
      else walk_groups pf groups rq s)"

definition check_handle_by_route_group :: "'d platform \<Rightarrow> ('d, 's) route_controller \<Rightarrow> 'd http_request \<Rightarrow> 's \<Rightarrow> 's \<times> string result" where
  "check_handle_by_route_group pf rc = walk_groups pf (reorder pf (route_group_map rc))"

definition check_handle_by_route :: "'d platform \<Rightarrow> ('d, 's) route_controller \<Rightarrow> 'd http_request \<Rightarrow> 's \<Rightarrow> 's \<times> string result" where
  "check_handle_by_route pf rc rq s =
     (case map_of (route_map rc) (m_url rq) of
        Some rs \<Rightarrow> (case map_of rs (get_request_method rq) of
            Some h \<Rightarrow> run_handler pf h rq s
          | None \<Rightarrow> (s, Inr []))
      | None \<Rightarrow> (s, Inr []))"

definition check_send_file_from_dashboard_folder :: "'d platform \<Rightarrow> file_system \<Rightarrow> ('d, 's) route_controller \<Rightarrow> 'd http_request \<Rightarrow> string result" where
  "check_send_file_from_dashboard_folder pf fs rc rq =
     (if m_dashboard_folder rc \<noteq> [] then
        let file_path = m_dashboard_folder rc @ m_url rq
        in if check_is_file_path_exist fs rq file_path
           then get_response_in_string pf (send_file_from_directory fs rq file_path [])
           else Inr []
      else Inr [])"

definition handle_request_base_on_route ::
    "'d platform \<Rightarrow> file_system \<Rightarrow> ('d, 's) route_controller \<Rightarrow> 'd http_request \<Rightarrow> 's \<Rightarrow> 's \<times> string result" where
  "handle_request_base_on_route pf fs rc rq s =
     (case (case map_prod id awaited (check_handle_by_route_group pf rc rq s) of
              (s1, Inr response) \<Rightarrow>
                if response = [] then map_prod id awaited (check_handle_by_route pf rc rq s1) else (s1, Inr response)
            | (s1, Inl e) \<Rightarrow> (s1, Inl e)) of
        (s2, Inl (Throw (Api_Exception msg))) \<Rightarrow> (s2, bindE (response_bad_request_400 pf msg) (get_response_in_string pf))
      | (s2, Inl (Throw _)) \<Rightarrow> (s2, bindE (response_internal_error_500 pf) (get_response_in_string pf))
      | (s2, Inl e) \<Rightarrow> (s2, Inl e)
      | (s2, Inr response) \<Rightarrow>
          (s2, bindE (if response = [] then check_send_file_from_dashboard_folder pf fs rc rq else Inr response) (\<lambda>response.
               if response = [] then get_response_in_string pf (response_not_found_404 rc (Some rq)) else Inr response)))"

subsection \<open>Lookups\<close>

definition route_for :: "('d, 's) route_table \<Rightarrow> string \<Rightarrow> request_method \<Rightarrow> ('d, 's) handler option" where
  "route_for table path meth = Option.bind (map_of table path) (\<lambda>rs. map_of rs meth)"

lemma route_for_set:
  "route_for (set_route meth path h table) p m =
    (if p = path \<and> m = meth then Some h else route_for table p m)"
  by (auto simp: route_for_def set_route_def update_conv' split: option.splits)

lemma response_nonempty: "get_response_in_string pf r = Inr t \<Longrightarrow> t \<noteq> []"
  by (auto simp: get_response_in_string_def bindE_eq_Inr split: option.splits)

lemma walk_groups_cases:
  "walk_groups pf groups rq s = (s, Inr []) \<or>
   (\<exists>path rs h. (path, rs) \<in> set groups \<and> std_find (m_url rq) 0 path \<noteq> None \<and>
      map_of rs (get_request_method rq) = Some h \<and> walk_groups pf groups rq s = run_handler pf h rq s)"
proof (induction groups)
  case (Cons g groups)
  obtain p rs where g: "g = (p, rs)" by (cases g)
  show ?case
  proof (cases "std_find (m_url rq) 0 p \<noteq> None \<and> map_of rs (get_request_method rq) \<noteq> None")
    case True
    then obtain h where "map_of rs (get_request_method rq) = Some h" by auto
    moreover from this True have "walk_groups pf (g # groups) rq s = run_handler pf h rq s" by (simp add: g)
    ultimately show ?thesis using True g list.set_intros(1) by metis
  next
    case False
    then have "walk_groups pf (g # groups) rq s = walk_groups pf groups rq s" by (auto simp: g)
    with Cons show ?thesis using list.set_intros(2) by metis
  qed
qed simp

lemma check_route_eq:
  "check_handle_by_route pf rc rq s = (case route_for (route_map rc) (m_url rq) (get_request_method rq) of
     Some h \<Rightarrow> run_handler pf h rq s | None \<Rightarrow> (s, Inr []))"
  by (auto simp: check_handle_by_route_def route_for_def split: option.splits)


definition fallback :: "'d platform \<Rightarrow> file_system \<Rightarrow> ('d, 's) route_controller \<Rightarrow> 'd http_request \<Rightarrow> string result" where
  "fallback pf fs rc rq = bindE (check_send_file_from_dashboard_folder pf fs rc rq) (\<lambda>response.
     if response = [] then get_response_in_string pf (response_not_found_404 rc (Some rq)) else Inr response)"

lemma run_handler_nonempty: "snd (run_handler pf h rq s) = Inr t \<Longrightarrow> t \<noteq> []"
  using response_nonempty by (auto simp: run_handler_def bindE_eq_Inr split: prod.splits)

lemma handle_ran:
  assumes "check_handle_by_route_group pf rc rq s = run_handler pf h rq s \<or>
    check_handle_by_route_group pf rc rq s = (s, Inr []) \<and> check_handle_by_route pf rc rq s = run_handler pf h rq s"
  shows "handle_request_base_on_route pf fs rc rq s =
    (fst (run_handler pf h rq s), awaited (snd (run_handler pf h rq s)))"
proof -
  obtain s2 r where r: "run_handler pf h rq s = (s2, r)" by (cases "run_handler pf h rq s")
  have "r = Inr t \<Longrightarrow> t \<noteq> []" for t using run_handler_nonempty [of pf h rq s t] r by simp
  then show ?thesis
    using assms unfolding handle_request_base_on_route_def r
    by (cases r) (auto simp: awaited_def split: error.splits exn.splits)
qed

lemma handle_fallback:
  assumes "check_handle_by_route_group pf rc rq s = (s, Inr [])" "check_handle_by_route pf rc rq s = (s, Inr [])"
  shows "handle_request_base_on_route pf fs rc rq s = (s, fallback pf fs rc rq)"
  by (simp add: handle_request_base_on_route_def assms fallback_def awaited_def)

text \<open>Whatever is registered: either one matching handler runs, once, or none does.\<close>

lemma handle_cases:
  "(\<exists>h. ((\<exists>path. route_for (route_map rc) path (get_request_method rq) = Some h) \<or>
        (\<exists>path rs. (path, rs) \<in> set (reorder pf (route_group_map rc)) \<and> map_of rs (get_request_method rq) = Some h)) \<and>
      handle_request_base_on_route pf fs rc rq s = (fst (run_handler pf h rq s), awaited (snd (run_handler pf h rq s)))) \<or>
   handle_request_base_on_route pf fs rc rq s = (s, fallback pf fs rc rq)"
proof -
  have g: "check_handle_by_route_group pf rc rq s = walk_groups pf (reorder pf (route_group_map rc)) rq s"
    by (simp add: check_handle_by_route_group_def)
  consider (none) "check_handle_by_route_group pf rc rq s = (s, Inr [])"
    | (group) path rs h where "(path, rs) \<in> set (reorder pf (route_group_map rc))"
      "map_of rs (get_request_method rq) = Some h" "check_handle_by_route_group pf rc rq s = run_handler pf h rq s"
    unfolding g using walk_groups_cases [of pf "reorder pf (route_group_map rc)" rq s] by blast
  then show ?thesis
  proof cases
    case none
    then show ?thesis
    proof (cases "route_for (route_map rc) (m_url rq) (get_request_method rq)")
      case None
      then have "check_handle_by_route pf rc rq s = (s, Inr [])" by (simp add: check_route_eq)
      from handle_fallback [OF none this] show ?thesis by blast
    next
      case (Some h)
      with none handle_ran [of pf rc rq s h fs] show ?thesis by (auto simp: check_route_eq)
    qed
  next
    case group
    from handle_ran [of pf rc rq s h fs] group show ?thesis by blast
  qed
qed

text \<open>
  C23: a route that has been added is found by the requests for its path and method that no
  group path occurs in: its handler runs once, and the client gets its response. An exception
  in the handler ends the program: the two \<open>catch\<close> clauses, which would answer 400 and 500, are
  never reached.
\<close>

theorem added_route_runs:
  assumes "m_url rq = path" "get_request_method rq = meth"
    and "\<forall>(p, rs) \<in> set (reorder pf (route_group_map rc)). std_find path 0 p = None"
  shows "handle_request_base_on_route pf fs (add_route meth path h rc) rq s =
    (fst (run_handler pf h rq s), awaited (snd (run_handler pf h rq s)))"
proof (rule handle_ran)
  have "walk_groups pf (reorder pf (route_group_map rc)) rq s = (s, Inr [])"
    using walk_groups_cases [of pf "reorder pf (route_group_map rc)" rq s] assms(1,3) by fastforce
  then have "check_handle_by_route_group pf (add_route meth path h rc) rq s = (s, Inr [])"
    by (simp add: check_handle_by_route_group_def add_route_def)
  moreover have "check_handle_by_route pf (add_route meth path h rc) rq s = run_handler pf h rq s"
    using assms(1,2) by (simp add: check_route_eq add_route_def route_for_set)
  ultimately show "check_handle_by_route_group pf (add_route meth path h rc) rq s = run_handler pf h rq s \<or>
    check_handle_by_route_group pf (add_route meth path h rc) rq s = (s, Inr []) \<and>
    check_handle_by_route pf (add_route meth path h rc) rq s = run_handler pf h rq s" by simp
qed


definition handlers :: "'d platform \<Rightarrow> ('d, 's) route_controller \<Rightarrow> ('d, 's) handler set" where
  "handlers pf rc = {h. (\<exists>path meth. route_for (route_map rc) path meth = Some h) \<or>
     (\<exists>path rs meth. (path, rs) \<in> set (reorder pf (route_group_map rc)) \<and> map_of rs meth = Some h)}"

definition answerable :: "'d platform \<Rightarrow> ('d, 's) handler \<Rightarrow> bool" where
  "answerable pf h \<longleftrightarrow> (\<forall>rq s. \<exists>t. awaited (snd (run_handler pf h rq s)) = Inr t)"

lemma awaited_nonempty: "awaited (snd (run_handler pf h rq s)) = Inr t \<Longrightarrow> t \<noteq> []"
  using run_handler_nonempty [of pf h rq s t] response_nonempty
  by (cases "snd (run_handler pf h rq s)") (auto simp: awaited_def bindE_eq_Inr split: error.splits exn.splits)


text \<open>
  Requests with the methods OPTIONS, HEAD and PATCH reach no handler, although routes can be
  registered for them: their class reports the method \<open>UNKNOWN\<close>. The state stays as it is and
  the answer is a file or the 404 page, also to the preflight requests the CORS headers announce.
\<close>

theorem options_never_routed:
  assumes "clean_request path ps hs" "meth \<in> {''OPTIONS'', ''HEAD'', ''PATCH''}"
    and "short_request meth path ps hs body"
    and "\<forall>p. route_for (route_map rc) p UNKNOWN = None" "\<forall>(p, rs) \<in> set (reorder pf (route_group_map rc)). map_of rs UNKNOWN = None"
  shows "\<exists>rq. create_new_http_request pf n (request_text meth path ps hs body) dir = Some (Inr (Some rq)) \<and>
    m_url rq = path \<and> (\<forall>s. handle_request_base_on_route pf fs rc rq s = (s, fallback pf fs rc rq))"
proof -
  from request_reads_back [OF assms(1) _ assms(3), of pf n dir] assms(2)
  obtain rq where rq: "create_new_http_request pf n (request_text meth path ps hs body) dir = Some (Inr (Some rq))"
    "get_request_method rq = UNKNOWN" "m_url rq = path" by auto
  have "handle_request_base_on_route pf fs rc rq s = (s, fallback pf fs rc rq)" for s
    using handle_cases [of rc rq pf fs s] assms(4,5) rq(2) by fastforce
  with rq show ?thesis by blast
qed


subsection \<open>An example\<close>

definition empty_controller :: "(int, nat) route_controller" where
  "empty_controller = \<lparr>route_group_map = [], route_map = [], m_dashboard_folder = [], bad_request_getter = None\<rparr>"

definition counting :: "(int, nat) handler" where
  "counting rq s = (s + 1, Inr (text_response OK_200 ''hi'' no_file_info))"

definition one_route :: "(int, nat) route_controller" where
  "one_route = add_route GET ''/hi'' counting empty_controller"

lemma counting_answer: "\<exists>t. run_handler demo_platform counting rq s = (s + 1, Inr t)"
  by (simp add: run_handler_def counting_def get_response_in_string_def text_response_def empty_response_def
      response_status_code_map_def custom_header_text_def is_null_def)

theorem added_route_runs_witness:
  "handle_request_base_on_route demo_platform (\<lambda>_. None) one_route (read_request Http_Request_Get ''/hi'' ''web'' [] []) 4 =
    (5, awaited (snd (run_handler demo_platform counting (read_request Http_Request_Get ''/hi'' ''web'' [] []) 4)))"
proof -
  obtain t where "run_handler demo_platform counting (read_request Http_Request_Get ''/hi'' ''web'' [] []) 4 = (4 + 1, Inr t)"
    using counting_answer by blast
  moreover have "reorder demo_platform (route_group_map empty_controller) = []"
    by (simp add: reorder_def demo_platform_def empty_controller_def)
  ultimately show ?thesis
    unfolding one_route_def
    by (subst added_route_runs) (simp_all add: get_request_method_def)
qed

lemma one_route_tables:
  "route_for (route_map one_route) p m = (if p = ''/hi'' \<and> m = GET then Some counting else None)"
  "reorder demo_platform (route_group_map one_route) = []"
proof -
  have "route_for (route_map empty_controller) p m = None" by (simp add: empty_controller_def route_for_def)
  then show "route_for (route_map one_route) p m = (if p = ''/hi'' \<and> m = GET then Some counting else None)"
    by (simp add: one_route_def add_route_def route_for_set)
  show "reorder demo_platform (route_group_map one_route) = []"
    by (simp add: one_route_def add_route_def empty_controller_def reorder_def demo_platform_def)
qed

lemma not_found_text: "bad_request_getter rc = None \<Longrightarrow> \<exists>t. get_response_in_string pf (response_not_found_404 rc rq) = Inr t"
  by (simp add: response_not_found_404_def bad_request_default_def get_response_in_string_def text_response_def
      empty_response_def response_status_code_map_def custom_header_text_def is_null_def split: option.splits)


theorem options_never_routed_witness:
  "\<exists>rq. create_new_http_request demo_platform 0 (request_text ''OPTIONS'' ''/hi'' [] [(''Host'', ''h'')] []) ''web'' = Some (Inr (Some rq)) \<and>
    m_url rq = ''/hi'' \<and> (\<forall>s. handle_request_base_on_route demo_platform (\<lambda>_. None) one_route rq s =
      (s, fallback demo_platform (\<lambda>_. None) one_route rq))"
proof (rule options_never_routed)
  show "clean_request ''/hi'' [] [(''Host'', ''h'')]"
    by (simp add: clean_request_def clean_word_def no_break_def clean_header_def find_absent [of "CHR '' ''"])
  show "short_request ''OPTIONS'' ''/hi'' [] [(''Host'', ''h'')] []"
    by (simp add: short_request_def request_text_def header_lines_def target_text_def)
  show "\<forall>p. route_for (route_map one_route) p UNKNOWN = None" by (simp add: one_route_tables)
  show "\<forall>(p, rs) \<in> set (reorder demo_platform (route_group_map one_route)). map_of rs UNKNOWN = None"
    by (simp add: one_route_tables)
qed simp

end
