(* ===== verification/Http_Socket.thy ===== *)
theory Http_Socket
  imports Http_Routes
begin

section \<open>Client sockets (src/core/system_io/https_server_io)\<close>

text \<open>
  \<open>HttpClientSocket\<close>. The operating system is the environment: each call of
  \<open>read_buffer\<close> yields \<open>None\<close> (the result -1), \<open>Some []\<close> (0) or the bytes read, at most
  2048 of them; an exhausted list of results stands for -1. A coroutine that is started on the
  event base stands in \<open>tasks\<close> and runs later, in whatever order (\<open>run_client_task\<close> in \<open>Server_Sockets\<close>).
  \<open>Write_Response r\<close> is an \<open>execute_request\<close> whose \<open>co_await\<close> has
  delivered \<open>r\<close>.
\<close>

datatype 'd socket_task = Send_404_Response | Execute_Request "'d http_request" | Write_Response string

record 'd client_socket =
  sock_fd :: int
  server_fd :: int
  save_buffer :: string
  tasks :: "'d socket_task list"

definition set_server_fd :: "int \<Rightarrow> 'd client_socket \<Rightarrow> 'd client_socket" where
  "set_server_fd fd_value sock = sock\<lparr>server_fd := fd_value\<rparr>"

definition clear_socket :: "'d client_socket \<Rightarrow> 'd client_socket" where
  "clear_socket sock = sock\<lparr>server_fd := -1, save_buffer := []\<rparr>"

definition buffer_size :: nat where
  "buffer_size = 2048"

subsection \<open>Reading\<close>

text \<open>The loop that appends to the local buffer while reads return bytes.\<close>

fun read_loop :: "string option list \<Rightarrow> string \<Rightarrow> string result" where
  "read_loop (Some bytes # reads) buf =
     (if bytes = [] then Inr buf
      else if buffer_size < length buf + length bytes then Inl (UB Buffer_Overflow)
      else read_loop reads (buf @ bytes))"
| "read_loop _ buf = Inr buf"

text \<open>The first read and the terminating NUL. \<open>None\<close>: the connection is lost.\<close>

definition read_message :: "string option list \<Rightarrow> string option result" where
  "read_message reads = (case reads of
     Some bytes # rest \<Rightarrow>
       if buffer_size < length bytes then Inl (UB Buffer_Overflow)
       else bindE (read_loop rest bytes) (\<lambda>buf.
         if buffer_size \<le> length buf then Inl (UB Buffer_Overflow) else Inr (Some (c_str buf)))
   | _ \<Rightarrow> Inr None)"

definition handle_read ::
    "'d platform \<Rightarrow> nat \<Rightarrow> string option list \<Rightarrow> 'd client_socket \<Rightarrow> (int \<times> 'd client_socket) result option" where
  "handle_read pf n reads sock = bindP (Some (read_message reads)) (\<lambda>buf. case buf of
     None \<Rightarrow> Some (Inr (-1, sock\<lparr>save_buffer := []\<rparr>))
   | Some buffer \<Rightarrow>
       bindP (create_new_http_request pf n (save_buffer sock @ buffer) ''web_data'') (\<lambda>request. case request of
         None \<Rightarrow> Some (Inr (0, sock\<lparr>tasks := tasks sock @ [Send_404_Response]\<rparr>))
       | Some rq \<Rightarrow> bindP (Some (is_valid_format rq)) (\<lambda>valid.
           if \<not> valid then Some (Inr (0, sock\<lparr>save_buffer := save_buffer sock @ buffer\<rparr>))
           else Some (Inr (0, sock\<lparr>save_buffer := [], tasks := tasks sock @ [Execute_Request rq]\<rparr>)))))"

subsection \<open>The buffer\<close>

lemma read_loop_chunks:
  assumes "\<forall>c \<in> set chunks. c \<noteq> []"
  shows "read_loop (map Some chunks @ [None]) buf =
    (if length (buf @ concat chunks) \<le> buffer_size \<or> chunks = [] then Inr (buf @ concat chunks) else Inl (UB Buffer_Overflow))"
  using assms by (induction chunks arbitrary: buf) auto

text \<open>
  C25: one readable event can deliver at most 2047 bytes: with more, however they are cut into
  reads, \<open>handle_read\<close> writes past its stack buffer, before it looks at the request.
\<close>

theorem client_buffer_exact:
  assumes "\<forall>c \<in> set chunks. c \<noteq> []" "chunks \<noteq> []"
  shows "read_message (map Some chunks @ [None]) =
    (if length (concat chunks) < 2048 then Inr (Some (c_str (concat chunks))) else Inl (UB Buffer_Overflow))"
proof -
  obtain c cs where c: "chunks = c # cs" using assms(2) by (cases chunks) auto
  with assms(1) show ?thesis
    by (auto simp: read_message_def read_loop_chunks buffer_size_def)
qed

theorem client_buffer_exact_witness:
  "read_message (map Some [''GET'', replicate 2045 (CHR ''x'')] @ [None]) = Inl (UB Buffer_Overflow)"
  using client_buffer_exact [of "[''GET'', replicate 2045 (CHR ''x'')]"] by simp


subsection \<open>Requests in pieces\<close>

lemma form_data_fields: "deserialize_body_form_data rq = Some (Inr rq') \<Longrightarrow> \<exists>j. rq' = rq\<lparr>m_body_json := j\<rparr>"
  by (auto simp: deserialize_body_form_data_def bindP_def Let_def split: option.splits sum.splits if_splits
      intro: exI [of _ "m_body_json rq"])

lemma raw_data_fields: "deserialize_body_raw_data rq = Some (Inr rq') \<Longrightarrow> \<exists>j. rq' = rq\<lparr>m_body_json := j\<rparr>"
  by (auto simp: deserialize_body_raw_data_def split: option.splits if_splits bind_splits
      intro: exI [of _ "m_body_json rq"])

lemma bindP_eq_Some_Inr: "bindP r f = Some (Inr y) \<longleftrightarrow> (\<exists>x. r = Some (Inr x) \<and> f x = Some (Inr y))"
  by (auto simp: bindP_def split: option.splits sum.splits)

lemma created_post:
  assumes "clean_request path ps hs" "(meth, m) \<in> {(''POST'', POST), (''PUT'', PUT), (''DELETE'', DELETE)}"
    and "short_request meth path ps hs body"
    and c: "create_new_http_request pf n (request_text meth path ps hs body) dir = Some (Inr (Some rq))"
  shows "has_body rq" "m_header_params rq = hs" "m_body rq = body"
proof -
  let ?c = "request_text meth path ps hs body"
  have w: "clean_word meth" "meth \<noteq> []" using assms(2) by (auto simp: clean_word_def no_break_def)
  obtain cls where cls: "map_of request_method_map meth = Some m"
    "request_generator_by_method pf n m = new_http_request_post pf n cls"
    "cls \<in> {Http_Request_Post, Http_Request_Put, Http_Request_Delete}"
    using assms(2) by (auto simp: request_method_map_def request_generator_by_method_def)
  have new: "new_http_request cls ?c dir = Some (Inr (read_request cls path dir ps hs :: 'a http_request))"
    by (rule new_request_read [OF assms(1) w(1) assms(3)])
  have "bindP (new_http_request_post pf n cls ?c dir) (\<lambda>rq. Some (Inr (Some rq))) = Some (Inr (Some rq))"
    using create_dispatch [OF assms(1) cls(1), of pf n body dir] c cls(2) by simp
  then have "new_http_request_post pf n cls ?c dir = Some (Inr rq)" by (simp add: bindP_eq_Some_Inr)
  then obtain r1 r2 where r: "deserialize_body pf n ?c (read_request cls path dir ps hs) = Some (Inr r1)"
    "deserialize_body_form_data r1 = Some (Inr r2)" "deserialize_body_raw_data r2 = Some (Inr rq)"
    by (auto simp: new_http_request_post_def new bindP_eq_Some_Inr)
  from r(1) obtain j where j: "r1 = (read_request cls path dir ps hs)\<lparr>m_body := body, m_body_json := j\<rparr>"
    unfolding deserialize_body_def body_read [OF assms(1) w assms(3)] bindP_simps by (auto simp: bindP_eq_Some_Inr)
  from form_data_fields [OF r(2)] raw_data_fields [OF r(3)] j cls(3)
  show "has_body rq" "m_header_params rq = hs" "m_body rq = body"
    by (auto simp: has_body_def)
qed

lemma request_text_body: "request_text meth path ps hs body = request_text meth path ps hs [] @ body"
  by (simp add: request_text_def)

lemma read_fragment:
  assumes "f \<noteq> []" "length f < buffer_size" "CHR 0x00 \<notin> set f"
  shows "read_message [Some f, None] = Inr (Some f)"
proof -
  have "c_str f = f" using assms(3) by (auto simp: c_str_def takeWhile_eq_all_conv)
  with assms show ?thesis by (simp add: read_message_def)
qed

lemma longer_prefix:
  assumes "0 < length z" "x @ z = h @ b" "length h \<le> length x"
  shows "\<exists>b'. x = h @ b' \<and> length b' < length b"
proof -
  from arg_cong [OF assms(2), of "take (length h)"] assms(3) have "take (length h) x = h" by simp
  then have x: "x = h @ drop (length h) x" by (metis append_take_drop_id)
  from assms(2) have "length x + length z = length h + length b" by (metis length_append)
  with assms(1,3) have "length (drop (length h) x) < length b" unfolding length_drop by linarith
  with x show ?thesis by blast
qed

primrec deliver :: "'d platform \<Rightarrow> nat \<Rightarrow> string list \<Rightarrow> 'd client_socket \<Rightarrow> (int \<times> 'd client_socket) result option" where
  "deliver pf n [] sock = Some (Inr (0, sock))"
| "deliver pf n (f # fs) sock = bindP (handle_read pf n [Some f, None] sock) (\<lambda>(r, sock').
     if r = -1 then Some (Inr (r, sock')) else deliver pf n fs sock')"

lemma deliver_fragments:
  assumes req: "clean_request path ps hs" "(meth, m) \<in> {(''POST'', POST), (''PUT'', PUT), (''DELETE'', DELETE)}"
      "short_request meth path ps hs body"
    and len: "map_of hs ''Content-Length'' = Some (nat_to_chars (length body))" "body \<noteq> []"
    and full: "create_new_http_request pf n (request_text meth path ps hs body) ''web_data'' = Some (Inr (Some rq))"
  shows "frags \<noteq> [] \<Longrightarrow> \<forall>f \<in> set frags. f \<noteq> [] \<and> length f < buffer_size \<and> CHR 0x00 \<notin> set f \<Longrightarrow>
    save_buffer sock @ concat frags = request_text meth path ps hs body \<Longrightarrow>
    length (request_text meth path ps hs []) \<le> length (save_buffer sock @ hd frags) \<Longrightarrow>
    \<forall>k. 0 < k \<and> k < length frags \<longrightarrow>
      (\<exists>r. create_new_http_request pf n (save_buffer sock @ concat (take k frags)) ''web_data'' = Some (Inr (Some r))) \<Longrightarrow>
    deliver pf n frags sock =
      Some (Inr (0, sock\<lparr>save_buffer := [], tasks := tasks sock @ [Execute_Request rq]\<rparr>))"
proof (induction frags arbitrary: sock)
  case (Cons f fs)
  let ?h = "request_text meth path ps hs []"
  have f: "read_message [Some f, None] = Inr (Some f)" using Cons.prems(2) by (intro read_fragment) auto
  have lb: "length body < 2 ^ 31"
    using req(3) by (simp add: short_request_def request_text_body [of _ _ _ _ body])
  show ?case
  proof (cases "fs = []")
    case True
    with Cons.prems(3) have t: "save_buffer sock @ f = request_text meth path ps hs body" by simp
    note p = created_post [OF req full]
    from announced_length [OF p(1), of "length body"] len p(2,3) lb have "is_valid_format rq = Inr True" by simp
    with True f t full show ?thesis by (simp add: handle_read_def)
  next
    case False
    have ne: "0 < length (concat fs)" using False Cons.prems(2) by (cases fs) auto
    have e: "(save_buffer sock @ f) @ concat fs = ?h @ body"
      using Cons.prems(3) request_text_body [of meth path ps hs body] by simp
    have "length ?h \<le> length (save_buffer sock @ f)" using Cons.prems(4) by simp
    from longer_prefix [OF ne e this] obtain b' where b: "save_buffer sock @ f = ?h @ b'" "length b' < length body"
      by blast
    from Cons.prems(5) False obtain r where "create_new_http_request pf n (save_buffer sock @ f) ''web_data'' = Some (Inr (Some r))"
      by (auto dest!: spec [of _ 1])
    with b(1) have r: "create_new_http_request pf n (request_text meth path ps hs b') ''web_data'' = Some (Inr (Some r))"
      by (simp add: request_text_body [of _ _ _ _ b'])
    have s: "short_request meth path ps hs b'"
      using req(3) b(2) by (simp add: short_request_def request_text_body [of _ _ _ _ b'] request_text_body [of _ _ _ _ body])
    note p = created_post [OF req(1,2) s r]
    from announced_length [OF p(1), of "length body"] len p(2,3) lb b(2) have "is_valid_format r = Inr False" by simp
    then have h: "handle_read pf n [Some f, None] sock = Some (Inr (0, sock\<lparr>save_buffer := save_buffer sock @ f\<rparr>))"
      using f r b(1) by (simp add: handle_read_def request_text_body [of _ _ _ _ b'])
    have "deliver pf n fs (sock\<lparr>save_buffer := save_buffer sock @ f\<rparr>) =
        Some (Inr (0, sock\<lparr>save_buffer := [], tasks := tasks sock @ [Execute_Request rq]\<rparr>))"
    proof (subst Cons.IH [OF False])
      show "length ?h \<le> length (save_buffer (sock\<lparr>save_buffer := save_buffer sock @ f\<rparr>) @ hd fs)"
        using Cons.prems(4) by simp
      show "\<forall>k. 0 < k \<and> k < length fs \<longrightarrow> (\<exists>r. create_new_http_request pf n
          (save_buffer (sock\<lparr>save_buffer := save_buffer sock @ f\<rparr>) @ concat (take k fs)) ''web_data'' = Some (Inr (Some r)))"
      proof (intro allI impI)
        fix k assume "0 < k \<and> k < length fs"
        with Cons.prems(5) [rule_format, of "Suc k"] show "\<exists>r. create_new_http_request pf n
          (save_buffer (sock\<lparr>save_buffer := save_buffer sock @ f\<rparr>) @ concat (take k fs)) ''web_data'' = Some (Inr (Some r))"
          by simp
      qed
    qed (use Cons.prems(2,3) in simp_all)
    with h show ?thesis by simp
  qed
qed simp


text \<open>
  C26: a POST, PUT or DELETE request that arrives in any number of pieces is executed exactly
  once, when its last byte is there, with its whole body, and leaves nothing in the saved text.
  This holds when the headers come with the first piece, every piece fits the local buffer, and
  the constructor accepts every part that has arrived so far.
\<close>

theorem split_request_reassembled:
  assumes "clean_request path ps hs" "(meth, m) \<in> {(''POST'', POST), (''PUT'', PUT), (''DELETE'', DELETE)}"
      "short_request meth path ps hs body"
    and "map_of hs ''Content-Length'' = Some (nat_to_chars (length body))" "body \<noteq> []"
    and "create_new_http_request pf n (request_text meth path ps hs body) ''web_data'' = Some (Inr (Some rq))"
    and "save_buffer sock = []" "concat frags = request_text meth path ps hs body"
    and "\<forall>f \<in> set frags. f \<noteq> [] \<and> length f < buffer_size \<and> CHR 0x00 \<notin> set f"
    and "length (request_text meth path ps hs []) \<le> length (hd frags)"
    and "\<forall>k. 0 < k \<and> k < length frags \<longrightarrow>
      (\<exists>r. create_new_http_request pf n (concat (take k frags)) ''web_data'' = Some (Inr (Some r)))"
  shows "deliver pf n frags sock = Some (Inr (0, sock\<lparr>tasks := tasks sock @ [Execute_Request rq]\<rparr>)) \<and>
    m_body rq = body \<and> m_header_params rq = hs"
proof -
  have ne: "frags \<noteq> []" using assms(8) by (auto simp: request_text_def)
  have "deliver pf n frags sock = Some (Inr (0, sock\<lparr>save_buffer := [], tasks := tasks sock @ [Execute_Request rq]\<rparr>))"
    by (rule deliver_fragments [OF assms(1-6) ne assms(9)]) (simp_all add: assms(7,8,10,11))
  moreover have "sock\<lparr>save_buffer := []\<rparr> = sock" using assms(7) by (cases sock) simp
  moreover note created_post [OF assms(1-3,6)]
  ultimately show ?thesis by simp
qed

subsection \<open>An example in two pieces\<close>

definition idle_socket :: "int client_socket" where
  "idle_socket = \<lparr>sock_fd = 7, server_fd = 3, save_buffer = [], tasks = []\<rparr>"

abbreviation "list_text body \<equiv> request_text ''POST'' ''/a'' [] [(''Content-Length'', ''5'')] body"

lemma list_request: "clean_request ''/a'' [] [(''Content-Length'', ''5'')]"
  by (simp add: clean_request_def clean_word_def no_break_def clean_header_def find_absent [of "CHR '' ''"])

lemma list_short: "length body \<le> 5 \<Longrightarrow> short_request ''POST'' ''/a'' [] [(''Content-Length'', ''5'')] body"
  by (simp add: short_request_def request_text_def header_lines_def target_text_def)

lemma list_json: "''[1,2]'' = json_text demo_platform (JObject True [] [JValue (VInt 1) True, JValue (VInt 2) True])"
  by (simp add: value_pieces_def int_to_chars_def nat_to_chars.simps digit_char_def)

lemma list_part: "\<exists>r. create_new_http_request demo_platform 6 (list_text ''[1,2'') ''web_data'' = Some (Inr (Some r))"
proof -
  have w: "clean_word ''POST''" by (simp add: clean_word_def no_break_def)
  have new: "new_http_request Http_Request_Post (list_text ''[1,2'') ''web_data'' =
      Some (Inr (read_request Http_Request_Post ''/a'' ''web_data'' [] [(''Content-Length'', ''5'')] :: int http_request))"
    by (rule new_request_read [OF list_request w list_short]) simp
  have j: "json_parse demo_platform 6 ''[1,2'' = Some (Inr (JValue VNull True))"
    by code_simp
  have f: "int_find ''[1,2'' key_format 0 = -1" by code_simp
  have r: "split_string ''[1,2'' ''&'' = Some [''[1,2'']" "split_string ''[1,2'' ''='' = Some [''[1,2'']"
    using split_string_join [of "[''[1,2'']" "''&''"] split_string_join [of "[''[1,2'']" "''=''"]
    by (simp_all add: find_absent [of "CHR ''&''"] find_absent [of "CHR ''=''"] unbordered_def)
  have b: "substr (list_text ''[1,2'') (sz_add (of_pos (std_find (list_text ''[1,2'') 0 (crlf @ crlf))) 4)
      (length (list_text ''[1,2'') - 1) = Inr ''[1,2''"
    by (rule body_read [OF list_request w _ list_short]) simp_all
  have d: "deserialize_body demo_platform 6 (list_text ''[1,2'') rq =
      Some (Inr (rq\<lparr>m_body := ''[1,2'', m_body_json := JValue VNull True\<rparr>))" for rq :: "int http_request"
    by (simp only: deserialize_body_def b bindP_simps j)
  have "\<exists>r. new_http_request_post demo_platform 6 Http_Request_Post (list_text ''[1,2'') ''web_data'' = Some (Inr r)"
    unfolding new_http_request_post_def new bindP_simps d
    by (simp add: deserialize_body_form_data_def f deserialize_body_raw_data_def is_null_def r)
  with create_dispatch [OF list_request, of "''POST''" POST demo_platform 6 "''[1,2''" "''web_data''"]
  show ?thesis by (auto simp: request_method_map_def request_generator_by_method_def)
qed

theorem split_request_reassembled_witness:
  "\<exists>rq. deliver demo_platform 6 [list_text ''[1,2'', '']''] idle_socket =
      Some (Inr (0, idle_socket\<lparr>tasks := [Execute_Request rq]\<rparr>)) \<and> m_body rq = ''[1,2]''"
proof -
  let ?j = "JObject True [] [JValue (VInt 1) True, JValue (VInt 2) True] :: int json"
  have "std_find ''[1,2]'' 0 key_format = None"
    by (rule find_absent [of "CHR ''C''"]) (simp_all add: key_format_def)
  then obtain rq where rq: "create_new_http_request demo_platform 6 (list_text ''[1,2]'') ''web_data'' = Some (Inr (Some rq))"
    using json_body_reads_back [OF list_request, of "''POST''" POST demo_platform True "[]"
        "[JValue (VInt 1) True, JValue (VInt 2) True]" 6 "''web_data''", folded list_json] list_short [of "''[1,2]''"]
    by (auto simp: plain_value_def in_int64_def)
  have c: "concat [list_text ''[1,2'', '']''] = list_text ''[1,2]''" by (simp add: request_text_def)
  have l: "map_of [(''Content-Length'', ''5'')] ''Content-Length'' = Some (nat_to_chars (length ''[1,2]''))"
    by (simp add: nat_to_chars.simps digit_char_def)
  have parts: "\<forall>k. 0 < k \<and> k < length [list_text ''[1,2'', '']''] \<longrightarrow>
      (\<exists>r. create_new_http_request demo_platform 6 (concat (take k [list_text ''[1,2'', '']''])) ''web_data'' = Some (Inr (Some r)))"
    using list_part by (auto simp: less_Suc_eq)
  have short: "\<forall>f \<in> set [list_text ''[1,2'', '']'']. f \<noteq> [] \<and> length f < buffer_size \<and> CHR 0x00 \<notin> set f"
    by (simp add: request_text_def header_lines_def target_text_def buffer_size_def)
  have "deliver demo_platform 6 [list_text ''[1,2'', '']''] idle_socket =
      Some (Inr (0, idle_socket\<lparr>tasks := tasks idle_socket @ [Execute_Request rq]\<rparr>)) \<and>
    m_body rq = ''[1,2]'' \<and> m_header_params rq = [(''Content-Length'', ''5'')]"
    by (rule split_request_reassembled [OF list_request _ list_short l _ rq _ c short _ parts, of POST])
      (simp_all add: idle_socket_def request_text_def)
  then show ?thesis by (auto simp: idle_socket_def)
qed

text \<open>
  A readable event without data, such as the end of the connection or a TLS record that is
  not complete yet, counts as a request without a method: an idle socket answers it with a 404.
\<close>

theorem empty_read_answered:
  assumes "save_buffer sock = []"
  shows "handle_read pf n [Some [], None] sock = Some (Inr (0, sock\<lparr>tasks := tasks sock @ [Send_404_Response]\<rparr>))"
proof -
  have "read_message [Some [], None] = Inr (Some [])" by (simp add: read_message_def buffer_size_def c_str_def)
  moreover have "create_new_http_request pf n [] ''web_data'' = Some (Inr None)"
    by (simp add: create_new_http_request_def find_first_of_def)
  ultimately show ?thesis using assms by (simp add: handle_read_def)
qed


theorem empty_read_answered_witness:
  "handle_read demo_platform 0 [Some [], None] idle_socket =
     Some (Inr (0, idle_socket\<lparr>tasks := tasks idle_socket @ [Send_404_Response]\<rparr>))"
  by (rule empty_read_answered) (simp add: idle_socket_def)

end
