(* ===== verification/Tls.thy ===== *)
theory Tls
  imports Prelude
begin

section \<open>TLS contexts and wrappers (src/core/network/tls_wrapper)\<close>

text \<open>
  \<open>tls_context.cpp\<close> and \<open>tls_wrapper.cpp\<close>. OpenSSL is a parameter: \<open>openssl\<close> lists
  the functions of the library that the code calls, over its contexts \<open>'c\<close> and connections
  \<open>'s\<close>. A connection carries what the peer and the network do. \<open>None\<close> is the null pointer.
  The log messages are left out.
\<close>

datatype tls_type = CLIENT | SERVER

record ('c, 's) openssl =
  ssl_ctx_new :: "tls_type \<Rightarrow> 'c option"
  use_certificate_file :: "string \<Rightarrow> 'c \<Rightarrow> int \<times> 'c"
  use_private_key_file :: "string \<Rightarrow> 'c \<Rightarrow> int \<times> 'c"
  check_private_key :: "'c \<Rightarrow> int"
  set_verify_peer :: "bool \<Rightarrow> 'c \<Rightarrow> 'c"
  load_verify_locations :: "string \<Rightarrow> 'c \<Rightarrow> int \<times> 'c"
  set_default_verify_paths :: "'c \<Rightarrow> int \<times> 'c"
  set_min_proto_tls1_2 :: "'c \<Rightarrow> 'c"
  ssl_new :: "'c \<Rightarrow> 's option"
  set_accept_state :: "'s \<Rightarrow> 's"
  set_connect_state :: "'s \<Rightarrow> 's"
  ssl_set_fd :: "int \<Rightarrow> 's \<Rightarrow> 's"
  ssl_do_handshake :: "'s \<Rightarrow> int \<times> 's"
  ssl_get_error :: "int \<Rightarrow> 's \<Rightarrow> int"
  ssl_read :: "nat \<Rightarrow> 's \<Rightarrow> (int \<times> string) \<times> 's"
  ssl_write :: "string \<Rightarrow> 's \<Rightarrow> int \<times> 's"
  ssl_shutdown :: "'s \<Rightarrow> 's"
  ssl_error_want_read :: int
  ssl_error_want_write :: int

subsection \<open>Contexts\<close>

record 'c tls_context =
  ssl_ctx :: "'c option"
  context_type :: tls_type

text \<open>
  \<open>init\<close> of the two classes, with the early returns; each returns the flag and the context as
  the calls made until then have left it. The constructors ignore the flag.
\<close>

definition server_init :: "('c, 's) openssl \<Rightarrow> string \<Rightarrow> string \<Rightarrow> bool \<times> 'c option" where
  "server_init lib cert_file key_file = (case ssl_ctx_new lib SERVER of
     None \<Rightarrow> (False, None)
   | Some c \<Rightarrow> (case use_certificate_file lib cert_file c of (r1, c1) \<Rightarrow>
       if r1 \<le> 0 then (False, Some c1)
       else (case use_private_key_file lib key_file c1 of (r2, c2) \<Rightarrow>
         if r2 \<le> 0 then (False, Some c2)
         else if check_private_key lib c2 = 0 then (False, Some c2)
         else (True, Some (set_min_proto_tls1_2 lib c2)))))"

definition new_server_context :: "('c, 's) openssl \<Rightarrow> string \<Rightarrow> string \<Rightarrow> 'c tls_context" where
  "new_server_context lib cert_file key_file =
     \<lparr>ssl_ctx = snd (server_init lib cert_file key_file), context_type = SERVER\<rparr>"

definition client_init :: "('c, 's) openssl \<Rightarrow> bool \<Rightarrow> string \<Rightarrow> bool \<times> 'c option" where
  "client_init lib verify_peer ca_file = (case ssl_ctx_new lib CLIENT of
     None \<Rightarrow> (False, None)
   | Some c \<Rightarrow>
       if verify_peer then
         (let c1 = set_verify_peer lib True c in
          if ca_file \<noteq> [] then
            (case load_verify_locations lib ca_file c1 of (r, c2) \<Rightarrow>
               if r \<noteq> 1 then (False, Some c2) else (True, Some (set_min_proto_tls1_2 lib c2)))
          else
            (case set_default_verify_paths lib c1 of (r, c2) \<Rightarrow>
               if r \<noteq> 1 then (False, Some c2) else (True, Some (set_min_proto_tls1_2 lib c2))))
       else (True, Some (set_min_proto_tls1_2 lib (set_verify_peer lib False c))))"

definition new_client_context :: "('c, 's) openssl \<Rightarrow> bool \<Rightarrow> string \<Rightarrow> 'c tls_context" where
  "new_client_context lib verify_peer ca_file =
     \<lparr>ssl_ctx = snd (client_init lib verify_peer ca_file), context_type = CLIENT\<rparr>"

definition cleanup :: "'c tls_context \<Rightarrow> 'c tls_context" where
  "cleanup c = c\<lparr>ssl_ctx := None\<rparr>"

subsection \<open>Wrappers\<close>

datatype tls_result = TLS_OK | WANT_IO | TLS_ERROR

record 's tls_wrapper =
  ssl :: "'s option"
  tls_fd :: int
  handshake_done :: bool

text \<open>The constructor; the pointer to the context may be null.\<close>

definition new_tls_wrapper :: "('c, 's) openssl \<Rightarrow> 'c tls_context option \<Rightarrow> 's tls_wrapper" where
  "new_tls_wrapper lib c =
     \<lparr>ssl = (case c of None \<Rightarrow> None | Some tc \<Rightarrow> (case ssl_ctx tc of None \<Rightarrow> None | Some sc \<Rightarrow>
        (case ssl_new lib sc of None \<Rightarrow> None | Some s \<Rightarrow>
           Some (if context_type tc = SERVER then set_accept_state lib s else set_connect_state lib s)))),
      tls_fd = -1, handshake_done = False\<rparr>"

definition attach_fd :: "('c, 's) openssl \<Rightarrow> int \<Rightarrow> 's tls_wrapper \<Rightarrow> bool \<times> 's tls_wrapper" where
  "attach_fd lib socket_fd w = (let w1 = w\<lparr>tls_fd := socket_fd\<rparr> in
     case ssl w of None \<Rightarrow> (False, w1) | Some s \<Rightarrow> (True, w1\<lparr>ssl := Some (ssl_set_fd lib socket_fd s)\<rparr>))"

definition handshake :: "('c, 's) openssl \<Rightarrow> 's tls_wrapper \<Rightarrow> tls_result \<times> 's tls_wrapper" where
  "handshake lib w =
     (if handshake_done w then (TLS_OK, w)
      else case ssl w of
        None \<Rightarrow> (TLS_ERROR, w)
      | Some s \<Rightarrow> (case ssl_do_handshake lib s of (ret, s') \<Rightarrow>
          if ret = 1 then (TLS_OK, w\<lparr>ssl := Some s', handshake_done := True\<rparr>)
          else if ssl_get_error lib ret s' = ssl_error_want_read lib \<or> ssl_get_error lib ret s' = ssl_error_want_write lib
          then (WANT_IO, w\<lparr>ssl := Some s'\<rparr>)
          else (TLS_ERROR, w\<lparr>ssl := Some s'\<rparr>)))"

text \<open>The result and the bytes that were read.\<close>

definition tls_read :: "('c, 's) openssl \<Rightarrow> nat \<Rightarrow> 's tls_wrapper \<Rightarrow> (int \<times> string) \<times> 's tls_wrapper" where
  "tls_read lib n w = (case ssl w of
     None \<Rightarrow> ((-1, []), w)
   | Some s \<Rightarrow>
       if \<not> handshake_done w then ((-1, []), w)
       else (case ssl_read lib n s of ((ret, bytes), s') \<Rightarrow>
         if ret > 0 then ((ret, bytes), w\<lparr>ssl := Some s'\<rparr>)
         else if ssl_get_error lib ret s' = ssl_error_want_read lib \<or> ssl_get_error lib ret s' = ssl_error_want_write lib
         then ((0, []), w\<lparr>ssl := Some s'\<rparr>)
         else ((-1, []), w\<lparr>ssl := Some s'\<rparr>)))"

definition tls_write :: "('c, 's) openssl \<Rightarrow> string \<Rightarrow> 's tls_wrapper \<Rightarrow> int \<times> 's tls_wrapper" where
  "tls_write lib buf w = (case ssl w of
     None \<Rightarrow> (-1, w)
   | Some s \<Rightarrow>
       if \<not> handshake_done w then (-1, w)
       else (case ssl_write lib buf s of (ret, s') \<Rightarrow>
         if ret > 0 then (ret, w\<lparr>ssl := Some s'\<rparr>)
         else if ssl_get_error lib ret s' = ssl_error_want_write lib \<or> ssl_get_error lib ret s' = ssl_error_want_read lib
         then (0, w\<lparr>ssl := Some s'\<rparr>)
         else (-1, w\<lparr>ssl := Some s'\<rparr>)))"

text \<open>The connection handed to \<open>SSL_free\<close>, if there is one, and the wrapper.\<close>

definition shutdown_and_free :: "('c, 's) openssl \<Rightarrow> 's tls_wrapper \<Rightarrow> 's option \<times> 's tls_wrapper" where
  "shutdown_and_free lib w =
     (map_option (ssl_shutdown lib) (ssl w), w\<lparr>ssl := None, tls_fd := -1, handshake_done := False\<rparr>)"

subsection \<open>What a wrapper guarantees\<close>

text \<open>A run of a wrapper: any operations in any order, with what each of them returned.\<close>

datatype tls_op = Attach int | Handshake | Read nat | Write string | Shutdown

datatype tls_answer = Attached bool | Shook tls_result | Got int string | Put int | Down

primrec tls_step :: "('c, 's) openssl \<Rightarrow> 's tls_wrapper \<Rightarrow> tls_op \<Rightarrow> tls_answer \<times> 's tls_wrapper" where
  "tls_step lib w (Attach n) = (case attach_fd lib n w of (b, w') \<Rightarrow> (Attached b, w'))"
| "tls_step lib w Handshake = (case handshake lib w of (r, w') \<Rightarrow> (Shook r, w'))"
| "tls_step lib w (Read n) = (case tls_read lib n w of ((r, bytes), w') \<Rightarrow> (Got r bytes, w'))"
| "tls_step lib w (Write buf) = (case tls_write lib buf w of (r, w') \<Rightarrow> (Put r, w'))"
| "tls_step lib w Shutdown = (Down, snd (shutdown_and_free lib w))"

primrec tls_run :: "('c, 's) openssl \<Rightarrow> 's tls_wrapper \<Rightarrow> tls_op list \<Rightarrow> tls_answer list \<times> 's tls_wrapper" where
  "tls_run lib w [] = ([], w)"
| "tls_run lib w (p # ps) = (case tls_step lib w p of (r, w') \<Rightarrow> case tls_run lib w' ps of (rs, w'') \<Rightarrow> (r # rs, w''))"

text \<open>Data crosses only an established connection: a handshake has succeeded since the last shutdown.\<close>

fun transfers :: "tls_answer \<Rightarrow> bool" where
  "transfers (Got r bytes) = (r \<ge> 0)"
| "transfers (Put r) = (r \<ge> 0)"
| "transfers _ = False"

fun established :: "bool \<Rightarrow> tls_answer \<Rightarrow> bool" where
  "established b (Shook r) = (b \<or> r = TLS_OK)"
| "established b Down = False"
| "established b _ = b"

primrec disciplined :: "bool \<Rightarrow> tls_answer list \<Rightarrow> bool" where
  "disciplined b [] = True"
| "disciplined b (r # rs) = ((transfers r \<longrightarrow> b) \<and> disciplined (established b r) rs)"

lemma tls_step_established:
  "tls_step lib w p = (r, w') \<Longrightarrow> (transfers r \<longrightarrow> handshake_done w) \<and> handshake_done w' = established (handshake_done w) r"
  by (cases p) (auto simp: attach_fd_def handshake_def tls_read_def tls_write_def shutdown_and_free_def Let_def
      split: option.splits prod.splits if_splits)

lemma tls_run_disciplined: "disciplined (handshake_done w) (fst (tls_run lib w ps))"
proof (induction ps arbitrary: w)
  case (Cons p ps)
  obtain r w' where s: "tls_step lib w p = (r, w')" by force
  from tls_step_established [OF s] Cons [of w'] s show ?case by (auto split: prod.splits)
qed simp

text \<open>
  C36: whatever is called in whatever order, a wrapper delivers and accepts application data only while a
  handshake has succeeded and the connection has not been shut down since.
\<close>

theorem tls_data_after_handshake: "disciplined False (fst (tls_run lib (new_tls_wrapper lib c) ps))"
  using tls_run_disciplined [of "new_tls_wrapper lib c" lib ps] by (simp add: new_tls_wrapper_def)

text \<open>
  The constructor of a server context ignores that \<open>init\<close> failed: when a certificate or key cannot be
  loaded the context stays in use, connections are made from it and accepted, and the minimum
  protocol version has not been set.
\<close>

theorem failed_context_used:
  assumes "ssl_ctx_new lib SERVER = Some c" "use_certificate_file lib cert c = (r, c1)" "r \<le> 0" "ssl_new lib c1 = Some s"
  shows "fst (server_init lib cert key) = False \<and> ssl_ctx (new_server_context lib cert key) = Some c1 \<and>
    fst (attach_fd lib n (new_tls_wrapper lib (Some (new_server_context lib cert key)))) = True"
  using assms by (simp add: server_init_def new_server_context_def new_tls_wrapper_def attach_fd_def Let_def)

text \<open>A library with no certificate file, over trivial contexts and connections.\<close>

definition no_files :: "(unit, unit) openssl" where
  "no_files = \<lparr>ssl_ctx_new = \<lambda>_. Some (), use_certificate_file = \<lambda>_ _. (0, ()), use_private_key_file = \<lambda>_ _. (0, ()),
     check_private_key = \<lambda>_. 0, set_verify_peer = \<lambda>_ _. (), load_verify_locations = \<lambda>_ _. (0, ()),
     set_default_verify_paths = \<lambda>_. (0, ()), set_min_proto_tls1_2 = \<lambda>_. (), ssl_new = \<lambda>_. Some (), set_accept_state = \<lambda>_. (),
     set_connect_state = \<lambda>_. (), ssl_set_fd = \<lambda>_ _. (), ssl_do_handshake = \<lambda>_. (-1, ()), ssl_get_error = \<lambda>_ _. 1,
     ssl_read = \<lambda>_ _. ((-1, []), ()), ssl_write = \<lambda>_ _. (-1, ()), ssl_shutdown = \<lambda>_. (),
     ssl_error_want_read = 2, ssl_error_want_write = 3\<rparr>"

theorem failed_context_used_witness:
  "fst (attach_fd no_files 7 (new_tls_wrapper no_files (Some (new_server_context no_files ''a.crt'' ''a.pem'')))) = True"
  using failed_context_used [of no_files "()" "''a.crt''" 0 "()" "()" "''a.pem''" 7] by (simp add: no_files_def)

end
