(* ===== verification/Https_Socket.thy ===== *)
theory Https_Socket
  imports Http_Socket Tls
begin

section \<open>Client sockets over TLS (src/core/system_io/https_server_io)\<close>

text \<open>
  \<open>HttpsClientSocket\<close>: an \<open>HttpClientSocket\<close> whose reads and writes go through a
  \<open>TlsWrapper\<close>. Its member \<open>server_fd\<close> hides the inherited one and is never used. The
  inherited \<open>handle_read\<close> calls the overridden \<open>read_buffer\<close>: \<open>reads_of\<close> collects the
  results of these calls, which is what \<open>Http_Socket.handle_read\<close> takes. Every call but the last
  returns a byte or more, so the local buffer bounds their number, and \<open>max_reads\<close> suffices.
\<close>

record ('d, 's) https_client_socket =
  http_part :: "'d client_socket"
  own_server_fd :: int
  tls :: "'s tls_wrapper option"

definition set_ssl_context ::
    "('c, 's) openssl \<Rightarrow> 'c tls_context option \<Rightarrow> ('d, 's) https_client_socket \<Rightarrow> ('d, 's) https_client_socket" where
  "set_ssl_context lib c sock = sock\<lparr>tls := Some (new_tls_wrapper lib c)\<rparr>"

definition https_activate :: "('c, 's) openssl \<Rightarrow> ('d, 's) https_client_socket \<Rightarrow> (int \<times> ('d, 's) https_client_socket) result" where
  "https_activate lib sock = (case tls sock of
     None \<Rightarrow> Inl (UB Null_Pointer)
   | Some w \<Rightarrow> (case attach_fd lib (sock_fd (http_part sock)) w of (ok, w') \<Rightarrow>
       Inr (if \<not> ok then -1 else 0, sock\<lparr>tls := Some w'\<rparr>)))"

subsection \<open>Reading\<close>

text \<open>\<open>read_buffer\<close>: \<open>None\<close> is -1, else the bytes read, none for the result 0.\<close>

definition read_buffer :: "('c, 's) openssl \<Rightarrow> 's tls_wrapper \<Rightarrow> string option \<times> 's tls_wrapper" where
  "read_buffer lib w = (case tls_read lib buffer_size w of ((ret, bytes), w') \<Rightarrow>
     (if ret < 0 then None else if ret = 0 then Some [] else Some bytes, w'))"

fun more_reads :: "('c, 's) openssl \<Rightarrow> nat \<Rightarrow> 's tls_wrapper \<Rightarrow> string option list \<times> 's tls_wrapper" where
  "more_reads lib 0 w = ([], w)"
| "more_reads lib (Suc k) w = (case read_buffer lib w of
     (None, w') \<Rightarrow> ([None], w')
   | (Some bytes, w') \<Rightarrow>
       if bytes = [] then ([Some []], w')
       else (case more_reads lib k w' of (rs, w'') \<Rightarrow> (Some bytes # rs, w'')))"

definition reads_of :: "('c, 's) openssl \<Rightarrow> nat \<Rightarrow> 's tls_wrapper \<Rightarrow> string option list \<times> 's tls_wrapper" where
  "reads_of lib k w = (case read_buffer lib w of
     (None, w') \<Rightarrow> ([None], w')
   | (Some bytes, w') \<Rightarrow> (case more_reads lib k w' of (rs, w'') \<Rightarrow> (Some bytes # rs, w'')))"

definition max_reads :: nat where
  "max_reads = buffer_size + 1"

definition https_handle_read :: "('c, 's) openssl \<Rightarrow> 'd platform \<Rightarrow> nat \<Rightarrow> nat \<Rightarrow> ('d, 's) https_client_socket \<Rightarrow>
    (int \<times> ('d, 's) https_client_socket) result option" where
  "https_handle_read lib pf n k sock = (case tls sock of
     None \<Rightarrow> Some (Inl (UB Null_Pointer))
   | Some w \<Rightarrow>
       if \<not> handshake_done w then
         (case handshake lib w of (r, w') \<Rightarrow> Some (Inr (if r \<noteq> TLS_ERROR then 0 else -1, sock\<lparr>tls := Some w'\<rparr>)))
       else
         (case reads_of lib k w of (reads, w') \<Rightarrow>
            bindP (handle_read pf n reads (http_part sock)) (\<lambda>(r, hs).
              Some (Inr (r, sock\<lparr>http_part := hs, tls := Some w'\<rparr>)))))"

definition https_handle_write :: "('c, 's) openssl \<Rightarrow> ('d, 's) https_client_socket \<Rightarrow>
    (int \<times> ('d, 's) https_client_socket) result" where
  "https_handle_write lib sock = (case tls sock of
     None \<Rightarrow> Inl (UB Null_Pointer)
   | Some w \<Rightarrow>
       if \<not> handshake_done w then
         (case handshake lib w of (r, w') \<Rightarrow> Inr (if r \<noteq> TLS_ERROR then 0 else -1, sock\<lparr>tls := Some w'\<rparr>))
       else Inr (0, sock))"

subsection \<open>Answering and letting go\<close>

text \<open>The result of \<open>TlsWrapper::write\<close> is ignored.\<close>

definition https_write_to_socket_io :: "('c, 's) openssl \<Rightarrow> string \<Rightarrow> ('d, 's) https_client_socket \<Rightarrow>
    int \<times> ('d, 's) https_client_socket" where
  "https_write_to_socket_io lib buffer sock = (case tls sock of
     None \<Rightarrow> (-1, sock)
   | Some w \<Rightarrow> (case tls_write lib buffer w of (r, w') \<Rightarrow> (r, sock\<lparr>tls := Some w'\<rparr>)))"

text \<open>\<open>release\<close> deletes the wrapper; then the pool runs the inherited \<open>clear\<close>.\<close>

definition release_tls :: "('c, 's) openssl \<Rightarrow> ('d, 's) https_client_socket \<Rightarrow> 's option \<times> ('d, 's) https_client_socket" where
  "release_tls lib sock = (case tls sock of
     None \<Rightarrow> (None, sock)
   | Some w \<Rightarrow> (fst (shutdown_and_free lib w), sock\<lparr>tls := None\<rparr>))"

definition clear_https_socket :: "('d, 's) https_client_socket \<Rightarrow> ('d, 's) https_client_socket" where
  "clear_https_socket sock = sock\<lparr>http_part := clear_socket (http_part sock)\<rparr>"

subsection \<open>The bound on the reads is enough\<close>

text \<open>
  What is fixed of a list of reads that is collected with too little or with more than enough room:
  the first reads are the same, and if the buffer has not run over they are all.
\<close>

lemma more_reads_enough:
  "buffer_size - length buf < k \<Longrightarrow> length buf \<le> buffer_size \<Longrightarrow>
     (\<exists>e. read_loop (fst (more_reads lib k w)) buf = Inl e \<and> read_loop (fst (more_reads lib (k + d) w)) buf = Inl e) \<or>
     more_reads lib (k + d) w = more_reads lib k w"
proof (induction k arbitrary: buf w)
  case (Suc k)
  obtain r w' where r: "read_buffer lib w = (r, w')" by force
  show ?case
  proof (cases "\<exists>bytes. r = Some bytes \<and> bytes \<noteq> []")
    case True
    then obtain bytes where b: "r = Some bytes" "bytes \<noteq> []" by blast
    show ?thesis
    proof (cases "buffer_size < length buf + length bytes")
      case True
      with r b show ?thesis by (simp split: prod.splits)
    next
      case False
      have "length bytes > 0" using b(2) by simp
      with False Suc.prems have "buffer_size - length (buf @ bytes) < k" "length (buf @ bytes) \<le> buffer_size"
        unfolding length_append by linarith+
      from Suc.IH [OF this, of w'] False r b show ?thesis by (auto split: prod.splits)
    qed
  qed (use r in \<open>auto split: option.splits\<close>)
qed simp

text \<open>
  Reading ends: with room for 2049 reads the outcome is that with any more room, so the number of reads
  does not limit what the model says.
\<close>

theorem https_reads_enough:
  "https_handle_read lib pf n (max_reads + d) sock = https_handle_read lib pf n max_reads sock"
proof (cases "tls sock")
  case (Some w)
  obtain r w' where r: "read_buffer lib w = (r, w')" by force
  consider "r = None" | bytes where "r = Some bytes" by (cases r) auto
  then have "reads_of lib (max_reads + d) w = reads_of lib max_reads w \<or>
    (\<exists>e. read_message (fst (reads_of lib (max_reads + d) w)) = Inl e \<and> read_message (fst (reads_of lib max_reads w)) = Inl e)"
  proof cases
    case 2
    show ?thesis
    proof (cases "buffer_size < length bytes")
      case True
      with r 2 show ?thesis by (auto simp: reads_of_def read_message_def split: prod.splits)
    next
      case False
      then have "buffer_size - length bytes < max_reads" "length bytes \<le> buffer_size" by (simp_all add: max_reads_def)
      from more_reads_enough [OF this, of lib w' d] r 2 False show ?thesis
        by (auto simp: reads_of_def read_message_def split: prod.splits)
    qed
  qed (use r in \<open>simp add: reads_of_def\<close>)
  then show ?thesis
    using Some by (auto simp: https_handle_read_def handle_read_def split: prod.splits)
qed (simp add: https_handle_read_def)

subsection \<open>Handshake first\<close>

text \<open>
  as long as the handshake has not been completed, a readable or writable event of a TLS socket only
  advances the handshake: no request is read, no coroutine started and the saved text is kept,
  whatever the peer sends.
\<close>

theorem https_handshake_first:
  assumes "tls sock = Some w" "\<not> handshake_done w"
  shows "\<exists>r w'. https_handle_read lib pf n k sock = Some (Inr (r, sock\<lparr>tls := Some w'\<rparr>)) \<and>
    https_handle_write lib sock = Inr (r, sock\<lparr>tls := Some w'\<rparr>) \<and>
    (handshake_done w' \<longleftrightarrow> fst (handshake lib w) = TLS_OK) \<and> (r = -1 \<longleftrightarrow> fst (handshake lib w) = TLS_ERROR)"
  using assms by (auto simp: https_handle_read_def https_handle_write_def handshake_def split: option.splits prod.splits)

subsection \<open>Part of a record\<close>

lemma empty_message_answered:
  assumes "save_buffer sock = []" "read_message reads = Inr (Some [])"
  shows "handle_read pf n reads sock = Some (Inr (0, sock\<lparr>tasks := tasks sock @ [Send_404_Response]\<rparr>))"
proof -
  have "create_new_http_request pf n [] ''web_data'' = Some (Inr None)"
    by (simp add: create_new_http_request_def find_first_of_def)
  with assms show ?thesis by (simp add: handle_read_def)
qed

definition wants_more :: "('c, 's) openssl \<Rightarrow> 's \<Rightarrow> bool" where
  "wants_more lib s \<longleftrightarrow> (case ssl_read lib buffer_size s of ((ret, _), s') \<Rightarrow>
     ret \<le> 0 \<and> ssl_get_error lib ret s' = ssl_error_want_read lib)"

lemma starved_read:
  "ssl w = Some s \<Longrightarrow> handshake_done w \<Longrightarrow> wants_more lib s \<Longrightarrow>
     read_buffer lib w = (Some [], w\<lparr>ssl := Some (snd (ssl_read lib buffer_size s))\<rparr>)"
  by (auto simp: wants_more_def read_buffer_def tls_read_def split: prod.splits)

text \<open>
  A readable event that brings only part of a TLS record, when no request has been begun, is answered
  with the 404 page: the reads that return 0 look like an empty request.
\<close>

theorem partial_record_answered:
  assumes "tls sock = Some w" "handshake_done w" "ssl w = Some s" "save_buffer (http_part sock) = []"
    and "wants_more lib s" "wants_more lib (snd (ssl_read lib buffer_size s))"
  shows "\<exists>w'. https_handle_read lib pf n (Suc k) sock =
    Some (Inr (0, sock\<lparr>http_part := (http_part sock)\<lparr>tasks := tasks (http_part sock) @ [Send_404_Response]\<rparr>, tls := Some w'\<rparr>))"
proof -
  let ?w = "w\<lparr>ssl := Some (snd (ssl_read lib buffer_size s))\<rparr>"
  obtain w' where "read_buffer lib ?w = (Some [], w')" using starved_read [of ?w, OF _ _ assms(6)] assms(2) by simp
  with starved_read [OF assms(3,2,5)] have r: "reads_of lib (Suc k) w = ([Some [], Some []], w')" by (simp add: reads_of_def)
  have "read_message [Some [], Some []] = Inr (Some [])" by (simp add: read_message_def buffer_size_def c_str_def)
  from empty_message_answered [OF assms(4) this] have
    "https_handle_read lib pf n (Suc k) sock =
      Some (Inr (0, sock\<lparr>http_part := (http_part sock)\<lparr>tasks := tasks (http_part sock) @ [Send_404_Response]\<rparr>, tls := Some w'\<rparr>))"
    using assms(1,2) r by (simp add: https_handle_read_def)
  then show ?thesis by blast
qed

text \<open>A connection on which the peer has sent half a record.\<close>

definition half_record :: "(unit, unit) openssl" where
  "half_record = no_files\<lparr>ssl_get_error := \<lambda>_ _. 2\<rparr>"

definition waiting_socket :: "(int, unit) https_client_socket" where
  "waiting_socket = \<lparr>http_part = idle_socket, own_server_fd = 0,
     tls = Some \<lparr>ssl = Some (), tls_fd = 7, handshake_done = True\<rparr>\<rparr>"

theorem partial_record_answered_witness:
  "\<exists>w'. https_handle_read half_record demo_platform 0 1 waiting_socket =
    Some (Inr (0, waiting_socket\<lparr>http_part := idle_socket\<lparr>tasks := [Send_404_Response]\<rparr>, tls := Some w'\<rparr>))"
  using partial_record_answered [of waiting_socket "\<lparr>ssl = Some (), tls_fd = 7, handshake_done = True\<rparr>" "()" half_record
      demo_platform 0 0]
  by (simp add: waiting_socket_def idle_socket_def half_record_def no_files_def wants_more_def)

definition shaking_socket :: "(int, unit) https_client_socket" where
  "shaking_socket = waiting_socket\<lparr>tls := Some \<lparr>ssl = Some (), tls_fd = 7, handshake_done = False\<rparr>\<rparr>"

theorem https_handshake_first_witness:
  "\<exists>r w'. https_handle_read half_record demo_platform 0 1 shaking_socket = Some (Inr (r, shaking_socket\<lparr>tls := Some w'\<rparr>)) \<and> \<not> handshake_done w'"
  using https_handshake_first [of shaking_socket "\<lparr>ssl = Some (), tls_fd = 7, handshake_done = False\<rparr>" half_record demo_platform 0 1]
  by (auto simp: shaking_socket_def handshake_def half_record_def no_files_def)

subsection \<open>A response that does not fit\<close>

text \<open>
  When the connection cannot take the response at once, \<open>write_to_socket_io\<close> loses it: \<open>SSL_write\<close>
  reports that it wants to write, nothing is kept, and no later event sends it.
\<close>

theorem https_response_lost:
  assumes "tls sock = Some w" "handshake_done w" "ssl w = Some s" "ssl_write lib response s = (r, s')" "r \<le> 0"
    and "ssl_get_error lib r s' = ssl_error_want_write lib"
  shows "https_write_to_socket_io lib response sock = (0, sock\<lparr>tls := Some (w\<lparr>ssl := Some s'\<rparr>)\<rparr>) \<and>
    https_handle_write lib (sock\<lparr>tls := Some (w\<lparr>ssl := Some s'\<rparr>)\<rparr>) = Inr (0, sock\<lparr>tls := Some (w\<lparr>ssl := Some s'\<rparr>)\<rparr>)"
  using assms by (simp add: https_write_to_socket_io_def tls_write_def https_handle_write_def)

theorem https_response_lost_witness:
  "fst (https_write_to_socket_io (no_files\<lparr>ssl_get_error := \<lambda>_ _. 3\<rparr>) ''HTTP/1.1 200 OK'' waiting_socket) = 0"
  using https_response_lost [of waiting_socket "\<lparr>ssl = Some (), tls_fd = 7, handshake_done = True\<rparr>" "()"
      "no_files\<lparr>ssl_get_error := \<lambda>_ _. 3\<rparr>" "''HTTP/1.1 200 OK''" "-1" "()"]
  by (simp add: waiting_socket_def no_files_def)

end
