(* ===== verification/Server_Sockets.thy ===== *)
theory Server_Sockets
  imports Timers_Inv Https_Socket
begin

section \<open>Server sockets and connections (src/core/system_io/https_server_io)\<close>

text \<open>
  \<open>HttpServerSocket\<close>, \<open>HttpsServerSocket\<close> and the part of the client sockets that
  lives on the event base: accepting, the pool of 100 client objects, release, and the coroutines
  that answer. Such a coroutine keeps the pointer to its socket object; it stands in the object's
  \<open>tasks\<close> until it runs to its end. \<open>secure\<close> tells the HTTPS classes from the HTTP ones. What
  reads of a plain socket return is the script \<open>incoming\<close>, one list for each readable event.
\<close>

datatype sock_ref = Server_Obj | Client_Obj ptr

record ('d, 's, 'a) server_world =
  clients :: "('d, 's) https_client_socket pool"
  server_socket_fd :: int
  incoming :: "string option list list"
  app :: 'a

record ('c, 's, 'd, 'a) server_env =
  secure :: bool
  tls_lib :: "('c, 's) openssl"
  server_ctx :: "'c tls_context option"
  env_platform :: "'d platform"
  env_files :: file_system
  env_routes :: "('d, 'a) route_controller"
  parse_fuel :: nat

type_synonym ('d, 's, 'a) server_system = "(sock_ref, ('d, 's, 'a) server_world) system"

definition CLIENT_POOL_SIZE :: nat where
  "CLIENT_POOL_SIZE = 100"

definition client_class :: "bool \<Rightarrow> ('d, 's) https_client_socket pool_class" where
  "client_class sec = \<lparr>type_name = (if sec then ''HttpsClientSocket'' else ''HttpClientSocket''), has_init = None,
     has_clear = Some clear_https_socket\<rparr>"

definition client_at :: "ptr \<Rightarrow> ('d, 's, 'a) server_world \<Rightarrow> ('d, 's) https_client_socket" where
  "client_at p w = objs (clients w) ! p"

definition put_client :: "ptr \<Rightarrow> ('d, 's) https_client_socket \<Rightarrow> ('d, 's, 'a) server_world \<Rightarrow> ('d, 's, 'a) server_world" where
  "put_client p x w = w\<lparr>clients := (clients w)\<lparr>objs := (objs (clients w))[p := x]\<rparr>\<rparr>"

abbreviation client_fd :: "('d, 's) https_client_socket \<Rightarrow> int" where
  "client_fd x \<equiv> sock_fd (http_part x)"

definition set_client_fd :: "int \<Rightarrow> ('d, 's) https_client_socket \<Rightarrow> ('d, 's) https_client_socket" where
  "set_client_fd fd x = x\<lparr>http_part := (http_part x)\<lparr>sock_fd := fd\<rparr>\<rparr>"

subsection \<open>The server socket\<close>

text \<open>\<open>HttpServerSocket::generate_fd\<close>: any failure ends the process.\<close>

definition server_generate_fd :: "('d, 's, 'a) server_system \<Rightarrow> (int \<times> ('d, 's, 'a) server_system) result option" where
  "server_generate_fd st = (case new_fd Unbound_Socket (kern st) of (fd, k1) \<Rightarrow>
     if fd = -1 then None
     else case answer_of k1 of (reuse_res, k2) \<Rightarrow>
     if reuse_res = -1 then None
     else case answer_of k2 of (bind_res, k3) \<Rightarrow>
     if bind_res = -1 then None
     else case answer_of k3 of (listen_res, k4) \<Rightarrow>
     if listen_res = -1 then None
     else Some (Inr (fd, st\<lparr>kern := k4\<lparr>descriptors := (descriptors k4)(fd \<mapsto> Listening_Fd)\<rparr>,
       world := (world st)\<lparr>server_socket_fd := fd\<rparr>\<rparr>)))"

subsection \<open>A connection\<close>

text \<open>
  \<open>HttpClientSocket::generate_fd\<close>. When \<open>fcntl\<close> fails the connection is left open.
  \<open>HttpsClientSocket::generate_fd\<close> stores the result in \<open>fd\<close> again.
\<close>

definition client_generate_fd :: "bool \<Rightarrow> ptr \<Rightarrow> ('d, 's, 'a) server_system \<Rightarrow> int \<times> ('d, 's, 'a) server_system" where
  "client_generate_fd sec p st =
     (let x = client_at p (world st) in
      case accept_connection (server_fd (http_part x)) (kern st) of (fd, k1) \<Rightarrow>
        if fd = -1 then (-1, st\<lparr>kern := k1, world := put_client p (set_client_fd (-1) x) (world st)\<rparr>)
        else (case answer_of k1 of (fcntl_res, k2) \<Rightarrow>
          if fcntl_res = -1
          then (-1, st\<lparr>kern := k2\<lparr>refused := True\<rparr>, world := put_client p (set_client_fd (if sec then -1 else fd) x) (world st)\<rparr>)
          else (fd, st\<lparr>kern := k2, world := put_client p (set_client_fd fd x) (world st)\<rparr>)))"

definition client_activate :: "('c, 's, 'd, 'a) server_env \<Rightarrow> ptr \<Rightarrow> ('d, 's, 'a) server_system \<Rightarrow>
    (int \<times> ('d, 's, 'a) server_system) result" where
  "client_activate env p st =
     (if secure env then
        bindE (https_activate (tls_lib env) (client_at p (world st))) (\<lambda>(r, x).
          Inr (r, st\<lparr>world := put_client p x (world st)\<rparr>))
      else Inr (0, st))"

definition client_handle_read :: "('c, 's, 'd, 'a) server_env \<Rightarrow> ptr \<Rightarrow> ('d, 's, 'a) server_system \<Rightarrow>
    (int \<times> ('d, 's, 'a) server_system) result option" where
  "client_handle_read env p st =
     (let x = client_at p (world st); w = world st in
      if secure env then
        bindP (https_handle_read (tls_lib env) (env_platform env) (parse_fuel env) max_reads x) (\<lambda>(r, x').
          Some (Inr (r, st\<lparr>world := put_client p x' w\<rparr>)))
      else
        (case incoming w of
           [] \<Rightarrow> Some (Inr (0, st))
         | reads # later \<Rightarrow>
             bindP (handle_read (env_platform env) (parse_fuel env) reads (http_part x)) (\<lambda>(r, h).
               Some (Inr (r, st\<lparr>world := (put_client p (x\<lparr>http_part := h\<rparr>) w)\<lparr>incoming := later\<rparr>\<rparr>)))))"

definition client_handle_write :: "('c, 's, 'd, 'a) server_env \<Rightarrow> ptr \<Rightarrow> ('d, 's, 'a) server_system \<Rightarrow>
    (int \<times> ('d, 's, 'a) server_system) result" where
  "client_handle_write env p st =
     (if secure env then
        bindE (https_handle_write (tls_lib env) (client_at p (world st))) (\<lambda>(r, x).
          Inr (r, st\<lparr>world := put_client p x (world st)\<rparr>))
      else Inr (0, st))"

definition client_release :: "('c, 's, 'd, 'a) server_env \<Rightarrow> ptr \<Rightarrow> ('d, 's, 'a) server_world \<Rightarrow> ('d, 's, 'a) server_world result" where
  "client_release env p w =
     (let w1 = (if secure env then put_client p (snd (release_tls (tls_lib env) (client_at p w))) w else w) in
      bindE (release (client_class (secure env)) (clients w1) (Some p)) (\<lambda>pl. Inr (w1\<lparr>clients := pl\<rparr>)))"

subsection \<open>The methods\<close>

primrec sock_events :: "sock_ref \<Rightarrow> u32" where
  "sock_events Server_Obj = EPOLLIN"
| "sock_events (Client_Obj _) = EPOLLIN OR EPOLL_FAILED"

primrec sock_ref_fd :: "sock_ref \<Rightarrow> ('d, 's, 'a) server_world \<Rightarrow> int" where
  "sock_ref_fd Server_Obj w = server_socket_fd w"
| "sock_ref_fd (Client_Obj p) w = client_fd (client_at p w)"

primrec sock_release :: "('c, 's, 'd, 'a) server_env \<Rightarrow> sock_ref \<Rightarrow> ('d, 's, 'a) server_world \<Rightarrow> ('d, 's, 'a) server_world result" where
  "sock_release env Server_Obj w = Inr w"
| "sock_release env (Client_Obj p) w = client_release env p w"

definition sock_base :: "('c, 's, 'd, 'a) server_env \<Rightarrow> (sock_ref, ('d, 's, 'a) server_world) io_class" where
  "sock_base env = \<lparr>fd_of = sock_ref_fd, get_io_events = sock_events,
     generate_fd = (\<lambda>p st. case p of Server_Obj \<Rightarrow> server_generate_fd st
       | Client_Obj q \<Rightarrow> Some (Inr (client_generate_fd (secure env) q st))),
     activate = (\<lambda>p st. case p of Server_Obj \<Rightarrow> Some (Inr (0, st)) | Client_Obj q \<Rightarrow> Some (client_activate env q st)),
     on_read = (\<lambda>p st. case p of Server_Obj \<Rightarrow> Some (Inr (0, st)) | Client_Obj q \<Rightarrow> client_handle_read env q st),
     on_write = (\<lambda>p st. case p of Server_Obj \<Rightarrow> Some (Inr (0, st)) | Client_Obj q \<Rightarrow> Some (client_handle_write env q st)),
     release_object = sock_release env\<rparr>"

text \<open>
  \<open>HttpServerSocket::handle_read\<close> and \<open>HttpsServerSocket::handle_read\<close>, which also makes the TLS
  part of the connection.
\<close>

definition http_server_handle_read :: "('c, 's, 'd, 'a) server_env \<Rightarrow> ('d, 's, 'a) server_system \<Rightarrow>
    (int \<times> ('d, 's, 'a) server_system) result option" where
  "http_server_handle_read env st =
     bindP (Some (acquire (client_class (secure env)) (clients (world st)))) (\<lambda>(p, pl).
       let w1 = (world st)\<lparr>clients := pl\<rparr>; x = client_at p w1;
           x1 = x\<lparr>http_part := set_server_fd (server_socket_fd (world st)) (http_part x)\<rparr>
       in bindP (start_living_system_io_object (sock_base env) (Client_Obj p) (st\<lparr>world := put_client p x1 w1\<rparr>))
            (\<lambda>st'. Some (Inr (0, st'))))"

definition https_server_handle_read :: "('c, 's, 'd, 'a) server_env \<Rightarrow> ('d, 's, 'a) server_system \<Rightarrow>
    (int \<times> ('d, 's, 'a) server_system) result option" where
  "https_server_handle_read env st =
     bindP (Some (acquire (client_class (secure env)) (clients (world st)))) (\<lambda>(p, pl).
       let w1 = (world st)\<lparr>clients := pl\<rparr>; x = client_at p w1;
           x1 = x\<lparr>http_part := set_server_fd (server_socket_fd (world st)) (http_part x)\<rparr>;
           x2 = set_ssl_context (tls_lib env) (server_ctx env) x1
       in bindP (start_living_system_io_object (sock_base env) (Client_Obj p) (st\<lparr>world := put_client p x2 w1\<rparr>))
            (\<lambda>st'. Some (Inr (0, st'))))"

definition server_handle_read :: "('c, 's, 'd, 'a) server_env \<Rightarrow> ('d, 's, 'a) server_system \<Rightarrow>
    (int \<times> ('d, 's, 'a) server_system) result option" where
  "server_handle_read env st = (if secure env then https_server_handle_read env st else http_server_handle_read env st)"

lemma server_handle_read_eq:
  "server_handle_read env st =
     bindP (Some (acquire (client_class (secure env)) (clients (world st)))) (\<lambda>(p, pl).
       let w1 = (world st)\<lparr>clients := pl\<rparr>; x = client_at p w1;
           x1 = x\<lparr>http_part := set_server_fd (server_socket_fd (world st)) (http_part x)\<rparr>;
           x2 = (if secure env then set_ssl_context (tls_lib env) (server_ctx env) x1 else x1)
       in bindP (start_living_system_io_object (sock_base env) (Client_Obj p) (st\<lparr>world := put_client p x2 w1\<rparr>))
            (\<lambda>st'. Some (Inr (0, st'))))"
  by (simp add: server_handle_read_def http_server_handle_read_def https_server_handle_read_def)

definition sock_class :: "('c, 's, 'd, 'a) server_env \<Rightarrow> (sock_ref, ('d, 's, 'a) server_world) io_class" where
  "sock_class env = (sock_base env)\<lparr>on_read := (\<lambda>p st. case p of
     Server_Obj \<Rightarrow> server_handle_read env st | Client_Obj q \<Rightarrow> client_handle_read env q st)\<rparr>"

subsection \<open>The coroutines that answer\<close>

text \<open>\<open>write_to_socket_io\<close> of the object, whatever connection the object has by now.\<close>

definition answer_client :: "('c, 's, 'd, 'a) server_env \<Rightarrow> ptr \<Rightarrow> string \<Rightarrow> ('d, 's, 'a) server_system \<Rightarrow> ('d, 's, 'a) server_system" where
  "answer_client env p response st =
     (if secure env then
        st\<lparr>world := put_client p (snd (https_write_to_socket_io (tls_lib env) response (client_at p (world st)))) (world st)\<rparr>
      else st\<lparr>kern := write_fd (client_fd (client_at p (world st))) response (kern st)\<rparr>)"

text \<open>
  A step of the coroutine that stands at place \<open>i\<close>. \<open>execute_request\<close> is suspended while the handler of the route
  runs, so other coroutines and events of the same connection come between the handler and the response, and the responses of
  one connection are written in any order. What handlers do to the state of the application is a parameter of the routes.
\<close>

definition set_tasks :: "'d socket_task list \<Rightarrow> ('d, 's) https_client_socket \<Rightarrow> ('d, 's) https_client_socket" where
  "set_tasks ts x = x\<lparr>http_part := (http_part x)\<lparr>tasks := ts\<rparr>\<rparr>"

definition set_save_buffer :: "string \<Rightarrow> ('d, 's) https_client_socket \<Rightarrow> ('d, 's) https_client_socket" where
  "set_save_buffer s x = x\<lparr>http_part := (http_part x)\<lparr>save_buffer := s\<rparr>\<rparr>"

definition run_client_task :: "('c, 's, 'd, 'a) server_env \<Rightarrow> ptr \<Rightarrow> nat \<Rightarrow> ('d, 's, 'a) server_system \<Rightarrow>
    ('d, 's, 'a) server_system result" where
  "run_client_task env p i st =
     (let x = client_at p (world st); ts = tasks (http_part x); done_ts = take i ts @ drop (i + 1) ts in
      if length ts \<le> i then Inr st
      else case ts ! i of
        Send_404_Response \<Rightarrow>
          bindE (get_response_in_string (env_platform env) (response_not_found_404 (env_routes env) None)) (\<lambda>response.
            Inr (answer_client env p response (st\<lparr>world := put_client p (set_save_buffer [] (set_tasks done_ts x)) (world st)\<rparr>)))
      | Execute_Request rq \<Rightarrow>
          (case handle_request_base_on_route (env_platform env) (env_files env) (env_routes env) rq (app (world st)) of (s', r) \<Rightarrow>
            bindE r (\<lambda>response.
              Inr (st\<lparr>world := (put_client p (set_tasks (ts[i := Write_Response response]) x) (world st))\<lparr>app := s'\<rparr>\<rparr>)))
      | Write_Response response \<Rightarrow>
          Inr (answer_client env p response (st\<lparr>world := put_client p (set_tasks done_ts x) (world st)\<rparr>)))"

subsection \<open>Runs of the server\<close>

datatype sock_event = Report int u32 | Run_Task ptr nat

fun server_step :: "('c, 's, 'd, 'a) server_env \<Rightarrow> ('d, 's, 'a) server_system \<Rightarrow> sock_event \<Rightarrow> ('d, 's, 'a) server_system result option" where
  "server_step env st (Report fd ev) = (case interest (kern st) fd of
     None \<Rightarrow> Some (Inr st)
   | Some (_, p) \<Rightarrow> if may_report (kern st) fd ev then handle_event (sock_class env) (p, ev) st else Some (Inr st))"
| "server_step env st (Run_Task p i) = (if p < pool_size (clients (world st)) then Some (run_client_task env p i st) else Some (Inr st))"

primrec server_run :: "('c, 's, 'd, 'a) server_env \<Rightarrow> ('d, 's, 'a) server_system \<Rightarrow> sock_event list \<Rightarrow> ('d, 's, 'a) server_system result option" where
  "server_run env st [] = Some (Inr st)"
| "server_run env st (e # es) = bindP (server_step env st e) (\<lambda>st'. server_run env st' es)"

text \<open>\<open>main\<close> starts the server socket on the epoll base.\<close>

definition start_server :: "('c, 's, 'd, 'a) server_env \<Rightarrow> ('d, 's, 'a) server_system \<Rightarrow> ('d, 's, 'a) server_system result option" where
  "start_server env st = start_living_system_io_object (sock_base env) Server_Obj st"

end
