(* ===== verification/Server_Inv.thy ===== *)
theory Server_Inv
  imports Server_Sockets
begin

section \<open>Connections and their objects\<close>

text \<open>
  What the server's event base, sockets and pool agree on, and the interpretation of the contract
  \<open>io_objects\<close> of \<open>Epoll\<close> for the sockets of \<open>Server_Sockets\<close>.
\<close>

subsection \<open>The contract of the event base holds\<close>

lemma put_client_fields [simp]:
  "pool_free (clients (put_client p x w)) = pool_free (clients w)" "pool_size (clients (put_client p x w)) = pool_size (clients w)"
  "server_socket_fd (put_client p x w) = server_socket_fd w" "incoming (put_client p x w) = incoming w" "app (put_client p x w) = app w"
  "clean_pool (clients (put_client p x w)) = clean_pool (clients w)" "put_client p x (put_client p y w) = put_client p x w"
  by (simp_all add: put_client_def clean_pool_def)

lemma client_at_put: "clean_pool (clients w) \<Longrightarrow> p < pool_size (clients w) \<Longrightarrow>
    client_at q (put_client p x w) = (if q = p then x else client_at q w)"
  by (simp add: client_at_def put_client_def clean_pool_def nth_list_update)

lemma accept_result: "accept_connection fd k = (c, k') \<Longrightarrow>
   (c = -1 \<and> descriptors k' = descriptors k \<and> interest k' = interest k \<and> refused k') \<or>
   (0 \<le> c \<and> descriptors k c = None \<and> descriptors k' = (descriptors k)(c \<mapsto> Connection (accepted k)) \<and>
     interest k' = interest k \<and> refused k' = refused k)"
  using new_fd_result [of "Connection (accepted k)" k]
  by (auto simp: accept_connection_def split: prod.splits if_splits)

lemma client_generate_result: "client_generate_fd sec p st = (fd, st') \<Longrightarrow>
   (\<exists>x. world st' = put_client p x (world st) \<and> tasks (http_part x) = tasks (http_part (client_at p (world st)))) \<and>
   (fd = -1 \<and> refused (kern st') \<and> interest (kern st') = interest (kern st) \<and>
      (\<exists>c n. descriptors (kern st') = descriptors (kern st) \<or> 0 \<le> c \<and> descriptors (kern st) c = None \<and>
         descriptors (kern st') = (descriptors (kern st))(c \<mapsto> Connection n)) \<or>
    0 \<le> fd \<and> descriptors (kern st) fd = None \<and> (\<exists>n. descriptors (kern st') = (descriptors (kern st))(fd \<mapsto> Connection n)) \<and>
      interest (kern st') = interest (kern st) \<and> refused (kern st') = refused (kern st) \<and>
      world st' = put_client p (set_client_fd fd (client_at p (world st))) (world st))"
proof -
  assume g: "client_generate_fd sec p st = (fd, st')"
  let ?x = "client_at p (world st)"
  obtain c k1 where a: "accept_connection (server_fd (http_part ?x)) (kern st) = (c, k1)" by force
  obtain r k2 where b: "answer_of k1 = (r, k2)" by force
  from accept_result [OF a] show ?thesis
  proof (elim disjE conjE)
    assume "c = -1" "descriptors k1 = descriptors (kern st)" "interest k1 = interest (kern st)" "refused k1"
    with g a show ?thesis by (auto simp: client_generate_fd_def Let_def set_client_fd_def)
  next
    assume c: "0 \<le> c" "descriptors (kern st) c = None" "descriptors k1 = (descriptors (kern st))(c \<mapsto> Connection (accepted (kern st)))"
      "interest k1 = interest (kern st)" "refused k1 = refused (kern st)"
    show ?thesis
    proof (cases "r = -1")
      case True
      with g a b c have "fd = -1" "kern st' = k2\<lparr>refused := True\<rparr>"
        "world st' = put_client p (set_client_fd (if sec then -1 else c) ?x) (world st)"
        by (auto simp: client_generate_fd_def Let_def)
      with b c show ?thesis by (auto simp: set_client_fd_def)
    next
      case False
      with g a b c have "fd = c" "kern st' = k2" "world st' = put_client p (set_client_fd c ?x) (world st)"
        by (auto simp: client_generate_fd_def Let_def split: if_splits)
      with b c show ?thesis by (auto simp: set_client_fd_def)
    qed
  qed
qed

lemma grows_client:
  assumes "client_generate_fd sec p st = (fd, st')"
  shows "grows (kern st) (kern st') \<and> (0 \<le> fd \<longrightarrow> descriptors (kern st) fd = None)"
  using client_generate_result [OF assms] by (intro conjI grows_same) auto

lemma server_generate_result:
  assumes "server_generate_fd st = Some (Inr (fd, st'))"
  shows "0 \<le> fd \<and> descriptors (kern st) fd = None \<and> descriptors (kern st') = (descriptors (kern st))(fd \<mapsto> Listening_Fd) \<and>
    interest (kern st') = interest (kern st) \<and> refused (kern st') = refused (kern st) \<and>
    world st' = (world st)\<lparr>server_socket_fd := fd\<rparr>"
proof -
  obtain a k1 where n: "new_fd Unbound_Socket (kern st) = (a, k1)" by force
  from assms n show ?thesis
    using new_fd_result [OF n] by (auto simp: server_generate_fd_def split: prod.splits if_splits)
qed

lemma sock_base_simps [simp]:
  "generate_fd (sock_base env) (Client_Obj q) st = Some (Inr (client_generate_fd (secure env) q st))"
  "generate_fd (sock_base env) Server_Obj st = server_generate_fd st"
  "activate (sock_base env) (Client_Obj q) st = Some (client_activate env q st)"
  "activate (sock_base env) Server_Obj st = Some (Inr (0, st))"
  "get_io_events (sock_base env) = sock_events" "fd_of (sock_base env) = sock_ref_fd"
  "release_object (sock_base env) = sock_release env"
  by (simp_all add: sock_base_def)

lemma sock_class_simps [simp]:
  "generate_fd (sock_class env) = generate_fd (sock_base env)" "activate (sock_class env) = activate (sock_base env)"
  "get_io_events (sock_class env) = sock_events" "fd_of (sock_class env) = sock_ref_fd"
  "release_object (sock_class env) = sock_release env"
  "on_read (sock_class env) Server_Obj st = server_handle_read env st"
  "on_read (sock_class env) (Client_Obj q) st = client_handle_read env q st"
  "on_write (sock_class env) Server_Obj st = Some (Inr (0, st))"
  "on_write (sock_class env) (Client_Obj q) st = Some (client_handle_write env q st)"
  by (simp_all add: sock_class_def sock_base_def)

text \<open>What a handler of one connection may change of the world: its object, but not the descriptor in it.\<close>

definition touched :: "ptr \<Rightarrow> ('d, 's, 'a) server_world \<Rightarrow> ('d, 's, 'a) server_world \<Rightarrow> bool" where
  "touched p w w' \<longleftrightarrow> server_socket_fd w' = server_socket_fd w \<and> pool_free (clients w') = pool_free (clients w) \<and>
     pool_size (clients w') = pool_size (clients w) \<and> clean_pool (clients w') = clean_pool (clients w) \<and>
     (\<forall>q. client_fd (client_at q w') = client_fd (client_at q w) \<and> (q \<noteq> p \<longrightarrow> client_at q w' = client_at q w))"

lemma touched_refl [simp]: "touched p w w"
  by (simp add: touched_def)

lemma touched_put: "client_fd x = client_fd (client_at p w) \<Longrightarrow> touched p w (put_client p x w)"
  by (cases "p < length (objs (clients w))")
    (auto simp: touched_def client_at_def put_client_def clean_pool_def nth_list_update list_update_beyond)

lemma touched_fields [simp]:
  "touched p w (w'\<lparr>incoming := inc\<rparr>) = touched p w w'" "touched p w (w'\<lparr>app := s\<rparr>) = touched p w w'"
  by (simp_all add: touched_def client_at_def)

lemma client_activate_touched: "client_activate env q st = Inr (r, st') \<Longrightarrow> kern st' = kern st \<and> touched q (world st) (world st')"
  by (auto simp: client_activate_def bindE_eq_Inr https_activate_def intro!: touched_put split: if_splits option.splits prod.splits)

lemma handle_read_fd: "handle_read pf n reads h = Some (Inr (r, h')) \<Longrightarrow> sock_fd h' = sock_fd h \<and> server_fd h' = server_fd h"
  by (auto simp: handle_read_def bindP_eq split: option.splits if_splits)

lemma https_read_fd: "https_handle_read lib pf n k x = Some (Inr (r, x')) \<Longrightarrow> client_fd x' = client_fd x"
  by (auto simp: https_handle_read_def bindP_eq dest!: handle_read_fd split: option.splits if_splits prod.splits)

lemma client_read_touched: "client_handle_read env q st = Some (Inr (r, st')) \<Longrightarrow> kern st' = kern st \<and> touched q (world st) (world st')"
  by (auto simp: client_handle_read_def Let_def bindP_eq intro!: touched_put dest!: https_read_fd handle_read_fd
      split: if_splits list.splits)

lemma client_write_touched: "client_handle_write env q st = Inr (r, st') \<Longrightarrow> kern st' = kern st \<and> touched q (world st) (world st')"
  by (auto simp: client_handle_write_def bindE_eq_Inr https_handle_write_def intro!: touched_put
      split: if_splits option.splits prod.splits)

interpretation sock_base: io_objects "sock_base env"
proof unfold_locales
  fix p st fd r st'
  show "generate_fd (sock_base env) p st = Some (Inr (fd, st')) \<Longrightarrow>
      grows (kern st) (kern st') \<and> (0 \<le> fd \<longrightarrow> descriptors (kern st) fd = None)"
    by (cases p) (auto dest!: grows_client server_generate_result intro!: grows_same)
  show "activate (sock_base env) p st = Some (Inr (r, st')) \<Longrightarrow> grows (kern st) (kern st')"
    by (cases p) (auto dest!: client_activate_touched)
  show "on_read (sock_base env) p st = Some (Inr (r, st')) \<Longrightarrow> grows (kern st) (kern st')"
    by (cases p) (auto simp: sock_base_def dest!: client_read_touched)
  show "on_write (sock_base env) p st = Some (Inr (r, st')) \<Longrightarrow> grows (kern st) (kern st')"
    by (cases p) (auto simp: sock_base_def dest!: client_write_touched)
qed

lemma server_read_grows:
  "kernel_ok (kern st) \<Longrightarrow> server_handle_read env st = Some (Inr (r, st')) \<Longrightarrow> grows (kern st) (kern st')"
  by (auto simp: server_handle_read_eq bindP_eq Let_def dest!: sock_base.start_living_grows [rotated])

interpretation sock: io_objects "sock_class env"
proof unfold_locales
  fix p st fd r st'
  show "kernel_ok (kern st) \<Longrightarrow> generate_fd (sock_class env) p st = Some (Inr (fd, st')) \<Longrightarrow>
      grows (kern st) (kern st') \<and> (0 \<le> fd \<longrightarrow> descriptors (kern st) fd = None)"
    by (simp add: sock_base.generate)
  show "activate (sock_class env) p st = Some (Inr (r, st')) \<Longrightarrow> grows (kern st) (kern st')"
    by (simp add: sock_base.activate)
  show "kernel_ok (kern st) \<Longrightarrow> on_read (sock_class env) p st = Some (Inr (r, st')) \<Longrightarrow> grows (kern st) (kern st')"
    by (cases p) (auto dest: server_read_grows client_read_touched)
  show "on_write (sock_class env) p st = Some (Inr (r, st')) \<Longrightarrow> grows (kern st) (kern st')"
    by (cases p) (auto dest!: client_write_touched)
qed

subsection \<open>The invariant\<close>

abbreviation busy_client :: "('d, 's, 'a) server_world \<Rightarrow> ptr \<Rightarrow> bool" where
  "busy_client w p \<equiv> p < pool_size (clients w) \<and> p \<notin> set (pool_free (clients w))"

primrec sock_ok :: "sock_ref kernel \<Rightarrow> ('d, 's, 'a) server_world \<Rightarrow> int \<Rightarrow> sock_ref \<Rightarrow> bool" where
  "sock_ok k w fd Server_Obj \<longleftrightarrow> server_socket_fd w = fd \<and> descriptors k fd = Some Listening_Fd"
| "sock_ok k w fd (Client_Obj p) \<longleftrightarrow> client_fd (client_at p w) = fd \<and> busy_client w p \<and>
     (\<exists>n. descriptors k fd = Some (Connection n))"

definition conns_sound :: "sock_ref kernel \<Rightarrow> ('d, 's, 'a) server_world \<Rightarrow> bool" where
  "conns_sound k w \<longleftrightarrow> (\<forall>fd ev p. interest k fd = Some (ev, p) \<longrightarrow> ev = sock_events p \<and> sock_ok k w fd p)"

definition conns_complete :: "sock_ref kernel \<Rightarrow> ('d, 's, 'a) server_world \<Rightarrow> bool" where
  "conns_complete k w \<longleftrightarrow> dom (descriptors k) \<subseteq> dom (interest k) \<and>
     (\<forall>p. busy_client w p \<longrightarrow> interest k (client_fd (client_at p w)) = Some (sock_events (Client_Obj p), Client_Obj p))"

definition server_inv :: "sock_ref kernel \<Rightarrow> ('d, 's, 'a) server_world \<Rightarrow> bool" where
  "server_inv k w \<longleftrightarrow> kernel_ok k \<and> dom (descriptors k) \<subseteq> {0..} \<and> clean_pool (clients w) \<and>
     pool_size (clients w) = CLIENT_POOL_SIZE \<and> conns_sound k w \<and> (\<not> refused k \<longrightarrow> conns_complete k w)"

lemma conns_soundD: "conns_sound k w \<Longrightarrow> interest k fd = Some (ev, p) \<Longrightarrow> ev = sock_events p \<and> sock_ok k w fd p"
  unfolding conns_sound_def by blast

lemma touched_inv: "server_inv k w \<Longrightarrow> touched p w w' \<Longrightarrow> server_inv k w'"
proof -
  assume i: "server_inv k w" and t: "touched p w w'"
  from t have "sock_ok k w' fd q = sock_ok k w fd q" for fd q by (cases q) (simp_all add: touched_def)
  with i t show ?thesis by (simp add: server_inv_def conns_sound_def conns_complete_def touched_def)
qed

subsection \<open>A new connection\<close>

lemma started_inv:
  assumes inv: "server_inv k w" and s: "started fd (Connection n) (sock_events (Client_Obj p), Client_Obj p) k k'"
    and p: "p < pool_size (clients w)" "pool_free (clients w) = p # xs"
    and w': "clean_pool (clients w')" "pool_free (clients w') = xs" "pool_size (clients w') = pool_size (clients w)"
      "server_socket_fd w' = server_socket_fd w" "\<And>q. q \<noteq> p \<Longrightarrow> client_at q w' = client_at q w"
      "\<not> refused k' \<or> interest k' \<noteq> interest k \<Longrightarrow> client_fd (client_at p w') = fd"
  shows "server_inv k' w'"
proof -
  have k: "kernel_ok k" "dom (descriptors k) \<subseteq> {0..}" "clean_pool (clients w)" and so: "conns_sound k w"
    using inv by (simp_all add: server_inv_def)
  note k' = started_kernel [OF s k(1,2)]
  have d: "distinct (p # xs)" using k(3) p(2) by (simp add: clean_pool_def)
  have np: "\<not> busy_client w p" using p by simp
  have busy: "busy_client w' q \<longleftrightarrow> q = p \<or> busy_client w q" for q using p w' d by auto
  have reg: "sock_ok k' w' x q" if "sock_ok k w x q" for x q
  proof (cases q)
    case (Client_Obj j)
    with that np have "j \<noteq> p" by auto
    with that Client_Obj busy [of j] w'(5) [of j] started_keeps [OF s, of x] show ?thesis by auto
  qed (use that w'(4) started_keeps [OF s, of x] in auto)
  have "conns_sound k' w'"
    unfolding conns_sound_def
  proof (intro allI impI)
    fix x ev q assume i: "interest k' x = Some (ev, q)"
    show "ev = sock_events q \<and> sock_ok k' w' x q"
    proof (cases "interest k x = Some (ev, q)")
      case True
      with conns_soundD [OF so] reg show ?thesis by blast
    next
      case False
      with started_interest [OF s i] have n: "x = fd" "q = Client_Obj p" "ev = sock_events q" "descriptors k' fd = Some (Connection n)"
        by auto
      from False i have "interest k' \<noteq> interest k" by auto
      with n w'(6) busy [of p] show ?thesis by simp
    qed
  qed
  moreover have "conns_complete k' w'" if r: "\<not> refused k'"
  proof -
    note st = started_done [OF s r]
    with inv have c: "conns_complete k w" by (simp add: server_inv_def)
    from st not_open [OF k(1)] have "interest k fd = None" by blast
    have "interest k' (client_fd (client_at q w')) = Some (sock_events (Client_Obj q), Client_Obj q)" if b: "busy_client w' q" for q
    proof (cases "q = p")
      case True
      with w'(6) r st show ?thesis by simp
    next
      case False
      with b busy [of q] c have "interest k (client_fd (client_at q w)) = Some (sock_events (Client_Obj q), Client_Obj q)"
        unfolding conns_complete_def by blast
      with \<open>interest k fd = None\<close> st w'(5) [OF False] show ?thesis by auto
    qed
    moreover have "dom (descriptors k') \<subseteq> dom (interest k')" using c st by (auto simp: conns_complete_def)
    ultimately show ?thesis unfolding conns_complete_def by blast
  qed
  ultimately show ?thesis using k' w'(1,3) inv by (simp add: server_inv_def)
qed

lemma release_tls_none: "tls (snd (release_tls lib x)) = None"
  by (simp add: release_tls_def split: option.splits)

lemma released_inv:
  assumes inv: "server_inv k w" and p: "client_fd (client_at p w) = fd" "busy_client w p"
    and i: "interest k fd = None \<or> (\<exists>ev. interest k fd = Some (ev, Client_Obj p))"
  shows "\<exists>w'. client_release env p w = Inr w' \<and> server_inv (close_fd fd k) w' \<and>
    pool_free (clients w') = pool_free (clients w) @ [p] \<and> pool_size (clients w') = pool_size (clients w) \<and>
    tasks (http_part (client_at p w')) = tasks (http_part (client_at p w)) \<and> app w' = app w \<and> client_fd (client_at p w') = fd \<and>
    (secure env \<longrightarrow> tls (client_at p w') = None)"
proof -
  have so: "conns_sound k w" and c: "clean_pool (clients w)" using inv by (simp_all add: server_inv_def)
  let ?x = "if secure env then snd (release_tls (tls_lib env) (client_at p w)) else client_at p w"
  let ?w1 = "if secure env then put_client p ?x w else w"
  have x: "client_fd ?x = client_fd (client_at p w)" "http_part ?x = http_part (client_at p w)"
    by (simp_all add: release_tls_def split: option.splits)
  have t: "touched p w ?w1" by (cases "secure env") (use x(1) in \<open>simp_all add: touched_put\<close>)
  have at1: "client_at p ?w1 = ?x" using c p by (simp add: client_at_put)
  from t c have c1: "clean_pool (clients ?w1)" "pool_free (clients ?w1) = pool_free (clients w)"
    "pool_size (clients ?w1) = pool_size (clients w)" by (simp_all add: touched_def)
  from clean_release [OF c1(1), of p "client_class (secure env)"] p(2) c1 obtain pl where
    r: "release (client_class (secure env)) (clients ?w1) (Some p) = Inr pl" "clean_pool pl"
    "pool_free pl = pool_free (clients w) @ [p]" "pool_size pl = pool_size (clients w)"
    "objs pl = run_hook (Some clear_https_socket) p (objs (clients ?w1))" by (auto simp: client_class_def)
  let ?w = "?w1\<lparr>clients := pl\<rparr>"
  have len: "p < length (objs (clients ?w1))" using c1 p(2) by (simp add: clean_pool_def)
  have at: "client_at q ?w = (if q = p then clear_https_socket ?x else client_at q w)" for q
  proof (cases "q = p")
    case True
    with len at1 show ?thesis by (simp add: client_at_def r(5) run_hook_def)
  next
    case False
    then have "client_at q ?w = client_at q ?w1" by (simp add: client_at_def r(5) run_hook_def)
    with t False show ?thesis by (simp add: touched_def)
  qed
  have busy: "busy_client ?w q \<longleftrightarrow> q \<noteq> p \<and> busy_client w q" for q using r p by auto
  have sf: "server_socket_fd ?w = server_socket_fd w" by simp
  have "sock_ok (close_fd fd k) ?w y q" if "sock_ok k w y q" "y \<noteq> fd" for y q
  proof (cases q)
    case (Client_Obj j)
    with that p have "j \<noteq> p" by auto
    with that Client_Obj at [of j] busy [of j] show ?thesis by (simp add: close_fd_def)
  qed (use that sf in \<open>simp add: close_fd_def\<close>)
  with so have "conns_sound (close_fd fd k) ?w" by (auto simp: conns_sound_def close_fd_def)
  moreover have "conns_complete (close_fd fd k) ?w" if co: "conns_complete k w"
  proof -
    have "client_fd (client_at q w) \<noteq> fd" if "q \<noteq> p" "busy_client w q" for q
      using that co i by (auto simp: conns_complete_def)
    with co i at busy show ?thesis by (auto simp: conns_complete_def close_fd_def)
  qed
  moreover have "dom (descriptors (close_fd fd k)) \<subseteq> {0..}" using inv by (auto simp: server_inv_def close_fd_def)
  moreover have "refused (close_fd fd k) = refused k" by (simp add: close_fd_def)
  ultimately have "server_inv (close_fd fd k) ?w" using inv r by (simp add: server_inv_def)
  moreover have "client_release env p w = Inr ?w"
    by (cases "secure env") (use r(1) in \<open>simp_all add: client_release_def\<close>)
  moreover have "tasks (http_part (client_at p ?w)) = tasks (http_part (client_at p w))"
    by (simp add: at clear_https_socket_def clear_socket_def x(2))
  moreover have "secure env \<longrightarrow> tls (client_at p ?w) = None"
    unfolding at [of p] by (simp add: clear_https_socket_def release_tls_none)
  moreover have "client_fd (client_at p ?w) = fd"
    unfolding at [of p] using x(1) p(1) by (simp add: clear_https_socket_def clear_socket_def)
  ultimately show ?thesis using r by (intro exI [of _ ?w]) simp
qed

lemma start_client_inv:
  assumes inv: "server_inv (kern st) (world st)" and a: "acquire (client_class (secure env)) (clients (world st)) = Inr (p, pl)"
    and x: "tasks (http_part x) = tasks (http_part (client_at p (world st)))"
    and r: "start_living_system_io_object (sock_base env) (Client_Obj p)
      (st\<lparr>world := put_client p x ((world st)\<lparr>clients := pl\<rparr>)\<rparr>) = Some (Inr st')"
  shows "server_inv (kern st') (world st')"
proof -
  let ?w = "world st" let ?k = "kern st" let ?w1 = "put_client p x (?w\<lparr>clients := pl\<rparr>)" let ?st1 = "st\<lparr>world := ?w1\<rparr>"
  let ?ev = "sock_events (Client_Obj p)"
  have k: "kernel_ok ?k" "dom (descriptors ?k) \<subseteq> {0..}" "clean_pool (clients ?w)" using inv by (simp_all add: server_inv_def)
  note c = clean_acquire [OF k(3) a]
  have pl: "objs pl = objs (clients ?w)" using c by (simp add: client_class_def run_hook_def)
  have same: "client_at q (?w\<lparr>clients := pl\<rparr>) = client_at q ?w" for q by (simp add: client_at_def pl)
  then have at1: "client_at q ?w1 = (if q = p then x else client_at q ?w)" for q using c by (simp add: client_at_put)
  have w1: "clean_pool (clients ?w1)" "pool_free (clients ?w) = p # pool_free (clients ?w1)" "p < pool_size (clients ?w)"
    "pool_size (clients ?w1) = pool_size (clients ?w)" "server_socket_fd ?w1 = server_socket_fd ?w" using c by simp_all
  obtain fd st2 where g: "client_generate_fd (secure env) p ?st1 = (fd, st2)" by force
  from client_generate_result [OF g] obtain y where y: "world st2 = put_client p y ?w1" by auto
  have at2: "q \<noteq> p \<Longrightarrow> client_at q (world st2) = client_at q ?w" for q using w1 by (simp add: y client_at_put same)
  have inv': "server_inv k' w'" if s: "started fd' (Connection n) (?ev, Client_Obj p) ?k k'"
      and t: "touched p (world st2) w'" and f: "\<not> refused k' \<or> interest k' \<noteq> interest ?k \<Longrightarrow> client_fd (client_at p (world st2)) = fd'"
    for fd' n k' w'
    by (rule started_inv [OF inv s w1(3,2)]) (use t at2 f w1 in \<open>simp_all add: touched_def y\<close>)
  show ?thesis
  proof (cases "fd < 0")
    case True
    with r g have st': "st' = st2" by (simp add: start_living_system_io_object_def)
    from client_generate_result [OF g] True consider "refused (kern st2)" "interest (kern st2) = interest ?k" "descriptors (kern st2) = descriptors ?k"
      | c n where "refused (kern st2)" "interest (kern st2) = interest ?k" "0 \<le> c" "descriptors ?k c = None"
        "descriptors (kern st2) = (descriptors ?k)(c \<mapsto> Connection n)" by auto
    then show ?thesis
    proof cases
      case 1
      then have "started (-1) (Connection 0) (?ev, Client_Obj p) ?k (kern st2)" by (intro started.no_descriptor) simp_all
      from inv' [OF this touched_refl] 1 show ?thesis by (simp add: st')
    next
      case (2 c n)
      then have "started c (Connection n) (?ev, Client_Obj p) ?k (kern st2)" by (intro started.unregistered) simp_all
      from inv' [OF this touched_refl] 2 show ?thesis by (simp add: st')
    qed
  next
    case False
    from client_generate_result [OF g] False obtain n where d: "0 \<le> fd" "descriptors ?k fd = None"
      "descriptors (kern st2) = (descriptors ?k)(fd \<mapsto> Connection n)" "interest (kern st2) = interest ?k"
      "refused (kern st2) = refused ?k" and w2: "world st2 = put_client p (set_client_fd fd x) ?w1"
      using at1 [of p] by auto
    have f2: "client_fd (client_at p (world st2)) = fd" using w1 by (simp add: w2 client_at_put set_client_fd_def)
    obtain e k3 where ad: "epoll_ctl_add fd ?ev (Client_Obj p) (kern st2) = (e, k3)" by force
    from add_result [OF ad, of "Connection n"] d not_open [OF k(1) d(2)] have k3: "descriptors k3 = (descriptors ?k)(fd \<mapsto> Connection n)"
      "interest k3 = interest ?k \<and> refused k3 \<or> interest k3 = (interest ?k)(fd \<mapsto> (?ev, Client_Obj p)) \<and> refused k3 = refused ?k"
      by auto
    then have s3: "started fd (Connection n) (?ev, Client_Obj p) ?k k3"
      using d(1,2) by (auto intro: started.unregistered started.registered)
    from r g False ad obtain ar st3 where act: "client_activate env p (st2\<lparr>kern := k3\<rparr>) = Inr (ar, st3)"
      and fin: "(if ar < 0 then del_fd (sock_base env) fd (Some (Client_Obj p)) st3 else Inr st3) = Inr st'"
      by (auto simp: start_living_system_io_object_def bindP_eq add_fd_def split: if_splits)
    from client_activate_touched [OF act] have t3: "kern st3 = k3" "touched p (world st2) (world st3)" by simp_all
    have inv3: "server_inv k3 (world st3)" by (rule inv' [OF s3 t3(2)]) (rule f2)
    show ?thesis
    proof (cases "ar < 0")
      case True
      have b: "client_fd (client_at p (world st3)) = fd" "busy_client (world st3) p"
        using t3(2) f2 c w1 by (auto simp: touched_def w2)
      have "interest k3 fd = None \<or> (\<exists>ev. interest k3 fd = Some (ev, Client_Obj p))"
        using k3(2) not_open [OF k(1) d(2)] by auto
      from released_inv [OF inv3 b this, of env] obtain w' where
        "client_release env p (world st3) = Inr w'" "server_inv (close_fd fd k3) w'" by blast
      with fin True d(1) t3(1) show ?thesis by (auto simp: del_fd_def Let_def epoll_ctl_del_def close_fd_def)
    qed (use fin inv3 t3 in simp)
  qed
qed

lemma server_read_inv:
  assumes "server_inv (kern st) (world st)" "server_handle_read env st = Some (Inr (r, st'))"
  shows "server_inv (kern st') (world st') \<and> r = 0"
proof -
  from assms(2) obtain p pl where a: "acquire (client_class (secure env)) (clients (world st)) = Inr (p, pl)"
    by (auto simp: server_handle_read_eq bindP_eq)
  have "objs pl = objs (clients (world st))" using acquire_objs_hook [OF a] by (simp add: client_class_def run_hook_def)
  then have at: "client_at p ((world st)\<lparr>clients := pl\<rparr>) = client_at p (world st)" by (simp add: client_at_def)
  let ?x = "client_at p (world st)"
  let ?x1 = "?x\<lparr>http_part := set_server_fd (server_socket_fd (world st)) (http_part ?x)\<rparr>"
  let ?x2 = "if secure env then set_ssl_context (tls_lib env) (server_ctx env) ?x1 else ?x1"
  from assms(2) a at have "r = 0"
    "start_living_system_io_object (sock_base env) (Client_Obj p) (st\<lparr>world := put_client p ?x2 ((world st)\<lparr>clients := pl\<rparr>)\<rparr>) = Some (Inr st')"
    by (auto simp: server_handle_read_eq bindP_eq Let_def)
  moreover have "tasks (http_part ?x2) = tasks (http_part ?x)" by (simp add: set_ssl_context_def set_server_fd_def)
  ultimately show ?thesis using start_client_inv [OF assms(1) a] by blast
qed

end
