(* ===== verification/Server_Props.thy ===== *)
theory Server_Props
  imports Server_Inv
begin

section \<open>What the server keeps and what it loses\<close>

text \<open>
  Every event keeps the invariant of \<open>Server_Inv\<close>; what follows for runs of the server: connections
  and client objects correspond, the hundred and first connection ends the process, and a late answer
  can reach another client.
\<close>

subsection \<open>Every event keeps the invariant\<close>

lemma server_closed_inv:
  assumes "server_inv k w" "interest k fd = Some (ev, Server_Obj)"
  shows "server_inv (close_fd fd k) w"
proof -
  have so: "conns_sound k w" using assms(1) by (simp add: server_inv_def)
  have "sock_ok (close_fd fd k) w x q" if "sock_ok k w x q" "x \<noteq> fd" for x q
    using that by (cases q) (simp_all add: close_fd_def)
  with so have "conns_sound (close_fd fd k) w" by (auto simp: conns_sound_def close_fd_def)
  moreover have "conns_complete (close_fd fd k) w" if "conns_complete k w"
    using that assms(2) by (auto simp: conns_complete_def close_fd_def)
  moreover have "dom (descriptors (close_fd fd k)) \<subseteq> {0..}" using assms(1) by (auto simp: server_inv_def close_fd_def)
  moreover have "refused (close_fd fd k) = refused k" by (simp add: close_fd_def)
  ultimately show ?thesis using assms(1) by (simp add: server_inv_def)
qed

lemma sock_ref_ok: "sock_ok k w fd p \<Longrightarrow> sock_ref_fd p w = fd"
  by (cases p) simp_all

text \<open>Closing a registered descriptor and releasing its object.\<close>

lemma del_inv:
  assumes inv: "server_inv (kern st) (world st)" and i: "interest (kern st) fd = Some (ev, p)"
  shows "\<exists>st'. del_fd (sock_class env) fd (Some p) st = Inr st' \<and> kern st' = close_fd fd (kern st) \<and>
    server_inv (kern st') (world st')"
proof -
  from inv have so: "conns_sound (kern st) (world st)" and k: "kernel_ok (kern st)" "dom (descriptors (kern st)) \<subseteq> {0..}"
    by (simp_all add: server_inv_def)
  have "fd \<in> {0..}" using i k unfolding kernel_ok_def by blast
  then have fd: "fd \<noteq> -1" by auto
  show ?thesis
  proof (cases p)
    case Server_Obj
    with server_closed_inv [OF inv] i fd show ?thesis by (auto simp: del_fd_def Let_def)
  next
    case (Client_Obj q)
    with conns_soundD [OF so i] have "client_fd (client_at q (world st)) = fd" "busy_client (world st) q" by auto
    from released_inv [OF inv this, of env] i Client_Obj obtain w' where
      "client_release env q (world st) = Inr w'" "server_inv (close_fd fd (kern st)) w'" by blast
    with Client_Obj fd show ?thesis by (auto simp: del_fd_def Let_def)
  qed
qed

lemma handled_inv:
  assumes inv: "server_inv (kern st) (world st)" and i: "interest (kern st) fd = Some (ev0, p)"
    and r: "handle_event (sock_class env) (p, ev) st = Some (Inr st')"
  shows "server_inv (kern st') (world st')"
proof -
  have so: "conns_sound (kern st) (world st)" using inv by (simp add: server_inv_def)
  have fd: "sock_ref_fd p (world st) = fd" using conns_soundD [OF so i] by (auto dest: sock_ref_ok)
  have del: "server_inv (kern st') (world st')"
    if "server_inv (kern st1) (world st1)" "interest (kern st1) fd = Some (ev0, p)" "del_fd (sock_class env) fd (Some p) st1 = Inr st'" for st1
    using del_inv [OF that(1,2), of env] that(3) by auto
  show ?thesis
  proof (cases "has_event ev EPOLL_FAILED")
    case True
    with r fd del [OF inv i] show ?thesis by (simp add: handle_event_def Let_def)
  next
    case False
    with r fd obtain r1 st1 where 1: "(if has_event ev EPOLLIN then on_read (sock_class env) p st else Some (Inr (0, st))) = Some (Inr (r1, st1))"
      and c: "(if r1 = -1 then Some (del_fd (sock_class env) fd (Some p) st1) else
        bindP (if has_event ev EPOLLOUT then on_write (sock_class env) p st1 else Some (Inr (0, st1))) (\<lambda>(res, st2).
          if res = -1 then Some (del_fd (sock_class env) fd (Some p) st2) else Some (Inr st2))) = Some (Inr st')"
      by (auto simp: handle_event_def Let_def bindP_eq)
    show ?thesis
    proof (cases p)
      case Server_Obj
      with 1 have "server_inv (kern st1) (world st1) \<and> r1 = 0" using server_read_inv [OF inv] inv by (auto split: if_splits)
      with c Server_Obj show ?thesis by (auto simp: bindP_eq split: if_splits)
    next
      case (Client_Obj q)
      from 1 Client_Obj have "kern st1 = kern st \<and> touched q (world st) (world st1)"
        by (auto dest: client_read_touched split: if_splits)
      with touched_inv [OF inv] i have s1: "server_inv (kern st1) (world st1)" "interest (kern st1) fd = Some (ev0, p)" by auto
      show ?thesis
      proof (cases "r1 = -1")
        case True
        with c del [OF s1] show ?thesis by simp
      next
        case False
        with c obtain r2 st2 where 2: "(if has_event ev EPOLLOUT then on_write (sock_class env) p st1 else Some (Inr (0, st1))) = Some (Inr (r2, st2))"
          and d: "(if r2 = -1 then Some (del_fd (sock_class env) fd (Some p) st2) else Some (Inr st2)) = Some (Inr st')"
          by (auto simp: bindP_eq)
        from 2 Client_Obj have "kern st2 = kern st1 \<and> touched q (world st1) (world st2)"
          by (auto dest: client_write_touched split: if_splits)
        with touched_inv [OF s1(1)] s1(2) have s2: "server_inv (kern st2) (world st2)" "interest (kern st2) fd = Some (ev0, p)" by auto
        with d del [OF s2] show ?thesis by (auto split: if_splits)
      qed
    qed
  qed
qed

lemma write_fd_fields [simp]:
  "descriptors (write_fd fd b k) = descriptors k" "interest (write_fd fd b k) = interest k"
  "refused (write_fd fd b k) = refused k"
  by (simp_all add: write_fd_def split: option.splits descriptor.splits)

lemma written_inv [simp]: "server_inv (write_fd fd b k) w = server_inv k w"
proof -
  have "sock_ok (write_fd fd b k) w x q = sock_ok k w x q" for x q by (cases q) simp_all
  then show ?thesis by (simp add: server_inv_def conns_sound_def conns_complete_def kernel_ok_def)
qed

lemma touched_trans: "touched p w w1 \<Longrightarrow> touched p w1 w2 \<Longrightarrow> touched p w w2"
  by (simp add: touched_def)

lemma answer_touched: "server_inv (kern (answer_client env p b st)) (world (answer_client env p b st)) \<longleftrightarrow>
    server_inv (kern st) (world (answer_client env p b st))"
  "touched p (world st) (world (answer_client env p b st))"
  by (auto simp: answer_client_def https_write_to_socket_io_def intro!: touched_put split: option.splits prod.splits)

lemma run_task_touched:
  assumes "run_client_task env p i st = Inr st'"
  shows "touched p (world st) (world st') \<and> (server_inv (kern st') (world st') \<longleftrightarrow> server_inv (kern st) (world st'))"
proof -
  have ans: ?thesis if "st' = answer_client env p b (st\<lparr>world := put_client p x (world st)\<rparr>)"
    "client_fd x = client_fd (client_at p (world st))" "tls x = tls (client_at p (world st))" for b x
  proof -
    have "touched p (world st) (put_client p x (world st))" using that by (simp add: touched_put)
    with touched_trans answer_touched [where env = env and p = p and b = b and st = "st\<lparr>world := put_client p x (world st)\<rparr>"] that(1) show ?thesis by fastforce
  qed
  let ?x = "client_at p (world st)"
  show ?thesis
  proof (cases "i < length (tasks (http_part ?x))")
    case True
    show ?thesis
    proof (cases "tasks (http_part ?x) ! i")
      case Send_404_Response
      with assms True obtain b where "st' = answer_client env p b (st\<lparr>world := put_client p (set_save_buffer []
          (set_tasks (take i (tasks (http_part ?x)) @ drop (i + 1) (tasks (http_part ?x))) ?x)) (world st)\<rparr>)"
        by (auto simp: run_client_task_def Let_def bindE_eq_Inr)
      then show ?thesis by (rule ans) (simp_all add: set_tasks_def set_save_buffer_def)
    next
      case (Execute_Request rq)
      with assms True show ?thesis
        by (auto simp: run_client_task_def Let_def bindE_eq_Inr set_tasks_def touched_put split: prod.splits)
    next
      case (Write_Response r)
      with assms True have "st' = answer_client env p r (st\<lparr>world := put_client p
          (set_tasks (take i (tasks (http_part ?x)) @ drop (i + 1) (tasks (http_part ?x))) ?x) (world st)\<rparr>)"
        by (simp add: run_client_task_def Let_def)
      then show ?thesis by (rule ans) (simp_all add: set_tasks_def)
    qed
  qed (use assms in \<open>simp add: run_client_task_def touched_def\<close>)
qed

lemma run_task_inv:
  assumes inv: "server_inv (kern st) (world st)" and r: "run_client_task env p i st = Inr st'"
  shows "server_inv (kern st') (world st')"
  using run_task_touched [OF r] touched_inv [OF inv] by blast

lemma server_step_inv:
  "server_inv (kern st) (world st) \<Longrightarrow> server_step env st e = Some (Inr st') \<Longrightarrow> server_inv (kern st') (world st')"
  by (cases e) (auto dest: handled_inv run_task_inv split: option.splits if_splits)

lemma server_run_inv:
  "server_inv (kern st) (world st) \<Longrightarrow> server_run env st es = Some (Inr st') \<Longrightarrow> server_inv (kern st') (world st')"
  by (induction es arbitrary: st) (use server_step_inv in \<open>fastforce simp: bindP_eq\<close>)+

lemma start_server_inv:
  assumes "clean_pool (clients (world st))" "pool_size (clients (world st)) = CLIENT_POOL_SIZE"
    and "set (pool_free (clients (world st))) = {..<CLIENT_POOL_SIZE}" "kern st = new_kernel as"
    and r: "start_server env st = Some (Inr st')"
  shows "server_inv (kern st') (world st')"
proof -
  from r obtain fd st1 where g: "server_generate_fd st = Some (Inr (fd, st1))"
    by (auto simp: start_server_def start_living_system_io_object_def bindP_eq)
  note n = server_generate_result [OF g]
  with r g have st': "st' = add_fd (sock_base env) fd Server_Obj st1"
    by (auto simp: start_server_def start_living_system_io_object_def bindP_eq)
  obtain e k2 where a: "epoll_ctl_add fd EPOLLIN Server_Obj (kern st1) = (e, k2)" by force
  from add_result [OF a, of Listening_Fd] n assms(4) have k2: "descriptors k2 = [fd \<mapsto> Listening_Fd]"
    "interest k2 = (\<lambda>_. None) \<and> refused k2 \<or> interest k2 = [fd \<mapsto> (EPOLLIN, Server_Obj)]"
    by (auto simp: new_kernel_def)
  have w: "kern st' = k2" "world st' = (world st)\<lparr>server_socket_fd := fd\<rparr>" using st' a n by (simp_all add: add_fd_def)
  have "\<not> busy_client (world st') p" for p using assms(2,3) by (auto simp: w)
  with k2 n assms(1,2) show ?thesis
    by (auto simp: server_inv_def kernel_ok_def conns_sound_def conns_complete_def w split: if_splits)
qed

subsection \<open>Connections and client objects\<close>

definition new_server_system :: "int list \<Rightarrow> ('d, 's) https_client_socket list \<Rightarrow> string option list list \<Rightarrow> 'a \<Rightarrow>
    ('d, 's, 'a) server_system" where
  "new_server_system as cs inc s = \<lparr>kern = new_kernel as,
     world = \<lparr>clients = new_pool cs, server_socket_fd = -1, incoming = inc, app = s\<rparr>\<rparr>"

definition connections :: "sock_ref kernel \<Rightarrow> int set" where
  "connections k = {fd. \<exists>ev p. interest k fd = Some (ev, Client_Obj p)}"

lemma new_server_inv:
  assumes "length cs = CLIENT_POOL_SIZE" "start_server env (new_server_system as cs inc s) = Some (Inr st0)"
    and "server_run env st0 es = Some (Inr st)"
  shows "server_inv (kern st) (world st)"
proof (rule server_run_inv [OF _ assms(3)])
  from assms(1) have "cs \<noteq> []" "length cs < 2 ^ 64" by (auto simp: CLIENT_POOL_SIZE_def)
  from new_pool_ok [OF this] have "clean_pool (new_pool cs)"
    by (simp add: clean_pool_def new_pool_free new_pool_size atLeast0LessThan) (simp add: new_pool_def)
  then show "server_inv (kern st0) (world st0)"
    by (intro start_server_inv [OF _ _ _ _ assms(2)])
      (use assms(1) in \<open>auto simp: new_server_system_def new_pool_size new_pool_free\<close>)
qed

lemma connection_count:
  assumes inv: "server_inv k w" and r: "\<not> refused k"
  shows "card (connections k) + length (pool_free (clients w)) = CLIENT_POOL_SIZE"
proof -
  have so: "conns_sound k w" and c: "clean_pool (clients w)" and n: "pool_size (clients w) = CLIENT_POOL_SIZE"
    and co: "conns_complete k w" using inv r by (simp_all add: server_inv_def)
  let ?fd = "\<lambda>p. client_fd (client_at p w)"
  let ?B = "{..<CLIENT_POOL_SIZE} - set (pool_free (clients w))"
  have reg: "interest k (?fd p) = Some (sock_events (Client_Obj p), Client_Obj p)" if "p \<in> ?B" for p
  proof -
    from that n have "busy_client w p" by simp
    with co show ?thesis unfolding conns_complete_def by blast
  qed
  have "inj_on ?fd ?B"
  proof (rule inj_onI)
    fix p q assume p: "p \<in> ?B" and q: "q \<in> ?B" and e: "?fd p = ?fd q"
    from reg [OF p] reg [OF q] show "p = q" unfolding e by simp
  qed
  moreover have "connections k = ?fd ` ?B"
  proof
    show "connections k \<subseteq> ?fd ` ?B"
    proof
      fix fd assume "fd \<in> connections k"
      then obtain ev p where "interest k fd = Some (ev, Client_Obj p)" by (auto simp: connections_def)
      with conns_soundD [OF so this] n show "fd \<in> ?fd ` ?B" by auto
    qed
    show "?fd ` ?B \<subseteq> connections k" using reg unfolding connections_def by blast
  qed
  ultimately have "card (connections k) = card ?B" by (simp add: card_image)
  moreover have "set (pool_free (clients w)) \<subseteq> {..<CLIENT_POOL_SIZE}" "distinct (pool_free (clients w))"
    using c n by (simp_all add: clean_pool_def)
  then have "card ?B + length (pool_free (clients w)) = CLIENT_POOL_SIZE"
    using card_mono [of "{..<CLIENT_POOL_SIZE}" "set (pool_free (clients w))"] by (simp add: card_Diff_subset distinct_card)
  ultimately show ?thesis by simp
qed

text \<open>
  C37: however connections come, are read, fail, are answered and close, each connection in the epoll set
  belongs to one client object that is out of the pool and holds its descriptor. As long as the
  kernel has refused nothing, no other descriptor is open, and connections and free objects add up
  to the 100 objects of the pool: nothing leaks.
\<close>

theorem server_connections_exact:
  assumes "length cs = CLIENT_POOL_SIZE" "start_server env (new_server_system as cs inc s) = Some (Inr st0)"
    and "server_run env st0 es = Some (Inr st)"
  shows "(\<forall>fd ev p. interest (kern st) fd = Some (ev, Client_Obj p) \<longrightarrow> busy_client (world st) p \<and>
      client_fd (client_at p (world st)) = fd \<and> (\<exists>n. descriptors (kern st) fd = Some (Connection n))) \<and>
    (\<not> refused (kern st) \<longrightarrow> dom (descriptors (kern st)) = dom (interest (kern st)) \<and>
      card (connections (kern st)) + length (pool_free (clients (world st))) = CLIENT_POOL_SIZE)"
proof -
  note inv = new_server_inv [OF assms]
  then have "kernel_ok (kern st)" and so: "conns_sound (kern st) (world st)" by (simp_all add: server_inv_def)
  then have "\<not> refused (kern st) \<longrightarrow> dom (descriptors (kern st)) = dom (interest (kern st))"
    using inv unfolding server_inv_def conns_complete_def kernel_ok_def by blast
  moreover have "busy_client (world st) p \<and> client_fd (client_at p (world st)) = fd \<and> (\<exists>n. descriptors (kern st) fd = Some (Connection n))"
    if "interest (kern st) fd = Some (ev, Client_Obj p)" for fd ev p using conns_soundD [OF so that] by simp
  ultimately show ?thesis using connection_count [OF inv] by blast
qed

subsection \<open>A full server\<close>

lemma client_generate_world: "client_generate_fd sec p st = (fd, st') \<Longrightarrow>
    \<exists>c. world st' = put_client p (set_client_fd c (client_at p (world st))) (world st)"
  by (auto simp: client_generate_fd_def Let_def split: prod.splits if_splits)

lemma client_release_total: "\<exists>w'. client_release env p w = Inr w'"
  by (auto simp: client_release_def release_def Let_def split: prod.splits)

lemma start_client_total:
  assumes "clean_pool (clients (world st))" "p < pool_size (clients (world st))"
    and "secure env \<longrightarrow> tls (client_at p (world st)) \<noteq> None"
  shows "\<exists>st'. start_living_system_io_object (sock_base env) (Client_Obj p) st = Some (Inr st')"
proof -
  obtain fd st1 where g: "client_generate_fd (secure env) p st = (fd, st1)" by force
  from client_generate_world [OF g] obtain c where w: "world st1 = put_client p (set_client_fd c (client_at p (world st))) (world st)" by blast
  have "world (add_fd (sock_base env) fd (Client_Obj p) st1) = world st1" by (simp add: add_fd_def)
  moreover have "secure env \<longrightarrow> tls (client_at p (world st1)) \<noteq> None" using assms by (simp add: w client_at_put set_client_fd_def)
  ultimately have "\<exists>r st2. client_activate env p (add_fd (sock_base env) fd (Client_Obj p) st1) = Inr (r, st2)"
    by (auto simp: client_activate_def https_activate_def split: prod.splits)
  moreover have "\<exists>st'. del_fd (sock_base env) fd (Some (Client_Obj p)) st2 = Inr st'" for st2
    using client_release_total [of env p "world st2"] by (auto simp: del_fd_def Let_def)
  ultimately show ?thesis using g by (fastforce simp: start_living_system_io_object_def)
qed

lemma server_readable: "server_inv (kern st) (world st) \<Longrightarrow> interest (kern st) fd = Some (ev, Server_Obj) \<Longrightarrow>
    server_step env st (Report fd EPOLLIN) = bindP (server_handle_read env st) (\<lambda>(r, st'). Some (Inr st'))"
proof -
  assume inv: "server_inv (kern st) (world st)" and i: "interest (kern st) fd = Some (ev, Server_Obj)"
  from inv have so: "conns_sound (kern st) (world st)" by (simp add: server_inv_def)
  from conns_soundD [OF so i] have "ev = EPOLLIN" "server_socket_fd (world st) = fd" by auto
  with i have "may_report (kern st) fd EPOLLIN" by (simp add: may_report_def EPOLLIN_def EPOLLERR_def EPOLLHUP_def)
  with i have "server_step env st (Report fd EPOLLIN) = handle_event (sock_class env) (Server_Obj, EPOLLIN) st" by simp
  moreover have "handle_event (sock_class env) (Server_Obj, EPOLLIN) st = bindP (server_handle_read env st) (\<lambda>(r, st'). Some (Inr st'))"
    using server_read_inv [OF inv, of env] by (auto simp: handle_event_def bindP_def Let_def split: option.splits sum.splits)
  ultimately show ?thesis by simp
qed

text \<open>
  C38: while the kernel refuses nothing, a connection request is the end of the server exactly if 100
  connections are open: the pool throws, nothing between the accepting socket and \<open>main\<close>
  catches it, and the loop is left. With fewer connections it is handled without error.
\<close>

theorem full_server_dies:
  assumes "length cs = CLIENT_POOL_SIZE" "start_server env (new_server_system as cs inc s) = Some (Inr st0)"
    and "server_run env st0 es = Some (Inr st)" "\<not> refused (kern st)" "interest (kern st) fd = Some (ev, Server_Obj)"
  shows "if card (connections (kern st)) < CLIENT_POOL_SIZE then \<exists>st'. server_step env st (Report fd EPOLLIN) = Some (Inr st')
    else server_step env st (Report fd EPOLLIN) = Some (Inl (Throw (Runtime_Error
      (''No available items in cache pool: ['' @ (if secure env then ''HttpsClientSocket'' else ''HttpClientSocket'') @ '']''))))"
proof -
  note inv = new_server_inv [OF assms(1-3)]
  note step = server_readable [OF inv assms(5), of env]
  have c: "clean_pool (clients (world st))" "pool_size (clients (world st)) = CLIENT_POOL_SIZE" using inv by (simp_all add: server_inv_def)
  show ?thesis
  proof (cases "pool_free (clients (world st))")
    case Nil
    then have "length (pool_free (clients (world st))) = 0" by simp
    then have "free_cnt (clients (world st)) = 0" by (simp add: pool_free_def)
    with connection_count [OF inv assms(4)] Nil show ?thesis
      unfolding step by (simp add: server_handle_read_eq acquire_def client_class_def)
  next
    case (Cons p xs)
    have "pool_ok (clients (world st))" using c by (simp add: clean_pool_def)
    from acquire_ok [OF this Cons] obtain pl where a: "acquire (client_class (secure env)) (clients (world st)) = Inr (p, pl)" by blast
    note pl = clean_acquire [OF c(1) a]
    let ?w1 = "(world st)\<lparr>clients := pl\<rparr>" let ?x = "client_at p ?w1"
    let ?x1 = "?x\<lparr>http_part := set_server_fd (server_socket_fd (world st)) (http_part ?x)\<rparr>"
    let ?x2 = "if secure env then set_ssl_context (tls_lib env) (server_ctx env) ?x1 else ?x1"
    have "\<exists>st'. start_living_system_io_object (sock_base env) (Client_Obj p) (st\<lparr>world := put_client p ?x2 ?w1\<rparr>) = Some (Inr st')"
      by (rule start_client_total) (use pl in \<open>simp_all add: client_at_put set_ssl_context_def\<close>)
    then have "\<exists>st'. server_handle_read env st = Some (Inr (0, st'))" using a by (auto simp: server_handle_read_eq Let_def)
    with Cons connection_count [OF inv assms(4)] show ?thesis unfolding step by auto
  qed
qed

subsection \<open>Late answers\<close>

lemma client_at_app [simp]: "client_at p (w\<lparr>app := s\<rparr>) = client_at p w" "client_at p (w\<lparr>incoming := i\<rparr>) = client_at p w"
  by (simp_all add: client_at_def)

lemma server_fd_set [simp]: "server_fd (set_server_fd fd h) = fd"
  by (simp add: set_server_fd_def)

lemma bindP_Some: "bindP (Some (Inr x)) f = f x"
  by (simp add: bindP_def)

text \<open>A connection accepted by a plain server, when the kernel refuses nothing.\<close>

lemma accept_plain:
  assumes inv: "server_inv (kern st) (world st)" and i: "interest (kern st) lfd = Some (lev, Server_Obj)" and s: "\<not> secure env"
    and a: "answers (kern st) = fd # 0 # 0 # later" and fd: "0 \<le> fd" "descriptors (kern st) fd = None"
    and q: "pool_free (clients (world st)) = q # xs"
  shows "\<exists>st'. server_step env st (Report lfd EPOLLIN) = Some (Inr st') \<and>
    kern st' = (kern st)\<lparr>answers := later, descriptors := (descriptors (kern st))(fd \<mapsto> Connection (accepted (kern st))),
      accepted := accepted (kern st) + 1, interest := (interest (kern st))(fd \<mapsto> (sock_events (Client_Obj q), Client_Obj q))\<rparr> \<and>
    pool_free (clients (world st')) = xs \<and> app (world st') = app (world st) \<and> incoming (world st') = incoming (world st) \<and>
    tasks (http_part (client_at q (world st'))) = tasks (http_part (client_at q (world st))) \<and>
    save_buffer (http_part (client_at q (world st'))) = save_buffer (http_part (client_at q (world st))) \<and>
    (\<forall>p. p \<noteq> q \<longrightarrow> client_at p (world st') = client_at p (world st)) \<and>
    server_inv (kern st') (world st') \<and> pool_size (clients (world st')) = pool_size (clients (world st))"
proof -
  let ?k = "kern st" let ?w = "world st"
  have c: "clean_pool (clients ?w)" "pool_size (clients ?w) = CLIENT_POOL_SIZE" and so: "conns_sound ?k ?w" and k: "kernel_ok ?k"
    using inv by (simp_all add: server_inv_def)
  from conns_soundD [OF so i] have l: "server_socket_fd ?w = lfd" "descriptors ?k lfd = Some Listening_Fd" by auto
  have n: "interest ?k fd = None" by (rule not_open [OF k fd(2)])
  have "pool_ok (clients ?w)" using c by (simp add: clean_pool_def)
  from acquire_ok [OF this q] obtain pl where aq: "acquire (client_class (secure env)) (clients ?w) = Inr (q, pl)" by blast
  note pl = clean_acquire [OF c(1) aq]
  have ob: "client_at p (?w\<lparr>clients := pl\<rparr>) = client_at p ?w" for p
    using pl by (simp add: client_at_def client_class_def run_hook_def)
  let ?x = "client_at q ?w" let ?x1 = "?x\<lparr>http_part := set_server_fd lfd (http_part ?x)\<rparr>"
  let ?w1 = "put_client q ?x1 (?w\<lparr>clients := pl\<rparr>)" let ?w2 = "put_client q (set_client_fd fd ?x1) (?w\<lparr>clients := pl\<rparr>)"
  let ?c = "Connection (accepted ?k)" let ?e = "(sock_events (Client_Obj q), Client_Obj q)"
  let ?k1 = "?k\<lparr>answers := 0 # 0 # later, descriptors := (descriptors ?k)(fd \<mapsto> ?c), accepted := accepted ?k + 1\<rparr>"
  let ?k3 = "?k1\<lparr>answers := later, interest := (interest ?k)(fd \<mapsto> ?e)\<rparr>"
  have "accept_connection lfd ?k = (fd, ?k1)" using a fd l by (auto simp: accept_connection_def new_fd_def answer_of_def)
  then have g: "client_generate_fd (secure env) q (st\<lparr>world := ?w1\<rparr>) = (fd, st\<lparr>kern := ?k1\<lparr>answers := 0 # later\<rparr>, world := ?w2\<rparr>)"
    using pl s fd by (simp add: client_generate_fd_def client_at_put Let_def answer_of_def)
  have e: "epoll_ctl_add fd (sock_events (Client_Obj q)) (Client_Obj q) (?k1\<lparr>answers := 0 # later\<rparr>) = (0, ?k3)"
    using n by (simp add: epoll_ctl_add_def answer_of_def)
  let ?st = "st\<lparr>kern := ?k3, world := ?w2\<rparr>"
  have "start_living_system_io_object (sock_base env) (Client_Obj q) (st\<lparr>world := ?w1\<rparr>) = Some (Inr ?st)"
    using g e fd s by (simp add: start_living_system_io_object_def add_fd_def client_activate_def)
  then have r: "server_handle_read env st = Some (Inr (0, ?st))"
    using aq s l ob by (simp add: server_handle_read_eq Let_def)
  have "server_step env st (Report lfd EPOLLIN) = Some (Inr ?st)"
    unfolding server_readable [OF inv i] using r by simp
  moreover have "client_at p ?w2 = client_at p ?w" if "p \<noteq> q" for p using that pl ob by (simp add: client_at_put)
  moreover have "server_inv ?k3 ?w2" using server_read_inv [OF inv r] by simp
  moreover have "client_at q ?w2 = set_client_fd fd ?x1" using pl by (simp add: client_at_put)
  ultimately show ?thesis using pl q by (intro exI [of _ ?st]) (simp add: set_client_fd_def set_server_fd_def)
qed

text \<open>What a pending coroutine will write, and the steps it takes to its end when nothing comes between them.\<close>

definition task_response :: "('c, 's, 'd, 'a) server_env \<Rightarrow> 'd socket_task \<Rightarrow> 'a \<Rightarrow> string result" where
  "task_response env t s = (case t of
     Send_404_Response \<Rightarrow> get_response_in_string (env_platform env) (response_not_found_404 (env_routes env) None)
   | Execute_Request rq \<Rightarrow> snd (handle_request_base_on_route (env_platform env) (env_files env) (env_routes env) rq s)
   | Write_Response response \<Rightarrow> Inr response)"

primrec task_steps :: "'d socket_task \<Rightarrow> nat" where
  "task_steps Send_404_Response = 1"
| "task_steps (Execute_Request rq) = 2"
| "task_steps (Write_Response response) = 1"

lemma task_runs:
  assumes c: "clean_pool (clients (world st))" "p < pool_size (clients (world st))" and s: "\<not> secure env"
    and t: "i < length (tasks (http_part (client_at p (world st))))" "tasks (http_part (client_at p (world st))) ! i = t"
    and r: "task_response env t (app (world st)) = Inr response"
  shows "\<exists>st'. server_run env st (replicate (task_steps t) (Run_Task p i)) = Some (Inr st') \<and>
    kern st' = write_fd (client_fd (client_at p (world st))) response (kern st)"
proof (cases t)
  case Send_404_Response
  with assms show ?thesis
    by (simp add: run_client_task_def answer_client_def task_response_def Let_def client_at_put set_tasks_def set_save_buffer_def)
next
  case (Execute_Request rq)
  obtain s' where h: "handle_request_base_on_route (env_platform env) (env_files env) (env_routes env) rq (app (world st)) = (s', Inr response)"
    using r Execute_Request by (cases "handle_request_base_on_route (env_platform env) (env_files env) (env_routes env) rq (app (world st))")
      (simp add: task_response_def)
  let ?x = "client_at p (world st)" let ?x1 = "set_tasks ((tasks (http_part ?x))[i := Write_Response response]) ?x"
  let ?st1 = "st\<lparr>world := (put_client p ?x1 (world st))\<lparr>app := s'\<rparr>\<rparr>"
  have 1: "run_client_task env p i st = Inr ?st1" using t h Execute_Request by (simp add: run_client_task_def Let_def)
  have at: "client_at p (put_client p ?x1 (world st)) = ?x1" using c by (simp add: client_at_put)
  obtain st' where 2: "run_client_task env p i ?st1 = Inr st'" "kern st' = write_fd (client_fd ?x) response (kern st)"
    using t s c at by (simp add: run_client_task_def Let_def answer_client_def set_tasks_def client_at_put)
  have "pool_size (clients (put_client p ?x1 (world st))) = pool_size (clients (world st))" by (simp add: put_client_def)
  with 1 2 c(2) Execute_Request show ?thesis by (simp add: numeral_2_eq_2)
next
  case (Write_Response b)
  with assms show ?thesis
    by (simp add: run_client_task_def answer_client_def task_response_def Let_def client_at_put set_tasks_def)
qed

text \<open>
  C39: on a plain HTTP server an answer can go to the wrong client. When a connection breaks while a coroutine is still to
  answer it, the object is released but the coroutine keeps it, with the number of the closed descriptor. If
  the kernel gives that number to the next connection, the response is written to that one,
  although it has another client object. (An HTTPS client deletes its wrapper when it is released, see
  \<open>late_tls_answer_dropped\<close>.)
\<close>

theorem late_answer_misdelivered:
  assumes "length cs = CLIENT_POOL_SIZE" "start_server env (new_server_system as cs inc s) = Some (Inr st0)"
    and "server_run env st0 es = Some (Inr st)" "\<not> secure env" "pool_free (clients (world st)) \<noteq> []"
    and "interest (kern st) fd = Some (ev, Client_Obj p)"
    and "i < length (tasks (http_part (client_at p (world st))))" "tasks (http_part (client_at p (world st))) ! i = t"
    and "interest (kern st) lfd = Some (lev, Server_Obj)" "answers (kern st) = fd # 0 # 0 # later"
    and "task_response env t (app (world st)) = Inr response"
  shows "\<exists>st' q. server_run env st ([Report fd EPOLLRDHUP, Report lfd EPOLLIN] @ replicate (task_steps t) (Run_Task p i)) = Some (Inr st') \<and>
    q \<noteq> p \<and> interest (kern st') fd = Some (EPOLLIN OR EPOLL_FAILED, Client_Obj q) \<and>
    descriptors (kern st') fd = Some (Connection (accepted (kern st))) \<and>
    written (kern st') = written (kern st) @ [(accepted (kern st), response)]"
proof -
  let ?k = "kern st" let ?w = "world st"
  note inv = new_server_inv [OF assms(1-3)]
  then have k: "kernel_ok ?k" "dom (descriptors ?k) \<subseteq> {0..}" "clean_pool (clients ?w)" and so: "conns_sound ?k ?w"
    by (simp_all add: server_inv_def)
  from conns_soundD [OF so assms(6)] have p: "client_fd (client_at p ?w) = fd" "busy_client ?w p"
    and ev: "ev = EPOLLIN OR EPOLL_FAILED" by auto
  have "fd \<in> {0..}" using assms(6) k unfolding kernel_ok_def by blast
  then have fd: "0 \<le> fd" "fd \<noteq> -1" by auto
  from released_inv [OF inv p, of env] assms(6) obtain w' where
    w': "client_release env p ?w = Inr w'" "server_inv (close_fd fd ?k) w'" "pool_free (clients w') = pool_free (clients ?w) @ [p]"
      "pool_size (clients w') = pool_size (clients ?w)" "tasks (http_part (client_at p w')) = tasks (http_part (client_at p ?w))" "app w' = app ?w"
      "client_fd (client_at p w') = fd" by auto
  let ?st1 = "st\<lparr>kern := close_fd fd ?k, world := w'\<rparr>"
  have "may_report ?k fd EPOLLRDHUP" 
    by (simp add: may_report_def assms(6) ev EPOLLRDHUP_def EPOLL_FAILED_def EPOLLIN_def EPOLLERR_def EPOLLHUP_def)
  moreover have "has_event EPOLLRDHUP EPOLL_FAILED"
    by (simp add: has_event_def EPOLLRDHUP_def EPOLL_FAILED_def EPOLLERR_def EPOLLHUP_def)
  ultimately have 1: "server_step env st (Report fd EPOLLRDHUP) = Some (Inr ?st1)"
    using assms(6) p fd w' by (simp add: handle_event_def Let_def del_fd_def)
  from assms(5) obtain q xs where q: "pool_free (clients ?w) = q # xs" by (cases "pool_free (clients ?w)") auto
  with p have qp: "q \<noteq> p" by auto
  have l: "interest (kern ?st1) lfd = Some (lev, Server_Obj)" using assms(6,9) by (auto simp: close_fd_def)
  from accept_plain [of ?st1 lfd lev env fd later q "xs @ [p]"] w' l fd assms(4,10) q obtain st2 where
    2: "server_step env ?st1 (Report lfd EPOLLIN) = Some (Inr st2)" "interest (kern st2) fd = Some (EPOLLIN OR EPOLL_FAILED, Client_Obj q)"
      "descriptors (kern st2) fd = Some (Connection (accepted ?k))" "written (kern st2) = written ?k" "app (world st2) = app ?w"
      "client_at p (world st2) = client_at p w'" "server_inv (kern st2) (world st2)" "pool_size (clients (world st2)) = pool_size (clients ?w)"
    using qp by (auto simp: close_fd_def)
  let ?x = "client_at p (world st2)"
  have c: "clean_pool (clients (world st2))" using 2 by (simp add: server_inv_def)
  have "p < pool_size (clients (world st2))" using 2(8) p by simp
  from task_runs [OF c this assms(4), of i t response] 2(5,6) w' assms(7,8,11) qp obtain st' where
    3: "server_run env st2 (replicate (task_steps t) (Run_Task p i)) = Some (Inr st')" "kern st' = write_fd fd response (kern st2)" by auto
  have "server_run env st ([Report fd EPOLLRDHUP, Report lfd EPOLLIN] @ replicate (task_steps t) (Run_Task p i)) = Some (Inr st')"
    by (simp only: append_Cons append_Nil server_run.simps 1 2(1) 3(1) bindP_Some)
  with 3 2 qp show ?thesis by (intro exI [of _ st'] exI [of _ q]) (simp add: write_fd_def)
qed

text \<open>On an HTTPS server the released object has no wrapper any more, and the late response goes nowhere unless the object is reused.\<close>

lemma late_tls_answer_dropped:
  assumes "secure env" "client_release env p w = Inr w'" "p < length (objs (clients w))"
  shows "answer_client env p response (st\<lparr>world := w'\<rparr>) = st\<lparr>world := w'\<rparr>"
proof -
  have "tls (client_at p w') = None"
    using assms
    by (auto simp: client_release_def bindE_eq_Inr Let_def release_tls_def client_class_def client_at_def put_client_def clear_https_socket_def
        release_def run_hook_def pool_tail_def split: option.splits if_splits prod.splits)
  moreover have "put_client p (client_at p w') w' = w'" by (simp add: put_client_def client_at_def)
  ultimately show ?thesis using assms(1) by (simp add: answer_client_def https_write_to_socket_io_def)
qed

subsection \<open>A run\<close>

definition demo_env :: "(unit, unit, int, nat) server_env" where
  "demo_env = \<lparr>secure = False, tls_lib = no_files, server_ctx = None, env_platform = demo_platform, env_files = (\<lambda>_. None),
     env_routes = empty_controller, parse_fuel = 0\<rparr>"

definition demo_clients :: "(int, unit) https_client_socket list" where
  "demo_clients = replicate CLIENT_POOL_SIZE \<lparr>http_part = idle_socket, own_server_fd = 0, tls = None\<rparr>"

text \<open>The kernel hands out descriptor 3 to the server; then it gives \<open>as\<close>.\<close>

abbreviation demo_server :: "int list \<Rightarrow> string option list list \<Rightarrow> (int, unit, nat) server_system" where
  "demo_server as inc \<equiv> new_server_system ([3, 0, 0, 0, 0] @ as) demo_clients inc 0"

lemma demo_started:
  "\<exists>st0. start_server demo_env (demo_server as inc) = Some (Inr st0) \<and> server_inv (kern st0) (world st0) \<and>
     interest (kern st0) = [3 \<mapsto> (EPOLLIN, Server_Obj)] \<and> descriptors (kern st0) = [3 \<mapsto> Listening_Fd] \<and>
     answers (kern st0) = as \<and> accepted (kern st0) = 0 \<and> written (kern st0) = [] \<and> \<not> refused (kern st0) \<and>
     pool_free (clients (world st0)) = [0..<CLIENT_POOL_SIZE] \<and> incoming (world st0) = inc \<and> app (world st0) = 0 \<and>
     client_at 0 (world st0) = \<lparr>http_part = idle_socket, own_server_fd = 0, tls = None\<rparr>"
proof -
  have n: "length demo_clients = CLIENT_POOL_SIZE" by (simp add: demo_clients_def)
  obtain st0 where s: "start_server demo_env (demo_server as inc) = Some (Inr st0)"
    and r: "interest (kern st0) = [3 \<mapsto> (EPOLLIN, Server_Obj)]" "descriptors (kern st0) = [3 \<mapsto> Listening_Fd]" "answers (kern st0) = as"
      "accepted (kern st0) = 0" "written (kern st0) = []" "\<not> refused (kern st0)" "clients (world st0) = new_pool demo_clients"
      "incoming (world st0) = inc" "app (world st0) = 0"
    by (simp add: start_server_def start_living_system_io_object_def server_generate_fd_def new_server_system_def new_kernel_def
        new_fd_def answer_of_def add_fd_def epoll_ctl_add_def)
  have "client_at 0 (world st0) = \<lparr>http_part = idle_socket, own_server_fd = 0, tls = None\<rparr>"
    by (simp add: client_at_def r new_pool_def demo_clients_def CLIENT_POOL_SIZE_def)
  with new_server_inv [OF n s, of "[]"] s r n show ?thesis by (simp add: new_pool_free)
qed

lemma server_run_append: "server_run env st (xs @ ys) = bindP (server_run env st xs) (\<lambda>st'. server_run env st' ys)"
  by (induction xs arbitrary: st) (auto simp: bindP_def split: option.splits sum.splits)

lemma demo_full:
  "n \<le> CLIENT_POOL_SIZE \<Longrightarrow> \<exists>st0 st. start_server demo_env (demo_server (concat (map (\<lambda>i. [4 + int i, 0, 0]) [0..<n]) @ as) inc) = Some (Inr st0) \<and>
     server_run demo_env st0 (replicate n (Report 3 EPOLLIN)) = Some (Inr st) \<and> \<not> refused (kern st) \<and>
     interest (kern st) 3 = Some (EPOLLIN, Server_Obj) \<and> answers (kern st) = as \<and> accepted (kern st) = n \<and>
     (\<forall>x \<ge> 4 + int n. descriptors (kern st) x = None) \<and> pool_free (clients (world st)) = [n..<CLIENT_POOL_SIZE]"
proof (induction n arbitrary: as)
  case 0
  from demo_started [of as inc] show ?case by fastforce
next
  case (Suc n)
  let ?as = "concat (map (\<lambda>i. [4 + int i, 0, 0]) [0..<n]) @ [4 + int n, 0, 0] @ as"
  from Suc.IH [of "[4 + int n, 0, 0] @ as"] Suc.prems obtain st0 st where
    s: "start_server demo_env (demo_server ?as inc) = Some (Inr st0)" "server_run demo_env st0 (replicate n (Report 3 EPOLLIN)) = Some (Inr st)"
    and st: "\<not> refused (kern st)" "interest (kern st) 3 = Some (EPOLLIN, Server_Obj)" "answers (kern st) = (4 + int n) # 0 # 0 # as"
      "accepted (kern st) = n" "\<forall>x \<ge> 4 + int n. descriptors (kern st) x = None" "pool_free (clients (world st)) = [n..<CLIENT_POOL_SIZE]"
    by auto
  have inv: "server_inv (kern st) (world st)" by (rule new_server_inv [OF _ s]) (simp add: demo_clients_def)
  have f: "pool_free (clients (world st)) = n # [Suc n..<CLIENT_POOL_SIZE]" using st(6) Suc.prems by (simp add: upt_conv_Cons)
  from accept_plain [OF inv st(2) _ st(3) _ _ f, of demo_env] st obtain st' where
    a: "server_step demo_env st (Report 3 EPOLLIN) = Some (Inr st')"
      "kern st' = (kern st)\<lparr>answers := as, descriptors := (descriptors (kern st))(4 + int n \<mapsto> Connection n), accepted := n + 1,
        interest := (interest (kern st))(4 + int n \<mapsto> (sock_events (Client_Obj n), Client_Obj n))\<rparr>"
      "pool_free (clients (world st')) = [Suc n..<CLIENT_POOL_SIZE]" by (auto simp: demo_env_def)
  have "server_run demo_env st0 (replicate (Suc n) (Report 3 EPOLLIN)) = Some (Inr st')"
    unfolding replicate_Suc replicate_append_same [symmetric] server_run_append s(2) bindP_Some server_run.simps a(1) by simp
  moreover have "concat (map (\<lambda>i. [4 + int i, 0, 0]) [0..<Suc n]) @ as = ?as" by simp
  ultimately show ?case using s(1) st a(2,3) by (intro exI [of _ st0] exI [of _ st']) (simp del: server_run.simps)
qed

theorem server_connections_exact_witness:
  "\<exists>st0 st. start_server demo_env (demo_server [4, 0, 0] []) = Some (Inr st0) \<and>
     server_run demo_env st0 [Report 3 EPOLLIN] = Some (Inr st) \<and> card (connections (kern st)) = 1"
proof -
  from demo_full [of 1 "[]" "[]"] obtain st0 st where s: "start_server demo_env (demo_server [4, 0, 0] []) = Some (Inr st0)"
    "server_run demo_env st0 [Report 3 EPOLLIN] = Some (Inr st)" "\<not> refused (kern st)" "length (pool_free (clients (world st))) = 99"
    by (auto simp: CLIENT_POOL_SIZE_def)
  with server_connections_exact [OF _ s(1,2)] have "card (connections (kern st)) + 99 = 100"
    by (simp add: demo_clients_def CLIENT_POOL_SIZE_def)
  with s show ?thesis by auto
qed

theorem full_server_dies_witness:
  "\<exists>as st0 st. start_server demo_env (demo_server as []) = Some (Inr st0) \<and>
     server_run demo_env st0 (replicate 100 (Report 3 EPOLLIN)) = Some (Inr st) \<and>
     server_step demo_env st (Report 3 EPOLLIN) =
       Some (Inl (Throw (Runtime_Error ''No available items in cache pool: [HttpClientSocket]'')))"
proof -
  let ?as = "concat (map (\<lambda>i. [4 + int i, 0, 0]) [0..<CLIENT_POOL_SIZE]) @ []"
  from demo_full [of CLIENT_POOL_SIZE "[]" "[]"] obtain st0 st where s: "start_server demo_env (demo_server ?as []) = Some (Inr st0)"
    "server_run demo_env st0 (replicate CLIENT_POOL_SIZE (Report 3 EPOLLIN)) = Some (Inr st)" "\<not> refused (kern st)"
    "interest (kern st) 3 = Some (EPOLLIN, Server_Obj)" "pool_free (clients (world st)) = []" by auto
  have n: "length demo_clients = CLIENT_POOL_SIZE" by (simp add: demo_clients_def)
  from connection_count [OF new_server_inv [OF n s(1,2)] s(3)] s(5) have "\<not> card (connections (kern st)) < CLIENT_POOL_SIZE" by simp
  with full_server_dies [OF n s(1-4)] have "server_step demo_env st (Report 3 EPOLLIN) =
      Some (Inl (Throw (Runtime_Error ''No available items in cache pool: [HttpClientSocket]'')))"
    by (simp add: demo_env_def del: server_step.simps)
  with s(1,2) show ?thesis unfolding CLIENT_POOL_SIZE_def by blast
qed

text \<open>An empty message makes a 404 answer pending; then the connection breaks and another client comes.\<close>

theorem late_answer_misdelivered_witness:
  "\<exists>st0 st st' response. start_server demo_env (demo_server [4, 0, 0, 4, 0, 0] [[Some [], Some []]]) = Some (Inr st0) \<and>
     server_run demo_env st0 [Report 3 EPOLLIN, Report 4 EPOLLIN] = Some (Inr st) \<and>
     server_run demo_env st [Report 4 EPOLLRDHUP, Report 3 EPOLLIN, Run_Task 0 0] = Some (Inr st') \<and>
     written (kern st') = [(1, response)]"
proof -
  have n: "length demo_clients = CLIENT_POOL_SIZE" by (simp add: demo_clients_def)
  have ns: "\<not> secure demo_env" by (simp add: demo_env_def)
  let ?as = "[4, 0, 0, 4, 0, 0]" let ?inc = "[[Some [], Some []]]"
  have u: "[0..<CLIENT_POOL_SIZE] = 0 # [1..<CLIENT_POOL_SIZE]" by (subst upt_conv_Cons) (simp_all add: CLIENT_POOL_SIZE_def)
  from demo_started [of ?as ?inc] obtain st0 where s0: "start_server demo_env (demo_server ?as ?inc) = Some (Inr st0)"
    and inv0: "server_inv (kern st0) (world st0)" and st0: "interest (kern st0) = [3 \<mapsto> (EPOLLIN, Server_Obj)]"
      "descriptors (kern st0) = [3 \<mapsto> Listening_Fd]" "answers (kern st0) = ?as" "accepted (kern st0) = 0" "written (kern st0) = []"
      "pool_free (clients (world st0)) = 0 # [1..<CLIENT_POOL_SIZE]" "incoming (world st0) = ?inc" "app (world st0) = 0"
      "client_at 0 (world st0) = \<lparr>http_part = idle_socket, own_server_fd = 0, tls = None\<rparr>"
    unfolding u by blast
  from st0 have i0: "interest (kern st0) 3 = Some (EPOLLIN, Server_Obj)" by simp
  from accept_plain [OF inv0 i0 ns st0(3) _ _ st0(6)] st0 obtain st1 where
    1: "server_step demo_env st0 (Report 3 EPOLLIN) = Some (Inr st1)" and inv1: "server_inv (kern st1) (world st1)"
    and st1: "interest (kern st1) = [3 \<mapsto> (EPOLLIN, Server_Obj), 4 \<mapsto> (sock_events (Client_Obj 0), Client_Obj 0)]"
      "answers (kern st1) = [4, 0, 0]" "accepted (kern st1) = 1" "written (kern st1) = []" "incoming (world st1) = ?inc" "app (world st1) = 0"
      "pool_free (clients (world st1)) = [1..<CLIENT_POOL_SIZE]" "tasks (http_part (client_at 0 (world st1))) = []"
      "save_buffer (http_part (client_at 0 (world st1))) = []" "pool_size (clients (world st1)) = pool_size (clients (world st0))"
    by (auto simp: idle_socket_def simp del: server_step.simps)
  let ?x = "client_at 0 (world st1)" let ?h = "(http_part ?x)\<lparr>tasks := [Send_404_Response]\<rparr>"
  let ?st = "st1\<lparr>world := (put_client 0 (?x\<lparr>http_part := ?h\<rparr>) (world st1))\<lparr>incoming := []\<rparr>\<rparr>"
  have "conns_sound (kern st1) (world st1)" and c: "clean_pool (clients (world st1))" "pool_size (clients (world st1)) = CLIENT_POOL_SIZE"
    using inv1 by (simp_all add: server_inv_def)
  from conns_soundD [OF this(1), of 4] st1(1) have fd: "client_fd ?x = 4" by auto
  have "read_message [Some [], Some []] = Inr (Some [])" by (simp add: read_message_def buffer_size_def c_str_def)
  from empty_message_answered [OF st1(9) this, of demo_platform 0] st1(8) have
    "handle_read demo_platform 0 [Some [], Some []] (http_part ?x) = Some (Inr (0, ?h))" by simp
  then have "client_handle_read demo_env 0 st1 = Some (Inr (0, ?st))"
    using st1(5) by (simp add: client_handle_read_def demo_env_def Let_def)
  moreover have "may_report (kern st1) 4 EPOLLIN"
    by (simp add: may_report_def st1(1) EPOLL_FAILED_def EPOLLIN_def EPOLLERR_def EPOLLHUP_def EPOLLRDHUP_def)
  ultimately have 2: "server_step demo_env st1 (Report 4 EPOLLIN) = Some (Inr ?st)"
    using st1(1) by (simp add: handle_event_def Let_def)
  have s: "server_run demo_env st0 [Report 3 EPOLLIN, Report 4 EPOLLIN] = Some (Inr ?st)"
    by (simp only: server_run.simps 1 2 bindP_Some)
  obtain b where b: "task_response demo_env Send_404_Response (app (world ?st)) = Inr b"
    using not_found_text [of empty_controller demo_platform None] by (auto simp: task_response_def demo_env_def empty_controller_def)
  have at: "client_at 0 (world ?st) = ?x\<lparr>http_part := ?h\<rparr>" using c by (simp add: client_at_put CLIENT_POOL_SIZE_def)
  have "\<exists>st' q. server_run demo_env ?st [Report 4 EPOLLRDHUP, Report 3 EPOLLIN, Run_Task 0 0] = Some (Inr st') \<and> q \<noteq> 0 \<and>
    interest (kern st') 4 = Some (EPOLLIN OR EPOLL_FAILED, Client_Obj q) \<and> descriptors (kern st') 4 = Some (Connection (accepted (kern ?st))) \<and>
    written (kern st') = written (kern ?st) @ [(accepted (kern ?st), b)]"
    using late_answer_misdelivered [OF n s0 s ns, of 4 "sock_events (Client_Obj 0)" 0 0 Send_404_Response 3 EPOLLIN "[]" b] st1 at b
    by (simp add: CLIENT_POOL_SIZE_def del: server_run.simps server_step.simps)
  with st1(3,4) obtain st' where "server_run demo_env ?st [Report 4 EPOLLRDHUP, Report 3 EPOLLIN, Run_Task 0 0] = Some (Inr st')"
    "written (kern st') = [(1, b)]" by (auto simp del: server_run.simps)
  with s0 s show ?thesis by (intro exI conjI)
qed

end
