(* ===== verification/Response_Content.thy ===== *)
theory Response_Content
  imports Prelude
begin

section \<open>Who owns the content of a response (src/core/network/https_server/response/http_response.cpp)\<close>

text \<open>
  \<open>Http_Response\<close> takes the content of a response for a value. Here it is the string on the heap that
  \<open>m_content\<close> points at: each constructor allocates one or takes one over, the destructor frees it, both assignments take it over
  and leave the old one alone. A response is \<open>None\<close> once it is destroyed; using it then is the fault of the
  client, \<open>Uninitialized\<close>.
\<close>

datatype response_op =
    Construct string
  | Copy_Construct nat
  | Take_Construct nat
  | Assign nat nat
  | Destroy nat

record response_heap =
  contents :: "nat \<Rightarrow> string option"
  next_content :: nat
  responses :: "nat option option list"

definition no_responses :: response_heap where
  "no_responses = \<lparr>contents = (\<lambda>_. None), next_content = 0, responses = []\<rparr>"

text \<open>The pointer in a response.\<close>

definition m_content_of :: "nat \<Rightarrow> response_heap \<Rightarrow> nat option result" where
  "m_content_of i h = (if i < length (responses h)
     then (case responses h ! i of None \<Rightarrow> Inl (UB Uninitialized) | Some p \<Rightarrow> Inr p)
     else Inl (UB Uninitialized))"

definition allocate :: "string \<Rightarrow> response_heap \<Rightarrow> response_heap" where
  "allocate s h = h\<lparr>contents := (contents h)(next_content h \<mapsto> s), next_content := next_content h + 1,
     responses := responses h @ [Some (Some (next_content h))]\<rparr>"

definition copy_construct :: "nat \<Rightarrow> response_heap \<Rightarrow> response_heap result" where
  "copy_construct i h = bindE (m_content_of i h) (\<lambda>p. case p of
     None \<Rightarrow> Inl (UB Null_Pointer)
   | Some a \<Rightarrow> (case contents h a of None \<Rightarrow> Inl (UB Use_After_Free) | Some s \<Rightarrow> Inr (allocate s h)))"

definition take_construct :: "nat \<Rightarrow> response_heap \<Rightarrow> response_heap result" where
  "take_construct i h = bindE (m_content_of i h) (\<lambda>p.
     Inr (h\<lparr>responses := (responses h)[i := Some None] @ [Some p]\<rparr>))"

definition assign_response :: "nat \<Rightarrow> nat \<Rightarrow> response_heap \<Rightarrow> response_heap result" where
  "assign_response i j h = bindE (m_content_of i h) (\<lambda>_. bindE (m_content_of j h) (\<lambda>p.
     Inr (h\<lparr>responses := (responses h)[i := Some p, j := Some None]\<rparr>)))"

definition destroy_response :: "nat \<Rightarrow> response_heap \<Rightarrow> response_heap result" where
  "destroy_response i h = bindE (m_content_of i h) (\<lambda>p.
     let h1 = h\<lparr>responses := (responses h)[i := None]\<rparr> in
     case p of
       None \<Rightarrow> Inr h1
     | Some a \<Rightarrow> (case contents h a of None \<Rightarrow> Inl (UB Use_After_Free)
         | Some s \<Rightarrow> Inr (h1\<lparr>contents := (contents h)(a := None)\<rparr>)))"

primrec response_step :: "response_heap \<Rightarrow> response_op \<Rightarrow> response_heap result" where
  "response_step h (Construct s) = Inr (allocate s h)"
| "response_step h (Copy_Construct i) = copy_construct i h"
| "response_step h (Take_Construct i) = take_construct i h"
| "response_step h (Assign i j) = assign_response i j h"
| "response_step h (Destroy i) = destroy_response i h"

subsection \<open>One owner for each content\<close>

text \<open>\<open>owned_by i a h\<close>: response \<open>i\<close> holds the content at \<open>a\<close>.\<close>

definition owned_by :: "nat \<Rightarrow> nat \<Rightarrow> response_heap \<Rightarrow> bool" where
  "owned_by i a h \<longleftrightarrow> i < length (responses h) \<and> responses h ! i = Some (Some a)"

definition owners_ok :: "response_heap \<Rightarrow> bool" where
  "owners_ok h \<longleftrightarrow> (\<forall>a. contents h a \<noteq> None \<longrightarrow> a < next_content h) \<and>
     (\<forall>i a. owned_by i a h \<longrightarrow> contents h a \<noteq> None) \<and>
     (\<forall>i j a. owned_by i a h \<longrightarrow> owned_by j a h \<longrightarrow> i = j)"

text \<open>A content that no response holds can never be freed.\<close>

definition lost :: "response_heap \<Rightarrow> nat set" where
  "lost h = {a. contents h a \<noteq> None \<and> (\<forall>i. \<not> owned_by i a h)}"

text \<open>The content that an operation drops: what the target of an assignment holds, which is its own on self-assignment.\<close>

definition drops :: "response_heap \<Rightarrow> response_op \<Rightarrow> nat set" where
  "drops h r = (case r of Assign i j \<Rightarrow> {a. owned_by i a h} | _ \<Rightarrow> {})"

lemma m_content_of_eq: "m_content_of i h = Inr p \<longleftrightarrow> i < length (responses h) \<and> responses h ! i = Some p"
  by (auto simp: m_content_of_def split: option.splits)

lemma m_content_of_error: "m_content_of i h = Inl e \<Longrightarrow> e = UB Uninitialized"
  by (auto simp: m_content_of_def split: option.splits if_splits)

lemma allocate_ok:
  assumes "owners_ok h"
  shows "owners_ok (allocate s h)" "lost (allocate s h) = lost h"
proof -
  have o: "owned_by i a (allocate s h) \<longleftrightarrow> owned_by i a h \<or> i = length (responses h) \<and> a = next_content h" for i a
    by (auto simp: owned_by_def allocate_def nth_append)
  have "\<not> owned_by i (next_content h) h" for i using assms unfolding owners_ok_def by blast
  moreover have "\<not> owned_by (length (responses h)) a h" for a by (simp add: owned_by_def)
  ultimately show "owners_ok (allocate s h)" using assms unfolding owners_ok_def o
    by (auto simp: allocate_def less_Suc_eq)
  show "lost (allocate s h) = lost h" using assms unfolding lost_def o
    by (auto simp: allocate_def owners_ok_def)
qed

lemma take_ok:
  assumes ok: "owners_ok h" and t: "take_construct i h = Inr h'"
  shows "owners_ok h'" "lost h' = lost h"
proof -
  from t obtain p where p: "i < length (responses h)" "responses h ! i = Some p"
    and h': "h' = h\<lparr>responses := (responses h)[i := Some None] @ [Some p]\<rparr>"
    by (auto simp: take_construct_def bindE_eq_Inr m_content_of_eq)
  have o: "owned_by k a h' \<longleftrightarrow> (owned_by k a h \<and> k \<noteq> i) \<or> k = length (responses h) \<and> owned_by i a h" for k a
    using p by (auto simp: h' owned_by_def nth_append nth_list_update)
  have "\<not> owned_by (length (responses h)) a h" for a by (simp add: owned_by_def)
  then show "owners_ok h'" using ok unfolding owners_ok_def o by (auto simp: h')
  show "lost h' = lost h" unfolding lost_def o by (auto simp: h')
qed

lemma assign_ok:
  assumes ok: "owners_ok h" and t: "assign_response i j h = Inr h'"
  shows "owners_ok h'" "lost h' = lost h \<union> {a. owned_by i a h}"
proof -
  from t obtain p q where p: "j < length (responses h)" "responses h ! j = Some p" and i: "i < length (responses h)" "responses h ! i = Some q"
    and h': "h' = h\<lparr>responses := (responses h)[i := Some p, j := Some None]\<rparr>"
    by (auto simp: assign_response_def bindE_eq_Inr m_content_of_eq)
  have o: "owned_by k a h' \<longleftrightarrow> k \<noteq> j \<and> (if k = i then owned_by j a h else owned_by k a h)" for k a
    using p i by (auto simp: h' owned_by_def nth_list_update)
  show "owners_ok h'" using ok unfolding owners_ok_def o by (auto simp: h' split: if_splits)
  have u: "k = l" if "owned_by k a h" "owned_by l a h" for k l a using ok that unfolding owners_ok_def by blast
  have held: "(\<exists>k. owned_by k a h') \<longleftrightarrow> (\<exists>k. owned_by k a h) \<and> \<not> owned_by i a h" for a
  proof
    assume "\<exists>k. owned_by k a h'"
    then obtain k where k: "owned_by k a h'" by blast
    then have kj: "k \<noteq> j" by (simp add: o)
    show "(\<exists>k. owned_by k a h) \<and> \<not> owned_by i a h"
    proof (cases "k = i")
      case True
      with k have "owned_by j a h" by (simp add: o)
      with True kj u [of i a j] show ?thesis by blast
    next
      case False
      with k have "owned_by k a h" by (simp add: o)
      with False u [of k a i] show ?thesis by blast
    qed
  next
    assume "(\<exists>k. owned_by k a h) \<and> \<not> owned_by i a h"
    then obtain k where k: "owned_by k a h" "k \<noteq> i" by blast
    then have "owned_by (if k = j then i else k) a h'" by (auto simp: o)
    then show "\<exists>k. owned_by k a h'" by blast
  qed
  have "contents h a \<noteq> None" if "owned_by i a h" for a using ok that by (auto simp: owners_ok_def)
  then show "lost h' = lost h \<union> {a. owned_by i a h}" unfolding lost_def
    using held by (simp add: h') blast
qed

lemma destroy_ok:
  assumes ok: "owners_ok h" and t: "destroy_response i h = Inr h'"
  shows "owners_ok h'" "lost h' = lost h"
proof -
  from t obtain p where p: "i < length (responses h)" "responses h ! i = Some p"
    by (auto simp: destroy_response_def bindE_eq_Inr m_content_of_eq)
  have o: "owned_by k a h' \<longleftrightarrow> owned_by k a h \<and> k \<noteq> i" for k a
    using t p by (auto simp: destroy_response_def m_content_of_def Let_def owned_by_def nth_list_update split: option.splits if_splits)
  have c: "contents h' = (case p of None \<Rightarrow> contents h | Some a \<Rightarrow> (contents h)(a := None))" "next_content h' = next_content h"
    using t p by (auto simp: destroy_response_def m_content_of_def Let_def split: option.splits)
  have own: "owned_by i a h \<longleftrightarrow> p = Some a" for a using p by (auto simp: owned_by_def)
  show "owners_ok h'" using ok own unfolding owners_ok_def o c by (auto split: option.splits)
  have "\<exists>k. owned_by k a h" if "p = Some a" for a using own that by blast
  then show "lost h' = lost h" using own unfolding lost_def o c by (auto split: option.splits)
qed

lemma response_step_ok:
  assumes ok: "owners_ok h" and t: "response_step h r = Inr h'"
  shows "owners_ok h' \<and> lost h' = lost h \<union> drops h r"
proof (cases r)
  case (Copy_Construct i)
  with t obtain s where "h' = allocate s h" by (auto simp: copy_construct_def bindE_eq_Inr split: option.splits)
  with allocate_ok [OF ok] Copy_Construct show ?thesis by (simp add: drops_def)
qed (use t allocate_ok [OF ok] take_ok [OF ok] assign_ok [OF ok] destroy_ok [OF ok] in \<open>auto simp: drops_def\<close>)

lemma response_step_error:
  assumes ok: "owners_ok h" and t: "response_step h r = Inl e"
  shows "e \<in> {UB Uninitialized, UB Null_Pointer}"
proof -
  have c: "\<exists>s. contents h a = Some s" if "m_content_of i h = Inr (Some a)" for i a
  proof -
    from that have "owned_by i a h" by (simp add: owned_by_def m_content_of_eq)
    with ok show ?thesis unfolding owners_ok_def by blast
  qed
  show ?thesis
  proof (cases r)
    case (Copy_Construct i)
    with t c [of i] show ?thesis
      by (cases "m_content_of i h") (auto simp: copy_construct_def split: option.splits dest: m_content_of_error)
  next
    case (Destroy i)
    with t c [of i] show ?thesis
      by (cases "m_content_of i h") (auto simp: destroy_response_def Let_def split: option.splits dest: m_content_of_error)
  qed (use t in \<open>auto simp: take_construct_def assign_response_def bindE_eq_Inl dest: m_content_of_error\<close>)
qed

definition dropped_in :: "response_heap \<Rightarrow> response_op list \<Rightarrow> nat set" where
  "dropped_in h rs = {a. \<exists>ps r qs h1. rs = ps @ r # qs \<and> foldE response_step h ps = Inr h1 \<and> a \<in> drops h1 r}"

lemma dropped_in_snoc:
  assumes "foldE response_step h rs = Inr h1"
  shows "dropped_in h (rs @ [r]) = dropped_in h rs \<union> drops h1 r"
proof
  show "dropped_in h (rs @ [r]) \<subseteq> dropped_in h rs \<union> drops h1 r"
  proof
    fix a assume "a \<in> dropped_in h (rs @ [r])"
    then obtain ps r' qs h2 where d: "rs @ [r] = ps @ r' # qs" "foldE response_step h ps = Inr h2" "a \<in> drops h2 r'"
      by (auto simp: dropped_in_def)
    show "a \<in> dropped_in h rs \<union> drops h1 r"
    proof (cases qs rule: rev_cases)
      case Nil
      with d assms show ?thesis by simp
    next
      case (snoc qs' q)
      with d have "rs = ps @ r' # qs'" by simp
      with d show ?thesis unfolding dropped_in_def by blast
    qed
  qed
  have "a \<in> dropped_in h (rs @ [r])" if "a \<in> dropped_in h rs" for a
  proof -
    from that obtain ps r' qs h2 where "rs = ps @ r' # qs" "foldE response_step h ps = Inr h2" "a \<in> drops h2 r'"
      by (auto simp: dropped_in_def)
    then have "rs @ [r] = ps @ r' # (qs @ [r])" "foldE response_step h ps = Inr h2" "a \<in> drops h2 r'" by simp_all
    then show ?thesis unfolding dropped_in_def by blast
  qed
  moreover have "drops h1 r \<subseteq> dropped_in h (rs @ [r])" using assms unfolding dropped_in_def by blast
  ultimately show "dropped_in h rs \<union> drops h1 r \<subseteq> dropped_in h (rs @ [r])" by blast
qed

text \<open>
  C40: in any program of constructions, copies, assignments and destructions, unless it uses a response that is destroyed or
  has no content, each content belongs to at most one response, so none is used after it was freed or freed twice; and a content that nobody holds any more is exactly
  one that an assignment has overwritten: both assignments leak what the target held.
\<close>

theorem response_contents_owned:
  "(case foldE response_step no_responses rs of
      Inl e \<Rightarrow> e = UB Uninitialized \<or> e = UB Null_Pointer
    | Inr h \<Rightarrow> owners_ok h \<and> lost h = dropped_in no_responses rs)"
proof (induction rs rule: rev_induct)
  case Nil
  show ?case by (simp add: owners_ok_def owned_by_def no_responses_def lost_def dropped_in_def)
next
  case (snoc r rs)
  show ?case
  proof (cases "foldE response_step no_responses rs")
    case (Inl e)
    with snoc show ?thesis by (simp add: foldE_append)
  next
    case (Inr h)
    with snoc have ok: "owners_ok h" and l: "lost h = dropped_in no_responses rs" by simp_all
    have d: "dropped_in no_responses (rs @ [r]) = dropped_in no_responses rs \<union> drops h r"
      by (rule dropped_in_snoc [OF Inr])
    show ?thesis
    proof (cases "response_step h r")
      case (Inl e)
      with response_step_error [OF ok this] Inr show ?thesis by (auto simp: foldE_append)
    next
      case (Inr h')
      with response_step_ok [OF ok this] \<open>foldE response_step no_responses rs = Inr h\<close> l d show ?thesis
        by (simp add: foldE_append)
    qed
  qed
qed

text \<open>What \<open>send_file_from_directory\<close> does with its local \<open>response\<close>: the empty content it starts with is never freed.\<close>

lemma send_file_leaks:
  "\<exists>h. foldE response_step no_responses [Construct [], Construct content, Assign 0 1, Destroy 1, Destroy 0] = Inr h \<and>
     responses h = [None, None] \<and> contents h 0 = Some []"
  by (simp add: no_responses_def allocate_def assign_response_def destroy_response_def m_content_of_def numeral_2_eq_2 Let_def)

end
