(* ===== verification/RefCount.thy ===== *)
theory RefCount
  imports CachePool
begin

section \<open>Reference counts\<close>

text \<open>
  \<open>ShareString\<close> and \<open>JsonObject\<close> keep pooled objects alive with a 32-bit count of the pointers
  to them: the count of a new object is one, a copy adds one, and who takes the last one away
  gives the object back to its pool. \<open>counts_ok\<close> says that the counts are right: an object is
  either free or pointed at, and the count of one that is pointed at is the number of its
  pointers. The lemmas are the three things that happen to a count.
\<close>

definition counts_ok :: "(ptr \<Rightarrow> u32) \<Rightarrow> ptr list \<Rightarrow> nat \<Rightarrow> ptr multiset \<Rightarrow> bool" where
  "counts_ok cnt fr n refs \<longleftrightarrow> distinct fr \<and> set fr \<union> set_mset refs = {..<n} \<and> set fr \<inter> set_mset refs = {} \<and>
     (\<forall>p \<in># refs. unat (cnt p) = count refs p)"

lemma counts_ok_live: "counts_ok cnt fr n refs \<Longrightarrow> p \<in># refs \<Longrightarrow> p < n \<and> p \<notin> set fr"
  unfolding counts_ok_def by blast

lemma counts_ok_cong: "(\<And>p. p \<in># refs \<Longrightarrow> cnt p = cnt' p) \<Longrightarrow> counts_ok cnt fr n refs = counts_ok cnt' fr n refs"
  unfolding counts_ok_def by auto

lemma unat_plus_1: "unat (w :: u32) + 1 < 2 ^ 32 \<Longrightarrow> unat (w + 1) = unat w + 1"
  by (subst unat_plus_simple [THEN iffD1]) (simp_all add: word_le_nat_alt unat_plus_if_size word_size)

lemma counts_ok_retain:
  assumes "counts_ok cnt fr n refs" "p \<in># refs" "count refs p + 1 < 2 ^ 32" "cnt' p = cnt p + 1"
    and "\<And>q. q \<noteq> p \<Longrightarrow> cnt' q = cnt q"
  shows "counts_ok cnt' fr n (add_mset p refs)"
proof -
  have "unat (cnt p) = count refs p" using assms(1,2) by (simp add: counts_ok_def)
  with assms(3,4) have "unat (cnt' p) = count refs p + 1" using unat_plus_1 [of "cnt p"] by simp
  with assms show ?thesis by (auto simp: counts_ok_def)
qed

lemma counts_ok_drop:
  assumes "counts_ok cnt fr n refs" "p \<in># refs" "cnt p \<noteq> 1" "cnt' p = cnt p - 1"
    and "\<And>q. q \<noteq> p \<Longrightarrow> cnt' q = cnt q"
  shows "counts_ok cnt' fr n (refs - {#p#})"
proof -
  have c: "unat (cnt p) = count refs p" using assms(1,2) by (simp add: counts_ok_def)
  have nz: "0 < count refs p" using assms(2) by (simp add: count_greater_zero_iff)
  with c have "unat (cnt' p) = count refs p - 1"
    using assms(4) unat_sub [of 1 "cnt p"] by (simp add: word_le_nat_alt)
  moreover have "count refs p \<noteq> 1" using c assms(3) by (metis unat_1 word_unat_eq_iff)
  with nz have "1 < count refs p" by linarith
  then have "p \<in># refs - {#p#}" by (simp add: in_diff_count)
  then have "set_mset (refs - {#p#}) = set_mset refs"
    using assms(2) by (metis insert_DiffM insert_absorb set_mset_add_mset_insert)
  ultimately show ?thesis using assms(1,5) by (auto simp: counts_ok_def)
qed

lemma counts_ok_last:
  assumes "counts_ok cnt fr n refs" "p \<in># refs" "cnt p = 1"
    and "\<And>q. q \<noteq> p \<Longrightarrow> cnt' q = cnt q"
  shows "counts_ok cnt' (fr @ [p]) n (refs - {#p#})"
proof -
  have "unat (cnt p) = count refs p" using assms(1,2) by (simp add: counts_ok_def)
  then have "count refs p = 1" using assms(3) by simp
  then have "set_mset (refs - {#p#}) = set_mset refs - {p}"
    by (auto simp: in_diff_count count_greater_zero_iff set_eq_iff split: if_splits)
  with assms show ?thesis by (auto simp: counts_ok_def)
qed

lemma counts_ok_fresh:
  assumes "counts_ok cnt (p # fr) n refs" "cnt' p = 1" "\<And>q. q \<noteq> p \<Longrightarrow> cnt' q = cnt q"
  shows "counts_ok cnt' fr n (add_mset p refs)"
proof -
  have "p \<notin># refs" using assms(1) by (auto simp: counts_ok_def)
  then have "count refs p = 0" by (simp add: not_in_iff)
  with assms show ?thesis by (auto simp: counts_ok_def)
qed

text \<open>While the pointers are fewer than the objects, one is free.\<close>

lemma counts_ok_room: 
  assumes "counts_ok cnt fr n refs" "size refs < n"
  shows "fr \<noteq> []"
proof
  assume "fr = []"
  with assms(1) have "set_mset refs = {..<n}" by (simp add: counts_ok_def)
  then have "n = card (set_mset refs)" by simp
  also have "\<dots> \<le> size refs" by (induction refs) (simp_all add: card_insert_if le_SucI)
  finally show False using assms(2) by simp
qed

lemma counts_ok_free: 
  assumes "counts_ok cnt fr n refs" "p \<in># refs"
  shows "length fr < n"
proof -
  have "set fr \<subset> {..<n}" using assms by (auto simp: counts_ok_def)
  then have "card (set fr) < n" by (metis card_lessThan finite_lessThan psubset_card_mono)
  with assms(1) show ?thesis by (simp add: counts_ok_def distinct_card)
qed

text \<open>Replacing one entry of a list in a sum over it.\<close>

lemma sum_list_update_add:
  fixes f :: "'a \<Rightarrow> 'b::comm_monoid_add"
  shows "i < length xs \<Longrightarrow> (\<Sum>x\<leftarrow>xs[i := y]. f x) + f (xs ! i) = (\<Sum>x\<leftarrow>xs. f x) + f y"
proof (induction xs arbitrary: i)
  case (Cons a xs)
  show ?case
  proof (cases i)
    case 0
    then show ?thesis by (simp add: ac_simps)
  next
    case (Suc n)
    with Cons.prems Cons.IH [of n] show ?thesis by (simp add: add.assoc)
  qed
qed simp

lemma sum_list_update_mset:
  fixes f :: "'a \<Rightarrow> 'b multiset"
  assumes "i < length xs"
  shows "(\<Sum>x\<leftarrow>xs[i := y]. f x) = (\<Sum>x\<leftarrow>xs. f x) - f (xs ! i) + f y" "f (xs ! i) \<subseteq># (\<Sum>x\<leftarrow>xs. f x)"
proof -
  show s: "f (xs ! i) \<subseteq># (\<Sum>x\<leftarrow>xs. f x)" using assms
    by (induction xs arbitrary: i) (auto simp: nth_Cons' intro: subset_mset.add_increasing)
  show "(\<Sum>x\<leftarrow>xs[i := y]. f x) = (\<Sum>x\<leftarrow>xs. f x) - f (xs ! i) + f y"
    using sum_list_update_add [OF assms, of f y] s
    by (metis add.commute add_diff_cancel_left' subset_mset.add_diff_assoc2)
qed

end
