(* ===== verification/ShareString.thy ===== *)
theory ShareString
  imports RefCount
begin

section \<open>Shared strings (src/core/cache/share_string.h, share_string.cpp)\<close>

text \<open>
  A \<open>ShareString\<close> is a view of a pooled, reference-counted string: a pointer to the
  \<open>StringReference\<close>, the first index and the length. The pool is the one of \<open>cache_pool.h\<close>; its
  class has neither \<open>init\<close> nor \<open>clear\<close>. Operations on one \<open>ShareString\<close> are given its value;
  those on two are given the variables they are in, since source and target may be one.
\<close>

record string_reference =
  sr_data :: string
  sr_count :: u32

type_synonym string_pool = "string_reference pool"

definition string_class :: "string_reference pool_class" where
  "string_class = \<lparr>type_name = ''StringReference'', has_init = None, has_clear = None\<rparr>"

definition retain :: "ptr \<Rightarrow> string_pool \<Rightarrow> string_pool" where
  "retain p pl = pl\<lparr>objs := (objs pl)[p := (objs pl ! p)\<lparr>sr_count := sr_count (objs pl ! p) + 1\<rparr>]\<rparr>"

text \<open>\<open>release\<close> returns the count before the subtraction.\<close>

definition release_reference :: "ptr \<Rightarrow> string_pool \<Rightarrow> u32 \<times> string_pool" where
  "release_reference p pl = (sr_count (objs pl ! p),
     pl\<lparr>objs := (objs pl)[p := (objs pl ! p)\<lparr>sr_count := sr_count (objs pl ! p) - 1\<rparr>]\<rparr>)"

record share_string =
  m_string_reference :: "ptr option"
  m_start_index :: nat
  m_length :: nat

definition new_share_string :: "string \<Rightarrow> string_pool \<Rightarrow> (share_string \<times> string_pool) result" where
  "new_share_string data pl = bindE (acquire string_class pl) (\<lambda>(p, pl).
     Inr (\<lparr>m_string_reference = Some p, m_start_index = 0, m_length = length data\<rparr>,
       pl\<lparr>objs := (objs pl)[p := \<lparr>sr_data = data, sr_count = 1\<rparr>]\<rparr>))"

definition default_share_string :: "string_pool \<Rightarrow> (share_string \<times> string_pool) result" where
  "default_share_string pl = new_share_string [] pl"

text \<open>The copy and the move constructor do the same: the source keeps its reference.\<close>

definition copy_share_string :: "share_string \<Rightarrow> string_pool \<Rightarrow> (share_string \<times> string_pool) result" where
  "copy_share_string copy pl = (case m_string_reference copy of
     None \<Rightarrow> Inl (UB Null_Pointer)
   | Some p \<Rightarrow> Inr (copy, retain p pl))"

definition check_release_current_data :: "share_string \<Rightarrow> string_pool \<Rightarrow> (share_string \<times> string_pool) result" where
  "check_release_current_data ss pl = (case m_string_reference ss of
     None \<Rightarrow> Inr (ss, pl)
   | Some p \<Rightarrow> (case release_reference p pl of (old, pl1) \<Rightarrow>
       bindE (if old = 1 then release string_class pl1 (Some p) else Inr pl1) (\<lambda>pl2.
         Inr (ss\<lparr>m_string_reference := None\<rparr>, pl2))))"

definition from_substr :: "share_string \<Rightarrow> nat \<Rightarrow> nat \<Rightarrow> string_pool \<Rightarrow> (share_string \<times> string_pool) result" where
  "from_substr ss start_index len pl =
     (if (start_index + len) mod 2 ^ 64 \<le> m_length ss
      then bindE (copy_share_string ss pl) (\<lambda>(new_string, pl).
        Inr (new_string\<lparr>m_start_index := (m_start_index ss + start_index) mod 2 ^ 64, m_length := len\<rparr>, pl))
      else Inl (Throw Std_Out_Of_Range))"

definition from_substr_with_end :: "share_string \<Rightarrow> nat \<Rightarrow> nat \<Rightarrow> string_pool \<Rightarrow> (share_string \<times> string_pool) result" where
  "from_substr_with_end ss start_index end_index pl =
     (if start_index < m_length ss \<and> end_index \<le> m_length ss \<and> start_index < end_index
      then bindE (copy_share_string ss pl) (\<lambda>(new_string, pl).
        Inr (new_string\<lparr>m_start_index := (m_start_index ss + start_index) mod 2 ^ 64,
          m_length := (end_index - start_index + 1) mod 2 ^ 64\<rparr>, pl))
      else Inl (Throw Std_Out_Of_Range))"

text \<open>\<open>string_view::substr\<close> checks the position and clips the length.\<close>

definition share_data :: "share_string \<Rightarrow> string_pool \<Rightarrow> string result" where
  "share_data ss pl = (case m_string_reference ss of
     None \<Rightarrow> Inr []
   | Some p \<Rightarrow> let s = sr_data (objs pl ! p) in
       if m_start_index ss \<le> length s then Inr (take (m_length ss) (drop (m_start_index ss) s))
       else Inl (Throw Std_Out_Of_Range))"

definition share_string_eq :: "share_string \<Rightarrow> share_string \<Rightarrow> string_pool \<Rightarrow> bool result" where
  "share_string_eq a b pl =
     (if m_string_reference a = None \<or> m_string_reference b = None then Inr False
      else bindE (share_data a pl) (\<lambda>x. bindE (share_data b pl) (\<lambda>y. Inr (x = y))))"

text \<open>The private \<open>substr\<close>: its bound adds the start of the view to both sides of the sum.\<close>

definition share_substr :: "share_string \<Rightarrow> nat \<Rightarrow> nat \<Rightarrow> string_pool \<Rightarrow> string result" where
  "share_substr ss start_index len pl = (case m_string_reference ss of
     None \<Rightarrow> Inr []
   | Some p \<Rightarrow>
       if (m_start_index ss + start_index + len) mod 2 ^ 64 \<le> m_length ss then
         let s = sr_data (objs pl ! p); at = (m_start_index ss + start_index) mod 2 ^ 64 in
         if at \<le> length s then Inr (take len (drop at s)) else Inl (Throw Std_Out_Of_Range)
       else Inl (Throw Std_Out_Of_Range))"

subsection \<open>Variables\<close>

text \<open>The variables of a program that uses them; \<open>None\<close> is a variable outside its lifetime.\<close>

record string_state =
  string_pool :: string_pool
  handles :: "share_string option list"

definition read_handle :: "string_state \<Rightarrow> nat \<Rightarrow> share_string result" where
  "read_handle st v = bindE (vec_at (handles st) v) (\<lambda>h. case h of
     None \<Rightarrow> Inl (UB Dangling_Iterator) | Some ss \<Rightarrow> Inr ss)"

definition set_handle :: "nat \<Rightarrow> share_string option \<Rightarrow> string_pool \<Rightarrow> string_state \<Rightarrow> string_state" where
  "set_handle v h pl st = st\<lparr>string_pool := pl, handles := (handles st)[v := h]\<rparr>"

definition construct :: "nat \<Rightarrow> string \<Rightarrow> string_state \<Rightarrow> string_state result" where
  "construct v data st = bindE (new_share_string data (string_pool st)) (\<lambda>(ss, pl). Inr (set_handle v (Some ss) pl st))"

definition construct_copy :: "nat \<Rightarrow> nat \<Rightarrow> string_state \<Rightarrow> string_state result" where
  "construct_copy v w st = bindE (read_handle st w) (\<lambda>copy.
     bindE (copy_share_string copy (string_pool st)) (\<lambda>(ss, pl). Inr (set_handle v (Some ss) pl st)))"

definition construct_substr :: "nat \<Rightarrow> nat \<Rightarrow> nat \<Rightarrow> nat \<Rightarrow> string_state \<Rightarrow> string_state result" where
  "construct_substr v w start_index len st = bindE (read_handle st w) (\<lambda>src.
     bindE (from_substr src start_index len (string_pool st)) (\<lambda>(ss, pl). Inr (set_handle v (Some ss) pl st)))"

definition destruct :: "nat \<Rightarrow> string_state \<Rightarrow> string_state result" where
  "destruct v st = bindE (read_handle st v) (\<lambda>ss.
     bindE (check_release_current_data ss (string_pool st)) (\<lambda>(_, pl). Inr (set_handle v None pl st)))"

text \<open>
  The two assignment operators: the target gives up its reference first, then the fields of the
  source are read, which may be those of the target.
\<close>

definition assign :: "nat \<Rightarrow> nat \<Rightarrow> string_state \<Rightarrow> string_state result" where
  "assign v w st = bindE (read_handle st v) (\<lambda>this.
     bindE (check_release_current_data this (string_pool st)) (\<lambda>(this, pl).
       let st1 = set_handle v (Some this) pl st in
       bindE (read_handle st1 w) (\<lambda>copy. case m_string_reference copy of
         None \<Rightarrow> Inl (UB Null_Pointer)
       | Some p \<Rightarrow> Inr (set_handle v
           (Some \<lparr>m_string_reference = Some p, m_start_index = m_start_index copy, m_length = m_length copy\<rparr>)
           (retain p pl) st1))))"

text \<open>Assigning a \<open>std::string\<close>: a temporary is built, assigned and destroyed.\<close>

definition assign_string :: "nat \<Rightarrow> nat \<Rightarrow> string \<Rightarrow> string_state \<Rightarrow> string_state result" where
  "assign_string v tmp data st = bindE (construct tmp data st) (\<lambda>st1. bindE (assign v tmp st1) (destruct tmp))"


subsection \<open>The contract: every variable has its own text\<close>

datatype string_op =
    New_String nat string
  | Copy_String nat nat
  | Sub_String nat nat nat nat
  | Assign_Copy nat nat
  | Assign_Text nat nat string
  | Drop_String nat

primrec run_string_op :: "string_state \<Rightarrow> string_op \<Rightarrow> string_state result" where
  "run_string_op st (New_String v t) = construct v t st"
| "run_string_op st (Copy_String v w) = construct_copy v w st"
| "run_string_op st (Sub_String v w i l) = construct_substr v w i l st"
| "run_string_op st (Assign_Copy v w) = assign v w st"
| "run_string_op st (Assign_Text v tmp t) = assign_string v tmp t st"
| "run_string_op st (Drop_String v) = destruct v st"

primrec spec_string_op :: "string option list \<Rightarrow> string_op \<Rightarrow> string option list" where
  "spec_string_op env (New_String v t) = env[v := Some t]"
| "spec_string_op env (Copy_String v w) = env[v := env ! w]"
| "spec_string_op env (Sub_String v w i l) = env[v := map_option (\<lambda>t. take l (drop i t)) (env ! w)]"
| "spec_string_op env (Assign_Copy v w) = env[v := env ! w]"
| "spec_string_op env (Assign_Text v tmp t) = env[v := Some t]"
| "spec_string_op env (Drop_String v) = env[v := None]"

text \<open>What a C++ program may do: variables are constructed once and used while they live.\<close>

definition dead :: "string option list \<Rightarrow> nat \<Rightarrow> bool" where
  "dead env v \<longleftrightarrow> v < length env \<and> env ! v = None"

definition live :: "string option list \<Rightarrow> nat \<Rightarrow> bool" where
  "live env v \<longleftrightarrow> v < length env \<and> env ! v \<noteq> None"

primrec allowed :: "string option list \<Rightarrow> string_op \<Rightarrow> bool" where
  "allowed env (New_String v t) = (dead env v \<and> length t < 2 ^ 64)"
| "allowed env (Copy_String v w) = (dead env v \<and> live env w)"
| "allowed env (Sub_String v w i l) = (dead env v \<and> live env w \<and> i + l \<le> length (the (env ! w)))"
| "allowed env (Assign_Copy v w) = (v \<noteq> w \<and> live env v \<and> live env w)"
| "allowed env (Assign_Text v tmp t) = (live env v \<and> dead env tmp \<and> length t < 2 ^ 64)"
| "allowed env (Drop_String v) = live env v"

fun legal :: "string option list \<Rightarrow> string_op list \<Rightarrow> bool" where
  "legal env [] = True"
| "legal env (act # acts) = (allowed env act \<and> legal (spec_string_op env act) acts)"

definition no_strings :: "nat \<Rightarrow> nat \<Rightarrow> string_state" where
  "no_strings n k = \<lparr>string_pool = new_pool (replicate n \<lparr>sr_data = [], sr_count = 0\<rparr>), handles = replicate k None\<rparr>"

definition text_of :: "string_state \<Rightarrow> nat \<Rightarrow> string option result" where
  "text_of st v = (case handles st ! v of None \<Rightarrow> Inr None
   | Some ss \<Rightarrow> bindE (share_data ss (string_pool st)) (\<lambda>t. Inr (Some t)))"

subsection \<open>The pool under the operations\<close>

definition strings_ok :: "string_pool \<Rightarrow> ptr multiset \<Rightarrow> bool" where
  "strings_ok pl refs \<longleftrightarrow> pool_ok pl \<and> length (objs pl) = pool_size pl \<and>
     counts_ok (\<lambda>p. sr_count (objs pl ! p)) (pool_free pl) (pool_size pl) refs"

definition same_data :: "ptr set \<Rightarrow> string_pool \<Rightarrow> string_pool \<Rightarrow> bool" where
  "same_data ps pl pl' \<longleftrightarrow> pool_size pl' = pool_size pl \<and> (\<forall>p \<in> ps. sr_data (objs pl' ! p) = sr_data (objs pl ! p))"

lemma new_share_string_ok:
  assumes "strings_ok pl refs" "size refs < pool_size pl"
  shows "\<exists>p pl'. new_share_string t pl = Inr (\<lparr>m_string_reference = Some p, m_start_index = 0, m_length = length t\<rparr>, pl') \<and>
    strings_ok pl' (add_mset p refs) \<and> same_data (set_mset refs) pl pl' \<and> sr_data (objs pl' ! p) = t"
proof -
  from assms have "pool_free pl \<noteq> []" using counts_ok_room unfolding strings_ok_def by blast
  then obtain p fr where fr: "pool_free pl = p # fr" by (cases "pool_free pl") auto
  with assms acquire_ok [of pl p fr string_class] obtain pl1 where a: "acquire string_class pl = Inr (p, pl1)" "pool_ok pl1"
    "pool_free pl1 = fr" "pool_size pl1 = pool_size pl" by (auto simp: strings_ok_def)
  from acquire_objs [OF _ a(1)] have o1: "objs pl1 = objs pl" by (simp add: string_class_def)
  let ?pl = "pl1\<lparr>objs := (objs pl1)[p := \<lparr>sr_data = t, sr_count = 1\<rparr>]\<rparr>"
  have c: "counts_ok (\<lambda>q. sr_count (objs pl ! q)) (p # fr) (pool_size pl) refs" and l: "length (objs pl) = pool_size pl"
    using assms(1) fr by (simp_all add: strings_ok_def)
  then have p: "p < length (objs pl)" "p \<notin># refs" by (auto simp: counts_ok_def)
  have "counts_ok (\<lambda>q. sr_count (objs ?pl ! q)) fr (pool_size pl) (add_mset p refs)"
    by (rule counts_ok_fresh [OF c]) (use p o1 in simp_all)
  with a l have "strings_ok ?pl (add_mset p refs)" by (simp add: strings_ok_def o1)
  moreover have "same_data (set_mset refs) pl ?pl" using p a(4) by (auto simp: same_data_def o1 nth_list_update)
  ultimately show ?thesis using p by (auto simp: new_share_string_def a(1) o1)
qed

lemma retain_ok:
  assumes "strings_ok pl refs" "p \<in># refs" "size refs + 1 < 2 ^ 32"
  shows "strings_ok (retain p pl) (add_mset p refs) \<and> same_data UNIV pl (retain p pl)"
proof -
  have c: "counts_ok (\<lambda>q. sr_count (objs pl ! q)) (pool_free pl) (pool_size pl) refs" and l: "length (objs pl) = pool_size pl"
    using assms(1) by (simp_all add: strings_ok_def)
  have p: "p < length (objs pl)" using counts_ok_live [OF c assms(2)] l by simp
  have "count refs p + 1 < 2 ^ 32" using assms(3) count_le_size [of refs p] by linarith
  with c assms(2) have "counts_ok (\<lambda>q. sr_count (objs (retain p pl) ! q)) (pool_free pl) (pool_size pl) (add_mset p refs)"
    by (rule counts_ok_retain) (use p in \<open>simp_all add: retain_def\<close>)
  with assms(1) p show ?thesis by (auto simp: strings_ok_def same_data_def retain_def nth_list_update)
qed

lemma check_release_ok:
  assumes "strings_ok pl refs" "m_string_reference ss = Some p" "p \<in># refs"
  shows "\<exists>pl'. check_release_current_data ss pl = Inr (ss\<lparr>m_string_reference := None\<rparr>, pl') \<and>
    strings_ok pl' (refs - {#p#}) \<and> same_data UNIV pl pl'"
proof -
  obtain old pl1 where r: "release_reference p pl = (old, pl1)" by force
  then have old: "old = sr_count (objs pl ! p)"
    and pl1: "pl1 = pl\<lparr>objs := (objs pl)[p := (objs pl ! p)\<lparr>sr_count := sr_count (objs pl ! p) - 1\<rparr>]\<rparr>"
    by (auto simp: release_reference_def)
  have c: "counts_ok (\<lambda>q. sr_count (objs pl ! q)) (pool_free pl) (pool_size pl) refs" and l: "length (objs pl) = pool_size pl"
    using assms(1) by (simp_all add: strings_ok_def)
  have p: "p < length (objs pl)" using counts_ok_live [OF c assms(3)] l by simp
  have s1: "same_data UNIV pl pl1" using p by (auto simp: same_data_def pl1 nth_list_update)
  show ?thesis
  proof (cases "old = 1")
    case True
    have "pool_ok pl1" "length (pool_free pl1) < pool_size pl1"
      using assms(1) counts_ok_free [OF c assms(3)] by (simp_all add: pl1 strings_ok_def)
    from release_ok [OF this, of string_class p] obtain pl2 where r2: "release string_class pl1 (Some p) = Inr pl2" "pool_ok pl2"
      "pool_free pl2 = pool_free pl @ [p]" "pool_size pl2 = pool_size pl" by (auto simp: pl1)
    have o2: "objs pl2 = objs pl1" by (rule release_objs [OF _ r2(1)]) (simp add: string_class_def)
    have "counts_ok (\<lambda>q. sr_count (objs pl2 ! q)) (pool_free pl @ [p]) (pool_size pl) (refs - {#p#})"
      by (rule counts_ok_last [OF c assms(3)]) (use True in \<open>simp_all add: old o2 pl1\<close>)
    with r2 l have "strings_ok pl2 (refs - {#p#})" by (simp add: strings_ok_def o2 pl1)
    moreover have "same_data UNIV pl pl2" using s1 r2(4) by (simp add: same_data_def o2)
    ultimately show ?thesis using assms(2) r True r2(1) by (simp add: check_release_current_data_def)
  next
    case False
    have "counts_ok (\<lambda>q. sr_count (objs pl1 ! q)) (pool_free pl) (pool_size pl) (refs - {#p#})"
      by (rule counts_ok_drop [OF c assms(3)]) (use False p in \<open>simp_all add: old pl1\<close>)
    with assms(1) have "strings_ok pl1 (refs - {#p#})" by (simp add: strings_ok_def pl1)
    with s1 assms(2) r False show ?thesis by (simp add: check_release_current_data_def)
  qed
qed


subsection \<open>The variables under the operations\<close>

definition handle_refs :: "share_string option \<Rightarrow> ptr multiset" where
  "handle_refs h = (case h of None \<Rightarrow> {#} | Some ss \<Rightarrow> (case m_string_reference ss of None \<Rightarrow> {#} | Some p \<Rightarrow> {#p#}))"

definition refs_of :: "share_string option list \<Rightarrow> ptr multiset" where
  "refs_of hs = (\<Sum>h\<leftarrow>hs. handle_refs h)"

definition shows_text :: "string_pool \<Rightarrow> share_string option \<Rightarrow> string option \<Rightarrow> bool" where
  "shows_text pl h text = (case text of
     None \<Rightarrow> h = None
   | Some t \<Rightarrow> (\<exists>p i l. h = Some \<lparr>m_string_reference = Some p, m_start_index = i, m_length = l\<rparr> \<and>
       length (sr_data (objs pl ! p)) < 2 ^ 64 \<and> i + l \<le> length (sr_data (objs pl ! p)) \<and>
       t = take l (drop i (sr_data (objs pl ! p)))))"

definition strings_sim :: "string_state \<Rightarrow> string option list \<Rightarrow> bool" where
  "strings_sim st env \<longleftrightarrow> length (handles st) = length env \<and> strings_ok (string_pool st) (refs_of (handles st)) \<and>
     (\<forall>v < length env. shows_text (string_pool st) (handles st ! v) (env ! v))"

lemma shows_text_same:
  "shows_text pl h text \<Longrightarrow> same_data ps pl pl' \<Longrightarrow> set_mset (handle_refs h) \<subseteq> ps \<Longrightarrow> shows_text pl' h text"
  by (auto simp: shows_text_def same_data_def handle_refs_def split: option.splits)

lemma handle_refs_in: "v < length hs \<Longrightarrow> handle_refs (hs ! v) \<subseteq># refs_of hs"
  unfolding refs_of_def by (rule sum_list_update_mset(2))

lemma refs_of_update: "v < length hs \<Longrightarrow> refs_of (hs[v := h]) = refs_of hs - handle_refs (hs ! v) + handle_refs h"
  unfolding refs_of_def by (rule sum_list_update_mset(1))

lemma size_refs: "size (refs_of hs) \<le> length (filter (\<lambda>h. h \<noteq> None) hs)"
  unfolding refs_of_def by (induction hs) (auto simp: handle_refs_def split: option.splits)

lemma size_refs_le: "size (refs_of hs) \<le> length hs"
  by (rule order_trans [OF size_refs length_filter_le])

lemma size_refs_less: "v < length hs \<Longrightarrow> hs ! v = None \<Longrightarrow> size (refs_of hs) < length hs"
  by (rule order.strict_trans1 [OF size_refs]) (metis (mono_tags, lifting) length_filter_less nth_mem)

lemma sim_update:
  assumes "strings_sim st env" "v < length env"
    and "strings_ok pl' (refs_of (handles st) - handle_refs (handles st ! v) + handle_refs h)"
    and "same_data (set_mset (refs_of (handles st))) (string_pool st) pl'" "shows_text pl' h text"
  shows "strings_sim (set_handle v h pl' st) (env[v := text])"
proof -
  have len: "length (handles st) = length env" using assms(1) by (simp add: strings_sim_def)
  have "shows_text pl' ((handles st)[v := h] ! w) (env[v := text] ! w)" if w: "w < length env" for w
  proof (cases "w = v")
    case True
    with assms(2,5) len show ?thesis by simp
  next
    case False
    have "shows_text (string_pool st) (handles st ! w) (env ! w)" using assms(1) w by (simp add: strings_sim_def)
    moreover have "set_mset (handle_refs (handles st ! w)) \<subseteq> set_mset (refs_of (handles st))"
      using handle_refs_in [of w "handles st"] w len by (simp add: set_mset_mono)
    ultimately show ?thesis using False shows_text_same [OF _ assms(4)] by simp
  qed
  with assms(2,3) len show ?thesis by (simp add: strings_sim_def set_handle_def refs_of_update)
qed

lemma shared_sim_live:
  assumes "strings_sim st env" "v < length env" "env ! v = Some t"
  obtains p i l where "handles st ! v = Some \<lparr>m_string_reference = Some p, m_start_index = i, m_length = l\<rparr>"
    "read_handle st v = Inr \<lparr>m_string_reference = Some p, m_start_index = i, m_length = l\<rparr>"
    "p \<in># refs_of (handles st)" "length (sr_data (objs (string_pool st) ! p)) < 2 ^ 64"
    "i + l \<le> length (sr_data (objs (string_pool st) ! p))" "t = take l (drop i (sr_data (objs (string_pool st) ! p)))"
proof -
  have len: "length (handles st) = length env" using assms(1) by (simp add: strings_sim_def)
  have "shows_text (string_pool st) (handles st ! v) (Some t)" using assms by (auto simp: strings_sim_def)
  then obtain p i l where h: "handles st ! v = Some \<lparr>m_string_reference = Some p, m_start_index = i, m_length = l\<rparr>"
    "length (sr_data (objs (string_pool st) ! p)) < 2 ^ 64" "i + l \<le> length (sr_data (objs (string_pool st) ! p))"
    "t = take l (drop i (sr_data (objs (string_pool st) ! p)))" by (auto simp: shows_text_def)
  moreover have "p \<in># refs_of (handles st)"
    using handle_refs_in [of v "handles st"] assms(2) len h(1) by (simp add: handle_refs_def)
  moreover have "read_handle st v = Inr \<lparr>m_string_reference = Some p, m_start_index = i, m_length = l\<rparr>"
    using h(1) assms(2) len by (simp add: read_handle_def)
  ultimately show thesis using that by blast
qed

lemma sim_dead: "strings_sim st env \<Longrightarrow> dead env v \<Longrightarrow> handles st ! v = None"
  by (auto simp: strings_sim_def dead_def shows_text_def)

lemma sim_construct:
  assumes "strings_sim st env" "dead env v" "length env \<le> pool_size (string_pool st)" "length t < 2 ^ 64"
  shows "\<exists>st'. construct v t st = Inr st' \<and> strings_sim st' (env[v := Some t]) \<and>
    pool_size (string_pool st') = pool_size (string_pool st)"
proof -
  have len: "length (handles st) = length env" and ok: "strings_ok (string_pool st) (refs_of (handles st))"
    using assms(1) by (simp_all add: strings_sim_def)
  have v: "v < length env" "handles st ! v = None" using assms(1,2) sim_dead by (auto simp: dead_def)
  from size_refs_less [of v "handles st"] v len assms(3) have "size (refs_of (handles st)) < pool_size (string_pool st)" by simp
  from new_share_string_ok [OF ok this, of t] obtain p pl' where
    n: "new_share_string t (string_pool st) = Inr (\<lparr>m_string_reference = Some p, m_start_index = 0, m_length = length t\<rparr>, pl')"
    "strings_ok pl' (add_mset p (refs_of (handles st)))" "same_data (set_mset (refs_of (handles st))) (string_pool st) pl'"
    "sr_data (objs pl' ! p) = t" by blast
  have "strings_sim (set_handle v (Some \<lparr>m_string_reference = Some p, m_start_index = 0, m_length = length t\<rparr>) pl' st)
      (env[v := Some t])"
    by (rule sim_update [OF assms(1) v(1) _ n(3)]) (use n v assms(4) in \<open>simp_all add: handle_refs_def shows_text_def\<close>)
  with n show ?thesis by (simp add: construct_def set_handle_def same_data_def)
qed

text \<open>A second view of the string of a variable, in a variable that does not live yet.\<close>

lemma sim_share:
  assumes "strings_sim st env" "dead env v" "p \<in># refs_of (handles st)" "length env < 2 ^ 32"
    and "length (sr_data (objs (string_pool st) ! p)) < 2 ^ 64" "i + l \<le> length (sr_data (objs (string_pool st) ! p))"
  shows "strings_sim (set_handle v (Some \<lparr>m_string_reference = Some p, m_start_index = i, m_length = l\<rparr>) (retain p (string_pool st)) st)
    (env[v := Some (take l (drop i (sr_data (objs (string_pool st) ! p))))])"
    and "pool_size (retain p (string_pool st)) = pool_size (string_pool st)"
proof -
  have len: "length (handles st) = length env" and ok: "strings_ok (string_pool st) (refs_of (handles st))"
    using assms(1) by (simp_all add: strings_sim_def)
  have v: "v < length env" "handles st ! v = None" using assms(1,2) sim_dead by (auto simp: dead_def)
  from size_refs_less [of v "handles st"] v len assms(4) have "size (refs_of (handles st)) + 1 < 2 ^ 32" by simp
  from retain_ok [OF ok assms(3) this] have r: "strings_ok (retain p (string_pool st)) (add_mset p (refs_of (handles st)))"
    "same_data UNIV (string_pool st) (retain p (string_pool st))" by auto
  show "strings_sim (set_handle v (Some \<lparr>m_string_reference = Some p, m_start_index = i, m_length = l\<rparr>) (retain p (string_pool st)) st)
    (env[v := Some (take l (drop i (sr_data (objs (string_pool st) ! p))))])"
    by (rule sim_update [OF assms(1) v(1)])
       (use r v assms(5,6) in \<open>simp_all add: handle_refs_def shows_text_def same_data_def\<close>)
  show "pool_size (retain p (string_pool st)) = pool_size (string_pool st)" by (simp add: retain_def)
qed


lemma sim_destruct:
  assumes "strings_sim st env" "live env v"
  shows "\<exists>st'. destruct v st = Inr st' \<and> strings_sim st' (env[v := None]) \<and>
    pool_size (string_pool st') = pool_size (string_pool st)"
proof -
  obtain t where v: "v < length env" "env ! v = Some t" using assms(2) by (auto simp: live_def)
  from shared_sim_live [OF assms(1) v] obtain p i l where h: "handles st ! v = Some \<lparr>m_string_reference = Some p, m_start_index = i, m_length = l\<rparr>"
    "read_handle st v = Inr \<lparr>m_string_reference = Some p, m_start_index = i, m_length = l\<rparr>" "p \<in># refs_of (handles st)" by metis
  have ok: "strings_ok (string_pool st) (refs_of (handles st))" using assms(1) by (simp add: strings_sim_def)
  from check_release_ok [OF ok _ h(3), of "\<lparr>m_string_reference = Some p, m_start_index = i, m_length = l\<rparr>"] obtain ss' pl' where
    c: "check_release_current_data \<lparr>m_string_reference = Some p, m_start_index = i, m_length = l\<rparr> (string_pool st) = Inr (ss', pl')"
    "strings_ok pl' (refs_of (handles st) - {#p#})" "same_data UNIV (string_pool st) pl'" by auto
  have "strings_sim (set_handle v None pl' st) (env[v := None])"
    by (rule sim_update [OF assms(1) v(1)]) (use c h in \<open>simp_all add: handle_refs_def shows_text_def same_data_def\<close>)
  with c h show ?thesis by (simp add: destruct_def set_handle_def same_data_def)
qed

lemma sim_assign:
  assumes "strings_sim st env" "v \<noteq> w" "live env v" "live env w" "length env < 2 ^ 32"
  shows "\<exists>st'. assign v w st = Inr st' \<and> strings_sim st' (env[v := env ! w]) \<and>
    pool_size (string_pool st') = pool_size (string_pool st)"
proof -
  obtain t u where v: "v < length env" "env ! v = Some t" and w: "w < length env" "env ! w = Some u"
    using assms(3,4) by (auto simp: live_def)
  have len: "length (handles st) = length env" and ok: "strings_ok (string_pool st) (refs_of (handles st))"
    using assms(1) by (simp_all add: strings_sim_def)
  let ?R = "refs_of (handles st)"
  from shared_sim_live [OF assms(1) v] obtain p i l where h: "handles st ! v = Some \<lparr>m_string_reference = Some p, m_start_index = i, m_length = l\<rparr>"
    "read_handle st v = Inr \<lparr>m_string_reference = Some p, m_start_index = i, m_length = l\<rparr>" "p \<in># ?R" by metis
  from shared_sim_live [OF assms(1) w] obtain q j m where g: "handles st ! w = Some \<lparr>m_string_reference = Some q, m_start_index = j, m_length = m\<rparr>"
    "length (sr_data (objs (string_pool st) ! q)) < 2 ^ 64" "j + m \<le> length (sr_data (objs (string_pool st) ! q))"
    "u = take m (drop j (sr_data (objs (string_pool st) ! q)))" by metis
  let ?ss = "\<lparr>m_string_reference = Some p, m_start_index = i, m_length = l\<rparr>"
  from check_release_ok [OF ok _ h(3), of ?ss] obtain pl' where
    c: "check_release_current_data ?ss (string_pool st) = Inr (?ss\<lparr>m_string_reference := None\<rparr>, pl')"
    "strings_ok pl' (?R - {#p#})" "same_data UNIV (string_pool st) pl'" by auto
  \<comment> \<open>the reference of the source is still counted\<close>
  have "?R - {#p#} = refs_of ((handles st)[v := None])"
    using refs_of_update [of v "handles st" None] h(1) v(1) len by (simp add: handle_refs_def)
  with handle_refs_in [of w "(handles st)[v := None]"] assms(2) w(1) len g(1) have q: "q \<in># ?R - {#p#}"
    by (simp add: handle_refs_def)
  have "size (?R - {#p#}) + 1 \<le> length env"
    using h(3) size_refs_le [of "handles st"] len by (simp add: size_Diff_singleton size_eq_0_iff_empty) 
      (metis One_nat_def Suc_pred nonempty_has_size empty_iff set_mset_empty)
  with assms(5) have "size (?R - {#p#}) + 1 < 2 ^ 32" by linarith
  from retain_ok [OF c(2) q this] have r: "strings_ok (retain q pl') (add_mset q (?R - {#p#}))" "same_data UNIV pl' (retain q pl')"
    by auto
  let ?st1 = "set_handle v (Some (?ss\<lparr>m_string_reference := None\<rparr>)) pl' st"
  have "read_handle ?st1 w = Inr \<lparr>m_string_reference = Some q, m_start_index = j, m_length = m\<rparr>"
    using assms(2) w(1) len g(1) by (simp add: read_handle_def set_handle_def)
  then have a: "assign v w st = Inr (set_handle v (Some \<lparr>m_string_reference = Some q, m_start_index = j, m_length = m\<rparr>) (retain q pl') st)"
    using h(2) c(1) by (simp add: assign_def Let_def) (simp add: set_handle_def)
  have "strings_sim (set_handle v (Some \<lparr>m_string_reference = Some q, m_start_index = j, m_length = m\<rparr>) (retain q pl') st) (env[v := Some u])"
    by (rule sim_update [OF assms(1) v(1)])
       (use r c(3) g h in \<open>simp_all add: handle_refs_def shows_text_def same_data_def\<close>)
  with a c(3) w(2) show ?thesis by (simp add: set_handle_def same_data_def retain_def)
qed

lemma shared_sim_step:
  assumes "strings_sim st env" "allowed env act" "length env \<le> pool_size (string_pool st)" "length env < 2 ^ 32"
  shows "\<exists>st'. run_string_op st act = Inr st' \<and> strings_sim st' (spec_string_op env act) \<and>
    pool_size (string_pool st') = pool_size (string_pool st)"
proof (cases act)
  case (New_String v t)
  with assms sim_construct [OF assms(1), of v t] show ?thesis by simp
next
  case (Copy_String v w)
  with assms(2) obtain t where w: "w < length env" "env ! w = Some t" "dead env v" by (auto simp: live_def)
  from shared_sim_live [OF assms(1) w(1,2)] obtain p i l where
    "read_handle st w = Inr \<lparr>m_string_reference = Some p, m_start_index = i, m_length = l\<rparr>"
    "p \<in># refs_of (handles st)" "length (sr_data (objs (string_pool st) ! p)) < 2 ^ 64"
    "i + l \<le> length (sr_data (objs (string_pool st) ! p))" "t = take l (drop i (sr_data (objs (string_pool st) ! p)))" by metis
  with sim_share [OF assms(1) w(3) _ assms(4), of p i l] Copy_String w(2) show ?thesis
    by (simp add: construct_copy_def copy_share_string_def) (simp add: set_handle_def)
next
  case (Sub_String v w s n)
  with assms(2) obtain t where w: "w < length env" "env ! w = Some t" "dead env v" "s + n \<le> length t" by (auto simp: live_def)
  from shared_sim_live [OF assms(1) w(1,2)] obtain p i l where h:
    "read_handle st w = Inr \<lparr>m_string_reference = Some p, m_start_index = i, m_length = l\<rparr>"
    "p \<in># refs_of (handles st)" "length (sr_data (objs (string_pool st) ! p)) < 2 ^ 64"
    "i + l \<le> length (sr_data (objs (string_pool st) ! p))" "t = take l (drop i (sr_data (objs (string_pool st) ! p)))" by metis
  then have sn: "s + n \<le> l" "i + s + n \<le> length (sr_data (objs (string_pool st) ! p))" using w(4) by simp_all
  with h(3) have wrap: "(s + n) mod 2 ^ 64 = s + n" "(i + s) mod 2 ^ 64 = i + s" using h(4) by simp_all
  have "take n (drop s t) = take n (drop (i + s) (sr_data (objs (string_pool st) ! p)))"
    using sn(1) by (simp add: h(5) drop_take add.commute min_absorb1)
  with sim_share [OF assms(1) w(3) h(2) assms(4) h(3) sn(2)] Sub_String w(2) h(1) sn(1) wrap show ?thesis
    by (simp add: construct_substr_def from_substr_def copy_share_string_def) (simp add: set_handle_def)
next
  case (Assign_Copy v w)
  with assms sim_assign [OF assms(1), of v w] show ?thesis by simp
next
  case (Assign_Text v tmp t)
  with assms(2) have a: "live env v" "dead env tmp" "length t < 2 ^ 64" by simp_all
  then have ne: "v \<noteq> tmp" by (auto simp: live_def dead_def)
  from sim_construct [OF assms(1) a(2) assms(3) a(3)] obtain st1 where
    1: "construct tmp t st = Inr st1" "strings_sim st1 (env[tmp := Some t])" "pool_size (string_pool st1) = pool_size (string_pool st)"
    by blast
  have "live (env[tmp := Some t]) v" "live (env[tmp := Some t]) tmp" using a ne by (auto simp: live_def dead_def)
  from sim_assign [OF 1(2) ne this] assms(4) a(2) obtain st2 where
    2: "assign v tmp st1 = Inr st2" "strings_sim st2 (env[tmp := Some t, v := Some t])" "pool_size (string_pool st2) = pool_size (string_pool st)"
    using 1(3) by (auto simp: dead_def)
  have "live (env[tmp := Some t, v := Some t]) tmp" using a ne by (auto simp: live_def dead_def)
  from sim_destruct [OF 2(2) this] obtain st3 where
    3: "destruct tmp st2 = Inr st3" "strings_sim st3 (env[tmp := Some t, v := Some t, tmp := None])"
    "pool_size (string_pool st3) = pool_size (string_pool st)" using 2(3) by auto
  have "env[tmp := Some t, v := Some t, tmp := None] = env[v := Some t]"
    using a(2) ne by (simp add: list_update_swap [of tmp v] dead_def) (metis list_update_id list_update_swap)
  with 1 2 3 Assign_Text show ?thesis by (simp add: assign_string_def)
next
  case (Drop_String v)
  with assms sim_destruct [OF assms(1), of v] show ?thesis by simp
qed

lemma length_spec [simp]: "length (spec_string_op env act) = length env"
  by (cases act) simp_all

lemma sim_ops:
  "strings_sim st env \<Longrightarrow> legal env acts \<Longrightarrow> length env \<le> pool_size (string_pool st) \<Longrightarrow> length env < 2 ^ 32 \<Longrightarrow>
    \<exists>st'. foldE run_string_op st acts = Inr st' \<and> strings_sim st' (foldl spec_string_op env acts) \<and>
      pool_size (string_pool st') = pool_size (string_pool st)"
proof (induction acts arbitrary: st env)
  case (Cons act acts)
  then obtain st1 where 1: "run_string_op st act = Inr st1" "strings_sim st1 (spec_string_op env act)"
    "pool_size (string_pool st1) = pool_size (string_pool st)" using shared_sim_step [of st env act] by auto
  from Cons.IH [OF 1(2)] Cons.prems 1 show ?case by auto
qed simp

lemma sim_start:
  assumes "0 < n" "n < 2 ^ 64"
  shows "strings_sim (no_strings n k) (replicate k None)"
proof -
  have "refs_of (replicate k None) = {#}" unfolding refs_of_def by (induction k) (simp_all add: handle_refs_def)
  with assms show ?thesis
    by (auto simp: strings_sim_def no_strings_def strings_ok_def counts_ok_def new_pool_ok new_pool_free new_pool_size
        shows_text_def new_pool_def [THEN arg_cong, of objs])
qed

text \<open>
  C27: shared strings are values: with at most as many variables as the pool has strings, every
  program that constructs, copies, cuts (within the text), assigns (not to itself, see
  \<open>share_string_self_assignment\<close>) and destroys them, each variable while it lives, runs without error, each variable shows the text it would have as an ordinary string, and a reference is
  in use exactly while some variable points at it, so nothing leaks.
\<close>

theorem share_string_refines:
  assumes "0 < n" "n < 2 ^ 64" "k \<le> n" "k < 2 ^ 32" "legal (replicate k None) acts"
  shows "\<exists>st. foldE run_string_op (no_strings n k) acts = Inr st \<and>
    (\<forall>v < k. text_of st v = Inr (foldl spec_string_op (replicate k None) acts ! v)) \<and>
    distinct (pool_free (string_pool st)) \<and>
    set (pool_free (string_pool st)) = {..<n} - {p. \<exists>v < k. \<exists>ss. handles st ! v = Some ss \<and> m_string_reference ss = Some p}"
proof -
  have "pool_size (string_pool (no_strings n k)) = n" by (simp add: no_strings_def new_pool_size)
  with sim_ops [OF sim_start [OF assms(1,2)] assms(5)] assms(3,4) obtain st where
    st: "foldE run_string_op (no_strings n k) acts = Inr st"
    "strings_sim st (foldl spec_string_op (replicate k None) acts)" "pool_size (string_pool st) = n" by auto
  have "length (foldl spec_string_op env acts) = length env" for env by (induction acts arbitrary: env) simp_all
  then have len: "length (foldl spec_string_op (replicate k None) acts) = k" "length (handles st) = k"
    using st(2) by (simp_all add: strings_sim_def)
  have t: "text_of st v = Inr (foldl spec_string_op (replicate k None) acts ! v)" if "v < k" for v
  proof -
    have "shows_text (string_pool st) (handles st ! v) (foldl spec_string_op (replicate k None) acts ! v)"
      using st(2) len(1) that by (simp add: strings_sim_def)
    then show ?thesis by (auto simp: shows_text_def text_of_def share_data_def Let_def split: option.splits)
  qed
  have c: "counts_ok (\<lambda>p. sr_count (objs (string_pool st) ! p)) (pool_free (string_pool st)) n (refs_of (handles st))"
    using st(2,3) by (simp add: strings_sim_def strings_ok_def)
  have "set_mset (refs_of hs) = {p. \<exists>v < length hs. \<exists>ss. hs ! v = Some ss \<and> m_string_reference ss = Some p}" for hs
    unfolding refs_of_def
    by (induction hs) (auto simp: handle_refs_def less_Suc_eq_0_disj nth_Cons' split: option.splits)
  from this [of "handles st"] have "set_mset (refs_of (handles st)) = {p. \<exists>v < k. \<exists>ss. handles st ! v = Some ss \<and> m_string_reference ss = Some p}"
    unfolding len(2) .
  moreover from c have "distinct (pool_free (string_pool st))"
    "set (pool_free (string_pool st)) = {..<n} - set_mset (refs_of (handles st))"
    unfolding counts_ok_def by auto
  ultimately have "distinct (pool_free (string_pool st)) \<and> set (pool_free (string_pool st)) =
      {..<n} - {p. \<exists>v < k. \<exists>ss. handles st ! v = Some ss \<and> m_string_reference ss = Some p}" by simp
  with st(1) t show ?thesis by blast
qed


definition some_strings :: "string_op list" where
  "some_strings = [New_String 0 ''hello world'', Sub_String 1 0 6 5, New_String 2 ''x'', Assign_Copy 2 1,
     Drop_String 0, Assign_Text 1 0 ''bye'']"

theorem share_string_refines_witness:
  "\<exists>st. foldE run_string_op (no_strings 4 3) some_strings = Inr st \<and>
    text_of st 1 = Inr (Some ''bye'') \<and> text_of st 2 = Inr (Some ''world'') \<and> text_of st 0 = Inr None"
proof -
  have "legal (replicate 3 None) some_strings" 
    by (simp add: some_strings_def numeral_3_eq_3 dead_def live_def)
  with share_string_refines [of 4 3 some_strings] obtain st where
    st: "foldE run_string_op (no_strings 4 3) some_strings = Inr st"
    "\<forall>v < 3. text_of st v = Inr (foldl spec_string_op (replicate 3 None) some_strings ! v)" by auto
  have "foldl spec_string_op (replicate 3 None) some_strings = [None, Some ''bye'', Some ''world'']"
    by (simp add: some_strings_def numeral_3_eq_3)
  with st(2) have "text_of st 0 = Inr None" "text_of st 1 = Inr (Some ''bye'')" "text_of st 2 = Inr (Some ''world'')"
    by simp_all
  with st(1) show ?thesis by blast
qed

text \<open>
  The exception the discipline makes: a variable assigned to itself gives up its reference
  before it reads it, and \<open>retain\<close> is called on the null pointer.
\<close>

theorem share_string_self_assignment:
  assumes "strings_sim st env" "live env v"
  shows "assign v v st = Inl (UB Null_Pointer)"
proof -
  obtain t where v: "v < length env" "env ! v = Some t" using assms(2) by (auto simp: live_def)
  from shared_sim_live [OF assms(1) v] obtain p i l where h:
    "read_handle st v = Inr \<lparr>m_string_reference = Some p, m_start_index = i, m_length = l\<rparr>" "p \<in># refs_of (handles st)" by metis
  have ok: "strings_ok (string_pool st) (refs_of (handles st))" and len: "length (handles st) = length env"
    using assms(1) by (simp_all add: strings_sim_def)
  let ?ss = "\<lparr>m_string_reference = Some p, m_start_index = i, m_length = l\<rparr>"
  from check_release_ok [OF ok _ h(2), of ?ss] obtain pl' where
    "check_release_current_data ?ss (string_pool st) = Inr (?ss\<lparr>m_string_reference := None\<rparr>, pl')" by auto
  with h(1) v(1) len show ?thesis by (simp add: assign_def Let_def) (simp add: read_handle_def set_handle_def)
qed

theorem share_string_self_assignment_witness:
  "bindE (construct 0 ''a'' (no_strings 1 1)) (assign 0 0) = Inl (UB Null_Pointer)"
proof -
  have "strings_sim (no_strings 1 1) [None]" using sim_start [of 1 1] by simp
  from sim_construct [OF this, of 0 "''a''"] obtain st where st: "construct 0 ''a'' (no_strings 1 1) = Inr st"
    "strings_sim st [Some ''a'']" by (auto simp: dead_def no_strings_def new_pool_size)
  have "live [Some ''a''] 0" by (simp add: live_def)
  from share_string_self_assignment [OF st(2) this] st(1) show ?thesis by simp
qed

end
