(* ===== verification/JsonHeap.thy ===== *)
theory JsonHeap
  imports JsonParse RefCount
begin

section \<open>JSON values in memory (src/core/json)\<close>

text \<open>
  The theory \<open>Json\<close> takes a value for a tree. Here a \<open>Json\<close> is what the code has: a pointer to
  a pooled \<open>JsonValue\<close>, of which it is the only owner, or to a pooled \<open>JsonObject\<close>, which it
  shares with every copy and which a count of its owners keeps alive. The destructors and the
  assignments give objects back, and what an object owns goes with it.

  A \<open>Json&\<close> is a \<open>slot\<close>: a local variable, an entry of the table of an object, or an element of
  its vector. The table of an object is walked in the order of its list. A string in a value is
  taken for its text (theory \<open>ShareString\<close>).
\<close>

datatype jptr = Null_P | Value_P ptr | Object_P ptr

record 'd value_node =
  vn_value :: "'d jval"
  m_is_string_format :: bool

record object_node =
  reference_count :: u32
  m_is_array :: bool
  m_object :: "(string \<times> jptr) list"
  m_array :: "jptr list"

record 'd json_heap =
  value_pool :: "'d value_node pool"
  object_pool :: "object_node pool"
  locals :: "jptr list"

datatype slot = Local nat | Field ptr string | Elem ptr nat

definition value_class :: "'d value_node pool_class" where
  "value_class = \<lparr>type_name = ''JsonValue'', has_init = None, has_clear = None\<rparr>"

text \<open>\<open>JsonObject::init\<close> is a hook of the pool; \<open>clear\<close> destroys the \<open>Json\<close>s of the object and
  is written out in \<open>release_jsons\<close>.\<close>

definition object_class :: "object_node pool_class" where
  "object_class = \<lparr>type_name = ''JsonObject'', has_init = Some (\<lambda>n. n\<lparr>reference_count := 1\<rparr>), has_clear = None\<rparr>"

definition value_at :: "'d json_heap \<Rightarrow> ptr \<Rightarrow> 'd value_node" where
  "value_at h p = objs (value_pool h) ! p"

definition object_at :: "'d json_heap \<Rightarrow> ptr \<Rightarrow> object_node" where
  "object_at h p = objs (object_pool h) ! p"

definition set_value :: "ptr \<Rightarrow> 'd value_node \<Rightarrow> 'd json_heap \<Rightarrow> 'd json_heap" where
  "set_value p n h = h\<lparr>value_pool := (value_pool h)\<lparr>objs := (objs (value_pool h))[p := n]\<rparr>\<rparr>"

definition set_object :: "ptr \<Rightarrow> object_node \<Rightarrow> 'd json_heap \<Rightarrow> 'd json_heap" where
  "set_object p n h = h\<lparr>object_pool := (object_pool h)\<lparr>objs := (objs (object_pool h))[p := n]\<rparr>\<rparr>"

text \<open>Reading and writing through a reference that no longer denotes anything is undefined.\<close>

definition read_slot :: "'d json_heap \<Rightarrow> slot \<Rightarrow> jptr result" where
  "read_slot h s = (case s of
     Local v \<Rightarrow> if v < length (locals h) then Inr (locals h ! v) else Inl (UB Dangling_Iterator)
   | Field p k \<Rightarrow> (case map_of (m_object (object_at h p)) k of Some j \<Rightarrow> Inr j | None \<Rightarrow> Inl (UB Dangling_Iterator))
   | Elem p i \<Rightarrow> if i < length (m_array (object_at h p)) then Inr (m_array (object_at h p) ! i)
       else Inl (UB Dangling_Iterator))"

definition put_slot :: "slot \<Rightarrow> jptr \<Rightarrow> 'd json_heap \<Rightarrow> 'd json_heap" where
  "put_slot s j h = (case s of
     Local v \<Rightarrow> h\<lparr>locals := (locals h)[v := j]\<rparr>
   | Field p k \<Rightarrow> set_object p ((object_at h p)\<lparr>m_object := AList.update k j (m_object (object_at h p))\<rparr>) h
   | Elem p i \<Rightarrow> set_object p ((object_at h p)\<lparr>m_array := (m_array (object_at h p))[i := j]\<rparr>) h)"

definition write_slot :: "slot \<Rightarrow> jptr \<Rightarrow> 'd json_heap \<Rightarrow> 'd json_heap result" where
  "write_slot s j h = bindE (read_slot h s) (\<lambda>_. Inr (put_slot s j h))"

subsection \<open>Copying and releasing\<close>

definition acquire_value :: "'d json_heap \<Rightarrow> (ptr \<times> 'd json_heap) result" where
  "acquire_value h = bindE (acquire value_class (value_pool h)) (\<lambda>(p, pl). Inr (p, h\<lparr>value_pool := pl\<rparr>))"

definition acquire_object :: "'d json_heap \<Rightarrow> (ptr \<times> 'd json_heap) result" where
  "acquire_object h = bindE (acquire object_class (object_pool h)) (\<lambda>(p, pl). Inr (p, h\<lparr>object_pool := pl\<rparr>))"

definition get_copy :: "jptr \<Rightarrow> 'd json_heap \<Rightarrow> (jptr \<times> 'd json_heap) result" where
  "get_copy j h = (case j of
     Null_P \<Rightarrow> Inr (Null_P, h)
   | Value_P p \<Rightarrow> bindE (acquire_value h) (\<lambda>(q, h1). Inr (Value_P q, set_value q (value_at h1 p) h1))
   | Object_P p \<Rightarrow> Inr (Object_P p,
       set_object p ((object_at h p)\<lparr>reference_count := reference_count (object_at h p) + 1\<rparr>) h))"

definition children :: "object_node \<Rightarrow> jptr list" where
  "children n = map snd (m_object n) @ m_array n"

text \<open>
  The destructors, depth first: the list holds the \<open>Json\<close>s that are still to be destroyed.
  An object is given back to the pool before its \<open>clear\<close> destroys what it owns.
\<close>

function release_jsons :: "jptr list \<Rightarrow> 'd json_heap \<Rightarrow> 'd json_heap result" where
  "release_jsons [] h = Inr h"
| "release_jsons (Null_P # js) h = release_jsons js h"
| "release_jsons (Value_P p # js) h =
     (case release value_class (value_pool (set_value p ((value_at h p)\<lparr>vn_value := VNull\<rparr>) h)) (Some p) of
        Inl e \<Rightarrow> Inl e
      | Inr pl \<Rightarrow> release_jsons js (h\<lparr>value_pool := pl\<rparr>))"
| "release_jsons (Object_P p # js) h =
     (if p < length (objs (object_pool h)) then
        let n = object_at h p; h1 = set_object p (n\<lparr>reference_count := reference_count n - 1\<rparr>) h in
        if reference_count n = 1 then
          (case release object_class (object_pool h1) (Some p) of
             Inl e \<Rightarrow> Inl e
           | Inr pl \<Rightarrow> release_jsons (children n @ js) (set_object p
               (n\<lparr>reference_count := reference_count n - 1, m_object := [], m_array := [], m_is_array := False\<rparr>)
               (h1\<lparr>object_pool := pl\<rparr>)))
        else release_jsons js h1
      else Inl (UB Out_Of_Bounds))"
  by pat_completeness auto

lemma sum_list_update_nat: "p < length xs \<Longrightarrow> (\<Sum>x\<leftarrow>xs[p := y]. f x) + (f (xs ! p) :: nat) = (\<Sum>x\<leftarrow>xs. f x) + f y"
  by (rule sum_list_update_add)

definition owned :: "'d json_heap \<Rightarrow> nat" where
  "owned h = (\<Sum>n\<leftarrow>objs (object_pool h). length (children n))"

termination release_jsons
proof (relation "measure (\<lambda>(js, h). length js + owned h)", goal_cases)
  case (4 p js h n h1 pl)
  then have o: "objs pl = (objs (object_pool h))[p := n\<lparr>reference_count := reference_count n - 1\<rparr>]"
    using release_objs [of object_class "object_pool h1" p pl] by (simp add: object_class_def set_object_def)
  have "owned (set_object p (n\<lparr>reference_count := reference_count n - 1, m_object := [], m_array := [], m_is_array := False\<rparr>)
      (h1\<lparr>object_pool := pl\<rparr>)) + length (children n) = owned h"
    using sum_list_update_nat [of p "objs (object_pool h)" "\<lambda>n. length (children n)"] 4(1,2)
    by (simp add: owned_def set_object_def o object_at_def children_def)
  then show ?case by simp
next
  case (5 p js h n h1)
  then have "owned h1 = owned h"
    using sum_list_update_nat [of p "objs (object_pool h)" "\<lambda>n. length (children n)"
      "n\<lparr>reference_count := reference_count n - 1\<rparr>"]
    by (simp add: owned_def set_object_def object_at_def children_def)
  then show ?case by simp
qed (simp_all add: owned_def set_value_def)

subsection \<open>Constructors, destructor, assignment\<close>

definition construct_copy_json :: "nat \<Rightarrow> slot \<Rightarrow> 'd json_heap \<Rightarrow> 'd json_heap result" where
  "construct_copy_json v copy h = bindE (read_slot h copy) (\<lambda>j. bindE (get_copy j h) (\<lambda>(j', h). write_slot (Local v) j' h))"

definition construct_move_json :: "nat \<Rightarrow> slot \<Rightarrow> 'd json_heap \<Rightarrow> 'd json_heap result" where
  "construct_move_json v copy h = bindE (read_slot h copy) (\<lambda>j. bindE (write_slot (Local v) j h) (write_slot copy Null_P))"

definition destruct_json :: "nat \<Rightarrow> 'd json_heap \<Rightarrow> 'd json_heap result" where
  "destruct_json v h = bindE (read_slot h (Local v)) (\<lambda>j. bindE (release_jsons [j] h) (write_slot (Local v) Null_P))"

text \<open>The assignments release the old value before they look at the new one.\<close>

definition assign_copy :: "slot \<Rightarrow> slot \<Rightarrow> 'd json_heap \<Rightarrow> 'd json_heap result" where
  "assign_copy this copy h =
     (if this \<noteq> copy then
        bindE (read_slot h this) (\<lambda>old. bindE (release_jsons [old] h) (\<lambda>h.
        bindE (read_slot h copy) (\<lambda>j. bindE (get_copy j h) (\<lambda>(j', h). write_slot this j' h))))
      else Inr h)"

definition assign_move :: "slot \<Rightarrow> slot \<Rightarrow> 'd json_heap \<Rightarrow> 'd json_heap result" where
  "assign_move this copy h =
     (if this \<noteq> copy then
        bindE (read_slot h this) (\<lambda>old. bindE (release_jsons [old] h) (\<lambda>h.
        bindE (read_slot h copy) (\<lambda>j. bindE (write_slot this j h) (write_slot copy Null_P))))
      else Inr h)"

definition create_value_in :: "slot \<Rightarrow> 'd json_heap \<Rightarrow> 'd json_heap result" where
  "create_value_in s h = bindE (acquire_value h) (\<lambda>(p, h). write_slot s (Value_P p) h)"

definition create_object_in :: "slot \<Rightarrow> 'd json_heap \<Rightarrow> 'd json_heap result" where
  "create_object_in s h = bindE (acquire_object h) (\<lambda>(p, h). write_slot s (Object_P p) h)"

definition check_create_value :: "slot \<Rightarrow> 'd json_heap \<Rightarrow> 'd json_heap result" where
  "check_create_value s h = bindE (read_slot h s) (\<lambda>j. case j of
     Null_P \<Rightarrow> create_value_in s h
   | Value_P _ \<Rightarrow> Inr h
   | Object_P _ \<Rightarrow> bindE (release_jsons [j] h) (create_value_in s))"

definition check_create_object :: "slot \<Rightarrow> 'd json_heap \<Rightarrow> 'd json_heap result" where
  "check_create_object s h = bindE (read_slot h s) (\<lambda>j. case j of
     Null_P \<Rightarrow> create_object_in s h
   | Object_P _ \<Rightarrow> Inr h
   | Value_P _ \<Rightarrow> bindE (release_jsons [j] h) (create_object_in s))"

text \<open>Assigning what \<open>JsonValue\<close> converts a value to: the format flag stays as it is.\<close>

definition assign_value :: "slot \<Rightarrow> 'd jval \<Rightarrow> 'd json_heap \<Rightarrow> 'd json_heap result" where
  "assign_value s v h = bindE (check_create_value s h) (\<lambda>h. bindE (read_slot h s) (\<lambda>j. case j of
     Value_P p \<Rightarrow> Inr (set_value p ((value_at h p)\<lparr>vn_value := v\<rparr>) h)
   | _ \<Rightarrow> Inl (UB Bad_Cast)))"

definition set_string_format :: "slot \<Rightarrow> bool \<Rightarrow> 'd json_heap \<Rightarrow> 'd json_heap result" where
  "set_string_format s val h = bindE (read_slot h s) (\<lambda>j. case j of
     Null_P \<Rightarrow> Inr h
   | Value_P p \<Rightarrow> Inr (set_value p ((value_at h p)\<lparr>m_is_string_format := val\<rparr>) h)
   | Object_P _ \<Rightarrow> Inl (UB Bad_Cast))"

text \<open>Equality of two \<open>Json\<close>s is equality of their pointers.\<close>

definition json_same :: "slot \<Rightarrow> slot \<Rightarrow> 'd json_heap \<Rightarrow> bool result" where
  "json_same a b h = bindE (read_slot h a) (\<lambda>j. bindE (read_slot h b) (\<lambda>k. Inr (j = k)))"

subsection \<open>Objects and arrays\<close>

definition object_in :: "slot \<Rightarrow> 'd json_heap \<Rightarrow> (ptr \<times> 'd json_heap) result" where
  "object_in s h = bindE (check_create_object s h) (\<lambda>h. bindE (read_slot h s) (\<lambda>j. case j of
     Object_P p \<Rightarrow> Inr (p, h) | _ \<Rightarrow> Inl (UB Bad_Cast)))"

definition emplace_key :: "string \<Rightarrow> (string \<times> jptr) list \<Rightarrow> (string \<times> jptr) list" where
  "emplace_key k obj = (if map_of obj k = None then obj @ [(k, Null_P)] else obj)"

text \<open>The methods of \<open>JsonObject\<close>, on its fields.\<close>

definition node_at_key :: "string \<Rightarrow> object_node \<Rightarrow> object_node" where
  "node_at_key k n = n\<lparr>m_is_array := False, m_object := emplace_key k (m_object n)\<rparr>"

definition node_push :: "jptr \<Rightarrow> object_node \<Rightarrow> object_node" where
  "node_push j n = n\<lparr>m_is_array := True, m_array := m_array n @ [j]\<rparr>"

definition node_reverse :: "object_node \<Rightarrow> object_node" where
  "node_reverse n = n\<lparr>m_is_array := True, m_array := rev (m_array n)\<rparr>"

definition node_remove :: "string \<Rightarrow> object_node \<Rightarrow> object_node" where
  "node_remove k n = n\<lparr>m_is_array := False, m_object := AList.delete k (m_object n)\<rparr>"

definition node_has_field :: "string \<Rightarrow> object_node \<Rightarrow> bool" where
  "node_has_field k n = (if m_is_array n then False else map_of (m_object n) k \<noteq> None)"

definition node_size :: "object_node \<Rightarrow> int" where
  "node_size n = size_to_int (if m_is_array n then length (m_array n) else length (m_object n))"

definition slot_has_field :: "slot \<Rightarrow> string \<Rightarrow> 'd json_heap \<Rightarrow> bool result" where
  "slot_has_field s k h = bindE (read_slot h s) (\<lambda>j. case j of
     Null_P \<Rightarrow> Inl (UB Null_Pointer) | Value_P _ \<Rightarrow> Inr False | Object_P p \<Rightarrow> Inr (node_has_field k (object_at h p)))"

definition slot_size :: "slot \<Rightarrow> 'd json_heap \<Rightarrow> int result" where
  "slot_size s h = bindE (read_slot h s) (\<lambda>j. case j of
     Null_P \<Rightarrow> Inl (UB Null_Pointer) | Value_P _ \<Rightarrow> Inr 0 | Object_P p \<Rightarrow> Inr (node_size (object_at h p)))"

definition at_key :: "slot \<Rightarrow> string \<Rightarrow> 'd json_heap \<Rightarrow> (slot \<times> 'd json_heap) result" where
  "at_key s k h = bindE (object_in s h) (\<lambda>(p, h).
     Inr (Field p k, set_object p (node_at_key k (object_at h p)) h))"

text \<open>\<open>vector<Json>::resize\<close>; a \<open>Json\<close> takes eight bytes.\<close>

definition vector_max_size :: nat where
  "vector_max_size = 2 ^ 60 - 1"

definition resize :: "ptr \<Rightarrow> nat \<Rightarrow> 'd json_heap \<Rightarrow> 'd json_heap result" where
  "resize p n h = (if n \<le> vector_max_size then
     let arr = m_array (object_at h p) in
     release_jsons (drop n arr)
       (set_object p ((object_at h p)\<lparr>m_array := take n arr @ replicate (n - length arr) Null_P\<rparr>) h)
     else Inl (Throw Std_Length_Error))"

definition at_index :: "slot \<Rightarrow> nat \<Rightarrow> 'd json_heap \<Rightarrow> (slot \<times> 'd json_heap) result" where
  "at_index s i h = bindE (object_in s h) (\<lambda>(p, h).
     let h1 = set_object p ((object_at h p)\<lparr>m_is_array := True\<rparr>) h in
     bindE (if length (m_array (object_at h1 p)) \<le> i then resize p ((i + 1) mod 2 ^ 64) h1 else Inr h1) (\<lambda>h2.
       if i < length (m_array (object_at h2 p)) then Inr (Elem p i, h2) else Inl (UB Out_Of_Bounds)))"

definition push_back :: "slot \<Rightarrow> slot \<Rightarrow> 'd json_heap \<Rightarrow> 'd json_heap result" where
  "push_back s value h = bindE (object_in s h) (\<lambda>(p, h).
     bindE (read_slot h value) (\<lambda>j. bindE (get_copy j h) (\<lambda>(j', h).
       Inr (set_object p (node_push j' (object_at h p)) h))))"

definition set_array_size :: "slot \<Rightarrow> nat \<Rightarrow> 'd json_heap \<Rightarrow> 'd json_heap result" where
  "set_array_size s n h = bindE (object_in s h) (\<lambda>(p, h).
     resize p n (set_object p ((object_at h p)\<lparr>m_is_array := True\<rparr>) h))"

definition reverse_array :: "slot \<Rightarrow> 'd json_heap \<Rightarrow> 'd json_heap result" where
  "reverse_array s h = bindE (object_in s h) (\<lambda>(p, h). Inr (set_object p (node_reverse (object_at h p)) h))"

definition erase_field :: "slot \<Rightarrow> string \<Rightarrow> 'd json_heap \<Rightarrow> 'd json_heap result" where
  "erase_field s k h = bindE (read_slot h s) (\<lambda>j. case j of
     Null_P \<Rightarrow> Inl (UB Null_Pointer)
   | Value_P _ \<Rightarrow> Inr h
   | Object_P p \<Rightarrow> let h1 = set_object p (node_remove k (object_at h p)) h in
       (case map_of (m_object (object_at h p)) k of None \<Rightarrow> Inr h1 | Some old \<Rightarrow> release_jsons [old] h1))"

text \<open>The pairs of an initializer list are copied in; a key that is already there wins.\<close>

definition add_pair :: "ptr \<Rightarrow> string \<times> slot \<Rightarrow> 'd json_heap \<Rightarrow> 'd json_heap result" where
  "add_pair p kv h = bindE (read_slot h (snd kv)) (\<lambda>j. bindE (get_copy j h) (\<lambda>(j', h).
     let n = object_at h p in
     if map_of (m_object n) (fst kv) = None
     then Inr (set_object p (n\<lparr>m_is_array := False, m_object := m_object n @ [(fst kv, j')]\<rparr>) h)
     else release_jsons [j'] (set_object p (n\<lparr>m_is_array := False\<rparr>) h)))"

definition construct_pairs :: "nat \<Rightarrow> (string \<times> slot) list \<Rightarrow> 'd json_heap \<Rightarrow> 'd json_heap result" where
  "construct_pairs v kvs h = bindE (object_in (Local v) h) (\<lambda>(p, h). foldE (\<lambda>h kv. add_pair p kv h) h kvs)"

text \<open>The loops call their function on the \<open>Json\<close>s of an object or array.\<close>

definition object_for_each :: "(slot \<Rightarrow> 'd json_heap \<Rightarrow> 'd json_heap result) \<Rightarrow> ptr \<Rightarrow> 'd json_heap \<Rightarrow> 'd json_heap result" where
  "object_for_each f p h = foldE (\<lambda>h s. f s h) h
     (if \<not> m_is_array (object_at h p) then map (Field p \<circ> fst) (m_object (object_at h p))
      else map (Elem p) [0..<length (m_array (object_at h p))])"

definition object_for_each_with_key :: "(string \<Rightarrow> slot \<Rightarrow> 'd json_heap \<Rightarrow> 'd json_heap result) \<Rightarrow> ptr \<Rightarrow> 'd json_heap \<Rightarrow> 'd json_heap result" where
  "object_for_each_with_key f p h =
     (if \<not> m_is_array (object_at h p)
      then foldE (\<lambda>h k. f k (Field p k) h) h (map fst (m_object (object_at h p))) else Inr h)"

definition object_for_each_with_index :: "(nat \<Rightarrow> slot \<Rightarrow> 'd json_heap \<Rightarrow> 'd json_heap result) \<Rightarrow> ptr \<Rightarrow> 'd json_heap \<Rightarrow> 'd json_heap result" where
  "object_for_each_with_index f p h =
     (if m_is_array (object_at h p)
      then foldE (\<lambda>h i. f i (Elem p i) h) h [0..<length (m_array (object_at h p))] else Inr h)"

definition for_each :: "(slot \<Rightarrow> 'd json_heap \<Rightarrow> 'd json_heap result) \<Rightarrow> slot \<Rightarrow> 'd json_heap \<Rightarrow> 'd json_heap result" where
  "for_each f s h = bindE (read_slot h s) (\<lambda>j. case j of Object_P p \<Rightarrow> object_for_each f p h | _ \<Rightarrow> Inr h)"

definition for_each_with_key :: "(string \<Rightarrow> slot \<Rightarrow> 'd json_heap \<Rightarrow> 'd json_heap result) \<Rightarrow> slot \<Rightarrow> 'd json_heap \<Rightarrow> 'd json_heap result" where
  "for_each_with_key f s h = bindE (read_slot h s) (\<lambda>j. case j of Object_P p \<Rightarrow> object_for_each_with_key f p h | _ \<Rightarrow> Inr h)"

definition for_each_with_index :: "(nat \<Rightarrow> slot \<Rightarrow> 'd json_heap \<Rightarrow> 'd json_heap result) \<Rightarrow> slot \<Rightarrow> 'd json_heap \<Rightarrow> 'd json_heap result" where
  "for_each_with_index f s h = bindE (read_slot h s) (\<lambda>j. case j of Object_P p \<Rightarrow> object_for_each_with_index f p h | _ \<Rightarrow> Inr h)"

subsection \<open>Deep copies\<close>

text \<open>The recursion follows the structure, which may be cyclic, so it is given fuel.\<close>

function deep_clone :: "nat \<Rightarrow> jptr \<Rightarrow> 'd json_heap \<Rightarrow> (jptr \<times> 'd json_heap) result option"
  and clone_elems :: "nat \<Rightarrow> ptr \<Rightarrow> jptr list \<Rightarrow> 'd json_heap \<Rightarrow> 'd json_heap result option"
  and clone_fields :: "nat \<Rightarrow> ptr \<Rightarrow> (string \<times> jptr) list \<Rightarrow> 'd json_heap \<Rightarrow> 'd json_heap result option"
where
  "deep_clone n Null_P h = Some (Inr (Null_P, h))"
| "deep_clone n (Value_P p) h = Some (get_copy (Value_P p) h)"
| "deep_clone 0 (Object_P p) h = None"
| "deep_clone (Suc n) (Object_P p) h = bindP (Some (acquire_object h)) (\<lambda>(q, h).
     bindP (clone_elems n q (m_array (object_at h p))
        (set_object q ((object_at h q)\<lparr>m_is_array := m_is_array (object_at h p)\<rparr>) h)) (\<lambda>h.
     bindP (clone_fields n q (m_object (object_at h p)) h) (\<lambda>h. Some (Inr (Object_P q, h)))))"
| "clone_elems n q [] h = Some (Inr h)"
| "clone_elems n q (j # js) h = bindP (deep_clone n j h) (\<lambda>(j', h).
     clone_elems n q js (set_object q ((object_at h q)\<lparr>m_array := m_array (object_at h q) @ [j']\<rparr>) h))"
| "clone_fields n q [] h = Some (Inr h)"
| "clone_fields n q ((k, j) # kvs) h = bindP (deep_clone n j h) (\<lambda>(j', h).
     bindP (Some (write_slot (Field q k) j'
        (set_object q ((object_at h q)\<lparr>m_object := emplace_key k (m_object (object_at h q))\<rparr>) h)))
       (clone_fields n q kvs))"
  by pat_completeness auto

termination
  by (relation "measures [\<lambda>x. case x of Inl (n, _) \<Rightarrow> n | Inr (Inl (n, _)) \<Rightarrow> n | Inr (Inr (n, _)) \<Rightarrow> n,
    \<lambda>x. case x of Inl _ \<Rightarrow> 0 | Inr (Inl (_, _, js, _)) \<Rightarrow> length js | Inr (Inr (_, _, kvs, _)) \<Rightarrow> length kvs]") auto

definition deep_clone_into :: "nat \<Rightarrow> nat \<Rightarrow> slot \<Rightarrow> 'd json_heap \<Rightarrow> 'd json_heap result option" where
  "deep_clone_into n v s h = bindP (Some (read_slot h s)) (\<lambda>j. bindP (deep_clone n j h) (\<lambda>(j', h). Some (write_slot (Local v) j' h)))"

end
