(* ===== verification/JsonHeap_Inv.thy ===== *)
theory JsonHeap_Inv
  imports JsonHeap
begin

section \<open>Who owns the JSON values\<close>

text \<open>
  The references of a heap: one for each \<open>Json\<close> among the local variables and in the objects.
  \<open>heap_ok N h ks\<close>: in both pools the counts are right, where \<open>ks\<close> are pointers a running
  operation holds in its hands; no object has more than \<open>N\<close> owners, and free objects are empty.
\<close>

definition oref :: "jptr \<Rightarrow> ptr multiset" where
  "oref j = (case j of Object_P p \<Rightarrow> {#p#} | _ \<Rightarrow> {#})"

definition vref :: "jptr \<Rightarrow> ptr multiset" where
  "vref j = (case j of Value_P p \<Rightarrow> {#p#} | _ \<Rightarrow> {#})"

definition refs :: "(jptr \<Rightarrow> ptr multiset) \<Rightarrow> jptr list \<Rightarrow> ptr multiset" where
  "refs f js = (\<Sum>j\<leftarrow>js. f j)"

definition heap_refs :: "(jptr \<Rightarrow> ptr multiset) \<Rightarrow> 'd json_heap \<Rightarrow> ptr multiset" where
  "heap_refs f h = refs f (locals h) + (\<Sum>n\<leftarrow>objs (object_pool h). refs f (children n))"

definition free_objects :: "'d json_heap \<Rightarrow> ptr list" where
  "free_objects h = pool_free (object_pool h)"

definition free_values :: "'d json_heap \<Rightarrow> ptr list" where
  "free_values h = pool_free (value_pool h)"

definition blank :: "object_node \<Rightarrow> bool" where
  "blank n \<longleftrightarrow> m_object n = [] \<and> m_array n = [] \<and> \<not> m_is_array n"

definition heap_ok :: "nat \<Rightarrow> 'd json_heap \<Rightarrow> jptr list \<Rightarrow> bool" where
  "heap_ok N h ks \<longleftrightarrow>
     pool_ok (value_pool h) \<and> length (objs (value_pool h)) = pool_size (value_pool h) \<and>
     counts_ok (\<lambda>_. 1) (free_values h) (pool_size (value_pool h)) (heap_refs vref h + refs vref ks) \<and>
     pool_ok (object_pool h) \<and> length (objs (object_pool h)) = pool_size (object_pool h) \<and>
     counts_ok (\<lambda>p. reference_count (object_at h p)) (free_objects h) (pool_size (object_pool h)) (heap_refs oref h + refs oref ks) \<and>
     (\<forall>p. count (heap_refs oref h + refs oref ks) p \<le> N) \<and>
     (\<forall>p \<in> set (free_objects h). blank (object_at h p)) \<and>
     (\<forall>n \<in> set (objs (object_pool h)). distinct (map fst (m_object n)))"

lemma ref_simps [simp]:
  "refs f [] = {#}" "refs f (j # js) = f j + refs f js" "refs f (js @ ks) = refs f js + refs f ks"
  "oref Null_P = {#}" "oref (Value_P p) = {#}" "oref (Object_P p) = {#p#}"
  "vref Null_P = {#}" "vref (Value_P p) = {#p#}" "vref (Object_P p) = {#}"
  by (simp_all add: refs_def oref_def vref_def)

lemma refs_nulls [simp]: "f Null_P = {#} \<Longrightarrow> refs f (replicate n Null_P) = {#}"
  by (induction n) simp_all

lemma refs_rev [simp]: "refs f (rev js) = refs f js"
  by (induction js) (simp_all add: ac_simps)

lemma refs_list_update: "i < length js \<Longrightarrow> refs f (js[i := k]) + f (js ! i) = refs f js + f k"
  unfolding refs_def by (rule sum_list_update_add)

lemma refs_alist_update:
  "map_of kvs k = Some old \<Longrightarrow> refs f (map snd (AList.update k j kvs)) + f old = refs f (map snd kvs) + f j"
proof (induction kvs)
  case (Cons kv kvs)
  then show ?case by (cases kv; cases "fst kv = k") (auto simp: add.assoc ac_simps)
qed simp

lemma delete_absent: "k \<notin> fst ` set kvs \<Longrightarrow> AList.delete k kvs = kvs"
  by (induction kvs) auto

lemma refs_alist_delete:
  "distinct (map fst kvs) \<Longrightarrow> map_of kvs k = Some old \<Longrightarrow> refs f (map snd (AList.delete k kvs)) + f old = refs f (map snd kvs)"
proof (induction kvs)
  case (Cons kv kvs)
  then show ?case by (cases kv; cases "fst kv = k") (auto simp: add.assoc delete_absent add.commute)
qed simp

lemma map_of_absent: "map_of kvs k = None \<Longrightarrow> AList.delete k kvs = kvs"
  by (simp add: map_of_eq_None_iff delete_absent)

subsection \<open>Fields of a changed heap\<close>

lemma set_object_fields [simp]:
  "locals (set_object p n h) = locals h" "value_pool (set_object p n h) = value_pool h"
  "free_objects (set_object p n h) = free_objects h" "free_values (set_object p n h) = free_values h"
  "pool_ok (object_pool (set_object p n h)) = pool_ok (object_pool h)"
  "pool_size (object_pool (set_object p n h)) = pool_size (object_pool h)"
  "objs (object_pool (set_object p n h)) = (objs (object_pool h))[p := n]"
  "value_at (set_object p n h) = value_at h"
  by (simp_all add: set_object_def free_objects_def free_values_def pool_ok_def pool_free_def pool_size_def value_at_def fun_eq_iff)

lemma set_value_fields [simp]:
  "locals (set_value p n h) = locals h" "object_pool (set_value p n h) = object_pool h"
  "free_objects (set_value p n h) = free_objects h" "free_values (set_value p n h) = free_values h"
  "pool_ok (value_pool (set_value p n h)) = pool_ok (value_pool h)"
  "pool_size (value_pool (set_value p n h)) = pool_size (value_pool h)"
  "objs (value_pool (set_value p n h)) = (objs (value_pool h))[p := n]"
  "object_at (set_value p n h) = object_at h" "heap_refs f (set_value p n h) = heap_refs f h"
  by (simp_all add: set_value_def free_objects_def free_values_def pool_ok_def pool_free_def pool_size_def object_at_def
      fun_eq_iff heap_refs_def)

lemma object_at_set: "p < length (objs (object_pool h)) \<Longrightarrow> object_at (set_object p n h) q = (if q = p then n else object_at h q)"
  by (simp add: object_at_def)

lemma heap_refs_set_object:
  assumes "p < length (objs (object_pool h))"
  shows "heap_refs f (set_object p n h) + refs f (children (object_at h p)) = heap_refs f h + refs f (children n)"
  using sum_list_update_add [OF assms, of "\<lambda>n. refs f (children n)" n]
  by (simp add: heap_refs_def object_at_def add.assoc)

lemma exchange:
  fixes a b :: "'a multiset"
  assumes "a + x = b + y" "y + l = x + k"
  shows "a + l = b + k"
proof -
  have "(a + l) + (x + y) = (a + x) + (y + l)" by (simp only: ac_simps)
  also have "\<dots> = (b + y) + (x + k)" by (simp only: assms)
  also have "\<dots> = (b + k) + (x + y)" by (simp only: ac_simps)
  finally show ?thesis by simp
qed

text \<open>Changing the entries of an object, with the pointers in hand changed to match.\<close>

lemma heap_ok_set_object:
  assumes ok: "heap_ok N h ks" and p: "p < pool_size (object_pool h)" "p \<notin> set (free_objects h)"
    and c: "reference_count n = reference_count (object_at h p)" and d: "distinct (map fst (m_object n))"
    and r: "\<And>f. f \<in> {oref, vref} \<Longrightarrow> refs f (children n) + refs f ks' = refs f (children (object_at h p)) + refs f ks"
  shows "heap_ok N (set_object p n h) ks'"
proof -
  have l: "p < length (objs (object_pool h))" using ok p(1) by (simp add: heap_ok_def)
  have e: "heap_refs f (set_object p n h) + refs f ks' = heap_refs f h + refs f ks" if "f \<in> {oref, vref}" for f
    by (rule exchange [OF heap_refs_set_object [OF l] r [OF that]])
  have a: "reference_count (object_at (set_object p n h) q) = reference_count (object_at h q)" for q
    using c l by (simp add: object_at_set)
  have b: "\<forall>q \<in> set (free_objects h). blank (object_at (set_object p n h) q)"
    using ok p(2) l by (auto simp: heap_ok_def object_at_set)
  have g: "\<forall>m \<in> set (objs (object_pool (set_object p n h))). distinct (map fst (m_object m))"
    using ok d set_update_subset_insert [of "objs (object_pool h)" p n] by (auto simp: heap_ok_def)
  show ?thesis
    using ok b g unfolding heap_ok_def a e [of oref, simplified] e [of vref, simplified] by simp
qed


subsection \<open>Live objects\<close>

lemma heap_ok_object:
  assumes "heap_ok N h ks" "p \<in># heap_refs oref h + refs oref ks"
  shows "p < pool_size (object_pool h)" "p < length (objs (object_pool h))" "p \<notin> set (free_objects h)"
    "length (free_objects h) < pool_size (object_pool h)"
  using assms counts_ok_live counts_ok_free unfolding heap_ok_def by metis+

lemma heap_ok_value:
  assumes "heap_ok N h ks" "p \<in># heap_refs vref h + refs vref ks"
  shows "p < pool_size (value_pool h)" "p < length (objs (value_pool h))" "p \<notin> set (free_values h)"
    "length (free_values h) < pool_size (value_pool h)"
  using assms counts_ok_live counts_ok_free unfolding heap_ok_def by metis+

lemma refs_member: "j \<in> set js \<Longrightarrow> f j \<subseteq># refs f js"
  by (induction js) (auto intro: subset_mset.add_increasing)

lemma heap_refs_local: "j \<in> set (locals h) \<Longrightarrow> f j \<subseteq># heap_refs f h"
  unfolding heap_refs_def by (metis refs_member mset_subset_eq_add_left subset_mset.order_trans)

lemma heap_refs_child:
  assumes "p < length (objs (object_pool h))" "j \<in> set (children (object_at h p))"
  shows "f j \<subseteq># heap_refs f h"
proof -
  have "refs f (children (object_at h p)) \<subseteq># (\<Sum>n\<leftarrow>objs (object_pool h). refs f (children n))"
    unfolding object_at_def by (rule sum_list_update_mset(2) [OF assms(1)])
  with refs_member [OF assms(2), of f] show ?thesis
    unfolding heap_refs_def by (metis mset_subset_eq_add_right subset_mset.order_trans)
qed

text \<open>What an operation leaves alone: the local variables, and every node that is still live.\<close>

definition content :: "object_node \<Rightarrow> bool \<times> (string \<times> jptr) list \<times> jptr list" where
  "content n = (m_is_array n, m_object n, m_array n)"

definition kept :: "'d json_heap \<Rightarrow> 'd json_heap \<Rightarrow> bool" where
  "kept h h' \<longleftrightarrow> locals h' = locals h \<and> length (objs (object_pool h')) = length (objs (object_pool h)) \<and>
     length (objs (value_pool h')) = length (objs (value_pool h)) \<and>
     set (free_objects h) \<subseteq> set (free_objects h') \<and> set (free_values h) \<subseteq> set (free_values h') \<and>
     (\<forall>p. p \<notin> set (free_objects h') \<longrightarrow> content (object_at h' p) = content (object_at h p)) \<and>
     (\<forall>p. p \<notin> set (free_values h') \<longrightarrow> value_at h' p = value_at h p)"

lemma kept_refl [simp]: "kept h h"
  by (simp add: kept_def)

lemma kept_trans: "kept h h1 \<Longrightarrow> kept h1 h2 \<Longrightarrow> kept h h2"
  unfolding kept_def by (metis subsetD subset_trans)

lemma pool_upd_fields [simp]:
  "locals (h\<lparr>value_pool := vp\<rparr>) = locals h" "free_objects (h\<lparr>value_pool := vp\<rparr>) = free_objects h"
  "free_values (h\<lparr>value_pool := vp\<rparr>) = pool_free vp" "object_at (h\<lparr>value_pool := vp\<rparr>) = object_at h"
  "heap_refs f (h\<lparr>value_pool := vp\<rparr>) = heap_refs f h"
  "free_values (h\<lparr>object_pool := op\<rparr>) = free_values h" "free_objects (h\<lparr>object_pool := op\<rparr>) = pool_free op"
  "value_at (h\<lparr>object_pool := op\<rparr>) = value_at h"
  by (simp_all add: free_objects_def free_values_def object_at_def value_at_def fun_eq_iff heap_refs_def)

lemma release_value_step:
  assumes ok: "heap_ok N h (Value_P p # ks)"
  shows "\<exists>pl. release value_class (value_pool (set_value p ((value_at h p)\<lparr>vn_value := VNull\<rparr>) h)) (Some p) = Inr pl \<and>
    heap_ok N (h\<lparr>value_pool := pl\<rparr>) ks \<and> kept h (h\<lparr>value_pool := pl\<rparr>)"
proof -
  let ?h1 = "set_value p ((value_at h p)\<lparr>vn_value := VNull\<rparr>) h"
  have m: "p \<in># heap_refs vref h + refs vref (Value_P p # ks)" by simp
  note v = heap_ok_value [OF ok m]
  have "pool_ok (value_pool ?h1)" "length (pool_free (value_pool ?h1)) < pool_size (value_pool ?h1)"
    using ok v(4) by (simp_all add: heap_ok_def flip: free_values_def)
  from release_ok [OF this, of value_class p] obtain pl where pl:
    "release value_class (value_pool ?h1) (Some p) = Inr pl" "pool_ok pl" "pool_free pl = free_values h @ [p]"
    "pool_size pl = pool_size (value_pool h)" by (auto simp flip: free_values_def)
  have o: "objs pl = (objs (value_pool h))[p := (value_at h p)\<lparr>vn_value := VNull\<rparr>]"
    using release_objs [OF _ pl(1)] by (simp add: value_class_def)
  have "counts_ok (\<lambda>_. 1) (free_values h @ [p]) (pool_size (value_pool h)) (heap_refs vref h + refs vref (Value_P p # ks) - {#p#})"
    by (rule counts_ok_last [OF _ m]) (use ok in \<open>simp_all add: heap_ok_def\<close>)
  then have "heap_ok N (h\<lparr>value_pool := pl\<rparr>) ks" using ok pl(2-4) by (simp add: heap_ok_def o)
  moreover have "kept h (h\<lparr>value_pool := pl\<rparr>)"
    by (auto simp: kept_def pl(3) value_at_def o)
  ultimately show ?thesis using pl(1) by blast
qed

lemma drop_count_step:
  assumes ok: "heap_ok N h (Object_P p # ks)" and c: "reference_count (object_at h p) \<noteq> 1"
  shows "heap_ok N (set_object p ((object_at h p)\<lparr>reference_count := reference_count (object_at h p) - 1\<rparr>) h) ks"
    "kept h (set_object p ((object_at h p)\<lparr>reference_count := reference_count (object_at h p) - 1\<rparr>) h)"
proof -
  let ?n = "(object_at h p)\<lparr>reference_count := reference_count (object_at h p) - 1\<rparr>"
  let ?h1 = "set_object p ?n h"
  have m: "p \<in># heap_refs oref h + refs oref (Object_P p # ks)" by simp
  note v = heap_ok_object [OF ok m]
  have e: "heap_refs f ?h1 = heap_refs f h" for f :: "jptr \<Rightarrow> ptr multiset"
    using heap_refs_set_object [OF v(2), of f ?n] by (simp add: children_def)
  have cnt: "counts_ok (\<lambda>q. reference_count (object_at h q)) (free_objects h) (pool_size (object_pool h))
      (heap_refs oref h + refs oref (Object_P p # ks))" using ok by (simp only: heap_ok_def)
  have "counts_ok (\<lambda>q. reference_count (object_at ?h1 q)) (free_objects h) (pool_size (object_pool h))
      (heap_refs oref h + refs oref (Object_P p # ks) - {#p#})"
    by (rule counts_ok_drop [OF cnt m c]) (use v(2) in \<open>simp_all add: object_at_set\<close>)
  moreover have "\<forall>q. count (heap_refs oref h + refs oref ks) q \<le> N"
  proof
    fix q
    have "count (heap_refs oref h + refs oref ks) q \<le> count (heap_refs oref h + refs oref (Object_P p # ks)) q" by simp
    also have "\<dots> \<le> N" using ok by (simp only: heap_ok_def)
    finally show "count (heap_refs oref h + refs oref ks) q \<le> N" .
  qed
  moreover have "\<forall>n \<in> set (objs (object_pool ?h1)). distinct (map fst (m_object n))"
    using ok v(2) set_update_subset_insert [of "objs (object_pool h)" p ?n] by (auto simp: heap_ok_def object_at_def)
  ultimately show "heap_ok N ?h1 ks" using ok v(2,3) by (auto simp: heap_ok_def e object_at_set)
  show "kept h ?h1" using v(2) by (simp add: kept_def content_def object_at_set)
qed


lemma last_owner_step:
  fixes h :: "'d json_heap"
  assumes ok: "heap_ok N h (Object_P p # ks)" and c: "reference_count (object_at h p) = 1"
  defines "n \<equiv> object_at h p"
  defines "h1 \<equiv> set_object p (n\<lparr>reference_count := reference_count n - 1\<rparr>) h"
  shows "\<exists>pl. release object_class (object_pool h1) (Some p) = Inr pl \<and>
    (let h2 = set_object p (n\<lparr>reference_count := reference_count n - 1, m_object := [], m_array := [], m_is_array := False\<rparr>)
       (h1\<lparr>object_pool := pl\<rparr>) in heap_ok N h2 (children n @ ks) \<and> kept h h2 \<and> p \<in> set (free_objects h2))"
proof -
  have m: "p \<in># heap_refs oref h + refs oref (Object_P p # ks)" by simp
  note v = heap_ok_object [OF ok m]
  have "pool_ok (object_pool h1)" "length (pool_free (object_pool h1)) < pool_size (object_pool h1)"
    using ok v(4) by (simp_all add: heap_ok_def h1_def flip: free_objects_def)
  from release_ok [OF this, of object_class p] obtain pl where pl:
    "release object_class (object_pool h1) (Some p) = Inr pl" "pool_ok pl" "pool_free pl = free_objects h @ [p]"
    "pool_size pl = pool_size (object_pool h)" by (auto simp: h1_def simp flip: free_objects_def)
  have o: "objs pl = (objs (object_pool h))[p := n\<lparr>reference_count := reference_count n - 1\<rparr>]"
    using release_objs [OF _ pl(1)] by (simp add: object_class_def h1_def)
  let ?n = "n\<lparr>reference_count := reference_count n - 1, m_object := [], m_array := [], m_is_array := False\<rparr>"
  let ?h2 = "set_object p ?n (h1\<lparr>object_pool := pl\<rparr>)"
  have f2: "locals ?h2 = locals h" "value_pool ?h2 = value_pool h" "free_objects ?h2 = free_objects h @ [p]"
    "free_values ?h2 = free_values h" "pool_ok (object_pool ?h2)" "pool_size (object_pool ?h2) = pool_size (object_pool h)"
    "objs (object_pool ?h2) = (objs (object_pool h))[p := ?n]" "value_at ?h2 = value_at h"
    by (simp_all add: h1_def pl o)
  have a2: "object_at ?h2 q = (if q = p then ?n else object_at h q)" for q
    unfolding object_at_def f2(7) using v(2) by simp
  have e: "heap_refs f ?h2 + refs f (children n) = heap_refs f h" for f :: "jptr \<Rightarrow> ptr multiset"
  proof -
    have "refs f (children ?n) = {#}" by (simp add: children_def)
    with sum_list_update_add [OF v(2), of "\<lambda>n. refs f (children n)" ?n] show ?thesis
      unfolding heap_refs_def f2(1,7) by (simp add: n_def object_at_def add.assoc)
  qed
  have r: "heap_refs f ?h2 + refs f (children n @ ks) = heap_refs f h + refs f ks" for f :: "jptr \<Rightarrow> ptr multiset"
    using e [of f] by (simp add: add.assoc [symmetric])
  have cnt: "counts_ok (\<lambda>q. reference_count (object_at h q)) (free_objects h) (pool_size (object_pool h))
      (heap_refs oref h + refs oref (Object_P p # ks))" using ok by (simp only: heap_ok_def)
  have cnt2: "counts_ok (\<lambda>q. reference_count (object_at ?h2 q)) (free_objects h @ [p]) (pool_size (object_pool h))
      (heap_refs oref h + refs oref (Object_P p # ks) - {#p#})"
    by (rule counts_ok_last [OF cnt m c]) (simp add: a2)
  have bound: "count (heap_refs oref h + refs oref ks) q \<le> N" for q
  proof -
    have "count (heap_refs oref h + refs oref ks) q \<le> count (heap_refs oref h + refs oref (Object_P p # ks)) q" by simp
    also have "\<dots> \<le> N" using ok by (simp only: heap_ok_def)
    finally show ?thesis .
  qed
  have keys: "\<forall>n \<in> set (objs (object_pool ?h2)). distinct (map fst (m_object n))"
    unfolding f2(7) using ok set_update_subset_insert [of "objs (object_pool h)" p ?n] by (auto simp: heap_ok_def)
  have "\<forall>q \<in> set (free_objects ?h2). blank (object_at ?h2 q)"
    unfolding f2(3) a2 using ok by (auto simp: heap_ok_def blank_def)
  moreover have "counts_ok (\<lambda>_. 1) (free_values h) (pool_size (value_pool h)) (heap_refs vref h + refs vref ks)"
    using ok by (simp add: heap_ok_def)
  ultimately have "heap_ok N ?h2 (children n @ ks)"
    unfolding heap_ok_def r f2(2-4,6) using ok cnt2 bound keys f2(5) by (simp add: heap_ok_def o)
  moreover have "kept h ?h2"
    unfolding kept_def f2 a2 by (auto simp: content_def)
  moreover have "p \<in> set (free_objects ?h2)" by (simp only: f2(3)) simp
  ultimately show ?thesis using pl(1) by (simp only: Let_def) blast
qed

lemma release_jsons_ok:
  "heap_ok N h (js @ ks) \<Longrightarrow> \<exists>h'. release_jsons js h = Inr h' \<and> heap_ok N h' ks \<and> kept h h'"
proof (induction js h rule: release_jsons.induct)
  case (2 js h)
  then have "heap_ok N h (js @ ks)" by (simp add: heap_ok_def)
  with 2 show ?case by simp
next
  case (3 p js h)
  from release_value_step [of N h p "js @ ks"] "3.prems" obtain pl where
    pl: "release value_class (value_pool (set_value p ((value_at h p)\<lparr>vn_value := VNull\<rparr>) h)) (Some p) = Inr pl"
    "heap_ok N (h\<lparr>value_pool := pl\<rparr>) (js @ ks)" "kept h (h\<lparr>value_pool := pl\<rparr>)" by auto
  from "3.IH" [OF pl(1,2)] pl show ?case using kept_trans by (auto simp del: set_value_fields)
next
  case (4 p js h)
  have m: "p \<in># heap_refs oref h + refs oref (Object_P p # js @ ks)" by simp
  have ok: "heap_ok N h (Object_P p # js @ ks)" using "4.prems" by simp
  note v = heap_ok_object [OF ok m]
  let ?n = "object_at h p"
  let ?h1 = "set_object p (?n\<lparr>reference_count := reference_count ?n - 1\<rparr>) h"
  show ?case
  proof (cases "reference_count ?n = 1")
    case True
    let ?h2 = "\<lambda>pl. set_object p (?n\<lparr>reference_count := reference_count ?n - 1, m_object := [], m_array := [], m_is_array := False\<rparr>)
       (?h1\<lparr>object_pool := pl\<rparr>)"
    from last_owner_step [OF ok True] obtain pl where pl: "release object_class (object_pool ?h1) (Some p) = Inr pl"
      "heap_ok N (?h2 pl) (children ?n @ js @ ks)" "kept h (?h2 pl)" by (auto simp: Let_def)
    from "4.IH"(1) [OF v(2) refl refl True pl(1)] pl(2) obtain h' where
      h': "release_jsons (children ?n @ js) (?h2 pl) = Inr h'" "heap_ok N h' ks" "kept (?h2 pl) h'" by auto
    have "release_jsons (Object_P p # js) h = release_jsons (children ?n @ js) (?h2 pl)"
      using v(2) True pl(1) by (simp only: release_jsons.simps Let_def if_True sum.case simp_thms)
    with h' kept_trans [OF pl(3)] show ?thesis by auto
  next
    case False
    from drop_count_step [OF ok False] have 1: "heap_ok N ?h1 (js @ ks)" "kept h ?h1" by auto
    from "4.IH"(2) [OF v(2) refl refl False 1(1)] obtain h' where
      h': "release_jsons js ?h1 = Inr h'" "heap_ok N h' ks" "kept ?h1 h'" by auto
    have "release_jsons (Object_P p # js) h = release_jsons js ?h1"
      using v(2) False by (simp only: release_jsons.simps Let_def if_True if_False simp_thms)
    with h' kept_trans [OF 1(2)] show ?thesis by auto
  qed
qed simp_all

end
