(* ===== verification/JsonHeap_Slots.thy ===== *)
theory JsonHeap_Slots
  imports JsonHeap_Inv
begin

section \<open>Slots of live objects\<close>

text \<open>
  An object is reachable when a chain of pointers leads to it from one of the pointers \<open>R\<close>; a
  slot is good when it is a local variable or an entry of a reachable object. Reachable objects
  survive every release, and a good slot may be cleared while its old value is released.
\<close>

inductive reach :: "jptr set \<Rightarrow> 'd json_heap \<Rightarrow> ptr \<Rightarrow> bool" for R h where
  reach_root: "Object_P p \<in> R \<Longrightarrow> reach R h p"
| reach_child: "reach R h p \<Longrightarrow> Object_P q \<in> set (children (object_at h p)) \<Longrightarrow> reach R h q"

definition slot_ok :: "jptr set \<Rightarrow> 'd json_heap \<Rightarrow> slot \<Rightarrow> bool" where
  "slot_ok R h s = (case s of
     Local v \<Rightarrow> v < length (locals h)
   | Field p k \<Rightarrow> reach R h p \<and> map_of (m_object (object_at h p)) k \<noteq> None
   | Elem p i \<Rightarrow> reach R h p \<and> i < length (m_array (object_at h p)))"

definition slot_val :: "'d json_heap \<Rightarrow> slot \<Rightarrow> jptr" where
  "slot_val h s = (case s of
     Local v \<Rightarrow> locals h ! v
   | Field p k \<Rightarrow> the (map_of (m_object (object_at h p)) k)
   | Elem p i \<Rightarrow> m_array (object_at h p) ! i)"

lemma read_slot_ok: "slot_ok R h s \<Longrightarrow> read_slot h s = Inr (slot_val h s)"
  by (auto simp: slot_ok_def slot_val_def read_slot_def split: slot.splits)

lemma write_slot_ok: "slot_ok R h s \<Longrightarrow> write_slot s j h = Inr (put_slot s j h)"
  by (simp add: write_slot_def read_slot_ok)

lemma slot_child:
  assumes "slot_ok R h s" "s = Field p k \<or> s = Elem p i"
  shows "reach R h p" "slot_val h s \<in> set (children (object_at h p))"
proof -
  show "reach R h p" using assms by (auto simp: slot_ok_def)
  from assms(2) show "slot_val h s \<in> set (children (object_at h p))"
  proof
    assume f: "s = Field p k"
    with assms(1) obtain j where "map_of (m_object (object_at h p)) k = Some j" "slot_val h s = j"
      by (auto simp: slot_ok_def slot_val_def)
    then show ?thesis by (auto simp: children_def dest!: map_of_SomeD intro!: image_eqI [of _ snd "(k, j)"])
  next
    assume "s = Elem p i"
    with assms(1) show ?thesis by (simp add: slot_ok_def slot_val_def children_def)
  qed
qed

lemma reach_mono: "reach R h p \<Longrightarrow> R \<subseteq> R' \<Longrightarrow> reach R' h p"
  by (induction rule: reach.induct) (auto intro: reach.intros)

lemma slot_ok_mono: "slot_ok R h s \<Longrightarrow> R \<subseteq> R' \<Longrightarrow> slot_ok R' h s"
  by (auto simp: slot_ok_def dest: reach_mono split: slot.splits)

lemma reach_live:
  assumes "reach R h p" "heap_ok N h ks" "R \<subseteq> set (locals h) \<union> set ks"
  shows "p \<in># heap_refs oref h + refs oref ks"
  using assms
proof (induction rule: reach.induct)
  case (reach_root p)
  then consider "Object_P p \<in> set (locals h)" | "Object_P p \<in> set ks" by blast
  then show ?case
  proof cases
    case 1
    from heap_refs_local [OF this, of oref] show ?thesis by simp
  next
    case 2
    from refs_member [OF this, of oref] show ?thesis by simp
  qed
next
  case (reach_child p q)
  then have "p \<in># heap_refs oref h + refs oref ks" by blast
  from heap_ok_object(2) [OF reach_child.prems(1) this] reach_child.hyps(2) heap_refs_child [of p h "Object_P q" oref]
  show ?case by simp
qed

lemma reach_kept:
  assumes "reach R h p" "heap_ok N h' ks" "kept h h'" "R \<subseteq> set (locals h) \<union> set ks"
  shows "reach R h' p"
  using assms
proof (induction rule: reach.induct)
  case (reach_root p)
  then show ?case by (simp add: reach.reach_root)
next
  case (reach_child p q)
  then have r: "reach R h' p" by blast
  have "R \<subseteq> set (locals h') \<union> set ks" using reach_child.prems by (simp add: kept_def)
  from heap_ok_object(3) [OF reach_child.prems(1) reach_live [OF r reach_child.prems(1) this]]
  have "content (object_at h' p) = content (object_at h p)" using reach_child.prems(2) by (simp add: kept_def)
  then have "children (object_at h' p) = children (object_at h p)" by (simp add: content_def children_def)
  with r reach_child.hyps(2) show ?case using reach.reach_child by metis
qed

lemma slot_kept:
  assumes "slot_ok R h s" "heap_ok N h' ks" "kept h h'" "R \<subseteq> set (locals h) \<union> set ks"
  shows "slot_ok R h' s" "slot_val h' s = slot_val h s"
proof -
  have l: "locals h' = locals h" using assms(3) by (simp add: kept_def)
  have c: "m_object (object_at h' p) = m_object (object_at h p) \<and> m_array (object_at h' p) = m_array (object_at h p)"
    if "reach R h p" for p
  proof -
    have r: "reach R h' p" by (rule reach_kept [OF that assms(2-4)])
    have "p \<notin> set (free_objects h')"
      using heap_ok_object(3) [OF assms(2) reach_live [OF r assms(2)]] assms(4) l by simp
    with assms(3) show ?thesis by (auto simp: kept_def content_def)
  qed
  show "slot_ok R h' s" using assms(1) c reach_kept [OF _ assms(2-4)] l by (auto simp: slot_ok_def split: slot.splits)
  show "slot_val h' s = slot_val h s" using assms(1) c l by (auto simp: slot_ok_def slot_val_def split: slot.splits)
qed

subsection \<open>Writing a slot\<close>

lemma heap_refs_locals:
  assumes "v < length (locals h)"
  shows "heap_refs f (h\<lparr>locals := (locals h)[v := j]\<rparr>) + f (locals h ! v) = heap_refs f h + f j"
proof -
  let ?S = "(\<Sum>n\<leftarrow>objs (object_pool h). refs f (children n))"
  have "heap_refs f (h\<lparr>locals := (locals h)[v := j]\<rparr>) + f (locals h ! v) = refs f ((locals h)[v := j]) + f (locals h ! v) + ?S"
    by (simp add: heap_refs_def ac_simps)
  also have "\<dots> = heap_refs f h + f j" unfolding refs_list_update [OF assms] by (simp add: heap_refs_def ac_simps)
  finally show ?thesis .
qed

lemma locals_upd_fields [simp]:
  "free_objects (h\<lparr>locals := l\<rparr>) = free_objects h" "free_values (h\<lparr>locals := l\<rparr>) = free_values h"
  "object_at (h\<lparr>locals := l\<rparr>) = object_at h" "value_at (h\<lparr>locals := l\<rparr>) = value_at h"
  by (simp_all add: free_objects_def free_values_def object_at_def value_at_def fun_eq_iff)

lemma put_slot_ok:
  assumes ok: "heap_ok N h ks" and s: "slot_ok R h s" "R \<subseteq> set (locals h) \<union> set ks"
    and r: "\<And>f. f \<in> {oref, vref} \<Longrightarrow> f j + refs f ks' = f (slot_val h s) + refs f ks"
  shows "heap_ok N (put_slot s j h) ks'"
proof (cases s)
  case (Local v)
  have e: "heap_refs f (put_slot s j h) + refs f ks' = heap_refs f h + refs f ks" if "f \<in> {oref, vref}" for f
  proof -
    have "heap_refs f (put_slot s j h) + f (slot_val h s) = heap_refs f h + f j"
      using s(1) Local heap_refs_locals [of v h f j] by (simp add: slot_ok_def put_slot_def slot_val_def)
    from exchange [OF this r [OF that]] show ?thesis .
  qed
  have "object_at (put_slot s j h) = object_at h" "free_objects (put_slot s j h) = free_objects h"
    "free_values (put_slot s j h) = free_values h" "object_pool (put_slot s j h) = object_pool h"
    "value_pool (put_slot s j h) = value_pool h"
    by (simp_all add: put_slot_def Local)
  with ok show ?thesis unfolding heap_ok_def e [of oref, simplified] e [of vref, simplified] by simp
next
  case (Field p k)
  then have p: "reach R h p" and k: "map_of (m_object (object_at h p)) k = Some (slot_val h s)"
    using s(1) by (auto simp: slot_ok_def slot_val_def)
  note l = heap_ok_object [OF ok reach_live [OF p ok s(2)]]
  let ?n = "(object_at h p)\<lparr>m_object := AList.update k j (m_object (object_at h p))\<rparr>"
  have d: "distinct (map fst (m_object (object_at h p)))" using ok l(2) by (auto simp: heap_ok_def object_at_def)
  have "heap_ok N (set_object p ?n h) ks'"
  proof (rule heap_ok_set_object [OF ok l(1,3)])
    fix f assume f: "f \<in> {oref, vref}"
    have "refs f (children ?n) + f (slot_val h s) = refs f (children (object_at h p)) + f j"
      using refs_alist_update [OF k, of f j] by (simp add: children_def ac_simps)
    from exchange [OF this r [OF f]] show "refs f (children ?n) + refs f ks' = refs f (children (object_at h p)) + refs f ks" .
  qed (simp_all add: AList.distinct_update d)
  then show ?thesis by (simp add: put_slot_def Field)
next
  case (Elem p i)
  then have p: "reach R h p" and i: "i < length (m_array (object_at h p))" "m_array (object_at h p) ! i = slot_val h s"
    using s(1) by (auto simp: slot_ok_def slot_val_def)
  note l = heap_ok_object [OF ok reach_live [OF p ok s(2)]]
  let ?n = "(object_at h p)\<lparr>m_array := (m_array (object_at h p))[i := j]\<rparr>"
  have d: "distinct (map fst (m_object (object_at h p)))" using ok l(2) by (auto simp: heap_ok_def object_at_def)
  have "heap_ok N (set_object p ?n h) ks'"
  proof (rule heap_ok_set_object [OF ok l(1,3)])
    fix f assume f: "f \<in> {oref, vref}"
    have "refs f (children ?n) + f (slot_val h s) = refs f (children (object_at h p)) + f j"
      using refs_list_update [OF i(1), of f j] i(2) by (simp add: children_def add.assoc)
    from exchange [OF this r [OF f]] show "refs f (children ?n) + refs f ks' = refs f (children (object_at h p)) + refs f ks" .
  qed (simp_all add: d)
  then show ?thesis by (simp add: put_slot_def Elem)
qed


subsection \<open>Releasing the old value of a slot\<close>

text \<open>
  While a release runs, the slot still holds the pointer that is being released. The release
  does not look at it: it does what it would do if the slot had been set to null before.
\<close>

lemma release_other_objs:
  "has_clear c = None \<Longrightarrow> release c (pl\<lparr>objs := os\<rparr>) (Some p) =
    (case release c pl (Some p) of Inl e \<Rightarrow> Inl e | Inr pl' \<Rightarrow> Inr (pl'\<lparr>objs := os\<rparr>))"
  by (simp add: release_def pool_tail_def pool_size_def Let_def run_hook_def)

lemma release_locals:
  "release_jsons js (h\<lparr>locals := l\<rparr>) = (case release_jsons js h of Inl e \<Rightarrow> Inl e | Inr h' \<Rightarrow> Inr (h'\<lparr>locals := l\<rparr>))"
proof (induction js h rule: release_jsons.induct)
  case (3 p js h)
  have r: "release value_class (value_pool (set_value p ((value_at (h\<lparr>locals := l\<rparr>) p)\<lparr>vn_value := VNull\<rparr>) (h\<lparr>locals := l\<rparr>))) (Some p) =
      release value_class (value_pool (set_value p ((value_at h p)\<lparr>vn_value := VNull\<rparr>) h)) (Some p)"
    by (simp add: set_value_def)
  show ?case
  proof (cases "release value_class (value_pool (set_value p ((value_at h p)\<lparr>vn_value := VNull\<rparr>) h)) (Some p)")
    case (Inr pl)
    have "(h\<lparr>locals := l\<rparr>)\<lparr>value_pool := pl\<rparr> = (h\<lparr>value_pool := pl\<rparr>)\<lparr>locals := l\<rparr>" by simp
    with 3 [OF Inr] show ?thesis by (simp only: release_jsons.simps r Inr sum.case)
  qed (simp only: release_jsons.simps r sum.case)
next
  case (4 p js h)
  let ?n = "object_at h p"
  have c: "set_object p n (h\<lparr>locals := l\<rparr>) = (set_object p n h)\<lparr>locals := l\<rparr>" "(h\<lparr>locals := l\<rparr>)\<lparr>object_pool := pl\<rparr> = (h\<lparr>object_pool := pl\<rparr>)\<lparr>locals := l\<rparr>"
    for h :: "'a json_heap" and n pl by (simp_all add: set_object_def)
  have o: "objs (object_pool (h\<lparr>locals := l\<rparr>)) = objs (object_pool h)" "object_pool (h\<lparr>locals := l\<rparr>) = object_pool h"
    for h :: "'a json_heap" by simp_all
  show ?case
  proof (cases "p < length (objs (object_pool h))")
    case True
    show ?thesis
    proof (cases "reference_count ?n = 1")
      case rc: True
      show ?thesis
      proof (cases "release object_class (object_pool (set_object p (?n\<lparr>reference_count := reference_count ?n - 1\<rparr>) h)) (Some p)")
        case (Inr pl)
        from "4.IH"(1) [OF True refl refl rc Inr] Inr show ?thesis
          by (simp only: release_jsons.simps Let_def o True locals_upd_fields rc if_True c simp_thms sum.case)
      next
        case (Inl e)
        then show ?thesis
          by (simp only: release_jsons.simps Let_def o True locals_upd_fields rc if_True c simp_thms sum.case)
      qed
    next
      case rc: False
      from "4.IH"(2) [OF True refl refl rc] show ?thesis
        by (simp only: release_jsons.simps Let_def o True locals_upd_fields rc if_True if_False c simp_thms)
    qed
  qed simp
qed simp_all

definition upd_object :: "(object_node \<Rightarrow> object_node) \<Rightarrow> ptr \<Rightarrow> 'd json_heap \<Rightarrow> 'd json_heap" where
  "upd_object g p h = set_object p (g (object_at h p)) h"

lemma upd_object_at: "p < length (objs (object_pool h)) \<Longrightarrow> object_at (upd_object g p h) q = (if q = p then g (object_at h q) else object_at h q)"
  by (simp add: upd_object_def object_at_set)

lemma set_object_swap: "p \<noteq> q \<Longrightarrow> set_object p m (set_object q n h) = set_object q n (set_object p m h)"
  by (simp add: set_object_def list_update_swap)

lemma upd_set_object: "p \<noteq> q \<Longrightarrow> upd_object g p (set_object q n h) = set_object q n (upd_object g p h)"
  unfolding upd_object_def by (subst set_object_swap) (simp_all add: object_at_def)

lemma release_upd_object:
  assumes "heap_ok N h (js @ ks)" "release_jsons js h = Inr h'" "p \<notin> set (free_objects h')"
    and g: "\<And>n c. g (n\<lparr>reference_count := c\<rparr>) = (g n)\<lparr>reference_count := c\<rparr>"
      "\<And>n. reference_count (g n) = reference_count n"
  shows "release_jsons js (upd_object g p h) = Inr (upd_object g p h')"
  using assms(1-3)
proof (induction js h rule: release_jsons.induct)
  case (2 js h)
  then show ?case by (simp add: heap_ok_def)
next
  case (3 q js h)
  from release_value_step [of N h q "js @ ks"] "3.prems"(1) obtain pl where
    pl: "release value_class (value_pool (set_value q ((value_at h q)\<lparr>vn_value := VNull\<rparr>) h)) (Some q) = Inr pl"
    "heap_ok N (h\<lparr>value_pool := pl\<rparr>) (js @ ks)" by auto
  from "3.prems"(2) pl(1) have r: "release_jsons js (h\<lparr>value_pool := pl\<rparr>) = Inr h'" by (simp del: set_value_fields)
  have "value_at (upd_object g p h) = value_at h" "value_pool (upd_object g p h) = value_pool h" by (simp_all add: upd_object_def)
  then have "release value_class (value_pool (set_value q ((value_at (upd_object g p h) q)\<lparr>vn_value := VNull\<rparr>) (upd_object g p h))) (Some q) = Inr pl"
    using pl(1) by (simp add: set_value_def)
  moreover have "(upd_object g p h)\<lparr>value_pool := pl\<rparr> = upd_object g p (h\<lparr>value_pool := pl\<rparr>)"
    by (simp add: upd_object_def set_object_def object_at_def)
  ultimately show ?case using "3.IH" [OF pl(1,2) r "3.prems"(3)] by (simp del: set_value_fields)
next
  case (4 q js h)
  have ok: "heap_ok N h (Object_P q # js @ ks)" using "4.prems"(1) by simp
  have "q \<in># heap_refs oref h + refs oref (Object_P q # js @ ks)" by simp
  note v = heap_ok_object [OF ok this]
  let ?n = "object_at h q"
  let ?d = "\<lambda>n. n\<lparr>reference_count := reference_count n - 1\<rparr>"
  let ?e = "\<lambda>n. n\<lparr>reference_count := reference_count n - 1, m_object := [], m_array := [], m_is_array := False\<rparr>"
  let ?h1 = "set_object q (?d ?n) h"
  let ?u = "upd_object g p h"
  have lu: "q < length (objs (object_pool ?u))" using v(2) by (simp add: upd_object_def)
  show ?case
  proof (cases "reference_count ?n = 1")
    case True
    from last_owner_step [OF ok True] obtain pl where pl: "release object_class (object_pool ?h1) (Some q) = Inr pl"
      "heap_ok N (set_object q (?e ?n) (?h1\<lparr>object_pool := pl\<rparr>)) (children ?n @ js @ ks)" by (auto simp: Let_def)
    let ?h2 = "set_object q (?e ?n) (?h1\<lparr>object_pool := pl\<rparr>)"
    have r: "release_jsons (children ?n @ js) ?h2 = Inr h'"
      using "4.prems"(2) v(2) True pl(1) by (simp only: release_jsons.simps Let_def if_True sum.case simp_thms)
    have ok2: "heap_ok N ?h2 ((children ?n @ js) @ ks)" using pl(2) by simp
    from release_jsons_ok [OF ok2] r have "kept ?h2 h'" by auto
    then have "set (pool_free pl) \<subseteq> set (free_objects h')" by (simp add: kept_def)
    moreover have "q \<in> set (pool_free pl)"
    proof -
      have "pool_ok (object_pool ?h1)" "length (pool_free (object_pool ?h1)) < pool_size (object_pool ?h1)"
        using ok v(4) by (simp_all add: heap_ok_def flip: free_objects_def)
      from release_ok [OF this, of object_class q] pl(1) show ?thesis by auto
    qed
    ultimately have ne: "p \<noteq> q" using "4.prems"(3) by auto
    have at: "object_at ?u q = ?n" using ne v(2) by (simp add: object_at_def upd_object_def)
    have "objs pl = objs (object_pool ?h1)"
      using release_objs [OF _ pl(1)] by (simp add: object_class_def)
    moreover have pu: "object_pool (set_object q (?d ?n) ?u) = (object_pool ?h1)\<lparr>objs := (objs (object_pool ?h1))[p := g (object_at h p)]\<rparr>"
      using ne by (simp add: upd_object_def set_object_def list_update_swap)
    ultimately have rel: "release object_class (object_pool (set_object q (?d ?n) ?u)) (Some q) = Inr (pl\<lparr>objs := (objs pl)[p := g (object_at h p)]\<rparr>)"
      unfolding pu using pl(1) by (subst release_other_objs) (simp_all add: object_class_def)
    have "set_object q (?e ?n) ((set_object q (?d ?n) ?u)\<lparr>object_pool := pl\<lparr>objs := (objs pl)[p := g (object_at h p)]\<rparr>\<rparr>) = upd_object g p ?h2"
      using ne \<open>objs pl = objs (object_pool ?h1)\<close>
      by (simp add: upd_object_def set_object_def object_at_def list_update_swap)
    with "4.IH"(1) [OF v(2) refl refl True pl(1) ok2 r "4.prems"(3)] show ?thesis
      using lu True rel by (simp only: release_jsons.simps Let_def at if_True sum.case simp_thms)
  next
    case False
    from drop_count_step(1) [OF ok False] have ok1: "heap_ok N ?h1 (js @ ks)" .
    have r: "release_jsons js ?h1 = Inr h'"
      using "4.prems"(2) v(2) False by (simp only: release_jsons.simps Let_def if_True if_False simp_thms)
    have "reference_count (object_at ?u q) \<noteq> 1" 
      using False g(2) v(2) by (cases "p = q") (simp_all add: upd_object_def object_at_def)
    moreover have "set_object q (?d (object_at ?u q)) ?u = upd_object g p ?h1"
    proof (cases "p = q")
      case True
      then show ?thesis using g v(2) by (simp add: upd_object_def set_object_def object_at_def)
    next
      case ne: False
      then show ?thesis using v(2) by (simp add: upd_set_object) (simp add: upd_object_def object_at_def)
    qed
    ultimately show ?thesis
      using "4.IH"(2) [OF v(2) refl refl False ok1 r "4.prems"(3)] lu
      by (simp only: release_jsons.simps Let_def if_True if_False simp_thms)
  qed
qed simp_all


lemma slot_bound:
  assumes "heap_ok N h ks" "slot_ok R h s" "R \<subseteq> set (locals h) \<union> set ks"
  shows "s = Field p k \<or> s = Elem p i \<Longrightarrow> p < length (objs (object_pool h))"
  using assms reach_live [OF _ assms(1,3)] heap_ok_object(2) [OF assms(1)] by (auto simp: slot_ok_def)

lemma put_put_slot:
  assumes "heap_ok N h ks" "slot_ok R h s" "R \<subseteq> set (locals h) \<union> set ks"
  shows "put_slot s j (put_slot s k h) = put_slot s j h" "put_slot s (slot_val h s) h = h"
proof -
  note b = slot_bound [OF assms]
  show "put_slot s j (put_slot s k h) = put_slot s j h"
    using b by (cases s) (simp_all add: put_slot_def object_at_set, simp_all add: set_object_def object_at_def)
  show "put_slot s (slot_val h s) h = h"
  proof (cases s)
    case (Field p k)
    with assms(2) have "AList.update k (slot_val h s) (m_object (object_at h p)) = m_object (object_at h p)"
      by (auto simp: slot_ok_def slot_val_def intro: update_triv)
    with Field show ?thesis by (simp add: put_slot_def set_object_def object_at_def)
  qed (simp_all add: put_slot_def slot_val_def set_object_def object_at_def)
qed

lemma slot_put:
  assumes "heap_ok N h ks" "slot_ok R h s" "R \<subseteq> set (locals h) \<union> set ks"
  shows "slot_ok R (put_slot s j h) s" "slot_val (put_slot s j h) s = j"
proof -
  note b = slot_bound [OF assms]
  have r: "reach R (put_slot s j h) p" if p: "s = Field p k \<or> s = Elem p i" for p k i
  proof -
    have at: "object_at (put_slot s j h) q = object_at h q" if "q \<noteq> p" for q
      using p that b by (auto simp: put_slot_def object_at_set)
    have "reach R h q \<Longrightarrow> reach R (put_slot s j h) p \<or> reach R (put_slot s j h) q" for q
    proof (induction rule: reach.induct)
      case (reach_root q)
      then show ?case by (blast intro: reach.reach_root)
    next
      case (reach_child q q')
      then show ?case using at reach.reach_child by metis
    qed
    from this [of p] p assms(2) show ?thesis by (auto simp: slot_ok_def)
  qed
  show "slot_ok R (put_slot s j h) s"
    using assms(2) b r by (cases s) (auto simp: slot_ok_def put_slot_def object_at_set update_conv')
  show "slot_val (put_slot s j h) s = j"
    using assms(2) b by (cases s) (auto simp: slot_ok_def slot_val_def put_slot_def object_at_set update_conv')
qed

text \<open>The pointers the validity of a slot rests on: none, for a variable.\<close>

definition slot_roots :: "jptr set \<Rightarrow> slot \<Rightarrow> jptr set" where
  "slot_roots R s = (case s of Local _ \<Rightarrow> {} | _ \<Rightarrow> R)"

lemma release_slot:
  assumes ok: "heap_ok N h ks" and s: "slot_ok R h s" "R \<subseteq> set (locals h) \<union> set ks"
  shows "\<exists>h1. release_jsons [slot_val h s] h = Inr (put_slot s (slot_val h s) h1) \<and> heap_ok N h1 ks \<and>
    kept (put_slot s Null_P h) h1 \<and> (\<forall>j. put_slot s j (put_slot s (slot_val h s) h1) = put_slot s j h1) \<and>
    slot_ok (slot_roots R s) h1 s \<and> slot_roots R s \<subseteq> set (locals h1) \<union> set ks \<and> slot_val h1 s = Null_P"
proof -
  let ?h0 = "put_slot s Null_P h" and ?old = "slot_val h s"
  let ?R = "slot_roots R s"
  have s': "slot_ok ?R h s" "?R \<subseteq> set (locals h) \<union> set ks" "?R \<subseteq> set (locals ?h0) \<union> set ks"
    using s by (auto simp: slot_roots_def slot_ok_def put_slot_def split: slot.splits)
  have ok0: "heap_ok N ?h0 ([?old] @ ks)" by (rule put_slot_ok [OF ok s'(1,2)]) auto
  from release_jsons_ok [OF ok0] obtain h1 where h1: "release_jsons [?old] ?h0 = Inr h1" "heap_ok N h1 ks" "kept ?h0 h1" by blast
  note p0 = slot_put [OF ok s'(1,2), of Null_P]
  note s1 = slot_kept [OF p0(1) h1(2,3) s'(3)]
  have l1: "?R \<subseteq> set (locals h1) \<union> set ks" using s'(3) h1(3) by (simp add: kept_def)
  have restored: "put_slot s ?old ?h0 = h" using put_put_slot [OF ok s'(1,2)] by metis
  have "release_jsons [?old] (put_slot s ?old ?h0) = Inr (put_slot s ?old h1)"
  proof (cases s)
    case (Local v)
    have e: "put_slot s ?old ?h0 = ?h0\<lparr>locals := locals h\<rparr>" "put_slot s ?old h1 = h1\<lparr>locals := locals h\<rparr>"
      using h1(3) Local restored s(1) by (auto simp: put_slot_def kept_def slot_val_def)
    show ?thesis unfolding e release_locals h1(1) by simp
  next
    case (Field p k)
    have u: "put_slot s ?old h = upd_object (\<lambda>n. n\<lparr>m_object := AList.update k ?old (m_object n)\<rparr>) p h" for h :: "'a json_heap"
      by (simp add: put_slot_def Field upd_object_def)
    have "reach ?R h1 p" using s1(1) Field by (simp add: slot_ok_def)
    from heap_ok_object(3) [OF h1(2) reach_live [OF this h1(2) l1]] have "p \<notin> set (free_objects h1)" .
    from release_upd_object [OF ok0 h1(1) this] show ?thesis unfolding u by simp
  next
    case (Elem p i)
    have u: "put_slot s ?old h = upd_object (\<lambda>n. n\<lparr>m_array := (m_array n)[i := ?old]\<rparr>) p h" for h :: "'a json_heap"
      by (simp add: put_slot_def Elem upd_object_def)
    have "reach ?R h1 p" using s1(1) Elem by (simp add: slot_ok_def)
    from heap_ok_object(3) [OF h1(2) reach_live [OF this h1(2) l1]] have "p \<notin> set (free_objects h1)" .
    from release_upd_object [OF ok0 h1(1) this] show ?thesis unfolding u by simp
  qed
  then have "release_jsons [?old] h = Inr (put_slot s ?old h1)" by (simp add: restored)
  with h1 s1 l1 p0(2) put_put_slot(1) [OF h1(2) s1(1) l1] show ?thesis by metis
qed

end
