(* ===== verification/JsonHeap_Ops.thy ===== *)
theory JsonHeap_Ops
  imports JsonHeap_Slots
begin

section \<open>The operations keep the counts right\<close>

text \<open>
  Every access, copy, assignment, clone and release on the heap of \<open>JsonHeap\<close> leaves each reference
  count equal to the number of references.
\<close>

subsection \<open>Taking from the pools\<close>

text \<open>What an operation that only takes from the pools leaves alone.\<close>

definition grown :: "'d json_heap \<Rightarrow> 'd json_heap \<Rightarrow> bool" where
  "grown h h' \<longleftrightarrow> locals h' = locals h \<and> length (objs (object_pool h')) = length (objs (object_pool h)) \<and>
     length (objs (value_pool h')) = length (objs (value_pool h)) \<and>
     (\<forall>p. p \<notin> set (free_objects h) \<longrightarrow> content (object_at h' p) = content (object_at h p)) \<and>
     (\<forall>p. p \<notin> set (free_values h) \<longrightarrow> value_at h' p = value_at h p) \<and>
     set (free_objects h') \<subseteq> set (free_objects h) \<and> set (free_values h') \<subseteq> set (free_values h)"

lemma grown_refl [simp]: "grown h h"
  by (simp add: grown_def)

lemma grown_trans: "grown h h1 \<Longrightarrow> grown h1 h2 \<Longrightarrow> grown h h2"
  unfolding grown_def by (metis subsetD subset_trans)

lemma reach_grown:
  assumes "reach R h p" "heap_ok N h ks" "grown h h'" "R \<subseteq> set (locals h) \<union> set ks"
  shows "reach R h' p"
  using assms
proof (induction rule: reach.induct)
  case (reach_root p)
  then show ?case by (simp add: reach.reach_root)
next
  case (reach_child p q)
  then have r: "reach R h' p" by blast
  from heap_ok_object(3) [OF reach_child.prems(1) reach_live [OF reach_child.hyps(1) reach_child.prems(1,3)]]
  have "content (object_at h' p) = content (object_at h p)" using reach_child.prems(2) by (simp add: grown_def)
  then have "children (object_at h' p) = children (object_at h p)" by (simp add: content_def children_def)
  with r reach_child.hyps(2) show ?case using reach.reach_child by metis
qed

lemma slot_grown:
  assumes "slot_ok R h s" "heap_ok N h ks" "grown h h'" "R \<subseteq> set (locals h) \<union> set ks"
  shows "slot_ok R h' s" "slot_val h' s = slot_val h s"
proof -
  have l: "locals h' = locals h" using assms(3) by (simp add: grown_def)
  have c: "m_object (object_at h' p) = m_object (object_at h p) \<and> m_array (object_at h' p) = m_array (object_at h p)"
    if "reach R h p" for p
    using heap_ok_object(3) [OF assms(2) reach_live [OF that assms(2,4)]] assms(3) by (simp add: grown_def content_def)
  show "slot_ok R h' s" using assms(1) c reach_grown [OF _ assms(2-4)] l by (auto simp: slot_ok_def split: slot.splits)
  show "slot_val h' s = slot_val h s" using assms(1) c l by (auto simp: slot_ok_def slot_val_def split: slot.splits)
qed

lemma acquire_empty: "pool_ok pl \<Longrightarrow> pool_free pl = [] \<Longrightarrow> \<exists>m. acquire c pl = Inl (Throw (Runtime_Error m))"
  by (simp add: acquire_def pool_free_def flip: length_0_conv)

lemma acquire_value_fine:
  assumes ok: "heap_ok N h ks"
  shows "fine (\<lambda>(p, h'). heap_ok N h' (Value_P p # ks) \<and> grown h h' \<and> p \<in> set (free_values h)) (acquire_value h)"
proof (cases "free_values h")
  case Nil
  with ok acquire_empty [of "value_pool h" value_class] show ?thesis
    by (auto simp: acquire_value_def heap_ok_def free_values_def fine_def)
next
  case (Cons p fr)
  have "pool_ok (value_pool h)" using ok by (simp add: heap_ok_def)
  from acquire_ok [OF this, of p fr value_class] Cons obtain pl where
    a: "acquire value_class (value_pool h) = Inr (p, pl)" "pool_ok pl" "pool_free pl = fr" "pool_size pl = pool_size (value_pool h)"
    by (auto simp: free_values_def)
  have o: "objs pl = objs (value_pool h)" using acquire_objs_hook [OF a(1)] by (simp add: value_class_def run_hook_def)
  have cnt: "counts_ok (\<lambda>_. 1) (p # fr) (pool_size (value_pool h)) (heap_refs vref h + refs vref ks)"
    using ok Cons by (simp add: heap_ok_def)
  have "counts_ok (\<lambda>_. 1) fr (pool_size (value_pool h)) (add_mset p (heap_refs vref h + refs vref ks))"
    by (rule counts_ok_fresh [OF cnt]) simp_all
  then have "heap_ok N (h\<lparr>value_pool := pl\<rparr>) (Value_P p # ks)" using ok a(2-4) by (simp add: heap_ok_def o)
  moreover have "grown h (h\<lparr>value_pool := pl\<rparr>)" using Cons a(3) by (auto simp: grown_def value_at_def o)
  ultimately show ?thesis using Cons by (simp add: acquire_value_def a(1))
qed

lemma acquire_object_fine:
  assumes ok: "heap_ok N h ks" and N: "1 \<le> N"
  shows "fine (\<lambda>(p, h'). heap_ok N h' (Object_P p # ks) \<and> grown h h' \<and> p \<in> set (free_objects h) \<and> blank (object_at h' p)) (acquire_object h)"
proof (cases "free_objects h")
  case Nil
  with ok acquire_empty [of "object_pool h" object_class] show ?thesis
    by (auto simp: acquire_object_def heap_ok_def free_objects_def fine_def)
next
  case (Cons p fr)
  have "pool_ok (object_pool h)" using ok by (simp add: heap_ok_def)
  from acquire_ok [OF this, of p fr object_class] Cons obtain pl where
    a: "acquire object_class (object_pool h) = Inr (p, pl)" "pool_ok pl" "pool_free pl = fr" "pool_size pl = pool_size (object_pool h)"
    by (auto simp: free_objects_def)
  have o: "objs pl = (objs (object_pool h))[p := (object_at h p)\<lparr>reference_count := 1\<rparr>]"
    using acquire_objs_hook [OF a(1)] by (simp add: object_class_def run_hook_def object_at_def)
  have cnt: "counts_ok (\<lambda>q. reference_count (object_at h q)) (p # fr) (pool_size (object_pool h)) (heap_refs oref h + refs oref ks)"
    using ok Cons by (simp add: heap_ok_def)
  then have p: "p < length (objs (object_pool h))" "p \<notin> set fr" "p \<notin># heap_refs oref h + refs oref ks"
    using ok by (auto simp: counts_ok_def heap_ok_def)
  let ?h = "h\<lparr>object_pool := pl\<rparr>"
  have at: "object_at ?h q = (if q = p then (object_at h p)\<lparr>reference_count := 1\<rparr> else object_at h q)" for q
    using p(1) by (simp add: object_at_def o)
  have e: "heap_refs f ?h = heap_refs f h" for f :: "jptr \<Rightarrow> ptr multiset"
    using sum_list_update_add [OF p(1), of "\<lambda>n. refs f (children n)" "(object_at h p)\<lparr>reference_count := 1\<rparr>"]
    by (simp add: heap_refs_def o) (simp add: children_def object_at_def)
  have "counts_ok (\<lambda>q. reference_count (object_at ?h q)) fr (pool_size (object_pool h)) (add_mset p (heap_refs oref h + refs oref ks))"
    by (rule counts_ok_fresh [OF cnt]) (simp_all add: at)
  moreover have "\<forall>q. count (add_mset p (heap_refs oref h + refs oref ks)) q \<le> N"
    using ok N p(3) by (simp add: heap_ok_def not_in_iff)
  moreover have b: "blank (object_at h p)" "\<forall>q \<in> set fr. blank (object_at ?h q)"
    using ok Cons p(2) by (auto simp: heap_ok_def at)
  moreover have "\<forall>n \<in> set (objs pl). distinct (map fst (m_object n))"
    using ok b(1) set_update_subset_insert [of "objs (object_pool h)" p "(object_at h p)\<lparr>reference_count := 1\<rparr>"]
    by (auto simp: heap_ok_def o blank_def)
  ultimately have "heap_ok N ?h (Object_P p # ks)"
    using ok a(2-4) by (simp add: heap_ok_def e) (simp add: o)
  moreover have "grown h ?h" using Cons a(3,4) by (auto simp: grown_def at content_def o)
  moreover have "blank (object_at ?h p)" using b(1) by (simp add: at blank_def)
  ultimately show ?thesis using Cons by (simp add: acquire_object_def a(1))
qed

text \<open>A pointer that may be copied: null, or to a node in use.\<close>

definition in_use :: "'d json_heap \<Rightarrow> jptr list \<Rightarrow> jptr \<Rightarrow> bool" where
  "in_use h ks j \<longleftrightarrow> oref j \<subseteq># heap_refs oref h + refs oref ks \<and> vref j \<subseteq># heap_refs vref h + refs vref ks"

lemma slot_in_use:
  assumes "heap_ok N h ks" "slot_ok R h s" "R \<subseteq> set (locals h) \<union> set ks"
  shows "in_use h ks (slot_val h s)"
proof -
  have "f (slot_val h s) \<subseteq># heap_refs f h" for f
  proof (cases s)
    case (Local v)
    with assms(2) show ?thesis by (simp add: slot_ok_def slot_val_def heap_refs_local)
  next
    case (Field p k)
    from slot_child [OF assms(2), of p] Field heap_ok_object(2) [OF assms(1) reach_live [OF _ assms(1,3)]]
    show ?thesis by (blast intro: heap_refs_child)
  next
    case (Elem p i)
    from slot_child [OF assms(2), of p] Elem heap_ok_object(2) [OF assms(1) reach_live [OF _ assms(1,3)]]
    show ?thesis by (blast intro: heap_refs_child)
  qed
  then show ?thesis unfolding in_use_def by (metis mset_subset_eq_add_left subset_mset.order_trans)
qed

lemma get_copy_fine:
  assumes ok: "heap_ok N h ks" and j: "in_use h ks j" and N: "N + 1 < 2 ^ 32"
  shows "fine (\<lambda>(j', h'). heap_ok (N + 1) h' (j' # ks) \<and> grown h h') (get_copy j h)"
proof (cases j)
  case Null_P
  with ok show ?thesis by (auto simp: get_copy_def heap_ok_def intro: le_SucI)
next
  case (Value_P p)
  have "vref j \<subseteq># heap_refs vref h + refs vref ks" using j by (simp add: in_use_def)
  then have p: "p \<in># heap_refs vref h + refs vref ks" by (simp add: Value_P)
  note l = heap_ok_value [OF ok p]
  show ?thesis
    unfolding get_copy_def Value_P jptr.case
  proof (rule fine_bind [OF acquire_value_fine [OF ok]], clarify)
    fix q h1 assume a: "heap_ok N h1 (Value_P q # ks)" "grown h h1" "q \<in> set (free_values h)"
    have "heap_ok (N + 1) (set_value q (value_at h1 p) h1) (Value_P q # ks)"
      using a(1) by (auto simp: heap_ok_def intro: le_SucI)
    moreover have "length (objs (value_pool h1)) > q" using heap_ok_value(2) [OF a(1), of q] by simp
    then have "grown h (set_value q (value_at h1 p) h1)"
      using a(2,3) by (auto simp: grown_def value_at_def nth_list_update)
    ultimately show "fine (\<lambda>(j', h'). heap_ok (N + 1) h' (j' # ks) \<and> grown h h') (Inr (jptr.Value_P q, set_value q (value_at h1 p) h1))" 
      by simp
  qed
next
  case (Object_P p)
  have "oref j \<subseteq># heap_refs oref h + refs oref ks" using j by (simp add: in_use_def)
  then have p: "p \<in># heap_refs oref h + refs oref ks" by (simp add: Object_P)
  note l = heap_ok_object [OF ok p]
  let ?n = "(object_at h p)\<lparr>reference_count := reference_count (object_at h p) + 1\<rparr>"
  let ?h = "set_object p ?n h"
  have e: "heap_refs f ?h = heap_refs f h" for f :: "jptr \<Rightarrow> ptr multiset"
    using heap_refs_set_object [OF l(2), of f ?n] by (simp add: children_def)
  have cnt: "counts_ok (\<lambda>q. reference_count (object_at h q)) (free_objects h) (pool_size (object_pool h)) (heap_refs oref h + refs oref ks)"
    using ok by (simp add: heap_ok_def)
  have le: "\<forall>q. count (heap_refs oref h + refs oref ks) q \<le> N"
    using ok unfolding heap_ok_def by (elim conjE)
  have "counts_ok (\<lambda>q. reference_count (object_at ?h q)) (free_objects h) (pool_size (object_pool h)) (add_mset p (heap_refs oref h + refs oref ks))"
    by (rule counts_ok_retain [OF cnt p]) (use le N l(2) in \<open>auto simp: object_at_set simp del: count_union intro: order.strict_trans1\<close>)
  moreover have "\<forall>q. count (add_mset p (heap_refs oref h + refs oref ks)) q \<le> N + 1"
    using le by (auto intro: le_SucI simp del: count_union)
  moreover have "\<forall>q \<in> set (free_objects h). blank (object_at ?h q)"
    using ok l(3) by (auto simp: heap_ok_def object_at_set [OF l(2)])
  moreover have "\<forall>n \<in> set (objs (object_pool ?h)). distinct (map fst (m_object n))"
    using ok l(2) set_update_subset_insert [of "objs (object_pool h)" p ?n] by (auto simp: heap_ok_def object_at_def)
  ultimately have "heap_ok (N + 1) ?h (Object_P p # ks)" using ok by (simp add: heap_ok_def e)
  moreover have "grown h ?h" by (simp add: grown_def content_def object_at_set [OF l(2)])
  ultimately show ?thesis by (simp add: get_copy_def Object_P)
qed


subsection \<open>A stale slot does not matter to them\<close>

lemma put_slot_pools [simp]:
  "value_pool (put_slot s j h) = value_pool h" "value_at (put_slot s j h) = value_at h"
  "free_values (put_slot s j h) = free_values h" "free_objects (put_slot s j h) = free_objects h"
  "pool_size (object_pool (put_slot s j h)) = pool_size (object_pool h)"
  "length (objs (object_pool (put_slot s j h))) = length (objs (object_pool h))"
  by (cases s; simp add: put_slot_def)+

lemma acquire_value_put:
  "acquire_value (put_slot s j h) = bindE (acquire_value h) (\<lambda>(p, h'). Inr (p, put_slot s j h'))"
  by (cases "acquire value_class (value_pool h)"; cases s)
     (auto simp: acquire_value_def put_slot_def set_object_def object_at_def)

lemma acquire_other_objs:
  "acquire c (pl\<lparr>objs := os\<rparr>) = (case acquire c pl of Inl e \<Rightarrow> Inl e | Inr (p, pl') \<Rightarrow> Inr (p, pl'\<lparr>objs := run_hook (has_init c) p os\<rparr>))"
  by (simp add: acquire_def pool_head_def pool_size_def Let_def)

lemma acquire_object_upd:
  assumes "p < length (objs (object_pool h))"
    and g: "\<And>n c. g (n\<lparr>reference_count := c\<rparr>) = (g n)\<lparr>reference_count := c\<rparr>"
  shows "acquire_object (upd_object g p h) = bindE (acquire_object h) (\<lambda>(q, h'). Inr (q, upd_object g p h'))"
proof (cases "acquire object_class (object_pool h)")
  case (Inr qpl)
  obtain q pl where q: "qpl = (q, pl)" by (cases qpl)
  have o: "objs pl = (objs (object_pool h))[q := (objs (object_pool h) ! q)\<lparr>reference_count := 1\<rparr>]"
    using acquire_objs_hook [of object_class "object_pool h" q pl] Inr q by (simp add: object_class_def run_hook_def)
  have "object_pool (upd_object g p h) = (object_pool h)\<lparr>objs := (objs (object_pool h))[p := g (object_at h p)]\<rparr>"
    by (simp add: upd_object_def set_object_def)
  then have "acquire object_class (object_pool (upd_object g p h)) =
      Inr (q, pl\<lparr>objs := run_hook (has_init object_class) q ((objs (object_pool h))[p := g (object_at h p)])\<rparr>)"
    by (simp only: acquire_other_objs Inr q sum.case prod.case)
  moreover have "run_hook (has_init object_class) q ((objs (object_pool h))[p := g (object_at h p)]) =
      (objs pl)[p := g (objs pl ! p)]"
  proof (cases "p = q")
    case True
    with assms(1) show ?thesis by (simp add: o object_class_def run_hook_def object_at_def g)
  next
    case False
    then show ?thesis by (simp add: o object_class_def run_hook_def object_at_def list_update_swap)
  qed
  ultimately show ?thesis
    by (simp add: acquire_object_def Inr q) (simp add: upd_object_def set_object_def object_at_def)
next
  case (Inl e)
  have "object_pool (upd_object g p h) = (object_pool h)\<lparr>objs := (objs (object_pool h))[p := g (object_at h p)]\<rparr>"
    by (simp add: upd_object_def set_object_def)
  then have "acquire object_class (object_pool (upd_object g p h)) = Inl e" by (simp only: acquire_other_objs Inl sum.case)
  then show ?thesis by (simp add: acquire_object_def Inl)
qed

text \<open>A slot of an object as an update of its node.\<close>

lemma put_slot_upd:
  "put_slot (Field p k) j h = upd_object (\<lambda>n. n\<lparr>m_object := AList.update k j (m_object n)\<rparr>) p h"
  "put_slot (Elem p i) j h = upd_object (\<lambda>n. n\<lparr>m_array := (m_array n)[i := j]\<rparr>) p h"
  by (simp_all add: put_slot_def upd_object_def)

definition slot_in :: "'d json_heap \<Rightarrow> slot \<Rightarrow> bool" where
  "slot_in h s = (case s of Local v \<Rightarrow> True | Field p k \<Rightarrow> p < length (objs (object_pool h)) | Elem p i \<Rightarrow> p < length (objs (object_pool h)))"

lemma acquire_object_put:
  assumes "slot_in h s"
  shows "acquire_object (put_slot s j h) = bindE (acquire_object h) (\<lambda>(p, h'). Inr (p, put_slot s j h'))"
proof (cases s)
  case (Local v)
  have l: "locals h' = locals h" if "acquire_object h = Inr (p, h')" for p h'
    using that by (auto simp: acquire_object_def bindE_eq_Inr)
  show ?thesis
    by (cases "acquire object_class (object_pool h)") (auto simp: acquire_object_def put_slot_def Local)
qed (use assms in \<open>simp_all add: put_slot_upd acquire_object_upd slot_in_def\<close>)

lemma node_swap:
  "n\<lparr>reference_count := c, m_object := x\<rparr> = n\<lparr>m_object := x, reference_count := c\<rparr>"
  "n\<lparr>reference_count := c, m_array := y\<rparr> = n\<lparr>m_array := y, reference_count := c\<rparr>" for n :: object_node
  by (cases n, simp)+

lemma get_copy_put:
  assumes "slot_in h s"
  shows "get_copy c (put_slot s j h) = bindE (get_copy c h) (\<lambda>(j', h'). Inr (j', put_slot s j h'))"
proof (cases c)
  case Null_P
  then show ?thesis by (simp add: get_copy_def)
next
  case (Value_P p)
  have "put_slot s j (set_value q n h) = set_value q n (put_slot s j h)" for q n and h :: "'a json_heap"
    by (cases s) (simp_all add: put_slot_def set_value_def set_object_def object_at_def)
  then show ?thesis
    by (cases "acquire_value h") (auto simp: get_copy_def Value_P acquire_value_put)
next
  case (Object_P p)
  let ?d = "\<lambda>n. n\<lparr>reference_count := reference_count n + 1\<rparr>"
  have "put_slot s j (set_object p (?d (object_at h p)) h) = set_object p (?d (object_at (put_slot s j h) p)) (put_slot s j h)"
  proof (cases s)
    case (Local v)
    then show ?thesis by (simp add: put_slot_def set_object_def)
  next
    case (Field q k)
    with assms show ?thesis
      by (cases "p = q") (simp_all add: slot_in_def put_slot_def set_object_def object_at_def list_update_swap node_swap)
  next
    case (Elem q i)
    with assms show ?thesis
      by (cases "p = q") (simp_all add: slot_in_def put_slot_def set_object_def object_at_def list_update_swap node_swap)
  qed
  then show ?thesis by (simp add: get_copy_def Object_P)
qed

lemma read_other_slot:
  assumes "slot_in h s" "c \<noteq> s"
  shows "read_slot (put_slot s j h) c = read_slot h c"
  using assms by (cases s; cases c) (auto simp: slot_in_def read_slot_def put_slot_def object_at_set update_conv' split: option.splits)

lemma slot_inI:
  assumes "heap_ok N h ks" "slot_ok R h s" "R \<subseteq> set (locals h) \<union> set ks"
  shows "slot_in h s"
  using slot_bound [OF assms] by (simp add: slot_in_def split: slot.splits)


subsection \<open>Replacing the value of a slot\<close>

lemma finish_slot:
  assumes ok: "heap_ok M h (j # ks)" and s: "slot_ok R h s" "R \<subseteq> set (locals h) \<union> set ks" "slot_val h s = Null_P"
  shows "write_slot s j (put_slot s old h) = Inr (put_slot s j h)" "heap_ok M (put_slot s j h) ks"
    "slot_ok R (put_slot s j h) s" "slot_val (put_slot s j h) s = j"
proof -
  have R: "R \<subseteq> set (locals h) \<union> set (j # ks)" using s(2) by auto
  note p = slot_put [OF ok s(1) R]
  show "write_slot s j (put_slot s old h) = Inr (put_slot s j h)"
    using write_slot_ok [OF p(1)] put_put_slot(1) [OF ok s(1) R] by simp
  show "heap_ok M (put_slot s j h) ks"
    by (rule put_slot_ok [OF ok s(1) R]) (auto simp: s(3))
  show "slot_ok R (put_slot s j h) s" "slot_val (put_slot s j h) s = j" by (rule p)+
qed

text \<open>
  Both kinds of replacement: the old value is released, a new one is made while the slot is
  stale, and the slot is written.
\<close>

definition replaced :: "nat \<Rightarrow> jptr set \<Rightarrow> slot \<Rightarrow> jptr list \<Rightarrow> (jptr \<Rightarrow> 'd json_heap \<Rightarrow> bool) \<Rightarrow> 'd json_heap \<Rightarrow> bool" where
  "replaced M R s ks Q h' \<longleftrightarrow> (\<exists>j h2. h' = put_slot s j h2 \<and> Q j h2 \<and> heap_ok M h' ks \<and> slot_ok (slot_roots R s) h' s \<and>
     slot_val h' s = j \<and> slot_roots R s \<subseteq> set (locals h2) \<union> set ks \<and> slot_in h2 s)"

lemma replace_slot:
  assumes ok: "heap_ok N h ks" and s: "slot_ok R h s" "R \<subseteq> set (locals h) \<union> set ks"
    and mk: "\<And>h1. heap_ok N h1 ks \<Longrightarrow> kept (put_slot s Null_P h) h1 \<Longrightarrow> slot_in h1 s \<Longrightarrow>
      mk (put_slot s (slot_val h s) h1) = bindE (new h1) (\<lambda>(j, h2). Inr (j, put_slot s (slot_val h s) h2)) \<and>
      fine (\<lambda>(j, h2). heap_ok M h2 (j # ks) \<and> grown h1 h2 \<and> Q j h2) (new h1)"
  shows "fine (replaced M R s ks Q)
    (bindE (release_jsons [slot_val h s] h) (\<lambda>h. bindE (mk h) (\<lambda>(j, h). write_slot s j h)))"
proof -
  let ?old = "slot_val h s"
  from release_slot [OF ok s] obtain h1 where h1: "release_jsons [?old] h = Inr (put_slot s ?old h1)" "heap_ok N h1 ks"
    "kept (put_slot s Null_P h) h1" "slot_ok (slot_roots R s) h1 s" "slot_roots R s \<subseteq> set (locals h1) \<union> set ks"
    "slot_val h1 s = Null_P" by blast
  have i: "slot_in h1 s" by (rule slot_inI [OF h1(2,4,5)])
  note m = mk [OF h1(2,3) i]
  have "fine (replaced M R s ks Q)
    (bindE (new h1) (\<lambda>(j, h2). write_slot s j (put_slot s ?old h2)))"
  proof (rule fine_bind [OF conjunct2 [OF m]], clarify)
    fix j h2 assume a: "heap_ok M h2 (j # ks)" "grown h1 h2" "Q j h2"
    note g = slot_grown [OF h1(4,2) a(2) h1(5)]
    have l: "slot_roots R s \<subseteq> set (locals h2) \<union> set ks" using h1(5) a(2) by (simp add: grown_def)
    have "slot_val h2 s = Null_P" using g(2) h1(6) by simp
    note f = finish_slot [OF a(1) g(1) l this]
    have "slot_in h2 s" using slot_inI [OF a(1) g(1)] l by auto
    with f a(3) l show "fine (replaced M R s ks Q) (write_slot s j (put_slot s ?old h2))" by (auto simp: replaced_def)
  qed
  with h1(1) m show ?thesis by (simp add: bindE_assoc case_prod_unfold)
qed

definition same_locals :: "'d json_heap \<Rightarrow> 'd json_heap \<Rightarrow> bool" where
  "same_locals h h' \<longleftrightarrow> length (locals h') = length (locals h) \<and>
     length (objs (object_pool h')) = length (objs (object_pool h)) \<and> length (objs (value_pool h')) = length (objs (value_pool h))"

lemma length_locals_put: "length (locals (put_slot s j h)) = length (locals h)"
  by (cases s) (simp_all add: put_slot_def)

lemma assign_copy_fine:
  assumes ok: "heap_ok N h []" and s: "slot_ok R h s" "R \<subseteq> set (locals h)"
    and copy: "slot_ok R' (put_slot s Null_P h) copy" "R' \<subseteq> set (locals (put_slot s Null_P h))"
    and ne: "s \<noteq> copy" and N: "N + 1 < 2 ^ 32"
  shows "fine (\<lambda>h'. same_locals h h' \<and> heap_ok (N + 1) h' []) (assign_copy s copy h)"
proof -
  have "fine (replaced (N + 1) R s [] (\<lambda>j h2. same_locals h h2))
    (bindE (release_jsons [slot_val h s] h) (\<lambda>h. bindE (bindE (read_slot h copy) (\<lambda>j. get_copy j h)) (\<lambda>(j, h). write_slot s j h)))"
  proof (rule replace_slot [OF ok s(1), where new = "\<lambda>h1. get_copy (slot_val h1 copy) h1"], use s(2) in simp, intro conjI)
    fix h1 assume h1: "heap_ok N h1 []" "kept (put_slot s Null_P h) h1" "slot_in h1 s"
    have R': "R' \<subseteq> set (locals (put_slot s Null_P h)) \<union> set []" using copy(2) by simp
    note c = slot_kept [OF copy(1) h1(1,2) R']
    have l: "R' \<subseteq> set (locals h1) \<union> set []" using h1(2) copy(2) by (simp add: kept_def)
    show "bindE (read_slot (put_slot s (slot_val h s) h1) copy) (\<lambda>j. get_copy j (put_slot s (slot_val h s) h1)) =
        bindE (get_copy (slot_val h1 copy) h1) (\<lambda>(j, h2). Inr (j, put_slot s (slot_val h s) h2))"
      using ne by (simp add: read_other_slot [OF h1(3)] read_slot_ok [OF c(1)] get_copy_put [OF h1(3)])
    show "fine (\<lambda>(j, h2). heap_ok (N + 1) h2 [j] \<and> grown h1 h2 \<and> same_locals h h2) (get_copy (slot_val h1 copy) h1)"
      by (rule fine_mono [OF get_copy_fine [OF h1(1) slot_in_use [OF h1(1) c(1) l] N]])
         (use h1(2) in \<open>auto simp: grown_def kept_def same_locals_def length_locals_put\<close>)
  qed
  then have "fine (\<lambda>h'. same_locals h h' \<and> heap_ok (N + 1) h' [])
    (bindE (release_jsons [slot_val h s] h) (\<lambda>h. bindE (bindE (read_slot h copy) (\<lambda>j. get_copy j h)) (\<lambda>(j, h). write_slot s j h)))"
    by (rule fine_mono) (auto simp: replaced_def same_locals_def, (metis length_locals_put put_slot_pools(1,6))+)
  with ne show ?thesis by (simp add: assign_copy_def read_slot_ok [OF s(1)] bindE_assoc)
qed


subsection \<open>Slots found from a set of variables\<close>

definition roots :: "nat set \<Rightarrow> 'd json_heap \<Rightarrow> jptr set" where
  "roots V h = {j. \<exists>v \<in> V. v < length (locals h) \<and> j = locals h ! v}"

definition based :: "nat set \<Rightarrow> 'd json_heap \<Rightarrow> slot \<Rightarrow> bool" where
  "based V h s \<longleftrightarrow> slot_ok (roots V h) h s \<and> (\<forall>v. s = Local v \<longrightarrow> v \<in> V)"

lemma roots_locals: "roots V h \<subseteq> set (locals h) \<union> set ks"
  by (auto simp: roots_def)

lemma based_slot_ok: "based V h s \<Longrightarrow> slot_ok (roots V h) h s"
  by (simp add: based_def)

lemma based_slot_in: "heap_ok N h ks \<Longrightarrow> based V h s \<Longrightarrow> slot_in h s"
  using slot_inI [OF _ based_slot_ok roots_locals] by blast

text \<open>A slot keeps its base when its variables do, or when it is a variable itself.\<close>

lemma based_again:
  assumes "based V h s" "slot_ok (slot_roots (roots V h) s) h' s" "(\<forall>v. s \<noteq> Local v) \<Longrightarrow> locals h' = locals h"
  shows "based V h' s"
  using assms by (cases s) (auto simp: based_def slot_roots_def slot_ok_def roots_def)

lemma based_object:
  assumes "based V h s" "slot_val h s = Object_P p"
  shows "reach (roots V h) h p"
proof (cases s)
  case (Local v)
  with assms show ?thesis by (auto simp: based_def slot_ok_def slot_val_def roots_def intro!: reach_root bexI [of _ v])
next
  case (Field q k)
  with slot_child [OF based_slot_ok [OF assms(1)], of q] assms(2) show ?thesis by (auto intro: reach_child)
next
  case (Elem q i)
  with slot_child [OF based_slot_ok [OF assms(1)], of q] assms(2) show ?thesis by (auto intro: reach_child)
qed

lemma put_slot_locals: "(\<forall>v. s \<noteq> Local v) \<Longrightarrow> locals (put_slot s j h) = locals h"
  by (cases s) (simp_all add: put_slot_def)

subsection \<open>Making a value or an object in a slot\<close>

lemma create_fine:
  assumes ok: "heap_ok N h []" and s: "based V h s"
    and acq_put: "\<And>h j. slot_in h s \<Longrightarrow> acq (put_slot s j h) = bindE (acq h) (\<lambda>(p, h'). Inr (p, put_slot s j h'))"
    and acq_fine: "\<And>h. heap_ok N h [] \<Longrightarrow> fine (\<lambda>(p, h'). heap_ok N h' [W p] \<and> grown h h') (acq h)"
  shows "fine (\<lambda>h'. same_locals h h' \<and> heap_ok N h' [] \<and> based V h' s \<and> (\<exists>p. slot_val h' s = W p))
    (bindE (release_jsons [slot_val h s] h) (\<lambda>h. bindE (acq h) (\<lambda>(p, h). write_slot s (W p) h)))"
proof -
  have "fine (\<lambda>h'. same_locals h h' \<and> heap_ok N h' [] \<and> based V h' s \<and> (\<exists>p. slot_val h' s = W p))
      (bindE (release_jsons [slot_val h s] h) (\<lambda>h. bindE (bindE (acq h) (\<lambda>(p, h). Inr (W p, h))) (\<lambda>(j, h). write_slot s j h)))"
  proof (rule fine_mono, rule replace_slot [OF ok based_slot_ok [OF s] roots_locals, where
        new = "\<lambda>h1. bindE (acq h1) (\<lambda>(p, h2). Inr (W p, h2))" and M = N and
        Q = "\<lambda>j h2. same_locals h h2 \<and> (\<exists>p. j = W p) \<and> ((\<forall>v. s \<noteq> Local v) \<longrightarrow> locals h2 = locals h)"], rule conjI)
    fix h1 assume h1: "heap_ok N h1 []" "kept (put_slot s Null_P h) h1" "slot_in h1 s"
    show "bindE (acq (put_slot s (slot_val h s) h1)) (\<lambda>(p, h). Inr (W p, h)) =
        bindE (bindE (acq h1) (\<lambda>(p, h2). Inr (W p, h2))) (\<lambda>(j, h2). Inr (j, put_slot s (slot_val h s) h2))"
      by (simp add: acq_put [OF h1(3)] bindE_assoc case_prod_unfold)
    have l: "(\<forall>v. s \<noteq> Local v) \<longrightarrow> locals h1 = locals h" using h1(2) by (auto simp: kept_def put_slot_locals)
    have l2: "same_locals h h1" using h1(2) by (simp add: kept_def same_locals_def length_locals_put)
    show "fine (\<lambda>(j, h2). heap_ok N h2 [j] \<and> grown h1 h2 \<and> same_locals h h2 \<and> (\<exists>p. j = W p) \<and> ((\<forall>v. s \<noteq> Local v) \<longrightarrow> locals h2 = locals h))
        (bindE (acq h1) (\<lambda>(p, h2). Inr (W p, h2)))"
      by (rule fine_bind [OF acq_fine [OF h1(1)]]) (use l l2 in \<open>auto simp: grown_def same_locals_def\<close>)
  next
    fix h' assume "replaced N (roots V h) s [] (\<lambda>j h2. same_locals h h2 \<and> (\<exists>p. j = W p) \<and> ((\<forall>v. s \<noteq> Local v) \<longrightarrow> locals h2 = locals h)) h'"
    then have a: "same_locals h h'" "heap_ok N h' []" "\<exists>p. slot_val h' s = W p" "slot_ok (slot_roots (roots V h) s) h' s"
      "(\<forall>v. s \<noteq> Local v) \<Longrightarrow> locals h' = locals h"
      by (auto simp: replaced_def put_slot_locals same_locals_def length_locals_put)
    with based_again [OF s a(4,5)] show "same_locals h h' \<and> heap_ok N h' [] \<and> based V h' s \<and> (\<exists>p. slot_val h' s = W p)" by blast
  qed
  then show ?thesis by (simp add: bindE_assoc case_prod_unfold)
qed

lemma check_create_value_fine:
  assumes ok: "heap_ok N h []" and s: "based V h s"
  shows "fine (\<lambda>h'. same_locals h h' \<and> heap_ok N h' [] \<and> based V h' s \<and> (\<exists>p. slot_val h' s = Value_P p)) (check_create_value s h)"
proof -
  have new: "fine (\<lambda>h'. same_locals h h' \<and> heap_ok N h' [] \<and> based V h' s \<and> (\<exists>p. slot_val h' s = Value_P p))
      (bindE (release_jsons [slot_val h s] h) (create_value_in s))"
    unfolding create_value_in_def [abs_def]
    by (rule create_fine [OF ok s acquire_value_put fine_mono [OF acquire_value_fine]]) auto
  note r = read_slot_ok [OF based_slot_ok [OF s]]
  show ?thesis using new ok s by (cases "slot_val h s") (simp_all add: check_create_value_def r same_locals_def)
qed

lemma check_create_object_fine:
  assumes ok: "heap_ok N h []" and s: "based V h s" and N: "1 \<le> N"
  shows "fine (\<lambda>h'. same_locals h h' \<and> heap_ok N h' [] \<and> based V h' s \<and> (\<exists>p. slot_val h' s = Object_P p)) (check_create_object s h)"
proof -
  have new: "fine (\<lambda>h'. same_locals h h' \<and> heap_ok N h' [] \<and> based V h' s \<and> (\<exists>p. slot_val h' s = Object_P p))
      (bindE (release_jsons [slot_val h s] h) (create_object_in s))"
    unfolding create_object_in_def [abs_def]
    by (rule create_fine [OF ok s acquire_object_put fine_mono [OF acquire_object_fine [OF _ N]]]) auto
  note r = read_slot_ok [OF based_slot_ok [OF s]]
  show ?thesis using new ok s by (cases "slot_val h s") (simp_all add: check_create_object_def r same_locals_def)
qed

lemma assign_value_fine:
  fixes h :: "'d json_heap"
  assumes ok: "heap_ok N h []" and s: "based V h s"
  shows "fine (\<lambda>h'. same_locals h h' \<and> heap_ok N h' []) (assign_value s v h)"
  unfolding assign_value_def
proof (rule fine_bind [OF check_create_value_fine [OF ok s]], elim conjE exE)
  fix h' :: "'d json_heap" and p assume a: "same_locals h h'" "heap_ok N h' []" "based V h' s" "slot_val h' s = Value_P p"
  then show "fine (\<lambda>h'. same_locals h h' \<and> heap_ok N h' []) (bindE (read_slot h' s) (\<lambda>j. case j of
      Value_P p \<Rightarrow> Inr (set_value p ((value_at h' p)\<lparr>vn_value := v\<rparr>) h') | _ \<Rightarrow> Inl (UB Bad_Cast)))"
    by (simp add: read_slot_ok [OF based_slot_ok [OF a(3)]]) (simp add: heap_ok_def same_locals_def)
qed

lemma object_in_fine:
  assumes ok: "heap_ok N h []" and s: "based V h s" and N: "1 \<le> N"
  shows "fine (\<lambda>(p, h'). same_locals h h' \<and> heap_ok N h' [] \<and> based V h' s \<and> slot_val h' s = Object_P p \<and> reach (roots V h') h' p) (object_in s h)"
  unfolding object_in_def
proof (rule fine_bind [OF check_create_object_fine [OF assms]], elim conjE exE)
  fix h' p assume a: "same_locals h h'" "heap_ok N h' []" "based V h' s" "slot_val h' s = Object_P p"
  with based_object [OF a(3,4)] show "fine (\<lambda>(p, h'). same_locals h h' \<and> heap_ok N h' [] \<and> based V h' s \<and> slot_val h' s = Object_P p \<and> reach (roots V h') h' p)
      (bindE (read_slot h' s) (\<lambda>j. case j of Object_P p \<Rightarrow> Inr (p, h') | _ \<Rightarrow> Inl (UB Bad_Cast)))"
    by (simp add: read_slot_ok [OF based_slot_ok [OF a(3)]])
qed


subsection \<open>Changing an object\<close>

lemma reach_set_self: "reach R h p \<Longrightarrow> p < length (objs (object_pool h)) \<Longrightarrow> reach R (set_object p n h) p"
proof -
  assume r: "reach R h p" and p: "p < length (objs (object_pool h))"
  have "reach R h q \<Longrightarrow> reach R (set_object p n h) p \<or> reach R (set_object p n h) q" for q
  proof (induction rule: reach.induct)
    case (reach_root q)
    then show ?case by (blast intro: reach.reach_root)
  next
    case (reach_child q q')
    then show ?case using object_at_set [OF p] reach.reach_child by metis
  qed
  from this [OF r] show "reach R (set_object p n h) p" by blast
qed

lemma roots_set [simp]: "roots V (set_object p n h) = roots V h"
  by (simp add: roots_def)

text \<open>An object that is reached from \<open>V\<close> may get other entries, which the operation holds.\<close>

lemma change_object:
  assumes ok: "heap_ok N h ks" and r: "reach (roots V h) h p"
    and n: "reference_count n = reference_count (object_at h p)" "distinct (map fst (m_object (object_at h p))) \<Longrightarrow> distinct (map fst (m_object n))"
    and f: "\<And>f. f \<in> {oref, vref} \<Longrightarrow> refs f (children n) + refs f ks' = refs f (children (object_at h p)) + refs f ks"
  shows "heap_ok N (set_object p n h) ks'" "reach (roots V (set_object p n h)) (set_object p n h) p"
    "object_at (set_object p n h) p = n" "same_locals h (set_object p n h)"
proof -
  note l = heap_ok_object [OF ok reach_live [OF r ok roots_locals]]
  have "distinct (map fst (m_object (object_at h p)))" using ok l(2) by (auto simp: heap_ok_def object_at_def)
  with n f show "heap_ok N (set_object p n h) ks'" by (intro heap_ok_set_object [OF ok l(1,3)]) auto
  show "reach (roots V (set_object p n h)) (set_object p n h) p" using reach_set_self [OF r l(2)] by simp
  show "object_at (set_object p n h) p = n" "same_locals h (set_object p n h)" using l(2) by (simp_all add: object_at_set same_locals_def)
qed

lemma emplace_key_simps [simp]:
  "f Null_P = {#} \<Longrightarrow> refs f (map snd (emplace_key k obj)) = refs f (map snd obj)"
  "distinct (map fst obj) \<Longrightarrow> distinct (map fst (emplace_key k obj))"
  "map_of (emplace_key k obj) k \<noteq> None" "\<exists>j. map_of (emplace_key k obj) k = Some j"
  by (auto simp: emplace_key_def map_of_eq_None_iff dest: weak_map_of_SomeI)

lemma at_key_fine:
  assumes ok: "heap_ok N h []" and s: "based V h s" and N: "1 \<le> N"
  shows "fine (\<lambda>(s', h'). same_locals h h' \<and> heap_ok N h' [] \<and> based V h' s') (at_key s k h)"
  unfolding at_key_def
proof (rule fine_bind [OF object_in_fine [OF assms]], clarify)
  fix p h' assume a: "same_locals h h'" "heap_ok N h' []" "reach (roots V h') h' p"
  let ?n = "(object_at h' p)\<lparr>m_is_array := False, m_object := emplace_key k (m_object (object_at h' p))\<rparr>"
  have "refs f (children ?n) + refs f [] = refs f (children (object_at h' p)) + refs f []" if "f \<in> {oref, vref}" for f
    using that by (auto simp: children_def)
  from change_object [OF a(2,3) _ _ this] have "heap_ok N (set_object p ?n h') []"
    "reach (roots V (set_object p ?n h')) (set_object p ?n h') p" "object_at (set_object p ?n h') p = ?n" "same_locals h' (set_object p ?n h')"
    by simp_all
  with a(1) show "fine (\<lambda>(s', h'). same_locals h h' \<and> heap_ok N h' [] \<and> based V h' s')
      (Inr (Field p k, set_object p (node_at_key k (object_at h' p)) h'))"
    by (auto simp: node_at_key_def based_def slot_ok_def same_locals_def)
qed

lemma resize_fine:
  assumes ok: "heap_ok N h []" and r: "reach (roots V h) h p" and n: "n \<le> vector_max_size"
  shows "fine (\<lambda>h'. same_locals h h' \<and> heap_ok N h' [] \<and> reach (roots V h') h' p \<and> length (m_array (object_at h' p)) = n) (resize p n h)"
proof -
  let ?arr = "m_array (object_at h p)"
  let ?n = "(object_at h p)\<lparr>m_array := take n ?arr @ replicate (n - length ?arr) Null_P\<rparr>"
  let ?h1 = "set_object p ?n h"
  have e: "refs f (children ?n) + refs f (drop n ?arr @ []) = refs f (children (object_at h p)) + refs f []" if "f \<in> {oref, vref}" for f
  proof -
    have "refs f ?arr = refs f (take n ?arr) + refs f (drop n ?arr)" by (metis append_take_drop_id ref_simps(3))
    with that show ?thesis by (auto simp: children_def)
  qed
  note c = change_object [OF ok r _ _ e, simplified]
  from release_jsons_ok [of N ?h1 "drop n ?arr" "[]"] c(1) obtain h' where
    h': "release_jsons (drop n ?arr) ?h1 = Inr h'" "heap_ok N h' []" "kept ?h1 h'" by auto
  have l: "locals h' = locals ?h1" "roots V h' = roots V ?h1" using h'(3) by (simp_all add: kept_def roots_def)
  have "roots V h \<subseteq> set (locals ?h1) \<union> set []" using roots_locals [of V h "[]"] by simp
  from reach_kept [OF c(2) h'(2,3) this] have r': "reach (roots V h') h' p" using l by simp
  from heap_ok_object(3) [OF h'(2) reach_live [OF r' h'(2) roots_locals]]
  have "content (object_at h' p) = content (object_at ?h1 p)" using h'(3) by (simp add: kept_def)
  then have "length (m_array (object_at h' p)) = n" using c(3) by (simp add: content_def)
  with h' r' c(4) l show ?thesis using n by (simp add: resize_def Let_def same_locals_def kept_def)
qed

lemma at_index_fine:
  assumes ok: "heap_ok N h []" and s: "based V h s" and N: "1 \<le> N" and i: "i < vector_max_size"
  shows "fine (\<lambda>(s', h'). same_locals h h' \<and> heap_ok N h' [] \<and> based V h' s') (at_index s i h)"
  unfolding at_index_def
proof (rule fine_bind [OF object_in_fine [OF ok s N]], clarify)
  fix p h1 assume a: "same_locals h h1" "heap_ok N h1 []" "reach (roots V h1) h1 p"
  let ?n = "(object_at h1 p)\<lparr>m_is_array := True\<rparr>"
  let ?h2 = "set_object p ?n h1"
  have e: "refs f (children ?n) + refs f [] = refs f (children (object_at h1 p)) + refs f []" for f :: "jptr \<Rightarrow> ptr multiset"
    by (simp add: children_def)
  note c = change_object [OF a(2,3) _ _ e, simplified]
  have w: "(i + 1) mod 2 ^ 64 = i + 1" using i by (simp add: vector_max_size_def)
  have "fine (\<lambda>h'. same_locals h h' \<and> heap_ok N h' [] \<and> reach (roots V h') h' p \<and> i < length (m_array (object_at h' p)))
      (if length (m_array (object_at ?h2 p)) \<le> i then resize p (i + 1) ?h2 else Inr ?h2)"
  proof (cases "length (m_array (object_at ?h2 p)) \<le> i")
    case True
    have "reach (roots V ?h2) ?h2 p" "i + 1 \<le> vector_max_size" using c(2) i by simp_all
    from fine_mono [OF resize_fine [OF c(1) this]] True a(1) c(4) show ?thesis by (auto simp: same_locals_def)
  next
    case False
    with c a(1) show ?thesis by (simp add: same_locals_def)
  qed
  then show "fine (\<lambda>(s', h'). same_locals h h' \<and> heap_ok N h' [] \<and> based V h' s')
      (let h1a = ?h2 in bindE (if length (m_array (object_at h1a p)) \<le> i then resize p ((i + 1) mod 2 ^ 64) h1a else Inr h1a) (\<lambda>h2.
         if i < length (m_array (object_at h2 p)) then Inr (Elem p i, h2) else Inl (UB Out_Of_Bounds)))"
    unfolding Let_def w by (rule fine_bind) (auto simp: based_def slot_ok_def)
qed


lemma set_array_size_fine:
  assumes ok: "heap_ok N h []" and s: "based V h s" and N: "1 \<le> N" and n: "n \<le> vector_max_size"
  shows "fine (\<lambda>h'. same_locals h h' \<and> heap_ok N h' []) (set_array_size s n h)"
  unfolding set_array_size_def
proof (rule fine_bind [OF object_in_fine [OF ok s N]], clarify)
  fix p h1 assume a: "same_locals h h1" "heap_ok N h1 []" "reach (roots V h1) h1 p"
  let ?n = "(object_at h1 p)\<lparr>m_is_array := True\<rparr>"
  have e: "refs f (children ?n) + refs f [] = refs f (children (object_at h1 p)) + refs f []" for f :: "jptr \<Rightarrow> ptr multiset"
    by (simp add: children_def)
  note c = change_object [OF a(2,3) _ _ e, simplified]
  have "reach (roots V (set_object p ?n h1)) (set_object p ?n h1) p" using c(2) by simp
  from fine_mono [OF resize_fine [OF c(1) this n]] a(1) c(4)
  show "fine (\<lambda>h'. same_locals h h' \<and> heap_ok N h' []) (resize p n (set_object p ?n h1))" by (auto simp: same_locals_def)
qed

lemma reverse_array_fine:
  assumes ok: "heap_ok N h []" and s: "based V h s" and N: "1 \<le> N"
  shows "fine (\<lambda>h'. same_locals h h' \<and> heap_ok N h' []) (reverse_array s h)"
  unfolding reverse_array_def
proof (rule fine_bind [OF object_in_fine [OF ok s N]], clarify)
  fix p h1 assume a: "same_locals h h1" "heap_ok N h1 []" "reach (roots V h1) h1 p"
  let ?n = "(object_at h1 p)\<lparr>m_is_array := True, m_array := rev (m_array (object_at h1 p))\<rparr>"
  have e: "refs f (children ?n) + refs f [] = refs f (children (object_at h1 p)) + refs f []" for f :: "jptr \<Rightarrow> ptr multiset"
    by (simp add: children_def)
  from change_object [OF a(2,3) _ _ e] a(1)
  show "fine (\<lambda>h'. same_locals h h' \<and> heap_ok N h' []) (Inr (set_object p (node_reverse (object_at h1 p)) h1))"
    by (simp add: node_reverse_def same_locals_def)
qed

lemma push_back_fine:
  assumes ok: "heap_ok N h []" and s: "based V h s" and w: "w < length (locals h)" and N: "1 \<le> N" "N + 1 < 2 ^ 32"
  shows "fine (\<lambda>h'. same_locals h h' \<and> heap_ok (N + 1) h' []) (push_back s (Local w) h)"
  unfolding push_back_def
proof (rule fine_bind [OF object_in_fine [OF ok s N(1)]], clarify)
  fix p h1 assume a: "same_locals h h1" "heap_ok N h1 []" "reach (roots V h1) h1 p"
  have "slot_ok {} h1 (Local w)" using a(1) w by (simp add: slot_ok_def same_locals_def)
  note r = read_slot_ok [OF this] and u = slot_in_use [OF a(2) this empty_subsetI]
  have "fine (\<lambda>h'. same_locals h h' \<and> heap_ok (N + 1) h' [])
      (bindE (get_copy (slot_val h1 (Local w)) h1) (\<lambda>(j', h).
         Inr (set_object p (node_push j' (object_at h p)) h)))"
  proof (rule fine_bind2 [OF get_copy_fine [OF a(2) u N(2)]], elim conjE)
    fix j h2 assume b: "heap_ok (N + 1) h2 [j]" "grown h1 h2"
    let ?n = "(object_at h2 p)\<lparr>m_is_array := True, m_array := m_array (object_at h2 p) @ [j]\<rparr>"
    have "roots V h2 = roots V h1" using b(2) by (simp add: grown_def roots_def)
    then have r2: "reach (roots V h2) h2 p" using reach_grown [OF a(3,2) b(2) roots_locals] by simp
    have e: "refs f (children ?n) + refs f [] = refs f (children (object_at h2 p)) + refs f [j]" for f :: "jptr \<Rightarrow> ptr multiset"
      by (simp add: children_def)
    from change_object [OF b(1) r2 _ _ e] a(1) b(2)
    show "fine (\<lambda>h'. same_locals h h' \<and> heap_ok (N + 1) h' []) (Inr (set_object p (node_push j (object_at h2 p)) h2))"
      by (simp add: node_push_def same_locals_def grown_def)
  qed
  then show "fine (\<lambda>h'. same_locals h h' \<and> heap_ok (N + 1) h' [])
      (bindE (read_slot h1 (Local w)) (\<lambda>j. bindE (get_copy j h1) (\<lambda>(j', h).
         Inr (set_object p (node_push j' (object_at h p)) h))))"
    by (simp add: r)
qed

text \<open>On a null \<open>Json\<close> the erasure is undefined; the client has asked \<open>is_object\<close> before.\<close>

lemma erase_field_fine:
  assumes ok: "heap_ok N h []" and s: "based V h s" and nn: "slot_val h s \<noteq> Null_P"
  shows "fine (\<lambda>h'. same_locals h h' \<and> heap_ok N h' []) (erase_field s k h)"
proof (cases "slot_val h s")
  case (Object_P p)
  note r = based_object [OF s Object_P]
  let ?n = "(object_at h p)\<lparr>m_is_array := False, m_object := AList.delete k (m_object (object_at h p))\<rparr>"
  note l = heap_ok_object [OF ok reach_live [OF r ok roots_locals]]
  have d: "distinct (map fst (m_object (object_at h p)))" using ok l(2) by (auto simp: heap_ok_def object_at_def)
  have dd: "distinct (map fst (m_object ?n))" using distinct_delete [OF d] by simp
  show ?thesis
  proof (cases "map_of (m_object (object_at h p)) k")
    case None
    have e: "refs f (children ?n) + refs f [] = refs f (children (object_at h p)) + refs f []" for f :: "jptr \<Rightarrow> ptr multiset"
      using map_of_absent [OF None] by (simp add: children_def)
    from change_object [OF ok r _ dd e] None Object_P
    show ?thesis by (simp add: erase_field_def node_remove_def read_slot_ok [OF based_slot_ok [OF s]] Let_def same_locals_def)
  next
    case (Some old)
    have e: "refs f (children ?n) + refs f ([old] @ []) = refs f (children (object_at h p)) + refs f []" for f :: "jptr \<Rightarrow> ptr multiset"
      using refs_alist_delete [OF d Some, of f] by (simp add: children_def ac_simps)
    from change_object [OF ok r _ dd e] release_jsons_ok [of N "set_object p ?n h" "[old]" "[]"] obtain h' where
      "release_jsons [old] (set_object p ?n h) = Inr h'" "heap_ok N h' []" "kept (set_object p ?n h) h'" by auto
    with Some Object_P show ?thesis
      by (simp add: erase_field_def node_remove_def read_slot_ok [OF based_slot_ok [OF s]] Let_def same_locals_def kept_def)
  qed
qed (use assms in \<open>simp_all add: erase_field_def read_slot_ok [OF based_slot_ok [OF s]] same_locals_def\<close>)

lemma destruct_fine:
  assumes ok: "heap_ok N h []" and v: "v < length (locals h)"
  shows "fine (\<lambda>h'. same_locals h h' \<and> heap_ok N h' []) (destruct_json v h)"
proof -
  have s: "slot_ok {} h (Local v)" using v by (simp add: slot_ok_def)
  from release_slot [OF ok s] obtain h1 where h1: "release_jsons [slot_val h (Local v)] h = Inr (put_slot (Local v) (slot_val h (Local v)) h1)"
    "heap_ok N h1 []" "kept (put_slot (Local v) Null_P h) h1" "\<forall>j. put_slot (Local v) j (put_slot (Local v) (slot_val h (Local v)) h1) = put_slot (Local v) j h1"
    "slot_ok (slot_roots {} (Local v)) h1 (Local v)" "slot_val h1 (Local v) = Null_P" by blast
  have l: "length (locals h1) = length (locals h)" "same_locals h h1" using h1(3) by (simp_all add: kept_def length_locals_put same_locals_def)
  have "heap_ok N (put_slot (Local v) Null_P h1) []"
    by (rule put_slot_ok [OF h1(2,5)]) (auto simp: slot_roots_def h1(6))
  moreover have "write_slot (Local v) Null_P (put_slot (Local v) (slot_val h (Local v)) h1) = Inr (put_slot (Local v) Null_P h1)"
    using h1(4) v l by (simp add: write_slot_def read_slot_def length_locals_put)
  ultimately show ?thesis
    using h1(1) l by (simp add: destruct_json_def read_slot_ok [OF s] same_locals_def length_locals_put)
qed

end
