(* ===== verification/JsonHeap_Program.thy ===== *)
theory JsonHeap_Program
  imports JsonHeap_Ops
begin

section \<open>Programs on JSON values\<close>

text \<open>
  Programs of such operations: reference counts stay exact, released values return to their pools,
  and assigning a value to a part of itself is the case that goes wrong.
\<close>

subsection \<open>Moving\<close>

lemma put_local_swap:
  assumes "s \<noteq> Local v"
  shows "put_slot (Local v) k (put_slot s j h) = put_slot s j (put_slot (Local v) k h)"
  using assms by (cases s) (simp_all add: put_slot_def set_object_def object_at_def list_update_swap)

lemma reach_put_local [simp]: "reach R (put_slot (Local v) k h) p = reach R h p"
proof -
  have o: "object_at (put_slot (Local v) k h) = object_at h" by (simp add: put_slot_def)
  have "reach R h p \<Longrightarrow> reach R (put_slot (Local v) k h) p"
    by (induction rule: reach.induct) (auto intro: reach.intros simp: o)
  moreover have "reach R (put_slot (Local v) k h) p \<Longrightarrow> reach R h p"
    by (induction rule: reach.induct) (auto intro: reach.intros simp: o)
  ultimately show ?thesis by blast
qed

lemma based_put_local:
  assumes "based V h s" "v \<notin> V"
  shows "based V (put_slot (Local v) k h) s"
proof -
  have "roots V (put_slot (Local v) k h) = roots V h" 
    unfolding roots_def put_slot_def using assms(2) by (auto intro!: bexI) (metis nth_list_update_neq)+
  moreover have "object_at (put_slot (Local v) k h) = object_at h" by (simp add: put_slot_def)
  ultimately show ?thesis using assms(1) by (auto simp: based_def slot_ok_def length_locals_put split: slot.splits)
qed

text \<open>
  A move between a slot found from \<open>V\<close> and a variable outside of \<open>V\<close>, in either direction.
\<close>

lemma move_fine:
  assumes ok: "heap_ok N h ks" and s: "slot_ok R h s" "R \<subseteq> set (locals h) \<union> set ks" "slot_val h s = Null_P"
    and c: "slot_ok R' h c" "R' \<subseteq> set (locals h) \<union> set ks" and sc: "s \<noteq> c"
    and s': "slot_ok R'' (put_slot c Null_P h) s" "R'' \<subseteq> set (locals (put_slot c Null_P h)) \<union> set ks"
    and loc: "(\<exists>v. s = Local v) \<or> (\<exists>w. c = Local w)"
  shows "heap_ok N (put_slot c Null_P (put_slot s (slot_val h c) h)) ks"
proof -
  have swap: "put_slot c Null_P (put_slot s (slot_val h c) h) = put_slot s (slot_val h c) (put_slot c Null_P h)"
    using loc sc put_local_swap by metis
  have "heap_ok N (put_slot c Null_P h) (slot_val h c # ks)" by (rule put_slot_ok [OF ok c]) auto
  note a = this
  have v: "slot_val (put_slot c Null_P h) s = Null_P"
  proof -
    have "read_slot (put_slot c Null_P h) s = read_slot h s" by (rule read_other_slot [OF slot_inI [OF ok c] sc])
    with read_slot_ok [OF s'(1)] read_slot_ok [OF s(1)] s(3) show ?thesis by simp
  qed
  have "R'' \<subseteq> set (locals (put_slot c Null_P h)) \<union> set (slot_val h c # ks)" using s'(2) by auto
  then show ?thesis unfolding swap by (rule put_slot_ok [OF a s'(1)]) (auto simp: v)
qed

lemma assign_move_fine:
  assumes ok: "heap_ok N h []" and b: "based V h s" "based W h c" and VW: "V \<inter> W = {}"
    and loc: "(\<exists>v. s = Local v) \<or> (\<exists>w. c = Local w)"
  shows "fine (\<lambda>h'. same_locals h h' \<and> heap_ok N h' []) (assign_move s c h)"
proof -
  have sc: "s \<noteq> c" using b loc VW by (auto simp: based_def)
  note rs = based_slot_ok [OF b(1)]
  from release_slot [OF ok rs roots_locals] obtain h1 where
    h1: "release_jsons [slot_val h s] h = Inr (put_slot s (slot_val h s) h1)" "heap_ok N h1 []" "kept (put_slot s Null_P h) h1"
    "\<forall>j. put_slot s j (put_slot s (slot_val h s) h1) = put_slot s j h1" "slot_ok (slot_roots (roots V h) s) h1 s"
    "slot_roots (roots V h) s \<subseteq> set (locals h1) \<union> set []" "slot_val h1 s = Null_P" by blast
  let ?hs = "put_slot s (slot_val h s) h1"
  have i: "slot_in h1 s" by (rule slot_inI [OF h1(2,5,6)])
  \<comment> \<open>the source is still there\<close>
  have c0: "based W (put_slot s Null_P h) c"
  proof (cases "\<exists>v. s = Local v")
    case True
    then obtain v where v: "s = Local v" by blast
    with b(1) VW have "v \<notin> W" by (auto simp: based_def)
    from based_put_local [OF b(2) this] v show ?thesis by simp
  next
    case False
    with loc obtain w where "c = Local w" by blast
    with b(2) show ?thesis by (auto simp: based_def slot_ok_def length_locals_put)
  qed
  note ck = slot_kept [OF based_slot_ok [OF c0] h1(2,3) roots_locals]
  have cl: "roots W (put_slot s Null_P h) \<subseteq> set (locals h1) \<union> set []"
    using h1(3) roots_locals [of W "put_slot s Null_P h" "[]"] by (simp add: kept_def)
  \<comment> \<open>the target is still there without it\<close>
  have s': "\<exists>R. slot_ok R (put_slot c Null_P h1) s \<and> R \<subseteq> set (locals (put_slot c Null_P h1)) \<union> set []"
  proof (cases "\<exists>v. s = Local v")
    case True
    with h1(5) have "slot_ok {} (put_slot c Null_P h1) s" by (auto simp: slot_ok_def length_locals_put)
    then show ?thesis by blast
  next
    case False
    with loc obtain w where w: "c = Local w" by blast
    have l: "locals h1 = locals h" using h1(3) False put_slot_locals [of s Null_P h] by (simp add: kept_def)
    have "roots V h1 = roots V h" "slot_roots (roots V h) s = roots V h" using l False by (auto simp: roots_def slot_roots_def split: slot.splits)
    with h1(5) False have "based V h1 s" by (simp add: based_def)
    moreover have "w \<notin> V" using b(2) w VW by (auto simp: based_def)
    ultimately have "based V (put_slot c Null_P h1) s" using based_put_local w by blast
    with based_slot_ok roots_locals show ?thesis by blast
  qed
  then obtain R where R: "slot_ok R (put_slot c Null_P h1) s" "R \<subseteq> set (locals (put_slot c Null_P h1)) \<union> set []" by blast
  have m: "heap_ok N (put_slot c Null_P (put_slot s (slot_val h1 c) h1)) []"
    by (rule move_fine [OF h1(2,5,6,7) ck(1) cl sc R loc])
  have "read_slot ?hs c = Inr (slot_val h1 c)" using sc by (simp add: read_other_slot [OF i] read_slot_ok [OF ck(1)])
  moreover have "write_slot s (slot_val h1 c) ?hs = Inr (put_slot s (slot_val h1 c) h1)"
  proof -
    have "slot_ok (slot_roots (roots V h) s) ?hs s" by (rule slot_put [OF h1(2,5,6)])
    from write_slot_ok [OF this] h1(4) show ?thesis by simp
  qed
  moreover have "write_slot c Null_P (put_slot s (slot_val h1 c) h1) = Inr (put_slot c Null_P (put_slot s (slot_val h1 c) h1))"
    using sc by (simp add: write_slot_def read_other_slot [OF i] read_slot_ok [OF ck(1)])
  ultimately have "assign_move s c h = Inr (put_slot c Null_P (put_slot s (slot_val h1 c) h1))"
    using sc h1(1) by (simp add: assign_move_def read_slot_ok [OF rs])
  moreover have "same_locals h (put_slot c Null_P (put_slot s (slot_val h1 c) h1))"
    using h1(3) by (simp add: same_locals_def length_locals_put kept_def)
  ultimately show ?thesis using m by simp
qed


subsection \<open>The client\<close>

text \<open>
  A program over \<open>k\<close> variables of type \<open>Json\<close>: \<open>v[k1][k2]...\<close> on either side of an assignment,
  copied, moved or assigned a value, and the methods that change an array or an object.
\<close>

datatype access = Key string | Index nat

primrec go :: "access \<Rightarrow> slot \<Rightarrow> 'd json_heap \<Rightarrow> (slot \<times> 'd json_heap) result" where
  "go (Key k) s h = at_key s k h"
| "go (Index i) s h = at_index s i h"

fun locate :: "slot \<Rightarrow> access list \<Rightarrow> 'd json_heap \<Rightarrow> (slot \<times> 'd json_heap) result" where
  "locate s [] h = Inr (s, h)"
| "locate s (a # as) h = bindE (go a s h) (\<lambda>(s, h). locate s as h)"

datatype 'd json_op =
    Set_Value nat "access list" "'d jval"
  | Put_Copy nat "access list" nat
  | Get_Copy nat nat "access list"
  | Put_Move nat "access list" nat
  | Get_Move nat nat "access list"
  | Push_Copy nat "access list" nat
  | Set_Length nat "access list" nat
  | Turn_Round nat "access list"
  | Erase_Field nat "access list" string
  | Destroy nat

primrec run_json_op :: "'d json_heap \<Rightarrow> 'd json_op \<Rightarrow> 'd json_heap result" where
  "run_json_op h (Set_Value v as x) = bindE (locate (Local v) as h) (\<lambda>(s, h). assign_value s x h)"
| "run_json_op h (Put_Copy v as w) = bindE (locate (Local v) as h) (\<lambda>(s, h). assign_copy s (Local w) h)"
| "run_json_op h (Get_Copy v w as) = bindE (locate (Local w) as h) (\<lambda>(s, h). assign_copy (Local v) s h)"
| "run_json_op h (Put_Move v as w) = bindE (locate (Local v) as h) (\<lambda>(s, h). assign_move s (Local w) h)"
| "run_json_op h (Get_Move v w as) = bindE (locate (Local w) as h) (\<lambda>(s, h). assign_move (Local v) s h)"
| "run_json_op h (Push_Copy v as w) = bindE (locate (Local v) as h) (\<lambda>(s, h). push_back s (Local w) h)"
| "run_json_op h (Set_Length v as n) = bindE (locate (Local v) as h) (\<lambda>(s, h). set_array_size s n h)"
| "run_json_op h (Turn_Round v as) = bindE (locate (Local v) as h) (\<lambda>(s, h). reverse_array s h)"
| "run_json_op h (Erase_Field v as k) = bindE (locate (Local v) as h) (\<lambda>(s, h). bindE (read_slot h s) (\<lambda>j.
     if j = Null_P then Inr h else erase_field s k h))"
| "run_json_op h (Destroy v) = destruct_json v h"

fun good_access :: "access \<Rightarrow> bool" where
  "good_access (Key k) = True"
| "good_access (Index i) = (i < vector_max_size)"

text \<open>Source and target of an assignment between two paths start at different variables.\<close>

primrec good_op :: "nat \<Rightarrow> 'd json_op \<Rightarrow> bool" where
  "good_op k (Set_Value v as x) = (v < k \<and> list_all good_access as)"
| "good_op k (Put_Copy v as w) = (v < k \<and> w < k \<and> list_all good_access as \<and> v \<noteq> w)"
| "good_op k (Get_Copy v w as) = (v < k \<and> w < k \<and> list_all good_access as \<and> v \<noteq> w)"
| "good_op k (Put_Move v as w) = (v < k \<and> w < k \<and> list_all good_access as \<and> v \<noteq> w)"
| "good_op k (Get_Move v w as) = (v < k \<and> w < k \<and> list_all good_access as \<and> v \<noteq> w)"
| "good_op k (Push_Copy v as w) = (v < k \<and> w < k \<and> list_all good_access as)"
| "good_op k (Set_Length v as n) = (v < k \<and> list_all good_access as \<and> n \<le> vector_max_size)"
| "good_op k (Turn_Round v as) = (v < k \<and> list_all good_access as)"
| "good_op k (Erase_Field v as f) = (v < k \<and> list_all good_access as)"
| "good_op k (Destroy v) = (v < k)"

lemma locate_fine:
  "heap_ok N h [] \<Longrightarrow> based V h s \<Longrightarrow> 1 \<le> N \<Longrightarrow> list_all good_access as \<Longrightarrow>
    fine (\<lambda>(s', h'). same_locals h h' \<and> heap_ok N h' [] \<and> based V h' s') (locate s as h)"
proof (induction as arbitrary: s h)
  case Nil
  then show ?case by (simp add: same_locals_def)
next
  case (Cons a as)
  have "fine (\<lambda>(s', h'). same_locals h h' \<and> heap_ok N h' [] \<and> based V h' s') (go a s h)"
    using Cons.prems by (cases a) (simp_all add: at_key_fine at_index_fine)
  then have "fine (\<lambda>(s', h'). same_locals h h' \<and> heap_ok N h' [] \<and> based V h' s') (bindE (go a s h) (\<lambda>(s, h). locate s as h))"
  proof (rule fine_bind2, elim conjE)
    fix s1 h1 assume a: "same_locals h h1" "heap_ok N h1 []" "based V h1 s1"
    from Cons.IH [OF a(2,3)] Cons.prems(3,4)
    have "fine (\<lambda>(s', h'). same_locals h1 h' \<and> heap_ok N h' [] \<and> based V h' s') (locate s1 as h1)" by simp
    then show "fine (\<lambda>(s', h'). same_locals h h' \<and> heap_ok N h' [] \<and> based V h' s') (locate s1 as h1)"
      by (rule fine_mono) (use a(1) in \<open>auto simp: same_locals_def\<close>)
  qed
  then show ?case by simp
qed

lemma heap_ok_mono: "heap_ok N h ks \<Longrightarrow> heap_ok (N + 1) h ks"
  by (auto simp: heap_ok_def intro: le_SucI)

text \<open>Every operation starts at a variable and goes on with the slot it finds.\<close>

lemma at_slot:
  assumes ok: "heap_ok N h []" and v: "v < length (locals h)" and N: "1 \<le> N" and as: "list_all good_access as"
    and f: "\<And>s h'. same_locals h h' \<Longrightarrow> heap_ok N h' [] \<Longrightarrow> based {v} h' s \<Longrightarrow>
      fine (\<lambda>h2. same_locals h' h2 \<and> heap_ok (N + 1) h2 []) (f s h')"
  shows "fine (\<lambda>h2. same_locals h h2 \<and> heap_ok (N + 1) h2 []) (bindE (locate (Local v) as h) (\<lambda>(s, h). f s h))"
proof -
  have b: "based {v} h (Local v)" using v by (simp add: based_def slot_ok_def)
  show ?thesis
  proof (rule fine_bind2 [OF locate_fine [OF ok b N as]], elim conjE)
    fix s h1 assume a: "same_locals h h1" "heap_ok N h1 []" "based {v} h1 s"
    from f [OF this] show "fine (\<lambda>h2. same_locals h h2 \<and> heap_ok (N + 1) h2 []) (f s h1)"
      by (rule fine_mono) (use a(1) in \<open>simp add: same_locals_def\<close>)
  qed
qed

lemma same_and_more:
  assumes "fine (\<lambda>h'. same_locals h h' \<and> heap_ok N h' []) r"
  shows "fine (\<lambda>h'. same_locals h h' \<and> heap_ok (N + 1) h' []) r"
  by (rule fine_mono [OF assms]) (use heap_ok_mono in blast)

lemma based_variable: "v < length (locals h) \<Longrightarrow> based {v} h (Local v)"
  by (simp add: based_def slot_ok_def)

lemma put_copy_fine:
  assumes ok: "heap_ok N h []" and s: "based {v} h s" and w: "w < length (locals h)" "v \<noteq> w" and N: "N + 1 < 2 ^ 32"
  shows "fine (\<lambda>h'. same_locals h h' \<and> heap_ok (N + 1) h' []) (assign_copy s (Local w) h)"
proof (rule assign_copy_fine [OF ok based_slot_ok [OF s]])
  show "roots {v} h \<subseteq> set (locals h)" using roots_locals [of "{v}" h "[]"] by simp
  show "slot_ok {} (put_slot s Null_P h) (Local w)" using w(1) by (simp add: slot_ok_def length_locals_put)
  show "s \<noteq> Local w" using s w(2) by (auto simp: based_def)
qed (use N in simp_all)

lemma get_copy_from_fine:
  assumes ok: "heap_ok N h []" and s: "based {w} h s" and v: "v < length (locals h)" "v \<noteq> w" and N: "N + 1 < 2 ^ 32"
  shows "fine (\<lambda>h'. same_locals h h' \<and> heap_ok (N + 1) h' []) (assign_copy (Local v) s h)"
proof (rule assign_copy_fine [OF ok based_slot_ok [OF based_variable [OF v(1)]]])
  show "roots {v} h \<subseteq> set (locals h)" using roots_locals [of "{v}" h "[]"] by simp
  have b: "based {w} (put_slot (Local v) Null_P h) s" using based_put_local [OF s, of v] v(2) by simp
  then show "slot_ok (roots {w} (put_slot (Local v) Null_P h)) (put_slot (Local v) Null_P h) s" by (rule based_slot_ok)
  show "roots {w} (put_slot (Local v) Null_P h) \<subseteq> set (locals (put_slot (Local v) Null_P h))"
    using roots_locals [of "{w}" "put_slot (Local v) Null_P h" "[]"] by simp
  show "Local v \<noteq> s" using s v(2) by (auto simp: based_def)
qed (use N in simp_all)

lemma run_json_op_fine:
  assumes ok: "heap_ok N h []" and g: "good_op (length (locals h)) act" and N: "1 \<le> N" "N + 1 < 2 ^ 32"
  shows "fine (\<lambda>h'. same_locals h h' \<and> heap_ok (N + 1) h' []) (run_json_op h act)"
proof -
  note at = at_slot [OF ok _ N(1)]
  show ?thesis
  proof (cases act)
    case (Set_Value v as x)
    with g have a: "v < length (locals h)" "list_all good_access as" by simp_all
    show ?thesis unfolding Set_Value run_json_op.simps
      by (rule at [OF a]) (rule same_and_more [OF assign_value_fine])
  next
    case (Put_Copy v as w)
    with g have a: "v < length (locals h)" "list_all good_access as" and w: "w < length (locals h)" "v \<noteq> w" by simp_all
    show ?thesis unfolding Put_Copy run_json_op.simps
      by (rule at [OF a], rule put_copy_fine) (use w N(2) in \<open>simp_all add: same_locals_def\<close>)
  next
    case (Get_Copy v w as)
    with g have a: "w < length (locals h)" "list_all good_access as" and v: "v < length (locals h)" "v \<noteq> w" by simp_all
    show ?thesis unfolding Get_Copy run_json_op.simps
      by (rule at [OF a], rule get_copy_from_fine) (use v N(2) in \<open>simp_all add: same_locals_def\<close>)
  next
    case (Put_Move v as w)
    with g have a: "v < length (locals h)" "list_all good_access as" and w: "w < length (locals h)" "v \<noteq> w" by simp_all
    show ?thesis unfolding Put_Move run_json_op.simps
      by (rule at [OF a], rule same_and_more, rule assign_move_fine [where V = "{v}" and W = "{w}"])
         (use w in \<open>simp_all add: same_locals_def based_variable\<close>)
  next
    case (Get_Move v w as)
    with g have a: "w < length (locals h)" "list_all good_access as" and v: "v < length (locals h)" "v \<noteq> w" by simp_all
    show ?thesis unfolding Get_Move run_json_op.simps
      by (rule at [OF a], rule same_and_more, rule assign_move_fine [where V = "{v}" and W = "{w}"])
         (use v in \<open>simp_all add: same_locals_def based_variable\<close>)
  next
    case (Push_Copy v as w)
    with g have a: "v < length (locals h)" "list_all good_access as" and w: "w < length (locals h)" by simp_all
    show ?thesis unfolding Push_Copy run_json_op.simps
      by (rule at [OF a], rule push_back_fine) (use w N in \<open>simp_all add: same_locals_def\<close>)
  next
    case (Set_Length v as n)
    with g have a: "v < length (locals h)" "list_all good_access as" and n: "n \<le> vector_max_size" by simp_all
    show ?thesis unfolding Set_Length run_json_op.simps
      by (rule at [OF a], rule same_and_more, rule set_array_size_fine) (use n N(1) in simp_all)
  next
    case (Turn_Round v as)
    with g have a: "v < length (locals h)" "list_all good_access as" by simp_all
    show ?thesis unfolding Turn_Round run_json_op.simps
      by (rule at [OF a], rule same_and_more, rule reverse_array_fine) (use N(1) in simp_all)
  next
    case (Erase_Field v as k)
    with g have a: "v < length (locals h)" "list_all good_access as" by simp_all
    show ?thesis unfolding Erase_Field run_json_op.simps
    proof (rule at [OF a], rule same_and_more)
      fix s and h' :: "'a json_heap" assume b: "heap_ok N h' []" "based {v} h' s"
      from erase_field_fine [OF b] b(1)
      show "fine (\<lambda>h2. same_locals h' h2 \<and> heap_ok N h2 []) (bindE (read_slot h' s) (\<lambda>j. if j = Null_P then Inr h' else erase_field s k h'))"
        by (simp add: read_slot_ok [OF based_slot_ok [OF b(2)]] same_locals_def)
    qed
  next
    case (Destroy v)
    with g have "v < length (locals h)" by simp
    from same_and_more [OF destruct_fine [OF ok this]] show ?thesis unfolding Destroy run_json_op.simps .
  qed
qed

lemma run_json_ops_fine:
  assumes "heap_ok N h []" "list_all (good_op (length (locals h))) acts" "1 \<le> N" "N + length acts < 2 ^ 32"
  shows "fine (\<lambda>h'. same_locals h h' \<and> heap_ok (N + length acts) h' []) (foldE run_json_op h acts)"
  using assms
proof (induction acts arbitrary: h N)
  case Nil
  then show ?case by (simp add: same_locals_def)
next
  case (Cons act acts)
  have "fine (\<lambda>h'. same_locals h h' \<and> heap_ok (N + 1) h' []) (run_json_op h act)"
    by (rule run_json_op_fine) (use Cons.prems in simp_all)
  then have "fine (\<lambda>h'. same_locals h h' \<and> heap_ok (N + length (act # acts)) h' []) (bindE (run_json_op h act) (\<lambda>h. foldE run_json_op h acts))"
  proof (rule fine_bind, elim conjE)
    fix h1 assume a: "same_locals h h1" "heap_ok (N + 1) h1 []"
    have "fine (\<lambda>h'. same_locals h1 h' \<and> heap_ok (N + 1 + length acts) h' []) (foldE run_json_op h1 acts)"
      by (rule Cons.IH [OF a(2)]) (use Cons.prems a(1) in \<open>simp_all add: same_locals_def\<close>)
    then show "fine (\<lambda>h'. same_locals h h' \<and> heap_ok (N + length (act # acts)) h' []) (foldE run_json_op h1 acts)"
      by (rule fine_mono) (use a(1) in \<open>simp add: same_locals_def\<close>)
  qed
  then show ?case by simp
qed


subsection \<open>Nothing is freed too early, freed twice or lost\<close>

definition new_heap :: "nat \<Rightarrow> nat \<Rightarrow> nat \<Rightarrow> 'd json_heap" where
  "new_heap n m k = \<lparr>value_pool = new_pool (replicate n \<lparr>vn_value = VNull, m_is_string_format = True\<rparr>),
     object_pool = new_pool (replicate m \<lparr>reference_count = 0, m_is_array = False, m_object = [], m_array = []\<rparr>),
     locals = replicate k Null_P\<rparr>"

text \<open>The number of \<open>Json\<close>s, local or in an object, that hold a pointer.\<close>

definition owners :: "'d json_heap \<Rightarrow> jptr \<Rightarrow> nat" where
  "owners h j = count_list (locals h @ concat (map children (objs (object_pool h)))) j"

lemma count_refs: "count (refs oref js) p = count_list js (Object_P p)" "count (refs vref js) p = count_list js (Value_P p)"
  by (induction js) (auto simp: oref_def vref_def split: jptr.splits)

lemma count_refs_nodes:
  "count (\<Sum>n\<leftarrow>ns. refs oref (children n)) p = count_list (concat (map children ns)) (Object_P p)"
  "count (\<Sum>n\<leftarrow>ns. refs vref (children n)) p = count_list (concat (map children ns)) (Value_P p)"
  by (induction ns) (simp_all add: count_refs)

lemma owners_eq: "count (heap_refs oref h) p = owners h (Object_P p)" "count (heap_refs vref h) p = owners h (Value_P p)"
  by (simp_all add: heap_refs_def owners_def count_refs count_refs_nodes)

lemma counts_ok_owners:
  assumes "counts_ok cnt fr n rs" "p < n"
  shows "p \<in> set fr \<longleftrightarrow> count rs p = 0" "0 < count rs p \<Longrightarrow> unat (cnt p) = count rs p"
  using assms unfolding counts_ok_def by (metis Int_iff UnE count_eq_zero_iff emptyE lessThan_iff, metis count_greater_zero_iff)

lemma new_heap_ok:
  assumes "0 < n" "n < 2 ^ 64" "0 < m" "m < 2 ^ 64"
  shows "heap_ok 1 (new_heap n m k :: 'd json_heap) []"
proof -
  define h :: "'d json_heap" where "h = new_heap n m k"
  have "heap_refs f h = {#}" if "f Null_P = {#}" for f
  proof -
    have "(\<Sum>x\<leftarrow>replicate i y. {#}) = {#}" for i and y :: object_node by (induction i) simp_all
    then show ?thesis by (simp add: heap_refs_def h_def new_heap_def new_pool_def that children_def)
  qed
  from this [of oref] this [of vref] have "heap_refs oref h = {#}" "heap_refs vref h = {#}" by simp_all
  moreover have "pool_ok (value_pool h)" "pool_ok (object_pool h)"
    "pool_size (value_pool h) = n" "pool_size (object_pool h) = m"
    "free_values h = [0..<n]" "free_objects h = [0..<m]"
    using assms by (simp_all add: h_def new_heap_def new_pool_ok new_pool_size free_values_def free_objects_def new_pool_free)
  moreover have "length (objs (value_pool h)) = n"
    "objs (object_pool h) = replicate m \<lparr>reference_count = 0, m_is_array = False, m_object = [], m_array = []\<rparr>"
    by (simp_all add: h_def new_heap_def new_pool_def)
  ultimately show ?thesis unfolding h_def [symmetric] by (auto simp: heap_ok_def counts_ok_def blank_def object_at_def)
qed

text \<open>
  C28: ownership of JSON values is exact. After any program over \<open>k\<close> variables of type \<open>Json\<close>
  (nested accesses, copies, moves, assignments from other variables, array and object methods, destructions), unless
  a pool has run empty, which throws: an object is in the pool's free list exactly when no \<open>Json\<close> holds it,
  its count is the number of \<open>Json\<close>s that hold it, and every value has at most one owner and is
  free exactly when it has none. So nothing is freed while it is used, freed twice, or lost.
  Assigning to a variable from a part of itself is not covered: it can read what it has destroyed (\<open>json_own_part_dangles\<close>).
\<close>

theorem json_owners_exact:
  fixes acts :: "'d json_op list"
  assumes "0 < n" "n < 2 ^ 64" "0 < m" "m < 2 ^ 64" "list_all (good_op k) acts" "length acts + 1 < 2 ^ 32"
  shows "fine (\<lambda>h.
      (\<forall>p < m. (p \<in> set (free_objects h) \<longleftrightarrow> owners h (Object_P p) = 0) \<and>
         (0 < owners h (Object_P p) \<longrightarrow> unat (reference_count (object_at h p)) = owners h (Object_P p))) \<and>
      (\<forall>p < n. (p \<in> set (free_values h) \<longleftrightarrow> owners h (Value_P p) = 0) \<and> owners h (Value_P p) \<le> 1))
    (foldE run_json_op (new_heap n m k) acts)"
proof -
  have "fine (\<lambda>h'. same_locals (new_heap n m k) h' \<and> heap_ok (1 + length acts) h' []) (foldE run_json_op (new_heap n m k) acts)"
    by (rule run_json_ops_fine [OF new_heap_ok]) (use assms in \<open>simp_all add: new_heap_def\<close>)
  then show ?thesis
  proof (rule fine_mono)
    fix h :: "'d json_heap" assume a: "same_locals (new_heap n m k) h \<and> heap_ok (1 + length acts) h []"
    then have c: "counts_ok (\<lambda>p. reference_count (object_at h p)) (free_objects h) m (heap_refs oref h)"
      "counts_ok (\<lambda>_. 1) (free_values h) n (heap_refs vref h)"
      by (auto simp: heap_ok_def same_locals_def new_heap_def new_pool_def)
    show "(\<forall>p < m. (p \<in> set (free_objects h) \<longleftrightarrow> owners h (Object_P p) = 0) \<and>
         (0 < owners h (Object_P p) \<longrightarrow> unat (reference_count (object_at h p)) = owners h (Object_P p))) \<and>
      (\<forall>p < n. (p \<in> set (free_values h) \<longleftrightarrow> owners h (Value_P p) = 0) \<and> owners h (Value_P p) \<le> 1)"
      using counts_ok_owners [OF c(1)] counts_ok_owners [OF c(2)] by (force simp: owners_eq)
  qed
qed


text \<open>Running a small program.\<close>

lemmas run_simps = new_heap_def new_pool_def pool_size_def acquire_def release_def pool_head_def pool_tail_def
  fetch_sub1_def fetch_add1_def run_hook_def Let_def value_class_def object_class_def
  acquire_value_def acquire_object_def read_slot_def write_slot_def put_slot_def set_object_def set_value_def
  object_at_def value_at_def check_create_object_def check_create_value_def create_object_in_def create_value_in_def
  object_in_def at_key_def node_at_key_def emplace_key_def assign_value_def assign_copy_def get_copy_def children_def

definition sharing_program :: "int json_op list" where
  "sharing_program = [Set_Value 0 [Key ''a''] (VInt 1), Get_Copy 1 0 []]"

lemma sharing_run: "case foldE run_json_op (new_heap 2 2 2) sharing_program of Inl _ \<Rightarrow> False
     | Inr h \<Rightarrow> locals h = [Object_P 0, Object_P 0] \<and> reference_count (object_at h 0) = 2 \<and>
        read_slot h (Field 0 ''a'') = Inr (Value_P 0)"
  by (simp add: sharing_program_def run_simps numeral_2_eq_2)

theorem json_owners_exact_witness:
  "\<exists>h. foldE run_json_op (new_heap 2 2 2) sharing_program = Inr h \<and> locals h = [Object_P 0, Object_P 0] \<and>
     owners h (Object_P 0) = 2"
proof -
  from sharing_run obtain h where h: "foldE run_json_op (new_heap 2 2 2) sharing_program = Inr h" "locals h = [Object_P 0, Object_P 0]"
    "reference_count (object_at h 0) = 2" by (auto split: sum.splits)
  have "list_all (good_op 2) sharing_program" by (simp add: sharing_program_def)
  from json_owners_exact [of 2 2 2 sharing_program, OF _ _ _ _ this] h(1)
  have "0 < owners h (Object_P 0) \<longrightarrow> unat (reference_count (object_at h 0)) = owners h (Object_P 0)"
    by (simp add: sharing_program_def)
  moreover have "0 < owners h (Object_P 0)" by (simp add: owners_def h(2))
  ultimately show ?thesis using h by simp
qed

text \<open>
  The exception is a \<open>Json\<close> assigned from its own part, as in \<open>j = j["data"]\<close> or
  \<open>j = std::move(j["data"])\<close>: when \<open>j\<close> is the only owner of its object, the assignment destroys
  the object, and with it the \<open>Json\<close> it is about to read.
\<close>

theorem json_own_part_dangles:
  fixes h :: "'d json_heap"
  assumes ok: "heap_ok N h []" and v: "v < length (locals h)" "locals h ! v = Object_P p"
    and c: "reference_count (object_at h p) = 1"
  shows "assign_copy (Local v) (Field p k) h = Inl (UB Dangling_Iterator) \<and>
    assign_move (Local v) (Field p k) h = Inl (UB Dangling_Iterator)"
proof -
  have s: "slot_ok {} h (Local v)" and val: "slot_val h (Local v) = Object_P p" using v by (simp_all add: slot_ok_def slot_val_def)
  let ?h0 = "put_slot (Local v) Null_P h"
  have ok0: "heap_ok N ?h0 (Object_P p # [])" by (rule put_slot_ok [OF ok s]) (auto simp: val)
  have c0: "reference_count (object_at ?h0 p) = 1" using c by (simp add: put_slot_def)
  let ?n = "object_at ?h0 p"
  let ?h1 = "set_object p (?n\<lparr>reference_count := reference_count ?n - 1\<rparr>) ?h0"
  let ?h2 = "\<lambda>pl. set_object p (?n\<lparr>reference_count := reference_count ?n - 1, m_object := [], m_array := [], m_is_array := False\<rparr>) (?h1\<lparr>object_pool := pl\<rparr>)"
  from last_owner_step [OF ok0 c0] obtain pl where pl: "release object_class (object_pool ?h1) (Some p) = Inr pl"
    "heap_ok N (?h2 pl) (children ?n @ [])" "p \<in> set (free_objects (?h2 pl))" by (auto simp: Let_def)
  from release_jsons_ok [OF pl(2)] obtain h3 where h3: "release_jsons (children ?n) (?h2 pl) = Inr h3" "heap_ok N h3 []" "kept (?h2 pl) h3"
    by blast
  have "p \<in># heap_refs oref ?h0 + refs oref [Object_P p]" by simp
  from heap_ok_object(2) [OF ok0 this] have l: "p < length (objs (object_pool ?h0))" .
  have r0: "release_jsons [Object_P p] ?h0 = Inr h3"
    using l c0 pl(1) h3(1) by (simp only: release_jsons.simps Let_def if_True sum.case append_Nil2 simp_thms)
  have restored: "?h0\<lparr>locals := locals h\<rparr> = h" by (simp add: put_slot_def)
  have r: "release_jsons [Object_P p] h = Inr (h3\<lparr>locals := locals h\<rparr>)"
    using release_locals [of "[Object_P p]" "locals h" ?h0] r0 unfolding restored by simp
  have "p \<in> set (free_objects h3)" using pl(3) h3(3) by (auto simp: kept_def)
  with h3(2) have "m_object (object_at h3 p) = []" by (simp add: heap_ok_def blank_def)
  then have "read_slot (h3\<lparr>locals := locals h\<rparr>) (Field p k) = Inl (UB Dangling_Iterator)" by (simp add: read_slot_def)
  then show ?thesis using r v(1) val by (simp add: assign_copy_def assign_move_def read_slot_ok [OF s])
qed

theorem json_own_part_dangles_witness:
  "\<exists>h p. foldE run_json_op (new_heap 2 2 1 :: int json_heap) [Set_Value 0 [Key ''data''] (VInt 1)] = Inr h \<and>
     read_slot h (Field p ''data'') = Inr (Value_P 0) \<and>
     assign_copy (Local 0) (Field p ''data'') h = Inl (UB Dangling_Iterator)"
proof -
  let ?acts = "[Set_Value 0 [Key ''data''] (VInt 1)] :: int json_op list"
  have "case foldE run_json_op (new_heap 2 2 1) ?acts of Inl _ \<Rightarrow> False
     | Inr h \<Rightarrow> locals h = [Object_P 0] \<and> reference_count (object_at h 0) = 1 \<and> read_slot h (Field 0 ''data'') = Inr (Value_P 0)" by (simp add: run_simps)
  then obtain h where h: "foldE run_json_op (new_heap 2 2 1) ?acts = Inr h" "locals h = [Object_P 0]"
    "reference_count (object_at h 0) = 1" "read_slot h (Field 0 ''data'') = Inr (Value_P 0)" by (auto split: sum.splits)
  have "fine (\<lambda>h'. same_locals (new_heap 2 2 1) h' \<and> heap_ok (1 + length ?acts) h' []) (foldE run_json_op (new_heap 2 2 1) ?acts)"
    by (rule run_json_ops_fine [OF new_heap_ok]) (simp_all add: new_heap_def)
  with h(1) have "heap_ok (1 + length ?acts) h []" by (simp only: fine_Inr)
  from json_own_part_dangles [OF this, of 0 0 "''data''"] h show ?thesis by auto
qed

end
