(* ===== verification/Http_Faults.thy ===== *)
theory Http_Faults
  imports Http_Roundtrip
begin

section \<open>Requests that break the constructors\<close>

text \<open>
  What texts from the network make \<open>CreateNewHttpRequest\<close> throw, leave the defined behaviour or
  run for ever.
\<close>

lemma query_string_ok: "\<exists>r. deserialize_query_string url = Inr r"
proof (cases "std_find url 0 ''?''")
  case (Some q)
  then have "q + 1 \<le> length url" by (simp add: std_find_Some)
  with Some show ?thesis by (simp add: deserialize_query_string_def)
qed (simp add: deserialize_query_string_def)

lemma url_ok:
  assumes "find_first_of content 0 '' '' = Some e" "length content < 2 ^ 31"
  shows "\<exists>u. deserialize_url content = Inr u"
proof -
  have e: "e < length content" using assms(1) by (simp add: find_first_of_Some)
  then have "sz_add e 1 = e + 1" using assms(2) by simp
  then show ?thesis
    using e assms(1) by (cases "find_first_of content (e + 1) '' ''") (simp_all add: deserialize_url_def of_pos_def)
qed

text \<open>
  A request whose first line break is its last character makes every constructor throw
  \<open>std::out_of_range\<close>: the position after the break is past the end of the text.
\<close>

theorem request_break_throws:
  assumes "find_first_of content 0 crlf = Some (length content - 1)" "length content < 2 ^ 31"
    and "find_first_of content 0 '' '' = Some e" "map_of request_method_map (take e content) = Some meth"
  shows "create_new_http_request pf n content dir = Some (Inl (Throw Std_Out_Of_Range))"
proof -
  from url_ok [OF assms(3,2)] obtain u where u: "deserialize_url content = Inr u" ..
  obtain p q where q: "deserialize_query_string u = Inr (p, q)" using query_string_ok [of u] by auto
  have "0 < length content" using assms(1) by (auto simp: find_first_of_Some)
  then have "sz_add (length content - 1) 2 = length content + 1" using assms(2) by simp
  then have h: "deserialize_header_params content = Some (Inl (Throw Std_Out_Of_Range))"
    by (simp add: deserialize_header_params_def assms(1) of_pos_def substr_def)
  have b: "new_http_request cls content dir = (Some (Inl (Throw Std_Out_Of_Range)) :: 'a http_request result option)" for cls
    by (simp only: new_http_request_def u q h bindP_simps case_prod_conv)
  then have "request_generator_by_method pf n meth content dir = Some (Inl (Throw Std_Out_Of_Range))"
    by (cases meth) (simp_all add: request_generator_by_method_def new_http_request_post_def)
  then show ?thesis by (simp add: create_new_http_request_def assms(3,4))
qed

theorem request_break_throws_witness:
  "create_new_http_request demo_platform 0 (''GET / '' @ [CHR 0x0A]) ''web'' = Some (Inl (Throw Std_Out_Of_Range))"
proof (rule request_break_throws)
  show "find_first_of (''GET / '' @ [CHR 0x0A]) 0 '' '' = Some 3" by code_simp
  show "find_first_of (''GET / '' @ [CHR 0x0A]) 0 crlf = Some (length (''GET / '' @ [CHR 0x0A]) - 1)" by code_simp
  show "map_of request_method_map (take 3 (''GET / '' @ [CHR 0x0A])) = Some GET" by code_simp
qed simp

subsection \<open>Bodies that are not JSON\<close>

lemma json_no_bracket:
  assumes "s \<noteq> []" "CHR ''{'' \<notin> set s" "CHR ''['' \<notin> set s"
  shows "json_parse pf (Suc n) s = Some (Inl (UB Out_Of_Bounds))"
proof -
  have "scan_until (\<lambda>c. c = CHR ''{'' \<or> c = CHR ''['') s 0 = Inr (length s, False)"
  proof (rule scan_until_none)
    show "0 < length s" using assms(1) by simp
    show "\<forall>i < length s. 0 \<le> i \<longrightarrow> \<not> (s ! i = CHR ''{'' \<or> s ! i = CHR ''['')"
      using assms(2,3) nth_mem [of _ s] by metis
  qed
  with assms(1) show ?thesis by (simp add: json_parse_def Let_def rd_def parse_array.simps)
qed

lemma json_open_key:
  assumes "CHR 0x22 \<notin> set k" "k \<noteq> []"
  shows "json_parse pf (Suc (Suc n)) ([CHR ''{'', CHR 0x22] @ k) = Some (Inl (UB Out_Of_Bounds))"
proof -
  define s where "s = [CHR ''{'', CHR 0x22] @ k"
  have r0: "rd s 0 = Inr (CHR ''{'')" and r1: "rd s 1 = Inr (CHR 0x22)" by (simp_all add: s_def rd_def)
  have l: "2 < length s" using assms(2) by (simp add: s_def)
  have start: "scan_until (\<lambda>c. c = CHR ''{'' \<or> c = CHR ''['') s 0 = Inr (0, True)"
    using r0 by (simp add: scan_until.simps [of _ s 0])
  have open_q: "scan_until (\<lambda>c. c = CHR 0x22 \<or> c = CHR ''}'') s 1 = Inr (1, True)"
    using r1 by (subst scan_until.simps) simp
  have "s ! i \<noteq> CHR 0x22" if "2 \<le> i" "i < length s" for i
  proof -
    from that have "s ! i \<in> set k" by (simp add: s_def nth_append)
    with assms(1) show ?thesis by auto
  qed
  then have fin: "scan_until (\<lambda>c. c = CHR 0x22) s 2 = Inr (length s, False)"
    using l by (intro scan_until_none) auto
  have key: "parse_key s 1 True = Inr (drop 2 s, length s + 1, False)"
    using l by (simp add: parse_key_def open_q r1 [unfolded One_nat_def] fin get_sub_string_def
        open_q [unfolded One_nat_def] fin [unfolded numeral_2_eq_2] numeral_2_eq_2)
  have "find_value s (length s + 1) = Inl (UB Out_Of_Bounds)"
    by (subst find_value.simps) (simp add: rd_def)
  then have v: "parse_value pf s (Suc n) (length s + 1) False = Some (Inl (UB Out_Of_Bounds))"
    by (simp add: parse_value.simps)
  have "parse_object pf s (Suc (Suc n)) 1 True JNone = Some (Inl (UB Out_Of_Bounds))"
    unfolding parse_object.simps(2) by (simp only: r1 key bindP_simps case_prod_conv v char.inject) simp
  with l show ?thesis
    unfolding s_def [symmetric] json_parse_def
    by (auto simp: start r0 Let_def)
qed


text \<open>
  The body of a POST, PUT or DELETE request goes through the JSON parser whatever its type.
  A body without a bracket, such as form or url-encoded data, and a JSON body that was cut
  inside its first key, as the first part of a request that arrives in pieces can be, make the
  parser read outside the string.
\<close>

theorem http_body_overrun:
  assumes "clean_request path ps hs" "(meth, m) \<in> {(''POST'', POST), (''PUT'', PUT), (''DELETE'', DELETE)}"
    and "short_request meth path ps hs body"
    and "(body \<noteq> [] \<and> CHR ''{'' \<notin> set body \<and> CHR ''['' \<notin> set body) \<or>
      (\<exists>k. body = [CHR ''{'', CHR 0x22] @ k \<and> k \<noteq> [] \<and> CHR 0x22 \<notin> set k)"
  shows "create_new_http_request pf (Suc (Suc n)) (request_text meth path ps hs body) dir = Some (Inl (UB Out_Of_Bounds))"
proof -
  have w: "clean_word meth" "meth \<noteq> []" using assms(2) by (auto simp: clean_word_def no_break_def)
  have j: "json_parse pf (Suc (Suc n)) body = Some (Inl (UB Out_Of_Bounds))"
    using assms(4) json_no_bracket [of body pf "Suc n"] json_open_key [of _ pf n] by blast
  have new: "new_http_request cls (request_text meth path ps hs body) dir =
      Some (Inr (read_request cls path dir ps hs :: 'a http_request))" for cls
    by (rule new_request_read [OF assms(1) w(1) assms(3)])
  have post: "new_http_request_post pf (Suc (Suc n)) cls (request_text meth path ps hs body) dir =
      Some (Inl (UB Out_Of_Bounds))" for cls
    by (simp only: new_http_request_post_def new deserialize_body_def body_read [OF assms(1) w assms(3)] bindP_simps j)
  have "map_of request_method_map meth = Some m"
    "request_generator_by_method pf (Suc (Suc n)) m (request_text meth path ps hs body) dir = Some (Inl (UB Out_Of_Bounds))"
    using assms(2) post by (auto simp: request_method_map_def request_generator_by_method_def)
  with create_dispatch [OF assms(1), of meth m pf "Suc (Suc n)" body dir] show ?thesis by simp
qed

theorem http_body_overrun_witness:
  "create_new_http_request demo_platform (Suc (Suc 0)) (request_text ''POST'' ''/a'' [] [(''Host'', ''h'')] ''x=1&y=2'') ''web'' =
     Some (Inl (UB Out_Of_Bounds))"
proof (rule http_body_overrun)
  show "clean_request ''/a'' [] [(''Host'', ''h'')]"
    by (simp add: clean_request_def clean_word_def no_break_def clean_header_def find_absent [of "CHR '' ''"])
  show "(''POST'', POST) \<in> {(''POST'', POST), (''PUT'', PUT), (''DELETE'', DELETE)}" by simp
  show "short_request ''POST'' ''/a'' [] [(''Host'', ''h'')] ''x=1&y=2''"
    by (simp add: short_request_def request_text_def header_lines_def target_text_def)
qed simp

subsection \<open>Form data\<close>

text \<open>With an empty boundary the search for the next part finds the current position again.\<close>

lemma form_loop_stuck:
  assumes "form_loop b f s j = Some r"
  shows "int_find b key_format 0 = 0 \<longrightarrow> form_entry b 0 = Inr kv \<longrightarrow> f = [] \<longrightarrow> s \<noteq> 0"
proof (rule form_loop.raw_induct [OF _ assms], intro impI notI)
  fix fl :: "string \<Rightarrow> string \<Rightarrow> int \<Rightarrow> 'a json \<Rightarrow> 'a json result option" and b f :: string and s j r
  assume ih: "\<And>b f s j r. fl b f s j = Some r \<Longrightarrow>
      int_find b key_format 0 = 0 \<longrightarrow> form_entry b 0 = Inr kv \<longrightarrow> f = [] \<longrightarrow> s \<noteq> 0"
    and step: "(let key_start = int_find b key_format s in if \<not> - 1 < key_start then Some (Inr j)
      else case form_entry b key_start of Inl e \<Rightarrow> Some (Inl e) | Inr (key, value) \<Rightarrow>
        fl b f (int_find b f (s + int (length f))) (set_key j (c_str key) (of_string value))) = Some r"
    and at: "int_find b key_format 0 = 0" "form_entry b 0 = Inr kv" "f = []" "s = 0"
  have "std_find b 0 [] = Some 0" by (simp add: std_find_Some)
  then have z: "int_find b [] 0 = 0" by (simp add: int_find_def pos_to_int_def size_to_int_def)
  obtain k v where "kv = (k, v)" by (cases kv)
  with step at z have "fl b [] 0 (set_key j (c_str k) (of_string v)) = Some r" by (simp add: Let_def)
  from ih [OF this] at(1,2) show False by simp
qed

lemma form_loop_diverges:
  "int_find body key_format 0 = 0 \<Longrightarrow> form_entry body 0 = Inr kv \<Longrightarrow> form_loop body [] 0 j = None"
  using form_loop_stuck [of body "[]" 0 j _ kv] by (cases "form_loop body [] 0 j") auto

text \<open>
  A body that begins with the form-data key, so with an empty boundary before it, makes
  the constructor of a POST request run for ever once its first entry can be read.
\<close>

theorem form_data_never_returns:
  assumes "m_body rq = key_format @ rest" "form_entry (m_body rq) 0 = Inr kv"
  shows "deserialize_body_form_data rq = None"
proof -
  have "std_find (m_body rq) 0 key_format = Some 0" by (simp add: std_find_Some assms(1))
  then have f: "int_find (m_body rq) key_format 0 = 0" by (simp add: int_find_def pos_to_int_def size_to_int_def)
  have s: "substr (m_body rq) 0 0 = Inr []" by simp
  show ?thesis by (simp add: deserialize_body_form_data_def f form_loop_diverges [OF f assms(2)])
qed

definition endless_form :: "int http_request" where
  "endless_form = (read_request Http_Request_Post ''/'' ''web'' [] [])
     \<lparr>m_body := key_format @ [CHR 0x22] @ ''a'' @ [CHR 0x22] @ crlf @ crlf @ ''[1]'' @ crlf\<rparr>"

theorem form_data_never_returns_witness: "deserialize_body_form_data endless_form = None"
proof (rule form_data_never_returns)
  show "m_body endless_form = key_format @ [CHR 0x22] @ ''a'' @ [CHR 0x22] @ crlf @ crlf @ ''[1]'' @ crlf"
    by (simp add: endless_form_def)
  show "form_entry (m_body endless_form) 0 = Inr (''a'', ''[1]'')"
    unfolding endless_form_def by code_simp
qed

end
