(* ===== verification/Http_Query.thy ===== *)
theory Http_Query
  imports Http_Roundtrip
begin

section \<open>Query strings of JSON objects\<close>

text \<open>
  \<open>get_query_string_from_query_json\<close> of \<open>http_request.cpp\<close> writes the query string of a JSON object,
  \<open>deserialize_query_params\<close> reads it.
\<close>

lemma unquoted_text:
  assumes "length v \<le> string_buffer_size"
  shows "get_string_value pf (unquote (JValue (VString v) f)) = Inr v"
  using writers_text [of pf "JValue (VString v) False"] assms
  by (simp add: unquote_def value_pieces_def Let_def)

lemma query_pieces_text:
  assumes "\<forall>p \<in> set ps. length (snd p) \<le> string_buffer_size"
  shows "query_pieces pf first (map (\<lambda>(k, v). (k, JValue (VString v) True)) ps) =
    Inr ((if first \<or> ps = [] then [] else ''&'') @ query_text ps)"
  using assms
proof (induction ps arbitrary: first)
  case (Cons p ps)
  obtain k v where p: "p = (k, v)" by (cases p)
  with Cons unquoted_text [of v pf True] show ?case
    by (cases "ps = []") (auto simp: query_text_def join_Cons)
qed (simp add: query_text_def)

lemma map_of_reorder:
  assumes "distinct (map fst ps)" "walks_keys pf (map fst ps)"
  shows "map_of (reorder pf ps) = map_of ps" "distinct (map fst (reorder pf ps))" "set (reorder pf ps) \<subseteq> set ps"
proof -
  let ?ks = "iter_order pf (map fst ps)"
  have s: "distinct ?ks" "set ?ks = fst ` set ps" using assms(2) by (simp_all add: walks_keys_def)
  have f: "map fst (reorder pf ps) = ?ks" by (simp add: reorder_def o_def)
  with s(1) show d: "distinct (map fst (reorder pf ps))" by simp
  have v: "(k, the (map_of ps k)) \<in> set ps" if "k \<in> fst ` set ps" for k
    using that assms(1) by auto
  then show sub: "set (reorder pf ps) \<subseteq> set ps" using s(2) by (auto simp: reorder_def)
  show "map_of (reorder pf ps) = map_of ps"
  proof
    fix k
    show "map_of (reorder pf ps) k = map_of ps k"
    proof (cases "k \<in> fst ` set ps")
      case True
      then obtain w where w: "map_of ps k = Some w" by (cases "map_of ps k") (auto simp: map_of_eq_None_iff)
      from True s(2) have "k \<in> set ?ks" by simp
      then have "(k, the (map_of ps k)) \<in> set (reorder pf ps)" unfolding reorder_def set_map by (rule imageI)
      then have "(k, w) \<in> set (reorder pf ps)" by (simp only: w option.sel)
      with d have "map_of (reorder pf ps) k = Some w" by (rule map_of_is_SomeI)
      with w show ?thesis by (simp del: map_of_eq_Some_iff)
    next
      case False
      moreover from False s(2) f have "k \<notin> fst ` set (reorder pf ps)" by (metis set_map)
      ultimately show ?thesis by (metis map_of_eq_None_iff)
    qed
  qed
qed

text \<open>
  The query string of a JSON object of strings reads back as the same parameters, in
  whatever order the table is walked; but the strings of the caller's object have lost their
  quotes for good, since the loop marks them through references.
\<close>

theorem query_json_roundtrip:
  assumes "\<forall>p \<in> set ps. clean_param p \<and> length (snd p) \<le> string_buffer_size" "distinct (map fst ps)"
    and "walks_keys pf (map fst ps)"
  shows "\<exists>q. get_query_string_from_query_json pf (JObject False (map (\<lambda>(k, v). (k, JValue (VString v) True)) ps) []) =
      Inr (q, JObject False (map (\<lambda>(k, v). (k, JValue (VString v) False)) ps) []) \<and>
    map_of (deserialize_query_params q) = map_of ps"
proof -
  let ?f = "\<lambda>(k, v). (k, JValue (VString v) True :: 'a json)"
  have r: "reorder pf (map ?f ps) = map ?f (reorder pf ps)"
  proof -
    have "map fst (map ?f ps) = map fst ps" by (induction ps) auto
    moreover have "(k, the (map_of (map ?f ps) k)) = ?f (k, the (map_of ps k))" if "k \<in> set (iter_order pf (map fst ps))" for k
    proof -
      from that have "k \<in> fst ` set ps" using assms(3) by (simp add: walks_keys_def)
      then obtain v where v: "map_of ps k = Some v" using assms(2) by auto
      have "map_of (map ?f ps) k = map_option (\<lambda>v. JValue (VString v) True) (map_of ps k)"
        by (induction ps) auto
      with v show ?thesis by simp
    qed
    ultimately show ?thesis unfolding reorder_def map_map by (intro map_cong) (simp_all only: o_apply)
  qed
  note ro = map_of_reorder [OF assms(2,3)]
  have "query_pieces pf True (map ?f (reorder pf ps)) = Inr (query_text (reorder pf ps))"
    using query_pieces_text [of "reorder pf ps" pf True] ro(3) assms(1) by auto
  moreover have "map (\<lambda>(k, v). (k, unquote v)) (map ?f ps) = map (\<lambda>(k, v). (k, JValue (VString v) False)) ps"
    by (auto simp: unquote_def)
  moreover have "deserialize_query_params (query_text (reorder pf ps)) = reorder pf ps"
    using ro(2,3) assms(1) by (intro query_params_read) auto
  ultimately show ?thesis using r ro(1) by (auto simp: get_query_string_from_query_json_def)
qed


theorem query_json_roundtrip_witness:
  "\<exists>q. get_query_string_from_query_json demo_platform (JObject False (map (\<lambda>(k, v). (k, JValue (VString v) True))
        [(''a'', ''1''), (''b'', ''x=y'')]) []) =
      Inr (q, JObject False (map (\<lambda>(k, v). (k, JValue (VString v) False)) [(''a'', ''1''), (''b'', ''x=y'')]) []) \<and>
    map_of (deserialize_query_params q) = map_of [(''a'', ''1''), (''b'', ''x=y'')]"
  by (rule query_json_roundtrip)
    (simp_all add: clean_param_def clean_word_def no_break_def string_buffer_size_def walks_keys_def demo_platform_def)

end
