(* ===== verification/Spec2Isabelle.thy ===== *)
theory Spec2Isabelle
  imports OrderBook_Props OrderBook_Tests OrderBook_Feed MPSC_Threads CachePool Json_Roundtrip Utilities Dates Base64 Event_Bases
    Coroutines_Props Streaming_Answers Epoll_Runtime Server_Props Response_Content ShareString JsonHeap_Program Json_Access Http_Faults Http_Query Http_Socket
begin

text \<open>
  A model of the order book server of this repository and the theorems about it.

  The server. It plays a file of market-by-order messages into a limit order book and serves the book over
  HTTP(S). \<open>main.cpp\<close> registers four routes and starts a server socket on an epoll event base,
  whose thread accepts connections, reads requests and runs the handlers of the routes as coroutines. A
  handler starts or stops the stream or asks for a snapshot; the stream and the snapshots are coroutines of
  a second event base with a thread of its own, the gateway. Handlers wait for them through futures.
  Requests and snapshots are JSON values, which live in object pools with reference counts; the ready tasks
  of an event base are in a lock-free queue.

  The theories, from the bottom to the top. What a definition models is named by the source file and
  function in the section that holds it.

  \<^item> \<open>Prelude\<close>: machine integers, the errors of C++ code as values (an exception,
    \<open>std::terminate\<close>, undefined behaviour of a named kind), the \<open>result\<close> type with
    \<open>bindE\<close> and \<open>foldE\<close>, checked 64-bit arithmetic and checked vector access.
    \<open>Ring\<close>: the index arithmetic of the two ring buffers, and the contract
    \<open>bounded_fifo\<close>. \<open>Cpp_Strings\<close>: \<open>std::string\<close> and
    \<open>std::string_view\<close>. \<open>RefCount\<close>: 32-bit reference counts.
  \<^item> \<open>OrderBook\<close>, \<open>OrderBook_Queries\<close>, \<open>OrderBook_Feed\<close>:
    \<open>src/orderbook/orderbook.h\<close>, its state and messages, its queries, and the JSON it makes.
    \<open>OrderBook_Inv\<close>: the invariant of levels, lists, iterators and totals.
    \<open>OrderBook_Spec\<close>: the book as one list of resting orders in time priority, and the forward
    simulation. \<open>OrderBook_Props\<close>: price-time priority, depth, best quotes, errors and totals
    for every feed. \<open>OrderBook_Tests\<close>: the unit tests of the repository, which pass on the
    model.
  \<^item> \<open>CachePool\<close> (\<open>core/cache/cache_pool.h\<close>) with the contract
    \<open>resource_pool\<close>; \<open>MPSCQueue\<close> and \<open>MPSC_Threads\<close>
    (\<open>core/queue/mpsc_queue.h\<close>), once as one thread sees it and once cut at its atomic
    accesses, for any number of producers; \<open>ShareString\<close>
    (\<open>core/cache/share_string\<close>) and its refinement of plain texts.
  \<^item> \<open>Json\<close>, \<open>Json_Access\<close> (\<open>core/json\<close>): values as trees, the
    operations on them, both writers with the contract \<open>char_sink\<close>, conversions and arithmetic.
    \<open>JsonParse\<close>, \<open>Json_Roundtrip\<close>: the parser and what it does with the text of a
    value and with other texts. \<open>JsonHeap\<close> with \<open>JsonHeap_Inv\<close>,
    \<open>JsonHeap_Slots\<close>, \<open>JsonHeap_Ops\<close>, \<open>JsonHeap_Program\<close>: the same
    values as pointers into pools, where copies share; for any program the reference counts are exact.
  \<^item> \<open>Coroutines\<close> (\<open>core/coroutine\<close>) and the chain
    \<open>Coroutines_Inv\<close>, \<open>_Ops\<close>, \<open>_Step\<close>, \<open>_Run\<close>,
    \<open>_Sched\<close>, \<open>_Safe\<close>, \<open>_Results\<close>, \<open>_Props\<close>: tasks,
    futures and event bases. A body is a codatatype of segments: it may await for ever (\<open>polling\<close>), while
    what it does between two suspensions is finite. No freed frame is touched, nothing leaks, tasks return the
    values of their bodies, and loops become idle when every body \<open>finishes\<close>.
  \<^item> \<open>Event_Bases\<close> (\<open>core/coroutine/event_base_manager.h\<close>): one event base
    and one thread for each id; the coroutines by which the book answers through futures.
  \<^item> \<open>Epoll\<close>, \<open>Timers\<close>, \<open>Timers_Inv\<close>,
    \<open>Timers_Run\<close>, \<open>Epoll_Runtime\<close> (\<open>core/coroutine/epoll_base.cpp\<close>,
    \<open>core/system_io\<close>, \<open>core/time\<close>): the epoll set with the objects registered in
    it, over a model of the descriptors of the kernel, and the coroutine runtime on top of it. Interfaces:
    \<open>io_objects\<close>, what an object must do so that the loop keeps the set exact, and
    \<open>ready_tasks\<close>, what the code run by tasks and timers may ask of the loop.
  \<^item> \<open>Http_Request\<close>, \<open>Http_Response\<close>, \<open>Http_Routes\<close>
    (\<open>core/network/https_server\<close>): from the text of a request to the text of the response;
    \<open>Http_Roundtrip\<close>, \<open>Http_Query\<close>, \<open>Http_Faults\<close>: what a client
    writes is what the server reads, and which texts break it. \<open>Response_Content\<close>: who owns and
    who frees the content of a response.
  \<^item> \<open>Http_Socket\<close>, \<open>Tls\<close>, \<open>Https_Socket\<close>,
    \<open>Server_Sockets\<close> with \<open>Server_Inv\<close> and \<open>Server_Props\<close>
    (\<open>core/system_io/https_server_io\<close>, \<open>core/network/tls_wrapper\<close>): connections,
    with and without TLS, from \<open>accept\<close> to \<open>close\<close>, on the event base of
    \<open>Epoll\<close> and with the pool of \<open>CachePool\<close>. Every request is a coroutine of its own; the
    pending ones take their steps (handler, then write) in any order.
  \<^item> \<open>Streaming\<close> with \<open>Streaming_Inv\<close>, \<open>Streaming_Run\<close>,
    \<open>Streaming_Props\<close> (\<open>dbn_wrapper.h\<close>, \<open>orderbook_controller.cpp\<close>,
    the routes of \<open>main.cpp\<close>): the two threads that share the book and the wrapper of the file,
    interleaved at every access to what they share. \<open>Streaming_Answers\<close>: every snapshot that is
    answered shows the book after a prefix of the file.
  \<^item> \<open>Utilities\<close>, \<open>Dates\<close>, \<open>Base64\<close> (\<open>core/utils\<close>,
    \<open>core/enum_reflect\<close>): string helpers, latency percentiles, the spin lock, enumeration
    names, the texts of dates with the calendar behind them, the base64 coder
    with its 32-bit counters.

  How the code appears. A class is a record of its members, an enumeration or a virtual class hierarchy a
  datatype, a method a function from state to \<open>result\<close>. Pointers are indices into a pool or
  keys of a map from which freed objects are gone, so that a use after free is an error of the model and not
  a value. Unsigned integers are words or are taken modulo \<open>2 ^ 64\<close>; signed overflow is the
  error \<open>Signed_Overflow\<close>. What another thread, the kernel, OpenSSL, the file reader of
  databento or the clock does is a parameter or an event of a run, and each theorem about runs quantifies
  over all of them.

  Loops and bounds. Loops over indices are structural or have a measure. The parser's mutual recursion and
  \<open>deep_clone\<close> take fuel, an upper bound of the calls: \<open>Json_Roundtrip\<close> shows how
  much is enough for the text of a value, and that for some texts no fuel is. A loop that may
  run for ever in the code (\<open>form_loop\<close>, \<open>split_from\<close>) is a partial function with result
  \<open>None\<close> in that case; the operations that go through the parser or may end the process have
  \<open>None\<close> for not returning as well. The loop of an event base is a step relation: that it becomes
  idle is proved from a well-founded order on what the bodies still have to do. The base64 coder is proved for
  inputs whose encoded text is shorter than \<open>2 ^ 31\<close> bytes, the width of its \<open>int\<close>. The
  theorems about the cached totals and the reference counts bound the number of orders or of operations by
  \<open>2 ^ 32\<close>, the width of the counters; \<open>stream_setting\<close> bounds the messages of a
  file by \<open>2 ^ 31\<close>, the width of \<open>count_mbo_msgs\<close>.

  Hypotheses. The feed is \<open>admissible\<close>: the price of an addition or a change lies inside the
  limits of the book, an addition does not reuse the id of an order that still rests, and the distance of
  any price to the lowest is representable. Where depth or quotes are read, the prices lie on the ticks of the
  book (\<open>on_tick\<close>, \<open>on_grid\<close>). The order in which an \<open>unordered_map\<close> is walked
  is any order that visits each key once (\<open>table_order\<close>). Floating point numbers are a type parameter with the operations
  that the code uses on them (\<open>doubles\<close>, \<open>stream_doubles\<close>, the writer and reader
  of numbers in \<open>platform\<close>); a theorem that needs a law of them has it as a hypothesis, and its
  witness has an instance.

  Not modelled, and why. Logging, the pinning of threads, the demangling of type names and the exit on a
  failing \<open>epoll_create1\<close> change no state of the program. Copies
  and moves that are deleted or defaulted, and methods that return a member, are what the record is.
  \<open>MeasureTime\<close>, which logs the time between two points, and the helpers on floating point
  numbers of \<open>utils.h\<close> compute with the clock or with rounding only. \<open>Json::sort\<close>
  and the iterators call the containers of the standard library; capacities of containers are not visible in
  the model. \<open>ssl_info_callback\<close> prints. Data races that are undefined behaviour by the memory
  model (the plain pointers which two threads share in \<open>DbnWrapper\<close> and
  \<open>OrderBookController\<close>) are modelled as interleavings, which is what they amount to at best.
\<close>

end
